(* ===== verification/Prelude.thy ===== *)
theory Prelude
  imports Main "HOL-Library.Word" "HOL-Library.List_Lexorder" "HOL-Library.Signed_Division"
    "HOL-Library.Multiset" "HOL-Library.Char_ord"
begin

text \<open>
  Shared vocabulary of the development: the error monad in which every fallible Go
  function is written, bytes and strings, big-endian integers, the UTF-8 check and the
  signed 64-bit arithmetic of the Go standard library, and the list facts the component
  theories share.

  A Go \<open>string\<close> is a HOL \<open>string\<close> (a list of 8-bit characters, as Go strings are byte
  sequences), a \<open>[]byte\<close> a list of 8-bit words; \<open>bytes_of\<close> and \<open>string_of\<close> are the
  two conversions between them.
\<close>

named_theorems bindE_simps \<open>unfolding a successful or failed step of the error monad\<close>

section \<open>The error monad\<close>

text \<open>A Go function returning \<open>(T, error)\<close> returns \<open>Inl e\<close> or \<open>Inr x\<close> here.\<close>

definition bindE :: "'e + 'a \<Rightarrow> ('a \<Rightarrow> 'e + 'b) \<Rightarrow> 'e + 'b" where
  "bindE m f = (case m of Inl e \<Rightarrow> Inl e | Inr x \<Rightarrow> f x)"

lemma bindE_Inl [simp]: "bindE (Inl e) f = Inl e"
  by (simp add: bindE_def)

lemma bindE_Inr [simp]: "bindE (Inr x) f = f x"
  by (simp add: bindE_def)

lemma bindE_cong [fundef_cong]:
  "m = m' \<Longrightarrow> (\<And>x. m' = Inr x \<Longrightarrow> f x = f' x) \<Longrightarrow> bindE m f = bindE m' f'"
  by (simp add: bindE_def split: sum.splits)

lemma bindE_eq_Inr [bindE_simps]: "bindE m f = Inr y \<longleftrightarrow> (\<exists>x. m = Inr x \<and> f x = Inr y)"
  by (simp add: bindE_def split: sum.splits)

lemma bindE_eq_Inl [bindE_simps]:
  "bindE m f = Inl e \<longleftrightarrow> m = Inl e \<or> (\<exists>x. m = Inr x \<and> f x = Inl e)"
  by (simp add: bindE_def split: sum.splits)

lemma bindE_assoc: "bindE (bindE m f) g = bindE m (\<lambda>x. bindE (f x) g)"
  by (simp add: bindE_def split: sum.splits)

lemma bindE_InrE [elim]:
  assumes "bindE m f = Inr y"
  obtains x where "m = Inr x" and "f x = Inr y"
  using assms by (auto simp: bindE_eq_Inr)

text \<open>An error of one package wrapped by its caller (\<open>fmt.Errorf("...: %w", err)\<close>).\<close>

definition mapErr :: "('e \<Rightarrow> 'f) \<Rightarrow> 'e + 'a \<Rightarrow> 'f + 'a" where
  "mapErr w m = (case m of Inl e \<Rightarrow> Inl (w e) | Inr x \<Rightarrow> Inr x)"

lemma mapErr_Inl [simp]: "mapErr w (Inl e) = Inl (w e)"
  by (simp add: mapErr_def)

lemma mapErr_Inr [simp]: "mapErr w (Inr x) = Inr x"
  by (simp add: mapErr_def)

lemma mapErr_eq_Inr [simp]: "mapErr w m = Inr x \<longleftrightarrow> m = Inr x"
  by (simp add: mapErr_def split: sum.splits)

lemma mapErr_eq_Inl: "mapErr w m = Inl f \<longleftrightarrow> (\<exists>e. m = Inl e \<and> f = w e)"
  by (auto simp: mapErr_def split: sum.splits)

text \<open>
  A loop \<open>for _, x := range xs\<close> whose body may return an error and otherwise appends
  one result.
\<close>

fun mapE :: "('a \<Rightarrow> 'e + 'b) \<Rightarrow> 'a list \<Rightarrow> 'e + 'b list" where
  "mapE f [] = Inr []"
| "mapE f (x # xs) = bindE (f x) (\<lambda>y. bindE (mapE f xs) (\<lambda>ys. Inr (y # ys)))"

lemma mapE_cong [fundef_cong]:
  "xs = ys \<Longrightarrow> (\<And>x. x \<in> set ys \<Longrightarrow> f x = g x) \<Longrightarrow> mapE f xs = mapE g ys"
  by (induction ys arbitrary: xs) auto

lemma mapE_eq_Inr: "mapE f xs = Inr ys \<longleftrightarrow> list_all2 (\<lambda>x y. f x = Inr y) xs ys"
  by (induction xs arbitrary: ys) (auto simp: bindE_eq_Inr list_all2_Cons1)

lemma mapE_Inr_map: "(\<And>x. x \<in> set xs \<Longrightarrow> f x = Inr (g x)) \<Longrightarrow> mapE f xs = Inr (map g xs)"
  by (induction xs) auto

lemma mapE_length: "mapE f xs = Inr ys \<Longrightarrow> length ys = length xs"
  by (simp add: mapE_eq_Inr list_all2_lengthD)

lemma mapE_nth: "mapE f xs = Inr ys \<Longrightarrow> i < length xs \<Longrightarrow> f (xs ! i) = Inr (ys ! i)"
  by (auto simp: mapE_eq_Inr list_all2_conv_all_nth)

lemma mapE_eq_InrI:
  "length ys = length xs \<Longrightarrow> (\<And>i. i < length xs \<Longrightarrow> f (xs ! i) = Inr (ys ! i)) \<Longrightarrow>
    mapE f xs = Inr ys"
  by (simp add: mapE_eq_Inr list_all2_conv_all_nth)

lemma mapE_ball: "mapE f xs = Inr ys \<Longrightarrow> x \<in> set xs \<Longrightarrow> \<exists>y \<in> set ys. f x = Inr y"
  by (auto simp: mapE_eq_Inr list_all2_conv_all_nth in_set_conv_nth)

section \<open>Bytes and strings\<close>

type_synonym byte = "8 word"
type_synonym uint64 = "64 word"

text \<open>A Go \<open>int64\<close>: 64 bits, read as two's complement by \<open>sint\<close>.\<close>

type_synonym int64 = "64 word"

lemma unat_byte_less [simp]: "unat (b :: byte) < 256"
  using unsigned_less [of b, where 'a = nat] by simp

text \<open>A byte below a power of two has no bit from that power on.\<close>

lemma mask_bits: "w < 2 ^ k \<Longrightarrow> bit (w :: byte) n \<Longrightarrow> n < k"
  by (metis less_mask_eq bit_and_iff bit_mask_iff)

definition byte_of_char :: "char \<Rightarrow> byte" where
  "byte_of_char c = word_of_nat (of_char c)"

definition char_of_byte :: "byte \<Rightarrow> char" where
  "char_of_byte b = char_of (unat b)"

definition bytes_of :: "string \<Rightarrow> byte list" where
  "bytes_of s = map byte_of_char s"

definition string_of :: "byte list \<Rightarrow> string" where
  "string_of bs = map char_of_byte bs"

lemma char_of_byte_inverse [simp]: "byte_of_char (char_of_byte b) = b"
  by (simp add: byte_of_char_def char_of_byte_def)

lemma byte_of_char_inverse [simp]: "char_of_byte (byte_of_char c) = c"
  by (simp add: byte_of_char_def char_of_byte_def unat_of_nat)

lemma byte_of_char_inject [simp]: "byte_of_char c = byte_of_char d \<longleftrightarrow> c = d"
  by (metis byte_of_char_inverse)

lemma string_of_bytes_of [simp]: "string_of (bytes_of s) = s"
  by (simp add: string_of_def bytes_of_def comp_def)

lemma bytes_of_string_of [simp]: "bytes_of (string_of bs) = bs"
  by (simp add: string_of_def bytes_of_def comp_def)

lemma bytes_of_inject [simp]: "bytes_of s = bytes_of t \<longleftrightarrow> s = t"
  by (metis string_of_bytes_of)

lemma string_of_inject [simp]: "string_of a = string_of b \<longleftrightarrow> a = b"
  by (metis bytes_of_string_of)

lemma length_bytes_of [simp]: "length (bytes_of s) = length s"
  by (simp add: bytes_of_def)

lemma length_string_of [simp]: "length (string_of bs) = length bs"
  by (simp add: string_of_def)

lemma bytes_of_Nil [simp]: "bytes_of [] = []"
  by (simp add: bytes_of_def)

lemma bytes_of_Cons [simp]: "bytes_of (c # s) = byte_of_char c # bytes_of s"
  by (simp add: bytes_of_def)

lemma bytes_of_append [simp]: "bytes_of (s @ t) = bytes_of s @ bytes_of t"
  by (simp add: bytes_of_def)

section \<open>Big-endian integers (\<open>encoding/binary\<close>)\<close>

text \<open>\<open>be_bytes k n\<close> is the \<open>k\<close> low bytes of \<open>n\<close>, most significant first.\<close>

fun be_bytes :: "nat \<Rightarrow> nat \<Rightarrow> byte list" where
  "be_bytes 0 n = []"
| "be_bytes (Suc k) n = be_bytes k (n div 256) @ [word_of_nat n]"

definition be_nat :: "byte list \<Rightarrow> nat" where
  "be_nat bs = foldl (\<lambda>a b. a * 256 + unat b) 0 bs"

lemma be_nat_Nil [simp]: "be_nat [] = 0"
  by (simp add: be_nat_def)

lemma be_nat_snoc [simp]: "be_nat (bs @ [b]) = be_nat bs * 256 + unat b"
  by (simp add: be_nat_def)

lemma length_be_bytes [simp]: "length (be_bytes k n) = k"
  by (induction k arbitrary: n) auto

lemma be_nat_be_bytes: "be_nat (be_bytes k n) = n mod 256 ^ k"
proof (induction k arbitrary: n)
  case (Suc k)
  have "be_nat (be_bytes (Suc k) n) = (n div 256) mod 256 ^ k * 256 + n mod 256"
    by (simp add: Suc.IH unat_of_nat)
  also have "\<dots> = n mod 256 ^ Suc k"
    by (simp add: mod_mult2_eq mult.commute)
  finally show ?case .
qed simp

lemma be_nat_less: "be_nat bs < 256 ^ length bs"
proof (induction bs rule: rev_induct)
  case (snoc b bs)
  have "unat b < 256"
    by (rule unat_byte_less)
  with snoc.IH have "be_nat bs * 256 + unat b < 256 ^ length bs * 256"
    by linarith
  then show ?case by (simp add: mult.commute)
qed simp

lemma be_bytes_be_nat: "be_bytes (length bs) (be_nat bs) = bs"
proof (induction bs rule: rev_induct)
  case (snoc b bs)
  have lt: "unat b < 256"
    by (rule unat_byte_less)
  then have "(be_nat bs * 256 + unat b) div 256 = be_nat bs"
    by simp
  moreover have "word_of_nat (be_nat bs * 256 + unat b) = b"
    unfolding word_unat_eq_iff unat_of_nat using lt by simp
  ultimately show ?case
    using snoc.IH by simp
qed simp

section \<open>UTF-8 (\<open>unicode/utf8\<close>)\<close>

text \<open>
  \<open>utf8.Valid\<close>: the byte sequences of the Unicode standard's table of well-formed UTF-8,
  so no overlong form, no surrogate and nothing above U+10FFFF.
\<close>

definition cont_byte :: "byte \<Rightarrow> bool" where
  "cont_byte b \<longleftrightarrow> 0x80 \<le> b \<and> b \<le> 0xBF"

fun utf8_valid :: "byte list \<Rightarrow> bool" where
  "utf8_valid [] = True"
| "utf8_valid (b # bs) =
    (if b \<le> 0x7F then utf8_valid bs
     else if 0xC2 \<le> b \<and> b \<le> 0xDF then
       (case bs of c1 # r \<Rightarrow> cont_byte c1 \<and> utf8_valid r | _ \<Rightarrow> False)
     else if 0xE0 \<le> b \<and> b \<le> 0xEF then
       (case bs of c1 # c2 # r \<Rightarrow>
          cont_byte c1 \<and> (b = 0xE0 \<longrightarrow> 0xA0 \<le> c1) \<and> (b = 0xED \<longrightarrow> c1 \<le> 0x9F) \<and>
          cont_byte c2 \<and> utf8_valid r
        | _ \<Rightarrow> False)
     else if 0xF0 \<le> b \<and> b \<le> 0xF4 then
       (case bs of c1 # c2 # c3 # r \<Rightarrow>
          cont_byte c1 \<and> (b = 0xF0 \<longrightarrow> 0x90 \<le> c1) \<and> (b = 0xF4 \<longrightarrow> c1 \<le> 0x8F) \<and>
          cont_byte c2 \<and> cont_byte c3 \<and> utf8_valid r
        | _ \<Rightarrow> False)
     else False)"

definition valid_string :: "string \<Rightarrow> bool" where
  "valid_string s = utf8_valid (bytes_of s)"

lemma utf8_valid_ascii: "(\<And>b. b \<in> set bs \<Longrightarrow> b \<le> 0x7F) \<Longrightarrow> utf8_valid bs"
  by (induction bs) auto

section \<open>Signed 64-bit arithmetic\<close>

text \<open>
  Go's \<open>/\<close> and \<open>%\<close> on \<open>int64\<close> truncate towards zero; the result is taken back to
  64 bits, which matters only for the quotient of the least value by \<open>-1\<close>.
\<close>

definition quot64 :: "int64 \<Rightarrow> int64 \<Rightarrow> int64" where
  "quot64 a b = word_of_int (sint a sdiv sint b)"

definition rem64 :: "int64 \<Rightarrow> int64 \<Rightarrow> int64" where
  "rem64 a b = word_of_int (sint a smod sint b)"

definition max_int64 :: uint64 where
  "max_int64 = 0x7FFFFFFFFFFFFFFF"

lemma sint_bounds64: "- (2 ^ 63) \<le> sint (w :: 64 word) \<and> sint w < 2 ^ 63"
  using sint_greater_eq [of w] sint_less [of w] by simp

lemma sint_word_of_int64:
  "- (2 ^ 63) \<le> i \<Longrightarrow> i < 2 ^ 63 \<Longrightarrow> sint (word_of_int i :: 64 word) = i"
  by (simp add: sint_sbintrunc' signed_take_bit_int_eq_self)

section \<open>Codecs\<close>

text \<open>
  What a strict encoder and decoder promise each other on inputs of admissible size: the
  decoder accepts exactly what the encoder writes, and gives back the normal form of the
  value. Every codec of the program is an interpretation.
\<close>

locale codec =
  fixes enc :: "'a \<Rightarrow> 'e + 'b"
    and dec :: "'b \<Rightarrow> 'f + 'a"
    and norm :: "'a \<Rightarrow> 'a"
    and bounded :: "'b \<Rightarrow> bool"
  assumes dec_enc: "enc v = Inr b \<Longrightarrow> bounded b \<Longrightarrow> dec b = Inr (norm v)"
    and enc_dec: "dec b = Inr v \<Longrightarrow> bounded b \<Longrightarrow> enc v = Inr b"
begin

lemma dec_norm: "dec b = Inr v \<Longrightarrow> bounded b \<Longrightarrow> norm v = v"
  using dec_enc [OF enc_dec] by simp

lemma enc_norm: "enc v = Inr b \<Longrightarrow> bounded b \<Longrightarrow> enc (norm v) = Inr b"
  by (rule enc_dec [OF dec_enc])

lemma norm_norm: "enc v = Inr b \<Longrightarrow> bounded b \<Longrightarrow> norm (norm v) = norm v"
  by (rule dec_norm [OF dec_enc])

lemma dec_inject: "dec b = Inr v \<Longrightarrow> dec c = Inr v \<Longrightarrow> bounded b \<Longrightarrow> bounded c \<Longrightarrow> b = c"
  by (drule enc_dec, assumption, drule enc_dec, assumption, simp)

lemma enc_eq_iff: "enc v = Inr b \<Longrightarrow> enc w = Inr c \<Longrightarrow> bounded b \<Longrightarrow> bounded c \<Longrightarrow>
    b = c \<longleftrightarrow> norm v = norm w"
  by (metis dec_enc enc_norm sum.inject(2))

lemma dec_iff: "bounded b \<Longrightarrow> dec b = Inr v \<longleftrightarrow> enc v = Inr b \<and> norm v = v"
  by (metis dec_enc dec_norm enc_dec)

end

end
