(* ===== verification/Dcbor_Value.thy ===== *)
theory Dcbor_Value
  imports Prelude
begin

text \<open>
  The value type of Dialog's deterministic CBOR profile (\<open>go/dcbor/value.go\<close>): the eight
  kinds of value, the canonicalising constructor \<open>NewDecimal\<close>, the canonicality check of a
  decimal fraction, map lookup and the equality of values. The lemmas show that
  \<open>NewDecimal\<close> keeps the number it is given, returns canonical decimals only, and fails
  exactly when a whole number leaves the signed 64-bit range.
\<close>

section \<open>Values\<close>

text \<open>
  \<open>Nil\<close> is the nil interface, which Go lets a caller put anywhere a \<open>Value\<close> is expected;
  a map is the slice of its entries, in the order the slice holds them.
\<close>

datatype cbor_value =
    Uint uint64
  | Neg uint64
  | Decimal (Exponent: int64) (Mantissa: int64)
  | Text string
  | Bytes "byte list"
  | Array "cbor_value list"
  | Map "(string \<times> cbor_value) list"
  | Null
  | NilValue

type_synonym cbor_map = "(string \<times> cbor_value) list"

definition max_depth :: nat where
  "max_depth = 64"

section \<open>Integers and decimal fractions\<close>

text \<open>\<open>Int\<close>: the CBOR integer for an \<open>int64\<close>.\<close>

definition int_value :: "int64 \<Rightarrow> cbor_value" where
  "int_value i = (if sint i < 0 then Neg (- (i + 1)) else Uint i)"

definition uint_int64 :: "uint64 \<Rightarrow> int64 option" where
  "uint_int64 u = (if max_int64 < u then None else Some u)"

definition neg_int64 :: "uint64 \<Rightarrow> int64 option" where
  "neg_int64 n = (if max_int64 < n then None else Some (- 1 - n))"

datatype decimal_error =
    Exponent_not_negative int64
  | Mantissa_zero
  | Mantissa_divisible_by_10 int64
  | Overflows_int64 int64 int64

definition check_canonical :: "int64 \<Rightarrow> int64 \<Rightarrow> decimal_error + unit" where
  "check_canonical e m =
    (if sint e \<ge> 0 then Inl (Exponent_not_negative e)
     else if m = 0 then Inl Mantissa_zero
     else if rem64 m 10 = 0 then Inl (Mantissa_divisible_by_10 m)
     else Inr ())"

text \<open>The first loop of \<open>NewDecimal\<close>: trailing zeros of the mantissa go to the exponent.\<close>

lemma sint_succ_neg: "sint (e :: int64) < 0 \<Longrightarrow> sint (e + 1) = sint e + 1"
  using sint_bounds64 [of e] by (simp add: signed_word_eqI sint_word_ariths signed_take_bit_int_eq_self)

lemma sint_pred_pos: "0 < sint (e :: int64) \<Longrightarrow> sint (e - 1) = sint e - 1"
  using sint_bounds64 [of e] by (simp add: sint_word_ariths signed_take_bit_int_eq_self)

function strip_zeros :: "int64 \<Rightarrow> int64 \<Rightarrow> int64 \<times> int64" where
  "strip_zeros e m =
    (if sint e < 0 \<and> rem64 m 10 = 0 then strip_zeros (e + 1) (quot64 m 10) else (e, m))"
  by pat_completeness auto
termination
  by (relation "measure (\<lambda>(e, m). nat (- sint e))") (auto simp: sint_succ_neg)

text \<open>The second loop: a whole number is multiplied out, and the overflow of each product seen.\<close>

function scale_up :: "int64 \<Rightarrow> int64 \<Rightarrow> decimal_error + int64" where
  "scale_up e m =
    (if 0 < sint e then
       (let scaled = m * 10
        in if quot64 scaled 10 \<noteq> m then Inl (Overflows_int64 m e) else scale_up (e - 1) scaled)
     else Inr m)"
  by pat_completeness auto
termination
  by (relation "measure (\<lambda>(e, m). nat (sint e))") (auto simp: sint_pred_pos)

declare strip_zeros.simps [simp del] scale_up.simps [simp del]

definition new_decimal :: "int64 \<Rightarrow> int64 \<Rightarrow> decimal_error + cbor_value" where
  "new_decimal e m =
    (if m = 0 then Inr (Uint 0)
     else (case strip_zeros e m of (e', m') \<Rightarrow>
       if sint e' < 0 then Inr (Decimal e' m')
       else bindE (scale_up e' m') (\<lambda>m''. Inr (int_value m''))))"

section \<open>Maps and equality\<close>

fun map_get :: "cbor_map \<Rightarrow> string \<Rightarrow> cbor_value option" where
  "map_get [] key = None"
| "map_get ((k, v) # m) key = (if k = key then Some v else map_get m key)"

function (sequential) equal_value :: "cbor_value \<Rightarrow> cbor_value \<Rightarrow> bool" where
  "equal_value (Uint a) (Uint b) = (a = b)"
| "equal_value (Neg a) (Neg b) = (a = b)"
| "equal_value (Decimal e m) (Decimal e' m') = (e = e' \<and> m = m')"
| "equal_value (Text s) (Text t) = (s = t)"
| "equal_value (Bytes a) (Bytes b) = (a = b)"
| "equal_value (Array av) (Array bv) =
    (length av = length bv \<and> list_all (\<lambda>(x, y). equal_value x y) (zip av bv))"
| "equal_value (Map av) (Map bv) =
    (length av = length bv \<and>
     list_all (\<lambda>(k, v). case map_get bv k of None \<Rightarrow> False | Some w \<Rightarrow> equal_value v w) av \<and>
     list_all (\<lambda>(k, v). map_get av k \<noteq> None) bv)"
| "equal_value Null Null = True"
| "equal_value _ _ = False"
  by pat_completeness auto
termination
proof (relation "measure (\<lambda>(a, b). size a)", goal_cases)
  case 1
  then show ?case by simp
next
  case (2 av bv z x y)
  then have "x \<in> set av" by (auto dest: set_zip_leftD)
  then have "size x \<le> size_list size av" by (simp add: size_list_estimation')
  then show ?case by simp
next
  case (3 av bv z k v w)
  then have "(k, v) \<in> set av" by simp
  then have "size v \<le> size_list (size_prod (\<lambda>_. 0) size) av"
    by (intro size_list_estimation') auto
  then show ?case by simp
qed

text \<open>\<open>validText\<close>; its second argument only words the message.\<close>

definition valid_text :: "string \<Rightarrow> bool" where
  "valid_text s = valid_string s"

section \<open>What a number denotes\<close>

text \<open>
  A numeric value as mantissa and exponent; two such pairs are the same number when they
  agree after the one with the greater exponent is multiplied out.
\<close>

fun numeric :: "cbor_value \<Rightarrow> (int \<times> int) option" where
  "numeric (Uint u) = Some (uint u, 0)"
| "numeric (Neg n) = Some (- 1 - uint n, 0)"
| "numeric (Decimal e m) = Some (sint m, sint e)"
| "numeric _ = None"

definition same_number :: "int \<times> int \<Rightarrow> int \<times> int \<Rightarrow> bool" where
  "same_number a b \<longleftrightarrow>
    fst a * 10 ^ nat (snd a - snd b) = fst b * 10 ^ nat (snd b - snd a)"

lemma uint_nonneg_int64: "0 \<le> sint (i :: int64) \<Longrightarrow> uint i = sint i"
  using sint_bounds64 [of i] by (simp add: uint_sint take_bit_int_eq_self)

lemma uint_neg_int64:
  assumes "sint (i :: int64) < 0"
  shows "uint (- (i + 1)) = - 1 - sint i"
proof -
  have "- (i + 1) = word_of_int (- 1 - sint i)"
    by simp
  then show ?thesis
    using assms sint_bounds64 [of i] by (simp only: uint_word_of_int_eq) (simp add: take_bit_int_eq_self)
qed

lemma numeric_int_value: "numeric (int_value i) = Some (sint i, 0)"
  using uint_neg_int64 [of i] by (auto simp: int_value_def uint_nonneg_int64)

lemma int_value_inject: "int_value i = int_value j \<Longrightarrow> i = j"
  by (drule arg_cong [where f = numeric]) (simp add: numeric_int_value signed_word_eqI)

lemma sint_10 [simp]: "sint (10 :: int64) = 10"
  by simp

lemma abs_sdiv_10: "\<bar>i sdiv (10::int)\<bar> = \<bar>i\<bar> div 10"
  by (cases "i = 0") (simp_all add: signed_divide_int_def abs_mult abs_sgn_eq pos_imp_zdiv_nonneg_iff)

lemma sint_rem64_10: "sint (rem64 m 10) = sint m smod 10"
  using smod_int_range [of 10 "sint m"] by (simp add: rem64_def sint_word_of_int64)

lemma sint_quot64_10: "sint (quot64 m 10) = sint m sdiv 10"
proof -
  have "\<bar>sint m sdiv 10\<bar> < 2 ^ 63"
    using sint_bounds64 [of m] unfolding abs_sdiv_10 by linarith
  then show ?thesis
    by (simp add: quot64_def sint_word_of_int64)
qed

lemma smod_10_eq_0: "i smod (10::int) = 0 \<longleftrightarrow> 10 dvd i"
  by (simp add: signed_modulo_int_def sgn_eq_0_iff) (auto simp: dvd_eq_mod_eq_0 [symmetric])

lemma rem64_10_eq_0: "rem64 m 10 = 0 \<longleftrightarrow> 10 dvd sint m"
  using sint_rem64_10 [of m] smod_10_eq_0 [of "sint m"] by (metis signed_0 signed_word_eqI)

lemma sdiv_10_dvd: "10 dvd i \<Longrightarrow> 10 * (i sdiv (10::int)) = i"
  using mult_sdiv_smod_eq [of 10 i] smod_10_eq_0 [of i] by simp

lemma sdiv_10_mult: "(10 * i) sdiv (10::int) = i"
  using sdiv_10_dvd [of "10 * i"] by simp

lemma times_10_exact:
  "quot64 (m * 10) 10 = m \<longleftrightarrow> - (2 ^ 63) \<le> sint m * 10 \<and> sint m * 10 < 2 ^ 63"
proof -
  define s where "s = sint (m * 10)"
  have "word_of_int s = (word_of_int (sint m * 10) :: int64)"
    by (simp add: s_def)
  then have "s mod 2 ^ 64 = sint m * 10 mod 2 ^ 64"
    by (simp only: word_of_int_eq_iff take_bit_eq_mod) simp
  then have dvd: "2 ^ 64 dvd s - sint m * 10"
    by (simp only: mod_eq_dvd_iff)
  have near: "10 * (s sdiv 10) + s smod 10 = s" "\<bar>s smod 10\<bar> < 10"
    using mult_sdiv_smod_eq [of 10 s] smod_int_range [of 10 s] by auto
  have "quot64 (m * 10) 10 = m \<longleftrightarrow> s sdiv 10 = sint m"
    using sint_quot64_10 [of "m * 10"] by (metis s_def signed_word_eqI)
  also have "\<dots> \<longleftrightarrow> s = sint m * 10"
  proof
    assume "s sdiv 10 = sint m"
    with near have "\<bar>s - sint m * 10\<bar> < 10" by linarith
    with dvd show "s = sint m * 10"
      using zdvd_not_zless [of "\<bar>s - sint m * 10\<bar>" "2 ^ 64"] by force
  next
    assume "s = sint m * 10"
    then show "s sdiv 10 = sint m"
      using sdiv_10_mult [of "sint m"] by (simp only: mult.commute)
  qed
  also have "\<dots> \<longleftrightarrow> - (2 ^ 63) \<le> sint m * 10 \<and> sint m * 10 < 2 ^ 63"
    using sint_bounds64 [of "m * 10"] sint_word_of_int64 [of "sint m * 10"] by (auto simp: s_def)
  finally show ?thesis .
qed

lemma sint_times_10: "quot64 (m * 10) 10 = m \<Longrightarrow> sint (m * 10) = sint m * 10"
  unfolding times_10_exact using sint_word_of_int64 [of "sint m * 10"] by simp

lemma strip_zeros_spec:
  "strip_zeros e m = (e', m') \<Longrightarrow>
    sint e \<le> sint e' \<and> sint e' \<le> max 0 (sint e) \<and>
    sint m = sint m' * 10 ^ nat (sint e' - sint e) \<and> (sint e' < 0 \<longrightarrow> \<not> 10 dvd sint m')"
proof (induction e m rule: strip_zeros.induct)
  case (1 e m)
  show ?case
  proof (cases "sint e < 0 \<and> rem64 m 10 = 0")
    case True
    then have step: "strip_zeros (e + 1) (quot64 m 10) = (e', m')"
      using "1.prems" by (simp add: strip_zeros.simps [of e m])
    have e1: "sint (e + 1) = sint e + 1"
      using True by (simp add: sint_succ_neg)
    have m1: "sint m = 10 * sint (quot64 m 10)"
      using True by (simp add: rem64_10_eq_0 sint_quot64_10 sdiv_10_dvd)
    note IH = "1.IH" [OF True step]
    have "nat (sint e' - sint e) = Suc (nat (sint e' - (sint e + 1)))"
      using IH e1 by (simp add: Suc_nat_eq_nat_zadd1)
    then show ?thesis
      using IH e1 m1 True by (auto simp: mult_ac)
  next
    case False
    then show ?thesis
      using "1.prems" by (auto simp: strip_zeros.simps [of e m] rem64_10_eq_0)
  qed
qed

lemma scale_up_Inr: "scale_up e m = Inr m' \<Longrightarrow> sint m' = sint m * 10 ^ nat (sint e)"
proof (induction e m rule: scale_up.induct)
  case (1 e m)
  show ?case
  proof (cases "0 < sint e")
    case True
    with "1.prems" have ok: "quot64 (m * 10) 10 = m" and "scale_up (e - 1) (m * 10) = Inr m'"
      by (auto simp: scale_up.simps [of e m] Let_def split: if_splits)
    with "1.IH" [OF True refl] have "sint m' = sint (m * 10) * 10 ^ nat (sint e - 1)"
      using True by (simp add: sint_pred_pos)
    moreover have "nat (sint e) = Suc (nat (sint e - 1))"
      using True by simp
    ultimately show ?thesis
      using sint_times_10 [OF ok] by (simp add: mult_ac)
  next
    case False
    with "1.prems" show ?thesis by (simp add: scale_up.simps [of e m])
  qed
qed

text \<open>The overflow test fires exactly when the whole number is outside the \<open>int64\<close> range.\<close>

definition fits_int64 :: "int \<Rightarrow> bool" where
  "fits_int64 i \<longleftrightarrow> - (2 ^ 63) \<le> i \<and> i < 2 ^ 63"

lemma fits_int64_sint [simp]: "fits_int64 (sint (i :: int64))"
  using sint_bounds64 [of i] by (simp add: fits_int64_def)

lemma not_fits_int64_mult: "\<not> fits_int64 i \<Longrightarrow> \<not> fits_int64 (i * 10 ^ k)"
proof (induction k)
  case (Suc k)
  then show ?case by (auto simp: fits_int64_def not_le not_less)
qed simp

lemma scale_up_Inl:
  "scale_up e m = Inl err \<Longrightarrow> 0 < sint e \<and> \<not> fits_int64 (sint m * 10 ^ nat (sint e))"
proof (induction e m rule: scale_up.induct)
  case (1 e m)
  then have pos: "0 < sint e"
    by (auto simp: scale_up.simps [of e m] split: if_splits)
  then have e1: "nat (sint e) = Suc (nat (sint (e - 1)))"
    by (simp add: sint_pred_pos)
  show ?case
  proof (cases "quot64 (m * 10) 10 = m")
    case True
    then have "scale_up (e - 1) (m * 10) = Inl err"
      using "1.prems" pos by (simp add: scale_up.simps [of e m] Let_def)
    with "1.IH" [OF pos refl] True have "\<not> fits_int64 (sint (m * 10) * 10 ^ nat (sint (e - 1)))"
      by simp
    then show ?thesis
      using sint_times_10 [OF True] e1 pos by (simp add: mult_ac)
  next
    case False
    then have "\<not> fits_int64 (sint m * 10)"
      by (simp add: times_10_exact fits_int64_def)
    from not_fits_int64_mult [OF this, of "nat (sint (e - 1))"] show ?thesis
      using e1 pos by (simp add: mult_ac)
  qed
qed

lemma check_canonical_ok:
  "check_canonical e m = Inr () \<longleftrightarrow> sint e < 0 \<and> m \<noteq> 0 \<and> \<not> 10 dvd sint m"
  by (auto simp: check_canonical_def rem64_10_eq_0)

lemma check_canonical_Decimal:
  "check_canonical e m = Inr x \<longleftrightarrow> sint e < 0 \<and> m \<noteq> 0 \<and> \<not> 10 dvd sint m"
  using check_canonical_ok [of e m] by (cases x) simp

section \<open>Decimals are canonical representatives of numbers\<close>

lemma same_number_common:
  assumes "k \<le> snd a" and "k \<le> snd b"
  shows "same_number a b \<longleftrightarrow> fst a * 10 ^ nat (snd a - k) = fst b * 10 ^ nat (snd b - k)"
proof -
  have *: "same_number a b \<longleftrightarrow> fst a * 10 ^ nat (snd a - k) = fst b * 10 ^ nat (snd b - k)"
    if "k \<le> snd b" "snd b \<le> snd a" for a b :: "int \<times> int"
  proof -
    have "nat (snd a - k) = nat (snd a - snd b) + nat (snd b - k)"
      using that by simp
    then show ?thesis
      using that by (simp add: same_number_def power_add mult.assoc [symmetric])
  qed
  show ?thesis
  proof (cases "snd b \<le> snd a")
    case True
    with * assms show ?thesis by simp
  next
    case False
    with * [of a b] assms have "same_number b a \<longleftrightarrow> fst b * 10 ^ nat (snd b - k) = fst a * 10 ^ nat (snd a - k)"
      by (intro *) auto
    then show ?thesis by (auto simp: same_number_def)
  qed
qed

lemma same_number_refl [simp]: "same_number a a"
  by (simp add: same_number_def)

lemma same_number_sym: "same_number a b \<Longrightarrow> same_number b a"
  by (simp add: same_number_def)

lemma same_number_trans: "same_number a b \<Longrightarrow> same_number b c \<Longrightarrow> same_number a c"
proof -
  assume ab: "same_number a b" and bc: "same_number b c"
  obtain k where k: "k \<le> snd a" "k \<le> snd b" "k \<le> snd c"
    by (metis linorder_linear order_trans)
  show "same_number a c"
    using ab bc unfolding same_number_common [OF k(1,2)] same_number_common [OF k(2,3)]
      same_number_common [OF k(1,3)] by simp
qed

text \<open>The numbers \<open>NewDecimal\<close> returns: integers, and decimals that pass the check.\<close>

fun canonical_number :: "cbor_value \<Rightarrow> bool" where
  "canonical_number (Decimal e m) = (check_canonical e m = Inr ())"
| "canonical_number (Uint u) = (\<not> max_int64 < u)"
| "canonical_number (Neg u) = (\<not> max_int64 < u)"
| "canonical_number _ = False"

lemma strip_zeros_nonzero: "strip_zeros e m = (e', m') \<Longrightarrow> m \<noteq> 0 \<Longrightarrow> m' \<noteq> 0"
  using strip_zeros_spec [of e m e' m'] by (metis mult_zero_left signed_0 signed_word_eqI)

lemma new_decimal_number:
  assumes "new_decimal e m = Inr v"
  obtains a where "numeric v = Some a" and "same_number a (sint m, sint e)"
proof (cases "m = 0")
  case True
  with assms have "v = Uint 0" by (simp add: new_decimal_def)
  then show ?thesis using that True by (simp add: same_number_def)
next
  case False
  obtain e1 m1 where s: "strip_zeros e m = (e1, m1)" by fastforce
  note sp = strip_zeros_spec [OF s]
  show ?thesis
  proof (cases "sint e1 < 0")
    case True
    with assms s False have "v = Decimal e1 m1" by (simp add: new_decimal_def)
    then show ?thesis using that sp by (simp add: same_number_def)
  next
    case neg: False
    with assms s False obtain m2 where m2: "scale_up e1 m1 = Inr m2" and v: "v = int_value m2"
      by (auto simp: new_decimal_def bindE_eq_Inr)
    have "sint m2 = sint m1 * 10 ^ nat (sint e1)"
      by (rule scale_up_Inr [OF m2])
    then have "same_number (sint m2, 0) (sint m1, sint e1)"
      using neg by (simp add: same_number_def)
    moreover have "same_number (sint m1, sint e1) (sint m, sint e)"
      using sp by (simp add: same_number_def)
    ultimately have "same_number (sint m2, 0) (sint m, sint e)"
      by (rule same_number_trans)
    then show ?thesis
      using that by (simp add: v numeric_int_value)
  qed
qed

lemma canonical_int_value: "canonical_number (int_value i)"
proof (cases "sint i < 0")
  case True
  then have "uint (- (i + 1)) = - 1 - sint i"
    by (rule uint_neg_int64)
  then show ?thesis
    using True sint_bounds64 [of i] by (simp add: int_value_def word_less_def max_int64_def)
next
  case False
  then show ?thesis
    using sint_bounds64 [of i] uint_nonneg_int64 [of i]
    by (simp add: int_value_def word_less_def max_int64_def)
qed

lemma new_decimal_canonical:
  assumes "new_decimal e m = Inr v"
  shows "canonical_number v"
proof (cases "m = 0")
  case True
  with assms show ?thesis by (auto simp: new_decimal_def max_int64_def)
next
  case False
  obtain e1 m1 where s: "strip_zeros e m = (e1, m1)" by fastforce
  show ?thesis
  proof (cases "sint e1 < 0")
    case True
    with assms s False have "v = Decimal e1 m1" by (simp add: new_decimal_def)
    then show ?thesis
      using strip_zeros_spec [OF s] strip_zeros_nonzero [OF s False] True by (simp add: check_canonical_ok)
  next
    case neg: False
    with assms s False show ?thesis
      by (auto simp: new_decimal_def bindE_eq_Inr canonical_int_value)
  qed
qed

text \<open>Two canonical numbers that denote the same number are the same value.\<close>

lemma not_dvd_10_unique:
  assumes "a * 10 ^ p = b" and "\<not> 10 dvd b"
  shows "p = 0 \<and> a = (b :: int)"
  using assms by (cases p) auto

lemma decimal_unique:
  assumes "same_number (a, i) (b, j)" and "i < 0" and "\<not> 10 dvd a" and "j < 0 \<Longrightarrow> \<not> 10 dvd b" and "j \<le> 0"
  shows "i = j \<and> a = b"
proof -
  have eq: "a * 10 ^ nat (i - j) = b * 10 ^ nat (j - i)"
    using assms(1) by (simp add: same_number_def)
  show ?thesis
  proof (cases "i \<le> j")
    case True
    with eq have "b * 10 ^ nat (j - i) = a" by simp
    from not_dvd_10_unique [OF this assms(3)] True show ?thesis by auto
  next
    case False
    with eq have "a * 10 ^ nat (i - j) = b" by simp
    from not_dvd_10_unique [OF this] False assms show ?thesis by auto
  qed
qed

lemma canonical_number_unique:
  assumes "canonical_number v" and "canonical_number w" and "numeric v = Some a" and "numeric w = Some b"
    and "same_number a b"
  shows "v = w"
proof -
  have ints: "same_number (i, 0) (j, 0) \<longleftrightarrow> i = j" for i j
    by (simp add: same_number_def)
  have dec: "\<not> same_number (sint m, sint e) (i, 0)" "\<not> same_number (i, 0) (sint m, sint e)"
    if "check_canonical e m = Inr ()" for e m i
    using decimal_unique [of "sint m" "sint e" i 0] that by (auto simp: check_canonical_ok dest: same_number_sym)
  have sgn: "uint u \<noteq> - 1 - uint n" for u n :: uint64
    using uint_ge_0 [of u] uint_ge_0 [of n] by linarith
  show ?thesis
  proof (cases v)
    case v: (Decimal e m)
    show ?thesis
    proof (cases w)
      case w: (Decimal e' m')
      have "sint e = sint e' \<and> sint m = sint m'"
        using assms by (intro decimal_unique) (auto simp: v w check_canonical_ok)
      then show ?thesis by (auto simp: v w intro: signed_word_eqI)
    qed (use assms dec v in auto)
  next
    case v: (Uint u)
    show ?thesis using assms dec sgn by (cases w) (auto simp: v ints word_uint_eq_iff)
  next
    case v: (Neg u)
    show ?thesis using assms dec sgn sgn [THEN not_sym] by (cases w) (auto simp: v ints word_uint_eq_iff)
  qed (use assms in auto)
qed

text \<open>
  \<open>NewDecimal\<close> maps two mantissa-exponent pairs to the same value exactly when they
  denote the same number: its result is a canonical representative (an integer, or a decimal
  that passes the canonicality check), whatever trailing zeros the arguments carry.
\<close>

theorem new_decimal_representative:
  assumes "new_decimal e m = Inr v" and "new_decimal e' m' = Inr w"
  shows "canonical_number v \<and>
    (v = w \<longleftrightarrow> same_number (sint m, sint e) (sint m', sint e'))"
proof -
  obtain a where a: "numeric v = Some a" "same_number a (sint m, sint e)"
    by (rule new_decimal_number [OF assms(1)])
  obtain b where b: "numeric w = Some b" "same_number b (sint m', sint e')"
    by (rule new_decimal_number [OF assms(2)])
  have can: "canonical_number v" "canonical_number w"
    using assms by (auto intro: new_decimal_canonical)
  moreover have "same_number a b \<longleftrightarrow> same_number (sint m, sint e) (sint m', sint e')"
    using a(2) b(2) by (meson same_number_sym same_number_trans)
  moreover have "v = w \<longleftrightarrow> same_number a b"
    using canonical_number_unique [OF can a(1) b(1)] a(1) b(1) by auto
  ultimately show ?thesis by blast
qed

theorem new_decimal_representative_witness:
  "canonical_number (Decimal (- 1) 15) \<and>
    same_number (sint (1500 :: int64), sint (- 3 :: int64)) (sint (15 :: int64), sint (- 1 :: int64))"
proof -
  have "new_decimal (- 3) 1500 = Inr (Decimal (- 1) 15)" "new_decimal (- 1) 15 = Inr (Decimal (- 1) 15)"
    by code_simp+
  from new_decimal_representative [OF this] show ?thesis by simp
qed

text \<open>
  \<open>NewDecimal\<close> fails exactly when the number is a whole number outside the \<open>int64\<close>
  range: no exact decimal is refused and no overflow goes unseen.
\<close>

theorem new_decimal_fails_iff:
  "(\<exists>err. new_decimal e m = Inl err) \<longleftrightarrow> 0 \<le> sint e \<and> \<not> fits_int64 (sint m * 10 ^ nat (sint e))"
proof (cases "m = 0")
  case True
  then show ?thesis by (simp add: new_decimal_def fits_int64_def)
next
  case False
  obtain e1 m1 where s: "strip_zeros e m = (e1, m1)" by fastforce
  note sp = strip_zeros_spec [OF s]
  show ?thesis
  proof (cases "sint e < 0")
    case True
    then have "scale_up e1 m1 = Inr m1" if "\<not> sint e1 < 0"
      using sp that by (simp add: scale_up.simps [of e1 m1])
    then show ?thesis
      using True False s by (auto simp: new_decimal_def bindE_eq_Inl)
  next
    case nonneg: False
    then have "strip_zeros e m = (e, m)"
      by (simp add: strip_zeros.simps [of e m])
    then have "(\<exists>err. new_decimal e m = Inl err) \<longleftrightarrow> (\<exists>err. scale_up e m = Inl err)"
      using nonneg False by (simp add: new_decimal_def bindE_eq_Inl)
    also have "\<dots> \<longleftrightarrow> \<not> fits_int64 (sint m * 10 ^ nat (sint e))"
    proof
      assume "\<exists>err. scale_up e m = Inl err"
      then show "\<not> fits_int64 (sint m * 10 ^ nat (sint e))"
        by (auto dest: scale_up_Inl)
    next
      assume nf: "\<not> fits_int64 (sint m * 10 ^ nat (sint e))"
      show "\<exists>err. scale_up e m = Inl err"
      proof (cases "scale_up e m")
        case (Inr m2)
        with scale_up_Inr [OF Inr] nf show ?thesis by (metis fits_int64_sint)
      qed auto
    qed
    finally show ?thesis using nonneg by simp
  qed
qed

end
