(* ===== verification/Dcbor_Encode.thy ===== *)
theory Dcbor_Encode
  imports Dcbor_Value
begin

text \<open>
  The canonical encoder (\<open>go/dcbor/encode.go\<close>): shortest heads, the depth bound of rule 10,
  map entries sorted by the bytes of their encoded keys, and the errors of \<open>encodeValue\<close> and
  \<open>encodeMap\<close> in the order the code finds them. The bytes a Go function writes to its buffer
  are the value the definition returns.
\<close>

datatype encode_error =
    Invalid_utf8 string
  | Noncanonical_decimal decimal_error
  | Nesting_too_deep
  | Duplicate_map_key string
  | Nil_value

section \<open>Heads\<close>

definition head_byte :: "byte \<Rightarrow> byte \<Rightarrow> byte" where
  "head_byte major ai = or (push_bit 5 major) ai"

definition write_head :: "byte \<Rightarrow> uint64 \<Rightarrow> byte list" where
  "write_head major arg =
    (if arg < 24 then [head_byte major (ucast arg)]
     else if arg \<le> 0xFF then [head_byte major 24, ucast arg]
     else if arg \<le> 0xFFFF then head_byte major 25 # be_bytes 2 (unat arg)
     else if arg \<le> 0xFFFFFFFF then head_byte major 26 # be_bytes 4 (unat arg)
     else head_byte major 27 # be_bytes 8 (unat arg))"

definition text_key :: "string \<Rightarrow> byte list" where
  "text_key s = write_head 3 (word_of_nat (length s)) @ bytes_of s"

text \<open>\<open>enter\<close>: the depth of a container held by a container of the given depth.\<close>

definition enter :: "nat \<Rightarrow> encode_error + nat" where
  "enter depth = (let level = depth + 1 in if level > max_depth then Inl Nesting_too_deep else Inr level)"

section \<open>Map entries\<close>

text \<open>
  \<open>encodeMap\<close> encodes the keys, sorts the entries by the encoded keys (\<open>bytes.Compare\<close> is
  the lexicographic order of byte lists) and looks for two equal neighbours.
\<close>

type_synonym encoded_entry = "byte list \<times> string \<times> cbor_value"

definition key_entries :: "cbor_map \<Rightarrow> encode_error + encoded_entry list" where
  "key_entries = mapE (\<lambda>(k, v).
     if valid_text k then Inr (text_key k, k, v) else Inl (Invalid_utf8 k))"

fun first_duplicate :: "encoded_entry list \<Rightarrow> string option" where
  "first_duplicate (a # b # es) =
    (if fst a = fst b then Some (fst (snd b)) else first_duplicate (b # es))"
| "first_duplicate _ = None"

definition sorted_entries :: "cbor_map \<Rightarrow> encode_error + encoded_entry list" where
  "sorted_entries m = bindE (key_entries m) (\<lambda>es.
     (let entries = sort_key fst es
      in case first_duplicate entries of
           Some k \<Rightarrow> Inl (Duplicate_map_key k)
         | None \<Rightarrow> Inr entries))"

section \<open>Values\<close>

text \<open>The size by which the recursion descends: a decimal calls the encoder on two integers.\<close>

fun vsize :: "cbor_value \<Rightarrow> nat" where
  "vsize (Decimal e m) = 1"
| "vsize (Array vs) = Suc (sum_list (map (\<lambda>v. Suc (vsize v)) vs))"
| "vsize (Map m) = Suc (sum_list (map (\<lambda>e. Suc (vsize (snd e))) m))"
| "vsize _ = 0"

lemma vsize_int_value [simp]: "vsize (int_value i) = 0"
  by (simp add: int_value_def)

lemma sum_list_sort_key: "sum_list (map f (sort_key k xs)) = sum_list (map f xs)"
  for f :: "'a \<Rightarrow> nat"
  by (metis mset_map mset_sort sum_mset_sum_list)

lemma key_entries_Inr:
  "key_entries m = Inr es \<longleftrightarrow>
    (\<forall>e \<in> set m. valid_text (fst e)) \<and> es = map (\<lambda>(k, v). (text_key k, k, v)) m"
  by (induction m arbitrary: es) (auto simp: key_entries_def bindE_simps split: if_splits)

lemma sorted_entries_Inr:
  "sorted_entries m = Inr es \<longleftrightarrow>
    (\<forall>e \<in> set m. valid_text (fst e)) \<and>
    es = sort_key fst (map (\<lambda>(k, v). (text_key k, k, v)) m) \<and> first_duplicate es = None"
  by (auto simp: sorted_entries_def bindE_simps key_entries_Inr Let_def split: option.splits)

lemma vsize_sorted_entries:
  "sorted_entries m = Inr es \<Longrightarrow>
    sum_list (map (\<lambda>e. Suc (vsize (snd (snd e)))) es) = sum_list (map (\<lambda>e. Suc (vsize (snd e))) m)"
  by (auto simp: sorted_entries_Inr sum_list_sort_key comp_def case_prod_unfold)

function (sequential) encode_value :: "nat \<Rightarrow> cbor_value \<Rightarrow> encode_error + byte list"
  and encode_items :: "nat \<Rightarrow> cbor_value list \<Rightarrow> encode_error + byte list"
  and encode_entries :: "nat \<Rightarrow> encoded_entry list \<Rightarrow> encode_error + byte list"
where
  "encode_value depth (Uint u) = Inr (write_head 0 u)"
| "encode_value depth (Neg n) = Inr (write_head 1 n)"
| "encode_value depth (Decimal e m) =
    bindE (mapErr Noncanonical_decimal (check_canonical e m)) (\<lambda>_.
    bindE (enter depth) (\<lambda>level.
    bindE (encode_value level (int_value e)) (\<lambda>eb.
    bindE (encode_value level (int_value m)) (\<lambda>mb.
    Inr (write_head 6 4 @ write_head 4 2 @ eb @ mb)))))"
| "encode_value depth (Text s) =
    (if valid_text s then Inr (write_head 3 (word_of_nat (length s)) @ bytes_of s)
     else Inl (Invalid_utf8 s))"
| "encode_value depth (Bytes b) = Inr (write_head 2 (word_of_nat (length b)) @ b)"
| "encode_value depth (Array vs) =
    bindE (enter depth) (\<lambda>level.
    bindE (encode_items level vs) (\<lambda>body.
    Inr (write_head 4 (word_of_nat (length vs)) @ body)))"
| "encode_value depth (Map m) =
    bindE (enter depth) (\<lambda>level.
    bindE (sorted_entries m) (\<lambda>entries.
    bindE (encode_entries level entries) (\<lambda>body.
    Inr (write_head 5 (word_of_nat (length entries)) @ body))))"
| "encode_value depth Null = Inr [head_byte 7 22]"
| "encode_value depth NilValue = Inl Nil_value"
| "encode_items level [] = Inr []"
| "encode_items level (v # vs) =
    bindE (encode_value level v) (\<lambda>b. bindE (encode_items level vs) (\<lambda>bs. Inr (b @ bs)))"
| "encode_entries level [] = Inr []"
| "encode_entries level ((kb, k, v) # es) =
    bindE (encode_value level v) (\<lambda>b. bindE (encode_entries level es) (\<lambda>bs. Inr (kb @ b @ bs)))"
  by pat_completeness auto
termination
  by (relation "measure (\<lambda>a. case a of
        Inl (d, v) \<Rightarrow> vsize v
      | Inr (Inl (l, vs)) \<Rightarrow> sum_list (map (\<lambda>v. Suc (vsize v)) vs)
      | Inr (Inr (l, es)) \<Rightarrow> sum_list (map (\<lambda>e. Suc (vsize (snd (snd e)))) es))")
    (auto simp: vsize_sorted_entries)

definition encode :: "cbor_value \<Rightarrow> encode_error + byte list" where
  "encode v = encode_value 0 v"

end
