(* ===== verification/Dcbor_Decode.thy ===== *)
theory Dcbor_Decode
  imports Dcbor_Encode
begin

text \<open>
  The strict decoder (\<open>go/dcbor/decode.go\<close>). Its state is the position in the input and the
  bytes from that position on, so \<open>len(d.data) - d.pos\<close> is the length of \<open>rest\<close>; every
  rejection is a \<open>SyntaxError\<close> with the offset of the rejected item. The recursion is bounded
  by the nesting depth of rule 10, which is what its termination proof uses.
\<close>

datatype syntax_msg =
    Unexpected_end
  | Not_shortest_form uint64
  | Indefinite_length
  | Reserved_additional_info byte
  | Length_exceeds_input uint64 nat
  | Nested_too_deep
  | Text_not_utf8
  | Map_key_not_text
  | Duplicate_key string
  | Keys_out_of_order string
  | Tag_not_permitted uint64
  | Decimal_content_not_array
  | Decimal_wrong_length uint64
  | Decimal_part_not_integer
  | Decimal_part_out_of_range
  | Decimal_not_canonical decimal_error
  | Boolean_not_permitted
  | Undefined_not_permitted
  | Simple_not_permitted byte
  | One_byte_simple_not_permitted
  | Float_not_permitted
  | Break_not_permitted
  | Trailing_bytes nat

datatype syntax_error = SyntaxError (Offset: nat) (Msg: syntax_msg)

record decoder =
  pos :: nat
  rest :: "byte list"

definition advance :: "nat \<Rightarrow> decoder \<Rightarrow> decoder" where
  "advance n d = \<lparr>pos = pos d + n, rest = drop n (rest d)\<rparr>"

section \<open>Reading bytes and arguments\<close>

text \<open>Reading \<open>d.data[d.pos]\<close> after the bounds check each caller makes.\<close>

definition next_byte :: "decoder \<Rightarrow> syntax_error + byte \<times> decoder" where
  "next_byte d =
    (case rest d of [] \<Rightarrow> Inl (SyntaxError (pos d) Unexpected_end)
     | b # bs \<Rightarrow> Inr (b, advance 1 d))"

definition take_bytes :: "nat \<Rightarrow> nat \<Rightarrow> decoder \<Rightarrow> syntax_error + byte list \<times> decoder" where
  "take_bytes start n d =
    (if length (rest d) < n then Inl (SyntaxError start Unexpected_end)
     else Inr (take n (rest d), advance n d))"

definition argument :: "nat \<Rightarrow> byte \<Rightarrow> decoder \<Rightarrow> syntax_error + uint64 \<times> decoder" where
  "argument start ai d =
    (if ai < 24 then Inr (ucast ai, d)
     else if ai = 24 then
       bindE (take_bytes start 1 d) (\<lambda>(b, d).
         let v = word_of_nat (be_nat b)
         in if v < 24 then Inl (SyntaxError start (Not_shortest_form v)) else Inr (v, d))
     else if ai = 25 then
       bindE (take_bytes start 2 d) (\<lambda>(b, d).
         let v = word_of_nat (be_nat b)
         in if v \<le> 0xFF then Inl (SyntaxError start (Not_shortest_form v)) else Inr (v, d))
     else if ai = 26 then
       bindE (take_bytes start 4 d) (\<lambda>(b, d).
         let v = word_of_nat (be_nat b)
         in if v \<le> 0xFFFF then Inl (SyntaxError start (Not_shortest_form v)) else Inr (v, d))
     else if ai = 27 then
       bindE (take_bytes start 8 d) (\<lambda>(b, d).
         let v = word_of_nat (be_nat b)
         in if v \<le> 0xFFFFFFFF then Inl (SyntaxError start (Not_shortest_form v)) else Inr (v, d))
     else if ai = 31 then Inl (SyntaxError start Indefinite_length)
     else Inl (SyntaxError start (Reserved_additional_info ai)))"

definition dec_count :: "nat \<Rightarrow> byte \<Rightarrow> decoder \<Rightarrow> syntax_error + uint64 \<times> decoder" where
  "dec_count start ai d =
    (if ai = 31 then Inl (SyntaxError start Indefinite_length)
     else bindE (argument start ai d) (\<lambda>(n, d).
       let remaining = length (rest d)
       in if unat n > remaining then Inl (SyntaxError start (Length_exceeds_input n remaining))
          else Inr (n, d)))"

definition string_payload :: "nat \<Rightarrow> byte \<Rightarrow> decoder \<Rightarrow> syntax_error + byte list \<times> decoder" where
  "string_payload start ai d =
    bindE (dec_count start ai d) (\<lambda>(n, d). Inr (take (unat n) (rest d), advance (unat n) d))"

definition major_of :: "byte \<Rightarrow> byte" where
  "major_of ib = drop_bit 5 ib"

definition info_of :: "byte \<Rightarrow> byte" where
  "info_of ib = and ib 0x1F"

definition dec_enter :: "nat \<Rightarrow> nat \<Rightarrow> syntax_error + nat" where
  "dec_enter start depth =
    (let level = depth + 1
     in if level > max_depth then Inl (SyntaxError start Nested_too_deep) else Inr level)"

section \<open>Leaf items\<close>

definition simple :: "nat \<Rightarrow> byte \<Rightarrow> decoder \<Rightarrow> syntax_error + cbor_value \<times> decoder" where
  "simple start ai d =
    (if ai = 22 then Inr (Null, d)
     else if ai = 20 \<or> ai = 21 then Inl (SyntaxError start Boolean_not_permitted)
     else if ai = 23 then Inl (SyntaxError start Undefined_not_permitted)
     else if ai < 20 then Inl (SyntaxError start (Simple_not_permitted ai))
     else if ai = 24 then Inl (SyntaxError start One_byte_simple_not_permitted)
     else if 25 \<le> ai \<and> ai \<le> 27 then Inl (SyntaxError start Float_not_permitted)
     else if ai = 31 then Inl (SyntaxError start Break_not_permitted)
     else Inl (SyntaxError start (Reserved_additional_info ai)))"

definition decimal_int :: "decoder \<Rightarrow> syntax_error + int64 \<times> decoder" where
  "decimal_int d =
    (let start = pos d
     in bindE (next_byte d) (\<lambda>(ib, d).
       let major = major_of ib; ai = info_of ib
       in if major \<noteq> 0 \<and> major \<noteq> 1 then Inl (SyntaxError start Decimal_part_not_integer)
          else bindE (argument start ai d) (\<lambda>(arg, d).
            if arg > max_int64 then Inl (SyntaxError start Decimal_part_out_of_range)
            else if major = 1 then Inr (- 1 - arg, d)
            else Inr (arg, d))))"

definition tag_value :: "nat \<Rightarrow> byte \<Rightarrow> nat \<Rightarrow> decoder \<Rightarrow> syntax_error + cbor_value \<times> decoder" where
  "tag_value start ai depth d =
    bindE (argument start ai d) (\<lambda>(tag, d).
    if tag \<noteq> 4 then Inl (SyntaxError start (Tag_not_permitted tag))
    else bindE (dec_enter start depth) (\<lambda>_.
    let arr_start = pos d
    in bindE (next_byte d) (\<lambda>(ib, d).
    if major_of ib \<noteq> 4 then Inl (SyntaxError arr_start Decimal_content_not_array)
    else bindE (dec_count arr_start (info_of ib) d) (\<lambda>(n, d).
    if n \<noteq> 2 then Inl (SyntaxError arr_start (Decimal_wrong_length n))
    else bindE (decimal_int d) (\<lambda>(e, d).
    bindE (decimal_int d) (\<lambda>(m, d).
    bindE (mapErr (\<lambda>err. SyntaxError start (Decimal_not_canonical err)) (check_canonical e m)) (\<lambda>_.
    Inr (Decimal e m, d))))))))"

text \<open>\<open>textKey\<close> returns the key and its whole encoding, \<open>d.data[start:d.pos]\<close>.\<close>

definition dec_text_key :: "decoder \<Rightarrow> syntax_error + (string \<times> byte list) \<times> decoder" where
  "dec_text_key d =
    (let start = pos d
     in bindE (next_byte d) (\<lambda>(ib, d1).
       if major_of ib \<noteq> 3 then Inl (SyntaxError start Map_key_not_text)
       else bindE (string_payload start (info_of ib) d1) (\<lambda>(raw, d2).
         if \<not> utf8_valid raw then Inl (SyntaxError start Text_not_utf8)
         else Inr ((string_of raw, take (pos d2 - start) (rest d)), d2))))"

section \<open>Items\<close>

text \<open>
  \<open>decoder.value\<close> with the two loops it runs: \<open>dec_items level n\<close> reads the \<open>n\<close> remaining
  items of an array, \<open>dec_entries level n prev\<close> the \<open>n\<close> remaining entries of a map whose last
  key read was \<open>prev\<close> (none before the first).
\<close>

function (sequential) dec_value :: "nat \<Rightarrow> decoder \<Rightarrow> syntax_error + cbor_value \<times> decoder"
  and dec_items :: "nat \<Rightarrow> nat \<Rightarrow> decoder \<Rightarrow> syntax_error + cbor_value list \<times> decoder"
  and dec_entries :: "nat \<Rightarrow> nat \<Rightarrow> byte list option \<Rightarrow> decoder \<Rightarrow> syntax_error + cbor_map \<times> decoder"
where
  "dec_value depth d0 =
    (let start = pos d0
     in bindE (next_byte d0) (\<lambda>(ib, d).
       let major = major_of ib; ai = info_of ib
       in if major = 0 then bindE (argument start ai d) (\<lambda>(arg, d). Inr (Uint arg, d))
          else if major = 1 then bindE (argument start ai d) (\<lambda>(arg, d). Inr (Neg arg, d))
          else if major = 2 then bindE (string_payload start ai d) (\<lambda>(raw, d). Inr (Bytes raw, d))
          else if major = 3 then
            bindE (string_payload start ai d) (\<lambda>(raw, d).
              if \<not> utf8_valid raw then Inl (SyntaxError start Text_not_utf8)
              else Inr (Text (string_of raw), d))
          else if major = 4 then
            bindE (dec_enter start depth) (\<lambda>level.
            bindE (dec_count start ai d) (\<lambda>(n, d).
            bindE (dec_items level (unat n) d) (\<lambda>(arr, d). Inr (Array arr, d))))
          else if major = 5 then
            bindE (dec_enter start depth) (\<lambda>level.
            bindE (dec_count start ai d) (\<lambda>(n, d).
            bindE (dec_entries level (unat n) None d) (\<lambda>(m, d). Inr (Map m, d))))
          else if major = 6 then tag_value start ai depth d
          else simple start ai d))"
| "dec_items level 0 d = Inr ([], d)"
| "dec_items level (Suc n) d =
    bindE (dec_value level d) (\<lambda>(v, d).
    bindE (dec_items level n d) (\<lambda>(vs, d). Inr (v # vs, d)))"
| "dec_entries level 0 prev d = Inr ([], d)"
| "dec_entries level (Suc n) prev d =
    (let key_start = pos d
     in bindE (dec_text_key d) (\<lambda>((key, enc_key), d).
       if prev = Some enc_key then Inl (SyntaxError key_start (Duplicate_key key))
       else if (case prev of Some p \<Rightarrow> enc_key < p | None \<Rightarrow> False)
         then Inl (SyntaxError key_start (Keys_out_of_order key))
       else bindE (dec_value level d) (\<lambda>(v, d).
         bindE (dec_entries level n (Some enc_key) d) (\<lambda>(m, d). Inr ((key, v) # m, d)))))"
  by pat_completeness auto
termination
  by (relation "measures
      [\<lambda>a. case a of Inl (depth, d) \<Rightarrow> Suc max_depth - depth
          | Inr (Inl (level, n, d)) \<Rightarrow> Suc max_depth - level
          | Inr (Inr (level, n, p, d)) \<Rightarrow> Suc max_depth - level,
       \<lambda>a. case a of Inl _ \<Rightarrow> 0 | Inr (Inl (level, n, d)) \<Rightarrow> Suc n
          | Inr (Inr (level, n, p, d)) \<Rightarrow> Suc n]")
    (auto simp: dec_enter_def Let_def split: if_splits)

declare dec_value.simps [simp del]

definition decode_prefix :: "byte list \<Rightarrow> syntax_error + cbor_value \<times> nat" where
  "decode_prefix b = bindE (dec_value 0 \<lparr>pos = 0, rest = b\<rparr>) (\<lambda>(v, d). Inr (v, pos d))"

definition decode :: "byte list \<Rightarrow> syntax_error + cbor_value" where
  "decode b = bindE (dec_value 0 \<lparr>pos = 0, rest = b\<rparr>) (\<lambda>(v, d).
     if rest d \<noteq> [] then Inl (SyntaxError (pos d) (Trailing_bytes (length (rest d)))) else Inr v)"

end
