(* ===== verification/Dcbor_Roundtrip.thy ===== *)
theory Dcbor_Roundtrip
  imports Dcbor_Decode
begin

text \<open>
  The strict decoder and the canonical encoder are inverse to each other. The centre is
  \<open>decodes_all\<close>: the decoder returns the value \<open>v\<close> and stops at \<open>d'\<close> exactly when \<open>v\<close> is in
  canonical order, the encoder accepts it and the bytes between \<open>d\<close> and \<open>d'\<close> are what the
  encoder writes. Both round trips, the uniqueness of encodings and the agreement of \<open>Equal\<close>
  with byte equality follow from it. Inputs are shorter than \<open>2 ^ 64\<close> bytes, as every Go
  slice is.
\<close>

section \<open>Reading a known prefix\<close>

text \<open>\<open>reads d bs d'\<close>: the decoder at \<open>d\<close> sees the bytes \<open>bs\<close>, and \<open>d'\<close> is the decoder after them.\<close>

definition reads :: "decoder \<Rightarrow> byte list \<Rightarrow> decoder \<Rightarrow> bool" where
  "reads d bs d' \<longleftrightarrow> rest d = bs @ rest d' \<and> pos d' = pos d + length bs"

lemma reads_append: "reads d (a @ b) d' \<longleftrightarrow> (\<exists>d1. reads d a d1 \<and> reads d1 b d')"
proof
  assume "reads d (a @ b) d'"
  then have "reads d a (advance (length a) d) \<and> reads (advance (length a) d) b d'"
    by (simp add: reads_def advance_def)
  then show "\<exists>d1. reads d a d1 \<and> reads d1 b d'" ..
qed (auto simp: reads_def)

lemma reads_Cons: "reads d (a # b) d' \<longleftrightarrow> (\<exists>d1. reads d [a] d1 \<and> reads d1 b d')"
  using reads_append [of d "[a]" b d'] by simp

lemma reads_Nil [simp]: "reads d [] d' \<longleftrightarrow> d' = d"
  by (auto simp: reads_def)

lemma reads_det: "reads d a d1 \<Longrightarrow> reads d a d2 \<Longrightarrow> d1 = d2"
  by (simp add: reads_def)

lemma reads_length: "reads d a d' \<Longrightarrow> length (rest d) = length a + length (rest d')"
  by (simp add: reads_def)

lemma next_byte_reads: "next_byte d = Inr (b, d') \<longleftrightarrow> reads d [b] d'"
  by (auto simp: next_byte_def reads_def advance_def split: list.splits)

lemma take_bytes_reads: "take_bytes s n d = Inr (b, d') \<longleftrightarrow> reads d b d' \<and> length b = n"
  by (auto simp: take_bytes_def reads_def advance_def)

lemma advance_reads: "n \<le> length (rest d) \<Longrightarrow> reads d (take n (rest d)) (advance n d)"
  by (simp add: reads_def advance_def)

section \<open>Heads\<close>

lemma mask_5: "(0x1F :: byte) = mask 5"
  by (simp add: mask_eq_exp_minus_1)

lemma major_of_head_byte: "m < 8 \<Longrightarrow> ai < 32 \<Longrightarrow> major_of (head_byte m ai) = m"
  unfolding head_byte_def major_of_def
  by (rule bit_word_eqI)
    (auto simp: bit_simps dest!: mask_bits [where k = 3, simplified] mask_bits [where k = 5, simplified])

lemma info_of_head_byte: "m < 8 \<Longrightarrow> ai < 32 \<Longrightarrow> info_of (head_byte m ai) = ai"
  unfolding head_byte_def info_of_def mask_5
  by (rule bit_word_eqI)
    (auto simp: bit_simps dest!: mask_bits [where k = 3, simplified] mask_bits [where k = 5, simplified])

lemma head_byte_split: "head_byte (major_of b) (info_of b) = b"
  unfolding head_byte_def major_of_def info_of_def mask_5
  by (rule bit_word_eqI) (auto simp: bit_simps)

lemma major_of_less: "major_of b < 8"
  using unat_byte_less [of b]
  by (simp add: major_of_def word_less_nat_alt unat_drop_bit_eq drop_bit_eq_div unat_div less_mult_imp_div_less)

lemma info_of_less: "info_of b < 32"
  unfolding info_of_def mask_5 using and_mask_less_size [of 5 b] by (simp add: word_size)

lemma be_word_iff:
  assumes "k \<le> 8"
  shows "length b = k \<and> arg = (word_of_nat (be_nat b) :: uint64) \<longleftrightarrow>
    b = be_bytes k (unat arg) \<and> unat arg < 256 ^ k"
proof -
  have le: "(256::nat) ^ k \<le> 2 ^ 64"
    using power_increasing [OF assms, of "256::nat"] by simp
  show ?thesis
  proof (intro iffI; elim conjE)
    assume l: "length b = k" and arg: "arg = word_of_nat (be_nat b)"
    have lt: "be_nat b < 256 ^ k" using be_nat_less [of b] l by simp
    then have "unat arg = be_nat b" using le by (simp add: arg unat_of_nat)
    then show "b = be_bytes k (unat arg) \<and> unat arg < 256 ^ k"
      using l lt be_bytes_be_nat [of b] by simp
  next
    assume b: "b = be_bytes k (unat arg)" and lt: "unat arg < 256 ^ k"
    then show "length b = k \<and> arg = word_of_nat (be_nat b)"
      by (simp add: be_nat_be_bytes)
  qed
qed

definition head_width :: "uint64 \<Rightarrow> nat" where
  "head_width arg = (if arg < 24 then 0 else if arg \<le> 0xFF then 1 else if arg \<le> 0xFFFF then 2
     else if arg \<le> 0xFFFFFFFF then 4 else 8)"

definition head_info :: "uint64 \<Rightarrow> byte" where
  "head_info arg = (if arg < 24 then ucast arg else if arg \<le> 0xFF then 24 else if arg \<le> 0xFFFF then 25
     else if arg \<le> 0xFFFFFFFF then 26 else 27)"

lemma ucast_byte_nat: "(ucast (arg :: uint64) :: byte) = word_of_nat (unat arg)"
  by (simp add: word_unat_eq_iff unsigned_ucast_eq unat_of_nat take_bit_eq_mod)

lemma write_head_alt:
  "write_head m arg = head_byte m (head_info arg) # be_bytes (head_width arg) (unat arg)"
proof -
  have "be_bytes 1 (unat arg) = [ucast arg]"
    by (simp only: ucast_byte_nat One_nat_def be_bytes.simps append_Nil)
  then show ?thesis
    by (simp add: write_head_def head_info_def head_width_def)
qed

lemma unat_ucast_small: "arg < 32 \<Longrightarrow> unat (ucast (arg :: uint64) :: byte) = unat arg"
  by (simp add: unsigned_ucast_eq unat_of_nat take_bit_eq_mod word_less_nat_alt)

lemma head_info_less: "head_info arg < 28"
  using unat_ucast_small [of arg]
  by (auto simp: head_info_def word_less_nat_alt)

lemma long_argument:
  assumes "k \<le> 8"
  shows "bindE (take_bytes s k d) (\<lambda>(b, d).
      let v = word_of_nat (be_nat b) in if P v then Inl (E v) else Inr (v, d)) = Inr (arg :: uint64, d') \<longleftrightarrow>
    \<not> P arg \<and> unat arg < 256 ^ k \<and> reads d (be_bytes k (unat arg)) d'"
  (is "?lhs \<longleftrightarrow> ?rhs")
proof -
  have "?lhs \<longleftrightarrow> (\<exists>b. reads d b d' \<and> (length b = k \<and> arg = word_of_nat (be_nat b)) \<and> \<not> P arg)"
    by (auto simp: bindE_eq_Inr take_bytes_reads Let_def split: if_splits)
  also have "\<dots> \<longleftrightarrow> (\<exists>b. reads d b d' \<and> (b = be_bytes k (unat arg) \<and> unat arg < 256 ^ k) \<and> \<not> P arg)"
    by (simp only: be_word_iff [OF assms])
  also have "\<dots> \<longleftrightarrow> ?rhs"
    by blast
  finally show ?thesis .
qed

lemma head_info_cases:
  "head_info arg = 24 \<longleftrightarrow> \<not> arg < 24 \<and> arg \<le> 0xFF"
  "head_info arg = 25 \<longleftrightarrow> \<not> arg \<le> 0xFF \<and> arg \<le> 0xFFFF"
  "head_info arg = 26 \<longleftrightarrow> \<not> arg \<le> 0xFFFF \<and> arg \<le> 0xFFFFFFFF"
  "head_info arg = 27 \<longleftrightarrow> \<not> arg \<le> 0xFFFFFFFF"
  "head_info arg < 24 \<longleftrightarrow> arg < 24"
  using unat_ucast_small [of arg]
  by (auto simp: head_info_def word_less_nat_alt word_le_nat_alt word_unat_eq_iff split: if_splits)

lemma unat_ucast_byte: "unat (ucast (b :: byte) :: uint64) = unat b"
proof -
  have "unat b < 2 ^ 64"
    by (rule less_trans [OF unat_byte_less]) simp
  then show ?thesis by (simp add: unsigned_ucast_eq take_bit_nat_eq_self)
qed

lemma argument_short:
  assumes ai: "ai < 24"
  shows "argument s ai d = Inr (arg, d') \<longleftrightarrow>
    ai = head_info arg \<and> reads d (be_bytes (head_width arg) (unat arg)) d'"
proof -
  have "ucast ai = arg \<longleftrightarrow> ai = head_info arg"
  proof
    assume "ucast ai = arg"
    then have "unat arg = unat ai" by (metis unat_ucast_byte)
    with ai show "ai = head_info arg"
      by (simp add: head_info_def word_less_nat_alt word_unat_eq_iff unat_ucast_small)
  next
    assume a: "ai = head_info arg"
    with ai have "arg < 24" by (simp add: head_info_cases)
    with a show "ucast ai = arg"
      by (simp add: head_info_def word_less_nat_alt word_unat_eq_iff unat_ucast_small unat_ucast_byte)
  qed
  moreover have "ai = head_info arg \<Longrightarrow> head_width arg = 0"
    using ai by (simp add: head_info_cases head_width_def)
  ultimately show ?thesis
    using ai by (auto simp: argument_def)
qed

lemma argument_iff:
  assumes "ai < 32"
  shows "argument s ai d = Inr (arg, d') \<longleftrightarrow>
    ai = head_info arg \<and> reads d (be_bytes (head_width arg) (unat arg)) d'"
proof -
  note long = argument_def long_argument head_info_cases eq_commute [of _ "head_info arg"]
    head_width_def word_less_nat_alt word_le_nat_alt
  consider "ai < 24" | "ai = 24" | "ai = 25" | "ai = 26" | "ai = 27" | "\<not> ai < 28"
    by (force simp: word_less_nat_alt word_unat_eq_iff) 
  then show ?thesis
  proof cases
    case 1
    then show ?thesis by (rule argument_short)
  next
    case 2
    show ?thesis unfolding 2 by (auto simp: long)
  next
    case 3
    show ?thesis unfolding 3 by (auto simp: long)
  next
    case 4
    show ?thesis unfolding 4 by (auto simp: long)
  next
    case 5
    show ?thesis unfolding 5 using unsigned_less [of arg, where 'a = nat] by (auto simp: long)
  next
    case 6
    then show ?thesis using head_info_less [of arg]
      by (auto simp add: argument_def word_less_nat_alt)
  qed
qed

text \<open>A byte that opens an item, and the argument after it, are the head the encoder writes.\<close>

lemma head_iff:
  "(\<exists>ib d1. reads d [ib] d1 \<and> major_of ib = m \<and> argument s (info_of ib) d1 = Inr (arg, d')) \<longleftrightarrow>
    m < 8 \<and> reads d (write_head m arg) d'"
proof -
  have hi: "head_info arg < 32"
    using head_info_less [of arg] by (simp add: word_less_nat_alt)
  have eq: "head_byte m (head_info arg) = ib \<longleftrightarrow> major_of ib = m \<and> info_of ib = head_info arg"
    if "m < 8" for ib
    using that hi head_byte_split [of ib] by (auto simp: major_of_head_byte info_of_head_byte)
  have "(\<exists>ib d1. reads d [ib] d1 \<and> major_of ib = m \<and> argument s (info_of ib) d1 = Inr (arg, d')) \<longleftrightarrow>
      m < 8 \<and> (\<exists>d1. reads d [head_byte m (head_info arg)] d1 \<and>
        reads d1 (be_bytes (head_width arg) (unat arg)) d')"
    unfolding argument_iff [OF info_of_less] by (metis eq major_of_less)
  also have "\<dots> \<longleftrightarrow> m < 8 \<and> reads d (write_head m arg) d'"
    by (simp add: write_head_alt reads_Cons [of d _ "be_bytes (head_width arg) (unat arg)"])
  finally show ?thesis .
qed

lemma count_iff:
  "(\<exists>ib d1. reads d [ib] d1 \<and> major_of ib = m \<and> dec_count s (info_of ib) d1 = Inr (n, d')) \<longleftrightarrow>
    m < 8 \<and> reads d (write_head m n) d' \<and> unat n \<le> length (rest d')"
proof -
  have no31: "argument s ai d = Inr (n, d') \<Longrightarrow> ai \<noteq> 31" for s ai d
    by (auto simp: argument_def)
  have "dec_count s ai d1 = Inr (n, d') \<longleftrightarrow>
      argument s ai d1 = Inr (n, d') \<and> unat n \<le> length (rest d')" for ai d1
    using no31 [of s ai d1] by (cases "argument s ai d1") (auto simp: dec_count_def Let_def split: if_splits)
  then show ?thesis
    using head_iff [of d m s n d'] by (simp only: conj_assoc [symmetric] ex_simps)
qed

lemma string_payload_iff:
  "string_payload s ai d = Inr (raw, d') \<longleftrightarrow>
    (\<exists>n d1. dec_count s ai d = Inr (n, d1) \<and> length raw = unat n \<and> reads d1 raw d')"
proof
  assume "string_payload s ai d = Inr (raw, d')"
  then obtain n d1 where c: "dec_count s ai d = Inr (n, d1)"
    and raw: "raw = take (unat n) (rest d1)" and d': "d' = advance (unat n) d1"
    by (auto simp: string_payload_def bindE_eq_Inr)
  from c have "unat n \<le> length (rest d1)"
    by (auto simp: dec_count_def bindE_eq_Inr Let_def split: if_splits)
  then have "length raw = unat n \<and> reads d1 raw d'"
    by (simp add: raw d' advance_reads)
  with c show "\<exists>n d1. dec_count s ai d = Inr (n, d1) \<and> length raw = unat n \<and> reads d1 raw d'"
    by blast
next
  assume "\<exists>n d1. dec_count s ai d = Inr (n, d1) \<and> length raw = unat n \<and> reads d1 raw d'"
  then show "string_payload s ai d = Inr (raw, d')"
    by (auto simp: string_payload_def bindE_eq_Inr reads_def advance_def)
qed

text \<open>
  A counted string: the length as the head's argument, then the bytes. The word is the length
  itself, because the bytes are part of an input shorter than \<open>2 ^ 64\<close>.
\<close>

lemma counted_iff:
  assumes "length (rest d) < 2 ^ 64"
  shows "(\<exists>ib d1. reads d [ib] d1 \<and> major_of ib = m \<and> string_payload s (info_of ib) d1 = Inr (raw, d')) \<longleftrightarrow>
    m < 8 \<and> reads d (write_head m (word_of_nat (length raw)) @ raw) d'"
proof -
  have "(\<exists>ib d1. reads d [ib] d1 \<and> major_of ib = m \<and> string_payload s (info_of ib) d1 = Inr (raw, d')) \<longleftrightarrow>
      (\<exists>n d2. (\<exists>ib d1. reads d [ib] d1 \<and> major_of ib = m \<and> dec_count s (info_of ib) d1 = Inr (n, d2)) \<and>
        length raw = unat n \<and> reads d2 raw d')"
    by (auto simp: string_payload_iff)
  also have "\<dots> \<longleftrightarrow> m < 8 \<and> (\<exists>n d2. reads d (write_head m n) d2 \<and> length raw = unat n \<and> reads d2 raw d')"
  proof -
    have "unat n \<le> length (rest d2)" if "length raw = unat n" and "reads d2 raw d'" for n :: uint64 and d2
      using that by (auto dest: reads_length)
    then show ?thesis by (simp only: count_iff) blast
  qed
  also have "\<dots> \<longleftrightarrow> m < 8 \<and> (\<exists>d2. reads d (write_head m (word_of_nat (length raw))) d2 \<and> reads d2 raw d')"
  proof -
    have "length raw = unat n \<longleftrightarrow> n = word_of_nat (length raw)"
      if "reads d (write_head m n) d2" and "reads d2 raw d'" for n :: uint64 and d2
    proof -
      have "length raw < 2 ^ 64"
        using that assms by (auto dest!: reads_length)
      then show ?thesis by (auto simp: unat_of_nat)
    qed
    then show ?thesis by blast
  qed
  finally show ?thesis by (simp add: reads_append)
qed

section \<open>Values\<close>

text \<open>A decoded map has its entries in the order of their encoded keys, at every level.\<close>

fun canonical :: "cbor_value \<Rightarrow> bool" where
  "canonical (Array vs) = (\<forall>v \<in> set vs. canonical v)"
| "canonical (Map m) =
    (sorted_wrt (<) (map (\<lambda>e. text_key (fst e)) m) \<and> (\<forall>e \<in> set m. canonical (snd e)))"
| "canonical _ = True"

lemma simple_iff: "simple s ai d = Inr (v, d') \<longleftrightarrow> ai = 22 \<and> v = Null \<and> d' = d"
  by (auto simp: simple_def)

lemma tag_value_Decimal: "tag_value s ai depth d = Inr (v, d') \<Longrightarrow> \<exists>e m. v = Decimal e m"
  by (auto simp: tag_value_def bindE_eq_Inr Let_def split: if_splits)

lemma not_lower_majors:
  "b < 8 \<Longrightarrow> b \<noteq> 0 \<and> b \<noteq> 1 \<and> b \<noteq> 2 \<and> b \<noteq> 3 \<and> b \<noteq> 4 \<and> b \<noteq> 5 \<and> b \<noteq> 6 \<longleftrightarrow> b = (7 :: byte)"
  by (auto simp: word_less_nat_alt word_unat_eq_iff)

lemma dec_value_split:
  "dec_value depth d0 = Inr (v, d') \<longleftrightarrow> (\<exists>ib d. reads d0 [ib] d \<and>
    (major_of ib = 0 \<and> (\<exists>arg. argument (pos d0) (info_of ib) d = Inr (arg, d') \<and> v = Uint arg) \<or>
     major_of ib = 1 \<and> (\<exists>arg. argument (pos d0) (info_of ib) d = Inr (arg, d') \<and> v = Neg arg) \<or>
     major_of ib = 2 \<and> (\<exists>raw. string_payload (pos d0) (info_of ib) d = Inr (raw, d') \<and> v = Bytes raw) \<or>
     major_of ib = 3 \<and> (\<exists>raw. string_payload (pos d0) (info_of ib) d = Inr (raw, d') \<and> utf8_valid raw \<and>
       v = Text (string_of raw)) \<or>
     major_of ib = 4 \<and> Suc depth \<le> max_depth \<and>
       (\<exists>n d1 vs. dec_count (pos d0) (info_of ib) d = Inr (n, d1) \<and>
         dec_items (Suc depth) (unat n) d1 = Inr (vs, d') \<and> v = Array vs) \<or>
     major_of ib = 5 \<and> Suc depth \<le> max_depth \<and>
       (\<exists>n d1 m. dec_count (pos d0) (info_of ib) d = Inr (n, d1) \<and>
         dec_entries (Suc depth) (unat n) None d1 = Inr (m, d') \<and> v = Map m) \<or>
     major_of ib = 6 \<and> tag_value (pos d0) (info_of ib) depth d = Inr (v, d') \<or>
     major_of ib = 7 \<and> simple (pos d0) (info_of ib) d = Inr (v, d')))"
proof -
  have ex_pair: "(\<exists>x. P x) \<longleftrightarrow> (\<exists>a b. P (a, b))" for P :: "byte \<times> decoder \<Rightarrow> bool"
    by simp
  show ?thesis
    unfolding dec_value.simps [of depth d0] Let_def bindE_eq_Inr [of "next_byte d0"] ex_pair next_byte_reads prod.case
  proof (intro ex_cong1 conj_cong refl, goal_cases)
    case (1 ib d)
    consider "major_of ib = 0" | "major_of ib = 1" | "major_of ib = 2" | "major_of ib = 3"
      | "major_of ib = 4" | "major_of ib = 5" | "major_of ib = 6" | "major_of ib = 7"
      using not_lower_majors [OF major_of_less [of ib]] by blast
    then show ?case
      by cases (auto simp: dec_enter_def bindE_eq_Inr Let_def split: if_splits)
  qed
qed

lemma dec_Uint: "dec_value depth d = Inr (Uint u, d') \<longleftrightarrow> reads d (write_head 0 u) d'"
  using head_iff [of d 0 "pos d" u d'] by (simp add: dec_value_split simple_iff) (auto dest: tag_value_Decimal)

lemma dec_Neg: "dec_value depth d = Inr (Neg u, d') \<longleftrightarrow> reads d (write_head 1 u) d'"
  using head_iff [of d 1 "pos d" u d'] by (simp add: dec_value_split simple_iff) (auto dest: tag_value_Decimal)

lemma dec_Bytes:
  assumes "length (rest d) < 2 ^ 64"
  shows "dec_value depth d = Inr (Bytes b, d') \<longleftrightarrow> reads d (write_head 2 (word_of_nat (length b)) @ b) d'"
  using counted_iff [OF assms, of 2 "pos d" b d']
  by (simp add: dec_value_split simple_iff) (auto dest: tag_value_Decimal)

lemma dec_Text:
  assumes "length (rest d) < 2 ^ 64"
  shows "dec_value depth d = Inr (Text s, d') \<longleftrightarrow>
    valid_text s \<and> reads d (write_head 3 (word_of_nat (length s)) @ bytes_of s) d'"
proof -
  have raw: "(\<exists>raw. P raw \<and> utf8_valid raw \<and> s = string_of raw) \<longleftrightarrow> P (bytes_of s) \<and> valid_text s" for P
    by (metis bytes_of_string_of string_of_bytes_of valid_string_def valid_text_def)
  have "dec_value depth d = Inr (Text s, d') \<longleftrightarrow> valid_text s \<and>
      (\<exists>ib d1. reads d [ib] d1 \<and> major_of ib = 3 \<and> string_payload (pos d) (info_of ib) d1 = Inr (bytes_of s, d'))"
    by (simp add: dec_value_split simple_iff raw) (auto dest: tag_value_Decimal)
  also have "\<dots> \<longleftrightarrow> valid_text s \<and> reads d (write_head 3 (word_of_nat (length s)) @ bytes_of s) d'"
    using counted_iff [OF assms, of 3 "pos d" "bytes_of s" d'] by simp
  finally show ?thesis .
qed

lemma dec_Null: "dec_value depth d = Inr (Null, d') \<longleftrightarrow> reads d [head_byte 7 22] d'"
proof -
  have "major_of ib = 7 \<and> info_of ib = 22 \<longleftrightarrow> ib = head_byte 7 22" for ib
    using head_byte_split [of ib] major_of_head_byte [of 7 22] info_of_head_byte [of 7 22] by auto
  moreover have "dec_value depth d = Inr (Null, d') \<longleftrightarrow>
      (\<exists>ib. reads d [ib] d' \<and> (major_of ib = 7 \<and> info_of ib = 22))"
    by (simp add: dec_value_split simple_iff) (auto dest: tag_value_Decimal)
  ultimately show ?thesis
    by (simp only:) blast
qed

lemma dec_NilValue: "dec_value depth d \<noteq> Inr (NilValue, d')"
  by (auto simp: dec_value_split simple_iff dest: tag_value_Decimal)

lemma dec_Array:
  "dec_value depth d = Inr (Array vs, d') \<longleftrightarrow> Suc depth \<le> max_depth \<and>
    (\<exists>n d1. reads d (write_head 4 n) d1 \<and> unat n \<le> length (rest d1) \<and>
      dec_items (Suc depth) (unat n) d1 = Inr (vs, d'))"
proof -
  have "dec_value depth d = Inr (Array vs, d') \<longleftrightarrow> Suc depth \<le> max_depth \<and>
    (\<exists>n d1. (\<exists>ib d2. reads d [ib] d2 \<and> major_of ib = 4 \<and> dec_count (pos d) (info_of ib) d2 = Inr (n, d1)) \<and>
      dec_items (Suc depth) (unat n) d1 = Inr (vs, d'))"
    by (simp add: dec_value_split simple_iff) (auto dest: tag_value_Decimal)
  then show ?thesis by (simp add: count_iff conj_ac)
qed

lemma dec_Map:
  "dec_value depth d = Inr (Map m, d') \<longleftrightarrow> Suc depth \<le> max_depth \<and>
    (\<exists>n d1. reads d (write_head 5 n) d1 \<and> unat n \<le> length (rest d1) \<and>
      dec_entries (Suc depth) (unat n) None d1 = Inr (m, d'))"
proof -
  have "dec_value depth d = Inr (Map m, d') \<longleftrightarrow> Suc depth \<le> max_depth \<and>
    (\<exists>n d1. (\<exists>ib d2. reads d [ib] d2 \<and> major_of ib = 5 \<and> dec_count (pos d) (info_of ib) d2 = Inr (n, d1)) \<and>
      dec_entries (Suc depth) (unat n) None d1 = Inr (m, d'))"
    by (simp add: dec_value_split simple_iff) (auto dest: tag_value_Decimal)
  then show ?thesis by (simp add: count_iff conj_ac)
qed

lemma encode_int_value:
  "encode_value l (int_value i) = Inr (if sint i < 0 then write_head 1 (- (i + 1)) else write_head 0 i)"
  by (simp add: int_value_def)

lemma max_int64_sint: "\<not> max_int64 < u \<longleftrightarrow> 0 \<le> sint u"
proof
  assume "\<not> max_int64 < u"
  then have lt: "uint u < 2 ^ 63"
    by (simp add: max_int64_def word_less_def)
  have "sint u = uint u"
    unfolding sint_uint by (rule signed_take_bit_int_eq_self) (use lt in \<open>auto intro: order_trans [OF _ uint_ge_0]\<close>)
  then show "0 \<le> sint u" by simp
next
  assume "0 \<le> sint u"
  with uint_nonneg_int64 [OF this] sint_bounds64 [of u] show "\<not> max_int64 < u"
    by (simp add: max_int64_def word_less_def)
qed

lemma neg_int64_iff: "0 \<le> sint arg \<and> i = - 1 - arg \<longleftrightarrow> sint i < 0 \<and> arg = - (i + 1)" for arg i :: int64
proof -
  have neg: "sint (- 1 - a) = - 1 - sint a" for a :: int64
  proof -
    have "sint (- 1 - a) = sint (word_of_int (- 1 - sint a) :: int64)"
      by simp
    also have "\<dots> = - 1 - sint a"
      by (rule sint_word_of_int64) (use sint_bounds64 [of a] in auto)
    finally show ?thesis .
  qed
  have "i = - 1 - arg \<longleftrightarrow> arg = - (i + 1)"
    by auto
  with neg [of arg] show ?thesis by auto
qed

lemma decimal_int_iff:
  "decimal_int d = Inr (i, d') \<longleftrightarrow> (\<exists>b. encode_value l (int_value i) = Inr b \<and> reads d b d')"
proof -
  have ex_pair: "(\<exists>x. P x) \<longleftrightarrow> (\<exists>a b. P (a, b))" for P :: "byte \<times> decoder \<Rightarrow> bool"
    by simp
  have "decimal_int d = Inr (i, d') \<longleftrightarrow> (\<exists>ib d1. reads d [ib] d1 \<and>
      (major_of ib = 0 \<and> (argument (pos d) (info_of ib) d1 = Inr (i, d') \<and> 0 \<le> sint i) \<or>
       major_of ib = 1 \<and> (\<exists>arg. argument (pos d) (info_of ib) d1 = Inr (arg, d') \<and> 0 \<le> sint arg \<and> i = - 1 - arg)))"
    unfolding decimal_int_def Let_def bindE_eq_Inr [of "next_byte d"] ex_pair next_byte_reads prod.case
  proof (intro ex_cong1 conj_cong refl, goal_cases)
    case (1 ib d1)
    show ?case
      by (cases "major_of ib = 0"; cases "major_of ib = 1"; cases "argument (pos d) (info_of ib) d1")
        (auto simp: max_int64_sint [symmetric] split: if_splits)
  qed
  also have "\<dots> \<longleftrightarrow> (reads d (write_head 0 i) d' \<and> 0 \<le> sint i) \<or>
      (\<exists>arg. reads d (write_head 1 arg) d' \<and> (0 \<le> sint arg \<and> i = - 1 - arg))"
    using head_iff [of d 0 "pos d" i d'] head_iff [of d 1 "pos d" _ d'] by (auto; blast)
  also have "\<dots> \<longleftrightarrow> (\<exists>b. encode_value l (int_value i) = Inr b \<and> reads d b d')"
    by (auto simp: encode_int_value neg_int64_iff)
  finally show ?thesis .
qed

lemma write_head_nonempty [simp]: "write_head m a \<noteq> []"
  by (simp add: write_head_alt)

lemma encode_int_value_nonempty: "encode_value l (int_value i) = Inr b \<Longrightarrow> 1 \<le> length b"
  by (auto simp: encode_int_value write_head_alt split: if_splits)

lemma dec_Decimal:
  "dec_value depth d = Inr (Decimal e m, d') \<longleftrightarrow>
    (\<exists>b. encode_value depth (Decimal e m) = Inr b \<and> reads d b d')"
proof -
  have "dec_value depth d = Inr (Decimal e m, d') \<longleftrightarrow>
    (\<exists>ib d1. reads d [ib] d1 \<and> major_of ib = 6 \<and> tag_value (pos d) (info_of ib) depth d1 = Inr (Decimal e m, d'))"
    by (simp add: dec_value_split simple_iff)
  also have "\<dots> \<longleftrightarrow> Suc depth \<le> max_depth \<and> check_canonical e m = Inr () \<and>
    (\<exists>d1. (\<exists>ib d0. reads d [ib] d0 \<and> major_of ib = 6 \<and> argument (pos d) (info_of ib) d0 = Inr (4, d1)) \<and>
      (\<exists>d2 d3. (\<exists>ib d0. reads d1 [ib] d0 \<and> major_of ib = 4 \<and> dec_count (pos d1) (info_of ib) d0 = Inr (2, d2)) \<and>
       decimal_int d2 = Inr (e, d3) \<and> decimal_int d3 = Inr (m, d')))"
    by (auto simp: tag_value_def bindE_eq_Inr Let_def next_byte_reads dec_enter_def split: if_splits; blast)
  also have "\<dots> \<longleftrightarrow> Suc depth \<le> max_depth \<and> check_canonical e m = Inr () \<and>
    (\<exists>d1. reads d (write_head 6 4) d1 \<and>
      (\<exists>d2 d3. (reads d1 (write_head 4 2) d2 \<and> 2 \<le> length (rest d2)) \<and>
       (\<exists>eb. encode_value (Suc depth) (int_value e) = Inr eb \<and> reads d2 eb d3) \<and>
       (\<exists>mb. encode_value (Suc depth) (int_value m) = Inr mb \<and> reads d3 mb d')))"
    by (simp add: head_iff count_iff decimal_int_iff [where l = "Suc depth"])
  also have "\<dots> \<longleftrightarrow> Suc depth \<le> max_depth \<and> check_canonical e m = Inr () \<and>
    (\<exists>eb mb. encode_value (Suc depth) (int_value e) = Inr eb \<and> encode_value (Suc depth) (int_value m) = Inr mb \<and>
       reads d (write_head 6 4 @ write_head 4 2 @ eb @ mb) d')"
  proof -
    have "2 \<le> length (rest d2)"
      if "encode_value (Suc depth) (int_value e) = Inr eb" "reads d2 eb d3"
        "encode_value (Suc depth) (int_value m) = Inr mb" "reads d3 mb d'" for d2 d3 eb mb
      using that by (auto dest!: encode_int_value_nonempty reads_length)
    then show ?thesis by (simp only: reads_append) blast
  qed
  also have "\<dots> \<longleftrightarrow> (\<exists>b. encode_value depth (Decimal e m) = Inr b \<and> reads d b d')"
    by (auto simp: bindE_eq_Inr enter_def Let_def)
  finally show ?thesis .
qed

section \<open>Containers\<close>

definition entries_of :: "cbor_map \<Rightarrow> encoded_entry list" where
  "entries_of = map (\<lambda>(k, v). (text_key k, k, v))"

lemma fst_entries_of: "map fst (entries_of m) = map (\<lambda>e. text_key (fst e)) m"
  by (auto simp: entries_of_def)

text \<open>What the two directions share: decoding a value is reading back its encoding.\<close>

definition decodes :: "cbor_value \<Rightarrow> bool" where
  "decodes v \<longleftrightarrow> (\<forall>depth d d'. length (rest d) < 2 ^ 64 \<longrightarrow>
    (dec_value depth d = Inr (v, d') \<longleftrightarrow>
      canonical v \<and> (\<exists>b. encode_value depth v = Inr b \<and> reads d b d')))"

lemma decodesD:
  "decodes v \<Longrightarrow> length (rest d) < 2 ^ 64 \<Longrightarrow> dec_value depth d = Inr (v, d') \<longleftrightarrow>
    canonical v \<and> (\<exists>b. encode_value depth v = Inr b \<and> reads d b d')"
  by (simp add: decodes_def)

lemma reads_rest: "reads d b d1 \<Longrightarrow> length (rest d) < 2 ^ 64 \<Longrightarrow> length (rest d1) < 2 ^ 64"
  by (simp add: reads_def)

lemma reads_encode_Cons:
  "(\<exists>b. encode_items level (v # vs) = Inr b \<and> reads d b d') \<longleftrightarrow>
    (\<exists>d1. (\<exists>b. encode_value level v = Inr b \<and> reads d b d1) \<and>
      (\<exists>b. encode_items level vs = Inr b \<and> reads d1 b d'))"
  "(\<exists>b. encode_entries level ((kb, k, v) # es) = Inr b \<and> reads d b d') \<longleftrightarrow>
    (\<exists>d1 d2. reads d kb d1 \<and> (\<exists>b. encode_value level v = Inr b \<and> reads d1 b d2) \<and>
      (\<exists>b. encode_entries level es = Inr b \<and> reads d2 b d'))"
  by (auto simp: bindE_eq_Inr reads_append; blast)+

lemma dec_items_iff:
  assumes "\<And>v. v \<in> set vs \<Longrightarrow> decodes v" and "length (rest d) < 2 ^ 64"
  shows "dec_items level n d = Inr (vs, d') \<longleftrightarrow> n = length vs \<and> (\<forall>v \<in> set vs. canonical v) \<and>
    (\<exists>b. encode_items level vs = Inr b \<and> reads d b d')"
  using assms
proof (induction vs arbitrary: n d)
  case Nil
  then show ?case by (cases n) (auto simp: bindE_eq_Inr)
next
  case (Cons v vs)
  show ?case
  proof (cases n)
    case 0
    then show ?thesis by simp
  next
    case (Suc k)
    have "dec_items level n d = Inr (v # vs, d') \<longleftrightarrow>
        (\<exists>d1. dec_value level d = Inr (v, d1) \<and> dec_items level k d1 = Inr (vs, d'))"
      by (auto simp: Suc bindE_eq_Inr)
    also have "\<dots> \<longleftrightarrow> (\<exists>d1. (canonical v \<and> (\<exists>b. encode_value level v = Inr b \<and> reads d b d1)) \<and>
        (k = length vs \<and> (\<forall>v \<in> set vs. canonical v) \<and> (\<exists>b. encode_items level vs = Inr b \<and> reads d1 b d')))"
    proof (intro ex_cong1 conj_cong, goal_cases)
      case (1 d1)
      show ?case using Cons.prems by (simp add: decodesD)
    next
      case (2 d1)
      then have "length (rest d1) < 2 ^ 64"
        using reads_rest [OF _ Cons.prems(2)] by blast
      with Cons show ?case by simp
    qed
    also have "\<dots> \<longleftrightarrow> n = length (v # vs) \<and> (\<forall>v \<in> set (v # vs). canonical v) \<and>
        (\<exists>b. encode_items level (v # vs) = Inr b \<and> reads d b d')"
      by (simp only: reads_encode_Cons) (auto simp: Suc)
    finally show ?thesis .
  qed
qed

lemma dec_text_key_iff:
  assumes "length (rest d) < 2 ^ 64"
  shows "dec_text_key d = Inr ((key, enc), d') \<longleftrightarrow> valid_text key \<and> enc = text_key key \<and> reads d enc d'"
proof -
  have raw: "(\<exists>raw. P raw \<and> utf8_valid raw \<and> key = string_of raw) \<longleftrightarrow> P (bytes_of key) \<and> valid_text key" for P
    by (metis bytes_of_string_of string_of_bytes_of valid_string_def valid_text_def)
  have "dec_text_key d = Inr ((key, enc), d') \<longleftrightarrow> (\<exists>raw. (\<exists>ib d1. reads d [ib] d1 \<and> major_of ib = 3 \<and>
      string_payload (pos d) (info_of ib) d1 = Inr (raw, d')) \<and> utf8_valid raw \<and> key = string_of raw \<and>
      enc = take (pos d' - pos d) (rest d))"
    by (auto simp: dec_text_key_def bindE_eq_Inr Let_def next_byte_reads split: if_splits; blast)
  also have "\<dots> \<longleftrightarrow> (\<exists>raw. reads d (write_head 3 (word_of_nat (length raw)) @ raw) d' \<and> utf8_valid raw \<and>
      key = string_of raw) \<and> enc = take (pos d' - pos d) (rest d)"
    by (auto simp: counted_iff [OF assms])
  also have "\<dots> \<longleftrightarrow> valid_text key \<and> enc = text_key key \<and> reads d enc d'"
    by (simp only: raw) (auto simp: text_key_def reads_def)
  finally show ?thesis .
qed

definition option_list :: "'a option \<Rightarrow> 'a list" where
  "option_list p = (case p of None \<Rightarrow> [] | Some x \<Rightarrow> [x])"

lemma sorted_wrt_option_list:
  "sorted_wrt (<) (option_list p @ x # xs) \<longleftrightarrow>
    p \<noteq> Some x \<and> \<not> (case p of Some q \<Rightarrow> x < q | None \<Rightarrow> False) \<and> sorted_wrt (<) (option_list (Some x) @ xs)"
  for x :: "byte list"
  by (cases p) (auto simp: option_list_def)

lemma dec_entries_iff:
  assumes "\<And>e. e \<in> set m \<Longrightarrow> decodes (snd e)" and "length (rest d) < 2 ^ 64"
  shows "dec_entries level n prev d = Inr (m, d') \<longleftrightarrow> n = length m \<and>
    (\<forall>e \<in> set m. valid_text (fst e) \<and> canonical (snd e)) \<and>
    sorted_wrt (<) (option_list prev @ map (\<lambda>e. text_key (fst e)) m) \<and>
    (\<exists>b. encode_entries level (entries_of m) = Inr b \<and> reads d b d')"
  using assms
proof (induction m arbitrary: n d prev)
  case Nil
  then show ?case by (cases n) (auto simp: bindE_eq_Inr Let_def entries_of_def option_list_def split: option.splits if_splits)
next
  case (Cons e m)
  obtain k v where e: "e = (k, v)" by (cases e)
  show ?case
  proof (cases n)
    case 0
    then show ?thesis by simp
  next
    case (Suc j)
    let ?ord = "prev \<noteq> Some (text_key k) \<and> \<not> (case prev of Some q \<Rightarrow> text_key k < q | None \<Rightarrow> False)"
    have "dec_entries level n prev d = Inr (e # m, d') \<longleftrightarrow>
        (\<exists>enc d1 d2. dec_text_key d = Inr ((k, enc), d1) \<and> prev \<noteq> Some enc \<and>
          \<not> (case prev of Some q \<Rightarrow> enc < q | None \<Rightarrow> False) \<and> dec_value level d1 = Inr (v, d2) \<and>
          dec_entries level j (Some enc) d2 = Inr (m, d'))"
      by (auto simp: Suc e bindE_eq_Inr Let_def split: if_splits)
    also have "\<dots> \<longleftrightarrow> (\<exists>d1 d2. reads d (text_key k) d1 \<and> (valid_text k \<and> ?ord) \<and>
        dec_value level d1 = Inr (v, d2) \<and> dec_entries level j (Some (text_key k)) d2 = Inr (m, d'))"
      unfolding dec_text_key_iff [OF Cons.prems(2)] by auto
    also have "\<dots> \<longleftrightarrow> (\<exists>d1 d2. reads d (text_key k) d1 \<and> (valid_text k \<and> ?ord) \<and>
        (canonical v \<and> (\<exists>b. encode_value level v = Inr b \<and> reads d1 b d2)) \<and>
        (j = length m \<and> (\<forall>e \<in> set m. valid_text (fst e) \<and> canonical (snd e)) \<and>
        sorted_wrt (<) (option_list (Some (text_key k)) @ map (\<lambda>e. text_key (fst e)) m) \<and>
        (\<exists>b. encode_entries level (entries_of m) = Inr b \<and> reads d2 b d')))"
    proof (intro ex_cong1 conj_cong refl, goal_cases)
      case (1 d1 d2)
      show ?case
        using Cons.prems(1) [of e] reads_rest [OF 1(1) Cons.prems(2)] by (simp add: e decodesD)
    next
      case (2 d1 d2)
      then have "length (rest d2) < 2 ^ 64"
        using reads_rest Cons.prems(2) by blast
      with Cons show ?case by simp
    qed
    also have "\<dots> \<longleftrightarrow> n = length (e # m) \<and>
        (\<forall>e \<in> set (e # m). valid_text (fst e) \<and> canonical (snd e)) \<and>
        sorted_wrt (<) (option_list prev @ map (\<lambda>e. text_key (fst e)) (e # m)) \<and>
        (\<exists>b. encode_entries level (entries_of (e # m)) = Inr b \<and> reads d b d')"
      unfolding list.map sorted_wrt_option_list 
      by (simp only: entries_of_def list.map e prod.case fst_conv snd_conv reads_encode_Cons) (auto simp: Suc; blast)
    finally show ?thesis .
  qed
qed

lemma encode_value_nonempty: "encode_value depth v = Inr b \<Longrightarrow> 1 \<le> length b"
  by (cases v) (auto simp: bindE_eq_Inr write_head_alt split: if_splits)

lemma encode_items_length: "encode_items level vs = Inr b \<Longrightarrow> length vs \<le> length b"
proof (induction vs arbitrary: b)
  case (Cons v vs)
  then obtain b1 b2 where "encode_value level v = Inr b1" "encode_items level vs = Inr b2" "b = b1 @ b2"
    by (auto simp: bindE_eq_Inr)
  with Cons.IH [of b2] encode_value_nonempty [of level v b1] show ?case by simp
qed simp

lemma encode_entries_length: "encode_entries level es = Inr b \<Longrightarrow> length es \<le> length b"
proof (induction es arbitrary: b)
  case (Cons e es)
  obtain kb k v where e: "e = (kb, k, v)" by (cases e)
  with Cons.prems obtain b1 b2 where "encode_value level v = Inr b1" "encode_entries level es = Inr b2"
      "b = kb @ b1 @ b2"
    by (auto simp: bindE_eq_Inr)
  with Cons.IH [of b2] encode_value_nonempty [of level v b1] show ?case by simp
qed simp

lemma strict_sort_key: "sorted_wrt (<) (map f xs) \<Longrightarrow> sort_key f xs = xs"
  by (rule sort_key_id_if_sorted) (rule strict_sorted_imp_sorted)

lemma strict_first_duplicate: "sorted_wrt (<) (map fst es) \<Longrightarrow> first_duplicate es = None"
  by (induction es rule: first_duplicate.induct) auto

lemma sorted_entries_canonical:
  assumes "sorted_wrt (<) (map (\<lambda>e. text_key (fst e)) m)"
  shows "sorted_entries m = Inr es \<longleftrightarrow> (\<forall>e \<in> set m. valid_text (fst e)) \<and> es = entries_of m"
  using strict_sort_key [of fst "entries_of m"] strict_first_duplicate [of "entries_of m"] assms
  by (auto simp: sorted_entries_Inr fst_entries_of) (auto simp: entries_of_def)

text \<open>The counts: the word read from the head is the number of items the encoder counted.\<close>

lemma count_word:
  assumes "reads d1 b d'" and "length xs \<le> length b" and "length (rest d) < 2 ^ 64"
    and "reads d (write_head m n) d1"
  shows "unat n = length xs \<longleftrightarrow> n = word_of_nat (length xs)"
proof -
  have "length xs < 2 ^ 64"
    using assms by (auto dest!: reads_length)
  moreover have "n = word_of_nat (length xs)" if "unat n = length xs"
    using arg_cong [OF that, of "word_of_nat :: nat \<Rightarrow> uint64"] by simp
  ultimately show ?thesis by (auto simp: unat_of_nat)
qed

theorem decodes_all: "decodes v"
proof (induction v)
  case (Array vs)
  show ?case
    unfolding decodes_def
  proof (intro allI impI)
    fix depth and d d' :: decoder
    assume len: "length (rest d) < 2 ^ 64"
    have "dec_value depth d = Inr (Array vs, d') \<longleftrightarrow> Suc depth \<le> max_depth \<and>
        (\<exists>n d1. reads d (write_head 4 n) d1 \<and> unat n \<le> length (rest d1) \<and> (unat n = length vs \<and>
          (\<forall>v \<in> set vs. canonical v) \<and> (\<exists>b. encode_items (Suc depth) vs = Inr b \<and> reads d1 b d')))"
      unfolding dec_Array
    proof (intro ex_cong1 conj_cong refl, goal_cases)
      case (1 n d1)
      show ?case
        using dec_items_iff [OF Array.IH reads_rest [OF 1(2) len]] by simp
    qed
    also have "\<dots> \<longleftrightarrow> Suc depth \<le> max_depth \<and> (\<forall>v \<in> set vs. canonical v) \<and>
        (\<exists>b d1. reads d (write_head 4 (word_of_nat (length vs))) d1 \<and>
           encode_items (Suc depth) vs = Inr b \<and> reads d1 b d')"
    proof -
      have "unat n \<le> length (rest d1) \<and> unat n = length vs \<longleftrightarrow> n = word_of_nat (length vs)"
        if "reads d (write_head 4 n) d1" "encode_items (Suc depth) vs = Inr b" "reads d1 b d'" for n d1 b
        using count_word [OF that(3) encode_items_length [OF that(2)] len that(1)]
          encode_items_length [OF that(2)] that(3) by (auto dest!: reads_length)
      then show ?thesis by blast
    qed
    also have "\<dots> \<longleftrightarrow> canonical (Array vs) \<and> (\<exists>b. encode_value depth (Array vs) = Inr b \<and> reads d b d')"
      by (auto simp: bindE_eq_Inr enter_def Let_def reads_append)
    finally show "dec_value depth d = Inr (Array vs, d') \<longleftrightarrow>
        canonical (Array vs) \<and> (\<exists>b. encode_value depth (Array vs) = Inr b \<and> reads d b d')" .
  qed
next
  case (Map m)
  show ?case
    unfolding decodes_def
  proof (intro allI impI)
    fix depth and d d' :: decoder
    assume len: "length (rest d) < 2 ^ 64"
    have IH: "e \<in> set m \<Longrightarrow> decodes (snd e)" for e
      using Map.IH [of e "snd e"] by (simp add: snds.intros)
    let ?sorted = "sorted_wrt (<) (map (\<lambda>e. text_key (fst e)) m)"
    let ?ok = "(\<forall>e \<in> set m. valid_text (fst e) \<and> canonical (snd e)) \<and> ?sorted"
    have "dec_value depth d = Inr (Map m, d') \<longleftrightarrow> Suc depth \<le> max_depth \<and>
        (\<exists>n d1. reads d (write_head 5 n) d1 \<and> unat n \<le> length (rest d1) \<and> (unat n = length m \<and>
          ?ok \<and> (\<exists>b. encode_entries (Suc depth) (entries_of m) = Inr b \<and> reads d1 b d')))"
      unfolding dec_Map
    proof (intro ex_cong1 conj_cong refl, goal_cases)
      case (1 n d1)
      show ?case
        using dec_entries_iff [OF IH reads_rest [OF 1(2) len], where prev = None]
        by (simp add: option_list_def)
    qed
    also have "\<dots> \<longleftrightarrow> Suc depth \<le> max_depth \<and> ?ok \<and>
        (\<exists>b d1. reads d (write_head 5 (word_of_nat (length m))) d1 \<and>
           encode_entries (Suc depth) (entries_of m) = Inr b \<and> reads d1 b d')"
    proof -
      have "unat n \<le> length (rest d1) \<and> unat n = length m \<longleftrightarrow> n = word_of_nat (length m)"
        if "reads d (write_head 5 n) d1" "encode_entries (Suc depth) (entries_of m) = Inr b" "reads d1 b d'" for n d1 b
        using count_word [OF that(3) encode_entries_length [OF that(2)] len that(1)]
          encode_entries_length [OF that(2)] that(3) by (auto simp: entries_of_def dest!: reads_length)
      then show ?thesis by blast
    qed
    also have "\<dots> \<longleftrightarrow> canonical (Map m) \<and> (\<exists>b. encode_value depth (Map m) = Inr b \<and> reads d b d')"
    proof (cases ?sorted)
      case True
      then show ?thesis
        by (auto simp: bindE_eq_Inr enter_def Let_def reads_append sorted_entries_canonical entries_of_def)
    qed simp
    finally show "dec_value depth d = Inr (Map m, d') \<longleftrightarrow>
        canonical (Map m) \<and> (\<exists>b. encode_value depth (Map m) = Inr b \<and> reads d b d')" .
  qed
qed (auto simp: decodes_def dec_Uint dec_Neg dec_Bytes dec_Text dec_Null dec_NilValue dec_Decimal)

end
