(* ===== verification/Dcbor_Canon.thy ===== *)
theory Dcbor_Canon
  imports Dcbor_Roundtrip
begin

text \<open>
  The canonical order of a value, and what the codec as a whole promises: the decoder
  returns the canonical order of what was encoded, accepts nothing but encodings, and two
  encodable values have one encoding exactly when \<open>Equal\<close> holds of them.
\<close>

section \<open>Canonical order\<close>

text \<open>A value with the entries of every map put into encoded-key order.\<close>

fun canon :: "cbor_value \<Rightarrow> cbor_value" where
  "canon (Array vs) = Array (map canon vs)"
| "canon (Map m) = Map (sort_key (\<lambda>e. text_key (fst e)) (map (\<lambda>(k, v). (k, canon v)) m))"
| "canon v = v"

definition canon_entry :: "string \<times> cbor_value \<Rightarrow> string \<times> cbor_value" where
  "canon_entry e = (fst e, canon (snd e))"

definition canon_encoded :: "encoded_entry \<Rightarrow> encoded_entry" where
  "canon_encoded e = (fst e, fst (snd e), canon (snd (snd e)))"

lemma canon_Map: "canon (Map m) = Map (sort_key (\<lambda>e. text_key (fst e)) (map canon_entry m))"
  by (simp add: canon_entry_def [abs_def] case_prod_unfold)

lemma strict_iff_distinct: "sorted_wrt (<) (map f xs) \<longleftrightarrow> sorted (map f xs) \<and> distinct (map f xs)"
  by (simp add: strict_sorted_iff)

lemma first_duplicate_distinct:
  "sorted (map fst es) \<Longrightarrow> first_duplicate es = None \<longleftrightarrow> distinct (map fst es)"
proof (induction es rule: first_duplicate.induct)
  case (1 a b es)
  then show ?case by (auto dest: order_antisym)
qed auto

lemma sorted_entries_iff:
  "sorted_entries m = Inr es \<longleftrightarrow> (\<forall>e \<in> set m. valid_text (fst e)) \<and>
    es = sort_key fst (entries_of m) \<and> distinct (map (\<lambda>e. text_key (fst e)) m)"
proof -
  have "mset (map fst (sort_key fst (entries_of m))) = mset (map (\<lambda>e. text_key (fst e)) m)"
    by (simp add: fst_entries_of [symmetric])
  then have "distinct (map fst (sort_key fst (entries_of m))) \<longleftrightarrow> distinct (map (\<lambda>e. text_key (fst e)) m)"
    by (rule mset_eq_imp_distinct_iff)
  then show ?thesis
    by (auto simp: sorted_entries_Inr entries_of_def first_duplicate_distinct)
qed

lemma strict_unique:
  fixes f :: "'a \<Rightarrow> 'b :: linorder"
  assumes "sorted_wrt (<) (map f xs)" and "sorted_wrt (<) (map f ys)" and "set xs = set ys"
  shows "xs = ys"
proof -
  have "map f xs = map f ys"
    using assms by (intro strict_sorted_equal) auto
  moreover have "inj_on f (set xs \<union> set ys)"
    using assms by (auto simp: strict_sorted_iff distinct_map)
  ultimately show ?thesis
    by (auto dest: map_inj_on)
qed

lemma strict_sort_key_map:
  fixes f :: "'a \<Rightarrow> 'b :: linorder"
  assumes "distinct (map f xs)"
  shows "sorted_wrt (<) (map f (sort_key f xs))"
proof -
  have "mset (map f (sort_key f xs)) = mset (map f xs)" by simp
  with assms have "distinct (map f (sort_key f xs))"
    by (metis mset_eq_imp_distinct_iff)
  then show ?thesis by (simp add: strict_sorted_iff)
qed

lemma set_entries_of: "set (entries_of m) = (\<lambda>e. (text_key (fst e), fst e, snd e)) ` set m"
  by (auto simp: entries_of_def image_iff case_prod_unfold)

lemma sorted_entries_canon:
  assumes "sorted_entries m = Inr es" and "canon (Map m) = Map m'"
  shows "sorted_entries m' = Inr (map canon_encoded es)"
    and "sorted_wrt (<) (map (\<lambda>e. text_key (fst e)) m')"
    and "set m' = canon_entry ` set m"
proof -
  have m': "m' = sort_key (\<lambda>e. text_key (fst e)) (map canon_entry m)"
    using assms(2) by (simp only: canon_Map cbor_value.inject)
  show set: "set m' = canon_entry ` set m"
    by (simp add: m')
  have d: "distinct (map (\<lambda>e. text_key (fst e)) m)" and es: "es = sort_key fst (entries_of m)"
    and valid: "\<forall>e \<in> set m. valid_text (fst e)"
    using assms(1) by (simp_all add: sorted_entries_iff)
  have "distinct (map (\<lambda>e. text_key (fst e)) (map canon_entry m))"
    using d by (simp add: comp_def canon_entry_def)
  from strict_sort_key_map [OF this] show strict: "sorted_wrt (<) (map (\<lambda>e. text_key (fst e)) m')"
    by (simp add: m')
  have "entries_of m' = map canon_encoded es"
  proof (rule strict_unique [where f = fst])
    show "sorted_wrt (<) (map fst (entries_of m'))"
      using strict by (simp add: fst_entries_of)
    have "distinct (map fst (entries_of m))"
      using d by (simp add: fst_entries_of)
    from strict_sort_key_map [OF this] show "sorted_wrt (<) (map fst (map canon_encoded es))"
      by (simp add: es comp_def canon_encoded_def)
    show "set (entries_of m') = set (map canon_encoded es)"
      by (simp add: set_entries_of set es canon_entry_def canon_encoded_def image_image)
  qed
  then show "sorted_entries m' = Inr (map canon_encoded es)"
    using sorted_entries_canonical [OF strict] valid set by (auto simp: canon_entry_def)
qed

lemma encode_canon_all:
  "encode_value depth v = Inr b \<Longrightarrow> encode_value depth (canon v) = Inr b \<and> canonical (canon v)"
  "encode_items level vs = Inr b \<Longrightarrow> encode_items level (map canon vs) = Inr b \<and>
    (\<forall>v \<in> set vs. canonical (canon v))"
  "encode_entries level es = Inr b \<Longrightarrow> encode_entries level (map canon_encoded es) = Inr b \<and>
    (\<forall>e \<in> set es. canonical (canon (snd (snd e))))"
proof (induction depth v and level vs and level es arbitrary: b and b and b
    rule: encode_value_encode_items_encode_entries.induct)
  case (6 depth vs)
  from "6.prems" obtain level body where l: "enter depth = Inr level" and body: "encode_items level vs = Inr body"
    and b: "b = write_head 4 (word_of_nat (length vs)) @ body"
    by (auto simp: bindE_eq_Inr)
  from "6.IH" [OF l body] l b show ?case by simp
next
  case (7 depth m)
  from "7.prems" obtain level entries body where l: "enter depth = Inr level"
    and s: "sorted_entries m = Inr entries" and body: "encode_entries level entries = Inr body"
    and b: "b = write_head 5 (word_of_nat (length entries)) @ body"
    by (auto simp: bindE_eq_Inr)
  obtain m' where m': "canon (Map m) = Map m'" by simp
  have "canonical (canon (snd e))" if "e \<in> set m" for e
  proof -
    have "(text_key (fst e), fst e, snd e) \<in> set entries"
      using that s by (auto simp: sorted_entries_iff set_entries_of)
    with "7.IH" [OF l s body] show ?thesis by auto
  qed
  then have "canonical (Map m')"
    using sorted_entries_canon [OF s m'] by (auto simp: canon_entry_def)
  moreover have "encode_value depth (Map m') = Inr b"
    using sorted_entries_canon(1) [OF s m'] "7.IH" [OF l s body] l b by simp
  ultimately show ?case by (simp only: m')
next
  case (11 level v vs)
  then show ?case by (auto simp: bindE_eq_Inr)
next
  case (13 level kb k v es)
  then show ?case by (auto simp: bindE_eq_Inr canon_encoded_def)
qed (auto simp: bindE_eq_Inr)

lemmas encode_canon = encode_canon_all(1)

section \<open>The two round trips\<close>

lemma dec_value_encode:
  assumes "encode_value depth v = Inr b" and "reads d b d'" and "length (rest d) < 2 ^ 64"
  shows "dec_value depth d = Inr (canon v, d')"
  using decodesD [OF decodes_all assms(3)] encode_canon [OF assms(1)] assms(2) by blast

lemma decode_encode_canon:
  assumes "encode v = Inr b" and "length b < 2 ^ 64"
  shows "decode b = Inr (canon v)"
proof -
  have "dec_value 0 \<lparr>pos = 0, rest = b\<rparr> = Inr (canon v, \<lparr>pos = length b, rest = []\<rparr>)"
    using assms by (intro dec_value_encode [where b = b]) (simp_all add: encode_def reads_def)
  then show ?thesis by (simp add: decode_def)
qed

lemma decode_iff:
  assumes "length b < 2 ^ 64"
  shows "decode b = Inr v \<longleftrightarrow> canonical v \<and> encode v = Inr b"
proof -
  have "decode b = Inr v \<longleftrightarrow> (\<exists>d'. dec_value 0 \<lparr>pos = 0, rest = b\<rparr> = Inr (v, d') \<and> rest d' = [])"
    by (auto simp: decode_def bindE_eq_Inr split: if_splits)
  also have "\<dots> \<longleftrightarrow> (\<exists>d'. canonical v \<and> (\<exists>c. encode v = Inr c \<and> reads \<lparr>pos = 0, rest = b\<rparr> c d') \<and> rest d' = [])"
    using assms by (simp add: decodesD [OF decodes_all] encode_def)
  also have "\<dots> \<longleftrightarrow> canonical v \<and> encode v = Inr b"
    by (auto simp: reads_def intro: exI [of _ "\<lparr>pos = length b, rest = []\<rparr>"])
  finally show ?thesis .
qed

lemma decode_prefix_iff:
  assumes "length b < 2 ^ 64"
  shows "decode_prefix b = Inr (v, n) \<longleftrightarrow> canonical v \<and> encode v = Inr (take n b) \<and> n \<le> length b"
proof -
  have "decode_prefix b = Inr (v, n) \<longleftrightarrow> (\<exists>d'. dec_value 0 \<lparr>pos = 0, rest = b\<rparr> = Inr (v, d') \<and> pos d' = n)"
    by (auto simp: decode_prefix_def bindE_eq_Inr)
  also have "\<dots> \<longleftrightarrow> (\<exists>d'. canonical v \<and> (\<exists>c. encode v = Inr c \<and> reads \<lparr>pos = 0, rest = b\<rparr> c d') \<and> pos d' = n)"
    using assms by (simp add: decodesD [OF decodes_all] encode_def)
  also have "\<dots> \<longleftrightarrow> canonical v \<and> encode v = Inr (take n b) \<and> n \<le> length b"
    by (auto simp: reads_def intro: exI [of _ "\<lparr>pos = n, rest = drop n b\<rparr>"])
  finally show ?thesis .
qed

section \<open>Equality and encodings\<close>

definition encodable :: "cbor_value \<Rightarrow> bool" where
  "encodable v \<longleftrightarrow> (\<exists>depth b. encode_value depth v = Inr b)"

lemma encodable_items: "encode_items level vs = Inr b \<Longrightarrow> v \<in> set vs \<Longrightarrow> encodable v"
  by (induction vs arbitrary: b) (auto simp: bindE_eq_Inr encodable_def)

lemma encodable_entries: "encode_entries level es = Inr b \<Longrightarrow> e \<in> set es \<Longrightarrow> encodable (snd (snd e))"
proof (induction es arbitrary: b)
  case (Cons a es)
  obtain kb k v where a: "a = (kb, k, v)" by (cases a)
  from Cons.prems(1) obtain b1 b2 where "encode_value level v = Inr b1" and b2: "encode_entries level es = Inr b2"
    by (auto simp: a bindE_eq_Inr)
  then have "encodable v" by (auto simp: encodable_def)
  with Cons.IH [OF b2] Cons.prems(2) show ?case by (auto simp: a)
qed simp

lemma encodable_Array: "encodable (Array vs) \<Longrightarrow> v \<in> set vs \<Longrightarrow> encodable v"
  by (auto simp: encodable_def [of "Array vs"] bindE_eq_Inr dest: encodable_items)

lemma encodable_Map:
  assumes "encodable (Map m)"
  shows "distinct (map (\<lambda>e. text_key (fst e)) m)" and "e \<in> set m \<Longrightarrow> encodable (snd e)"
proof -
  from assms obtain depth level es body where s: "sorted_entries m = Inr es"
    and b: "encode_entries level es = Inr body"
    by (auto simp: encodable_def bindE_eq_Inr)
  then show "distinct (map (\<lambda>e. text_key (fst e)) m)" by (simp add: sorted_entries_iff)
  assume "e \<in> set m"
  then have "(text_key (fst e), fst e, snd e) \<in> set es"
    using s by (auto simp: sorted_entries_iff set_entries_of)
  from encodable_entries [OF b this] show "encodable (snd e)" by simp
qed

lemma distinct_keys: "distinct (map (\<lambda>e. text_key (fst e)) m) \<Longrightarrow> distinct (map fst m)"
  by (auto simp: distinct_map inj_on_def)

lemma map_get_map_of: "map_get m k = map_of m k"
  by (induction m k rule: map_get.induct) auto

lemma canon_Map_eq_iff:
  assumes "encodable (Map a)" and "encodable (Map b)"
  shows "canon (Map a) = canon (Map b) \<longleftrightarrow> canon_entry ` set a = canon_entry ` set b"
proof
  assume "canon (Map a) = canon (Map b)"
  then have "set (sort_key (\<lambda>e. text_key (fst e)) (map canon_entry a)) =
      set (sort_key (\<lambda>e. text_key (fst e)) (map canon_entry b))"
    by (simp only: canon_Map cbor_value.inject)
  then show "canon_entry ` set a = canon_entry ` set b" by simp
next
  assume eq: "canon_entry ` set a = canon_entry ` set b"
  have strict: "sorted_wrt (<) (map (\<lambda>e. text_key (fst e)) (sort_key (\<lambda>e. text_key (fst e)) (map canon_entry m)))"
    if "encodable (Map m)" for m
  proof (rule strict_sort_key_map)
    show "distinct (map (\<lambda>e. text_key (fst e)) (map canon_entry m))"
      using encodable_Map(1) [OF that] by (simp add: comp_def canon_entry_def)
  qed
  show "canon (Map a) = canon (Map b)"
    unfolding canon_Map cbor_value.inject
    by (rule strict_unique [OF strict [OF assms(1)] strict [OF assms(2)]]) (simp add: eq)
qed

lemma equal_value_Map:
  assumes "distinct (map fst a)" and "distinct (map fst b)"
    and eq: "\<And>e w. e \<in> set a \<Longrightarrow> w \<in> set b \<Longrightarrow> equal_value (snd e) (snd w) \<longleftrightarrow> canon (snd e) = canon (snd w)"
  shows "equal_value (Map a) (Map b) \<longleftrightarrow> canon_entry ` set a = canon_entry ` set b"
proof
  assume "equal_value (Map a) (Map b)"
  then have av: "\<And>k v. (k, v) \<in> set a \<Longrightarrow> \<exists>w. map_of b k = Some w \<and> equal_value v w"
    and bv: "\<And>k w. (k, w) \<in> set b \<Longrightarrow> \<exists>v. map_of a k = Some v"
    by (auto simp: list_all_iff map_get_map_of split: option.splits)
  have ab: "\<exists>w. (k, w) \<in> set b \<and> canon v = canon w" if "(k, v) \<in> set a" for k v
    using av [OF that] eq [OF that] by (fastforce dest: map_of_SomeD)
  have ba: "\<exists>v. (k, v) \<in> set a \<and> canon v = canon w" if kw: "(k, w) \<in> set b" for k w
  proof -
    obtain v where v: "(k, v) \<in> set a" using bv [OF kw] by (auto dest: map_of_SomeD)
    from ab [OF v] obtain w' where "(k, w') \<in> set b" "canon v = canon w'" by blast
    moreover have "w' = w"
      using kw assms(2) calculation(1) by (metis eq_key_imp_eq_value)
    ultimately show ?thesis using v by blast
  qed
  show "canon_entry ` set a = canon_entry ` set b"
  proof (intro equalityI subsetI)
    fix e
    assume "e \<in> canon_entry ` set a"
    then obtain k v where "(k, v) \<in> set a" "e = (k, canon v)"
      by (auto simp: canon_entry_def)
    with ab show "e \<in> canon_entry ` set b" by (force simp: canon_entry_def)
  next
    fix e
    assume "e \<in> canon_entry ` set b"
    then obtain k v where "(k, v) \<in> set b" "e = (k, canon v)"
      by (auto simp: canon_entry_def)
    with ba show "e \<in> canon_entry ` set a" by (force simp: canon_entry_def)
  qed
next
  assume im: "canon_entry ` set a = canon_entry ` set b"
  have "length a = card (fst ` set a)" "length b = card (fst ` set b)"
    using assms(1,2) by (metis distinct_card length_map set_map)+
  moreover have fst_im: "fst ` set m = fst ` canon_entry ` set m" for m
    by (simp add: image_image canon_entry_def)
  ultimately have "length a = length b" by (metis im)
  moreover have "case map_get b k of None \<Rightarrow> False | Some w \<Rightarrow> equal_value v w" if kv: "(k, v) \<in> set a" for k v
  proof -
    have "(k, canon v) \<in> canon_entry ` set b"
      using kv im by (force simp: canon_entry_def)
    then obtain w where w: "(k, w) \<in> set b" "canon v = canon w"
      by (auto simp: canon_entry_def)
    then have "map_of b k = Some w" using assms(2) by simp
    with eq [OF kv w(1)] w(2) show ?thesis by (simp add: map_get_map_of)
  qed
  moreover have "map_get a k \<noteq> None" if "(k, w) \<in> set b" for k w
  proof -
    have "fst ` set a = fst ` set b"
      using fst_im [of a] fst_im [of b] by (simp only: im)
    moreover have "k \<in> fst ` set b"
      using imageI [OF that, of fst] by simp
    ultimately show ?thesis by (simp add: map_get_map_of map_of_eq_None_iff)
  qed
  ultimately show "equal_value (Map a) (Map b)"
    unfolding equal_value.simps list_all_iff by blast
qed

lemma equal_value_canon:
  "encodable v \<Longrightarrow> encodable w \<Longrightarrow> equal_value v w \<longleftrightarrow> canon v = canon w"
proof (induction v arbitrary: w)
  case (Array vs)
  show ?case
  proof (cases w)
    case w: (Array ws)
    have eq: "equal_value (vs ! i) (ws ! i) \<longleftrightarrow> canon (vs ! i) = canon (ws ! i)"
      if "i < length vs" "i < length ws" for i
      using that Array.prems by (intro Array.IH) (auto simp: w intro: encodable_Array)
    then show ?thesis
      by (auto simp: w list_all_length list_eq_iff_nth_eq)
  qed simp_all
next
  case (Map m)
  show ?case
  proof (cases w)
    case w: (Map n)
    have "equal_value (snd e) (snd f) \<longleftrightarrow> canon (snd e) = canon (snd f)"
      if "e \<in> set m" "f \<in> set n" for e f
      using that Map.prems Map.IH [of e "snd e" "snd f"]
      by (auto simp: w snds.simps dest: encodable_Map(2))
    then show ?thesis
      unfolding w canon_Map_eq_iff [OF Map.prems [unfolded w]]
      using equal_value_Map [of m n] distinct_keys encodable_Map(1) Map.prems w by blast
  qed (simp_all add: canon_Map del: canon.simps(2))
next
  case (Decimal e m)
  show ?case by (cases w) simp_all
next
  case (Uint u)
  show ?case by (cases w) simp_all
next
  case (Neg u)
  show ?case by (cases w) simp_all
next
  case (Text s)
  show ?case by (cases w) simp_all
next
  case (Bytes s)
  show ?case by (cases w) simp_all
next
  case Null
  show ?case by (cases w) simp_all
next
  case NilValue
  then show ?case by (simp add: encodable_def)
qed

section \<open>The codec\<close>

definition small :: "byte list \<Rightarrow> bool" where
  "small b \<longleftrightarrow> length b < 2 ^ 64"

interpretation dcbor: codec encode decode canon small
  by unfold_locales (auto simp: small_def decode_encode_canon decode_iff)

lemma encode_encodable: "encode v = Inr b \<Longrightarrow> encodable v"
  by (auto simp: encode_def encodable_def)

lemma encode_Inr_equal:
  assumes "encode v = Inr b" and "small b"
  shows "equal_value (canon v) v"
  using equal_value_canon [of "canon v" v] assms dcbor.norm_norm dcbor.enc_norm encode_encodable
  by metis

section \<open>Nesting\<close>

fun nesting :: "cbor_value \<Rightarrow> nat" where
  "nesting (Decimal e m) = 1"
| "nesting (Array vs) = Suc (fold max (map nesting vs) 0)"
| "nesting (Map m) = Suc (fold max (map (\<lambda>e. nesting (snd e)) m) 0)"
| "nesting _ = 0"

lemma fold_max_le: "fold max xs a \<le> n \<longleftrightarrow> a \<le> n \<and> (\<forall>x \<in> set xs. x \<le> n)" for n :: nat
  by (induction xs arbitrary: a) auto

lemma encode_nesting_all:
  "encode_value depth v = Inr b \<Longrightarrow> nesting v \<le> max_depth - depth"
  "encode_items level vs = Inr b \<Longrightarrow> v \<in> set vs \<Longrightarrow> nesting v \<le> max_depth - level"
  "encode_entries level es = Inr b \<Longrightarrow> e \<in> set es \<Longrightarrow> nesting (snd (snd e)) \<le> max_depth - level"
proof (induction depth v and level vs and level es arbitrary: b and b v and b e
    rule: encode_value_encode_items_encode_entries.induct)
  case (3 depth e m)
  then show ?case by (auto simp: bindE_eq_Inr enter_def Let_def split: if_splits)
next
  case (6 depth vs)
  then obtain level body where l: "enter depth = Inr level" and body: "encode_items level vs = Inr body"
    by (auto simp: bindE_eq_Inr)
  have "level = Suc depth" "Suc depth \<le> max_depth"
    using l by (auto simp: enter_def Let_def split: if_splits)
  moreover have "fold max (map nesting vs) 0 \<le> max_depth - level"
    using "6.IH" [OF l body] by (simp add: fold_max_le)
  ultimately show ?case by simp
next
  case (7 depth m)
  then obtain level entries body where l: "enter depth = Inr level"
    and s: "sorted_entries m = Inr entries" and body: "encode_entries level entries = Inr body"
    by (auto simp: bindE_eq_Inr)
  have lv: "level = Suc depth" "Suc depth \<le> max_depth"
    using l by (auto simp: enter_def Let_def split: if_splits)
  have "nesting (snd e) \<le> max_depth - level" if "e \<in> set m" for e
  proof -
    have "(text_key (fst e), fst e, snd e) \<in> set entries"
      using that s by (auto simp: sorted_entries_iff set_entries_of)
    from "7.IH" [OF l s body this] show ?thesis by simp
  qed
  then have "fold max (map (\<lambda>e. nesting (snd e)) m) 0 \<le> max_depth - level"
    by (simp add: fold_max_le)
  then show ?case using lv by simp
next
  case (11 level v vs)
  then show ?case by (auto simp: bindE_eq_Inr)
next
  case (13 level kb k v es)
  then show ?case by (cases e) (auto simp: bindE_eq_Inr)
qed (auto simp: bindE_eq_Inr)

section \<open>Properties\<close>

text \<open>A value with both containers, whose map entries are not in canonical order.\<close>

definition sample_value :: cbor_value where
  "sample_value = Map [(''b'', Decimal (- 2) 15), (''a'', Array [Null, Text ''x'', Bytes [1, 2]])]"

definition sample_bytes :: "byte list" where
  "sample_bytes = [162, 97, 97, 131, 246, 97, 120, 66, 1, 2, 97, 98, 196, 130, 33, 15]"

lemma encode_sample: "encode sample_value = Inr sample_bytes"
  by code_simp

lemma small_sample: "small sample_bytes"
  by (simp add: small_def sample_bytes_def)

text \<open>
  C33. What the encoder writes, the strict decoder reads back to a value equal to the one
  encoded (in the sense of \<open>Equal\<close>), which is encoded to the same bytes again.
\<close>

theorem encode_then_decode:
  assumes "encode v = Inr b" and "small b"
  shows "\<exists>w. decode b = Inr w \<and> equal_value w v \<and> encode w = Inr b"
  using dcbor.dec_enc [OF assms] encode_Inr_equal [OF assms] dcbor.enc_norm [OF assms] by blast

theorem encode_then_decode_witness:
  "\<exists>w. decode sample_bytes = Inr w \<and> equal_value w sample_value \<and> encode w = Inr sample_bytes"
  using encode_then_decode [OF encode_sample small_sample] .

text \<open>
  C34. The decoder is strict: it accepts a byte string only when the string is the canonical
  encoding of the value it returns, so no value has two accepted encodings.
\<close>

theorem decode_then_encode:
  assumes "decode b = Inr v" and "small b"
  shows "encode v = Inr b"
  using dcbor.enc_dec [OF assms] .

theorem decode_then_encode_witness: "encode (canon sample_value) = Inr sample_bytes"
  using decode_then_encode [OF dcbor.dec_enc [OF encode_sample small_sample] small_sample] .

text \<open>
  \<open>Equal\<close> decides whether two encodable values have the same encoding; the order in
  which a map lists its entries does not matter to either.
\<close>

theorem equal_iff_same_encoding:
  assumes "encode v = Inr b" and "encode w = Inr c" and "small b" and "small c"
  shows "equal_value v w \<longleftrightarrow> b = c"
  using dcbor.enc_eq_iff [OF assms] equal_value_canon [OF encode_encodable encode_encodable] assms by blast

theorem equal_iff_same_encoding_witness: "equal_value sample_value (canon sample_value)"
  using equal_iff_same_encoding [OF encode_sample dcbor.enc_norm [OF encode_sample small_sample]]
    small_sample by blast

lemma encodings_prefix_free:
  assumes "encode v = Inr (take n b)" and "encode w = Inr (take k b)" and "n \<le> length b" and "k \<le> length b"
    and "small b"
  shows "n = k"
proof -
  have "decode_prefix b = Inr (canon v, n)" if "encode v = Inr (take n b)" "n \<le> length b" for v n
  proof -
    have "small (take n b)" using assms(5) by (simp add: small_def)
    with that show ?thesis
      using assms(5) dcbor.enc_norm [of v "take n b"] decode_iff [of "take n b" "canon v"]
        dcbor.dec_enc [of v "take n b"]
      by (simp add: small_def decode_prefix_iff)
  qed
  from this [of v n] this [of w k] assms show ?thesis by simp
qed

text \<open>
  \<open>DecodePrefix\<close> finds the one item at the head of its input: it returns a value and a
  length exactly when those bytes are within the input and are what the encoder writes for the
  value, and at most one length can do so (the encoding is prefix-free).
\<close>

theorem decode_prefix_correct:
  assumes "small b"
  shows "(decode_prefix b = Inr (v, n) \<longleftrightarrow> n \<le> length b \<and> decode (take n b) = Inr v) \<and>
    (\<forall>k w. n \<le> length b \<and> decode (take n b) = Inr v \<and> k \<le> length b \<and> decode (take k b) = Inr w \<longrightarrow> k = n)"
proof -
  have small: "small (take k b)" for k
    using assms by (simp add: small_def)
  have dec: "decode (take k b) = Inr v \<longleftrightarrow> canonical v \<and> encode v = Inr (take k b)" for k v
    using decode_iff [of "take k b" v] small [of k] by (simp add: small_def)
  show ?thesis
    using assms encodings_prefix_free [of _ _ b] by (auto simp: dec decode_prefix_iff small_def)
qed

theorem decode_prefix_correct_witness:
  "decode_prefix (sample_bytes @ [1, 2]) = Inr (canon sample_value, 16)"
proof -
  have "small (sample_bytes @ [1, 2])" by (simp add: small_def sample_bytes_def)
  moreover have "take 16 (sample_bytes @ [1, 2]) = sample_bytes" "16 \<le> length (sample_bytes @ [1, 2])"
    by (simp_all add: sample_bytes_def)
  ultimately show ?thesis
    using decode_prefix_correct [of "sample_bytes @ [1, 2]" "canon sample_value" 16]
      dcbor.dec_enc [OF encode_sample small_sample] by simp
qed

text \<open>
  C35. No value nested deeper than 64 levels is written or accepted: neither the encoder nor
  the decoder returns one, so neither recursion can exceed that depth.
\<close>

theorem nesting_bounded:
  assumes "encode v = Inr b \<or> decode b = Inr v" and "small b"
  shows "nesting v \<le> 64"
proof -
  have "encode v = Inr b" using assms dcbor.enc_dec by blast
  then have "encode_value 0 v = Inr b" by (simp add: encode_def)
  from encode_nesting_all(1) [OF this] show ?thesis by (simp add: max_depth_def)
qed

theorem nesting_bounded_witness: "nesting sample_value \<le> 64"
  using nesting_bounded [OF disjI1 [OF encode_sample] small_sample] .

end
