(* ===== verification/Cid.thy ===== *)
theory Cid
  imports Prelude
begin

text \<open>
  Content identifiers and author keys (\<open>go/cid\<close>): the 32-byte digest, the 36-byte CID around
  it, their byte, hex and base32 text forms with the parsers, and the standard-library codecs
  the text forms rest on (\<open>encoding/hex\<close>, \<open>encoding/base32\<close> without padding, whose decoder
  drops line breaks and ignores the unused low bits of the last character).

  A \<open>Digest\<close> (an array of 32 bytes) is the 256-bit word whose big-endian bytes it holds, so
  that comparing digests byte by byte is comparing words; a \<open>CID\<close> and a key are byte lists.
\<close>

type_synonym digest = "256 word"
type_synonym cid = "byte list"

definition version :: byte where "version = 0x01"
definition codec_dag_cbor :: byte where "codec_dag_cbor = 0x71"
definition hash_sha256 :: byte where "hash_sha256 = 0x12"
definition digest_size :: nat where "digest_size = 0x20"
definition cid_size :: nat where "cid_size = 4 + digest_size"

definition cid_prefix :: "byte list" where
  "cid_prefix = [version, codec_dag_cbor, hash_sha256, word_of_nat digest_size]"

datatype hex_error = Invalid_hex_byte char | Odd_hex_length

datatype cid_error =
    Digest_length nat
  | Digest_hex hex_error
  | Cid_length nat
  | Cid_version byte
  | Cid_codec byte
  | Cid_hash byte
  | Cid_digest_length byte
  | Cid_hex hex_error
  | Text_empty
  | Text_not_multibase
  | Text_padding
  | Text_not_lowercase
  | Text_length nat
  | Text_base32 char
  | Key_length nat
  | Key_prefixed_length nat
  | Key_multicodec byte byte

section \<open>Digests and CIDs as bytes\<close>

definition digest_bytes :: "digest \<Rightarrow> byte list" where
  "digest_bytes d = be_bytes 32 (unat d)"

definition digest_of_bytes :: "byte list \<Rightarrow> digest" where
  "digest_of_bytes b = word_of_nat (be_nat b)"

definition parse_digest :: "byte list \<Rightarrow> cid_error + digest" where
  "parse_digest b =
    (if length b \<noteq> digest_size then Inl (Digest_length (length b)) else Inr (digest_of_bytes b))"

definition digest_cid :: "digest \<Rightarrow> cid" where
  "digest_cid d = cid_prefix @ digest_bytes d"

definition cid_digest :: "cid \<Rightarrow> digest" where
  "cid_digest c = digest_of_bytes (drop 4 c)"

definition multihash :: "digest \<Rightarrow> byte list" where
  "multihash d = [hash_sha256, word_of_nat digest_size] @ digest_bytes d"

definition parse_cid :: "byte list \<Rightarrow> cid_error + cid" where
  "parse_cid b =
    (if length b \<noteq> cid_size then Inl (Cid_length (length b))
     else if b ! 0 \<noteq> version then Inl (Cid_version (b ! 0))
     else if b ! 1 \<noteq> codec_dag_cbor then Inl (Cid_codec (b ! 1))
     else if b ! 2 \<noteq> hash_sha256 then Inl (Cid_hash (b ! 2))
     else if b ! 3 \<noteq> word_of_nat digest_size then Inl (Cid_digest_length (b ! 3))
     else Inr b)"

text \<open>\<open>SumDigest\<close> and \<open>SumCID\<close>; SHA-256 is a parameter.\<close>

definition sum_digest :: "(byte list \<Rightarrow> digest) \<Rightarrow> byte list \<Rightarrow> digest" where
  "sum_digest sha256 b = sha256 b"

definition sum_cid :: "(byte list \<Rightarrow> digest) \<Rightarrow> byte list \<Rightarrow> cid" where
  "sum_cid sha256 b = digest_cid (sum_digest sha256 b)"

lemma length_digest_bytes [simp]: "length (digest_bytes d) = 32"
  by (simp add: digest_bytes_def)

lemma digest_of_bytes_inverse [simp]: "digest_of_bytes (digest_bytes d) = d"
  using unsigned_less [of d, where 'a = nat]
  by (simp add: digest_bytes_def digest_of_bytes_def be_nat_be_bytes)

lemma digest_bytes_inverse [simp]:
  assumes "length b = 32"
  shows "digest_bytes (digest_of_bytes b) = b"
proof -
  have "be_nat b < 2 ^ 256"
    using be_nat_less [of b] assms by simp
  then have "unat (digest_of_bytes b) = be_nat b"
    by (simp add: digest_of_bytes_def unat_of_nat)
  then show ?thesis
    using be_bytes_be_nat [of b] assms by (simp add: digest_bytes_def)
qed

lemma digest_bytes_inject [simp]: "digest_bytes a = digest_bytes b \<longleftrightarrow> a = b"
  by (metis digest_of_bytes_inverse)

lemma parse_digest_iff: "parse_digest b = Inr d \<longleftrightarrow> b = digest_bytes d"
  by (auto simp: parse_digest_def digest_size_def)

lemma cid_digest_cid [simp]: "cid_digest (digest_cid d) = d"
  by (simp add: cid_digest_def digest_cid_def cid_prefix_def)

lemma parse_cid_iff: "parse_cid b = Inr c \<longleftrightarrow> b = c \<and> (\<exists>d. c = digest_cid d)"
proof
  assume ok: "parse_cid b = Inr c"
  then have len: "length b = 36" and h: "b ! 0 = version" "b ! 1 = codec_dag_cbor" "b ! 2 = hash_sha256"
      "b ! 3 = word_of_nat digest_size" and c: "b = c"
    by (auto simp: parse_cid_def cid_size_def digest_size_def split: if_splits)
  have "take 4 b = cid_prefix"
    using len h by (auto simp: list_eq_iff_nth_eq cid_prefix_def less_Suc_eq numeral_eq_Suc)
  then have "b = digest_cid (digest_of_bytes (drop 4 b))"
    using len append_take_drop_id [of 4 b] by (simp add: digest_cid_def)
  with c show "b = c \<and> (\<exists>d. c = digest_cid d)" by blast
next
  assume "b = c \<and> (\<exists>d. c = digest_cid d)"
  then show "parse_cid b = Inr c"
    by (auto simp: parse_cid_def cid_size_def digest_size_def digest_cid_def cid_prefix_def)
qed

section \<open>Hex\<close>

definition hex_char :: "byte \<Rightarrow> char" where
  "hex_char v = ''0123456789abcdef'' ! unat v"

definition hex_encode :: "byte list \<Rightarrow> string" where
  "hex_encode bs = concat (map (\<lambda>b. [hex_char (drop_bit 4 b), hex_char (and b 0x0F)]) bs)"

definition hex_value :: "char \<Rightarrow> byte option" where
  "hex_value c =
    (if CHR ''0'' \<le> c \<and> c \<le> CHR ''9'' then Some (byte_of_char c - byte_of_char CHR ''0'')
     else if CHR ''a'' \<le> c \<and> c \<le> CHR ''f'' then Some (byte_of_char c - byte_of_char CHR ''a'' + 10)
     else if CHR ''A'' \<le> c \<and> c \<le> CHR ''F'' then Some (byte_of_char c - byte_of_char CHR ''A'' + 10)
     else None)"

fun hex_decode :: "string \<Rightarrow> hex_error + byte list" where
  "hex_decode [] = Inr []"
| "hex_decode [p] = (if hex_value p = None then Inl (Invalid_hex_byte p) else Inl Odd_hex_length)"
| "hex_decode (p # q # s) =
    (case hex_value p of None \<Rightarrow> Inl (Invalid_hex_byte p)
     | Some a \<Rightarrow> (case hex_value q of None \<Rightarrow> Inl (Invalid_hex_byte q)
        | Some b \<Rightarrow> bindE (hex_decode s) (\<lambda>bs. Inr (or (push_bit 4 a) b # bs))))"

definition digest_string :: "digest \<Rightarrow> string" where
  "digest_string d = hex_encode (digest_bytes d)"

definition cid_hex_string :: "cid \<Rightarrow> string" where
  "cid_hex_string c = hex_encode c"

definition parse_digest_hex :: "string \<Rightarrow> cid_error + digest" where
  "parse_digest_hex s = bindE (mapErr Digest_hex (hex_decode s)) parse_digest"

definition parse_cid_hex :: "string \<Rightarrow> cid_error + cid" where
  "parse_cid_hex s = bindE (mapErr Cid_hex (hex_decode s)) parse_cid"

section \<open>Base32\<close>

definition alphabet :: string where
  "alphabet = ''abcdefghijklmnopqrstuvwxyz234567''"

text \<open>Five bytes as eight 5-bit values, the last group filled up with zero bits.\<close>

definition pack8 :: "byte \<Rightarrow> byte \<Rightarrow> byte \<Rightarrow> byte \<Rightarrow> byte \<Rightarrow> byte list" where
  "pack8 b0 b1 b2 b3 b4 =
    [drop_bit 3 b0,
     and (or (push_bit 2 b0) (drop_bit 6 b1)) 31,
     and (drop_bit 1 b1) 31,
     and (or (push_bit 4 b1) (drop_bit 4 b2)) 31,
     and (or (push_bit 1 b2) (drop_bit 7 b3)) 31,
     and (drop_bit 2 b3) 31,
     and (or (push_bit 3 b3) (drop_bit 5 b4)) 31,
     and b4 31]"

fun pack :: "byte list \<Rightarrow> byte list" where
  "pack (b0 # b1 # b2 # b3 # b4 # bs) = pack8 b0 b1 b2 b3 b4 @ pack bs"
| "pack [b0, b1, b2, b3] = take 7 (pack8 b0 b1 b2 b3 0)"
| "pack [b0, b1, b2] = take 5 (pack8 b0 b1 b2 0 0)"
| "pack [b0, b1] = take 4 (pack8 b0 b1 0 0 0)"
| "pack [b0] = take 2 (pack8 b0 0 0 0 0)"
| "pack [] = []"

definition base32_encode :: "byte list \<Rightarrow> string" where
  "base32_encode bs = map (\<lambda>v. alphabet ! unat v) (pack bs)"

definition unpack8 :: "byte \<Rightarrow> byte \<Rightarrow> byte \<Rightarrow> byte \<Rightarrow> byte \<Rightarrow> byte \<Rightarrow> byte \<Rightarrow> byte \<Rightarrow> byte list" where
  "unpack8 d0 d1 d2 d3 d4 d5 d6 d7 =
    [or (push_bit 3 d0) (drop_bit 2 d1),
     or (push_bit 6 d1) (or (push_bit 1 d2) (drop_bit 4 d3)),
     or (push_bit 4 d3) (drop_bit 1 d4),
     or (push_bit 7 d4) (or (push_bit 2 d5) (drop_bit 3 d6)),
     or (push_bit 5 d6) d7]"

text \<open>
  A last group of 7, 5, 4 or 2 characters gives 4, 3, 2 or 1 bytes; one of 6, 3 or 1
  characters matches no case of Go's switch and gives none.
\<close>

fun unpack :: "byte list \<Rightarrow> byte list" where
  "unpack (d0 # d1 # d2 # d3 # d4 # d5 # d6 # d7 # ds) = unpack8 d0 d1 d2 d3 d4 d5 d6 d7 @ unpack ds"
| "unpack [d0, d1, d2, d3, d4, d5, d6] = take 4 (unpack8 d0 d1 d2 d3 d4 d5 d6 0)"
| "unpack [d0, d1, d2, d3, d4] = take 3 (unpack8 d0 d1 d2 d3 d4 0 0 0)"
| "unpack [d0, d1, d2, d3] = take 2 (unpack8 d0 d1 d2 d3 0 0 0 0)"
| "unpack [d0, d1] = take 1 (unpack8 d0 d1 0 0 0 0 0 0)"
| "unpack _ = []"

text \<open>The decode map of the encoding: the index of a character in the alphabet.\<close>

definition base32_value :: "char \<Rightarrow> byte option" where
  "base32_value c =
    (let i = length (takeWhile (\<lambda>x. x \<noteq> c) alphabet)
     in if i < length alphabet then Some (word_of_nat i) else None)"

definition base32_decode :: "string \<Rightarrow> cid_error + byte list" where
  "base32_decode s =
    bindE (mapE (\<lambda>c. case base32_value c of None \<Rightarrow> Inl (Text_base32 c) | Some v \<Rightarrow> Inr v)
      (filter (\<lambda>c. c \<noteq> CHR 0x0A \<and> c \<noteq> CHR 0x0D) s))
    (\<lambda>vs. Inr (unpack vs))"

section \<open>Text forms\<close>

definition multibase_base32 :: string where
  "multibase_base32 = ''b''"

definition cid_string_size :: nat where
  "cid_string_size = length multibase_base32 + (cid_size * 8 + 4) div 5"

definition cid_string :: "cid \<Rightarrow> string" where
  "cid_string c = multibase_base32 @ base32_encode c"

text \<open>
  \<open>body == strings.ToLower(body)\<close>: no uppercase letter, and valid UTF-8 (\<open>ToLower\<close> rewrites
  every invalid byte). Uppercase letters outside ASCII pass here and are refused by the base32
  decoder, so only the error of such a string differs.
\<close>

definition is_lower :: "string \<Rightarrow> bool" where
  "is_lower s \<longleftrightarrow> list_all (\<lambda>c. \<not> (CHR ''A'' \<le> c \<and> c \<le> CHR ''Z'')) s \<and> valid_string s"

text \<open>What \<open>ParseCIDString\<close> and \<open>ParseAuthorKeyText\<close> check of a string of the given length.\<close>

definition text_body :: "nat \<Rightarrow> string \<Rightarrow> cid_error + byte list" where
  "text_body n s =
    (if s = '''' then Inl Text_empty
     else if take (length multibase_base32) s \<noteq> multibase_base32 then Inl Text_not_multibase
     else let body = drop (length multibase_base32) s
       in if CHR ''='' \<in> set body then Inl Text_padding
          else if \<not> is_lower body then Inl Text_not_lowercase
          else if length s \<noteq> n then Inl (Text_length (length s))
          else base32_decode body)"

definition parse_cid_string :: "string \<Rightarrow> cid_error + cid" where
  "parse_cid_string s = bindE (text_body cid_string_size s) parse_cid"

section \<open>Author keys\<close>

definition author_key_size :: nat where "author_key_size = 32"

definition author_key_prefix :: "byte list" where
  "author_key_prefix = [0xED, 0x01]"

definition author_key_prefixed_size :: nat where
  "author_key_prefixed_size = length author_key_prefix + author_key_size"

definition author_key_text_size :: nat where
  "author_key_text_size = length multibase_base32 + (author_key_prefixed_size * 8 + 4) div 5"

definition author_key_text :: "byte list \<Rightarrow> cid_error + string" where
  "author_key_text pub =
    (if length pub \<noteq> author_key_size then Inl (Key_length (length pub))
     else Inr (multibase_base32 @ base32_encode (author_key_prefix @ pub)))"

definition parse_author_key_bytes :: "byte list \<Rightarrow> cid_error + byte list" where
  "parse_author_key_bytes b =
    (if length b \<noteq> author_key_prefixed_size then Inl (Key_prefixed_length (length b))
     else if b ! 0 \<noteq> author_key_prefix ! 0 \<or> b ! 1 \<noteq> author_key_prefix ! 1
       then Inl (Key_multicodec (b ! 0) (b ! 1))
     else Inr (drop 2 b))"

definition parse_author_key_text :: "string \<Rightarrow> cid_error + byte list" where
  "parse_author_key_text s = bindE (text_body author_key_text_size s) parse_author_key_bytes"

end
