(* ===== verification/Cid_Text.thy ===== *)
theory Cid_Text
  imports Cid
begin

text \<open>
  Which texts the identifier parsers accept. Packing bytes into 5-bit groups and unpacking them
  are inverse up to the spare bits of the last group, so the parsers accept, besides the
  canonical text, every text that differs from it in those bits.
\<close>

section \<open>Packing and unpacking\<close>

lemma mask5: "(31 :: byte) = mask 5"
  by (simp add: mask_eq_exp_minus_1)

lemma bit_byte [simp]: "8 \<le> n \<Longrightarrow> \<not> bit (b :: byte) n"
  using bit_imp_le_length [of b n] by auto

lemma byte_eqI:
  assumes "bit a 0 = bit b 0" "bit a 1 = bit b 1" "bit a 2 = bit b 2" "bit a 3 = bit b 3"
    "bit a 4 = bit b 4" "bit a 5 = bit b 5" "bit a 6 = bit b 6" "bit a 7 = bit b 7"
  shows "a = (b :: byte)"
proof (rule bit_word_eqI)
  fix n assume "n < LENGTH(8)"
  then have "n = 0 \<or> n = 1 \<or> n = 2 \<or> n = 3 \<or> n = 4 \<or> n = 5 \<or> n = 6 \<or> n = 7" by auto
  with assms show "bit a n \<longleftrightarrow> bit b n" by auto
qed

lemma bit_below_32: "d < 32 \<Longrightarrow> 5 \<le> n \<Longrightarrow> \<not> bit (d :: byte) n"
  using mask_bits [of d 5 n] by auto

lemma Suc_bits: "bit x (Suc (Suc 0)) = bit x 2" "bit x (Suc (Suc (Suc 0))) = bit x 3"
   "bit x (Suc (Suc (Suc (Suc 0)))) = bit x 4"
  by (simp_all add: numeral_eq_Suc)

lemma unpack_pack8: "unpack (pack8 b0 b1 b2 b3 b4 @ ds) = b0 # b1 # b2 # b3 # b4 # unpack ds"
  unfolding pack8_def append_Cons append_Nil unpack.simps unpack8_def list.inject mask5
  by (intro conjI refl; rule byte_eqI; simp only: bit_simps o_apply; simp add: Suc_bits)

lemma unpack_tails:
  "unpack (take 7 (pack8 b0 b1 b2 b3 0)) = [b0, b1, b2, b3]"
  "unpack (take 5 (pack8 b0 b1 b2 0 0)) = [b0, b1, b2]"
  "unpack (take 4 (pack8 b0 b1 0 0 0)) = [b0, b1]"
  "unpack (take 2 (pack8 b0 0 0 0 0)) = [b0]"
  using unpack_pack8 [of b0 b1 b2 b3 0 "[]"] unpack_pack8 [of b0 b1 b2 0 0 "[]"]
    unpack_pack8 [of b0 b1 0 0 0 "[]"] unpack_pack8 [of b0 0 0 0 0 "[]"]
  by (simp_all add: pack8_def unpack8_def)

lemma pack_unpack8: 
  assumes "d0 < 32" "d1 < 32" "d2 < 32" "d3 < 32" "d4 < 32" "d5 < 32" "d6 < 32" "d7 < 32"
  shows "pack (unpack8 d0 d1 d2 d3 d4 d5 d6 d7 @ bs) = d0 # d1 # d2 # d3 # d4 # d5 # d6 # d7 # pack bs"
  unfolding unpack8_def append_Cons append_Nil pack.simps pack8_def list.inject mask5
  by (intro conjI refl; rule byte_eqI; simp only: bit_simps o_apply; simp add: assms Suc_bits bit_below_32)

lemma pack_unpack_tails:
  "d0 < 32 \<Longrightarrow> d1 < 32 \<Longrightarrow> pack (unpack [d0, d1]) = [d0, and d1 28]"
  "d0 < 32 \<Longrightarrow> d1 < 32 \<Longrightarrow> d2 < 32 \<Longrightarrow> d3 < 32 \<Longrightarrow> d4 < 32 \<Longrightarrow> d5 < 32 \<Longrightarrow> d6 < 32 \<Longrightarrow>
    pack (unpack [d0, d1, d2, d3, d4, d5, d6]) = [d0, d1, d2, d3, d4, d5, and d6 24]"
proof -
  have m: "(28 :: byte) = push_bit 2 (mask 3)" "(24 :: byte) = push_bit 3 (mask 2)"
    by (simp_all add: mask_eq_exp_minus_1)
  assume a: "d0 < 32" "d1 < 32"
  note bits = bit_below_32 [OF a(1)] bit_below_32 [OF a(2)]
  show "pack (unpack [d0, d1]) = [d0, and d1 28]"
    apply (simp add: pack8_def unpack8_def mask5 m)
    apply (intro conjI; rule byte_eqI; simp only: bit_simps o_apply; simp add: bits Suc_bits)
done
  assume b: "d2 < 32" "d3 < 32" "d4 < 32" "d5 < 32" "d6 < 32"
  have "pack (unpack8 d0 d1 d2 d3 d4 d5 d6 0 @ []) = [d0, d1, d2, d3, d4, d5, d6, 0]"
    by (subst pack_unpack8) (use a b in auto)
  then show "pack (unpack [d0, d1, d2, d3, d4, d5, d6]) = [d0, d1, d2, d3, d4, d5, and d6 24]"
    apply (simp add: pack8_def unpack8_def m)
    apply (rule byte_eqI; simp only: bit_simps o_apply; simp add: bits Suc_bits)
done
qed

lemma alphabet_value: "(v :: byte) < 32 \<Longrightarrow> base32_value (alphabet ! unat v) = Some v"
proof -
  assume "v < 32"
  then have "unat v \<in> set [0..<32]"
    by (simp add: word_less_nat_alt)
  moreover have "list_all (\<lambda>n. base32_value (alphabet ! n) = Some (word_of_nat n)) [0..<32]"
    by code_simp
  ultimately show ?thesis
    unfolding list_all_iff by fastforce
qed

lemma length_alphabet [simp]: "length alphabet = 32"
  by (simp add: alphabet_def)

lemma value_alphabet: "base32_value c = Some v \<Longrightarrow> v < 32 \<and> alphabet ! unat v = c"
proof -
  define i where "i = length (takeWhile (\<lambda>x. x \<noteq> c) alphabet)"
  assume "base32_value c = Some v"
  then have i: "i < 32" and v: "v = word_of_nat i"
    by (auto simp: base32_value_def i_def Let_def split: if_splits)
  then have u: "unat v = i" by (simp add: unat_of_nat)
  have "alphabet ! i = c"
    using nth_length_takeWhile [of "\<lambda>x. x \<noteq> c" alphabet] i by (simp add: i_def)
  with u i show ?thesis by (simp add: word_less_nat_alt)
qed

lemma alphabet_chars: "c \<in> set alphabet \<Longrightarrow> c \<noteq> CHR 0x0A \<and> c \<noteq> CHR 0x0D \<and> c \<noteq> CHR ''='' \<and>
    \<not> (CHR ''A'' \<le> c \<and> c \<le> CHR ''Z'') \<and> byte_of_char c \<le> 0x7F"
proof -
  have "list_all (\<lambda>c. c \<noteq> CHR 0x0A \<and> c \<noteq> CHR 0x0D \<and> c \<noteq> CHR ''='' \<and>
    \<not> (CHR ''A'' \<le> c \<and> c \<le> CHR ''Z'') \<and> byte_of_char c \<le> 0x7F) alphabet"
    by code_simp
  moreover assume "c \<in> set alphabet"
  ultimately show ?thesis unfolding list_all_iff by blast
qed

lemma alphabet_nth: "(v :: byte) < 32 \<Longrightarrow> alphabet ! unat v \<in> set alphabet"
  by (rule nth_mem) (simp add: word_less_nat_alt)

lemma and_31_less: "and v 31 < (32 :: byte)"
  unfolding mask5 using and_mask_less_size [of 5 v] by (simp add: word_size)

lemma drop_3_less: "drop_bit 3 v < (32 :: byte)"
  using unat_byte_less [of v] by (simp add: word_less_nat_alt unat_drop_bit_eq drop_bit_eq_div unat_div less_mult_imp_div_less)

lemma pack8_less: "v \<in> set (pack8 b0 b1 b2 b3 b4) \<Longrightarrow> v < 32"
  by (auto simp: pack8_def and_31_less drop_3_less)

lemma pack_less: "v \<in> set (pack bs) \<Longrightarrow> v < 32"
proof (induction bs rule: pack.induct)
  case (1 b0 b1 b2 b3 b4 bs)
  then show ?case by (auto dest: pack8_less)
qed (simp_all only: pack.simps, (drule in_set_takeD, erule pack8_less)+, simp)

lemma unpack_pack: "unpack (pack bs) = bs"
  by (induction bs rule: pack.induct) (simp_all add: unpack_pack8 unpack_tails)

lemma length_pack: "length (pack bs) = (length bs * 8 + 4) div 5"
  by (induction bs rule: pack.induct) (simp_all add: pack8_def)

lemma length_unpack: "length (unpack vs) \<le> length vs * 5 div 8"
  by (induction vs rule: unpack.induct) (simp_all add: unpack8_def)

text \<open>The values of a text without line breaks.\<close>

definition chars :: "byte list \<Rightarrow> string" where
  "chars vs = map (\<lambda>v. alphabet ! unat v) vs"

lemma base32_values:
  "mapE (\<lambda>c. case base32_value c of None \<Rightarrow> Inl (Text_base32 c) | Some v \<Rightarrow> Inr v) s = Inr vs \<longleftrightarrow>
    s = chars vs \<and> (\<forall>v \<in> set vs. v < 32)" (is "?lhs \<longleftrightarrow> _")
proof -
  have "(case base32_value c of None \<Rightarrow> Inl (Text_base32 c) | Some v \<Rightarrow> Inr v) = Inr v \<longleftrightarrow>
      c = alphabet ! unat v \<and> v < 32" for c v
  proof (cases "base32_value c")
    case None
    then have "\<not> (c = alphabet ! unat v \<and> v < 32)"
      using alphabet_value [of v] by (metis option.distinct(1))
    with None show ?thesis by simp
  next
    case (Some w)
    then have "w = v \<longleftrightarrow> c = alphabet ! unat v \<and> v < 32"
      using value_alphabet [OF Some] alphabet_value [of v] by (metis option.inject Some)
    with Some show ?thesis by simp
  qed
  then have "?lhs \<longleftrightarrow> list_all2 (\<lambda>c v. c = alphabet ! unat v \<and> v < 32) s vs"
    by (simp add: mapE_eq_Inr)
  also have "\<dots> \<longleftrightarrow> s = chars vs \<and> (\<forall>v \<in> set vs. v < 32)"
    by (induction vs arbitrary: s) (auto simp: chars_def list_all2_Cons2)
  finally show ?thesis .
qed

lemma chars_alphabet: "\<forall>v \<in> set vs. v < 32 \<Longrightarrow> c \<in> set (chars vs) \<Longrightarrow> c \<in> set alphabet"
  by (auto simp: chars_def alphabet_nth)

lemma base32_decode_chars: "\<forall>v \<in> set vs. v < 32 \<Longrightarrow> base32_decode (chars vs) = Inr (unpack vs)"
proof -
  assume vs: "\<forall>v \<in> set vs. v < 32"
  have "filter (\<lambda>c. c \<noteq> CHR 0x0A \<and> c \<noteq> CHR 0x0D) (chars vs) = chars vs"
    using chars_alphabet [OF vs] alphabet_chars by (auto simp: filter_id_conv)
  moreover have "mapE (\<lambda>c. case base32_value c of None \<Rightarrow> Inl (Text_base32 c) | Some v \<Rightarrow> Inr v) (chars vs) = Inr vs"
    using vs by (simp add: base32_values)
  ultimately show ?thesis by (simp add: base32_decode_def)
qed

text \<open>
  A text of \<open>m\<close> characters decodes to as many bytes as \<open>m\<close> characters hold only when every
  character is one of the alphabet: dropping a line break leaves too few.
\<close>

lemma text_body_iff:
  assumes "m * 5 div 8 = k" and "(m - 1) * 5 div 8 < k" and "0 < m"
  shows "text_body (Suc m) s = Inr b \<and> length b = k \<longleftrightarrow>
    (\<exists>vs. length vs = m \<and> (\<forall>v \<in> set vs. v < 32) \<and> s = CHR ''b'' # chars vs \<and> b = unpack vs \<and> length b = k)"
proof
  assume "text_body (Suc m) s = Inr b \<and> length b = k"
  then have k: "length b = k" and s: "s \<noteq> ''''" "take 1 s = ''b''" and len: "length s = Suc m"
    and d: "base32_decode (drop 1 s) = Inr b"
    by (auto simp: text_body_def multibase_base32_def Let_def split: if_splits)
  obtain body where body: "s = CHR ''b'' # body" "length body = m"
    using s len by (cases s) auto
  let ?f = "filter (\<lambda>c. c \<noteq> CHR 0x0A \<and> c \<noteq> CHR 0x0D) body"
  from d obtain vs where vs: "?f = chars vs" "\<forall>v \<in> set vs. v < 32" "b = unpack vs"
    by (auto simp: base32_decode_def body bindE_eq_Inr base32_values)
  have "length vs = length ?f" using vs(1) by (simp add: chars_def)
  moreover have "m \<le> length vs"
  proof (rule ccontr)
    assume "\<not> m \<le> length vs"
    then have "length vs * 5 div 8 \<le> (m - 1) * 5 div 8"
      by (intro div_le_mono mult_le_mono1) simp
    with length_unpack [of vs] assms(2) k vs(3) show False by simp
  qed
  ultimately have "length ?f = length body"
    using length_filter_le [of "\<lambda>c. c \<noteq> CHR 0x0A \<and> c \<noteq> CHR 0x0D" body] body(2) by simp
  then have "?f = body"
    by (metis filter_id_conv length_filter_less less_irrefl)
  with vs k body have "length vs = m \<and> (\<forall>v \<in> set vs. v < 32) \<and> s = CHR ''b'' # chars vs \<and> b = unpack vs \<and> length b = k"
    by (auto simp: chars_def)
  then show "\<exists>vs. length vs = m \<and> (\<forall>v \<in> set vs. v < 32) \<and> s = CHR ''b'' # chars vs \<and> b = unpack vs \<and> length b = k" ..
next
  assume "\<exists>vs. length vs = m \<and> (\<forall>v \<in> set vs. v < 32) \<and> s = CHR ''b'' # chars vs \<and> b = unpack vs \<and> length b = k"
  then obtain vs where vs: "length vs = m" "\<forall>v \<in> set vs. v < 32" "s = CHR ''b'' # chars vs" "b = unpack vs" "length b = k"
    by blast
  note ok = chars_alphabet [OF vs(2)] alphabet_chars
  have "CHR ''='' \<notin> set (chars vs)" using ok by blast
  moreover have "is_lower (chars vs)"
    unfolding is_lower_def valid_string_def
    using ok by (auto simp: list_all_iff bytes_of_def intro!: utf8_valid_ascii)
  moreover have "length (chars vs) = m" using vs(1) by (simp add: chars_def)
  ultimately show "text_body (Suc m) s = Inr b \<and> length b = k"
    using base32_decode_chars [OF vs(2)] vs(3-5) by (simp add: text_body_def multibase_base32_def Let_def)
qed

section \<open>Which texts are accepted\<close>

text \<open>The value of a last character without its \<open>k\<close> spare bits.\<close>

definition clear_low :: "nat \<Rightarrow> byte \<Rightarrow> byte" where
  "clear_low k v = push_bit k (drop_bit k v)"

lemma clear_low_tails:
  "d < 32 \<Longrightarrow> and d 28 = clear_low 2 d"
  "d < 32 \<Longrightarrow> and d 24 = clear_low 3 d"
proof -
  have m: "(28 :: byte) = push_bit 2 (mask 3)" "(24 :: byte) = push_bit 3 (mask 2)"
    by (simp_all add: mask_eq_exp_minus_1)
  assume d: "d < 32"
  show "and d 28 = clear_low 2 d" "and d 24 = clear_low 3 d"
    unfolding clear_low_def m
    by (rule byte_eqI; simp only: bit_simps o_apply; simp add: Suc_bits bit_below_32 [OF d])+
qed

definition spare_bits :: "nat \<Rightarrow> nat" where
  "spare_bits m = (if m mod 8 = 2 then 2 else 3)"

lemma pack_unpack:
  "length vs mod 8 \<in> {2, 7} \<Longrightarrow> \<forall>v \<in> set vs. v < 32 \<Longrightarrow>
    pack (unpack vs) = butlast vs @ [clear_low (spare_bits (length vs)) (last vs)]"
proof (induction vs rule: unpack.induct)
  case (1 d0 d1 d2 d3 d4 d5 d6 d7 ds)
  then have "length ds mod 8 \<in> {2, 7}" and "ds \<noteq> []" by auto
  with 1 show ?case
    by (simp add: pack_unpack8 spare_bits_def)
next
  case (2 d0 d1 d2 d3 d4 d5 d6)
  then show ?case
    using pack_unpack_tails(2) [of d0 d1 d2 d3 d4 d5 d6] clear_low_tails(2) [of d6]
    by (simp del: pack.simps unpack.simps add: spare_bits_def)
next
  case (5 d0 d1)
  then show ?case
    using pack_unpack_tails(1) [of d0 d1] clear_low_tails(1) [of d1]
    by (simp del: pack.simps unpack.simps add: spare_bits_def)
qed auto

text \<open>
  \<open>respelt k t s\<close>: the text \<open>s\<close> is \<open>t\<close> up to the \<open>k\<close> low bits of its last character.
\<close>

definition respelt :: "nat \<Rightarrow> string \<Rightarrow> string \<Rightarrow> bool" where
  "respelt k t s \<longleftrightarrow> length s = length t \<and> butlast s = butlast t \<and>
    (case (base32_value (last t), base32_value (last s)) of
       (Some v, Some w) \<Rightarrow> drop_bit k v = drop_bit k w | _ \<Rightarrow> False)"

lemma chars_snoc [simp]: "chars (vs @ [v]) = chars vs @ [alphabet ! unat v]"
  by (simp add: chars_def)

lemma drop_clear_low [simp]: "drop_bit k (clear_low k v) = drop_bit k v"
  unfolding clear_low_def by (rule bit_word_eqI) (auto simp: bit_simps dest: bit_imp_le_length)

lemma clear_low_less: "v < 32 \<Longrightarrow> clear_low k v < 32"
proof -
  have "clear_low k v = and v (push_bit k (- 1))"
    unfolding clear_low_def by (rule bit_word_eqI) (auto simp: bit_simps)
  then have "clear_low k v \<le> v" by (simp add: word_and_le1 word_and_le2)
  then show "v < 32 \<Longrightarrow> clear_low k v < 32" by simp
qed

lemma respelt_iff:
  assumes m: "m mod 8 \<in> {2, 7}" and len: "length (pack b) = m"
  shows "(\<exists>vs. length vs = m \<and> (\<forall>v \<in> set vs. v < 32) \<and> s = CHR ''b'' # chars vs \<and> b = unpack vs) \<longleftrightarrow>
    respelt (spare_bits m) (CHR ''b'' # base32_encode b) s"
proof
  assume "\<exists>vs. length vs = m \<and> (\<forall>v \<in> set vs. v < 32) \<and> s = CHR ''b'' # chars vs \<and> b = unpack vs"
  then obtain vs where vs: "length vs = m" "\<forall>v \<in> set vs. v < 32" "s = CHR ''b'' # chars vs" "b = unpack vs"
    by blast
  have "vs \<noteq> []" using vs(1) m by auto
  then obtain us u where u: "vs = us @ [u]" by (metis rev_exhaust)
  have "pack b = us @ [clear_low (spare_bits m) u]"
    using pack_unpack [of vs] vs m u by simp
  then show "respelt (spare_bits m) (CHR ''b'' # base32_encode b) s"
    using vs(2) by (simp add: respelt_def base32_encode_def chars_def [symmetric] vs(3) u
        alphabet_value clear_low_less butlast_append)
next
  assume r: "respelt (spare_bits m) (CHR ''b'' # base32_encode b) s"
  have "pack b \<noteq> []" using len m by auto
  then obtain us u where u: "pack b = us @ [u]" by (metis rev_exhaust)
  have less: "\<forall>v \<in> set us. v < 32" "u < 32"
    using pack_less [of _ b] u by auto
  have enc: "base32_encode b = chars us @ [alphabet ! unat u]"
    by (simp add: base32_encode_def chars_def [symmetric] u)
  from r obtain w where w: "base32_value (last s) = Some w" "drop_bit (spare_bits m) u = drop_bit (spare_bits m) w"
    and bl: "butlast s = CHR ''b'' # chars us" and ls: "length s = Suc (Suc (length us))"
    using less(2) by (auto simp: respelt_def enc alphabet_value butlast_append chars_def split: option.splits)
  have "s \<noteq> []" using ls by auto
  then have s: "s = CHR ''b'' # chars (us @ [w])"
    using append_butlast_last_id [of s] bl value_alphabet [OF w(1)] by simp
  let ?vs = "us @ [w]"
  have l: "length ?vs = m" and less': "\<forall>v \<in> set ?vs. v < 32"
    using len u less value_alphabet [OF w(1)] by auto
  have "clear_low (spare_bits m) w = clear_low (spare_bits m) u"
    using w(2) by (simp add: clear_low_def)
  then have "pack (unpack ?vs) = pack (unpack (pack b))"
    using pack_unpack [of ?vs] pack_unpack [of "pack b"] m l len less less' by (simp add: u)
  then have "unpack ?vs = b"
    by (metis unpack_pack)
  with s l less' show "\<exists>vs. length vs = m \<and> (\<forall>v \<in> set vs. v < 32) \<and> s = CHR ''b'' # chars vs \<and> b = unpack vs"
    by blast
qed

lemma pack_nonempty: "b \<noteq> [] \<Longrightarrow> pack b \<noteq> []"
  by (cases b rule: pack.cases) (simp_all add: pack8_def)

lemma respelt_refl:
  assumes "b \<noteq> []"
  shows "respelt k (CHR ''b'' # base32_encode b) (CHR ''b'' # base32_encode b)"
proof -
  obtain us u where u: "pack b = us @ [u]"
    using pack_nonempty [OF assms] by (metis rev_exhaust)
  with pack_less [of u b] show ?thesis
    by (simp add: respelt_def base32_encode_def alphabet_value)
qed

text \<open>With a spare bit there is a second spelling: flip the lowest bit of the last character.\<close>

lemma flip_low:
  assumes "u < 32" and "0 < k"
  shows "xor u 1 < (32 :: byte)" and "drop_bit k (xor u 1) = drop_bit k u" and "xor u 1 \<noteq> u"
proof -
  have 1: "bit (1 :: byte) n \<longleftrightarrow> n = 0" for n
    by (auto simp: bit_1_iff)
  have "xor u 1 = and (xor u 1) (mask 5)"
    by (rule byte_eqI; simp add: bit_simps 1 bit_below_32 [OF assms(1)])
  then show "xor u 1 < 32"
    using and_mask_less_size [of 5 "xor u 1"] by (simp add: word_size)
  show "drop_bit k (xor u 1) = drop_bit k u"
    by (rule bit_word_eqI) (use assms(2) in \<open>auto simp: bit_simps 1\<close>)
  have "bit (xor u 1) 0 \<noteq> bit u 0"
    by (simp add: bit_simps 1)
  then show "xor u 1 \<noteq> u" by metis
qed

lemma respelt_other:
  assumes "b \<noteq> []" and "0 < k"
  obtains s where "respelt k (CHR ''b'' # base32_encode b) s" and "s \<noteq> CHR ''b'' # base32_encode b"
proof -
  obtain us u where u: "pack b = us @ [u]"
    using pack_nonempty [OF assms(1)] by (metis rev_exhaust)
  then have less: "u < 32" using pack_less [of u b] by simp
  note flip = flip_low [OF less assms(2)]
  have "alphabet ! unat (xor u 1) \<noteq> alphabet ! unat u"
    using flip alphabet_value [OF less] alphabet_value [OF flip(1)] by (metis option.inject)
  then show ?thesis
    using that [of "CHR ''b'' # chars (us @ [xor u 1])"] flip less
    by (simp add: respelt_def base32_encode_def chars_def [symmetric] u alphabet_value butlast_append)
qed

lemma text_body_respelt:
  assumes "m * 5 div 8 = k" and "(m - 1) * 5 div 8 < k" and "0 < m" and "m mod 8 \<in> {2, 7}" and "length b = k" and "m = (k * 8 + 4) div 5"
  shows "text_body (Suc m) s = Inr b \<longleftrightarrow> respelt (spare_bits m) (CHR ''b'' # base32_encode b) s"
  using text_body_iff [OF assms(1-3), of s b] respelt_iff [OF assms(4), of b s] assms(5,6) by (simp add: length_pack)

lemma cid_text:
  "parse_cid_string s = Inr c \<longleftrightarrow> (\<exists>d. c = digest_cid d) \<and> respelt 2 (cid_string c) s"
proof -
  have size: "cid_string_size = Suc 58"
    by (simp add: cid_string_size_def cid_size_def digest_size_def multibase_base32_def)
  have "parse_cid_string s = Inr c \<longleftrightarrow> (\<exists>d. c = digest_cid d) \<and> text_body (Suc 58) s = Inr c"
    unfolding parse_cid_string_def bindE_eq_Inr parse_cid_iff size by blast
  also have "\<dots> \<longleftrightarrow> (\<exists>d. c = digest_cid d) \<and> respelt 2 (cid_string c) s"
  proof (rule conj_cong [OF refl])
    assume "\<exists>d. c = digest_cid d"
    then have len: "length c = 36"
      by (auto simp: digest_cid_def cid_prefix_def)
    have "text_body (Suc 58) s = Inr c \<longleftrightarrow> respelt (spare_bits 58) (CHR ''b'' # base32_encode c) s"
      by (rule text_body_respelt [OF _ _ _ _ len]) simp_all
    then show "text_body (Suc 58) s = Inr c \<longleftrightarrow> respelt 2 (cid_string c) s"
      by (simp only: spare_bits_def cid_string_def multibase_base32_def append_Cons append_Nil) simp
  qed
  finally show ?thesis .
qed

lemma author_key_bytes_iff:
  "parse_author_key_bytes b = Inr k \<longleftrightarrow> length k = 32 \<and> b = author_key_prefix @ k"
proof -
  have "parse_author_key_bytes b = Inr k \<longleftrightarrow> length b = 34 \<and> b ! 0 = 0xED \<and> b ! 1 = 0x01 \<and> k = drop 2 b"
    by (auto simp: parse_author_key_bytes_def author_key_prefixed_size_def author_key_prefix_def
        author_key_size_def)
  also have "\<dots> \<longleftrightarrow> length k = 32 \<and> b = author_key_prefix @ k"
    by (cases b; cases "tl b") (auto simp: author_key_prefix_def)
  finally show ?thesis .
qed

lemma author_key_text_iff:
  "parse_author_key_text s = Inr k \<longleftrightarrow> (\<exists>t. author_key_text k = Inr t \<and> respelt 3 t s)"
proof -
  have size: "author_key_text_size = Suc 55"
    by (simp add: author_key_text_size_def author_key_prefixed_size_def author_key_prefix_def
        author_key_size_def multibase_base32_def)
  have "parse_author_key_text s = Inr k \<longleftrightarrow> length k = 32 \<and> text_body (Suc 55) s = Inr (author_key_prefix @ k)"
    unfolding parse_author_key_text_def bindE_eq_Inr author_key_bytes_iff size by blast
  also have "\<dots> \<longleftrightarrow> length k = 32 \<and> respelt 3 (CHR ''b'' # base32_encode (author_key_prefix @ k)) s"
  proof (rule conj_cong [OF refl])
    assume "length k = 32"
    then have len: "length (author_key_prefix @ k) = 34"
      by (simp add: author_key_prefix_def)
    have "text_body (Suc 55) s = Inr (author_key_prefix @ k) \<longleftrightarrow>
        respelt (spare_bits 55) (CHR ''b'' # base32_encode (author_key_prefix @ k)) s"
      by (rule text_body_respelt [OF _ _ _ _ len]) simp_all
    then show "text_body (Suc 55) s = Inr (author_key_prefix @ k) \<longleftrightarrow>
        respelt 3 (CHR ''b'' # base32_encode (author_key_prefix @ k)) s"
      by (simp only: spare_bits_def) simp
  qed
  also have "\<dots> \<longleftrightarrow> (\<exists>t. author_key_text k = Inr t \<and> respelt 3 t s)"
    by (simp only: author_key_text_def author_key_size_def multibase_base32_def append_Cons append_Nil) simp
  finally show ?thesis .
qed

section \<open>Hex\<close>

lemma hex_value_char: "v < 16 \<Longrightarrow> hex_value (hex_char v) = Some v"
proof -
  assume "v < 16"
  then have "unat v \<in> set [0..<16]" by (simp add: word_less_nat_alt)
  moreover have "list_all (\<lambda>n. hex_value (hex_char (word_of_nat n)) = Some (word_of_nat n)) [0..<16]"
    by code_simp
  ultimately show ?thesis unfolding list_all_iff by fastforce
qed

lemma hex_decode_encode: "hex_decode (hex_encode bs) = Inr bs"
proof (induction bs)
  case (Cons b bs)
  have hi: "drop_bit 4 b < 16"
    using unat_byte_less [of b]
    by (simp add: word_less_nat_alt unat_drop_bit_eq drop_bit_eq_div unat_div less_mult_imp_div_less)
  have m: "(15 :: byte) = mask 4" by (simp add: mask_eq_exp_minus_1)
  have lo: "and b 15 < 16"
    unfolding m using and_mask_less_size [of 4 b] by (simp add: word_size)
  have "or (push_bit 4 (drop_bit 4 b)) (and b 15) = b"
    unfolding m by (rule byte_eqI; simp only: bit_simps o_apply; simp)
  with Cons.IH hi lo show ?case
    by (simp add: hex_encode_def hex_value_char)
qed (simp add: hex_encode_def)

section \<open>Properties\<close>

text \<open>
  C40. A CID survives each of its three forms: the bytes, the hex dump and the canonical text
  all parse back to it, and the digest it carries is the one it was made from.
\<close>

theorem cid_forms_roundtrip:
  "parse_cid (digest_cid d) = Inr (digest_cid d) \<and> cid_digest (digest_cid d) = d \<and>
   parse_digest (digest_bytes d) = Inr d \<and> parse_digest_hex (digest_string d) = Inr d \<and>
   parse_cid_hex (cid_hex_string (digest_cid d)) = Inr (digest_cid d) \<and>
   parse_cid_string (cid_string (digest_cid d)) = Inr (digest_cid d)"
proof -
  have "digest_cid d \<noteq> []" by (simp add: digest_cid_def cid_prefix_def)
  then have "respelt 2 (cid_string (digest_cid d)) (cid_string (digest_cid d))"
    using respelt_refl [of "digest_cid d" 2] by (simp add: cid_string_def multibase_base32_def)
  then show ?thesis
    by (auto simp: parse_cid_iff parse_digest_iff cid_text parse_digest_hex_def digest_string_def
        parse_cid_hex_def cid_hex_string_def hex_decode_encode)
qed

text \<open>
  \<open>ParseCIDString\<close> accepts exactly the spellings of a CID that differ from its canonical
  text at most in the two unused low bits of the last character, and never anything else: not
  padding, not uppercase, not another length, prefix or parameter.
\<close>

theorem parse_cid_string_accepts:
  "parse_cid_string s = Inr c \<longleftrightarrow> (\<exists>d. c = digest_cid d) \<and> respelt 2 (cid_string c) s"
  by (rule cid_text)

text \<open>
  \<open>ParseAuthorKeyText\<close> inverts \<open>AuthorKeyText\<close> and accepts exactly the texts that differ
  from the canonical one at most in the three unused low bits of the last character.
\<close>

theorem parse_author_key_text_accepts:
  "parse_author_key_text s = Inr k \<longleftrightarrow> (\<exists>t. author_key_text k = Inr t \<and> respelt 3 t s)"
  by (rule author_key_text_iff)

text \<open>
  No identifier has a unique accepted spelling: every CID and every author key has a
  second text, different from the canonical one, that its parser accepts as the same
  identifier. The specification says that exactly one string denotes an identifier.
\<close>

theorem identifiers_have_two_spellings:
  "(\<exists>s. s \<noteq> cid_string (digest_cid d) \<and> parse_cid_string s = Inr (digest_cid d)) \<and>
   (length k = 32 \<longrightarrow> (\<exists>s. Inr s \<noteq> author_key_text k \<and> parse_author_key_text s = Inr k))"
proof (intro conjI impI)
  have "digest_cid d \<noteq> []" by (simp add: digest_cid_def cid_prefix_def)
  from respelt_other [OF this, of 2] obtain s
    where "respelt 2 (cid_string (digest_cid d)) s" "s \<noteq> cid_string (digest_cid d)"
    by (auto simp: cid_string_def multibase_base32_def)
  then show "\<exists>s. s \<noteq> cid_string (digest_cid d) \<and> parse_cid_string s = Inr (digest_cid d)"
    by (auto simp: cid_text)
  assume k: "length k = 32"
  have "author_key_prefix @ k \<noteq> []" by (simp add: author_key_prefix_def)
  from respelt_other [OF this, of 3] obtain s
    where "respelt 3 (CHR ''b'' # base32_encode (author_key_prefix @ k)) s"
      "s \<noteq> CHR ''b'' # base32_encode (author_key_prefix @ k)"
    by auto
  then show "\<exists>s. Inr s \<noteq> author_key_text k \<and> parse_author_key_text s = Inr k"
    using k by (auto simp: author_key_text_iff author_key_text_def author_key_size_def multibase_base32_def)
qed

theorem identifiers_have_two_spellings_witness:
  "\<exists>s. Inr s \<noteq> author_key_text (replicate 32 7) \<and> parse_author_key_text s = Inr (replicate 32 7)"
  using identifiers_have_two_spellings [of 0 "replicate 32 7"] by simp

end
