(* ===== verification/Entity.thy ===== *)
theory Entity
  imports Cid Dcbor_Canon
begin

text \<open>
  What the three entity kinds share (\<open>go/entity/entity.go\<close>): the errors of the package, and
  the readers of a decoded map: exact key set, text fields, digest fields. A lookup error names
  the key; the wording of messages is left out.
\<close>

datatype entity_error =
    Not_dcbor syntax_error
  | Not_a_map
  | Wrong_key_count nat nat
  | Missing_key string
  | Not_a_byte_string
  | Bad_digest cid_error
  | Not_a_text_string string
  | Atom_empty
  | Atom_not_utf8
  | Bond_empty
  | Bond_not_utf8
  | Bond_without_variables
  | Bond_repeats_variable string
  | Filler_type_without_digest uint64
  | Filler_type_unknown uint64
  | Filler_type_not_integer
  | Ipfs_empty
  | Ipfs_not_utf8
  | Ipfs_not_text
  | Scalar_number encode_error
  | Scalar_decimal decimal_error
  | Scalar_not_number
  | Scalar_no_value
  | Scalar_key_count nat
  | Unit_on_range
  | Timestamp_empty
  | Timestamp_length nat
  | Timestamp_not_digit nat
  | Timestamp_punctuation nat
  | Timestamp_leap_second
  | Timestamp_not_real
  | Range_reversed
  | Molecule_without_fillers
  | Molecule_filler nat entity_error
  | Molecule_fillers_not_array
  | Zero_bond
  | Filler_count nat nat
  | Wrong_bond digest digest
  | Panic_encode encode_error

text \<open>\<open>dcbor.MustEncode\<close>: an encoding error is a panic, kept as an outcome of its own.\<close>

definition must_encode :: "cbor_value \<Rightarrow> entity_error + byte list" where
  "must_encode v = mapErr Panic_encode (encode v)"

definition as_map :: "cbor_value \<Rightarrow> entity_error + cbor_map" where
  "as_map v = (case v of Map m \<Rightarrow> Inr m | _ \<Rightarrow> Inl Not_a_map)"

text \<open>The loop of \<open>requireKeys\<close>, then the whole function.\<close>

fun missing_key :: "cbor_map \<Rightarrow> string list \<Rightarrow> string option" where
  "missing_key m [] = None"
| "missing_key m (k # ks) = (if map_get m k = None then Some k else missing_key m ks)"

definition require_keys :: "cbor_map \<Rightarrow> string list \<Rightarrow> entity_error + unit" where
  "require_keys m keys =
    (if length m \<noteq> length keys then Inl (Wrong_key_count (length m) (length keys))
     else case missing_key m keys of Some k \<Rightarrow> Inl (Missing_key k) | None \<Rightarrow> Inr ())"

definition decode_entity_map :: "byte list \<Rightarrow> string list \<Rightarrow> entity_error + cbor_map" where
  "decode_entity_map b keys =
    bindE (mapErr Not_dcbor (decode b)) (\<lambda>v.
    bindE (as_map v) (\<lambda>m.
    bindE (require_keys m keys) (\<lambda>_. Inr m)))"

definition as_digest :: "cbor_value \<Rightarrow> entity_error + digest" where
  "as_digest v =
    (case v of Bytes b \<Rightarrow> mapErr Bad_digest (parse_digest b) | _ \<Rightarrow> Inl Not_a_byte_string)"

definition digest_field :: "cbor_map \<Rightarrow> string \<Rightarrow> entity_error + digest" where
  "digest_field m key =
    (case map_get m key of None \<Rightarrow> Inl (Missing_key key) | Some v \<Rightarrow> as_digest v)"

definition text_field :: "cbor_map \<Rightarrow> string \<Rightarrow> entity_error + string" where
  "text_field m key =
    (case map_get m key of
       None \<Rightarrow> Inl (Missing_key key)
     | Some v \<Rightarrow> (case v of Text t \<Rightarrow> Inr t | _ \<Rightarrow> Inl (Not_a_text_string key)))"

section \<open>Facts about the readers\<close>

lemma as_map_Inr [simp]: "as_map v = Inr m \<longleftrightarrow> v = Map m"
  by (auto simp: as_map_def split: cbor_value.splits)

lemma as_digest_Inr [simp]: "as_digest v = Inr d \<longleftrightarrow> v = Bytes (digest_bytes d)"
  by (auto simp: as_digest_def parse_digest_def digest_size_def split: cbor_value.splits)

lemma text_field_Inr [simp]: "text_field m k = Inr t \<longleftrightarrow> map_get m k = Some (Text t)"
  by (auto simp: text_field_def split: option.splits cbor_value.splits)

lemma digest_field_Inr [simp]:
  "digest_field m k = Inr d \<longleftrightarrow> map_get m k = Some (Bytes (digest_bytes d))"
  by (auto simp: digest_field_def split: option.splits)

lemma missing_key_None [simp]: "missing_key m ks = None \<longleftrightarrow> (\<forall>k \<in> set ks. map_get m k \<noteq> None)"
  by (induction ks) auto

lemma require_keys_Inr [simp]:
  "require_keys m ks = Inr u \<longleftrightarrow> length m = length ks \<and> (\<forall>k \<in> set ks. map_get m k \<noteq> None)"
  by (auto simp: require_keys_def split: option.splits) (metis missing_key_None option.distinct(1))

text \<open>
  A decoded map with exactly the given keys is determined by the values at those keys: its
  entries are in encoded-key order.
\<close>

lemma strict_keys:
  assumes "sorted_wrt (<) (map (\<lambda>e. text_key (fst e)) m)" and "sorted_wrt (<) (map text_key ks)"
    and "length m = length ks" and "\<forall>k \<in> set ks. map_get m k \<noteq> None"
  shows "m = map (\<lambda>k. (k, the (map_get m k))) ks"
proof -
  have dm: "distinct (map fst m)" and dk: "distinct ks"
    using assms(1,2) distinct_keys [of m] by (auto simp: strict_sorted_iff distinct_map)
  have "set ks \<subseteq> fst ` set m"
    using assms(4) by (auto simp: map_get_map_of map_of_eq_None_iff)
  moreover have "card (fst ` set m) = card (set ks)"
    using dm dk assms(3) by (metis distinct_card length_map set_map)
  ultimately have "set ks = set (map fst m)"
    by (metis card_subset_eq finite_imageI finite_set set_map)
  then have keys: "map fst m = ks"
    using assms(1,2) by (intro strict_unique [where f = text_key]) (auto simp: comp_def)
  show ?thesis
  proof (rule nth_equalityI)
    show "length m = length (map (\<lambda>k. (k, the (map_get m k))) ks)"
      using assms(3) by simp
    fix i assume i: "i < length m"
    then have "map_of m (fst (m ! i)) = Some (snd (m ! i))"
      using dm by (simp add: map_of_is_SomeI)
    moreover have "fst (m ! i) = ks ! i"
      using i keys by (metis nth_map)
    ultimately have "m ! i = (ks ! i, the (map_get m (ks ! i)))"
      by (metis map_get_map_of option.sel prod.collapse)
    then show "m ! i = map (\<lambda>k. (k, the (map_get m k))) ks ! i"
      using i assms(3) by simp
  qed
qed

lemma canonical_keys:
  assumes "canonical (Map m)" and "require_keys m ks = Inr ()" and "sorted_wrt (<) (map text_key ks)"
  shows "m = map (\<lambda>k. (k, the (map_get m k))) ks"
  using strict_keys [of m ks] assms by simp

lemma decode_entity_map_Inr:
  assumes "small b" and "sorted_wrt (<) (map text_key ks)"
  shows "decode_entity_map b ks = Inr m \<longleftrightarrow>
    canonical (Map m) \<and> encode (Map m) = Inr b \<and> map fst m = ks"
proof
  assume "decode_entity_map b ks = Inr m"
  then have d: "decode b = Inr (Map m)" and r: "require_keys m ks = Inr ()"
    by (auto simp: decode_entity_map_def bindE_eq_Inr)
  then have "canonical (Map m)" and "encode (Map m) = Inr b"
    using assms(1) by (auto simp: decode_iff small_def)
  moreover have "map fst m = ks"
  proof -
    have "map fst m = map fst (map (\<lambda>k. (k, the (map_get m k))) ks)"
      using canonical_keys [OF \<open>canonical (Map m)\<close> r assms(2)] by (rule arg_cong)
    then show ?thesis by (simp add: comp_def)
  qed
  ultimately show "canonical (Map m) \<and> encode (Map m) = Inr b \<and> map fst m = ks" by blast
next
  assume r: "canonical (Map m) \<and> encode (Map m) = Inr b \<and> map fst m = ks"
  then have "map_get m k \<noteq> None" if "k \<in> set ks" for k
    using that by (auto simp: map_get_map_of map_of_eq_None_iff)
  moreover have "length m = length ks" using r by (metis length_map)
  ultimately show "decode_entity_map b ks = Inr m"
    using r assms(1) by (simp add: decode_entity_map_def bindE_eq_Inr decode_iff small_def)
qed

end
