(* ===== verification/Filler.thy ===== *)
theory Filler
  imports Entity
begin

text \<open>
  Fillers and scalars (\<open>go/entity/filler.go\<close>), with the timestamp profile. The structs keep all
  the fields of the code, those of the payloads a value does not have being zero, which the
  well-formedness predicates below say and every constructor guarantees.
\<close>

section \<open>Timestamps\<close>

definition is_digit :: "char \<Rightarrow> bool" where
  "is_digit c \<longleftrightarrow> CHR ''0'' \<le> c \<and> c \<le> CHR ''9''"

definition digit_value :: "char \<Rightarrow> nat" where
  "digit_value c = of_char c - 48"

definition number_of :: "string \<Rightarrow> nat" where
  "number_of s = foldl (\<lambda>n c. n * 10 + digit_value c) 0 s"

text \<open>\<open>s[i:j]\<close>\<close>

definition slice :: "nat \<Rightarrow> nat \<Rightarrow> 'a list \<Rightarrow> 'a list" where
  "slice i j s = take (j - i) (drop i s)"

definition is_leap :: "nat \<Rightarrow> bool" where
  "is_leap y \<longleftrightarrow> y mod 4 = 0 \<and> (y mod 100 \<noteq> 0 \<or> y mod 400 = 0)"

definition days_in :: "nat \<Rightarrow> nat \<Rightarrow> nat" where
  "days_in y m =
    (if m = 2 then (if is_leap y then 29 else 28) else if m \<in> {4, 6, 9, 11} then 30 else 31)"

text \<open>
  \<open>time.Parse\<close> with the layout \<open>2006-01-02T15:04:05Z\<close> on a string of that form: the ranges it
  checks, in the proleptic Gregorian calendar.
\<close>

definition real_instant :: "string \<Rightarrow> bool" where
  "real_instant s \<longleftrightarrow>
    (let y = number_of (slice 0 4 s); mo = number_of (slice 5 7 s); d = number_of (slice 8 10 s);
         h = number_of (slice 11 13 s); mi = number_of (slice 14 16 s); sec = number_of (slice 17 19 s)
     in 1 \<le> mo \<and> mo \<le> 12 \<and> 1 \<le> d \<and> d \<le> days_in y mo \<and> h < 24 \<and> mi < 60 \<and> sec < 60)"

text \<open>The character wanted at a position of the layout, none where a digit is wanted.\<close>

definition punctuation :: "nat \<Rightarrow> char option" where
  "punctuation i =
    (if i = 4 \<or> i = 7 then Some CHR ''-'' else if i = 10 then Some CHR ''T''
     else if i = 13 \<or> i = 16 then Some CHR '':'' else if i = 19 then Some CHR ''Z'' else None)"

text \<open>The loop over the positions: the argument is the part of the string from index \<open>i\<close> on.\<close>

fun check_layout :: "nat \<Rightarrow> string \<Rightarrow> entity_error + unit" where
  "check_layout i [] = Inr ()"
| "check_layout i (c # s) =
    (case punctuation i of
       None \<Rightarrow> if is_digit c then check_layout (i + 1) s else Inl (Timestamp_not_digit i)
     | Some w \<Rightarrow> if c = w then check_layout (i + 1) s else Inl (Timestamp_punctuation i))"

definition validate_timestamp :: "string \<Rightarrow> entity_error + unit" where
  "validate_timestamp s =
    (if s = '''' then Inl Timestamp_empty
     else if length s \<noteq> 20 then Inl (Timestamp_length (length s))
     else bindE (check_layout 0 s) (\<lambda>_.
       if slice 17 19 s > ''59'' then Inl Timestamp_leap_second
       else if \<not> real_instant s then Inl Timestamp_not_real
       else Inr ()))"

section \<open>Scalars\<close>

datatype scalar_kind = Scalar_invalid | Scalar_number_kind | Scalar_datetime_range

record scalar =
  scalar_kind :: scalar_kind
  number :: cbor_value
  unit_digest :: digest
  has_unit :: bool
  range_from :: string
  range_to :: string

definition zero_scalar :: scalar where
  "zero_scalar = \<lparr>scalar_kind = Scalar_invalid, number = NilValue, unit_digest = 0, has_unit = False,
    range_from = '''', range_to = ''''\<rparr>"

definition number_value :: "cbor_value \<Rightarrow> scalar" where
  "number_value v = zero_scalar\<lparr>scalar_kind := Scalar_number_kind, number := v\<rparr>"

definition int_scalar :: "int64 \<Rightarrow> scalar" where
  "int_scalar i = number_value (int_value i)"

definition decimal_scalar :: "int64 \<Rightarrow> int64 \<Rightarrow> entity_error + scalar" where
  "decimal_scalar e m =
    bindE (mapErr Scalar_decimal (new_decimal e m)) (\<lambda>v. Inr (number_value v))"

definition validate_scalar :: "scalar \<Rightarrow> entity_error + unit" where
  "validate_scalar s =
    (case scalar_kind s of
       Scalar_number_kind \<Rightarrow>
         (case number s of
            Uint _ \<Rightarrow> Inr ()
          | Neg _ \<Rightarrow> Inr ()
          | Decimal e m \<Rightarrow> bindE (mapErr Scalar_number (encode (Decimal e m))) (\<lambda>_. Inr ())
          | _ \<Rightarrow> Inl Scalar_not_number)
     | Scalar_datetime_range \<Rightarrow>
         bindE (validate_timestamp (range_from s)) (\<lambda>_.
         bindE (validate_timestamp (range_to s)) (\<lambda>_.
         if range_from s > range_to s then Inl Range_reversed else Inr ()))
     | Scalar_invalid \<Rightarrow> Inl Scalar_no_value)"

definition number_scalar :: "cbor_value \<Rightarrow> entity_error + scalar" where
  "number_scalar v =
    (let s = number_value v in bindE (validate_scalar s) (\<lambda>_. Inr s))"

definition with_unit :: "scalar \<Rightarrow> digest \<Rightarrow> entity_error + scalar" where
  "with_unit s u =
    (if scalar_kind s \<noteq> Scalar_number_kind then Inl Unit_on_range
     else Inr (s\<lparr>unit_digest := u, has_unit := True\<rparr>))"

definition new_datetime_range :: "string \<Rightarrow> string \<Rightarrow> entity_error + scalar" where
  "new_datetime_range from to =
    (let s = zero_scalar\<lparr>scalar_kind := Scalar_datetime_range, range_from := from, range_to := to\<rparr>
     in bindE (validate_scalar s) (\<lambda>_. Inr s))"

definition scalar_value :: "scalar \<Rightarrow> cbor_value" where
  "scalar_value s =
    (if scalar_kind s = Scalar_datetime_range
     then Map [(''from'', Text (range_from s)), (''to'', Text (range_to s))]
     else Map ((''value'', number s) #
       (if has_unit s then [(''unit'', Bytes (digest_bytes (unit_digest s)))] else [])))"

definition scalar_from_value :: "cbor_value \<Rightarrow> entity_error + scalar" where
  "scalar_from_value v =
    bindE (as_map v) (\<lambda>m.
    if map_get m ''from'' \<noteq> None \<or> map_get m ''to'' \<noteq> None then
      bindE (require_keys m [''from'', ''to'']) (\<lambda>_.
      bindE (text_field m ''from'') (\<lambda>from.
      bindE (text_field m ''to'') (\<lambda>to.
      new_datetime_range from to)))
    else case map_get m ''value'' of
      None \<Rightarrow> Inl (Missing_key ''value'')
    | Some n \<Rightarrow>
        bindE (number_scalar n) (\<lambda>s.
        if length m = 1 then Inr s
        else if length m = 2 then bindE (digest_field m ''unit'') (\<lambda>u. with_unit s u)
        else Inl (Scalar_key_count (length m))))"

section \<open>Fillers\<close>

definition filler_atom :: uint64 where "filler_atom = 0"
definition filler_bond :: uint64 where "filler_bond = 1"
definition filler_molecule :: uint64 where "filler_molecule = 2"
definition filler_ipfs_uri :: uint64 where "filler_ipfs_uri = 3"
definition filler_scalar :: uint64 where "filler_scalar = 4"

lemmas filler_tags = filler_atom_def filler_bond_def filler_molecule_def filler_ipfs_uri_def filler_scalar_def

definition type_valid :: "uint64 \<Rightarrow> bool" where
  "type_valid t \<longleftrightarrow> t \<le> filler_scalar"

definition type_is_ref :: "uint64 \<Rightarrow> bool" where
  "type_is_ref t \<longleftrightarrow> t \<le> filler_molecule"

record filler =
  ftype :: uint64
  fref :: digest
  furi :: string
  fscalar :: scalar

definition zero_filler :: filler where
  "zero_filler = \<lparr>ftype = filler_atom, fref = 0, furi = '''', fscalar = zero_scalar\<rparr>"

definition ref_filler :: "uint64 \<Rightarrow> digest \<Rightarrow> entity_error + filler" where
  "ref_filler t d =
    (if \<not> type_is_ref t then Inl (Filler_type_without_digest t)
     else Inr (zero_filler\<lparr>ftype := t, fref := d\<rparr>))"

definition ipfs_filler :: "string \<Rightarrow> entity_error + filler" where
  "ipfs_filler u =
    (if u = '''' then Inl Ipfs_empty
     else if \<not> valid_string u then Inl Ipfs_not_utf8
     else Inr (zero_filler\<lparr>ftype := filler_ipfs_uri, furi := u\<rparr>))"

definition scalar_filler :: "scalar \<Rightarrow> entity_error + filler" where
  "scalar_filler s =
    bindE (validate_scalar s) (\<lambda>_. Inr (zero_filler\<lparr>ftype := filler_scalar, fscalar := s\<rparr>))"

definition filler_ref :: "filler \<Rightarrow> digest option" where
  "filler_ref f = (if \<not> type_is_ref (ftype f) then None else Some (fref f))"

definition value_field :: "filler \<Rightarrow> cbor_value" where
  "value_field f =
    (if ftype f = filler_ipfs_uri then Text (furi f)
     else if ftype f = filler_scalar then scalar_value (fscalar f)
     else Bytes (digest_bytes (fref f)))"

definition filler_value :: "filler \<Rightarrow> cbor_value" where
  "filler_value f = Map [(''type'', Uint (ftype f)), (''value'', value_field f)]"

definition validate_filler :: "filler \<Rightarrow> entity_error + unit" where
  "validate_filler f =
    (if \<not> type_valid (ftype f) then Inl (Filler_type_unknown (ftype f))
     else if ftype f = filler_ipfs_uri then
       (if furi f = '''' then Inl Ipfs_empty
        else if \<not> valid_string (furi f) then Inl Ipfs_not_utf8 else Inr ())
     else if ftype f = filler_scalar then validate_scalar (fscalar f)
     else Inr ())"

definition filler_from_value :: "cbor_value \<Rightarrow> entity_error + filler" where
  "filler_from_value v =
    bindE (as_map v) (\<lambda>m.
    bindE (require_keys m [''type'', ''value'']) (\<lambda>_.
    case map_get m ''type'' of
      Some (Uint t) \<Rightarrow>
        (if \<not> type_valid t then Inl (Filler_type_unknown t)
         else let value = (case map_get m ''value'' of Some x \<Rightarrow> x | None \<Rightarrow> NilValue)
           in if t = filler_ipfs_uri then
                (case value of Text s \<Rightarrow> ipfs_filler s | _ \<Rightarrow> Inl Ipfs_not_text)
              else if t = filler_scalar then bindE (scalar_from_value value) scalar_filler
              else bindE (as_digest value) (\<lambda>d. Inr (zero_filler\<lparr>ftype := t, fref := d\<rparr>)))
    | _ \<Rightarrow> Inl Filler_type_not_integer))"

definition decode_filler :: "byte list \<Rightarrow> entity_error + filler" where
  "decode_filler b = bindE (mapErr Not_dcbor (decode b)) filler_from_value"

section \<open>Well-formed values\<close>

text \<open>
  What the constructors guarantee: the payload is valid and every field the kind does not use
  is zero.
\<close>

definition wf_scalar :: "scalar \<Rightarrow> bool" where
  "wf_scalar s \<longleftrightarrow> validate_scalar s = Inr () \<and>
    (case scalar_kind s of
       Scalar_number_kind \<Rightarrow> range_from s = '''' \<and> range_to s = '''' \<and> (\<not> has_unit s \<longrightarrow> unit_digest s = 0)
     | _ \<Rightarrow> number s = NilValue \<and> \<not> has_unit s \<and> unit_digest s = 0)"

definition wf_filler :: "filler \<Rightarrow> bool" where
  "wf_filler f \<longleftrightarrow> validate_filler f = Inr () \<and>
    (ftype f \<noteq> filler_ipfs_uri \<longrightarrow> furi f = '''') \<and>
    (ftype f = filler_scalar \<longrightarrow> wf_scalar (fscalar f)) \<and> (ftype f \<noteq> filler_scalar \<longrightarrow> fscalar f = zero_scalar) \<and>
    (ftype f = filler_ipfs_uri \<or> ftype f = filler_scalar \<longrightarrow> fref f = 0)"

section \<open>Two-key maps\<close>

lemma as_map_Map [simp]: "as_map (Map m) = Inr m"
  by simp

lemma as_digest_Bytes [simp]: "as_digest (Bytes (digest_bytes d)) = Inr d"
  by simp

lemma key_order:
  "text_key ''to'' < text_key ''from''" "text_key ''unit'' < text_key ''value''"
  "text_key ''type'' < text_key ''value''"
  by code_simp+

lemma key_valid:
  "valid_text ''to''" "valid_text ''from''" "valid_text ''unit''" "valid_text ''value''" "valid_text ''type''"
  by code_simp+

lemma canon_two:
  "text_key k1 < text_key k2 \<Longrightarrow>
    canon (Map [(k1, a), (k2, b)]) = Map [(k1, canon a), (k2, canon b)]"
  "text_key k1 < text_key k2 \<Longrightarrow>
    canon (Map [(k2, b), (k1, a)]) = Map [(k1, canon a), (k2, canon b)]"
  by auto

lemma canon_one: "canon (Map [(k, a)]) = Map [(k, canon a)]"
  by simp

lemma two_entries:
  assumes "canonical (Map m)" and "length m = 2" and "map_get m k1 = Some a" and "map_get m k2 = Some b"
    and "text_key k1 < text_key k2"
  shows "m = [(k1, a), (k2, b)]"
proof -
  have "require_keys m [k1, k2] = Inr ()"
    using assms by simp
  from canonical_keys [OF assms(1) this] assms show ?thesis by simp
qed

lemma encode_two:
  assumes "valid_text k1" "valid_text k2" and "text_key k1 < text_key k2" and "depth < max_depth"
  shows "(\<exists>b. encode_value depth (Map [(k1, x), (k2, y)]) = Inr b) \<longleftrightarrow>
      (\<exists>b. encode_value (Suc depth) x = Inr b) \<and> (\<exists>b. encode_value (Suc depth) y = Inr b)"
    and "(\<exists>b. encode_value depth (Map [(k2, y), (k1, x)]) = Inr b) \<longleftrightarrow>
      (\<exists>b. encode_value (Suc depth) x = Inr b) \<and> (\<exists>b. encode_value (Suc depth) y = Inr b)"
proof -
  have 1: "sorted_entries [(k1, x), (k2, y)] = Inr [(text_key k1, k1, x), (text_key k2, k2, y)]"
    "sorted_entries [(k2, y), (k1, x)] = Inr [(text_key k1, k1, x), (text_key k2, k2, y)]"
    using assms by (auto simp: sorted_entries_def key_entries_def Let_def)
  show "(\<exists>b. encode_value depth (Map [(k1, x), (k2, y)]) = Inr b) \<longleftrightarrow>
      (\<exists>b. encode_value (Suc depth) x = Inr b) \<and> (\<exists>b. encode_value (Suc depth) y = Inr b)"
    "(\<exists>b. encode_value depth (Map [(k2, y), (k1, x)]) = Inr b) \<longleftrightarrow>
      (\<exists>b. encode_value (Suc depth) x = Inr b) \<and> (\<exists>b. encode_value (Suc depth) y = Inr b)"
    using assms(4) by (auto simp: 1 enter_def bindE_eq_Inr)
qed

section \<open>Timestamps are plain text\<close>

lemma layout_ascii: "check_layout i s = Inr () \<Longrightarrow> c \<in> set s \<Longrightarrow> byte_of_char c \<le> 0x7F"
proof (induction i s rule: check_layout.induct)
  case (2 i x s)
  have digit: "byte_of_char x \<le> 0x7F" if "is_digit x"
    using that by (simp add: is_digit_def byte_of_char_def less_eq_char_def word_le_nat_alt unat_of_nat)
  have punct: "byte_of_char w \<le> 0x7F" if "punctuation i = Some w" for w
    using that by (auto simp: punctuation_def byte_of_char_def split: if_splits)
  from 2 digit punct show ?case
    by (auto split: option.splits if_splits)
qed simp

lemma timestamp_text: "validate_timestamp s = Inr () \<Longrightarrow> valid_text s"
  unfolding valid_text_def valid_string_def bytes_of_def
  by (rule utf8_valid_ascii) (auto simp: validate_timestamp_def bindE_eq_Inr dest: layout_ascii split: if_splits)

section \<open>Scalars\<close>

lemma validate_scalar_number:
  "scalar_kind s = Scalar_number_kind \<Longrightarrow> validate_scalar s = Inr () \<longleftrightarrow>
    (\<exists>u. number s = Uint u) \<or> (\<exists>n. number s = Neg n) \<or>
    (\<exists>e m. number s = Decimal e m \<and> check_canonical e m = Inr ())"
  by (cases "number s")
    (auto simp: validate_scalar_def encode_def bindE_eq_Inr enter_def max_depth_def int_value_def)

lemma validate_scalar_range:
  "scalar_kind s = Scalar_datetime_range \<Longrightarrow> validate_scalar s = Inr () \<longleftrightarrow>
    validate_timestamp (range_from s) = Inr () \<and> validate_timestamp (range_to s) = Inr () \<and>
    range_from s \<le> range_to s"
  by (auto simp: validate_scalar_def bindE_eq_Inr)

lemma number_canon: "scalar_kind s = Scalar_number_kind \<Longrightarrow> validate_scalar s = Inr () \<Longrightarrow> canon (number s) = number s"
  by (auto simp: validate_scalar_number)

lemma number_scalar_Inr:
  "number_scalar v = Inr s \<longleftrightarrow> s = number_value v \<and> validate_scalar s = Inr ()"
  by (auto simp: number_scalar_def Let_def bindE_eq_Inr)

lemma new_datetime_range_Inr:
  "new_datetime_range a b = Inr s \<longleftrightarrow>
    s = zero_scalar\<lparr>scalar_kind := Scalar_datetime_range, range_from := a, range_to := b\<rparr> \<and>
    validate_scalar s = Inr ()"
  by (auto simp: new_datetime_range_def Let_def bindE_eq_Inr)

lemma scalar_canon:
  assumes "wf_scalar s"
  shows "canon (scalar_value s) =
    (if scalar_kind s = Scalar_datetime_range
     then Map [(''to'', Text (range_to s)), (''from'', Text (range_from s))]
     else if has_unit s then Map [(''unit'', Bytes (digest_bytes (unit_digest s))), (''value'', number s)]
     else Map [(''value'', number s)])"
  using assms number_canon [of s]
  by (cases "scalar_kind s") (simp_all add: scalar_value_def wf_scalar_def canon_two [OF key_order(1)]
      canon_two [OF key_order(2)] canon_one validate_scalar_def del: canon.simps(2))

lemma wf_number_value: "validate_scalar (number_value n) = Inr () \<Longrightarrow> wf_scalar (number_value n)"
  by (simp add: wf_scalar_def number_value_def zero_scalar_def)

lemma validate_fields:
  "scalar_kind s = Scalar_number_kind \<Longrightarrow> scalar_kind t = Scalar_number_kind \<Longrightarrow> number s = number t \<Longrightarrow>
    validate_scalar s = Inr () \<longleftrightarrow> validate_scalar t = Inr ()"
  by (simp add: validate_scalar_def)

lemma scalar_parse_print:
  assumes "wf_scalar s"
  shows "scalar_from_value (canon (scalar_value s)) = Inr s"
proof (cases "scalar_kind s")
  case Scalar_invalid
  with assms show ?thesis by (simp add: wf_scalar_def validate_scalar_def)
next
  case Scalar_datetime_range
  with assms have "new_datetime_range (range_from s) (range_to s) = Inr s"
    by (auto simp: new_datetime_range_Inr wf_scalar_def zero_scalar_def)
  then show ?thesis
    using Scalar_datetime_range by (simp add: scalar_canon [OF assms] scalar_from_value_def bindE_eq_Inr)
next
  case num: Scalar_number_kind
  have "validate_scalar (number_value (number s)) = Inr ()"
    using assms num validate_fields [of s "number_value (number s)"]
    by (simp add: wf_scalar_def number_value_def zero_scalar_def)
  then have ns: "number_scalar (number s) = Inr (number_value (number s))"
    by (simp add: number_scalar_Inr)
  show ?thesis
  proof (cases "has_unit s")
    case True
    have "with_unit (number_value (number s)) (unit_digest s) = Inr s"
      using assms num True by (simp add: with_unit_def number_value_def zero_scalar_def wf_scalar_def)
    then show ?thesis
      using ns num True by (simp add: scalar_canon [OF assms] scalar_from_value_def digest_field_def)
  next
    case False
    then have "number_value (number s) = s"
      using assms num by (simp add: number_value_def zero_scalar_def wf_scalar_def)
    with ns num False show ?thesis by (simp add: scalar_canon [OF assms] scalar_from_value_def)
  qed
qed

lemma scalar_print_parse:
  assumes "canonical v" and "scalar_from_value v = Inr s"
  shows "wf_scalar s \<and> canon (scalar_value s) = v"
proof -
  obtain m where v: "v = Map m" using assms(2) by (auto simp: scalar_from_value_def bindE_eq_Inr)
  show ?thesis
  proof (cases "map_get m ''from'' \<noteq> None \<or> map_get m ''to'' \<noteq> None")
    case True
    then obtain a b where "require_keys m [''from'', ''to''] = Inr ()" and a: "map_get m ''from'' = Some (Text a)"
      and b: "map_get m ''to'' = Some (Text b)" and r: "new_datetime_range a b = Inr s"
      using assms(2) by (auto simp: v scalar_from_value_def bindE_eq_Inr)
    then have "length m = 2" by simp
    from two_entries [OF assms(1) [unfolded v] this b a key_order(1)] have m: "m = [(''to'', Text b), (''from'', Text a)]" .
    have s: "s = zero_scalar\<lparr>scalar_kind := Scalar_datetime_range, range_from := a, range_to := b\<rparr>"
      and ok: "validate_scalar s = Inr ()"
      using r by (auto simp: new_datetime_range_Inr)
    have "wf_scalar s"
      using ok by (simp add: wf_scalar_def s zero_scalar_def)
    then show ?thesis
      by (simp add: scalar_canon v m) (simp add: s)
  next
    case False
    then obtain n t where n: "map_get m ''value'' = Some n" and t: "number_scalar n = Inr t"
      and rest: "(if length m = 1 then Inr t else if length m = 2 then bindE (digest_field m ''unit'') (\<lambda>u. with_unit t u)
        else Inl (Scalar_key_count (length m))) = Inr s"
      using assms(2) by (auto simp: v scalar_from_value_def bindE_eq_Inr split: option.splits)
    have tn: "t = number_value n" and ok: "validate_scalar t = Inr ()"
      using t by (auto simp: number_scalar_Inr)
    have wf: "wf_scalar t" using ok tn wf_number_value by simp
    show ?thesis
    proof (cases "length m = 1")
      case True
      then have "m = [(''value'', n)]" using n by (cases m) (auto split: if_splits)
      moreover have "s = t" using rest True by simp
      ultimately show ?thesis
        using wf by (simp add: scalar_canon v tn number_value_def zero_scalar_def)
    next
      case False
      then have len: "length m = 2" using rest by (auto split: if_splits)
      then obtain u where u: "map_get m ''unit'' = Some (Bytes (digest_bytes u))" and s: "with_unit t u = Inr s"
        using rest False by (auto simp: bindE_eq_Inr)
      have m: "m = [(''unit'', Bytes (digest_bytes u)), (''value'', n)]"
        by (rule two_entries [OF assms(1) [unfolded v] len u n key_order(2)])
      have s': "s = t\<lparr>unit_digest := u, has_unit := True\<rparr>" and k: "scalar_kind t = Scalar_number_kind"
        using s by (auto simp: with_unit_def split: if_splits)
      have "wf_scalar s"
        using wf k validate_fields [of s t] by (simp add: wf_scalar_def s')
      then show ?thesis
        by (simp add: scalar_canon v m) (simp add: s' tn number_value_def zero_scalar_def)
    qed
  qed
qed

lemma scalar_encodes:
  assumes "validate_scalar s = Inr ()" and "Suc depth < max_depth"
  shows "\<exists>b. encode_value depth (scalar_value s) = Inr b"
proof (cases "scalar_kind s")
  case Scalar_invalid
  with assms show ?thesis by (simp add: validate_scalar_def)
next
  case Scalar_datetime_range
  then have "valid_text (range_to s)" "valid_text (range_from s)"
    using assms(1) by (auto simp: validate_scalar_range timestamp_text)
  then show ?thesis
    using Scalar_datetime_range encode_two(2) [OF key_valid(1,2) key_order(1), of depth] assms(2)
    by (simp add: scalar_value_def)
next
  case num: Scalar_number_kind
  have n: "\<exists>b. encode_value (Suc depth) (number s) = Inr b"
    using assms num by (auto simp: validate_scalar_number enter_def int_value_def)
  show ?thesis
  proof (cases "has_unit s")
    case True
    with n num show ?thesis
      using encode_two(2) [OF key_valid(3,4) key_order(2), of depth] assms(2) by (simp add: scalar_value_def)
  next
    case False
    with n num assms(2) show ?thesis
      using key_valid(4) by (auto simp: scalar_value_def enter_def sorted_entries_def key_entries_def)
  qed
qed

section \<open>Fillers\<close>

lemma filler_canon: "canon (filler_value f) = Map [(''type'', Uint (ftype f)), (''value'', canon (value_field f))]"
  unfolding filler_value_def by (simp add: canon_two [OF key_order(3)] del: canon.simps(2))

lemma filler_parse_print:
  assumes "wf_filler f"
  shows "filler_from_value (canon (filler_value f)) = Inr f"
proof -
  have valid: "type_valid (ftype f)" and ok: "validate_filler f = Inr ()"
    using assms by (auto simp: wf_filler_def validate_filler_def split: if_splits)
  show ?thesis
  proof (cases "ftype f = filler_ipfs_uri")
    case True
    then have "ipfs_filler (furi f) = Inr f"
      using assms valid by (auto simp: wf_filler_def validate_filler_def ipfs_filler_def zero_filler_def filler_tags split: if_splits)
    with True valid show ?thesis
      by (simp add: filler_canon filler_from_value_def value_field_def bindE_eq_Inr)
  next
    case ipfs: False
    show ?thesis
    proof (cases "ftype f = filler_scalar")
      case True
      then have "scalar_filler (fscalar f) = Inr f"
        using assms valid by (auto simp: wf_filler_def validate_filler_def scalar_filler_def zero_filler_def filler_tags wf_scalar_def)
      moreover have "scalar_from_value (canon (scalar_value (fscalar f))) = Inr (fscalar f)"
        using assms True by (auto simp: wf_filler_def intro: scalar_parse_print)
      ultimately show ?thesis
        using True valid ipfs by (simp add: filler_canon filler_from_value_def value_field_def bindE_eq_Inr)
    next
      case False
      then have "zero_filler\<lparr>ftype := ftype f, fref := fref f\<rparr> = f"
        using assms ipfs by (simp add: wf_filler_def zero_filler_def)
      with False ipfs valid show ?thesis
        by (simp add: filler_canon filler_from_value_def value_field_def bindE_eq_Inr)
    qed
  qed
qed

lemma scalar_filler_Inr:
  "scalar_filler s = Inr f \<longleftrightarrow> f = zero_filler\<lparr>ftype := filler_scalar, fscalar := s\<rparr> \<and> validate_scalar s = Inr ()"
  by (auto simp: scalar_filler_def bindE_eq_Inr)

lemma ipfs_filler_Inr:
  "ipfs_filler u = Inr f \<longleftrightarrow>
    f = zero_filler\<lparr>ftype := filler_ipfs_uri, furi := u\<rparr> \<and> u \<noteq> '''' \<and> valid_string u"
  by (auto simp: ipfs_filler_def)

lemma wf_ipfs_filler: "ipfs_filler u = Inr f \<Longrightarrow> wf_filler f"
  by (auto simp: ipfs_filler_Inr wf_filler_def validate_filler_def zero_filler_def type_valid_def filler_tags)

lemma wf_scalar_filler: "scalar_filler s = Inr f \<Longrightarrow> wf_scalar s \<Longrightarrow> wf_filler f"
  by (auto simp: scalar_filler_Inr wf_filler_def validate_filler_def zero_filler_def type_valid_def filler_tags)

lemma wf_digest_filler:
  "type_valid t \<Longrightarrow> t \<noteq> filler_ipfs_uri \<Longrightarrow> t \<noteq> filler_scalar \<Longrightarrow> wf_filler (zero_filler\<lparr>ftype := t, fref := d\<rparr>)"
  by (simp add: wf_filler_def validate_filler_def zero_filler_def)

lemma filler_print_parse:
  assumes "canonical v" and "filler_from_value v = Inr f"
  shows "wf_filler f \<and> canon (filler_value f) = v"
proof -
  obtain m where v: "v = Map m"
    using assms(2) by (auto simp: filler_from_value_def bindE_eq_Inr)
  have keys: "require_keys m [''type'', ''value''] = Inr ()"
    using assms(2) unfolding v filler_from_value_def by (simp only: as_map_Map bindE_Inr bindE_eq_Inr) auto
  obtain w where w: "map_get m ''type'' = Some w" using keys by auto
  have "\<exists>t. w = Uint t"
    using assms(2) keys unfolding v filler_from_value_def
    by (cases w) (simp_all add: bindE_eq_Inr w)
  then obtain t where t: "map_get m ''type'' = Some (Uint t)" using w by blast
  obtain x where x: "map_get m ''value'' = Some x" using keys by auto
  have m: "m = [(''type'', Uint t), (''value'', x)]"
    by (rule two_entries [OF assms(1) [unfolded v] _ t x key_order(3)]) (use keys in simp)
  have cx: "canonical x" using assms(1) by (simp add: v m)
  have parse: "(if \<not> type_valid t then Inl (Filler_type_unknown t)
         else if t = filler_ipfs_uri then (case x of Text s \<Rightarrow> ipfs_filler s | _ \<Rightarrow> Inl Ipfs_not_text)
         else if t = filler_scalar then bindE (scalar_from_value x) scalar_filler
         else bindE (as_digest x) (\<lambda>d. Inr (zero_filler\<lparr>ftype := t, fref := d\<rparr>))) = Inr f"
    using assms(2) keys unfolding v m filler_from_value_def by (simp add: require_keys_def Let_def cong: if_cong)
  then have valid: "type_valid t" by (simp split: if_splits)
  consider "t = filler_ipfs_uri" | "t = filler_scalar" "t \<noteq> filler_ipfs_uri"
    | "t \<noteq> filler_ipfs_uri" "t \<noteq> filler_scalar" by blast
  then show ?thesis
  proof cases
    case 1
    then obtain s where s: "x = Text s" "ipfs_filler s = Inr f"
      using parse valid by (auto split: cbor_value.splits)
    then have "wf_filler f" and "ftype f = t" "value_field f = x"
      using 1 by (auto simp: wf_ipfs_filler) (auto simp: ipfs_filler_Inr value_field_def)
    then show ?thesis using s(1) by (simp add: v m filler_canon)
  next
    case 2
    then obtain s where s: "scalar_from_value x = Inr s" "scalar_filler s = Inr f"
      using parse valid by (auto simp: bindE_eq_Inr)
    note sp = scalar_print_parse [OF cx s(1)]
    have "ftype f = t" "value_field f = scalar_value s"
      using s(2) 2 by (auto simp: scalar_filler_Inr value_field_def)
    then show ?thesis using sp s(2) by (simp add: v m filler_canon wf_scalar_filler)
  next
    case 3
    then obtain d where d: "x = Bytes (digest_bytes d)" "f = zero_filler\<lparr>ftype := t, fref := d\<rparr>"
      using parse valid by (auto simp: bindE_eq_Inr)
    then show ?thesis
      using 3 valid by (simp add: v m filler_canon value_field_def wf_digest_filler)
  qed
qed

lemma filler_encodes:
  assumes "validate_filler f = Inr ()" and "Suc (Suc depth) < max_depth"
  shows "\<exists>b. encode_value depth (filler_value f) = Inr b"
proof -
  have "\<exists>b. encode_value (Suc depth) (value_field f) = Inr b"
    using assms scalar_encodes [of "fscalar f" "Suc depth"]
    by (auto simp: value_field_def validate_filler_def valid_text_def split: if_splits)
  then show ?thesis
    unfolding filler_value_def
    using encode_two(1) [OF key_valid(5,4) key_order(3), of depth] assms(2) by simp
qed

end
