(* ===== verification/Timestamp.thy ===== *)
theory Timestamp
  imports Filler
begin

text \<open>
  What the timestamp profile of \<open>go/entity/filler.go\<close> accepts: exactly the fixed-width
  spellings of real instants, whose order as strings is chronological.
\<close>

section \<open>Decimal digits of fixed width\<close>

fun digits :: "nat \<Rightarrow> nat \<Rightarrow> string" where
  "digits 0 n = []"
| "digits (Suc k) n = digits k (n div 10) @ [char_of (48 + n mod 10)]"

lemma length_digits [simp]: "length (digits k n) = k"
  by (induction k arbitrary: n) auto

lemma digit_char: "v < 10 \<Longrightarrow> is_digit (char_of (48 + v)) \<and> digit_value (char_of (48 + v)) = v"
proof -
  assume "v < 10"
  then have "of_char (char_of (48 + v) :: char) = (48 + v :: nat)" by simp
  with \<open>v < 10\<close> show ?thesis
    by (simp add: is_digit_def digit_value_def less_eq_char_def)
qed

lemma char_digit: "is_digit c \<Longrightarrow> digit_value c < 10 \<and> char_of (48 + digit_value c) = c"
  by (auto simp: is_digit_def digit_value_def less_eq_char_def)

lemma digits_digit: "list_all is_digit (digits k n)"
  by (induction k arbitrary: n) (auto simp: digit_char)

lemma number_of_snoc [simp]: "number_of (cs @ [c]) = number_of cs * 10 + digit_value c"
  by (simp add: number_of_def)

lemma number_of_digits: "number_of (digits k n) = n mod 10 ^ k"
proof (induction k arbitrary: n)
  case 0
  then show ?case by (simp add: number_of_def)
next
  case (Suc k)
  have "number_of (digits (Suc k) n) = (n div 10) mod 10 ^ k * 10 + n mod 10"
    by (simp add: Suc.IH digit_char)
  also have "\<dots> = n mod 10 ^ Suc k"
    by (simp add: mod_mult2_eq mult.commute)
  finally show ?case .
qed

lemma number_of_less: "list_all is_digit cs \<Longrightarrow> number_of cs < 10 ^ length cs"
proof (induction cs rule: rev_induct)
  case (snoc c cs)
  then have "number_of cs < 10 ^ length cs" "digit_value c < 10"
    using char_digit by auto
  then have "number_of cs * 10 + digit_value c < 10 ^ length cs * 10"
    by linarith
  then show ?case by (simp add: mult.commute)
qed (simp add: number_of_def)

lemma digits_number_of: "list_all is_digit cs \<Longrightarrow> digits (length cs) (number_of cs) = cs"
proof (induction cs rule: rev_induct)
  case (snoc c cs)
  then have "digit_value c < 10" "char_of (48 + digit_value c) = c" "digits (length cs) (number_of cs) = cs"
    using char_digit by auto
  then show ?case by simp
qed simp

lemma append_less:
  "length a = length b \<Longrightarrow> a @ x < b @ y \<longleftrightarrow> a < b \<or> a = b \<and> x < y" for a b :: "'a :: linorder list"
  by (induction a b rule: list_induct2) auto

lemma digit_less: "v < 10 \<Longrightarrow> w < 10 \<Longrightarrow> (char_of (48 + v) :: char) < char_of (48 + w) \<longleftrightarrow> v < w"
  for v w :: nat
  by (simp add: less_char_def)

lemma digits_less: "a < 10 ^ k \<Longrightarrow> b < 10 ^ k \<Longrightarrow> digits k a < digits k b \<longleftrightarrow> a < b"
proof (induction k arbitrary: a b)
  case (Suc k)
  have lt: "a div 10 < 10 ^ k" "b div 10 < 10 ^ k"
    using Suc.prems by (simp_all add: less_mult_imp_div_less mult.commute)
  have inj: "digits k (a div 10) = digits k (b div 10) \<longleftrightarrow> a div 10 = b div 10"
    using lt number_of_digits by (metis mod_less)
  have "digits (Suc k) a < digits (Suc k) b \<longleftrightarrow>
      a div 10 < b div 10 \<or> a div 10 = b div 10 \<and> a mod 10 < b mod 10"
    by (simp add: append_less Suc.IH [OF lt] inj digit_less)
  also have "\<dots> \<longleftrightarrow> a < b"
  proof -
    have "a = 10 * (a div 10) + a mod 10" "b = 10 * (b div 10) + b mod 10" "a mod 10 < 10" "b mod 10 < 10"
      by simp_all
    then show ?thesis by linarith
  qed
  finally show ?case .
qed simp

section \<open>The spelling of an instant\<close>

record instant =
  year :: nat
  month :: nat
  day :: nat
  hour :: nat
  minute :: nat
  second :: nat

definition valid_instant :: "instant \<Rightarrow> bool" where
  "valid_instant t \<longleftrightarrow> year t < 10000 \<and> 1 \<le> month t \<and> month t \<le> 12 \<and>
    1 \<le> day t \<and> day t \<le> days_in (year t) (month t) \<and> hour t < 24 \<and> minute t < 60 \<and> second t < 60"

definition spell :: "instant \<Rightarrow> string" where
  "spell t = digits 4 (year t) @ ''-'' @ digits 2 (month t) @ ''-'' @ digits 2 (day t) @ ''T'' @
    digits 2 (hour t) @ '':'' @ digits 2 (minute t) @ '':'' @ digits 2 (second t) @ ''Z''"

text \<open>Chronological order: the components compared from the year down.\<close>

definition before :: "instant \<Rightarrow> instant \<Rightarrow> bool" where
  "before s t \<longleftrightarrow> [year s, month s, day s, hour s, minute s, second s] <
    [year t, month t, day t, hour t, minute t, second t]"

lemma days_in_less: "days_in y m < 100"
  by (simp add: days_in_def)

lemma spell_less:
  assumes "valid_instant s" and "valid_instant t"
  shows "spell s < spell t \<longleftrightarrow> before s t"
proof -
  have lt: "year s < 10 ^ 4" "month s < 10 ^ 2" "day s < 10 ^ 2" "hour s < 10 ^ 2" "minute s < 10 ^ 2" "second s < 10 ^ 2"
      "year t < 10 ^ 4" "month t < 10 ^ 2" "day t < 10 ^ 2" "hour t < 10 ^ 2" "minute t < 10 ^ 2" "second t < 10 ^ 2"
    using assms days_in_less [of "year s" "month s"] days_in_less [of "year t" "month t"]
    by (auto simp: valid_instant_def)
  have eq: "digits k a = digits k b \<longleftrightarrow> a = b" if "a < 10 ^ k" "b < 10 ^ k" for a b k
    using that number_of_digits by (metis mod_less)
  show ?thesis
    unfolding spell_def before_def
    by (simp only: append_less length_digits append_Cons append_Nil Cons_less_Cons digits_less eq lt
        less_irrefl list.size refl simp_thms not_less_Nil)
qed

section \<open>What is accepted\<close>

lemma list_20:
  assumes "length s = 20"
  obtains c0 c1 c2 c3 c4 c5 c6 c7 c8 c9 d0 d1 d2 d3 d4 d5 d6 d7 d8 d9
  where "s = [c0, c1, c2, c3, c4, c5, c6, c7, c8, c9, d0, d1, d2, d3, d4, d5, d6, d7, d8, d9]"
  using assms by (auto simp: numeral_eq_Suc length_Suc_conv)

lemma layout_iff:
  assumes "length s = 20"
  shows "check_layout 0 s = Inr () \<longleftrightarrow>
    list_all is_digit (slice 0 4 s) \<and> slice 4 5 s = ''-'' \<and> list_all is_digit (slice 5 7 s) \<and>
    slice 7 8 s = ''-'' \<and> list_all is_digit (slice 8 10 s) \<and> slice 10 11 s = ''T'' \<and>
    list_all is_digit (slice 11 13 s) \<and> slice 13 14 s = '':'' \<and> list_all is_digit (slice 14 16 s) \<and>
    slice 16 17 s = '':'' \<and> list_all is_digit (slice 17 19 s) \<and> slice 19 20 s = ''Z''"
proof -
  obtain c0 c1 c2 c3 c4 c5 c6 c7 c8 c9 d0 d1 d2 d3 d4 d5 d6 d7 d8 d9
    where s: "s = [c0, c1, c2, c3, c4, c5, c6, c7, c8, c9, d0, d1, d2, d3, d4, d5, d6, d7, d8, d9]"
    using list_20 [OF assms] .
  have step: "check_layout i (c # r) = Inr () \<longleftrightarrow>
      (case punctuation i of None \<Rightarrow> is_digit c | Some w \<Rightarrow> c = w) \<and> check_layout (Suc i) r = Inr ()" for i c r
    by (auto split: option.splits)
  show ?thesis
    unfolding s by (simp add: step slice_def punctuation_def del: check_layout.simps(2))
qed

lemma join_slices:
  assumes "length s = 20"
  shows "s = slice 0 4 s @ slice 4 5 s @ slice 5 7 s @ slice 7 8 s @ slice 8 10 s @ slice 10 11 s @
    slice 11 13 s @ slice 13 14 s @ slice 14 16 s @ slice 16 17 s @ slice 17 19 s @ slice 19 20 s"
proof -
  obtain c0 c1 c2 c3 c4 c5 c6 c7 c8 c9 d0 d1 d2 d3 d4 d5 d6 d7 d8 d9
    where s: "s = [c0, c1, c2, c3, c4, c5, c6, c7, c8, c9, d0, d1, d2, d3, d4, d5, d6, d7, d8, d9]"
    using list_20 [OF assms] .
  show ?thesis unfolding s by (simp add: slice_def)
qed

lemma length_slice: "length (slice i j s) = min (length s - i) (j - i)"
  by (simp add: slice_def)

definition instant_of :: "string \<Rightarrow> instant" where
  "instant_of s = \<lparr>year = number_of (slice 0 4 s), month = number_of (slice 5 7 s),
    day = number_of (slice 8 10 s), hour = number_of (slice 11 13 s),
    minute = number_of (slice 14 16 s), second = number_of (slice 17 19 s)\<rparr>"

lemma slices_spell:
  "slice 0 4 (spell t) = digits 4 (year t)" "slice 4 5 (spell t) = ''-''" "slice 5 7 (spell t) = digits 2 (month t)"
  "slice 7 8 (spell t) = ''-''" "slice 8 10 (spell t) = digits 2 (day t)" "slice 10 11 (spell t) = ''T''"
  "slice 11 13 (spell t) = digits 2 (hour t)" "slice 13 14 (spell t) = '':''" "slice 14 16 (spell t) = digits 2 (minute t)"
  "slice 16 17 (spell t) = '':''" "slice 17 19 (spell t) = digits 2 (second t)" "slice 19 20 (spell t) = ''Z''"
  by (simp_all add: slice_def spell_def)

lemma length_spell [simp]: "length (spell t) = 20"
  by (simp add: spell_def)

lemma instant_of_spell: "valid_instant t \<Longrightarrow> instant_of (spell t) = t"
  using days_in_less [of "year t" "month t"]
  by (cases t) (simp add: instant_of_def slices_spell number_of_digits valid_instant_def)

lemma leap_second:
  assumes "list_all is_digit cs" and "length cs = 2"
  shows "cs > ''59'' \<longleftrightarrow> number_of cs > 59"
proof -
  have "digits 2 59 = ''59''" by code_simp
  moreover have "number_of cs < 10 ^ 2" using number_of_less [OF assms(1)] assms(2) by simp
  ultimately show ?thesis
    using digits_less [of 59 2 "number_of cs"] digits_number_of [OF assms(1)] assms(2) by simp
qed

lemma timestamp_iff:
  "validate_timestamp s = Inr () \<longleftrightarrow> (\<exists>t. valid_instant t \<and> s = spell t)"
proof
  assume ok: "validate_timestamp s = Inr ()"
  then have len: "length s = 20" and lay: "check_layout 0 s = Inr ()" and real: "real_instant s"
    by (auto simp: validate_timestamp_def bindE_eq_Inr split: if_splits)
  note l = lay [unfolded layout_iff [OF len]]
  have d: "digits (length cs) (number_of cs) = cs" if "list_all is_digit cs" for cs
    by (rule digits_number_of [OF that])
  have "valid_instant (instant_of s)"
    using real number_of_less [of "slice 0 4 s"] l len
    by (simp add: real_instant_def Let_def valid_instant_def instant_of_def length_slice)
  moreover have "s = spell (instant_of s)"
    using d [of "slice 0 4 s"] d [of "slice 5 7 s"] d [of "slice 8 10 s"] d [of "slice 11 13 s"]
      d [of "slice 14 16 s"] d [of "slice 17 19 s"] l len join_slices [OF len]
    by (simp add: spell_def instant_of_def length_slice)
  ultimately show "\<exists>t. valid_instant t \<and> s = spell t" by blast
next
  assume "\<exists>t. valid_instant t \<and> s = spell t"
  then obtain t where t: "valid_instant t" "s = spell t" by blast
  have len: "length s = 20" using t by simp
  have lay: "check_layout 0 s = Inr ()"
    unfolding layout_iff [OF len] by (simp add: t slices_spell digits_digit)
  have i: "instant_of s = t" using t instant_of_spell by simp
  then have real: "real_instant s"
    using t(1) by (auto simp: instant_of_def real_instant_def Let_def valid_instant_def)
  have "second t < 60" using t(1) by (simp add: valid_instant_def)
  then have "\<not> slice 17 19 s > ''59''"
    using leap_second [of "digits 2 (second t)"] by (simp add: t(2) slices_spell digits_digit number_of_digits)
  then show "validate_timestamp s = Inr ()"
    using len lay real by (auto simp: validate_timestamp_def)
qed

section \<open>Properties\<close>

text \<open>
  C39. \<open>ValidateTimestamp\<close> accepts a string exactly when it is the fixed-width UTC spelling of a
  real instant of the proleptic Gregorian calendar, so an instant has one accepted spelling;
  and comparing two accepted strings, as the datetime-range check does, is comparing the instants.
\<close>

theorem timestamps_correct:
  "(validate_timestamp s = Inr () \<longleftrightarrow> (\<exists>t. valid_instant t \<and> s = spell t)) \<and>
   (valid_instant t \<and> valid_instant u \<longrightarrow> (spell t < spell u \<longleftrightarrow> before t u) \<and> (spell t = spell u \<longleftrightarrow> t = u))"
  using timestamp_iff spell_less instant_of_spell by metis

theorem timestamps_correct_witness:
  "spell \<lparr>year = 1600, month = 2, day = 29, hour = 23, minute = 59, second = 59\<rparr> <
   spell \<lparr>year = 1600, month = 3, day = 1, hour = 0, minute = 0, second = 0\<rparr>"
  using timestamps_correct [of "''''" "\<lparr>year = 1600, month = 2, day = 29, hour = 23, minute = 59, second = 59\<rparr>"
      "\<lparr>year = 1600, month = 3, day = 1, hour = 0, minute = 0, second = 0\<rparr>"]
  by (simp add: valid_instant_def before_def days_in_def is_leap_def)

end
