(* ===== verification/Atom_Bond.thy ===== *)
theory Atom_Bond
  imports Entity
begin

text \<open>
  Atoms and bonds (\<open>go/entity/atom.go\<close>, \<open>bond.go\<close>, \<open>metabond.go\<close>). A value of either kind
  carries its canonical encoding; the zero value, whose encoding is nil, has the empty list.
  SHA-256 is the parameter \<open>sha\<close>.
\<close>

section \<open>Atoms\<close>

record atom =
  atom_description :: string
  atom_enc :: "byte list"

definition atom_value :: "string \<Rightarrow> cbor_value" where
  "atom_value d = Map [(''description'', Text d)]"

definition new_atom :: "string \<Rightarrow> entity_error + atom" where
  "new_atom d =
    (if d = '''' then Inl Atom_empty
     else if \<not> valid_string d then Inl Atom_not_utf8
     else bindE (must_encode (atom_value d)) (\<lambda>b. Inr \<lparr>atom_description = d, atom_enc = b\<rparr>))"

definition decode_atom :: "byte list \<Rightarrow> entity_error + atom" where
  "decode_atom b =
    bindE (decode_entity_map b [''description'']) (\<lambda>m.
    bindE (text_field m ''description'') (\<lambda>d.
    new_atom d))"

definition atom_digest :: "(byte list \<Rightarrow> digest) \<Rightarrow> atom \<Rightarrow> digest" where
  "atom_digest sha a = sum_digest sha (atom_enc a)"

section \<open>Bond templates\<close>

definition is_upper :: "char \<Rightarrow> bool" where
  "is_upper c \<longleftrightarrow> CHR ''A'' \<le> c \<and> c \<le> CHR ''Z''"

text \<open>
  The scan of \<open>ParseTemplateVariables\<close>: the argument is the template from index \<open>i\<close> on, and
  the run of uppercase letters after an underscore ends at index \<open>j\<close>.
\<close>

function (sequential) parse_template_variables :: "string \<Rightarrow> string list" where
  "parse_template_variables [] = []"
| "parse_template_variables (c # s) =
    (if c \<noteq> CHR ''_'' then parse_template_variables s
     else let run = takeWhile is_upper s; after = dropWhile is_upper s
       in if run \<noteq> [] \<and> after \<noteq> [] \<and> hd after = CHR ''_''
          then run # parse_template_variables (tl after)
          else parse_template_variables s)"
  by pat_completeness auto
termination
  by (relation "measure length") (auto simp: less_Suc_eq_le intro: le_trans [OF diff_le_self length_dropWhile_le])

section \<open>Bonds\<close>

record bond =
  bond_template :: string
  bond_variables :: "string list"
  bond_enc :: "byte list"

definition bond_value :: "string \<Rightarrow> cbor_value" where
  "bond_value t = Map [(''template'', Text t)]"

text \<open>The loop over the variables with the set of names already seen.\<close>

fun repeated :: "string list \<Rightarrow> string list \<Rightarrow> string option" where
  "repeated seen [] = None"
| "repeated seen (v # vs) = (if v \<in> set seen then Some v else repeated (v # seen) vs)"

definition new_bond :: "string \<Rightarrow> entity_error + bond" where
  "new_bond t =
    (if t = '''' then Inl Bond_empty
     else if \<not> valid_string t then Inl Bond_not_utf8
     else let vars = parse_template_variables t
       in if vars = [] then Inl Bond_without_variables
          else case repeated [] vars of
            Some v \<Rightarrow> Inl (Bond_repeats_variable v)
          | None \<Rightarrow> bindE (must_encode (bond_value t)) (\<lambda>b.
              Inr \<lparr>bond_template = t, bond_variables = vars, bond_enc = b\<rparr>))"

definition decode_bond :: "byte list \<Rightarrow> entity_error + bond" where
  "decode_bond b =
    bindE (decode_entity_map b [''template'']) (\<lambda>m.
    bindE (text_field m ''template'') (\<lambda>t.
    new_bond t))"

definition variable_count :: "bond \<Rightarrow> nat" where
  "variable_count b = length (bond_variables b)"

definition bond_digest :: "(byte list \<Rightarrow> digest) \<Rightarrow> bond \<Rightarrow> digest" where
  "bond_digest sha b = sum_digest sha (bond_enc b)"

section \<open>The standard meta-bonds\<close>

definition template_equivalence :: string where
  "template_equivalence = ''_A_ is the same as _B_''"

definition template_truth_assertion :: string where
  "template_truth_assertion = ''_A_ is true''"

definition template_truth_retraction :: string where
  "template_truth_retraction = ''_A_ is untrue''"

definition template_contradiction :: string where
  "template_contradiction = ''_A_ contradicts _B_''"

definition template_supersession :: string where
  "template_supersession = ''_A_ supersedes _B_''"

text \<open>\<open>MustBond\<close> on a constant; that it does not panic on these five is a lemma below.\<close>

definition must_bond :: "string \<Rightarrow> bond" where
  "must_bond t = (case new_bond t of Inr b \<Rightarrow> b
     | Inl _ \<Rightarrow> \<lparr>bond_template = '''', bond_variables = [], bond_enc = []\<rparr>)"

definition standard_meta_bonds :: "bond list" where
  "standard_meta_bonds = map must_bond
    [template_equivalence, template_truth_assertion, template_truth_retraction,
     template_contradiction, template_supersession]"

text \<open>The digest index is filled in library order, a later bond replacing an earlier one.\<close>

definition meta_bonds_by_digest :: "(byte list \<Rightarrow> digest) \<Rightarrow> digest \<Rightarrow> bond option" where
  "meta_bonds_by_digest sha =
    foldl (\<lambda>m b. m(bond_digest sha b \<mapsto> b)) (\<lambda>_. None) standard_meta_bonds"

definition lookup_meta_bond :: "(byte list \<Rightarrow> digest) \<Rightarrow> digest \<Rightarrow> bond option" where
  "lookup_meta_bond sha d = meta_bonds_by_digest sha d"

definition is_meta_bond :: "(byte list \<Rightarrow> digest) \<Rightarrow> digest \<Rightarrow> bool" where
  "is_meta_bond sha d \<longleftrightarrow> meta_bonds_by_digest sha d \<noteq> None"

section \<open>The grammar of templates\<close>

text \<open>
  Leftmost-longest matching as the specification words it: reading from the left, an
  underscore opens a variable when a non-empty run of uppercase letters and a closing
  underscore follow; every other character is literal text.
\<close>

inductive template :: "string \<Rightarrow> string list \<Rightarrow> bool" where
  finished: "template [] []"
| literal: "template s vs \<Longrightarrow> c \<noteq> CHR ''_'' \<Longrightarrow> template (c # s) vs"
| variable: "template s vs \<Longrightarrow> v \<noteq> [] \<Longrightarrow> list_all is_upper v \<Longrightarrow>
    template (CHR ''_'' # v @ CHR ''_'' # s) (v # vs)"
| underscore: "template s vs \<Longrightarrow> (\<And>v r. v \<noteq> [] \<Longrightarrow> list_all is_upper v \<Longrightarrow> s \<noteq> v @ CHR ''_'' # r) \<Longrightarrow>
    template (CHR ''_'' # s) vs"

lemma not_upper_underscore [simp]: "\<not> is_upper CHR ''_''"
  by code_simp

lemma run_split:
  assumes "list_all is_upper v"
  shows "takeWhile is_upper (v @ CHR ''_'' # r) = v" and "dropWhile is_upper (v @ CHR ''_'' # r) = CHR ''_'' # r"
  using assms by (induction v) auto

lemma opens_variable:
  "takeWhile is_upper s \<noteq> [] \<and> dropWhile is_upper s \<noteq> [] \<and> hd (dropWhile is_upper s) = CHR ''_'' \<longleftrightarrow>
    (\<exists>v r. v \<noteq> [] \<and> list_all is_upper v \<and> s = v @ CHR ''_'' # r)"
proof
  assume "takeWhile is_upper s \<noteq> [] \<and> dropWhile is_upper s \<noteq> [] \<and> hd (dropWhile is_upper s) = CHR ''_''"
  moreover have "s = takeWhile is_upper s @ dropWhile is_upper s" by simp
  ultimately have "takeWhile is_upper s \<noteq> [] \<and> list_all is_upper (takeWhile is_upper s) \<and>
      s = takeWhile is_upper s @ CHR ''_'' # tl (dropWhile is_upper s)"
    by (metis list.collapse list_all_iff set_takeWhileD)
  then show "\<exists>v r. v \<noteq> [] \<and> list_all is_upper v \<and> s = v @ CHR ''_'' # r" by blast
next
  assume "\<exists>v r. v \<noteq> [] \<and> list_all is_upper v \<and> s = v @ CHR ''_'' # r"
  then show "takeWhile is_upper s \<noteq> [] \<and> dropWhile is_upper s \<noteq> [] \<and> hd (dropWhile is_upper s) = CHR ''_''"
    by (auto simp: run_split)
qed

lemma template_complete: "template s vs \<Longrightarrow> parse_template_variables s = vs"
proof (induction rule: template.induct)
  case (underscore s vs)
  then have "\<not> (takeWhile is_upper s \<noteq> [] \<and> dropWhile is_upper s \<noteq> [] \<and> hd (dropWhile is_upper s) = CHR ''_'')"
    unfolding opens_variable by blast
  with underscore.IH show ?case by (auto simp: Let_def)
qed (auto simp: run_split Let_def)

lemma template_sound: "template s (parse_template_variables s)"
proof (induction s rule: parse_template_variables.induct)
  case (2 c s)
  show ?case
  proof (cases "c = CHR ''_''")
    case c: True
    show ?thesis
    proof (cases "\<exists>v r. v \<noteq> [] \<and> list_all is_upper v \<and> s = v @ CHR ''_'' # r")
      case True
      then obtain v r where v: "v \<noteq> []" "list_all is_upper v" "s = v @ CHR ''_'' # r" by blast
      have "template r (parse_template_variables r)"
        using "2.IH"(2) [of "takeWhile is_upper s" "dropWhile is_upper s"] c v by (simp add: run_split)
      then show ?thesis
        using v by (auto simp: c run_split Let_def intro: template.variable)
    next
      case False
      then have *: "\<not> (takeWhile is_upper s \<noteq> [] \<and> dropWhile is_upper s \<noteq> [] \<and> hd (dropWhile is_upper s) = CHR ''_'')"
        unfolding opens_variable .
      then have "parse_template_variables (c # s) = parse_template_variables s"
        using c by (auto simp: Let_def)
      moreover have "template s (parse_template_variables s)"
        using "2.IH"(3) [of "takeWhile is_upper s" "dropWhile is_upper s"] c * by auto
      ultimately show ?thesis
        using False by (auto simp: c intro: template.underscore)
    qed
  next
    case False
    then show ?thesis
      using "2.IH"(1) by (auto intro: template.literal)
  qed
qed (auto intro: template.finished)

section \<open>Entities with one text field\<close>

lemma encode_text_field:
  assumes "valid_text k" and "valid_text t"
  shows "encode (Map [(k, Text t)]) =
    Inr (write_head 5 1 @ text_key k @ write_head 3 (word_of_nat (length t)) @ bytes_of t)"
  using assms by (simp add: encode_def enter_def max_depth_def sorted_entries_def key_entries_def)

lemma decode_text_field:
  assumes "small b"
  shows "(\<exists>m. decode_entity_map b [k] = Inr m \<and> text_field m k = Inr t) \<longleftrightarrow>
    encode (Map [(k, Text t)]) = Inr b"
proof -
  have "map fst m = [k] \<and> map_get m k = Some (Text t) \<longleftrightarrow> m = [(k, Text t)]" for m
    by (cases m) auto
  then show ?thesis
    using decode_entity_map_Inr [OF assms, of "[k]"] by auto
qed

lemma key_texts: "valid_text ''description''" "valid_text ''template''"
  by code_simp+

lemma new_atom_Inr:
  "new_atom d = Inr a \<longleftrightarrow> d \<noteq> '''' \<and> valid_string d \<and> atom_description a = d \<and>
    encode (atom_value d) = Inr (atom_enc a)"
  by (cases a) (auto simp: new_atom_def must_encode_def bindE_eq_Inr)

lemma decode_atom_Inr:
  assumes "small b"
  shows "decode_atom b = Inr a \<longleftrightarrow> new_atom (atom_description a) = Inr a \<and> atom_enc a = b"
proof -
  have "decode_atom b = Inr a \<longleftrightarrow>
      (\<exists>d. (\<exists>m. decode_entity_map b [''description''] = Inr m \<and> text_field m ''description'' = Inr d) \<and>
        new_atom d = Inr a)"
    by (auto simp: decode_atom_def bindE_eq_Inr)
  also have "\<dots> \<longleftrightarrow> new_atom (atom_description a) = Inr a \<and> atom_enc a = b"
    unfolding decode_text_field [OF assms] by (auto simp: new_atom_Inr atom_value_def)
  finally show ?thesis .
qed

lemma new_bond_Inr:
  "new_bond t = Inr b \<longleftrightarrow> t \<noteq> '''' \<and> valid_string t \<and> bond_template b = t \<and>
    bond_variables b = parse_template_variables t \<and> bond_variables b \<noteq> [] \<and>
    repeated [] (bond_variables b) = None \<and> encode (bond_value t) = Inr (bond_enc b)"
  by (cases b) (auto simp: new_bond_def must_encode_def bindE_eq_Inr Let_def split: option.splits)

lemma decode_bond_Inr:
  assumes "small b"
  shows "decode_bond b = Inr x \<longleftrightarrow> new_bond (bond_template x) = Inr x \<and> bond_enc x = b"
proof -
  have "decode_bond b = Inr x \<longleftrightarrow>
      (\<exists>t. (\<exists>m. decode_entity_map b [''template''] = Inr m \<and> text_field m ''template'' = Inr t) \<and>
        new_bond t = Inr x)"
    by (auto simp: decode_bond_def bindE_eq_Inr)
  also have "\<dots> \<longleftrightarrow> new_bond (bond_template x) = Inr x \<and> bond_enc x = b"
    unfolding decode_text_field [OF assms] by (auto simp: new_bond_Inr bond_value_def)
  finally show ?thesis .
qed

interpretation atoms: codec "\<lambda>d. bindE (new_atom d) (\<lambda>a. Inr (atom_enc a))"
  "\<lambda>b. bindE (decode_atom b) (\<lambda>a. Inr (atom_description a))" id small
proof
  fix d b
  assume "bindE (new_atom d) (\<lambda>a. Inr (atom_enc a)) = Inr b" and s: "small b"
  then obtain a where "new_atom d = Inr a" "atom_enc a = b"
    by (auto simp: bindE_eq_Inr)
  then have "decode_atom b = Inr a \<and> atom_description a = d"
    using decode_atom_Inr [OF s] by (auto simp: new_atom_Inr)
  then show "bindE (decode_atom b) (\<lambda>a. Inr (atom_description a)) = Inr (id d)" by simp
qed (auto simp: bindE_eq_Inr decode_atom_Inr)

interpretation bonds: codec "\<lambda>t. bindE (new_bond t) (\<lambda>b. Inr (bond_enc b))"
  "\<lambda>b. bindE (decode_bond b) (\<lambda>x. Inr (bond_template x))" id small
proof
  fix t b
  assume "bindE (new_bond t) (\<lambda>b. Inr (bond_enc b)) = Inr b" and s: "small b"
  then obtain x where "new_bond t = Inr x" "bond_enc x = b"
    by (auto simp: bindE_eq_Inr)
  then have "decode_bond b = Inr x \<and> bond_template x = t"
    using decode_bond_Inr [OF s] by (auto simp: new_bond_Inr)
  then show "bindE (decode_bond b) (\<lambda>x. Inr (bond_template x)) = Inr (id t)" by simp
qed (auto simp: bindE_eq_Inr decode_bond_Inr)

lemma repeated_None: "repeated seen vs = None \<longleftrightarrow> distinct vs \<and> set vs \<inter> set seen = {}"
  by (induction seen vs rule: repeated.induct) auto

text \<open>No constructor panics: a text that passes the checks can be encoded.\<close>

lemma new_atom_total: "d \<noteq> '''' \<Longrightarrow> valid_string d \<Longrightarrow> \<exists>a. new_atom d = Inr a"
  by (simp add: new_atom_def must_encode_def atom_value_def encode_text_field key_texts valid_text_def
      key_texts [unfolded valid_text_def])

lemma new_bond_total:
  "t \<noteq> '''' \<Longrightarrow> valid_string t \<Longrightarrow> parse_template_variables t \<noteq> [] \<Longrightarrow> distinct (parse_template_variables t) \<Longrightarrow>
    \<exists>b. new_bond t = Inr b"
  by (simp add: new_bond_def must_encode_def bond_value_def encode_text_field repeated_None valid_text_def
      key_texts [unfolded valid_text_def] Let_def repeated_None [THEN iffD2])

section \<open>Properties\<close>

text \<open>
  \<open>ParseTemplateVariables\<close> computes the leftmost-longest reading of the template grammar:
  the reading exists, is unique, and is the list the scan returns.
\<close>

theorem parse_template_variables_correct:
  "template t vs \<longleftrightarrow> parse_template_variables t = vs"
  using template_sound template_complete by blast

text \<open>
  \<open>NewAtom\<close> and \<open>DecodeAtom\<close> agree, and so do \<open>NewBond\<close> and \<open>DecodeBond\<close>: the decoders
  accept exactly the canonical encodings of the entities the constructors build, so an entity
  has one encoding, and its digest is a function of its content.
\<close>

theorem atom_bond_decoding:
  assumes "small b"
  shows "(decode_atom b = Inr a \<longleftrightarrow> new_atom (atom_description a) = Inr a \<and> atom_enc a = b) \<and>
    (decode_bond b = Inr x \<longleftrightarrow> new_bond (bond_template x) = Inr x \<and> bond_enc x = b)"
  using decode_atom_Inr [OF assms] decode_bond_Inr [OF assms] by blast

definition sample_atom_bytes :: "byte list" where
  "sample_atom_bytes = write_head 5 1 @ text_key ''description'' @ text_key ''water''"

theorem atom_bond_decoding_witness:
  "decode_atom sample_atom_bytes = Inr \<lparr>atom_description = ''water'', atom_enc = sample_atom_bytes\<rparr>"
proof -
  have "small sample_atom_bytes"
    by (simp add: small_def sample_atom_bytes_def text_key_def write_head_def)
  moreover have "new_atom ''water'' = Inr \<lparr>atom_description = ''water'', atom_enc = sample_atom_bytes\<rparr>"
    by code_simp
  ultimately show ?thesis
    using atom_bond_decoding [of sample_atom_bytes "\<lparr>atom_description = ''water'', atom_enc = sample_atom_bytes\<rparr>"]
    by simp
qed

text \<open>
  \<open>NewAtom\<close> fails exactly on an empty or invalid description; \<open>NewBond\<close> exactly on an
  empty or invalid template, one without a variable, or one that repeats a variable name.
  Neither can panic in the encoder.
\<close>

theorem atom_bond_construction:
  "((\<exists>a. new_atom d = Inr a) \<longleftrightarrow> d \<noteq> '''' \<and> valid_string d) \<and>
   ((\<exists>b. new_bond t = Inr b) \<longleftrightarrow> t \<noteq> '''' \<and> valid_string t \<and>
      parse_template_variables t \<noteq> [] \<and> distinct (parse_template_variables t)) \<and>
   new_atom d \<noteq> Inl (Panic_encode e) \<and> new_bond t \<noteq> Inl (Panic_encode e)"
proof (intro conjI)
  show a: "(\<exists>a. new_atom d = Inr a) \<longleftrightarrow> d \<noteq> '''' \<and> valid_string d"
    using new_atom_total by (auto simp: new_atom_Inr)
  show b: "(\<exists>b. new_bond t = Inr b) \<longleftrightarrow> t \<noteq> '''' \<and> valid_string t \<and>
      parse_template_variables t \<noteq> [] \<and> distinct (parse_template_variables t)"
    using new_bond_total by (auto simp: new_bond_Inr repeated_None)
  show "new_atom d \<noteq> Inl (Panic_encode e)"
    using a by (auto simp: new_atom_def bindE_eq_Inl split: if_splits)
  show "new_bond t \<noteq> Inl (Panic_encode e)"
    using b by (auto simp: new_bond_def bindE_eq_Inl Let_def repeated_None split: if_splits option.splits)
qed

lemma meta_bonds_foldl:
  assumes "inj_on f (set bs)" and "distinct bs"
  shows "foldl (\<lambda>m b. m(f b \<mapsto> b)) m0 bs d = Some x \<longleftrightarrow>
    x \<in> set bs \<and> f x = d \<or> d \<notin> f ` set bs \<and> m0 d = Some x"
  using assms
proof (induction bs arbitrary: m0)
  case (Cons b bs)
  then have b: "f b \<notin> f ` set bs" by auto
  have "inj_on f (set bs)" "distinct bs" using Cons.prems by simp_all
  from Cons.IH [OF this, of "m0(f b \<mapsto> b)"]
  have "foldl (\<lambda>m b. m(f b \<mapsto> b)) m0 (b # bs) d = Some x \<longleftrightarrow>
      x \<in> set bs \<and> f x = d \<or> d \<notin> f ` set bs \<and> (m0(f b \<mapsto> b)) d = Some x"
    by (simp only: foldl.simps)
  also have "\<dots> \<longleftrightarrow> x \<in> set (b # bs) \<and> f x = d \<or> d \<notin> f ` set (b # bs) \<and> m0 d = Some x"
    using b by auto
  finally show ?case .
qed simp

lemma meta_templates:
  "map bond_template standard_meta_bonds =
    [template_equivalence, template_truth_assertion, template_truth_retraction,
     template_contradiction, template_supersession]"
  by code_simp

lemma meta_bonds_built: "list_all (\<lambda>b. new_bond (bond_template b) = Inr b) standard_meta_bonds"
  by code_simp

lemma meta_counts: "map variable_count standard_meta_bonds = [2, 1, 1, 2, 2]"
  by code_simp

lemma distinct_meta_bonds: "distinct standard_meta_bonds"
proof -
  have "distinct (map bond_template standard_meta_bonds)"
    unfolding meta_templates by code_simp
  then show ?thesis by (simp add: distinct_map)
qed

text \<open>
  The five standard meta-bonds are bonds \<open>NewBond\<close> builds, with two variables for
  equivalence, contradiction and supersession and one for the two truth templates; when SHA-256
  separates their five encodings, looking a digest up finds a meta-bond exactly when the digest
  is that bond's.
\<close>

theorem meta_bond_lookup:
  assumes "inj_on (bond_digest sha) (set standard_meta_bonds)"
  shows "(lookup_meta_bond sha d = Some b \<longleftrightarrow> b \<in> set standard_meta_bonds \<and> bond_digest sha b = d) \<and>
    (is_meta_bond sha d \<longleftrightarrow> d \<in> bond_digest sha ` set standard_meta_bonds) \<and>
    (\<forall>b \<in> set standard_meta_bonds. new_bond (bond_template b) = Inr b) \<and>
    map variable_count standard_meta_bonds = [2, 1, 1, 2, 2]"
proof -
  note fold = meta_bonds_foldl [OF assms distinct_meta_bonds, of "\<lambda>_. None" d]
  have "lookup_meta_bond sha d = Some b \<longleftrightarrow> b \<in> set standard_meta_bonds \<and> bond_digest sha b = d" for b
    by (simp add: lookup_meta_bond_def meta_bonds_by_digest_def fold)
  moreover from this have "is_meta_bond sha d \<longleftrightarrow> d \<in> bond_digest sha ` set standard_meta_bonds"
    unfolding is_meta_bond_def lookup_meta_bond_def [symmetric] by auto
  ultimately show ?thesis
    using meta_bonds_built meta_counts by (auto simp: list_all_iff)
qed

text \<open>A stand-in for SHA-256 that separates the encodings at hand by their lengths.\<close>

definition length_hash :: "byte list \<Rightarrow> digest" where
  "length_hash b = word_of_nat (length b)"

theorem meta_bond_lookup_witness:
  "lookup_meta_bond length_hash (bond_digest length_hash (must_bond template_supersession)) =
    Some (must_bond template_supersession)"
proof -
  have "distinct (map (bond_digest length_hash) standard_meta_bonds)"
    by code_simp
  then have "inj_on (bond_digest length_hash) (set standard_meta_bonds)"
    by (simp add: distinct_map)
  moreover have "must_bond template_supersession \<in> set standard_meta_bonds"
    by (simp add: standard_meta_bonds_def)
  ultimately show ?thesis
    using meta_bond_lookup [of length_hash] by blast
qed

end
