(* ===== verification/Molecule.thy ===== *)
theory Molecule
  imports Filler Atom_Bond
begin

text \<open>
  Molecules (\<open>go/entity/molecule.go\<close>): a bond digest and the fillers of its variables, with the
  canonical encoding the constructor computes. SHA-256 is the parameter \<open>sha\<close>.
\<close>

record molecule =
  mol_bond :: digest
  mol_fillers :: "filler list"
  mol_enc :: "byte list"

definition molecule_value :: "digest \<Rightarrow> filler list \<Rightarrow> cbor_value" where
  "molecule_value bond fs =
    Map [(''bond'', Bytes (digest_bytes bond)), (''fillers'', Array (map filler_value fs))]"

text \<open>The two loops over the fillers, which wrap an error with the filler's index.\<close>

fun validate_fillers :: "nat \<Rightarrow> filler list \<Rightarrow> entity_error + unit" where
  "validate_fillers i [] = Inr ()"
| "validate_fillers i (f # fs) =
    bindE (mapErr (Molecule_filler i) (validate_filler f)) (\<lambda>_. validate_fillers (i + 1) fs)"

fun fillers_from :: "nat \<Rightarrow> cbor_value list \<Rightarrow> entity_error + filler list" where
  "fillers_from i [] = Inr []"
| "fillers_from i (v # vs) =
    bindE (mapErr (Molecule_filler i) (filler_from_value v)) (\<lambda>f.
    bindE (fillers_from (i + 1) vs) (\<lambda>fs. Inr (f # fs)))"

definition new_molecule :: "digest \<Rightarrow> filler list \<Rightarrow> entity_error + molecule" where
  "new_molecule bond fs =
    (if fs = [] then Inl Molecule_without_fillers
     else bindE (validate_fillers 0 fs) (\<lambda>_.
       bindE (must_encode (molecule_value bond fs)) (\<lambda>b.
       Inr \<lparr>mol_bond = bond, mol_fillers = fs, mol_enc = b\<rparr>)))"

definition new_molecule_for :: "(byte list \<Rightarrow> digest) \<Rightarrow> bond \<Rightarrow> filler list \<Rightarrow> entity_error + molecule" where
  "new_molecule_for sha b fs =
    (if bond_enc b = [] then Inl Zero_bond
     else if length fs \<noteq> variable_count b then Inl (Filler_count (length fs) (variable_count b))
     else new_molecule (bond_digest sha b) fs)"

definition decode_molecule :: "byte list \<Rightarrow> entity_error + molecule" where
  "decode_molecule b =
    bindE (decode_entity_map b [''bond'', ''fillers'']) (\<lambda>m.
    bindE (digest_field m ''bond'') (\<lambda>bond.
    case map_get m ''fillers'' of
      Some (Array arr) \<Rightarrow>
        if arr = [] then Inl Molecule_without_fillers
        else bindE (fillers_from 0 arr) (\<lambda>fs. new_molecule bond fs)
    | _ \<Rightarrow> Inl Molecule_fillers_not_array))"

definition molecule_digest :: "(byte list \<Rightarrow> digest) \<Rightarrow> molecule \<Rightarrow> digest" where
  "molecule_digest sha m = sum_digest sha (mol_enc m)"

definition validate_against :: "(byte list \<Rightarrow> digest) \<Rightarrow> molecule \<Rightarrow> bond \<Rightarrow> entity_error + unit" where
  "validate_against sha m b =
    (if bond_enc b = [] then Inl Zero_bond
     else if bond_digest sha b \<noteq> mol_bond m then Inl (Wrong_bond (mol_bond m) (bond_digest sha b))
     else if length (mol_fillers m) \<noteq> variable_count b
       then Inl (Filler_count (length (mol_fillers m)) (variable_count b))
     else Inr ())"

section \<open>Encoding and decoding\<close>

lemma molecule_keys: "text_key ''bond'' < text_key ''fillers''" "valid_text ''bond''" "valid_text ''fillers''"
  by code_simp+

lemma validate_fillers_Inr: "validate_fillers i fs = Inr u \<longleftrightarrow> (\<forall>f \<in> set fs. validate_filler f = Inr ())"
  by (induction fs arbitrary: i) (auto simp: bindE_eq_Inr)

lemma fillers_from_Inr: "fillers_from i vs = Inr fs \<longleftrightarrow> list_all2 (\<lambda>v f. filler_from_value v = Inr f) vs fs"
  by (induction vs arbitrary: i fs) (auto simp: bindE_eq_Inr list_all2_Cons1)

lemma encode_items_total:
  "(\<And>v. v \<in> set vs \<Longrightarrow> \<exists>b. encode_value level v = Inr b) \<Longrightarrow> \<exists>b. encode_items level vs = Inr b"
  by (induction vs) (fastforce simp: bindE_eq_Inr)+

lemma molecule_encodes:
  assumes "\<forall>f \<in> set fs. validate_filler f = Inr ()"
  shows "\<exists>b. encode (molecule_value bond fs) = Inr b"
proof -
  have "\<exists>b. encode_items 2 (map filler_value fs) = Inr b"
    using assms filler_encodes [where depth = 2]
    by (intro encode_items_total) (auto simp: max_depth_def)
  then have "\<exists>b. encode_value (Suc 0) (Array (map filler_value fs)) = Inr b"
    by (auto simp: enter_def max_depth_def numeral_2_eq_2)
  then show ?thesis
    unfolding encode_def molecule_value_def
    using encode_two(1) [OF molecule_keys(2,3,1), of 0] by (simp add: max_depth_def)
qed

lemma molecule_canon:
  "canon (molecule_value bond fs) =
    Map [(''bond'', Bytes (digest_bytes bond)), (''fillers'', Array (map (\<lambda>f. canon (filler_value f)) fs))]"
  unfolding molecule_value_def
  by (simp add: canon_two [OF molecule_keys(1)] comp_def del: canon.simps(2))

lemma new_molecule_Inr:
  "new_molecule bond fs = Inr m \<longleftrightarrow> fs \<noteq> [] \<and> (\<forall>f \<in> set fs. validate_filler f = Inr ()) \<and>
    mol_bond m = bond \<and> mol_fillers m = fs \<and> encode (molecule_value bond fs) = Inr (mol_enc m)"
  by (cases m) (auto simp: new_molecule_def must_encode_def bindE_eq_Inr validate_fillers_Inr)

lemma decode_molecule_Inr:
  assumes "small b"
  shows "decode_molecule b = Inr m \<longleftrightarrow>
    new_molecule (mol_bond m) (mol_fillers m) = Inr m \<and> (\<forall>f \<in> set (mol_fillers m). wf_filler f) \<and> mol_enc m = b"
proof
  assume "decode_molecule b = Inr m"
  then obtain mp bond where mp: "decode_entity_map b [''bond'', ''fillers''] = Inr mp"
    and bond: "map_get mp ''bond'' = Some (Bytes (digest_bytes bond))"
    and rest: "(case map_get mp ''fillers'' of
      Some (Array arr) \<Rightarrow>
        if arr = [] then Inl Molecule_without_fillers
        else bindE (fillers_from 0 arr) (\<lambda>fs. new_molecule bond fs)
    | _ \<Rightarrow> Inl Molecule_fillers_not_array) = Inr m"
    unfolding decode_molecule_def bindE_eq_Inr digest_field_Inr by blast
  have "\<exists>arr. map_get mp ''fillers'' = Some (Array arr)"
  proof (cases "map_get mp ''fillers''")
    case (Some w)
    then show ?thesis using rest by (cases w) simp_all
  qed (use rest in simp)
  then obtain arr where arr: "map_get mp ''fillers'' = Some (Array arr)" by blast
  with rest obtain fs where fs: "fillers_from 0 arr = Inr fs" and m: "new_molecule bond fs = Inr m"
    by (auto simp: bindE_eq_Inr split: if_splits)
  have can: "canonical (Map mp)" and enc: "encode (Map mp) = Inr b" and keys: "map fst mp = [''bond'', ''fillers'']"
    using mp decode_entity_map_Inr [OF assms] molecule_keys(1) by simp_all
  have "length mp = 2" using keys by (metis length_map length_Cons list.size(3) numeral_2_eq_2)
  from two_entries [OF can this bond arr molecule_keys(1)]
  have mp': "mp = [(''bond'', Bytes (digest_bytes bond)), (''fillers'', Array arr)]" .
  have each: "wf_filler f \<and> canon (filler_value f) = v" if "(v, f) \<in> set (zip arr fs)" for v f
  proof -
    have "filler_from_value v = Inr f"
      using fs that by (auto simp: fillers_from_Inr list_all2_iff)
    moreover have "canonical v"
      using can set_zip_leftD [OF that] by (simp add: mp')
    ultimately show ?thesis by (intro filler_print_parse)
  qed
  have len: "length arr = length fs"
    using fs by (simp add: fillers_from_Inr list_all2_lengthD)
  have wf: "\<forall>f \<in> set fs. wf_filler f"
    using each len by (metis in_set_impl_in_set_zip2)
  have "map (\<lambda>f. canon (filler_value f)) fs = arr"
    using each len by (intro nth_equalityI) (auto simp: set_zip)
  then have "canon (molecule_value bond fs) = Map mp"
    by (simp add: molecule_canon mp')
  moreover have "encode (molecule_value bond fs) = Inr (mol_enc m)"
    using m by (simp add: new_molecule_Inr)
  ultimately have "mol_enc m = b"
    using encode_canon [of 0 "molecule_value bond fs" "mol_enc m"] enc by (simp add: encode_def)
  then show "new_molecule (mol_bond m) (mol_fillers m) = Inr m \<and> (\<forall>f \<in> set (mol_fillers m). wf_filler f) \<and> mol_enc m = b"
    using m wf by (auto simp: new_molecule_Inr)
next
  assume "new_molecule (mol_bond m) (mol_fillers m) = Inr m \<and> (\<forall>f \<in> set (mol_fillers m). wf_filler f) \<and> mol_enc m = b"
  then have m: "new_molecule (mol_bond m) (mol_fillers m) = Inr m" and wf: "\<forall>f \<in> set (mol_fillers m). wf_filler f"
    and b: "encode (molecule_value (mol_bond m) (mol_fillers m)) = Inr b" and ne: "mol_fillers m \<noteq> []"
    by (auto simp: new_molecule_Inr)
  let ?arr = "map (\<lambda>f. canon (filler_value f)) (mol_fillers m)"
  have "encode (canon (molecule_value (mol_bond m) (mol_fillers m))) = Inr b"
    and "canonical (canon (molecule_value (mol_bond m) (mol_fillers m)))"
    using encode_canon b by (auto simp: encode_def)
  then have "decode_entity_map b [''bond'', ''fillers''] =
      Inr [(''bond'', Bytes (digest_bytes (mol_bond m))), (''fillers'', Array ?arr)]"
    using decode_entity_map_Inr [OF assms, of "[''bond'', ''fillers'']"] molecule_keys(1)
    by (simp add: molecule_canon del: canonical.simps)
  moreover have "fillers_from 0 ?arr = Inr (mol_fillers m)"
    using wf by (auto simp: fillers_from_Inr list_all2_map1 intro!: list.rel_refl_strong filler_parse_print)
  ultimately show "decode_molecule b = Inr m"
    using m ne by (simp add: decode_molecule_def digest_field_def)
qed

section \<open>Properties\<close>

text \<open>
  C38. \<open>DecodeMolecule\<close> accepts exactly the canonical encodings of the molecules
  \<open>NewMolecule\<close> builds from well-formed fillers: every filler payload, unit, timestamp and
  decimal in it has one encoding, and what is decoded is what was encoded.
\<close>

theorem molecule_decoding:
  assumes "small b"
  shows "decode_molecule b = Inr m \<longleftrightarrow> new_molecule (mol_bond m) (mol_fillers m) = Inr m \<and>
    (\<forall>f \<in> set (mol_fillers m). wf_filler f) \<and> mol_enc m = b"
  by (rule decode_molecule_Inr [OF assms])

definition sample_fillers :: "filler list" where
  "sample_fillers = [zero_filler\<lparr>ftype := filler_bond, fref := 7\<rparr>,
    zero_filler\<lparr>ftype := filler_scalar,
      fscalar := zero_scalar\<lparr>scalar_kind := Scalar_number_kind, number := Decimal (- 1) 15, has_unit := True, unit_digest := 9\<rparr>\<rparr>]"

lemma sample_fillers_valid: "list_all (\<lambda>f. validate_filler f = Inr ()) sample_fillers"
  by code_simp

lemma sample_fillers_wf: "\<forall>f \<in> set sample_fillers. wf_filler f"
  using sample_fillers_valid
  by (auto simp: sample_fillers_def list_all_iff wf_filler_def wf_scalar_def validate_filler_def zero_filler_def
      zero_scalar_def filler_tags type_valid_def)

theorem molecule_decoding_witness:
  "\<exists>m. mol_fillers m = sample_fillers \<and> decode_molecule (mol_enc m) = Inr m"
proof -
  have "case encode (molecule_value 3 sample_fillers) of Inr b \<Rightarrow> length b < 256 | Inl _ \<Rightarrow> False"
    by code_simp
  then obtain b where b: "encode (molecule_value 3 sample_fillers) = Inr b" and len: "length b < 256"
    by (auto split: sum.splits)
  from len have small: "small b" by (simp add: small_def)
  let ?m = "\<lparr>mol_bond = 3, mol_fillers = sample_fillers, mol_enc = b\<rparr>"
  have "new_molecule 3 sample_fillers = Inr ?m"
    using sample_fillers_valid b by (simp add: new_molecule_Inr list_all_iff) (simp add: sample_fillers_def)
  then show ?thesis
    using molecule_decoding [OF small, of ?m] sample_fillers_wf by (intro exI [of _ ?m]) simp
qed

text \<open>
  \<open>NewMolecule\<close> succeeds exactly on a non-empty list of valid fillers and cannot panic in
  the encoder; \<open>NewMoleculeFor\<close> adds exactly the check that the fillers are as many as the
  bond's variables, and its result passes \<open>ValidateAgainst\<close> that bond.
\<close>

theorem molecule_construction:
  "((\<exists>m. new_molecule bond fs = Inr m) \<longleftrightarrow> fs \<noteq> [] \<and> (\<forall>f \<in> set fs. validate_filler f = Inr ())) \<and>
   new_molecule bond fs \<noteq> Inl (Panic_encode e) \<and>
   (new_molecule_for sha x fs = Inr m \<longleftrightarrow>
      new_molecule (bond_digest sha x) fs = Inr m \<and> validate_against sha m x = Inr ())"
proof (intro conjI)
  show ex: "(\<exists>m. new_molecule bond fs = Inr m) \<longleftrightarrow> fs \<noteq> [] \<and> (\<forall>f \<in> set fs. validate_filler f = Inr ())"
  proof
    assume ok: "fs \<noteq> [] \<and> (\<forall>f \<in> set fs. validate_filler f = Inr ())"
    then obtain b where "encode (molecule_value bond fs) = Inr b" using molecule_encodes by blast
    with ok have "new_molecule bond fs = Inr \<lparr>mol_bond = bond, mol_fillers = fs, mol_enc = b\<rparr>"
      by (simp add: new_molecule_Inr)
    then show "\<exists>m. new_molecule bond fs = Inr m" ..
  qed (auto simp: new_molecule_Inr)
  have "validate_fillers i fs \<noteq> Inl (Panic_encode e)" for i
    by (induction fs arbitrary: i) (auto simp: bindE_eq_Inl mapErr_eq_Inl)
  then show "new_molecule bond fs \<noteq> Inl (Panic_encode e)"
    using ex by (auto simp: new_molecule_def bindE_eq_Inl validate_fillers_Inr split: if_splits)
  show "new_molecule_for sha x fs = Inr m \<longleftrightarrow>
      new_molecule (bond_digest sha x) fs = Inr m \<and> validate_against sha m x = Inr ()"
    by (auto simp: new_molecule_for_def validate_against_def new_molecule_Inr)
qed

theorem molecule_construction_witness: "\<exists>m. new_molecule 3 sample_fillers = Inr m"
proof -
  have "sample_fillers \<noteq> []" by (simp add: sample_fillers_def)
  moreover have "\<forall>f \<in> set sample_fillers. validate_filler f = Inr ()"
    using sample_fillers_valid by (simp add: list_all_iff)
  ultimately show ?thesis
    using molecule_construction [of 3 sample_fillers] by blast
qed

end
