(* ===== verification/Block_Op.thy ===== *)
theory Block_Op
  imports Molecule
begin

text \<open>
  The operations of a block (\<open>go/block/op.go\<close>) and the field readers they share with the block
  decoder (\<open>go/block/decode.go\<close>). An \<open>Operation\<close> is an interface with four implementations, so a
  datatype with four constructors; a key of 32 bytes is a 256-bit word read like a digest.
\<close>

type_synonym public_key = "256 word"

datatype form_error =
    Block_not_dcbor syntax_error
  | Block_not_map
  | Field_missing string
  | Field_unknown string
  | Field_count nat nat
  | Field_not_text string
  | Field_not_uint string
  | Field_not_bytes string
  | Field_not_array string
  | Field_size string nat
  | Field_digest string cid_error
  | Entry_not_bytes nat
  | Entry_digest nat cid_error
  | Repeated_ref nat nat digest
  | Op_not_map
  | Op_nameless
  | Op_name_not_text
  | Op_unknown string
  | Op_entity entity_error
  | Op_molecule_encode encode_error
  | Op_molecule entity_error
  | Op_at nat form_error
  | Rotate_key_size nat
  | Wrong_version uint64
  | Unknown_type string
  | Pub_size nat
  | Plaintext_enc
  | Plaintext_nonce
  | No_operations
  | Private_refs
  | Private_ts
  | Private_ops
  | Enc_missing
  | Enc_short nat
  | Nonce_size nat
  | Rotation_count nat
  | Rotation_other_op
  | Rotation_to_itself
  | Rotation_genesis
  | Misplaced_rotate nat
  | Private_key_size nat
  | Foreign_public_key
  | Signature_size nat
  | Signature_invalid "byte list"
  | Block_not_encodable encode_error
  | Not_canonical

section \<open>Operations\<close>

datatype entity_kind = Kind_atom | Kind_bond | Kind_molecule

text \<open>The position of a reference in its operation, the \<open>Field\<close> string of the error messages.\<close>

datatype position = Bond_field | Filler_field nat | Unit_field nat

record reference =
  ref_digest :: digest
  ref_kind :: entity_kind
  ref_field :: position

datatype operation =
    Create_atom atom
  | Create_bond bond
  | Create_molecule molecule
  | Rotate_key public_key

definition op_create_atom :: string where "op_create_atom = ''create_atom''"
definition op_create_bond :: string where "op_create_bond = ''create_bond''"
definition op_create_molecule :: string where "op_create_molecule = ''create_molecule''"
definition op_rotate_key :: string where "op_rotate_key = ''rotate_key''"

definition new_create_atom :: "string \<Rightarrow> entity_error + operation" where
  "new_create_atom description = bindE (new_atom description) (\<lambda>a. Inr (Create_atom a))"

definition new_create_bond :: "string \<Rightarrow> entity_error + operation" where
  "new_create_bond tmpl = bindE (new_bond tmpl) (\<lambda>b. Inr (Create_bond b))"

definition new_create_molecule :: "digest \<Rightarrow> filler list \<Rightarrow> entity_error + operation" where
  "new_create_molecule bond fs = bindE (new_molecule bond fs) (\<lambda>m. Inr (Create_molecule m))"

definition new_create_molecule_for ::
    "(byte list \<Rightarrow> digest) \<Rightarrow> bond \<Rightarrow> filler list \<Rightarrow> entity_error + operation" where
  "new_create_molecule_for sha b fs = bindE (new_molecule_for sha b fs) (\<lambda>m. Inr (Create_molecule m))"

definition public_key_size :: nat where "public_key_size = 32"

definition new_rotate_key :: "byte list \<Rightarrow> form_error + operation" where
  "new_rotate_key new_pub =
    (if length new_pub \<noteq> public_key_size then Inl (Rotate_key_size (length new_pub))
     else Inr (Rotate_key (digest_of_bytes new_pub)))"

fun op_name :: "operation \<Rightarrow> string" where
  "op_name (Create_atom a) = op_create_atom"
| "op_name (Create_bond b) = op_create_bond"
| "op_name (Create_molecule m) = op_create_molecule"
| "op_name (Rotate_key k) = op_rotate_key"

fun op_value :: "operation \<Rightarrow> cbor_value" where
  "op_value (Create_atom a) =
    Map [(''op'', Text op_create_atom), (''description'', Text (atom_description a))]"
| "op_value (Create_bond b) =
    Map [(''op'', Text op_create_bond), (''template'', Text (bond_template b))]"
| "op_value (Create_molecule m) =
    (case molecule_value (mol_bond m) (mol_fillers m) of
       Map es \<Rightarrow> Map ((''op'', Text op_create_molecule) # es)
     | v \<Rightarrow> v)"
| "op_value (Rotate_key k) =
    Map [(''op'', Text op_rotate_key), (''new_pub'', Bytes (digest_bytes k))]"

fun creates :: "(byte list \<Rightarrow> digest) \<Rightarrow> operation \<Rightarrow> (digest \<times> entity_kind) option" where
  "creates sha (Create_atom a) = Some (atom_digest sha a, Kind_atom)"
| "creates sha (Create_bond b) = Some (bond_digest sha b, Kind_bond)"
| "creates sha (Create_molecule m) = Some (molecule_digest sha m, Kind_molecule)"
| "creates sha (Rotate_key k) = None"

definition filler_kind :: "uint64 \<Rightarrow> entity_kind" where
  "filler_kind t =
    (if t = filler_bond then Kind_bond else if t = filler_molecule then Kind_molecule else Kind_atom)"

text \<open>The body of the loop over a molecule's fillers, then the whole \<open>References\<close>.\<close>

definition filler_references :: "nat \<Rightarrow> filler \<Rightarrow> reference list" where
  "filler_references i f =
    (if type_is_ref (ftype f) then
       [\<lparr>ref_digest = fref f, ref_kind = filler_kind (ftype f), ref_field = Filler_field i\<rparr>]
     else if ftype f = filler_scalar then
       (if has_unit (fscalar f)
        then [\<lparr>ref_digest = unit_digest (fscalar f), ref_kind = Kind_atom, ref_field = Unit_field i\<rparr>]
        else [])
     else [])"

fun filler_list_references :: "nat \<Rightarrow> filler list \<Rightarrow> reference list" where
  "filler_list_references i [] = []"
| "filler_list_references i (f # fs) = filler_references i f @ filler_list_references (i + 1) fs"

fun references :: "operation \<Rightarrow> reference list" where
  "references (Create_molecule m) =
    \<lparr>ref_digest = mol_bond m, ref_kind = Kind_bond, ref_field = Bond_field\<rparr> #
    filler_list_references 0 (mol_fillers m)"
| "references _ = []"

section \<open>Field readers\<close>

fun unknown_key :: "string list \<Rightarrow> cbor_map \<Rightarrow> string option" where
  "unknown_key keys [] = None"
| "unknown_key keys ((k, v) # m) = (if \<not> List.member keys k then Some k else unknown_key keys m)"

definition require_exact_keys :: "cbor_map \<Rightarrow> string list \<Rightarrow> form_error + unit" where
  "require_exact_keys m keys =
    (case missing_key m keys of
       Some k \<Rightarrow> Inl (Field_missing k)
     | None \<Rightarrow>
         if length m \<noteq> length keys then
           (case unknown_key keys m of
              Some k \<Rightarrow> Inl (Field_unknown k)
            | None \<Rightarrow> Inl (Field_count (length m) (length keys)))
         else Inr ())"

definition block_text_field :: "cbor_map \<Rightarrow> string \<Rightarrow> form_error + string" where
  "block_text_field m key =
    (case map_get m key of
       None \<Rightarrow> Inl (Field_missing key)
     | Some v \<Rightarrow> (case v of Text t \<Rightarrow> Inr t | _ \<Rightarrow> Inl (Field_not_text key)))"

definition uint_field :: "cbor_map \<Rightarrow> string \<Rightarrow> form_error + uint64" where
  "uint_field m key =
    (case map_get m key of
       None \<Rightarrow> Inl (Field_missing key)
     | Some v \<Rightarrow> (case v of Uint u \<Rightarrow> Inr u | _ \<Rightarrow> Inl (Field_not_uint key)))"

definition bytes_field :: "cbor_map \<Rightarrow> string \<Rightarrow> nat \<Rightarrow> form_error + byte list" where
  "bytes_field m key want =
    (case map_get m key of
       None \<Rightarrow> Inl (Field_missing key)
     | Some v \<Rightarrow>
         (case v of
            Bytes b \<Rightarrow> if length b \<noteq> want then Inl (Field_size key (length b)) else Inr b
          | _ \<Rightarrow> Inl (Field_not_bytes key)))"

section \<open>Decoding an operation\<close>

definition decode_operation :: "cbor_value \<Rightarrow> form_error + operation" where
  "decode_operation v =
    (case v of
       Map m \<Rightarrow>
         (case map_get m ''op'' of
            None \<Rightarrow> Inl Op_nameless
          | Some name_value \<Rightarrow>
              (case name_value of
                 Text name \<Rightarrow>
                   if name = op_create_atom then
                     bindE (require_exact_keys m [''op'', ''description'']) (\<lambda>_.
                     bindE (block_text_field m ''description'') (\<lambda>description.
                     mapErr Op_entity (new_create_atom description)))
                   else if name = op_create_bond then
                     bindE (require_exact_keys m [''op'', ''template'']) (\<lambda>_.
                     bindE (block_text_field m ''template'') (\<lambda>tmpl.
                     mapErr Op_entity (new_create_bond tmpl)))
                   else if name = op_create_molecule then
                     bindE (require_exact_keys m [''op'', ''bond'', ''fillers'']) (\<lambda>_.
                     bindE (mapErr Op_molecule_encode (encode
                       (Map [(''bond'', the (map_get m ''bond'')), (''fillers'', the (map_get m ''fillers''))])))
                       (\<lambda>encoded.
                     bindE (mapErr Op_molecule (decode_molecule encoded)) (\<lambda>mol.
                     Inr (Create_molecule mol))))
                   else if name = op_rotate_key then
                     bindE (require_exact_keys m [''op'', ''new_pub'']) (\<lambda>_.
                     bindE (bytes_field m ''new_pub'' public_key_size) new_rotate_key)
                   else Inl (Op_unknown name)
               | _ \<Rightarrow> Inl Op_name_not_text))
     | _ \<Rightarrow> Inl Op_not_map)"

section \<open>Facts about the readers\<close>

lemma require_exact_keys_Inr [simp]:
  "require_exact_keys m ks = Inr u \<longleftrightarrow> require_keys m ks = Inr ()"
  by (cases "missing_key m ks")
    (auto simp: require_exact_keys_def require_keys_def simp del: missing_key_None require_keys_Inr
      split: option.splits)

lemma block_text_field_Inr [simp]: "block_text_field m k = Inr t \<longleftrightarrow> map_get m k = Some (Text t)"
  by (auto simp: block_text_field_def split: option.splits cbor_value.splits)

lemma uint_field_Inr [simp]: "uint_field m k = Inr u \<longleftrightarrow> map_get m k = Some (Uint u)"
  by (auto simp: uint_field_def split: option.splits cbor_value.splits)

lemma bytes_field_Inr [simp]:
  "bytes_field m k n = Inr b \<longleftrightarrow> map_get m k = Some (Bytes b) \<and> length b = n"
  by (auto simp: bytes_field_def split: option.splits cbor_value.splits)

lemma new_rotate_key_Inr [simp]: "new_rotate_key b = Inr op \<longleftrightarrow> (\<exists>k. op = Rotate_key k \<and> b = digest_bytes k)"
  by (auto simp: new_rotate_key_def public_key_size_def)

section \<open>Maps in key order\<close>

text \<open>
  A map whose entries are some permutation of a list in strict key order: its canonical order
  is that list, and it encodes as the list does.
\<close>

lemma canon_keys:
  assumes "mset m = mset m'" and "sorted_wrt (<) (map (\<lambda>e. text_key (fst e)) m')"
  shows "canon (Map m) = Map (map canon_entry m')"
proof -
  let ?k = "\<lambda>e :: string \<times> cbor_value. text_key (fst e)"
  have "map ?k (map canon_entry m') = map ?k m'"
    by (simp add: canon_entry_def)
  then have s: "sorted_wrt (<) (map ?k (map canon_entry m'))" using assms(2) by (simp only:)
  then have so: "sorted (map ?k (map canon_entry m'))" and di: "distinct (map ?k (map canon_entry m'))"
    by (simp_all only: strict_iff_distinct)
  have m: "mset (map canon_entry m) = mset (map canon_entry m')"
    using assms(1) by simp
  have "inj_on ?k (set (map canon_entry m'))"
    using di by (simp only: distinct_map)
  then have "inj_on ?k (set (map canon_entry m))"
    using mset_eq_setD [OF m] by (simp only:)
  from sort_key_inj_key_eq [OF m this so]
  have "sort_key ?k (map canon_entry m) = map canon_entry m'" .
  then show ?thesis by (simp only: canon_Map)
qed

lemma encode_entries_total:
  "(\<exists>b. encode_entries level es = Inr b) \<longleftrightarrow> (\<forall>e \<in> set es. \<exists>b. encode_value level (snd (snd e)) = Inr b)"
proof (induction es)
  case (Cons e es)
  obtain kb k v where "e = (kb, k, v)" by (cases e)
  with Cons show ?case by (auto simp: bindE_eq_Inr)
qed simp

lemma encode_map_total:
  "(\<exists>b. encode_value depth (Map m) = Inr b) \<longleftrightarrow> depth < max_depth \<and> (\<forall>e \<in> set m. valid_text (fst e)) \<and>
    distinct (map (\<lambda>e. text_key (fst e)) m) \<and> (\<forall>e \<in> set m. \<exists>b. encode_value (Suc depth) (snd e) = Inr b)"
proof -
  have "(\<exists>b. encode_value depth (Map m) = Inr b) \<longleftrightarrow> depth < max_depth \<and>
      (\<exists>es. sorted_entries m = Inr es \<and> (\<exists>b. encode_entries (Suc depth) es = Inr b))"
    by (auto simp: enter_def bindE_eq_Inr split: if_splits)
  also have "\<dots> \<longleftrightarrow> depth < max_depth \<and> (\<forall>e \<in> set m. valid_text (fst e)) \<and>
    distinct (map (\<lambda>e. text_key (fst e)) m) \<and> (\<forall>e \<in> set m. \<exists>b. encode_value (Suc depth) (snd e) = Inr b)"
    by (auto simp: encode_entries_total sorted_entries_iff set_entries_of)
  finally show ?thesis .
qed

lemma encode_items_member:
  "encode_items level vs = Inr b \<Longrightarrow> v \<in> set vs \<Longrightarrow> \<exists>c. encode_value level v = Inr c \<and> length c \<le> length b"
  by (induction vs arbitrary: b) (fastforce simp: bindE_eq_Inr)+

lemma encode_entries_member:
  "encode_entries level es = Inr b \<Longrightarrow> e \<in> set es \<Longrightarrow>
    \<exists>c. encode_value level (snd (snd e)) = Inr c \<and> length c \<le> length b"
proof (induction es arbitrary: b)
  case (Cons a es)
  obtain kb k v where "a = (kb, k, v)" by (cases a)
  with Cons show ?case by (fastforce simp: bindE_eq_Inr)
qed simp

lemma encode_map_member:
  assumes "encode_value depth (Map m) = Inr b" and "e \<in> set m"
  shows "\<exists>c. encode_value (Suc depth) (snd e) = Inr c \<and> length c \<le> length b"
proof -
  from assms(1) obtain es body where s: "sorted_entries m = Inr es"
    and b: "encode_entries (Suc depth) es = Inr body" "length body \<le> length b"
    by (auto simp: bindE_eq_Inr enter_def split: if_splits)
  have "(text_key (fst e), fst e, snd e) \<in> set es"
    using s assms(2) by (auto simp: sorted_entries_iff set_entries_of)
  from encode_entries_member [OF b(1) this] b(2) show ?thesis by auto
qed

lemma encode_array_member:
  assumes "encode_value depth (Array vs) = Inr b" and "v \<in> set vs"
  shows "\<exists>c. encode_value (Suc depth) v = Inr c \<and> length c \<le> length b"
  using assms encode_items_member by (fastforce simp: bindE_eq_Inr enter_def split: if_splits)

text \<open>The nesting depth only limits what can be encoded: it does not change the bytes.\<close>

lemma enter_Inr: "enter depth = Inr level \<longleftrightarrow> level = Suc depth \<and> depth < max_depth"
  by (auto simp: enter_def)

lemma encode_int_depth: "encode_value depth (int_value i) = encode_value depth' (int_value i)"
  by (simp add: int_value_def)

lemma encode_shallower_all:
  "encode_value depth v = Inr b \<Longrightarrow> depth' \<le> depth \<Longrightarrow> encode_value depth' v = Inr b"
  "encode_items depth vs = Inr b \<Longrightarrow> depth' \<le> depth \<Longrightarrow> encode_items depth' vs = Inr b"
  "encode_entries depth es = Inr b \<Longrightarrow> depth' \<le> depth \<Longrightarrow> encode_entries depth' es = Inr b"
proof (induction depth v and depth vs and depth es arbitrary: b depth' and b depth' and b depth'
    rule: encode_value_encode_items_encode_entries.induct)
  case (3 depth e m)
  from "3.prems"(1) obtain u eb mb where c: "check_canonical e m = Inr u" and d: "depth < max_depth"
    and e: "encode_value (Suc depth) (int_value e) = Inr eb"
    and m: "encode_value (Suc depth) (int_value m) = Inr mb"
    and b: "b = write_head 6 4 @ write_head 4 2 @ eb @ mb"
    unfolding encode_value.simps bindE_eq_Inr enter_Inr mapErr_eq_Inr sum.inject by blast
  have "enter depth' = Inr (Suc depth')" using d "3.prems"(2) by (simp add: enter_Inr)
  moreover have "encode_value (Suc depth') (int_value e) = Inr eb" "encode_value (Suc depth') (int_value m) = Inr mb"
    using e m encode_int_depth by metis+
  ultimately show ?case by (simp only: encode_value.simps c b mapErr_Inr bindE_Inr)
next
  case (6 depth vs)
  from "6.prems"(1) obtain body where d: "depth < max_depth" and e: "encode_items (Suc depth) vs = Inr body"
    and b: "b = write_head 4 (word_of_nat (length vs)) @ body"
    unfolding encode_value.simps bindE_eq_Inr enter_Inr sum.inject by blast
  have "encode_items (Suc depth') vs = Inr body"
    using "6.IH" [of "Suc depth" body "Suc depth'"] d e "6.prems" by (simp add: enter_Inr)
  then show ?case using d "6.prems"(2) by (simp add: b enter_def)
next
  case (7 depth m)
  from "7.prems"(1) obtain es body where d: "depth < max_depth" and s: "sorted_entries m = Inr es"
    and e: "encode_entries (Suc depth) es = Inr body" and b: "b = write_head 5 (word_of_nat (length es)) @ body"
    unfolding encode_value.simps bindE_eq_Inr enter_Inr sum.inject by blast
  have "encode_entries (Suc depth') es = Inr body"
    using "7.IH" [of "Suc depth" es body "Suc depth'"] d s e "7.prems" by (simp add: enter_Inr)
  then show ?case using d s "7.prems"(2) by (simp add: b enter_def)
next
  case (11 level v vs)
  from "11.prems"(1) obtain x y where x: "encode_value level v = Inr x" and y: "encode_items level vs = Inr y"
    and b: "b = x @ y" by (auto simp: bindE_eq_Inr)
  from "11.IH"(1) [OF x "11.prems"(2)] "11.IH"(2) [OF x y "11.prems"(2)] show ?case by (simp add: b)
next
  case (13 level kb k v es)
  from "13.prems"(1) obtain x y where x: "encode_value level v = Inr x" and y: "encode_entries level es = Inr y"
    and b: "b = kb @ x @ y" by (auto simp: bindE_eq_Inr)
  from "13.IH"(1) [OF x "13.prems"(2)] "13.IH"(2) [OF x y "13.prems"(2)] show ?case by (simp add: b)
qed auto

lemmas encode_shallower = encode_shallower_all(1)

section \<open>Operations and their values\<close>

text \<open>
  The operations the constructors build. The zero value of an exported operation type, such as
  \<open>CreateAtom{}\<close>, is not one of them.
\<close>

fun wf_op :: "operation \<Rightarrow> bool" where
  "wf_op (Create_atom a) \<longleftrightarrow> new_atom (atom_description a) = Inr a"
| "wf_op (Create_bond b) \<longleftrightarrow> new_bond (bond_template b) = Inr b"
| "wf_op (Create_molecule m) \<longleftrightarrow>
    new_molecule (mol_bond m) (mol_fillers m) = Inr m \<and> (\<forall>f \<in> set (mol_fillers m). wf_filler f)"
| "wf_op (Rotate_key k) \<longleftrightarrow> True"

lemmas op_names = op_create_atom_def op_create_bond_def op_create_molecule_def op_rotate_key_def

lemma op_key_order:
  "text_key ''op'' < text_key ''description''" "text_key ''op'' < text_key ''template''"
  "text_key ''op'' < text_key ''bond''" "text_key ''op'' < text_key ''fillers''"
  "text_key ''bond'' < text_key ''fillers''" "text_key ''op'' < text_key ''new_pub''"
  by code_simp+

lemma op_key_valid:
  "valid_text ''op''" "valid_text ''description''" "valid_text ''template''" "valid_text ''bond''"
  "valid_text ''fillers''" "valid_text ''new_pub''"
  by code_simp+

lemma op_name_valid:
  "valid_text op_create_atom" "valid_text op_create_bond" "valid_text op_create_molecule" "valid_text op_rotate_key"
  by code_simp+

lemma op_canon:
  "canon (op_value (Create_atom a)) =
    Map [(''op'', Text op_create_atom), (''description'', Text (atom_description a))]"
  "canon (op_value (Create_bond b)) =
    Map [(''op'', Text op_create_bond), (''template'', Text (bond_template b))]"
  "canon (op_value (Create_molecule m)) =
    Map [(''op'', Text op_create_molecule), (''bond'', Bytes (digest_bytes (mol_bond m))),
      (''fillers'', Array (map (\<lambda>f. canon (filler_value f)) (mol_fillers m)))]"
  "canon (op_value (Rotate_key k)) =
    Map [(''op'', Text op_rotate_key), (''new_pub'', Bytes (digest_bytes k))]"
  using op_key_order
  by (simp_all add: molecule_value_def canon_keys [OF refl] canon_entry_def comp_def del: canon.simps(2))

lemma molecule_entries:
  assumes "encode_value depth (Map [(''op'', a), (''bond'', x), (''fillers'', y)]) = Inr c"
  shows "\<exists>e. encode (Map [(''bond'', x), (''fillers'', y)]) = Inr e \<and> length e \<le> length c"
proof -
  have s3: "sorted_entries [(''op'', a), (''bond'', x), (''fillers'', y)] =
      Inr [(text_key ''op'', ''op'', a), (text_key ''bond'', ''bond'', x), (text_key ''fillers'', ''fillers'', y)]"
    and s2: "sorted_entries [(''bond'', x), (''fillers'', y)] =
      Inr [(text_key ''bond'', ''bond'', x), (text_key ''fillers'', ''fillers'', y)]"
    using op_key_order op_key_valid by (auto simp: sorted_entries_iff entries_of_def)
  from assms obtain ab xb yb where x: "encode_value (Suc depth) x = Inr xb"
    and y: "encode_value (Suc depth) y = Inr yb"
    and c: "c = write_head 5 (word_of_nat 3) @ text_key ''op'' @ ab @ text_key ''bond'' @ xb @ text_key ''fillers'' @ yb"
    by (auto simp: bindE_eq_Inr enter_Inr s3)
  have "encode_value 1 x = Inr xb" and "encode_value 1 y = Inr yb"
    using encode_shallower [OF x, of 1] encode_shallower [OF y, of 1] by simp_all
  then have "encode (Map [(''bond'', x), (''fillers'', y)]) =
      Inr (write_head 5 (word_of_nat 2) @ text_key ''bond'' @ xb @ text_key ''fillers'' @ yb)"
    by (simp add: encode_def enter_def max_depth_def s2)
  moreover have "length (write_head 5 (word_of_nat 2)) = length (write_head 5 (word_of_nat 3))"
    by (simp add: write_head_def)
  ultimately show ?thesis by (simp add: c)
qed

lemma molecule_op_small:
  assumes "encode_value depth (canon (op_value (Create_molecule m))) = Inr c" and "small c"
    and "wf_op (Create_molecule m)"
  shows "encode (Map [(''bond'', Bytes (digest_bytes (mol_bond m))),
      (''fillers'', Array (map (\<lambda>f. canon (filler_value f)) (mol_fillers m)))]) = Inr (mol_enc m) \<and>
    small (mol_enc m)"
proof -
  from molecule_entries [OF assms(1) [unfolded op_canon]] obtain e
    where e: "encode (Map [(''bond'', Bytes (digest_bytes (mol_bond m))),
      (''fillers'', Array (map (\<lambda>f. canon (filler_value f)) (mol_fillers m)))]) = Inr e" "length e \<le> length c"
    by blast
  have "encode (molecule_value (mol_bond m) (mol_fillers m)) = Inr (mol_enc m)"
    using assms(3) by (simp add: new_molecule_Inr)
  then have "encode (canon (molecule_value (mol_bond m) (mol_fillers m))) = Inr (mol_enc m)"
    using encode_canon by (simp add: encode_def)
  then have "e = mol_enc m" using e(1) by (simp add: molecule_canon)
  then show ?thesis using e assms(2) by (simp add: small_def)
qed

lemma op_parse_print:
  assumes "wf_op op" and "encode_value depth (canon (op_value op)) = Inr c" and "small c"
  shows "decode_operation (canon (op_value op)) = Inr op"
proof (cases op)
  case (Create_atom a)
  then show ?thesis
    using assms(1) by (simp add: op_canon decode_operation_def new_create_atom_def bindE_eq_Inr)
next
  case (Create_bond b)
  then show ?thesis
    using assms(1) by (simp add: op_canon decode_operation_def op_names new_create_bond_def bindE_eq_Inr)
next
  case (Create_molecule m)
  note e = molecule_op_small [OF assms(2,3,1) [unfolded Create_molecule]]
  then have "decode_molecule (mol_enc m) = Inr m"
    using assms(1) decode_molecule_Inr by (simp add: Create_molecule new_molecule_Inr)
  then show ?thesis
    using e unfolding Create_molecule op_canon by (simp add: decode_operation_def op_names bindE_eq_Inr)
next
  case (Rotate_key k)
  then show ?thesis
    by (simp add: op_canon decode_operation_def op_names bindE_eq_Inr public_key_size_def)
qed

lemma decode_operation_cases:
  assumes "decode_operation v = Inr op"
  obtains (atom) m d a where "v = Map m" "map_get m ''op'' = Some (Text op_create_atom)"
      "require_keys m [''op'', ''description''] = Inr ()" "map_get m ''description'' = Some (Text d)"
      "new_atom d = Inr a" "op = Create_atom a"
    | (bond) m t b where "v = Map m" "map_get m ''op'' = Some (Text op_create_bond)"
      "require_keys m [''op'', ''template''] = Inr ()" "map_get m ''template'' = Some (Text t)"
      "new_bond t = Inr b" "op = Create_bond b"
    | (molecule) m e mol where "v = Map m" "map_get m ''op'' = Some (Text op_create_molecule)"
      "require_keys m [''op'', ''bond'', ''fillers''] = Inr ()"
      "encode (Map [(''bond'', the (map_get m ''bond'')), (''fillers'', the (map_get m ''fillers''))]) = Inr e"
      "decode_molecule e = Inr mol" "op = Create_molecule mol"
    | (rotate) m k where "v = Map m" "map_get m ''op'' = Some (Text op_rotate_key)"
      "require_keys m [''op'', ''new_pub''] = Inr ()" "map_get m ''new_pub'' = Some (Bytes (digest_bytes k))"
      "op = Rotate_key k"
proof -
  obtain m where v: "v = Map m"
    using assms by (cases v) (simp_all add: decode_operation_def)
  obtain w where w: "map_get m ''op'' = Some w"
    using assms by (cases "map_get m ''op''") (simp_all add: v decode_operation_def)
  obtain name where name: "w = Text name"
    using assms by (cases w) (simp_all add: v w decode_operation_def)
  note d = assms [unfolded v decode_operation_def cbor_value.case w option.case name]
  consider "name = op_create_atom" | "name = op_create_bond" | "name = op_create_molecule"
    | "name = op_rotate_key"
    using d by (auto split: if_splits)
  then show thesis
  proof cases
    case 1
    then show thesis using d v w name that(1)
      by (auto simp: bindE_eq_Inr new_create_atom_def op_names simp del: require_keys_Inr)
  next
    case 2
    then show thesis using d v w name that(2)
      by (auto simp: bindE_eq_Inr new_create_bond_def op_names simp del: require_keys_Inr)
  next
    case 3
    then show thesis using d v w name that(3)
      by (auto simp: bindE_eq_Inr op_names simp del: require_keys_Inr)
  next
    case 4
    then show thesis using d v w name that(4)
      by (auto simp: bindE_eq_Inr op_names simp del: require_keys_Inr)
  qed
qed

lemma op_print_parse:
  assumes "canonical v" and "decode_operation v = Inr op" and "encode_value depth v = Inr c" and "small c"
  shows "wf_op op \<and> canon (op_value op) = v"
  using assms(2)
proof (cases rule: decode_operation_cases)
  case (atom m d a)
  have "m = [(''op'', Text op_create_atom), (''description'', Text d)]"
    using canonical_keys [OF assms(1) [unfolded atom(1)] atom(3)] op_key_order by (simp add: atom)
  then show ?thesis using atom by (simp only: op_canon) (auto simp: new_atom_Inr)
next
  case (bond m t b)
  have "m = [(''op'', Text op_create_bond), (''template'', Text t)]"
    using canonical_keys [OF assms(1) [unfolded bond(1)] bond(3)] op_key_order by (simp add: bond)
  then show ?thesis using bond by (simp only: op_canon) (auto simp: new_bond_Inr)
next
  case (molecule m e mol)
  let ?x = "the (map_get m ''bond'')" and ?y = "the (map_get m ''fillers'')"
  have m: "m = [(''op'', Text op_create_molecule), (''bond'', ?x), (''fillers'', ?y)]"
    using canonical_keys [OF assms(1) [unfolded molecule(1)] molecule(3)] op_key_order by (simp add: molecule)
  then have v: "v = Map [(''op'', Text op_create_molecule), (''bond'', ?x), (''fillers'', ?y)]"
    using molecule(1) by simp
  have "length e \<le> length c"
    using molecule_entries [OF assms(3) [unfolded v]] molecule(4) by auto
  then have small: "small e" using assms(4) by (simp add: small_def)
  have mol: "new_molecule (mol_bond mol) (mol_fillers mol) = Inr mol"
      "\<forall>f \<in> set (mol_fillers mol). wf_filler f" "mol_enc mol = e"
    using molecule(5) by (simp_all add: decode_molecule_Inr [OF small])
  have "canonical (Map [(''bond'', ?x), (''fillers'', ?y)])"
    using assms(1) op_key_order(5) by (simp add: v)
  then have "decode e = Inr (Map [(''bond'', ?x), (''fillers'', ?y)])"
    using small molecule(4) by (simp add: decode_iff small_def del: canonical.simps)
  moreover have "decode e = Inr (canon (molecule_value (mol_bond mol) (mol_fillers mol)))"
    using mol small by (intro dcbor.dec_enc) (simp_all add: new_molecule_Inr)
  ultimately have "Map [(''bond'', ?x), (''fillers'', ?y)] =
      Map [(''bond'', Bytes (digest_bytes (mol_bond mol))),
        (''fillers'', Array (map (\<lambda>f. canon (filler_value f)) (mol_fillers mol)))]"
    by (simp only: molecule_canon sum.inject)
  then show ?thesis
    using mol molecule(6) by (simp only: op_canon v) simp
next
  case (rotate m k)
  have "m = [(''op'', Text op_rotate_key), (''new_pub'', Bytes (digest_bytes k))]"
    using canonical_keys [OF assms(1) [unfolded rotate(1)] rotate(3)] op_key_order by (simp add: rotate)
  then show ?thesis using rotate by (simp only: op_canon) simp
qed

lemma op_key_distinct:
  "text_key ''op'' \<noteq> text_key ''description''" "text_key ''op'' \<noteq> text_key ''template''"
  "text_key ''op'' \<noteq> text_key ''bond''" "text_key ''op'' \<noteq> text_key ''fillers''"
  "text_key ''bond'' \<noteq> text_key ''fillers''" "text_key ''op'' \<noteq> text_key ''new_pub''"
  using op_key_order by auto

lemma two_fields_encode:
  assumes "depth < 32" and "valid_text k1" "valid_text k2" and "text_key k1 \<noteq> text_key k2"
    and "\<exists>b. encode_value (Suc depth) v = Inr b" and "\<exists>b. encode_value (Suc depth) w = Inr b"
  shows "\<exists>b. encode_value depth (Map [(k1, v), (k2, w)]) = Inr b"
  using assms unfolding encode_map_total by (simp add: max_depth_def)

lemma op_encodes:
  assumes "wf_op op" and "depth < 32"
  shows "\<exists>b. encode_value depth (op_value op) = Inr b"
proof (cases op)
  case (Create_atom a)
  then have "valid_text (atom_description a)" using assms by (simp add: new_atom_Inr valid_text_def)
  then show ?thesis
    unfolding Create_atom op_value.simps
    by (intro two_fields_encode assms op_key_valid op_key_distinct) (simp_all add: op_name_valid)
next
  case (Create_bond b)
  then have "valid_text (bond_template b)" using assms by (simp add: new_bond_Inr valid_text_def)
  then show ?thesis
    unfolding Create_bond op_value.simps
    by (intro two_fields_encode assms op_key_valid op_key_distinct) (simp_all add: op_name_valid)
next
  case (Create_molecule m)
  have "\<exists>b. encode_items (Suc (Suc depth)) (map filler_value (mol_fillers m)) = Inr b"
    using assms Create_molecule filler_encodes [where depth = "Suc (Suc depth)"]
    by (intro encode_items_total) (auto simp: max_depth_def new_molecule_Inr)
  then have a: "\<exists>b. encode_value (Suc depth) (Array (map filler_value (mol_fillers m))) = Inr b"
    using assms(2) by (auto simp: enter_def max_depth_def)
  show ?thesis
    unfolding Create_molecule op_value.simps molecule_value_def cbor_value.case encode_map_total
    using a assms(2) by (simp add: op_key_valid op_key_distinct op_name_valid max_depth_def)
next
  case (Rotate_key k)
  show ?thesis
    unfolding Rotate_key op_value.simps
    by (intro two_fields_encode assms op_key_valid op_key_distinct) (simp_all add: op_name_valid)
qed

end
