(* ===== verification/Block.thy ===== *)
theory Block
  imports Block_Op
begin

text \<open>
  Signed blocks (\<open>go/block/block.go\<close>, \<open>payload.go\<close>, \<open>decode.go\<close>): the content a signature
  covers, its structural rules, the signing input, the three constructors \<open>Sign\<close>, \<open>Assemble\<close>
  and \<open>Decode\<close>, and the payload of a private block. A slice that may be nil is an option;
  SHA-256 and Ed25519 are the fields of the parameter \<open>cr\<close>. The public half of an Ed25519
  private key is its last 32 bytes, as \<open>crypto/ed25519\<close> lays it out.
\<close>

record crypto =
  sha256 :: "byte list \<Rightarrow> digest"
  ed_sign :: "byte list \<Rightarrow> byte list \<Rightarrow> byte list"
  ed_verify :: "byte list \<Rightarrow> byte list \<Rightarrow> byte list \<Rightarrow> bool"

definition protocol_version :: uint64 where "protocol_version = 1"
definition domain_separator :: "byte list" where "domain_separator = bytes_of ''dialog-v1-block''"
definition signature_size :: nat where "signature_size = 64"
definition private_key_size :: nat where "private_key_size = 64"
definition nonce_size :: nat where "nonce_size = 24"
definition min_enc_size :: nat where "min_enc_size = 16"

definition type_public :: string where "type_public = ''public''"
definition type_private :: string where "type_private = ''private''"
definition type_rotation :: string where "type_rotation = ''rotation''"

definition block_type_valid :: "string \<Rightarrow> bool" where
  "block_type_valid t \<longleftrightarrow> t = type_public \<or> t = type_private \<or> t = type_rotation"

definition has_plaintext_payload :: "string \<Rightarrow> bool" where
  "has_plaintext_payload t \<longleftrightarrow> t = type_public \<or> t = type_rotation"

record content =
  c_version :: uint64
  c_type :: string
  c_pub :: "byte list option"
  c_prev :: "digest option"
  c_refs :: "digest list option"
  c_ts :: uint64
  c_ops :: "operation list option"
  c_enc :: "byte list option"
  c_nonce :: "byte list option"

text \<open>The elements of a slice: none of a nil one.\<close>

definition items :: "'a list option \<Rightarrow> 'a list" where
  "items s = (case s of None \<Rightarrow> [] | Some xs \<Rightarrow> xs)"

lemma items_simps [simp]: "items None = []" "items (Some xs) = xs"
  by (simp_all add: items_def)

section \<open>Payloads\<close>

record payload =
  p_refs :: "digest list"
  p_ts :: uint64
  p_ops :: "operation list"

fun unique_from :: "nat \<Rightarrow> (digest \<Rightarrow> nat option) \<Rightarrow> digest list \<Rightarrow> form_error + unit" where
  "unique_from i seen [] = Inr ()"
| "unique_from i seen (d # ds) =
    (case seen d of
       Some first \<Rightarrow> Inl (Repeated_ref first i d)
     | None \<Rightarrow> unique_from (i + 1) (seen(d \<mapsto> i)) ds)"

definition unique_refs :: "digest list \<Rightarrow> form_error + unit" where
  "unique_refs refs = unique_from 0 (\<lambda>_. None) refs"

definition is_rotate_key :: "operation \<Rightarrow> bool" where
  "is_rotate_key op = (case op of Rotate_key k \<Rightarrow> True | _ \<Rightarrow> False)"

text \<open>The loop that refuses a \<open>rotate_key\<close> operation outside a rotation block.\<close>

fun no_rotate_key :: "nat \<Rightarrow> operation list \<Rightarrow> form_error + unit" where
  "no_rotate_key i [] = Inr ()"
| "no_rotate_key i (op # ops) =
    (if is_rotate_key op then Inl (Misplaced_rotate i) else no_rotate_key (i + 1) ops)"

definition validate_payload_form :: "payload \<Rightarrow> form_error + unit" where
  "validate_payload_form p =
    bindE (unique_refs (p_refs p)) (\<lambda>_.
    if p_ops p = [] then Inl No_operations else no_rotate_key 0 (p_ops p))"

definition payload_entries :: "payload \<Rightarrow> cbor_map" where
  "payload_entries p =
    [(''refs'', Array (map (\<lambda>r. Bytes (digest_bytes r)) (p_refs p))),
     (''ts'', Uint (p_ts p)),
     (''ops'', Array (map op_value (p_ops p)))]"

definition payload_value :: "payload \<Rightarrow> cbor_value" where
  "payload_value p = Map (payload_entries p)"

definition encode_payload :: "payload \<Rightarrow> form_error + byte list" where
  "encode_payload p =
    bindE (validate_payload_form p) (\<lambda>_. mapErr Block_not_encodable (encode (payload_value p)))"

section \<open>The structural rules of a content\<close>

definition validate_plain :: "content \<Rightarrow> form_error + unit" where
  "validate_plain c =
    (if c_enc c \<noteq> None then Inl Plaintext_enc
     else if c_nonce c \<noteq> None then Inl Plaintext_nonce
     else bindE (unique_refs (items (c_refs c))) (\<lambda>_.
       if items (c_ops c) = [] then Inl No_operations else Inr ()))"

definition validate_cipher :: "content \<Rightarrow> form_error + unit" where
  "validate_cipher c =
    (if c_refs c \<noteq> None then Inl Private_refs
     else if c_ts c \<noteq> 0 then Inl Private_ts
     else if c_ops c \<noteq> None then Inl Private_ops
     else if c_enc c = None then Inl Enc_missing
     else if length (items (c_enc c)) < min_enc_size then Inl (Enc_short (length (items (c_enc c))))
     else if length (items (c_nonce c)) \<noteq> nonce_size then Inl (Nonce_size (length (items (c_nonce c))))
     else Inr ())"

definition validate_rotation :: "content \<Rightarrow> form_error + unit" where
  "validate_rotation c =
    (case items (c_ops c) of
       [Rotate_key new_pub] \<Rightarrow>
         if digest_bytes new_pub = items (c_pub c) then Inl Rotation_to_itself
         else if c_prev c = None then Inl Rotation_genesis
         else Inr ()
     | [_] \<Rightarrow> Inl Rotation_other_op
     | ops \<Rightarrow> Inl (Rotation_count (length ops)))"

definition validate_content :: "content \<Rightarrow> form_error + unit" where
  "validate_content c =
    (if c_version c \<noteq> protocol_version then Inl (Wrong_version (c_version c))
     else if \<not> block_type_valid (c_type c) then Inl (Unknown_type (c_type c))
     else if length (items (c_pub c)) \<noteq> public_key_size then Inl (Pub_size (length (items (c_pub c))))
     else bindE (if has_plaintext_payload (c_type c) then validate_plain c else validate_cipher c) (\<lambda>_.
       if c_type c = type_rotation then validate_rotation c
       else no_rotate_key 0 (items (c_ops c))))"

section \<open>The signing input\<close>

definition prev_value :: "digest option \<Rightarrow> cbor_value" where
  "prev_value prev = (case prev of None \<Rightarrow> Null | Some d \<Rightarrow> Bytes (digest_bytes d))"

definition signing_entries :: "content \<Rightarrow> cbor_map" where
  "signing_entries c =
    [(''v'', Uint (c_version c)), (''type'', Text (c_type c)), (''pub'', Bytes (items (c_pub c))),
     (''prev'', prev_value (c_prev c))] @
    (if has_plaintext_payload (c_type c)
     then payload_entries \<lparr>p_refs = items (c_refs c), p_ts = c_ts c, p_ops = items (c_ops c)\<rparr>
     else [(''enc'', Bytes (items (c_enc c))), (''nonce'', Bytes (items (c_nonce c)))])"

definition signing_value :: "content \<Rightarrow> form_error + cbor_value" where
  "signing_value c = bindE (validate_content c) (\<lambda>_. Inr (Map (signing_entries c)))"

definition signing_bytes :: "content \<Rightarrow> form_error + byte list" where
  "signing_bytes c = bindE (signing_value c) (\<lambda>v. mapErr Block_not_encodable (encode v))"

definition signing_input :: "content \<Rightarrow> form_error + byte list" where
  "signing_input c = bindE (signing_bytes c) (\<lambda>b. Inr (domain_separator @ b))"

section \<open>Blocks\<close>

record block =
  blk_content :: content
  blk_sig :: "byte list"
  blk_enc :: "byte list"

definition assemble :: "crypto \<Rightarrow> content \<Rightarrow> byte list \<Rightarrow> form_error + block" where
  "assemble cr c sig =
    bindE (validate_content c) (\<lambda>_.
    if length sig \<noteq> signature_size then Inl (Signature_size (length sig))
    else bindE (signing_input c) (\<lambda>input.
      if \<not> ed_verify cr (items (c_pub c)) input sig then Inl (Signature_invalid (items (c_pub c)))
      else bindE (mapErr Block_not_encodable (encode (Map (signing_entries c @ [(''sig'', Bytes sig)])))) (\<lambda>enc.
        Inr \<lparr>blk_content = c, blk_sig = sig, blk_enc = enc\<rparr>)))"

definition public_half :: "byte list \<Rightarrow> byte list" where
  "public_half priv = drop 32 priv"

definition sign :: "crypto \<Rightarrow> content \<Rightarrow> byte list \<Rightarrow> form_error + block" where
  "sign cr c priv =
    (if length priv \<noteq> private_key_size then Inl (Private_key_size (length priv))
     else let pub = public_half priv in
       bindE (case c_pub c of
           None \<Rightarrow> Inr (c\<lparr>c_pub := Some pub\<rparr>)
         | Some p \<Rightarrow> if p \<noteq> pub then Inl Foreign_public_key else Inr c) (\<lambda>c'.
       bindE (signing_input c') (\<lambda>input.
       assemble cr c' (ed_sign cr priv input))))"

definition block_digest :: "crypto \<Rightarrow> block \<Rightarrow> digest" where
  "block_digest cr b = sum_digest (sha256 cr) (blk_enc b)"

definition block_verify :: "crypto \<Rightarrow> block \<Rightarrow> form_error + unit" where
  "block_verify cr b =
    bindE (signing_input (blk_content b)) (\<lambda>input.
    if \<not> ed_verify cr (items (c_pub (blk_content b))) input (blk_sig b)
    then Inl (Signature_invalid (items (c_pub (blk_content b)))) else Inr ())"

definition same_author :: "block \<Rightarrow> block \<Rightarrow> bool" where
  "same_author a b \<longleftrightarrow> items (c_pub (blk_content a)) = items (c_pub (blk_content b))"

definition is_genesis :: "block \<Rightarrow> bool" where
  "is_genesis b \<longleftrightarrow> c_prev (blk_content b) = None"

text \<open>The single operation of a rotation block. A block of that type has one.\<close>

definition block_rotate_key :: "block \<Rightarrow> public_key option" where
  "block_rotate_key b =
    (if c_type (blk_content b) \<noteq> type_rotation then None
     else case items (c_ops (blk_content b)) of Rotate_key k # _ \<Rightarrow> Some k | _ \<Rightarrow> None)"

section \<open>Decoding\<close>

definition prev_field :: "cbor_map \<Rightarrow> form_error + digest option" where
  "prev_field m =
    (case map_get m ''prev'' of
       None \<Rightarrow> Inl (Field_missing ''prev'')
     | Some v \<Rightarrow>
         (case v of
            Null \<Rightarrow> Inr None
          | Bytes b \<Rightarrow> bindE (mapErr (Field_digest ''prev'') (parse_digest b)) (\<lambda>d. Inr (Some d))
          | _ \<Rightarrow> Inl (Field_not_bytes ''prev'')))"

fun ref_entries :: "nat \<Rightarrow> cbor_value list \<Rightarrow> form_error + digest list" where
  "ref_entries i [] = Inr []"
| "ref_entries i (v # vs) =
    (case v of
       Bytes b \<Rightarrow>
         bindE (mapErr (Entry_digest i) (parse_digest b)) (\<lambda>d.
         bindE (ref_entries (i + 1) vs) (\<lambda>ds. Inr (d # ds)))
     | _ \<Rightarrow> Inl (Entry_not_bytes i))"

definition refs_field :: "cbor_map \<Rightarrow> form_error + digest list" where
  "refs_field m =
    (case map_get m ''refs'' of
       Some (Array arr) \<Rightarrow>
         bindE (ref_entries 0 arr) (\<lambda>refs.
         bindE (unique_refs refs) (\<lambda>_. Inr refs))
     | _ \<Rightarrow> Inl (Field_not_array ''refs''))"

fun op_entries :: "nat \<Rightarrow> cbor_value list \<Rightarrow> form_error + operation list" where
  "op_entries i [] = Inr []"
| "op_entries i (v # vs) =
    bindE (mapErr (Op_at i) (decode_operation v)) (\<lambda>op.
    bindE (op_entries (i + 1) vs) (\<lambda>ops. Inr (op # ops)))"

definition ops_field :: "cbor_map \<Rightarrow> form_error + operation list" where
  "ops_field m =
    (case map_get m ''ops'' of
       Some (Array arr) \<Rightarrow> if arr = [] then Inl No_operations else op_entries 0 arr
     | _ \<Rightarrow> Inl (Field_not_array ''ops''))"

definition enc_field :: "cbor_map \<Rightarrow> form_error + byte list" where
  "enc_field m =
    (case map_get m ''enc'' of Some (Bytes b) \<Rightarrow> Inr b | _ \<Rightarrow> Inl (Field_not_bytes ''enc''))"

definition block_keys :: "string \<Rightarrow> string list" where
  "block_keys t =
    (if t = type_private then [''v'', ''type'', ''pub'', ''sig'', ''prev'', ''enc'', ''nonce'']
     else [''v'', ''type'', ''pub'', ''sig'', ''prev'', ''refs'', ''ts'', ''ops''])"

text \<open>The fields that depend on the block's type, read into the content's.\<close>

definition type_fields :: "cbor_map \<Rightarrow> content \<Rightarrow> form_error + content" where
  "type_fields m c =
    (if c_type c = type_private then
       bindE (enc_field m) (\<lambda>enc.
       bindE (bytes_field m ''nonce'' nonce_size) (\<lambda>nonce.
       Inr (c\<lparr>c_enc := Some enc, c_nonce := Some nonce\<rparr>)))
     else
       bindE (refs_field m) (\<lambda>refs.
       bindE (uint_field m ''ts'') (\<lambda>ts.
       bindE (ops_field m) (\<lambda>ops.
       Inr (c\<lparr>c_refs := Some refs, c_ts := ts, c_ops := Some ops\<rparr>)))))"

definition block_map :: "byte list \<Rightarrow> form_error + cbor_map" where
  "block_map b =
    bindE (mapErr Block_not_dcbor (decode b)) (\<lambda>v.
    case v of Map m \<Rightarrow> Inr m | _ \<Rightarrow> Inl Block_not_map)"

definition decode_block :: "crypto \<Rightarrow> byte list \<Rightarrow> form_error + block" where
  "decode_block cr b =
    bindE (block_map b) (\<lambda>m.
    bindE (uint_field m ''v'') (\<lambda>ver.
    if ver \<noteq> protocol_version then Inl (Wrong_version ver)
    else bindE (block_text_field m ''type'') (\<lambda>t.
    if \<not> block_type_valid t then Inl (Unknown_type t)
    else bindE (require_exact_keys m (block_keys t)) (\<lambda>_.
    bindE (bytes_field m ''pub'' public_key_size) (\<lambda>pub.
    bindE (bytes_field m ''sig'' signature_size) (\<lambda>sig.
    bindE (prev_field m) (\<lambda>prev.
    bindE (type_fields m \<lparr>c_version = ver, c_type = t, c_pub = Some pub, c_prev = prev, c_refs = None,
        c_ts = 0, c_ops = None, c_enc = None, c_nonce = None\<rparr>) (\<lambda>c.
    bindE (assemble cr c sig) (\<lambda>blk.
    if blk_enc blk \<noteq> b then Inl Not_canonical else Inr blk)))))))))"

definition decode_payload :: "byte list \<Rightarrow> form_error + payload" where
  "decode_payload b =
    bindE (block_map b) (\<lambda>m.
    bindE (require_exact_keys m [''refs'', ''ts'', ''ops'']) (\<lambda>_.
    bindE (refs_field m) (\<lambda>refs.
    bindE (uint_field m ''ts'') (\<lambda>ts.
    bindE (ops_field m) (\<lambda>ops.
    let p = \<lparr>p_refs = refs, p_ts = ts, p_ops = ops\<rparr> in
    bindE (validate_payload_form p) (\<lambda>_.
    bindE (encode_payload p) (\<lambda>encoded.
    if encoded \<noteq> b then Inl Not_canonical else Inr p)))))))"

section \<open>Facts about the checks\<close>

lemma unique_from_Inr:
  "unique_from i seen ds = Inr u \<longleftrightarrow> distinct ds \<and> (\<forall>d \<in> set ds. seen d = None)"
proof (induction ds arbitrary: i seen)
  case (Cons d ds)
  then show ?case by (cases "seen d") auto
qed simp

lemma unique_refs_Inr [simp]: "unique_refs ds = Inr u \<longleftrightarrow> distinct ds"
  by (simp add: unique_refs_def unique_from_Inr)

lemma no_rotate_key_Inr [simp]: "no_rotate_key i ops = Inr u \<longleftrightarrow> (\<forall>op \<in> set ops. \<not> is_rotate_key op)"
  by (induction i ops rule: no_rotate_key.induct) auto

lemma type_names: "type_public \<noteq> type_private" "type_public \<noteq> type_rotation" "type_private \<noteq> type_rotation"
  by code_simp+

lemma plaintext_iff: "block_type_valid t \<Longrightarrow> has_plaintext_payload t \<longleftrightarrow> t \<noteq> type_private"
  using type_names by (auto simp: block_type_valid_def has_plaintext_payload_def)

lemma plaintext_types [simp]:
  "has_plaintext_payload type_public" "has_plaintext_payload type_rotation" "\<not> has_plaintext_payload type_private"
  using type_names by (auto simp: has_plaintext_payload_def)

lemma validate_payload_form_Inr:
  "validate_payload_form p = Inr u \<longleftrightarrow>
    distinct (p_refs p) \<and> p_ops p \<noteq> [] \<and> (\<forall>op \<in> set (p_ops p). \<not> is_rotate_key op)"
  by (auto simp: validate_payload_form_def bindE_eq_Inr)

lemma validate_plain_Inr:
  "validate_plain c = Inr u \<longleftrightarrow>
    c_enc c = None \<and> c_nonce c = None \<and> distinct (items (c_refs c)) \<and> items (c_ops c) \<noteq> []"
  by (auto simp: validate_plain_def bindE_eq_Inr)

lemma validate_cipher_Inr:
  "validate_cipher c = Inr u \<longleftrightarrow> c_refs c = None \<and> c_ts c = 0 \<and> c_ops c = None \<and>
    (\<exists>enc. c_enc c = Some enc \<and> min_enc_size \<le> length enc) \<and>
    (\<exists>nonce. c_nonce c = Some nonce \<and> length nonce = nonce_size)"
proof -
  have "length (items (c_nonce c)) = nonce_size \<longleftrightarrow> (\<exists>nonce. c_nonce c = Some nonce \<and> length nonce = nonce_size)"
    by (cases "c_nonce c") (auto simp: nonce_size_def)
  then show ?thesis by (cases "c_enc c") (auto simp: validate_cipher_def)
qed

lemma validate_rotation_Inr:
  "validate_rotation c = Inr u \<longleftrightarrow>
    (\<exists>k. items (c_ops c) = [Rotate_key k] \<and> digest_bytes k \<noteq> items (c_pub c)) \<and> c_prev c \<noteq> None"
  by (auto simp: validate_rotation_def split: list.splits operation.splits)

lemma validate_content_Inr:
  "validate_content c = Inr u \<longleftrightarrow>
    c_version c = protocol_version \<and> block_type_valid (c_type c) \<and> length (items (c_pub c)) = public_key_size \<and>
    (if c_type c = type_private then validate_cipher c = Inr () else validate_plain c = Inr ()) \<and>
    (if c_type c = type_rotation then validate_rotation c = Inr ()
     else \<forall>op \<in> set (items (c_ops c)). \<not> is_rotate_key op)"
  using plaintext_iff [of "c_type c"] by (auto simp: validate_content_def bindE_eq_Inr)

lemma signing_input_Inr:
  "signing_input c = Inr i \<longleftrightarrow> validate_content c = Inr () \<and>
    (\<exists>b. encode (Map (signing_entries c)) = Inr b \<and> i = domain_separator @ b)"
  by (auto simp: signing_input_def signing_bytes_def signing_value_def bindE_eq_Inr)

lemma assemble_Inr:
  "assemble cr c sig = Inr blk \<longleftrightarrow>
    blk_content blk = c \<and> blk_sig blk = sig \<and> length sig = signature_size \<and> validate_content c = Inr () \<and>
    (\<exists>i. signing_input c = Inr i \<and> ed_verify cr (items (c_pub c)) i sig) \<and>
    encode (Map (signing_entries c @ [(''sig'', Bytes sig)])) = Inr (blk_enc blk)"
  by (cases blk) (auto simp: assemble_def bindE_eq_Inr)

lemma prev_field_Inr:
  "prev_field m = Inr p \<longleftrightarrow> map_get m ''prev'' = Some (prev_value p)"
proof (cases "map_get m ''prev''")
  case (Some v)
  then show ?thesis
    by (cases v; cases p) (auto simp: prev_field_def prev_value_def bindE_eq_Inr parse_digest_iff)
qed (simp add: prev_field_def)

lemma ref_entries_Inr: "ref_entries i vs = Inr ds \<longleftrightarrow> vs = map (\<lambda>d. Bytes (digest_bytes d)) ds"
proof (induction vs arbitrary: i ds)
  case (Cons v vs)
  then show ?case
    by (cases v; cases ds) (auto simp: bindE_eq_Inr parse_digest_iff)
qed auto

lemma array_field: "(case x of Some (Array arr) \<Rightarrow> f arr | _ \<Rightarrow> Inl e) = Inr y \<longleftrightarrow> (\<exists>arr. x = Some (Array arr) \<and> f arr = Inr y)"
proof (cases x)
  case (Some v)
  then show ?thesis by (cases v) auto
qed simp

lemma refs_field_Inr:
  "refs_field m = Inr ds \<longleftrightarrow>
    map_get m ''refs'' = Some (Array (map (\<lambda>d. Bytes (digest_bytes d)) ds)) \<and> distinct ds"
  by (auto simp: refs_field_def array_field bindE_eq_Inr ref_entries_Inr)

lemma op_entries_Inr: "op_entries i vs = Inr ops \<longleftrightarrow> list_all2 (\<lambda>v op. decode_operation v = Inr op) vs ops"
  by (induction vs arbitrary: i ops) (auto simp: bindE_eq_Inr list_all2_Cons1)

lemma ops_field_Inr:
  "ops_field m = Inr ops \<longleftrightarrow> (\<exists>arr. map_get m ''ops'' = Some (Array arr) \<and> arr \<noteq> [] \<and>
    list_all2 (\<lambda>v op. decode_operation v = Inr op) arr ops)"
  by (auto simp: ops_field_def array_field op_entries_Inr)

lemma enc_field_Inr: "enc_field m = Inr b \<longleftrightarrow> map_get m ''enc'' = Some (Bytes b)"
proof (cases "map_get m ''enc''")
  case (Some v)
  then show ?thesis by (cases v) (auto simp: enc_field_def)
qed (simp add: enc_field_def)

section \<open>Blocks as maps\<close>

lemma encode_in_order:
  assumes "sorted_wrt (<) (map (\<lambda>e. text_key (fst e)) m)" and "list_all (\<lambda>e. valid_text (fst e)) m" and "depth < max_depth"
  shows "encode_value depth (Map m) =
    bindE (encode_entries (Suc depth) (map (\<lambda>(k, v). (text_key k, k, v)) m)) (\<lambda>body. Inr (write_head 5 (word_of_nat (length m)) @ body))"
proof -
  have "sort_key fst (map (\<lambda>(k, v). (text_key k, k, v)) m) = map (\<lambda>(k, v). (text_key k, k, v)) m"
    using assms(1) by (intro sort_key_id_if_sorted) (auto simp: strict_sorted_iff comp_def case_prod_unfold)
  then have "sorted_entries m = Inr (map (\<lambda>(k, v). (text_key k, k, v)) m)"
    using assms(1,2) unfolding sorted_entries_iff
    by (auto simp: entries_of_def strict_sorted_iff list_all_iff)
  then show ?thesis using assms(3) by (simp add: enter_def)
qed

lemma block_key_order:
  "sorted_wrt (<) (map text_key [''v'', ''ts'', ''ops'', ''pub'', ''sig'', ''prev'', ''refs'', ''type''])"
  "sorted_wrt (<) (map text_key [''v'', ''enc'', ''pub'', ''sig'', ''prev'', ''type'', ''nonce''])"
  "sorted_wrt (<) (map text_key [''ts'', ''ops'', ''refs''])"
  by code_simp+

lemma block_key_valid:
  "list_all valid_text [''v'', ''ts'', ''ops'', ''pub'', ''sig'', ''prev'', ''refs'', ''type'', ''enc'', ''nonce'']"
  by code_simp

text \<open>The entries of a complete block, in the order their keys have when encoded.\<close>

definition block_entries :: "content \<Rightarrow> byte list \<Rightarrow> cbor_map" where
  "block_entries c sig =
    (if c_type c = type_private then
       [(''v'', Uint (c_version c)), (''enc'', Bytes (items (c_enc c))), (''pub'', Bytes (items (c_pub c))),
        (''sig'', Bytes sig), (''prev'', prev_value (c_prev c)), (''type'', Text (c_type c)),
        (''nonce'', Bytes (items (c_nonce c)))]
     else
       [(''v'', Uint (c_version c)), (''ts'', Uint (c_ts c)),
        (''ops'', Array (map (\<lambda>op. canon (op_value op)) (items (c_ops c)))),
        (''pub'', Bytes (items (c_pub c))), (''sig'', Bytes sig), (''prev'', prev_value (c_prev c)),
        (''refs'', Array (map (\<lambda>d. Bytes (digest_bytes d)) (items (c_refs c)))), (''type'', Text (c_type c))])"

lemma canon_prev_value [simp]: "canon (prev_value p) = prev_value p"
  by (cases p) (simp_all add: prev_value_def)

lemma block_canon:
  assumes "block_type_valid (c_type c)"
  shows "canon (Map (signing_entries c @ [(''sig'', Bytes sig)])) = Map (block_entries c sig)"
proof (cases "c_type c = type_private")
  case True
  let ?m = "[(''v'', Uint (c_version c)), (''enc'', Bytes (items (c_enc c))), (''pub'', Bytes (items (c_pub c))),
        (''sig'', Bytes sig), (''prev'', prev_value (c_prev c)), (''type'', Text (c_type c)),
        (''nonce'', Bytes (items (c_nonce c)))]"
  have "mset (signing_entries c @ [(''sig'', Bytes sig)]) = mset ?m"
    using True by (simp add: signing_entries_def)
  moreover have "sorted_wrt (<) (map (\<lambda>e. text_key (fst e)) ?m)"
    using block_key_order(2) by simp
  ultimately have "canon (Map (signing_entries c @ [(''sig'', Bytes sig)])) = Map (map canon_entry ?m)"
    by (rule canon_keys)
  then show ?thesis using True by (simp add: block_entries_def canon_entry_def)
next
  case False
  let ?m = "[(''v'', Uint (c_version c)), (''ts'', Uint (c_ts c)),
        (''ops'', Array (map op_value (items (c_ops c)))),
        (''pub'', Bytes (items (c_pub c))), (''sig'', Bytes sig), (''prev'', prev_value (c_prev c)),
        (''refs'', Array (map (\<lambda>d. Bytes (digest_bytes d)) (items (c_refs c)))), (''type'', Text (c_type c))]"
  have "mset (signing_entries c @ [(''sig'', Bytes sig)]) = mset ?m"
    using False assms by (simp add: signing_entries_def plaintext_iff payload_entries_def)
  moreover have "sorted_wrt (<) (map (\<lambda>e. text_key (fst e)) ?m)"
    using block_key_order(1) by simp
  ultimately have "canon (Map (signing_entries c @ [(''sig'', Bytes sig)])) = Map (map canon_entry ?m)"
    by (rule canon_keys)
  then show ?thesis using False by (simp add: block_entries_def canon_entry_def comp_def)
qed

section \<open>Operation arrays\<close>

lemma ops_print_parse:
  assumes "canonical (Array arr)" and "encode_value depth (Array arr) = Inr c" and "small c"
    and "list_all2 (\<lambda>v op. decode_operation v = Inr op) arr ops"
  shows "(\<forall>op \<in> set ops. wf_op op) \<and> map (\<lambda>op. canon (op_value op)) ops = arr"
proof -
  have len: "length arr = length ops" using assms(4) by (rule list_all2_lengthD)
  have each: "wf_op (ops ! i) \<and> canon (op_value (ops ! i)) = arr ! i" if "i < length ops" for i
  proof -
    have m: "arr ! i \<in> set arr" using that len by simp
    from encode_array_member [OF assms(2) this] obtain b
      where b: "encode_value (Suc depth) (arr ! i) = Inr b" "length b \<le> length c" by blast
    have "canonical (arr ! i)" using assms(1) m by simp
    moreover have "decode_operation (arr ! i) = Inr (ops ! i)"
      using assms(4) that len by (simp add: list_all2_conv_all_nth)
    moreover have "small b" using b(2) assms(3) by (simp add: small_def)
    ultimately show ?thesis using op_print_parse b(1) by blast
  qed
  have "\<forall>op \<in> set ops. wf_op op" using each by (metis in_set_conv_nth)
  moreover have "map (\<lambda>op. canon (op_value op)) ops = arr"
    using each len by (intro nth_equalityI) simp_all
  ultimately show ?thesis by blast
qed

lemma ops_parse_print:
  assumes "\<forall>op \<in> set ops. wf_op op"
    and "encode_value depth (Array (map (\<lambda>op. canon (op_value op)) ops)) = Inr c" and "small c"
  shows "list_all2 (\<lambda>v op. decode_operation v = Inr op) (map (\<lambda>op. canon (op_value op)) ops) ops"
proof -
  have "decode_operation (canon (op_value op)) = Inr op" if "op \<in> set ops" for op
  proof -
    have "canon (op_value op) \<in> set (map (\<lambda>op. canon (op_value op)) ops)" using that by simp
    from encode_array_member [OF assms(2) this] obtain b
      where b: "encode_value (Suc depth) (canon (op_value op)) = Inr b" "length b \<le> length c" by blast
    then have "small b" using assms(3) by (simp add: small_def)
    with b(1) show ?thesis using assms(1) that op_parse_print by blast
  qed
  then show ?thesis by (simp add: list_all2_map1 list.rel_refl_strong)
qed

lemma list_map_encodes:
  assumes "\<And>x. x \<in> set xs \<Longrightarrow> \<exists>b. encode_value (Suc depth) (f x) = Inr b" and "depth < max_depth"
  shows "\<exists>b. encode_value depth (Array (map f xs)) = Inr b"
proof -
  have "\<exists>b. encode_items (Suc depth) (map f xs) = Inr b"
    using assms(1) by (intro encode_items_total) auto
  then show ?thesis using assms(2) by (auto simp: enter_def)
qed

section \<open>Encoding a content never fails\<close>

lemma field_keys_distinct:
  "distinct (map text_key [''v'', ''ts'', ''ops'', ''pub'', ''sig'', ''prev'', ''refs'', ''type''])"
  "distinct (map text_key [''v'', ''enc'', ''pub'', ''sig'', ''prev'', ''type'', ''nonce''])"
  "distinct (map text_key [''ts'', ''ops'', ''refs''])"
  using block_key_order unfolding strict_sorted_iff by blast+

lemma prev_value_encodes: "\<exists>b. encode_value depth (prev_value p) = Inr b"
  by (cases p) (simp_all add: prev_value_def)

lemma type_text: "block_type_valid t \<Longrightarrow> valid_text t"
proof -
  have "valid_text type_public" "valid_text type_private" "valid_text type_rotation" by code_simp+
  then show "block_type_valid t \<Longrightarrow> valid_text t" by (auto simp: block_type_valid_def)
qed

text \<open>An operation that can be encoded inside the operations array of a block or payload.\<close>

definition op_encodable :: "operation \<Rightarrow> bool" where
  "op_encodable op \<longleftrightarrow> (\<exists>b. encode_value (Suc (Suc 0)) (op_value op) = Inr b)"

lemma wf_op_encodable: "wf_op op \<Longrightarrow> op_encodable op"
  using op_encodes [of op "Suc (Suc 0)"] by (simp add: op_encodable_def)

lemma payload_entries_encode:
  assumes "\<forall>op \<in> set (p_ops p). op_encodable op" and "e \<in> set (payload_entries p)"
  shows "valid_text (fst e) \<and> (\<exists>b. encode_value 1 (snd e) = Inr b)"
proof -
  have "\<exists>b. encode_value 1 (Array (map op_value (p_ops p))) = Inr b"
    using assms(1) by (intro list_map_encodes) (auto simp: max_depth_def op_encodable_def)
  moreover have "\<exists>b. encode_value 1 (Array (map (\<lambda>d. Bytes (digest_bytes d)) (p_refs p))) = Inr b"
    by (intro list_map_encodes) (auto simp: max_depth_def)
  ultimately show ?thesis
    using assms(2) block_key_valid
    by (auto simp: payload_entries_def simp del: encode_value.simps(6))
qed

lemma signing_entries_encode:
  assumes "block_type_valid (c_type c)" and "\<forall>op \<in> set (items (c_ops c)). op_encodable op"
    and "e \<in> set (signing_entries c)"
  shows "valid_text (fst e) \<and> (\<exists>b. encode_value 1 (snd e) = Inr b)"
proof -
  have "e \<in> set [(''v'', Uint (c_version c)), (''type'', Text (c_type c)), (''pub'', Bytes (items (c_pub c))),
      (''prev'', prev_value (c_prev c)), (''enc'', Bytes (items (c_enc c))), (''nonce'', Bytes (items (c_nonce c)))] \<or>
    e \<in> set (payload_entries \<lparr>p_refs = items (c_refs c), p_ts = c_ts c, p_ops = items (c_ops c)\<rparr>)"
    using assms(3) by (auto simp: signing_entries_def split: if_splits)
  then show ?thesis
  proof
    assume "e \<in> set (payload_entries \<lparr>p_refs = items (c_refs c), p_ts = c_ts c, p_ops = items (c_ops c)\<rparr>)"
    from payload_entries_encode [OF _ this] assms(2) show ?thesis by simp
  qed (use block_key_valid prev_value_encodes type_text [OF assms(1)] in auto)
qed

lemma content_encodes:
  assumes "block_type_valid (c_type c)" and "\<forall>op \<in> set (items (c_ops c)). op_encodable op"
  shows "\<exists>b. encode (Map (signing_entries c)) = Inr b"
    and "\<exists>b. encode (Map (signing_entries c @ [(''sig'', Bytes sig)])) = Inr b"
proof -
  have d: "distinct (map (\<lambda>e. text_key (fst e)) (signing_entries c @ [(''sig'', Bytes sig)]))"
    using field_keys_distinct plaintext_iff [OF assms(1)]
    by (auto simp: signing_entries_def payload_entries_def)
  show "\<exists>b. encode (Map (signing_entries c)) = Inr b"
    unfolding encode_def encode_map_total
    using d signing_entries_encode [OF assms] by (simp add: max_depth_def)
  show "\<exists>b. encode (Map (signing_entries c @ [(''sig'', Bytes sig)])) = Inr b"
    unfolding encode_def encode_map_total
    using d signing_entries_encode [OF assms] block_key_valid by (auto simp: max_depth_def)
qed

lemma payload_encodes:
  assumes "\<forall>op \<in> set (p_ops p). op_encodable op"
  shows "\<exists>b. encode (payload_value p) = Inr b"
  unfolding encode_def payload_value_def encode_map_total
  using payload_entries_encode [OF assms] field_keys_distinct(3)
  by (auto simp: max_depth_def payload_entries_def)

section \<open>Decoding blocks\<close>

text \<open>What the decoder makes of a content: no nil refs in the clear, operations the constructors build.\<close>

definition normal_content :: "content \<Rightarrow> bool" where
  "normal_content c \<longleftrightarrow> (c_type c \<noteq> type_private \<longrightarrow> c_refs c \<noteq> None) \<and> (\<forall>op \<in> set (items (c_ops c)). wf_op op)"

definition parsed_content :: "cbor_map \<Rightarrow> content \<Rightarrow> byte list \<Rightarrow> bool" where
  "parsed_content m c sig \<longleftrightarrow>
    map_get m ''v'' = Some (Uint (c_version c)) \<and> c_version c = protocol_version \<and>
    map_get m ''type'' = Some (Text (c_type c)) \<and> block_type_valid (c_type c) \<and>
    require_keys m (block_keys (c_type c)) = Inr () \<and>
    map_get m ''pub'' = Some (Bytes (items (c_pub c))) \<and> length (items (c_pub c)) = public_key_size \<and> c_pub c \<noteq> None \<and>
    map_get m ''sig'' = Some (Bytes sig) \<and> length sig = signature_size \<and>
    map_get m ''prev'' = Some (prev_value (c_prev c)) \<and>
    (if c_type c = type_private then
       map_get m ''enc'' = Some (Bytes (items (c_enc c))) \<and> c_enc c \<noteq> None \<and>
       map_get m ''nonce'' = Some (Bytes (items (c_nonce c))) \<and> length (items (c_nonce c)) = nonce_size \<and> c_nonce c \<noteq> None \<and>
       c_refs c = None \<and> c_ts c = 0 \<and> c_ops c = None
     else
       map_get m ''refs'' = Some (Array (map (\<lambda>d. Bytes (digest_bytes d)) (items (c_refs c)))) \<and>
       distinct (items (c_refs c)) \<and> c_refs c \<noteq> None \<and> map_get m ''ts'' = Some (Uint (c_ts c)) \<and>
       (\<exists>arr. map_get m ''ops'' = Some (Array arr) \<and> arr \<noteq> [] \<and>
          list_all2 (\<lambda>v op. decode_operation v = Inr op) arr (items (c_ops c))) \<and> c_ops c \<noteq> None \<and>
       c_enc c = None \<and> c_nonce c = None)"

lemma block_map_Inr: "block_map b = Inr m \<longleftrightarrow> decode b = Inr (Map m)"
proof -
  have "(case v of Map m \<Rightarrow> Inr m | _ \<Rightarrow> Inl Block_not_map) = Inr m \<longleftrightarrow> v = Map m" for v
    by (cases v) auto
  then show ?thesis by (auto simp: block_map_def bindE_eq_Inr)
qed

definition bare_content :: "uint64 \<Rightarrow> string \<Rightarrow> byte list \<Rightarrow> digest option \<Rightarrow> content" where
  "bare_content ver t pub prev = \<lparr>c_version = ver, c_type = t, c_pub = Some pub, c_prev = prev, c_refs = None,
        c_ts = 0, c_ops = None, c_enc = None, c_nonce = None\<rparr>"

lemma guard_Inr: "(if p then Inl e else x) = Inr y \<longleftrightarrow> \<not> p \<and> x = Inr y"
  by simp

lemma decode_block_stages:
  "decode_block cr b = Inr blk \<longleftrightarrow>
    (\<exists>m t pub sig prev c. decode b = Inr (Map m) \<and> map_get m ''v'' = Some (Uint protocol_version) \<and>
      map_get m ''type'' = Some (Text t) \<and> block_type_valid t \<and> require_keys m (block_keys t) = Inr () \<and>
      map_get m ''pub'' = Some (Bytes pub) \<and> length pub = public_key_size \<and>
      map_get m ''sig'' = Some (Bytes sig) \<and> length sig = signature_size \<and>
      map_get m ''prev'' = Some (prev_value prev) \<and>
      type_fields m (bare_content protocol_version t pub prev) = Inr c \<and>
      assemble cr c sig = Inr blk \<and> blk_enc blk = b)"
  unfolding decode_block_def bare_content_def [symmetric] bindE_eq_Inr guard_Inr block_map_Inr
    require_exact_keys_Inr block_text_field_Inr uint_field_Inr bytes_field_Inr prev_field_Inr not_not
    sum.inject by blast

lemma type_fields_Inr:
  "type_fields m (bare_content ver t pub prev) = Inr c \<and> map_get m ''v'' = Some (Uint ver) \<and> ver = protocol_version \<and>
    map_get m ''type'' = Some (Text t) \<and> block_type_valid t \<and> require_keys m (block_keys t) = Inr () \<and>
    map_get m ''pub'' = Some (Bytes pub) \<and> length pub = public_key_size \<and>
    map_get m ''sig'' = Some (Bytes sig) \<and> length sig = signature_size \<and>
    map_get m ''prev'' = Some (prev_value prev) \<longleftrightarrow>
    parsed_content m c sig \<and> ver = c_version c \<and> t = c_type c \<and> pub = items (c_pub c) \<and> prev = c_prev c"
  (is "?l \<longleftrightarrow> ?r")
proof (cases "t = type_private")
  case True
  have "?l \<Longrightarrow> ?r"
    by (auto simp: True type_fields_def bare_content_def bindE_eq_Inr enc_field_Inr parsed_content_def)
  moreover have ?l if r: ?r
  proof -
    obtain pub' refs ts ops enc nonce where c: "c = \<lparr>c_version = ver, c_type = t, c_pub = pub', c_prev = prev,
      c_refs = refs, c_ts = ts, c_ops = ops, c_enc = enc, c_nonce = nonce\<rparr>"
      using r by (cases c) auto
    show ?thesis
      using r by (auto simp: c True type_fields_def bare_content_def bindE_eq_Inr enc_field_Inr parsed_content_def)
  qed
  ultimately show ?thesis by blast
next
  case False
  have "?l \<Longrightarrow> ?r"
    using False by (auto simp: type_fields_def bare_content_def bindE_eq_Inr refs_field_Inr ops_field_Inr parsed_content_def)
  moreover have ?l if r: ?r
  proof -
    obtain pub' refs ts ops enc nonce where c: "c = \<lparr>c_version = ver, c_type = t, c_pub = pub', c_prev = prev,
      c_refs = refs, c_ts = ts, c_ops = ops, c_enc = enc, c_nonce = nonce\<rparr>"
      using r by (cases c) auto
    show ?thesis
      using r False by (auto simp: c type_fields_def bare_content_def bindE_eq_Inr refs_field_Inr ops_field_Inr parsed_content_def)
  qed
  ultimately show ?thesis by blast
qed

lemma decode_block_Inr:
  "decode_block cr b = Inr blk \<longleftrightarrow>
    (\<exists>m. decode b = Inr (Map m) \<and> parsed_content m (blk_content blk) (blk_sig blk)) \<and>
    assemble cr (blk_content blk) (blk_sig blk) = Inr blk \<and> blk_enc blk = b"
proof
  assume "decode_block cr b = Inr blk"
  then obtain m t pub sig prev c where d: "decode b = Inr (Map m)"
    and p: "type_fields m (bare_content protocol_version t pub prev) = Inr c \<and> map_get m ''v'' = Some (Uint protocol_version) \<and>
      protocol_version = protocol_version \<and>
      map_get m ''type'' = Some (Text t) \<and> block_type_valid t \<and> require_keys m (block_keys t) = Inr () \<and>
      map_get m ''pub'' = Some (Bytes pub) \<and> length pub = public_key_size \<and>
      map_get m ''sig'' = Some (Bytes sig) \<and> length sig = signature_size \<and>
      map_get m ''prev'' = Some (prev_value prev)"
    and a: "assemble cr c sig = Inr blk" "blk_enc blk = b"
    unfolding decode_block_stages by blast
  from a(1) have "blk_content blk = c" "blk_sig blk = sig" by (simp_all add: assemble_Inr)
  with d a p [unfolded type_fields_Inr] show "(\<exists>m. decode b = Inr (Map m) \<and> parsed_content m (blk_content blk) (blk_sig blk)) \<and>
    assemble cr (blk_content blk) (blk_sig blk) = Inr blk \<and> blk_enc blk = b"
    by blast
next
  assume "(\<exists>m. decode b = Inr (Map m) \<and> parsed_content m (blk_content blk) (blk_sig blk)) \<and>
    assemble cr (blk_content blk) (blk_sig blk) = Inr blk \<and> blk_enc blk = b"
  then obtain m where d: "decode b = Inr (Map m)" and p: "parsed_content m (blk_content blk) (blk_sig blk)"
    and a: "assemble cr (blk_content blk) (blk_sig blk) = Inr blk" "blk_enc blk = b" by blast
  have v: "c_version (blk_content blk) = protocol_version" using p by (simp add: parsed_content_def)
  from p v have "parsed_content m (blk_content blk) (blk_sig blk) \<and> protocol_version = c_version (blk_content blk) \<and>
      c_type (blk_content blk) = c_type (blk_content blk) \<and> items (c_pub (blk_content blk)) = items (c_pub (blk_content blk)) \<and>
      c_prev (blk_content blk) = c_prev (blk_content blk)" by simp
  from this [folded type_fields_Inr] d a show "decode_block cr b = Inr blk"
    unfolding decode_block_stages by blast
qed

lemma map_get_member: "map_get m k = Some v \<Longrightarrow> (k, v) \<in> set m"
  by (simp add: map_get_map_of map_of_SomeD)

lemma valid_content_pub: "validate_content c = Inr () \<Longrightarrow> c_pub c \<noteq> None"
  by (cases "c_pub c") (auto simp: validate_content_Inr public_key_size_def)

lemma items_not_None: "items x \<noteq> [] \<Longrightarrow> x \<noteq> None"
  by (cases x) auto

lemma block_entries_parsed:
  assumes "validate_content c = Inr ()" and "length sig = signature_size" and "normal_content c"
    and "encode (Map (block_entries c sig)) = Inr b" and "small b"
  shows "parsed_content (block_entries c sig) c sig"
proof (cases "c_type c = type_private")
  case True
  note v = assms(1) [unfolded validate_content_Inr validate_cipher_Inr]
  from v True obtain enc nonce where "c_enc c = Some enc" "c_nonce c = Some nonce" by auto
  then show ?thesis
    using v True assms(2) valid_content_pub [OF assms(1)] by (simp add: parsed_content_def block_entries_def block_keys_def)
next
  case False
  note v = assms(1) [unfolded validate_content_Inr validate_plain_Inr]
  let ?arr = "map (\<lambda>op. canon (op_value op)) (items (c_ops c))"
  have "(''ops'', Array ?arr) \<in> set (block_entries c sig)"
    using False by (simp add: block_entries_def)
  from encode_map_member [OF assms(4) [unfolded encode_def] this]
  obtain x where x: "encode_value (Suc 0) (Array ?arr) = Inr x" "length x \<le> length b" by auto
  have "small x" using x(2) assms(5) by (simp add: small_def)
  with x(1) have "list_all2 (\<lambda>v op. decode_operation v = Inr op) ?arr (items (c_ops c))"
    using assms(3) by (intro ops_parse_print) (simp_all add: normal_content_def)
  moreover have "c_pub c \<noteq> None" "c_ops c \<noteq> None" "items (c_ops c) \<noteq> []" "c_refs c \<noteq> None"
    using v False assms(3) valid_content_pub [OF assms(1)] items_not_None [of "c_ops c"] by (simp_all add: normal_content_def)
  ultimately show ?thesis
    using v False assms(2) by (simp add: parsed_content_def block_entries_def block_keys_def)
qed

lemma parsed_normal:
  assumes "canonical (Map m)" and "encode (Map m) = Inr b" and "small b" and "parsed_content m c sig"
  shows "normal_content c"
proof (cases "c_type c = type_private")
  case True
  then show ?thesis using assms(4) by (auto simp: parsed_content_def normal_content_def)
next
  case False
  with assms(4) obtain arr where arr: "map_get m ''ops'' = Some (Array arr)"
    "list_all2 (\<lambda>v op. decode_operation v = Inr op) arr (items (c_ops c))" and refs: "c_refs c \<noteq> None"
    by (auto simp: parsed_content_def)
  from encode_map_member [OF assms(2) [unfolded encode_def] map_get_member [OF arr(1)]]
  obtain x where x: "encode_value (Suc 0) (Array arr) = Inr x" "length x \<le> length b" by auto
  have "canonical (Array arr)"
    using assms(1) map_get_member [OF arr(1)] by fastforce
  moreover have "small x" using x(2) assms(3) by (simp add: small_def)
  ultimately show ?thesis
    using ops_print_parse [OF _ x(1) _ arr(2)] refs by (simp add: normal_content_def)
qed

lemma decode_block_iff:
  assumes "small b"
  shows "decode_block cr b = Inr blk \<longleftrightarrow>
    assemble cr (blk_content blk) (blk_sig blk) = Inr blk \<and> normal_content (blk_content blk) \<and> blk_enc blk = b"
proof
  assume "decode_block cr b = Inr blk"
  then obtain m where d: "decode b = Inr (Map m)" and p: "parsed_content m (blk_content blk) (blk_sig blk)"
    and a: "assemble cr (blk_content blk) (blk_sig blk) = Inr blk" "blk_enc blk = b"
    unfolding decode_block_Inr by blast
  have "canonical (Map m) \<and> encode (Map m) = Inr b"
    using d assms by (simp add: decode_iff small_def del: canonical.simps)
  with p assms have "normal_content (blk_content blk)" using parsed_normal by blast
  with a show "assemble cr (blk_content blk) (blk_sig blk) = Inr blk \<and> normal_content (blk_content blk) \<and> blk_enc blk = b"
    by blast
next
  assume r: "assemble cr (blk_content blk) (blk_sig blk) = Inr blk \<and> normal_content (blk_content blk) \<and> blk_enc blk = b"
  let ?c = "blk_content blk" and ?s = "blk_sig blk"
  have v: "validate_content ?c = Inr ()" and s: "length ?s = signature_size"
    and e: "encode (Map (signing_entries ?c @ [(''sig'', Bytes ?s)])) = Inr b"
    using r by (auto simp: assemble_Inr)
  have t: "block_type_valid (c_type ?c)" using v by (simp add: validate_content_Inr)
  have "decode b = Inr (Map (block_entries ?c ?s))"
    using dcbor.dec_enc [OF e assms] by (simp only: block_canon [OF t])
  moreover have "encode (Map (block_entries ?c ?s)) = Inr b"
    using dcbor.enc_norm [OF e assms] by (simp only: block_canon [OF t])
  ultimately show "decode_block cr b = Inr blk"
    unfolding decode_block_Inr using r block_entries_parsed [OF v s _ _ assms] by blast
qed

section \<open>Payloads\<close>

lemma decode_payload_stages:
  "decode_payload b = Inr p \<longleftrightarrow>
    (\<exists>m. decode b = Inr (Map m) \<and> require_keys m [''refs'', ''ts'', ''ops''] = Inr () \<and>
      refs_field m = Inr (p_refs p) \<and> map_get m ''ts'' = Some (Uint (p_ts p)) \<and> ops_field m = Inr (p_ops p)) \<and>
    encode_payload p = Inr b"
proof -
  have "decode_payload b = Inr p \<longleftrightarrow>
    (\<exists>m refs ts ops. decode b = Inr (Map m) \<and> require_keys m [''refs'', ''ts'', ''ops''] = Inr () \<and>
      refs_field m = Inr refs \<and> map_get m ''ts'' = Some (Uint ts) \<and> ops_field m = Inr ops \<and>
      p = \<lparr>p_refs = refs, p_ts = ts, p_ops = ops\<rparr> \<and> encode_payload p = Inr b)"
    unfolding decode_payload_def Let_def bindE_eq_Inr guard_Inr block_map_Inr
      require_exact_keys_Inr uint_field_Inr not_not sum.inject
    by (auto simp: encode_payload_def bindE_eq_Inr)
  also have "\<dots> \<longleftrightarrow> (\<exists>m. decode b = Inr (Map m) \<and> require_keys m [''refs'', ''ts'', ''ops''] = Inr () \<and>
      refs_field m = Inr (p_refs p) \<and> map_get m ''ts'' = Some (Uint (p_ts p)) \<and> ops_field m = Inr (p_ops p)) \<and>
    encode_payload p = Inr b"
    by (cases p) auto
  finally show ?thesis .
qed

lemma payload_canon:
  "canon (payload_value p) = Map [(''ts'', Uint (p_ts p)), (''ops'', Array (map (\<lambda>op. canon (op_value op)) (p_ops p))),
    (''refs'', Array (map (\<lambda>d. Bytes (digest_bytes d)) (p_refs p)))]"
proof -
  let ?m = "[(''ts'', Uint (p_ts p)), (''ops'', Array (map op_value (p_ops p))),
    (''refs'', Array (map (\<lambda>d. Bytes (digest_bytes d)) (p_refs p)))]"
  have "mset (payload_entries p) = mset ?m" by (simp add: payload_entries_def)
  moreover have "sorted_wrt (<) (map (\<lambda>e. text_key (fst e)) ?m)"
    using block_key_order(3) by simp
  ultimately have "canon (Map (payload_entries p)) = Map (map canon_entry ?m)" by (rule canon_keys)
  then show ?thesis by (simp add: payload_value_def canon_entry_def comp_def)
qed

lemma decode_payload_Inr:
  assumes "small b"
  shows "decode_payload b = Inr p \<longleftrightarrow> encode_payload p = Inr b \<and> (\<forall>op \<in> set (p_ops p). wf_op op)"
proof
  assume "decode_payload b = Inr p"
  then obtain m where d: "decode b = Inr (Map m)" and o: "ops_field m = Inr (p_ops p)" and e: "encode_payload p = Inr b"
    unfolding decode_payload_stages by blast
  have c: "canonical (Map m)" and em: "encode (Map m) = Inr b"
    using d assms by (simp_all add: decode_iff small_def del: canonical.simps)
  from o obtain arr where arr: "map_get m ''ops'' = Some (Array arr)"
    "list_all2 (\<lambda>v op. decode_operation v = Inr op) arr (p_ops p)" by (auto simp: ops_field_Inr)
  from encode_map_member [OF em [unfolded encode_def] map_get_member [OF arr(1)]]
  obtain x where x: "encode_value (Suc 0) (Array arr) = Inr x" "length x \<le> length b" by auto
  have "canonical (Array arr)" using c map_get_member [OF arr(1)] by fastforce
  moreover have "small x" using x(2) assms by (simp add: small_def)
  ultimately show "encode_payload p = Inr b \<and> (\<forall>op \<in> set (p_ops p). wf_op op)"
    using ops_print_parse [OF _ x(1) _ arr(2)] e by blast
next
  assume r: "encode_payload p = Inr b \<and> (\<forall>op \<in> set (p_ops p). wf_op op)"
  let ?arr = "map (\<lambda>op. canon (op_value op)) (p_ops p)"
  let ?m = "[(''ts'', Uint (p_ts p)), (''ops'', Array ?arr), (''refs'', Array (map (\<lambda>d. Bytes (digest_bytes d)) (p_refs p)))]"
  have e: "encode (payload_value p) = Inr b" and v: "validate_payload_form p = Inr ()"
    using r by (auto simp: encode_payload_def bindE_eq_Inr)
  have d: "decode b = Inr (Map ?m)" using dcbor.dec_enc [OF e assms] by (simp only: payload_canon)
  have em: "encode (Map ?m) = Inr b" using dcbor.enc_norm [OF e assms] by (simp only: payload_canon)
  have "(''ops'', Array ?arr) \<in> set ?m" by simp
  from encode_map_member [OF em [unfolded encode_def] this]
  obtain x where x: "encode_value (Suc 0) (Array ?arr) = Inr x" "length x \<le> length b" by auto
  have "small x" using x(2) assms by (simp add: small_def)
  with r x(1) have "list_all2 (\<lambda>v op. decode_operation v = Inr op) ?arr (p_ops p)"
    by (intro ops_parse_print) simp_all
  then have "refs_field ?m = Inr (p_refs p)" "ops_field ?m = Inr (p_ops p)"
    using v by (auto simp: refs_field_Inr ops_field_Inr validate_payload_form_Inr)
  then show "decode_payload b = Inr p"
    unfolding decode_payload_stages using d r by (intro conjI exI [of _ ?m]) simp_all
qed

section \<open>Every block that exists\<close>

text \<open>
  What the three constructors guarantee of a block: it is what \<open>assemble\<close> makes of its own
  content and signature.
\<close>

definition sound_block :: "crypto \<Rightarrow> block \<Rightarrow> bool" where
  "sound_block cr b \<longleftrightarrow> assemble cr (blk_content b) (blk_sig b) = Inr b"

lemma assemble_sound: "assemble cr c sig = Inr b \<Longrightarrow> sound_block cr b"
  by (auto simp: sound_block_def assemble_Inr)

lemma sign_Inr:
  "sign cr c priv = Inr b \<longleftrightarrow> length priv = private_key_size \<and>
    (c_pub c = None \<or> c_pub c = Some (public_half priv)) \<and>
    (\<exists>i. signing_input (c\<lparr>c_pub := Some (public_half priv)\<rparr>) = Inr i \<and>
      assemble cr (c\<lparr>c_pub := Some (public_half priv)\<rparr>) (ed_sign cr priv i) = Inr b)"
  by (cases c; cases "c_pub c") (auto simp: sign_def Let_def bindE_eq_Inr)

lemma sign_sound: "sign cr c priv = Inr b \<Longrightarrow> sound_block cr b"
  by (auto simp: sign_Inr intro: assemble_sound)

lemma decode_sound: "decode_block cr bs = Inr b \<Longrightarrow> sound_block cr b"
  by (simp add: decode_block_Inr sound_block_def)

lemma sound_verifies: "sound_block cr b \<Longrightarrow> block_verify cr b = Inr ()"
  by (auto simp: sound_block_def assemble_Inr block_verify_def bindE_eq_Inr)

lemma sound_valid: "sound_block cr b \<Longrightarrow> validate_content (blk_content b) = Inr ()"
  by (simp add: sound_block_def assemble_Inr)

lemma rotation_single:
  assumes "sound_block cr b" and "c_type (blk_content b) = type_rotation"
  shows "\<exists>k. items (c_ops (blk_content b)) = [Rotate_key k] \<and> block_rotate_key b = Some k \<and>
    digest_bytes k \<noteq> items (c_pub (blk_content b)) \<and> c_prev (blk_content b) \<noteq> None"
  using sound_valid [OF assms(1)] assms(2)
  by (auto simp: validate_content_Inr validate_rotation_Inr block_rotate_key_def)

lemma rotate_key_only_rotation:
  assumes "sound_block cr b" and "c_type (blk_content b) \<noteq> type_rotation" and "op \<in> set (items (c_ops (blk_content b)))"
  shows "\<not> is_rotate_key op"
  using sound_valid [OF assms(1)] assms(2,3) by (simp add: validate_content_Inr)

definition honest_key :: "crypto \<Rightarrow> byte list \<Rightarrow> bool" where
  "honest_key cr priv \<longleftrightarrow> length priv = private_key_size \<and>
    (\<forall>m. length (ed_sign cr priv m) = signature_size \<and> ed_verify cr (public_half priv) m (ed_sign cr priv m))"

lemma sign_succeeds:
  assumes "honest_key cr priv" and "\<forall>op \<in> set (items (c_ops c)). op_encodable op"
  shows "(\<exists>b. sign cr c priv = Inr b) \<longleftrightarrow> (c_pub c = None \<or> c_pub c = Some (public_half priv)) \<and>
    validate_content (c\<lparr>c_pub := Some (public_half priv)\<rparr>) = Inr ()"
    (is "?l \<longleftrightarrow> ?r")
proof
  assume ?r
  let ?c = "c\<lparr>c_pub := Some (public_half priv)\<rparr>"
  have v: "validate_content ?c = Inr ()" using \<open>?r\<close> by blast
  have t: "block_type_valid (c_type ?c)" and w: "\<forall>op \<in> set (items (c_ops ?c)). op_encodable op"
    using v assms(2) by (auto simp: validate_content_Inr)
  from content_encodes(1) [OF t w] v obtain i where i: "signing_input ?c = Inr i"
    by (auto simp: signing_input_Inr)
  let ?sig = "ed_sign cr priv i"
  from content_encodes(2) [OF t w, of ?sig] obtain e
    where "encode (Map (signing_entries ?c @ [(''sig'', Bytes ?sig)])) = Inr e" by blast
  then have "assemble cr ?c ?sig = Inr \<lparr>blk_content = ?c, blk_sig = ?sig, blk_enc = e\<rparr>"
    using v i assms(1) by (simp add: assemble_Inr honest_key_def)
  with i assms(1) \<open>?r\<close> show ?l by (auto simp: sign_Inr honest_key_def)
qed (auto simp: sign_Inr signing_input_Inr)

section \<open>The size of an encoding\<close>

text \<open>A bound on the size of an encoding.\<close>

fun bulk :: "cbor_value \<Rightarrow> nat" where
  "bulk (Decimal e m) = 36"
| "bulk (Text s) = 9 + length s"
| "bulk (Bytes b) = 9 + length b"
| "bulk (Array vs) = 9 + sum_list (map bulk vs)"
| "bulk (Map m) = 9 + sum_list (map (\<lambda>e. 9 + length (fst e) + bulk (snd e)) m)"
| "bulk v = 9"

lemma length_write_head: "length (write_head m a) \<le> 9"
  by (simp add: write_head_def)

lemma length_int_value: "encode_value depth (int_value i) = Inr b \<Longrightarrow> length b \<le> 9"
  by (auto simp: int_value_def length_write_head split: if_splits)

lemma encode_bulk:
  "encode_value depth v = Inr b \<Longrightarrow> length b \<le> bulk v"
  "encode_items depth vs = Inr b \<Longrightarrow> length b \<le> sum_list (map bulk vs)"
  "encode_entries depth es = Inr b \<Longrightarrow> length b \<le> sum_list (map (\<lambda>e. length (fst e) + bulk (snd (snd e))) es)"
proof (induction depth v and depth vs and depth es arbitrary: b and b and b
    rule: encode_value_encode_items_encode_entries.induct)
  case (3 depth e m)
  from "3.prems" obtain u level eb mb where "encode_value level (int_value e) = Inr eb"
    "encode_value level (int_value m) = Inr mb" and b: "b = write_head 6 4 @ write_head 4 2 @ eb @ mb"
    unfolding encode_value.simps bindE_eq_Inr sum.inject by blast
  then have "length eb \<le> 9" "length mb \<le> 9" using length_int_value by blast+
  then show ?case using length_write_head [of 6 4] length_write_head [of 4 2] by (simp add: b)
next
  case (6 depth vs)
  from "6.prems" obtain level body where l: "enter depth = Inr level" and e: "encode_items level vs = Inr body"
    and b: "b = write_head 4 (word_of_nat (length vs)) @ body"
    unfolding encode_value.simps bindE_eq_Inr sum.inject by blast
  show ?case using "6.IH" [OF l e] length_write_head [of 4 "word_of_nat (length vs)"] by (simp add: b)
next
  case (7 depth m)
  from "7.prems" obtain level es body where l: "enter depth = Inr level" and s: "sorted_entries m = Inr es"
    and e: "encode_entries level es = Inr body" and b: "b = write_head 5 (word_of_nat (length es)) @ body"
    unfolding encode_value.simps bindE_eq_Inr sum.inject by blast
  have "sum_list (map (\<lambda>e. length (fst e) + bulk (snd (snd e))) es) =
      sum_list (map (\<lambda>e. length (text_key (fst e)) + bulk (snd e)) m)"
    using s by (simp add: sorted_entries_iff sum_list_sort_key entries_of_def comp_def case_prod_unfold)
  also have "\<dots> \<le> sum_list (map (\<lambda>e. 9 + length (fst e) + bulk (snd e)) m)"
    using length_write_head by (intro sum_list_mono) (simp add: text_key_def)
  finally show ?case
    using "7.IH" [OF l s e] length_write_head [of 5 "word_of_nat (length es)"] by (simp add: b)
next
  case (11 level v vs)
  from "11.prems" obtain x y where x: "encode_value level v = Inr x" and y: "encode_items level vs = Inr y"
    and b: "b = x @ y" by (auto simp: bindE_eq_Inr)
  from "11.IH"(1) [OF x] "11.IH"(2) [OF x y] show ?case by (simp add: b)
next
  case (13 level kb k v es)
  from "13.prems" obtain x y where x: "encode_value level v = Inr x" and y: "encode_entries level es = Inr y"
    and b: "b = kb @ x @ y" by (auto simp: bindE_eq_Inr)
  from "13.IH"(1) [OF x] "13.IH"(2) [OF x y] show ?case by (simp add: b)
qed (auto simp: length_write_head split: if_splits)

section \<open>Sample blocks\<close>

definition sample_crypto :: crypto where
  "sample_crypto = \<lparr>sha256 = length_hash, ed_sign = \<lambda>priv m. replicate 64 1, ed_verify = \<lambda>pub m sig. sig = replicate 64 1\<rparr>"

definition sample_key :: "byte list" where "sample_key = replicate 64 7"

text \<open>A public genesis block with one operation.\<close>

definition genesis_content :: "operation \<Rightarrow> content" where
  "genesis_content op = \<lparr>c_version = protocol_version, c_type = type_public, c_pub = None, c_prev = None,
    c_refs = Some [], c_ts = 0, c_ops = Some [op], c_enc = None, c_nonce = None\<rparr>"

lemma sample_honest: "honest_key sample_crypto sample_key"
  by (simp add: honest_key_def sample_crypto_def sample_key_def private_key_size_def signature_size_def)

lemma genesis_atom_size:
  assumes "sign cr (genesis_content (Create_atom a)) priv = Inr blk" and "length (atom_description a) < 24"
  shows "small (blk_enc blk)"
proof -
  let ?c = "genesis_content (Create_atom a)\<lparr>c_pub := Some (public_half priv)\<rparr>" and ?sig = "blk_sig blk"
  have v: "validate_content ?c = Inr ()" and s: "length ?sig = 64"
    and e: "encode (Map (signing_entries ?c @ [(''sig'', Bytes ?sig)])) = Inr (blk_enc blk)"
    using assms(1) by (auto simp: sign_Inr assemble_Inr signature_size_def)
  have pub: "length (public_half priv) = 32" using v by (simp add: validate_content_Inr public_key_size_def)
  have "length (blk_enc blk) \<le> bulk (Map (signing_entries ?c @ [(''sig'', Bytes ?sig)]))"
    using encode_bulk(1) e by (simp only: encode_def)
  also have "\<dots> < 2 ^ 64"
    using s pub assms(2)
    by (simp add: genesis_content_def signing_entries_def payload_entries_def prev_value_def type_public_def
        op_create_atom_def has_plaintext_payload_def type_rotation_def)
  finally show ?thesis by (simp add: small_def)
qed


definition water :: atom where
  "water = \<lparr>atom_description = ''water'', atom_enc = write_head 5 1 @ text_key ''description'' @ text_key ''water''\<rparr>"

lemma wf_water: "wf_op (Create_atom water)"
  by code_simp

text \<open>The zero value of \<open>CreateAtom\<close>, which any importing package can write.\<close>

definition zero_create_atom :: operation where
  "zero_create_atom = Create_atom \<lparr>atom_description = '''', atom_enc = []\<rparr>"

lemma op_encodable_zero: "op_encodable zero_create_atom"
proof -
  have "valid_text ''''" by code_simp
  then show ?thesis
    unfolding op_encodable_def zero_create_atom_def op_value.simps
    by (intro two_fields_encode op_key_valid op_key_distinct) (simp_all add: op_name_valid)
qed

lemma genesis_valid: "\<not> is_rotate_key op \<Longrightarrow> length pub = 32 \<Longrightarrow> validate_content (genesis_content op\<lparr>c_pub := Some pub\<rparr>) = Inr ()"
  using type_names by (simp add: validate_content_Inr genesis_content_def public_key_size_def validate_plain_Inr block_type_valid_def)

lemma sign_genesis:
  assumes "honest_key cr priv" and "op_encodable op" and "\<not> is_rotate_key op"
  shows "\<exists>b. sign cr (genesis_content op) priv = Inr b"
proof -
  have "length (public_half priv) = 32"
    using assms(1) by (simp add: honest_key_def private_key_size_def public_half_def)
  then show ?thesis
    using genesis_valid [OF assms(3)] assms(2) sign_succeeds [OF assms(1), of "genesis_content op"]
    by (simp add: genesis_content_def)
qed

lemma sign_genesis_content:
  "sign cr (genesis_content op) priv = Inr b \<Longrightarrow> blk_content b = genesis_content op\<lparr>c_pub := Some (public_half priv)\<rparr>"
  by (auto simp: sign_Inr assemble_Inr)

section \<open>Properties\<close>

text \<open>
  C30. \<open>Decode\<close> accepts exactly the canonical encodings of the blocks \<open>Assemble\<close> makes from a
  normal content: decoding gives back the content and signature that were signed, and every
  accepted byte string is the one encoding of its block.
\<close>

theorem block_decoding:
  assumes "small b"
  shows "decode_block cr b = Inr blk \<longleftrightarrow>
    assemble cr (blk_content blk) (blk_sig blk) = Inr blk \<and> normal_content (blk_content blk) \<and> blk_enc blk = b"
  by (rule decode_block_iff [OF assms])


theorem block_decoding_witness:
  "\<exists>blk. sign sample_crypto (genesis_content (Create_atom water)) sample_key = Inr blk \<and>
    decode_block sample_crypto (blk_enc blk) = Inr blk"
proof -
  obtain blk where blk: "sign sample_crypto (genesis_content (Create_atom water)) sample_key = Inr blk"
    using sign_genesis [OF sample_honest wf_op_encodable [OF wf_water]] by (auto simp: is_rotate_key_def)
  have "small (blk_enc blk)"
    by (rule genesis_atom_size [OF blk]) (simp add: water_def)
  moreover have "normal_content (blk_content blk)"
    using wf_water by (simp add: sign_genesis_content [OF blk] normal_content_def) (simp add: genesis_content_def)
  ultimately have "decode_block sample_crypto (blk_enc blk) = Inr blk"
    using block_decoding [of "blk_enc blk" sample_crypto blk] sign_sound [OF blk] by (simp add: sound_block_def)
  with blk show ?thesis by blast
qed

text \<open>
  Private payloads round trip the same way: \<open>DecodePayload\<close> accepts exactly what \<open>Encode\<close>
  writes for a payload of operations the constructors build, so no payload with a repeated
  reference, an empty list or a \<open>rotate_key\<close> operation gets through.
\<close>

theorem payload_decoding:
  assumes "small b"
  shows "decode_payload b = Inr p \<longleftrightarrow> encode_payload p = Inr b \<and> (\<forall>op \<in> set (p_ops p). wf_op op)"
  by (rule decode_payload_Inr [OF assms])

theorem payload_decoding_witness:
  "\<exists>b. encode_payload \<lparr>p_refs = [5], p_ts = 9, p_ops = [Create_atom water]\<rparr> = Inr b \<and>
    decode_payload b = Inr \<lparr>p_refs = [5], p_ts = 9, p_ops = [Create_atom water]\<rparr>"
proof -
  let ?p = "\<lparr>p_refs = [5], p_ts = 9, p_ops = [Create_atom water]\<rparr>"
  obtain b where b: "encode (payload_value ?p) = Inr b"
    using payload_encodes [of ?p] wf_op_encodable [OF wf_water] by auto
  have "length b \<le> bulk (payload_value ?p)" using encode_bulk(1) b by (simp only: encode_def)
  also have "\<dots> < 2 ^ 64" by (simp add: payload_value_def payload_entries_def water_def op_create_atom_def)
  finally have "small b" by (simp add: small_def)
  moreover have "encode_payload ?p = Inr b"
    using b by (simp add: encode_payload_def bindE_eq_Inr validate_payload_form_Inr is_rotate_key_def)
  ultimately show ?thesis
    using payload_decoding [of b ?p] wf_water by auto
qed

text \<open>
  \<open>Sign\<close> with an honest key pair succeeds exactly when the content claims no key or this
  one and passes the structural rules: it can never fail in the encoder or in its own
  verification. The block it returns verifies and carries the content as given.
\<close>

theorem sign_correct:
  assumes "honest_key cr priv" and "\<forall>op \<in> set (items (c_ops c)). wf_op op"
  shows "((\<exists>b. sign cr c priv = Inr b) \<longleftrightarrow> (c_pub c = None \<or> c_pub c = Some (public_half priv)) \<and>
      validate_content (c\<lparr>c_pub := Some (public_half priv)\<rparr>) = Inr ()) \<and>
    (sign cr c priv = Inr b \<longrightarrow> block_verify cr b = Inr () \<and> blk_content b = c\<lparr>c_pub := Some (public_half priv)\<rparr>)"
proof -
  have "\<forall>op \<in> set (items (c_ops c)). op_encodable op" using assms(2) wf_op_encodable by blast
  from sign_succeeds [OF assms(1) this] sign_sound sound_verifies show ?thesis
    by (fastforce simp: sign_Inr assemble_Inr)
qed

theorem sign_correct_witness:
  "\<exists>b. sign sample_crypto (genesis_content (Create_atom water)) sample_key = Inr b \<and> block_verify sample_crypto b = Inr ()"
proof -
  have w: "\<forall>op \<in> set (items (c_ops (genesis_content (Create_atom water)))). wf_op op"
    using wf_water by (simp add: genesis_content_def)
  have "validate_content (genesis_content (Create_atom water)\<lparr>c_pub := Some (public_half sample_key)\<rparr>) = Inr ()"
    by (rule genesis_valid) (simp_all add: is_rotate_key_def sample_key_def public_half_def)
  moreover have "c_pub (genesis_content (Create_atom water)) = None" by (simp add: genesis_content_def)
  ultimately show ?thesis
    using sign_correct [OF sample_honest w] by blast
qed

text \<open>
  C31. Every block \<open>Sign\<close>, \<open>Assemble\<close> or \<open>Decode\<close> returns has a signature that verifies against its
  own key, the protocol version and a known type; a rotation block holds exactly one
  \<open>rotate_key\<close>, to a key other than its own, and has a predecessor; no other block holds one;
  a private block's references, timestamp and operations are absent, its ciphertext at least a
  tag long and its nonce 24 bytes; a public block has an operation and lists no reference twice.
\<close>

theorem blocks_well_formed:
  assumes "sign cr c priv = Inr b \<or> assemble cr c sig = Inr b \<or> decode_block cr bs = Inr b"
  shows "block_verify cr b = Inr () \<and> c_version (blk_content b) = protocol_version \<and> block_type_valid (c_type (blk_content b)) \<and>
    length (items (c_pub (blk_content b))) = public_key_size \<and> length (blk_sig b) = signature_size \<and>
    (if c_type (blk_content b) = type_rotation
     then c_prev (blk_content b) \<noteq> None \<and>
       (\<exists>k. items (c_ops (blk_content b)) = [Rotate_key k] \<and> digest_bytes k \<noteq> items (c_pub (blk_content b)))
     else list_all (\<lambda>op. \<not> is_rotate_key op) (items (c_ops (blk_content b)))) \<and>
    (if c_type (blk_content b) = type_private
     then c_refs (blk_content b) = None \<and> c_ts (blk_content b) = 0 \<and> c_ops (blk_content b) = None \<and>
       16 \<le> length (items (c_enc (blk_content b))) \<and> length (items (c_nonce (blk_content b))) = 24
     else c_enc (blk_content b) = None \<and> c_nonce (blk_content b) = None \<and> items (c_ops (blk_content b)) \<noteq> [] \<and>
       distinct (items (c_refs (blk_content b))))"
proof -
  have s: "sound_block cr b" using assms sign_sound assemble_sound decode_sound by blast
  note v = sound_valid [OF s, unfolded validate_content_Inr validate_plain_Inr validate_cipher_Inr validate_rotation_Inr]
  have l: "length (blk_sig b) = signature_size" using s by (simp add: sound_block_def assemble_Inr)
  show ?thesis
  proof (intro conjI)
    show "if c_type (blk_content b) = type_rotation
     then c_prev (blk_content b) \<noteq> None \<and>
       (\<exists>k. items (c_ops (blk_content b)) = [Rotate_key k] \<and> digest_bytes k \<noteq> items (c_pub (blk_content b)))
     else list_all (\<lambda>op. \<not> is_rotate_key op) (items (c_ops (blk_content b)))"
      using v by (auto simp: list_all_iff)
    show "if c_type (blk_content b) = type_private
     then c_refs (blk_content b) = None \<and> c_ts (blk_content b) = 0 \<and> c_ops (blk_content b) = None \<and>
       16 \<le> length (items (c_enc (blk_content b))) \<and> length (items (c_nonce (blk_content b))) = 24
     else c_enc (blk_content b) = None \<and> c_nonce (blk_content b) = None \<and> items (c_ops (blk_content b)) \<noteq> [] \<and>
       distinct (items (c_refs (blk_content b)))"
      using v by (auto simp: min_enc_size_def nonce_size_def)
  qed (use v l sound_verifies [OF s] in simp_all)
qed

theorem blocks_well_formed_witness:
  "\<exists>b. sign sample_crypto (genesis_content (Create_atom water)) sample_key = Inr b \<and> block_verify sample_crypto b = Inr () \<and>
    list_all (\<lambda>op. \<not> is_rotate_key op) (items (c_ops (blk_content b)))"
proof -
  obtain b where b: "sign sample_crypto (genesis_content (Create_atom water)) sample_key = Inr b"
    using sign_genesis [OF sample_honest wf_op_encodable [OF wf_water]] by (auto simp: is_rotate_key_def)
  have "c_type (blk_content b) \<noteq> type_rotation"
    using type_names by (simp add: sign_genesis_content [OF b]) (simp add: genesis_content_def)
  then show ?thesis using b blocks_well_formed [OF disjI1 [OF b]] by auto
qed

text \<open>
  A block can exist that no decoder accepts: \<open>Sign\<close> does not look inside an operation, so the
  zero value of \<open>CreateAtom\<close>, an atom without a description, is signed into a block whose
  signature verifies and whose bytes \<open>Decode\<close> rejects.
\<close>

theorem zero_operation_signed:
  assumes "honest_key cr priv"
  shows "\<exists>b. sign cr (genesis_content zero_create_atom) priv = Inr b \<and> block_verify cr b = Inr () \<and>
    (\<forall>b'. decode_block cr (blk_enc b) \<noteq> Inr b')"
proof -
  obtain b where b: "sign cr (genesis_content zero_create_atom) priv = Inr b"
    using sign_genesis [OF assms op_encodable_zero] by (auto simp: is_rotate_key_def zero_create_atom_def)
  let ?c = "genesis_content zero_create_atom\<lparr>c_pub := Some (public_half priv)\<rparr>"
  have small: "small (blk_enc b)"
    using genesis_atom_size b by (simp add: zero_create_atom_def)
  have t: "block_type_valid (c_type ?c)" by (simp add: genesis_content_def block_type_valid_def)
  have e: "encode (Map (signing_entries ?c @ [(''sig'', Bytes (blk_sig b))])) = Inr (blk_enc b)"
    using b by (auto simp: sign_Inr assemble_Inr)
  have d: "decode (blk_enc b) = Inr (Map (block_entries ?c (blk_sig b)))"
    using dcbor.dec_enc [OF e small] by (simp only: block_canon [OF t])
  have "decode_block cr (blk_enc b) \<noteq> Inr b'" for b'
  proof
    assume "decode_block cr (blk_enc b) = Inr b'"
    then have p: "parsed_content (block_entries ?c (blk_sig b)) (blk_content b') (blk_sig b')"
      unfolding decode_block_Inr d by auto
    have "type_public \<noteq> type_private" by (rule type_names)
    then have "decode_operation (canon (op_value zero_create_atom)) = Inr (hd (items (c_ops (blk_content b'))))"
      using p by (auto simp: parsed_content_def block_entries_def genesis_content_def list_all2_Cons1)
    then show False
      by (auto simp: zero_create_atom_def op_canon decode_operation_def bindE_eq_Inr new_create_atom_def new_atom_def
          simp del: op_value.simps)
  qed
  then show ?thesis using b sound_verifies [OF sign_sound [OF b]] by blast
qed

theorem zero_operation_signed_witness:
  "\<exists>b. sign sample_crypto (genesis_content zero_create_atom) sample_key = Inr b \<and>
    (\<forall>b'. decode_block sample_crypto (blk_enc b) \<noteq> Inr b')"
  using zero_operation_signed [OF sample_honest] by blast

end
