(* ===== verification/Store.thy ===== *)
theory Store
  imports Block "HOL-Library.AList"
begin

text \<open>
  The in-memory block store (\<open>go/block/store.go\<close>) and the interfaces a validator reads blocks
  through. A Go map is an association list with distinct keys, so that ranging over it is
  ranging over the list; a byte-wise comparison of digests is the order of their bytes. The
  errors of the package's validation code are one datatype, a wrapping error holding the one
  it wraps.
\<close>

section \<open>Errors\<close>

datatype verdict = Verdict_unknown | Verdict_valid | Verdict_unvalidated

record fork =
  fork_pub :: "byte list"
  fork_prev :: "digest option"
  fork_blocks :: "digest list"

datatype block_error =
    Form form_error
  | Not_found digest
  | Fault string
  | Fork_error fork
  | Rule_error nat digest block_error
  | Pending_error digest bool block_error
  | Previous_error digest block_error
  | Unaccepted digest verdict
  | Empty_operations
  | Wrong_author digest
  | After_rotation digest
  | Private_reference digest
  | Own_chain_reference digest
  | Operation_error nat string position block_error
  | Kind_mismatch nat position entity_kind entity_kind
  | Molecule_error nat entity_error
  | Incomplete_chain digest digest
  | Incomplete_refs digest digest
  | Undecryptable digest digest
  | Unreachable_entity digest
  | Scan_limit int
  | Decrypt_error digest block_error
  | Not_private
  | Nil_block
  | Chain_cycle digest digest
  | Wrong_block digest digest
  | Not_a_rotation digest
  | Not_a_genesis digest
  | Private_genesis digest
  | Genesis_type string
  | Foreign_successor
  | Unreferenced_rotation digest
  | No_referrers digest
  | No_tips
  | Chain_at nat nat block_error
  | Chain_open nat nat
  | Ambiguous_succession digest "digest list"
  | Already_started
  | Names_other_key
  | Chain_rotated
  | Nothing_to_end
  | Successor_not_public string

text \<open>
  \<open>errors.Is\<close> for the four sentinels of the package: a wrapping error answers for the error it
  holds.
\<close>

fun is_not_found :: "block_error \<Rightarrow> bool" where
  "is_not_found (Not_found d) = True"
| "is_not_found (Incomplete_chain e d) = True"
| "is_not_found (Incomplete_refs e d) = True"
| "is_not_found (Rule_error n d e) = is_not_found e"
| "is_not_found (Pending_error d k e) = is_not_found e"
| "is_not_found (Previous_error d e) = is_not_found e"
| "is_not_found (Operation_error i n p e) = is_not_found e"
| "is_not_found (Decrypt_error d e) = is_not_found e"
| "is_not_found (Chain_at i n e) = is_not_found e"
| "is_not_found _ = False"

fun is_unaccepted :: "block_error \<Rightarrow> bool" where
  "is_unaccepted (Unaccepted d v) = True"
| "is_unaccepted (Rule_error n d e) = is_unaccepted e"
| "is_unaccepted (Pending_error d k e) = is_unaccepted e"
| "is_unaccepted (Previous_error d e) = is_unaccepted e"
| "is_unaccepted (Operation_error i n p e) = is_unaccepted e"
| "is_unaccepted (Decrypt_error d e) = is_unaccepted e"
| "is_unaccepted (Chain_at i n e) = is_unaccepted e"
| "is_unaccepted _ = False"

fun is_undecryptable :: "block_error \<Rightarrow> bool" where
  "is_undecryptable (Undecryptable e d) = True"
| "is_undecryptable (Rule_error n d e) = is_undecryptable e"
| "is_undecryptable (Pending_error d k e) = is_undecryptable e"
| "is_undecryptable (Previous_error d e) = is_undecryptable e"
| "is_undecryptable (Operation_error i n p e) = is_undecryptable e"
| "is_undecryptable (Decrypt_error d e) = is_undecryptable e"
| "is_undecryptable (Chain_at i n e) = is_undecryptable e"
| "is_undecryptable _ = False"

definition is_unvalidated :: "block_error \<Rightarrow> bool" where
  "is_unvalidated e \<longleftrightarrow> is_not_found e \<or> is_unaccepted e \<or> is_undecryptable e"

text \<open>\<open>errors.As\<close> for a \<open>PendingError\<close>: the outermost one; then \<open>Awaiting\<close>.\<close>

fun find_pending :: "block_error \<Rightarrow> (digest \<times> bool) option" where
  "find_pending (Pending_error d k e) = Some (d, k)"
| "find_pending (Rule_error n d e) = find_pending e"
| "find_pending (Previous_error d e) = find_pending e"
| "find_pending (Operation_error i n p e) = find_pending e"
| "find_pending (Decrypt_error d e) = find_pending e"
| "find_pending (Chain_at i n e) = find_pending e"
| "find_pending _ = None"

definition awaiting :: "block_error \<Rightarrow> digest option" where
  "awaiting e = (case find_pending e of Some (d, key) \<Rightarrow> if key then None else Some d | None \<Rightarrow> None)"

section \<open>The store\<close>

record mem_store =
  ms_blocks :: "(digest \<times> block) list"
  ms_position :: "(byte list \<times> digest list) list"
  ms_referrers :: "(digest \<times> digest list) list"

definition new_mem_store :: mem_store where
  "new_mem_store = \<lparr>ms_blocks = [], ms_position = [], ms_referrers = []\<rparr>"

text \<open>Reading a map of slices: a key that is not there has the nil slice.\<close>

definition slice_at :: "('k \<times> 'v list) list \<Rightarrow> 'k \<Rightarrow> 'v list" where
  "slice_at m k = (case map_of m k of None \<Rightarrow> [] | Some xs \<Rightarrow> xs)"

definition append_at :: "'k \<Rightarrow> 'v \<Rightarrow> ('k \<times> 'v list) list \<Rightarrow> ('k \<times> 'v list) list" where
  "append_at k x m = AList.update k (slice_at m k @ [x]) m"

definition position_key :: "byte list \<Rightarrow> digest option \<Rightarrow> byte list" where
  "position_key pub prev =
    (case prev of None \<Rightarrow> pub @ [0] @ bytes_of ''genesis'' | Some d \<Rightarrow> pub @ [0] @ digest_bytes d)"

definition block_pub :: "block \<Rightarrow> byte list" where
  "block_pub b = items (c_pub (blk_content b))"

definition block_prev :: "block \<Rightarrow> digest option" where
  "block_prev b = c_prev (blk_content b)"

definition block_refs :: "block \<Rightarrow> digest list" where
  "block_refs b = items (c_refs (blk_content b))"

definition block_ops :: "block \<Rightarrow> operation list" where
  "block_ops b = items (c_ops (blk_content b))"

definition block_key :: "block \<Rightarrow> byte list" where
  "block_key b = position_key (block_pub b) (block_prev b)"

definition sort_digests :: "digest list \<Rightarrow> digest list" where
  "sort_digests ds = sort_key digest_bytes ds"

definition fork_at :: "mem_store \<Rightarrow> byte list \<Rightarrow> digest option \<Rightarrow> byte list \<Rightarrow> fork" where
  "fork_at s pub prev key =
    \<lparr>fork_pub = pub, fork_prev = prev, fork_blocks = sort_digests (slice_at (ms_position s) key)\<rparr>"

text \<open>
  \<open>Add\<close>: the store after the call and the error it returns. A fork is reported and the block
  is stored all the same.
\<close>

definition add :: "crypto \<Rightarrow> block \<Rightarrow> mem_store \<Rightarrow> mem_store \<times> block_error option" where
  "add cr b s =
    (let d = block_digest cr b in
     if map_of (ms_blocks s) d \<noteq> None then (s, None)
     else
       let key = block_key b;
           siblings = slice_at (ms_position s) key;
           s' = \<lparr>ms_blocks = AList.update d b (ms_blocks s),
                 ms_position = AList.update key (siblings @ [d]) (ms_position s),
                 ms_referrers = foldl (\<lambda>m ref. append_at ref d m) (ms_referrers s) (block_refs b)\<rparr>
       in (s', if siblings = [] then None
               else Some (Fork_error (fork_at s' (block_pub b) (block_prev b) key))))"

fun add_all :: "crypto \<Rightarrow> block list \<Rightarrow> mem_store \<Rightarrow> mem_store \<times> block_error option" where
  "add_all cr [] s = (s, None)"
| "add_all cr (b # bs) s =
    (case add cr b s of (s', Some e) \<Rightarrow> (s', Some e) | (s', None) \<Rightarrow> add_all cr bs s')"

definition get_block :: "mem_store \<Rightarrow> digest \<Rightarrow> block_error + block" where
  "get_block s d = (case map_of (ms_blocks s) d of None \<Rightarrow> Inl (Not_found d) | Some b \<Rightarrow> Inr b)"

definition has_block :: "mem_store \<Rightarrow> digest \<Rightarrow> bool" where
  "has_block s d \<longleftrightarrow> map_of (ms_blocks s) d \<noteq> None"

definition store_len :: "mem_store \<Rightarrow> nat" where
  "store_len s = length (ms_blocks s)"

definition blocks_with_prev :: "mem_store \<Rightarrow> byte list \<Rightarrow> digest option \<Rightarrow> digest list" where
  "blocks_with_prev s pub prev = slice_at (ms_position s) (position_key pub prev)"

definition blocks_referencing :: "mem_store \<Rightarrow> digest \<Rightarrow> digest list" where
  "blocks_referencing s d = slice_at (ms_referrers s) d"

definition is_fork :: "crypto \<Rightarrow> block \<Rightarrow> block \<Rightarrow> bool" where
  "is_fork cr a b \<longleftrightarrow>
    (if block_digest cr a = block_digest cr b \<or> \<not> same_author a b then False
     else case (block_prev a, block_prev b) of
       (None, None) \<Rightarrow> True
     | (Some p, Some q) \<Rightarrow> p = q
     | _ \<Rightarrow> False)"

text \<open>
  The loop of \<open>Forks\<close> over the positions. A position that holds a digest the store has no block
  for would be a nil dereference; the store's invariant excludes it.
\<close>

definition forks_found :: "mem_store \<Rightarrow> fork list" where
  "forks_found s = List.map_filter (\<lambda>(key, digests).
     if length digests < 2 then None
     else case map_of (ms_blocks s) (digests ! 0) of
         None \<Rightarrow> None
       | Some b \<Rightarrow> Some (fork_at s (block_pub b) (block_prev b) (block_key b))) (ms_position s)"

definition forks :: "mem_store \<Rightarrow> fork list" where
  "forks s = sort_key (\<lambda>f. digest_bytes (fork_blocks f ! 0)) (forks_found s)"

definition tips :: "mem_store \<Rightarrow> byte list \<Rightarrow> digest list" where
  "tips s pub = sort_digests (map fst (filter (\<lambda>(d, b).
     block_pub b = pub \<and> slice_at (ms_position s) (position_key pub (Some d)) = []) (ms_blocks s)))"

section \<open>Maps of slices\<close>

lemma slice_at_append [simp]:
  "slice_at (append_at k x m) k' = (if k' = k then slice_at m k @ [x] else slice_at m k')"
  by (simp add: append_at_def slice_at_def update_conv' split: option.splits)

lemma slice_at_update [simp]: "slice_at (AList.update k xs m) k' = (if k' = k then xs else slice_at m k')"
  by (simp add: slice_at_def update_conv' split: option.splits)

lemma set_slice_fold:
  "set (slice_at (foldl (\<lambda>m ref. append_at ref d m) m refs) r) =
    set (slice_at m r) \<union> (if r \<in> set refs then {d} else {})"
  by (induction refs arbitrary: m) auto

lemma distinct_slice_fold:
  "distinct refs \<Longrightarrow> distinct (slice_at m r) \<Longrightarrow> d \<notin> set (slice_at m r) \<Longrightarrow>
    distinct (slice_at (foldl (\<lambda>m ref. append_at ref d m) m refs) r)"
proof (induction refs arbitrary: m)
  case (Cons ref refs)
  show ?case
  proof (cases "r = ref")
    case True
    then have "r \<notin> set refs" using Cons.prems by simp
    then have "slice_at (foldl (\<lambda>m ref. append_at ref d m) m' refs) r = slice_at m' r" for m'
      by (induction refs arbitrary: m') auto
    then show ?thesis using Cons.prems True by simp
  next
    case False
    then show ?thesis using Cons by simp
  qed
qed simp

section \<open>Sorted digests\<close>

lemma set_sort_digests [simp]: "set (sort_digests ds) = set ds"
  by (simp add: sort_digests_def)

lemma distinct_sort_digests [simp]: "distinct (sort_digests ds) = distinct ds"
  by (simp add: sort_digests_def)

lemma length_sort_digests [simp]: "length (sort_digests ds) = length ds"
  by (simp add: sort_digests_def)

lemma sort_digests_strict: "distinct ds \<Longrightarrow> sorted_wrt (<) (map digest_bytes (sort_digests ds))"
  by (auto simp: strict_sorted_iff sort_digests_def distinct_map inj_on_def)

lemma sort_digests_unique: "distinct xs \<Longrightarrow> distinct ys \<Longrightarrow> set xs = set ys \<Longrightarrow> sort_digests xs = sort_digests ys"
  by (rule strict_unique [where f = digest_bytes]) (simp_all add: sort_digests_strict)

section \<open>The store's invariant\<close>

definition held :: "mem_store \<Rightarrow> digest \<Rightarrow> block option" where
  "held s = map_of (ms_blocks s)"

definition store_ok :: "crypto \<Rightarrow> mem_store \<Rightarrow> bool" where
  "store_ok cr s \<longleftrightarrow>
    distinct (map fst (ms_blocks s)) \<and> distinct (map fst (ms_position s)) \<and>
    (\<forall>d b. held s d = Some b \<longrightarrow> block_digest cr b = d \<and> sound_block cr b) \<and>
    (\<forall>k. distinct (slice_at (ms_position s) k) \<and>
       set (slice_at (ms_position s) k) = {d. \<exists>b. held s d = Some b \<and> block_key b = k}) \<and>
    (\<forall>r. distinct (slice_at (ms_referrers s) r) \<and>
       set (slice_at (ms_referrers s) r) = {d. \<exists>b. held s d = Some b \<and> r \<in> set (block_refs b)})"

lemma store_okD:
  assumes "store_ok cr s"
  shows "held s d = Some b \<Longrightarrow> block_digest cr b = d" "held s d = Some b \<Longrightarrow> sound_block cr b"
    "distinct (slice_at (ms_position s) k)"
    "set (slice_at (ms_position s) k) = {d. \<exists>b. held s d = Some b \<and> block_key b = k}"
    "distinct (slice_at (ms_referrers s) r)"
    "set (slice_at (ms_referrers s) r) = {d. \<exists>b. held s d = Some b \<and> r \<in> set (block_refs b)}"
  using assms by (auto simp: store_ok_def)

lemma store_ok_empty: "store_ok cr new_mem_store"
  by (simp add: store_ok_def new_mem_store_def held_def slice_at_def)

lemma sound_refs_distinct: "sound_block cr b \<Longrightarrow> distinct (block_refs b)"
  using sound_valid [of cr b]
  by (auto simp: validate_content_Inr validate_plain_Inr validate_cipher_Inr block_refs_def split: if_splits)

lemma sound_pub_length: "sound_block cr b \<Longrightarrow> length (block_pub b) = 32"
  using sound_valid [of cr b] by (simp add: validate_content_Inr block_pub_def public_key_size_def)

lemma add_held:
  "held (fst (add cr b s)) d = (if held s d = None \<and> block_digest cr b = d then Some b else held s d)"
  by (auto simp: add_def held_def Let_def update_conv')

lemma add_ok:
  assumes "store_ok cr s" and "sound_block cr b"
  shows "store_ok cr (fst (add cr b s))"
proof (cases "held s (block_digest cr b) = None")
  case False
  then have "fst (add cr b s) = s" by (simp add: add_def held_def Let_def)
  then show ?thesis using assms(1) by simp
next
  case True
  let ?d = "block_digest cr b" and ?s = "fst (add cr b s)"
  have s': "?s = \<lparr>ms_blocks = AList.update ?d b (ms_blocks s),
      ms_position = AList.update (block_key b) (slice_at (ms_position s) (block_key b) @ [?d]) (ms_position s),
      ms_referrers = foldl (\<lambda>m ref. append_at ref ?d m) (ms_referrers s) (block_refs b)\<rparr>"
    using True by (simp add: add_def held_def Let_def)
  have h: "held ?s d = (if d = ?d then Some b else held s d)" for d
    using True by (auto simp: add_held)
  have new: "?d \<notin> set (slice_at (ms_position s) k)" "?d \<notin> set (slice_at (ms_referrers s) k')" for k k'
    using True store_okD(4,6) [OF assms(1)] by auto
  show ?thesis
    unfolding store_ok_def
  proof (intro conjI allI impI)
    show "distinct (map fst (ms_blocks ?s))" "distinct (map fst (ms_position ?s))"
      using assms(1) by (simp_all add: s' store_ok_def distinct_update)
    fix d x assume "held ?s d = Some x"
    then show "block_digest cr x = d" "sound_block cr x"
      using store_okD(1,2) [OF assms(1)] assms(2) by (auto simp: h split: if_splits)
  next
    fix k
    show "distinct (slice_at (ms_position ?s) k)"
      using new store_okD(3) [OF assms(1)] by (simp add: s')
    show "set (slice_at (ms_position ?s) k) = {d. \<exists>x. held ?s d = Some x \<and> block_key x = k}"
      using new(1) [of k] store_okD(4) [OF assms(1), of k] True
      by (cases "k = block_key b") (simp_all add: s' h [unfolded s'], auto)
  next
    fix r
    show "distinct (slice_at (ms_referrers ?s) r)"
      using new store_okD(5) [OF assms(1)] sound_refs_distinct [OF assms(2)] by (simp add: s' distinct_slice_fold)
    show "set (slice_at (ms_referrers ?s) r) = {d. \<exists>x. held ?s d = Some x \<and> r \<in> set (block_refs x)}"
      using new(2) [of r] store_okD(6) [OF assms(1), of r] True
      by (cases "r \<in> set (block_refs b)") (simp_all add: s' h [unfolded s'] set_slice_fold, auto)
  qed
qed

section \<open>A store as a map\<close>

text \<open>
  What a content-addressed store promises: a block is found under its digest once it has been
  put, and putting one changes nothing else.
\<close>

locale block_store =
  fixes none :: 's
    and put :: "'b \<Rightarrow> 's \<Rightarrow> 's"
    and get :: "'s \<Rightarrow> 'd \<Rightarrow> 'b option"
    and digest_of :: "'b \<Rightarrow> 'd"
    and inv :: "'s \<Rightarrow> bool"
    and fit :: "'b \<Rightarrow> bool"
  assumes inv_none: "inv none"
    and get_none: "get none d = None"
    and inv_put: "inv s \<Longrightarrow> fit b \<Longrightarrow> inv (put b s)"
    and get_put: "inv s \<Longrightarrow> fit b \<Longrightarrow>
      get (put b s) d = (if get s d = None \<and> digest_of b = d then Some b else get s d)"
begin

lemma inv_fold: "inv s \<Longrightarrow> \<forall>b \<in> set bs. fit b \<Longrightarrow> inv (fold put bs s)"
  by (induction bs arbitrary: s) (auto intro: inv_put)

lemma get_fold:
  "inv s \<Longrightarrow> \<forall>b \<in> set bs. fit b \<Longrightarrow>
    get (fold put bs s) d = (case get s d of Some b \<Rightarrow> Some b | None \<Rightarrow> find (\<lambda>b. digest_of b = d) bs)"
  by (induction bs arbitrary: s) (auto simp: inv_put get_put split: option.splits)

lemma put_again: "inv s \<Longrightarrow> fit b \<Longrightarrow> get (put b (put b s)) = get (put b s)"
  by (rule ext) (auto simp: get_put inv_put)

lemma get_collected:
  assumes "\<forall>b \<in> set bs. fit b" and "inj_on digest_of (set bs)"
  shows "get (fold put bs none) d = Some b \<longleftrightarrow> b \<in> set bs \<and> digest_of b = d"
proof -
  have "get (fold put bs none) d = find (\<lambda>b. digest_of b = d) bs"
    using get_fold [OF inv_none assms(1)] by (simp add: get_none)
  also have "\<dots> = Some b \<longleftrightarrow> b \<in> set bs \<and> digest_of b = d"
    using assms(2) by (induction bs) (auto simp: inj_on_def)
  finally show ?thesis .
qed

lemma get_order:
  assumes "\<forall>b \<in> set bs. fit b" and "inj_on digest_of (set bs)" and "set bs = set cs"
  shows "get (fold put bs none) = get (fold put cs none)"
proof (rule ext)
  fix d show "get (fold put bs none) d = get (fold put cs none) d"
    using get_collected [of bs d] get_collected [of cs d] assms by (metis not_None_eq)
qed

end

interpretation mem: block_store new_mem_store "\<lambda>b s. fst (add cr b s)" held "block_digest cr" "store_ok cr"
  "sound_block cr" for cr
  by unfold_locales (simp_all add: store_ok_empty add_ok add_held, simp add: held_def new_mem_store_def)

section \<open>Positions and forks\<close>

lemma position_key_inject:
  assumes "length p = 32" and "length q = 32"
  shows "position_key p x = position_key q y \<longleftrightarrow> p = q \<and> x = y"
proof -
  have "bytes_of ''genesis'' \<noteq> digest_bytes d" for d
  proof
    assume eq: "bytes_of ''genesis'' = digest_bytes d"
    have "length (bytes_of ''genesis'') = length (digest_bytes d)" by (simp only: eq)
    then show False by simp
  qed
  moreover have "digest_bytes d \<noteq> bytes_of ''genesis''" for d using calculation by metis
  ultimately show ?thesis
    using assms by (cases x; cases y) (simp_all add: position_key_def del: bytes_of_Cons)
qed

lemma block_key_inject:
  "sound_block cr a \<Longrightarrow> sound_block cr b \<Longrightarrow>
    block_key a = block_key b \<longleftrightarrow> block_pub a = block_pub b \<and> block_prev a = block_prev b"
  by (simp add: block_key_def position_key_inject sound_pub_length)

lemma is_fork_iff:
  "sound_block cr a \<Longrightarrow> sound_block cr b \<Longrightarrow>
    is_fork cr a b \<longleftrightarrow> block_digest cr a \<noteq> block_digest cr b \<and> block_key a = block_key b"
  by (cases "block_prev a"; cases "block_prev b")
    (auto simp: is_fork_def block_key_inject same_author_def block_pub_def)

text \<open>The digests of the held blocks that claim a position, and the fork they make.\<close>

definition claimants :: "mem_store \<Rightarrow> byte list \<Rightarrow> digest set" where
  "claimants s k = {d. \<exists>b. held s d = Some b \<and> block_key b = k}"

lemma slice_claimants: "store_ok cr s \<Longrightarrow> set (slice_at (ms_position s) k) = claimants s k"
  by (simp add: store_okD(4) claimants_def)

lemma add_report:
  assumes "store_ok cr s" and "sound_block cr b" and "held s (block_digest cr b) = None"
  shows "snd (add cr b s) = None \<longleftrightarrow> (\<forall>d a. held s d = Some a \<longrightarrow> \<not> is_fork cr a b)"
    and "snd (add cr b s) = Some e \<Longrightarrow> \<exists>f. e = Fork_error f \<and> fork_pub f = block_pub b \<and> fork_prev f = block_prev b \<and>
      sorted_wrt (<) (map digest_bytes (fork_blocks f)) \<and>
      set (fork_blocks f) = insert (block_digest cr b) (claimants s (block_key b))"
proof -
  have "slice_at (ms_position s) (block_key b) = [] \<longleftrightarrow> claimants s (block_key b) = {}"
    using slice_claimants [OF assms(1), of "block_key b"] by auto
  moreover have "is_fork cr a b \<longleftrightarrow> block_key a = block_key b" if "held s d = Some a" for d a
    using that is_fork_iff [OF store_okD(2) [OF assms(1) that] assms(2)] store_okD(1) [OF assms(1) that] assms(3) by auto
  ultimately show "snd (add cr b s) = None \<longleftrightarrow> (\<forall>d a. held s d = Some a \<longrightarrow> \<not> is_fork cr a b)"
    using assms(3) by (auto simp: add_def held_def Let_def claimants_def)
  assume e: "snd (add cr b s) = Some e"
  have "block_digest cr b \<notin> set (slice_at (ms_position s) (block_key b))"
    using assms(3) slice_claimants [OF assms(1)] by (auto simp: claimants_def)
  then show "\<exists>f. e = Fork_error f \<and> fork_pub f = block_pub b \<and> fork_prev f = block_prev b \<and>
      sorted_wrt (<) (map digest_bytes (fork_blocks f)) \<and>
      set (fork_blocks f) = insert (block_digest cr b) (claimants s (block_key b))"
    using e assms(3) store_okD(3) [OF assms(1)] slice_claimants [OF assms(1), of "block_key b"]
    by (auto simp: add_def held_def Let_def fork_at_def sort_digests_strict split: if_splits)
qed

definition fork_of :: "mem_store \<Rightarrow> block \<Rightarrow> fork" where
  "fork_of s a = fork_at s (block_pub a) (block_prev a) (block_key a)"

lemma fork_blocks_of: "store_ok cr s \<Longrightarrow> set (fork_blocks (fork_of s a)) = claimants s (block_key a)"
  by (simp add: fork_of_def fork_at_def slice_claimants)

lemma fork_of_held:
  assumes "store_ok cr s" and "store_ok cr t" and "held s = held t"
  shows "fork_of s a = fork_of t a"
  using assms slice_claimants [of cr s] slice_claimants [of cr t]
  by (simp add: fork_of_def fork_at_def claimants_def store_okD(3) sort_digests_unique)

lemma position_entry:
  assumes "store_ok cr s"
  shows "(k, ds) \<in> set (ms_position s) \<Longrightarrow> slice_at (ms_position s) k = ds"
    and "slice_at (ms_position s) k \<noteq> [] \<Longrightarrow> (k, slice_at (ms_position s) k) \<in> set (ms_position s)"
proof -
  have "distinct (map fst (ms_position s))" using assms by (simp add: store_ok_def)
  then show "(k, ds) \<in> set (ms_position s) \<Longrightarrow> slice_at (ms_position s) k = ds"
    by (simp add: slice_at_def map_of_is_SomeI)
  show "slice_at (ms_position s) k \<noteq> [] \<Longrightarrow> (k, slice_at (ms_position s) k) \<in> set (ms_position s)"
    by (cases "map_of (ms_position s) k") (simp_all add: slice_at_def map_of_SomeD)
qed

lemma forks_found_iff:
  assumes "store_ok cr s"
  shows "f \<in> set (forks_found s) \<longleftrightarrow>
    (\<exists>d a e b. held s d = Some a \<and> held s e = Some b \<and> is_fork cr a b \<and> f = fork_of s a)"
proof
  assume "f \<in> set (forks_found s)"
  then obtain k ds a where k: "(k, ds) \<in> set (ms_position s)" and len: "2 \<le> length ds"
    and a: "held s (ds ! 0) = Some a" and f: "f = fork_of s a"
    by (auto simp: forks_found_def List.map_filter_def fork_of_def held_def split: if_splits option.splits)
  have ds: "slice_at (ms_position s) k = ds" using position_entry(1) [OF assms k] .
  have "0 < length ds" "1 < length ds" using len by linarith+
  then have "ds ! 0 \<in> set ds" "ds ! 1 \<in> set ds" "ds ! 0 \<noteq> ds ! 1"
    using store_okD(3) [OF assms, of k] nth_eq_iff_index_eq [of ds 0 1] nth_mem by (auto simp: ds simp del: One_nat_def)
  then obtain b where b: "held s (ds ! 1) = Some b" "block_key b = k" and "block_key a = k"
    using slice_claimants [OF assms, of k] a by (auto simp: ds claimants_def)
  have "is_fork cr a b"
    using a b \<open>block_key a = k\<close> \<open>ds ! 0 \<noteq> ds ! 1\<close> store_okD(1,2) [OF assms]
    by (simp add: is_fork_iff)
  with a b f show "\<exists>d a e b. held s d = Some a \<and> held s e = Some b \<and> is_fork cr a b \<and> f = fork_of s a" by blast
next
  assume "\<exists>d a e b. held s d = Some a \<and> held s e = Some b \<and> is_fork cr a b \<and> f = fork_of s a"
  then obtain d a e b where a: "held s d = Some a" and b: "held s e = Some b" and "is_fork cr a b" and f: "f = fork_of s a"
    by blast
  then have "d \<noteq> e" and k: "block_key a = block_key b"
    using store_okD(1,2) [OF assms] by (auto simp: is_fork_iff)
  let ?ds = "slice_at (ms_position s) (block_key a)"
  have in2: "d \<in> set ?ds" "e \<in> set ?ds"
    using a b k slice_claimants [OF assms, of "block_key a"] by (auto simp: claimants_def)
  then have "card {d, e} \<le> card (set ?ds)" by (intro card_mono) auto
  then have len: "2 \<le> length ?ds" using \<open>d \<noteq> e\<close> store_okD(3) [OF assms] by (simp add: distinct_card)
  then have pos: "0 < length ?ds" by linarith
  then have "?ds \<noteq> []" by simp
  then have mem: "(block_key a, ?ds) \<in> set (ms_position s)" by (rule position_entry(2) [OF assms])
  have "?ds ! 0 \<in> set ?ds" by (rule nth_mem [OF pos])
  then obtain c where c: "held s (?ds ! 0) = Some c" "block_key c = block_key a"
    using slice_claimants [OF assms, of "block_key a"] by (auto simp: claimants_def)
  have "block_pub c = block_pub a" "block_prev c = block_prev a"
    using c a store_okD(2) [OF assms] by (simp_all add: block_key_inject [of cr])
  then have "fork_of s c = f" using c(2) f by (simp add: fork_of_def)
  with mem len c(1) show "f \<in> set (forks_found s)"
    by (force simp: forks_found_def List.map_filter_def fork_of_def held_def intro!: rev_image_eqI [of "(block_key a, ?ds)"])
qed

lemma distinct_map_filter:
  assumes "distinct (map fst ps)" and "\<And>k ds f. (k, ds) \<in> set ps \<Longrightarrow> g (k, ds) = Some f \<Longrightarrow> h f \<in> C k"
    and "\<And>k k' x. x \<in> C k \<Longrightarrow> x \<in> C k' \<Longrightarrow> k = k'"
  shows "distinct (map h (List.map_filter g ps))"
  using assms(1,2)
proof (induction ps)
  case (Cons p ps)
  obtain k ds where p: "p = (k, ds)" by (cases p)
  have IH: "distinct (map h (List.map_filter g ps))"
  proof (rule Cons.IH)
    show "distinct (map fst ps)" using Cons.prems(1) by simp
    show "h f \<in> C k" if "(k, ds) \<in> set ps" "g (k, ds) = Some f" for k ds f
      using Cons.prems(2) [of k ds f] that by simp
  qed
  show ?case
  proof (cases "g p")
    case (Some f)
    have "h f \<notin> h ` set (List.map_filter g ps)"
    proof
      assume "h f \<in> h ` set (List.map_filter g ps)"
      then obtain k' ds' f' where f': "(k', ds') \<in> set ps" "g (k', ds') = Some f'" "h f = h f'"
        by (auto simp: List.map_filter_def)
      have "h f \<in> C k" using Cons.prems(2) [of k ds f] Some p by simp
      moreover have "h f' \<in> C k'" using Cons.prems(2) [of k' ds' f'] f' by simp
      ultimately have "h f \<in> C k" "h f' \<in> C k'" by blast+
      then have "k = k'" using f'(3) assms(3) by metis
      then show False using Cons.prems(1) f'(1) p by force
    qed
    then show ?thesis using IH Some by (simp add: map_filter_simps)
  qed (use IH in \<open>simp add: map_filter_simps\<close>)
qed (simp add: map_filter_simps)

definition fork_low :: "fork \<Rightarrow> byte list" where
  "fork_low f = digest_bytes (fork_blocks f ! 0)"

lemma forks_strict:
  assumes "store_ok cr s"
  shows "sorted_wrt (<) (map fork_low (forks s))"
proof -
  have "distinct (map (\<lambda>f. fork_blocks f ! 0) (forks_found s))"
    unfolding forks_found_def
  proof (rule distinct_map_filter [where C = "claimants s"])
    show "distinct (map fst (ms_position s))" using assms by (simp add: store_ok_def)
    fix k ds f
    assume k: "(k, ds) \<in> set (ms_position s)" and "(case (k, ds) of (key, digests) \<Rightarrow>
       if length digests < 2 then None
       else case map_of (ms_blocks s) (digests ! 0) of None \<Rightarrow> None
         | Some b \<Rightarrow> Some (fork_at s (block_pub b) (block_prev b) (block_key b))) = Some f"
    then obtain a where len: "2 \<le> length ds" and a: "held s (ds ! 0) = Some a" and f: "f = fork_of s a"
      by (auto simp: fork_of_def held_def split: if_splits option.splits)
    have pos: "0 < length ds" using len by linarith
    have "ds ! 0 \<in> claimants s k"
      using nth_mem [OF pos] slice_claimants [OF assms, of k] position_entry(1) [OF assms k] by simp
    then have "block_key a = k" using a by (simp add: claimants_def)
    then have "set (fork_blocks f) = claimants s k" using fork_blocks_of [OF assms] f by simp
    moreover have "length (fork_blocks f) = length ds"
      using f \<open>block_key a = k\<close> position_entry(1) [OF assms k] by (simp add: fork_of_def fork_at_def)
    ultimately show "fork_blocks f ! 0 \<in> claimants s k" using pos by (metis nth_mem)
  qed (auto simp: claimants_def)
  then have "distinct (map fork_low (forks_found s))"
    by (auto simp: fork_low_def [abs_def] distinct_map inj_on_def)
  moreover have "mset (map fork_low (forks s)) = mset (map fork_low (forks_found s))"
    by (simp add: forks_def)
  ultimately have "distinct (map fork_low (forks s))" by (metis mset_eq_imp_distinct_iff)
  then show ?thesis by (simp add: strict_sorted_iff forks_def fork_low_def [abs_def, symmetric])
qed

lemma set_forks: "set (forks s) = set (forks_found s)"
  by (simp add: forks_def)

lemma forks_determined:
  assumes "store_ok cr s" and "store_ok cr t" and "held s = held t"
  shows "forks s = forks t"
proof (rule strict_unique [where f = fork_low])
  show "set (forks s) = set (forks t)"
    using forks_found_iff [OF assms(1)] forks_found_iff [OF assms(2)] fork_of_held [OF assms] assms(3)
    by (auto simp: set_forks)
qed (use forks_strict assms in auto)

section \<open>Tips\<close>

lemma tips_iff:
  assumes "store_ok cr s"
  shows "d \<in> set (tips s pub) \<longleftrightarrow> (\<exists>b. held s d = Some b \<and> block_pub b = pub) \<and>
    (\<forall>e c. held s e = Some c \<and> block_pub c = pub \<longrightarrow> block_prev c \<noteq> Some d)"
proof -
  have dist: "distinct (map fst (ms_blocks s))" using assms by (simp add: store_ok_def)
  then have mem: "(d, b) \<in> set (ms_blocks s) \<longleftrightarrow> held s d = Some b" for b
    by (auto simp: held_def map_of_is_SomeI dest: map_of_SomeD)
  have empty: "slice_at (ms_position s) (position_key pub (Some d)) = [] \<longleftrightarrow>
      (\<forall>e c. held s e = Some c \<and> block_pub c = pub \<longrightarrow> block_prev c \<noteq> Some d)" if "length pub = 32"
  proof -
    have "slice_at (ms_position s) (position_key pub (Some d)) = [] \<longleftrightarrow> claimants s (position_key pub (Some d)) = {}"
      using slice_claimants [OF assms, of "position_key pub (Some d)"] by auto
    also have "\<dots> \<longleftrightarrow> (\<forall>e c. held s e = Some c \<longrightarrow> block_key c \<noteq> position_key pub (Some d))"
      by (auto simp: claimants_def)
    also have "\<dots> \<longleftrightarrow> (\<forall>e c. held s e = Some c \<and> block_pub c = pub \<longrightarrow> block_prev c \<noteq> Some d)"
      using that sound_pub_length [OF store_okD(2) [OF assms]] by (auto simp: block_key_def position_key_inject)
    finally show ?thesis .
  qed
  have "d \<in> set (tips s pub) \<longleftrightarrow> (\<exists>b. held s d = Some b \<and> block_pub b = pub \<and>
      slice_at (ms_position s) (position_key pub (Some d)) = [])"
    using mem by (force simp: tips_def)
  then show ?thesis
    using empty sound_pub_length [OF store_okD(2) [OF assms]] by auto
qed

lemma tips_strict:
  assumes "store_ok cr s"
  shows "sorted_wrt (<) (map digest_bytes (tips s pub))"
  unfolding tips_def using assms
  by (intro sort_digests_strict) (auto simp: store_ok_def distinct_map_filter distinct_map inj_on_def)

lemma tips_determined:
  assumes "store_ok cr s" and "store_ok cr t" and "held s = held t"
  shows "tips s pub = tips t pub"
  by (rule strict_unique [where f = digest_bytes])
    (use tips_strict tips_iff assms in auto)

section \<open>Properties\<close>

text \<open>
  C32. Adding a sound block to a store keeps its three indexes exact: the block is held under its
  own digest, everything else is as it was, and a second addition changes nothing. A fork is
  reported exactly when a different block of the same author and predecessor is held, and the
  report lists precisely the blocks claiming that position in ascending order.
\<close>

theorem add_correct:
  assumes "store_ok cr s" and "sound_block cr b"
  shows "store_ok cr (fst (add cr b s)) \<and>
    held (fst (add cr b s)) = (held s)(block_digest cr b \<mapsto> (case held s (block_digest cr b) of Some a \<Rightarrow> a | None \<Rightarrow> b)) \<and>
    add cr b (fst (add cr b s)) = (fst (add cr b s), None) \<and>
    (held s (block_digest cr b) = None \<longrightarrow>
      (snd (add cr b s) = None \<longleftrightarrow> (\<forall>d a. held s d = Some a \<longrightarrow> \<not> is_fork cr a b)) \<and>
      (\<forall>e. snd (add cr b s) = Some e \<longrightarrow> (\<exists>f. e = Fork_error f \<and> fork_pub f = block_pub b \<and>
        fork_prev f = block_prev b \<and> sorted_wrt (<) (map digest_bytes (fork_blocks f)) \<and>
        set (fork_blocks f) = insert (block_digest cr b) (claimants s (block_key b)))))"
proof (intro conjI impI allI)
  show "store_ok cr (fst (add cr b s))" by (rule add_ok [OF assms])
  show h: "held (fst (add cr b s)) = (held s)(block_digest cr b \<mapsto> (case held s (block_digest cr b) of Some a \<Rightarrow> a | None \<Rightarrow> b))"
    by (rule ext) (auto simp: add_held split: option.splits)
  have "held (fst (add cr b s)) (block_digest cr b) \<noteq> None" by (simp add: h)
  then show "add cr b (fst (add cr b s)) = (fst (add cr b s), None)" by (simp add: add_def held_def Let_def)
qed (use add_report [OF assms] in blast)+

text \<open>
  What a store holds and reports does not depend on the order its blocks arrived in, nor on
  repetitions: when no two of the blocks collide under SHA-256, two stores given the same blocks
  hold the same ones, list the same forks in the same order, and have the same tips.
\<close>

theorem store_order_independent:
  assumes "\<forall>b \<in> set bs. sound_block cr b" and "inj_on (block_digest cr) (set bs)" and "set bs = set cs"
  shows "let s = fold (\<lambda>b s. fst (add cr b s)) bs new_mem_store; t = fold (\<lambda>b s. fst (add cr b s)) cs new_mem_store
    in held s = held t \<and> forks s = forks t \<and> tips s pub = tips t pub \<and>
      (\<forall>f. f \<in> set (forks s) \<longleftrightarrow> (\<exists>a \<in> set bs. \<exists>b \<in> set bs. is_fork cr a b \<and> f = fork_of s a))"
proof -
  let ?s = "fold (\<lambda>b s. fst (add cr b s)) bs new_mem_store" and ?t = "fold (\<lambda>b s. fst (add cr b s)) cs new_mem_store"
  have s: "store_ok cr ?s" using mem.inv_fold [OF mem.inv_none] assms(1) .
  have t: "store_ok cr ?t" using mem.inv_fold [OF mem.inv_none] assms(1,3) by simp
  have h: "held ?s = held ?t" using mem.get_order assms .
  have "held ?s d = Some b \<longleftrightarrow> b \<in> set bs \<and> block_digest cr b = d" for d b
    using mem.get_collected [OF assms(1,2)] .
  then have "f \<in> set (forks ?s) \<longleftrightarrow> (\<exists>a \<in> set bs. \<exists>b \<in> set bs. is_fork cr a b \<and> f = fork_of ?s a)" for f
    by (auto simp: set_forks forks_found_iff [OF s])
  then show ?thesis
    using h forks_determined [OF s t h] tips_determined [OF s t h] by (simp add: Let_def)
qed

section \<open>Witnesses\<close>

text \<open>Two genesis blocks of one key that a suitable hash tells apart: a fork.\<close>

definition ice :: atom where
  "ice = \<lparr>atom_description = ''ice'', atom_enc = write_head 5 1 @ text_key ''description'' @ text_key ''ice''\<rparr>"

lemma wf_ice: "wf_op (Create_atom ice)"
  by code_simp

lemma sound_sha256: "sound_block (cr\<lparr>sha256 := h\<rparr>) b = sound_block cr b"
  by (simp add: sound_block_def assemble_def)

lemma genesis_atom_block:
  assumes "wf_op (Create_atom a)" and "length (atom_description a) < 24"
  obtains b where "sign sample_crypto (genesis_content (Create_atom a)) sample_key = Inr b"
    and "decode_block sample_crypto (blk_enc b) = Inr b" and "sound_block sample_crypto b"
    and "block_ops b = [Create_atom a]" and "block_pub b = public_half sample_key" and "block_prev b = None"
    and "block_refs b = []" and "c_type (blk_content b) = type_public"
proof -
  obtain b where b: "sign sample_crypto (genesis_content (Create_atom a)) sample_key = Inr b"
    using sign_genesis [OF sample_honest wf_op_encodable [OF assms(1)]] by (auto simp: is_rotate_key_def)
  note c = sign_genesis_content [OF b]
  have "normal_content (blk_content b)" using assms(1) by (simp add: c normal_content_def) (simp add: genesis_content_def)
  then have "decode_block sample_crypto (blk_enc b) = Inr b"
    using genesis_atom_size [OF b assms(2)] sign_sound [OF b] by (simp add: decode_block_iff sound_block_def)
  then show thesis
    using b sign_sound [OF b] c by (intro that [of b])
      (simp_all add: block_ops_def block_pub_def block_prev_def block_refs_def genesis_content_def)
qed

lemma forking_blocks:
  obtains cr a b where "sound_block cr a" and "sound_block cr b" and "block_digest cr a \<noteq> block_digest cr b"
    and "is_fork cr a b" and "is_fork cr b a"
proof -
  obtain a where a: "decode_block sample_crypto (blk_enc a) = Inr a" "sound_block sample_crypto a"
    "block_ops a = [Create_atom water]" "block_pub a = public_half sample_key" "block_prev a = None"
    using genesis_atom_block [OF wf_water] by (auto simp: water_def)
  obtain b where b: "decode_block sample_crypto (blk_enc b) = Inr b" "sound_block sample_crypto b"
    "block_ops b = [Create_atom ice]" "block_pub b = public_half sample_key" "block_prev b = None"
    using genesis_atom_block [OF wf_ice] by (auto simp: ice_def)
  have "a \<noteq> b" using a(3) b(3) by (auto simp: water_def ice_def)
  then have ne: "blk_enc a \<noteq> blk_enc b" using a(1) b(1) by auto
  let ?cr = "sample_crypto\<lparr>sha256 := \<lambda>bs. if bs = blk_enc a then 1 else 2\<rparr>"
  have d: "block_digest ?cr a = 1" "block_digest ?cr b = 2"
    using ne by (simp_all add: block_digest_def sum_digest_def)
  show thesis
    using a b d by (intro that [of ?cr a b])
      (simp_all add: sound_sha256 is_fork_def same_author_def block_pub_def)
qed

theorem add_correct_witness:
  "\<exists>cr a b. sound_block cr a \<and> snd (add cr a new_mem_store) = None \<and>
    snd (add cr b (fst (add cr a new_mem_store))) \<noteq> None"
proof -
  obtain cr a b where ab: "sound_block cr a" "sound_block cr b" "block_digest cr a \<noteq> block_digest cr b" "is_fork cr a b"
    by (rule forking_blocks)
  let ?s = "fst (add cr a new_mem_store)"
  have none: "held new_mem_store d = None" for d by (simp add: mem.get_none)
  note one = add_correct [OF store_ok_empty ab(1)]
  then have s: "store_ok cr ?s" and h: "held ?s = [block_digest cr a \<mapsto> a]"
    by (auto simp: none)
  have "snd (add cr a new_mem_store) = None" using one none by auto
  moreover have "snd (add cr b ?s) \<noteq> None"
    using add_correct [OF s ab(2)] ab(3,4) by (auto simp: h)
  ultimately show ?thesis using ab(1) by blast
qed

theorem store_order_independent_witness:
  "\<exists>cr a b. forks (fst (add cr b (fst (add cr a new_mem_store)))) = forks (fst (add cr a (fst (add cr b new_mem_store)))) \<and>
    forks (fst (add cr b (fst (add cr a new_mem_store)))) \<noteq> []"
proof -
  obtain cr a b where ab: "sound_block cr a" "sound_block cr b" "block_digest cr a \<noteq> block_digest cr b" "is_fork cr a b"
    by (rule forking_blocks)
  have "\<forall>x \<in> set [a, b]. sound_block cr x" "inj_on (block_digest cr) (set [a, b])" "set [a, b] = set [b, a]"
    using ab by auto
  note r = store_order_independent [OF this, unfolded Let_def fold.simps comp_apply id_apply]
  let ?s = "fst (add cr b (fst (add cr a new_mem_store)))"
  have "fork_of ?s a \<in> set (forks ?s)"
    using conjunct2 [OF conjunct2 [OF conjunct2 [OF r]], rule_format, of "fork_of ?s a"] ab(4)
    by (metis list.set_intros(1,2))
  then have "forks ?s \<noteq> []" by auto
  with conjunct1 [OF conjunct2 [OF r]] show ?thesis by blast
qed

end
