(* ===== verification/Loop.thy ===== *)
theory Loop
  imports Prelude "HOL-Library.While_Combinator"
begin

text \<open>
  Loops whose body may fail and which may not end. A computation is \<open>None\<close> when it does not
  return, \<open>Some (Inl e)\<close> when it returns the error \<open>e\<close>, \<open>Some (Inr x)\<close> when it returns \<open>x\<close>.
  \<open>loopE p f s\<close> is \<open>for p { s, err = f(s); if err != nil { return err } }\<close>.
\<close>

definition bindD :: "('e + 'a) option \<Rightarrow> ('a \<Rightarrow> ('e + 'b) option) \<Rightarrow> ('e + 'b) option" where
  "bindD m f = (case m of None \<Rightarrow> None | Some (Inl e) \<Rightarrow> Some (Inl e) | Some (Inr x) \<Rightarrow> f x)"

lemma bindD_simps [simp]:
  "bindD None f = None" "bindD (Some (Inl e)) f = Some (Inl e)" "bindD (Some (Inr x)) f = f x"
  by (simp_all add: bindD_def)

lemma bindD_cong [fundef_cong]:
  "m = m' \<Longrightarrow> (\<And>x. m' = Some (Inr x) \<Longrightarrow> f x = f' x) \<Longrightarrow> bindD m f = bindD m' f'"
  by (simp add: bindD_def split: option.splits sum.splits)

lemma bindD_eq_Inr: "bindD m f = Some (Inr y) \<longleftrightarrow> (\<exists>x. m = Some (Inr x) \<and> f x = Some (Inr y))"
  by (simp add: bindD_def split: option.splits sum.splits)

lemma bindD_eq_Inl: "bindD m f = Some (Inl e) \<longleftrightarrow> m = Some (Inl e) \<or> (\<exists>x. m = Some (Inr x) \<and> f x = Some (Inl e))"
  by (simp add: bindD_def split: option.splits sum.splits)

lemma bindD_eq_None: "bindD m f = None \<longleftrightarrow> m = None \<or> (\<exists>x. m = Some (Inr x) \<and> f x = None)"
  by (simp add: bindD_def split: option.splits sum.splits)

definition mapErrD :: "('e \<Rightarrow> 'f) \<Rightarrow> ('e + 'a) option \<Rightarrow> ('f + 'a) option" where
  "mapErrD w m = map_option (mapErr w) m"

lemma mapErrD_simps [simp]:
  "mapErrD w None = None" "mapErrD w (Some (Inl e)) = Some (Inl (w e))" "mapErrD w (Some (Inr x)) = Some (Inr x)"
  by (simp_all add: mapErrD_def)

lemma mapErrD_eq_Inr [simp]: "mapErrD w m = Some (Inr x) \<longleftrightarrow> m = Some (Inr x)"
  by (cases m; cases "the m") (simp_all add: mapErrD_def)

lemma mapErrD_eq_None [simp]: "mapErrD w m = None \<longleftrightarrow> m = None"
  by (simp add: mapErrD_def)

lemma mapErrD_eq_Inl: "mapErrD w m = Some (Inl f) \<longleftrightarrow> (\<exists>e. m = Some (Inl e) \<and> f = w e)"
  by (auto simp: mapErrD_def mapErr_eq_Inl)

definition running :: "('s \<Rightarrow> bool) \<Rightarrow> 'e + 's \<Rightarrow> bool" where
  "running p x = (case x of Inl e \<Rightarrow> False | Inr s \<Rightarrow> p s)"

lemma running_simps [simp]: "running p (Inl e) = False" "running p (Inr s) = p s"
  by (simp_all add: running_def)

definition loopE :: "('s \<Rightarrow> bool) \<Rightarrow> ('s \<Rightarrow> 'e + 's) \<Rightarrow> 's \<Rightarrow> ('e + 's) option" where
  "loopE p f s = while_option (running p) (\<lambda>x. bindE x f) (Inr s)"

lemma loopE_unfold:
  "loopE p f s = (if p s then bindD (Some (f s)) (loopE p f) else Some (Inr s))"
proof (cases "p s")
  case True
  then have "loopE p f s = while_option (running p) (\<lambda>x. bindE x f) (f s)"
    unfolding loopE_def by (subst while_option_unfold) simp
  then show ?thesis
    using True by (cases "f s") (simp_all add: loopE_def while_option_unfold)
next
  case False
  then show ?thesis by (simp add: loopE_def while_option_unfold)
qed

lemma loopE_skip: "\<not> p s \<Longrightarrow> loopE p f s = Some (Inr s)"
  by (subst loopE_unfold) simp

text \<open>An invariant of the body holds wherever the loop stops, and where its body fails.\<close>

lemma loopE_rule:
  assumes "loopE p f s = Some r" and "I s"
    and step: "\<And>t t'. I t \<Longrightarrow> p t \<Longrightarrow> f t = Inr t' \<Longrightarrow> I t'"
  shows "case r of Inr t \<Rightarrow> I t \<and> \<not> p t | Inl e \<Rightarrow> \<exists>t. I t \<and> p t \<and> f t = Inl e"
proof -
  let ?J = "\<lambda>x. case x of Inr t \<Rightarrow> I t | Inl e \<Rightarrow> \<exists>t. I t \<and> p t \<and> f t = Inl e"
  have "?J r"
  proof (rule while_option_rule [OF _ assms(1) [unfolded loopE_def]])
    show "?J (Inr s)" using assms(2) by simp
    fix x assume "?J x" and "running p x"
    then obtain t where x: "x = Inr t" "I t" "p t" by (cases x) auto
    then show "?J (bindE x f)" using step by (cases "f t") auto
  qed
  moreover have "\<not> running p r" using while_option_stop [OF assms(1) [unfolded loopE_def]] .
  ultimately show ?thesis by (cases r) auto
qed

lemmas loopE_Inr = loopE_rule [where r = "Inr _", simplified]
lemmas loopE_Inl = loopE_rule [where r = "Inl _", simplified]

text \<open>A loop whose body descends in a well-founded relation returns.\<close>

lemma loopE_returns:
  assumes "wf R" and "I s"
    and step: "\<And>t t'. I t \<Longrightarrow> p t \<Longrightarrow> f t = Inr t' \<Longrightarrow> I t' \<and> (t', t) \<in> R"
  shows "loopE p f s \<noteq> None"
  using assms(2)
proof (induction s rule: wf_induct_rule [OF assms(1)])
  case (1 s)
  show ?case
  proof (cases "p s")
    case True
    then show ?thesis using step 1 by (subst loopE_unfold, cases "f s") auto
  next
    case False
    then show ?thesis by (simp add: loopE_skip)
  qed
qed

section \<open>Loops whose body may not return\<close>

definition stepping :: "('s \<Rightarrow> bool) \<Rightarrow> ('e + 's) option \<Rightarrow> bool" where
  "stepping p m = (case m of Some (Inr s) \<Rightarrow> p s | _ \<Rightarrow> False)"

lemma stepping_simps [simp]:
  "stepping p None = False" "stepping p (Some (Inl e)) = False" "stepping p (Some (Inr s)) = p s"
  by (simp_all add: stepping_def)

definition loopD :: "('s \<Rightarrow> bool) \<Rightarrow> ('s \<Rightarrow> ('e + 's) option) \<Rightarrow> 's \<Rightarrow> ('e + 's) option" where
  "loopD p f s =
    (case while_option (stepping p) (\<lambda>m. bindD m f) (Some (Inr s)) of None \<Rightarrow> None | Some r \<Rightarrow> r)"

lemma loopD_unfold:
  "loopD p f s = (if p s then bindD (f s) (loopD p f) else Some (Inr s))"
proof (cases "p s")
  case True
  then have "loopD p f s = (case while_option (stepping p) (\<lambda>m. bindD m f) (f s) of None \<Rightarrow> None | Some r \<Rightarrow> r)"
    unfolding loopD_def by (subst while_option_unfold) simp
  also have "\<dots> = bindD (f s) (loopD p f)"
  proof (cases "f s")
    case (Some x)
    then show ?thesis by (cases x) (simp_all add: loopD_def while_option_unfold)
  qed (simp add: while_option_unfold)
  finally show ?thesis using True by simp
next
  case False
  then show ?thesis by (simp add: loopD_def while_option_unfold)
qed

lemma loopD_rule:
  fixes f :: "'s \<Rightarrow> ('e + 's) option"
  assumes "loopD p f s = Some (Inr t)" and "I s"
    and step: "\<And>t t'. I t \<Longrightarrow> p t \<Longrightarrow> f t = Some (Inr t') \<Longrightarrow> I t'"
  shows "I t \<and> \<not> p t"
proof -
  obtain r where r: "while_option (stepping p) (\<lambda>m. bindD m f) (Some (Inr s)) = Some r" and rt: "r = Some (Inr t)"
    using assms(1) by (auto simp: loopD_def split: option.splits)
  let ?J = "\<lambda>m. \<forall>t. m = Some (Inr t) \<longrightarrow> I t"
  have "?J r"
  proof (rule while_option_rule [OF _ r])
    fix m :: "('e + 's) option" assume J: "?J m" and "stepping p m"
    then obtain u where "m = Some (Inr u)" "I u" "p u" by (auto simp: stepping_def split: option.splits sum.splits)
    then show "?J (bindD m f)" using step by (auto simp: bindD_eq_Inr)
  qed (use assms(2) in simp)
  moreover have "\<not> stepping p r" using while_option_stop [OF r] .
  ultimately show ?thesis by (simp add: rt)
qed

lemma loopD_returns:
  fixes f :: "'s \<Rightarrow> ('e + 's) option"
  assumes "wf R" and "I s"
    and step: "\<And>t. I t \<Longrightarrow> p t \<Longrightarrow> (\<exists>e. f t = Some (Inl e)) \<or> (\<exists>t'. f t = Some (Inr t') \<and> I t' \<and> (t', t) \<in> R)"
  shows "loopD p f s \<noteq> None"
  using assms(2)
proof (induction s rule: wf_induct_rule [OF assms(1)])
  case (1 s)
  show ?case
  proof (cases "p s")
    case True
    then show ?thesis using step [OF 1(2)] 1(1) by (subst loopD_unfold) auto
  next
    case False
    then show ?thesis by (subst loopD_unfold) simp
  qed
qed

end
