(* ===== verification/Validate.thy ===== *)
theory Validate
  imports Store Loop
begin

text \<open>
  Validation of one block against the ten numbered rules (\<open>go/block/validate.go\<close>), reading
  other blocks through a source. A source is a record of the functions of its interface, the
  optional interfaces \<open>Siblings\<close>, \<open>Referrers\<close> and \<open>Verdicts\<close> being options; so is a decrypter.
  The two loops of the resolver are the partial loops of \<open>Loop\<close>, so a validation that does
  not return is \<open>None\<close>.
\<close>

section \<open>Sources, options and reports\<close>

text \<open>What a warning says.\<close>

datatype notice =
    No_siblings_notice
  | Private_block_notice
  | Backwards_timestamp uint64 uint64
  | Type_and_author_unchecked digest
  | Author_unchecked digest
  | Private_ancestor digest
  | Missing_reference digest
  | Private_reference_unread digest

record warning =
  w_rule :: nat
  w_block :: digest
  w_msg :: notice

record report =
  r_warnings :: "warning list"
  r_forks :: "fork list"
  r_scanned :: nat
  r_unchecked :: "nat list"
  r_unchecked_refs :: "digest list"

definition empty_report :: report where
  "empty_report = \<lparr>r_warnings = [], r_forks = [], r_scanned = 0, r_unchecked = [], r_unchecked_refs = []\<rparr>"

definition warn :: "nat \<Rightarrow> digest \<Rightarrow> notice \<Rightarrow> report \<Rightarrow> report" where
  "warn rule d msg r = r\<lparr>r_warnings := r_warnings r @ [\<lparr>w_rule = rule, w_block = d, w_msg = msg\<rparr>]\<rparr>"

record source =
  src_block :: "digest \<Rightarrow> block_error + block"
  src_siblings :: "(byte list \<Rightarrow> digest option \<Rightarrow> digest list) option"
  src_referrers :: "(digest \<Rightarrow> digest list) option"
  src_verdict :: "(digest \<Rightarrow> verdict \<times> report option) option"

type_synonym decrypter = "block \<Rightarrow> block_error + payload option"

record options =
  opt_scan_limit :: int
  opt_decrypter :: "decrypter option"

definition default_scan_limit :: int where "default_scan_limit = 256"

definition scan_limit :: "options option \<Rightarrow> int" where
  "scan_limit opts =
    (case opts of None \<Rightarrow> default_scan_limit
     | Some o' \<Rightarrow> if opt_scan_limit o' = 0 then default_scan_limit else opt_scan_limit o')"

definition decrypter_of :: "options option \<Rightarrow> decrypter option" where
  "decrypter_of opts = (case opts of None \<Rightarrow> None | Some o' \<Rightarrow> opt_decrypter o')"

section \<open>Rules 1, 2, 3, 7 and 9\<close>

definition validate_linkage :: "crypto \<Rightarrow> block \<Rightarrow> source \<Rightarrow> report \<Rightarrow> block_error + report" where
  "validate_linkage cr b src report =
    (case block_prev b of
       None \<Rightarrow> Inr report
     | Some p \<Rightarrow>
         (case src_block src p of
            Inl e \<Rightarrow>
              let inner = Previous_error p e in
              Inl (Rule_error 3 (block_digest cr b)
                (if is_not_found e then Pending_error p False inner else inner))
          | Inr prev \<Rightarrow>
              let verdict = (case src_verdict src of Some v \<Rightarrow> fst (v p) | None \<Rightarrow> Verdict_valid) in
              if verdict \<noteq> Verdict_valid then
                Inl (Rule_error 3 (block_digest cr b) (Pending_error p False (Unaccepted p verdict)))
              else if \<not> same_author prev b then Inl (Rule_error 3 (block_digest cr b) (Wrong_author p))
              else if c_type (blk_content prev) = type_rotation then
                Inl (Rule_error 3 (block_digest cr b) (After_rotation p))
              else if c_type (blk_content b) \<noteq> type_private \<and> c_type (blk_content prev) \<noteq> type_private \<and>
                  c_ts (blk_content b) < c_ts (blk_content prev) then
                Inr (warn 0 (block_digest cr b)
                  (Backwards_timestamp (c_ts (blk_content b)) (c_ts (blk_content prev))) report)
              else Inr report))"

definition detect_fork ::
    "crypto \<Rightarrow> block \<Rightarrow> (byte list \<Rightarrow> digest option \<Rightarrow> digest list) \<Rightarrow> fork option" where
  "detect_fork cr b siblings =
    (let d = block_digest cr b;
         others = filter (\<lambda>sib. sib \<noteq> d) (siblings (block_pub b) (block_prev b))
     in if others = [] then None
        else Some \<lparr>fork_pub = block_pub b, fork_prev = block_prev b, fork_blocks = sort_digests (others @ [d])\<rparr>)"

section \<open>The resolver\<close>

record entity_record =
  rec_kind :: entity_kind
  rec_bond :: bond

definition zero_bond :: bond where
  "zero_bond = \<lparr>bond_template = '''', bond_variables = [], bond_enc = []\<rparr>"

text \<open>What a resolver is built with, and what it keeps between lookups.\<close>

record resolver_env =
  rv_crypto :: crypto
  rv_block :: block
  rv_src :: source
  rv_limit :: int
  rv_decrypter :: "decrypter option"

record resolver =
  rv_report :: report
  rv_defs :: "digest \<Rightarrow> entity_record option"
  rv_cache :: "digest \<Rightarrow> block option"
  rv_next :: "digest option"
  rv_ancestor_gap :: "digest option"
  rv_refs_gap :: "digest option"
  rv_key_gap :: "digest option"
  rv_warned :: bool
  rv_queue :: "digest list"
  rv_visited :: "digest \<Rightarrow> bool"
  rv_scanned :: nat

definition fetch :: "resolver_env \<Rightarrow> digest \<Rightarrow> resolver \<Rightarrow> block_error + resolver \<times> block" where
  "fetch E d r =
    (case rv_cache r d of
       Some b \<Rightarrow> Inr (r, b)
     | None \<Rightarrow> bindE (src_block (rv_src E) d) (\<lambda>b. Inr (r\<lparr>rv_cache := (rv_cache r)(d \<mapsto> b)\<rparr>, b)))"

definition define_op :: "crypto \<Rightarrow> operation \<Rightarrow> resolver \<Rightarrow> resolver" where
  "define_op cr op r =
    (case creates (sha256 cr) op of None \<Rightarrow> r
     | Some (d, kind) \<Rightarrow>
         if rv_defs r d \<noteq> None then r
         else r\<lparr>rv_defs := (rv_defs r)(d \<mapsto>
           \<lparr>rec_kind = kind, rec_bond = (case op of Create_bond b \<Rightarrow> b | _ \<Rightarrow> zero_bond)\<rparr>)\<rparr>)"

definition define_all :: "crypto \<Rightarrow> operation list \<Rightarrow> resolver \<Rightarrow> resolver" where
  "define_all cr ops r = foldl (\<lambda>r op. define_op cr op r) r ops"

definition decrypt_block :: "resolver_env \<Rightarrow> block \<Rightarrow> block_error + payload option" where
  "decrypt_block E b =
    (case rv_decrypter E of
       None \<Rightarrow> Inr None
     | Some dec \<Rightarrow>
         bindE (mapErr (Decrypt_error (block_digest (rv_crypto E) b)) (dec b)) (\<lambda>found.
         case found of
           None \<Rightarrow> Inr None
         | Some p \<Rightarrow> bindE (mapErr Form (validate_payload_form p)) (\<lambda>_. Inr (Some p))))"

definition note_key_gap :: "digest \<Rightarrow> resolver \<Rightarrow> resolver" where
  "note_key_gap d r = (if rv_key_gap r = None then r\<lparr>rv_key_gap := Some d\<rparr> else r)"

definition resolver_warn :: "resolver_env \<Rightarrow> notice \<Rightarrow> resolver \<Rightarrow> resolver" where
  "resolver_warn E msg r = r\<lparr>rv_report := warn 4 (block_digest (rv_crypto E) (rv_block E)) msg (rv_report r)\<rparr>"

definition is_private :: "block \<Rightarrow> bool" where
  "is_private b \<longleftrightarrow> c_type (blk_content b) = type_private"

text \<open>\<open>extendAncestors\<close>: one more ancestor of the author's own chain.\<close>

definition extend_ancestors :: "resolver_env \<Rightarrow> resolver \<Rightarrow> block_error + resolver" where
  "extend_ancestors E r =
    (let d = the (rv_next r) in
     case fetch E d r of
       Inl e \<Rightarrow> if is_not_found e then Inr (r\<lparr>rv_ancestor_gap := Some d, rv_next := None\<rparr>) else Inl e
     | Inr (r1, ancestor) \<Rightarrow>
         bindE (if is_private ancestor then
             bindE (decrypt_block E ancestor) (\<lambda>found.
             case found of
               Some p \<Rightarrow> Inr (r1, p_ops p)
             | None \<Rightarrow>
                 let r2 = note_key_gap d r1 in
                 Inr (if rv_warned r2 then r2 else (resolver_warn E (Private_ancestor d) r2)\<lparr>rv_warned := True\<rparr>,
                   block_ops ancestor))
           else Inr (r1, block_ops ancestor)) (\<lambda>(r2, ops).
         Inr ((define_all (rv_crypto E) ops r2)\<lparr>rv_next := block_prev ancestor\<rparr>)))"

text \<open>\<open>extendRefs\<close>: the block at the head of the queue, if it has not been visited.\<close>

definition extend_refs :: "resolver_env \<Rightarrow> resolver \<Rightarrow> block_error + resolver" where
  "extend_refs E r =
    (let d = hd (rv_queue r); r0 = r\<lparr>rv_queue := tl (rv_queue r)\<rparr> in
     if rv_visited r0 d then Inr r0
     else let r1 = r0\<lparr>rv_visited := (rv_visited r0)(d := True)\<rparr> in
       case fetch E d r1 of
         Inl e \<Rightarrow>
           if is_not_found e then
             Inr (resolver_warn E (Missing_reference d)
               (if rv_refs_gap r1 = None then r1\<lparr>rv_refs_gap := Some d\<rparr> else r1))
           else Inl e
       | Inr (r2, target) \<Rightarrow>
           if 0 \<le> rv_limit E \<and> rv_limit E \<le> int (rv_scanned r2) then Inl (Scan_limit (rv_limit E))
           else let r3 = r2\<lparr>rv_scanned := rv_scanned r2 + 1\<rparr> in
             if is_private target then
               bindE (decrypt_block E target) (\<lambda>found.
               case found of
                 None \<Rightarrow> Inr (resolver_warn E (Private_reference_unread d) (note_key_gap d r3))
               | Some p \<Rightarrow>
                   (let r4 = define_all (rv_crypto E) (p_ops p) r3 in
                    Inr (r4\<lparr>rv_queue := rv_queue r4 @ p_refs p\<rparr>)))
             else
               (let r4 = define_all (rv_crypto E) (block_ops target) r3 in
                Inr (r4\<lparr>rv_queue := rv_queue r4 @ block_refs target\<rparr>)))"

definition ancestors_loop :: "resolver_env \<Rightarrow> digest \<Rightarrow> resolver \<Rightarrow> (block_error + resolver) option" where
  "ancestors_loop E d = loopE (\<lambda>r. rv_defs r d = None \<and> rv_next r \<noteq> None) (extend_ancestors E)"

definition refs_loop :: "resolver_env \<Rightarrow> digest \<Rightarrow> resolver \<Rightarrow> (block_error + resolver) option" where
  "refs_loop E d = loopE (\<lambda>r. rv_defs r d = None \<and> rv_queue r \<noteq> []) (extend_refs E)"

definition unresolved :: "digest \<Rightarrow> resolver \<Rightarrow> block_error" where
  "unresolved d r =
    (case rv_ancestor_gap r of Some g \<Rightarrow> Pending_error g False (Incomplete_chain d g)
     | None \<Rightarrow>
    (case rv_refs_gap r of Some g \<Rightarrow> Pending_error g False (Incomplete_refs d g)
     | None \<Rightarrow>
    (case rv_key_gap r of Some g \<Rightarrow> Pending_error g True (Undecryptable d g)
     | None \<Rightarrow> Unreachable_entity d)))"

text \<open>\<open>resolve\<close>: the definition of a digest and the state of the search after it.\<close>

definition resolve :: "resolver_env \<Rightarrow> digest \<Rightarrow> resolver \<Rightarrow> (block_error + resolver \<times> entity_record) option" where
  "resolve E d r =
    bindD (ancestors_loop E d r) (\<lambda>r1.
    case rv_defs r1 d of
      Some rec \<Rightarrow> Some (Inr (r1, rec))
    | None \<Rightarrow>
        bindD (refs_loop E d r1) (\<lambda>r2.
        case rv_defs r2 d of
          Some rec \<Rightarrow> Some (Inr (r2, rec))
        | None \<Rightarrow> Some (Inl (unresolved d r2))))"

section \<open>Rules 4, 5, 6 and 10\<close>

text \<open>The single pass over the refs for rules 6 and 10.\<close>

fun check_refs :: "resolver_env \<Rightarrow> digest list \<Rightarrow> resolver \<Rightarrow> block_error + resolver" where
  "check_refs E [] r = Inr r"
| "check_refs E (ref # refs) r =
    (let b = rv_block E; bd = block_digest (rv_crypto E) b; public = c_type (blk_content b) = type_public in
     case fetch E ref r of
       Inl e \<Rightarrow>
         if is_not_found e then
           let report = (rv_report r)\<lparr>r_unchecked_refs := r_unchecked_refs (rv_report r) @ [ref]\<rparr> in
           check_refs E refs (r\<lparr>rv_report :=
             if public then warn 6 bd (Type_and_author_unchecked ref) report
             else warn 10 bd (Author_unchecked ref) report\<rparr>)
         else Inl e
     | Inr (r1, target) \<Rightarrow>
         if public \<and> is_private target then Inl (Rule_error 6 bd (Private_reference ref))
         else if same_author target b then Inl (Rule_error 10 bd (Own_chain_reference ref))
         else check_refs E refs r1)"

fun check_references :: "resolver_env \<Rightarrow> nat \<Rightarrow> operation \<Rightarrow> reference list \<Rightarrow> resolver \<Rightarrow>
    (block_error + resolver) option" where
  "check_references E i op [] r = Some (Inr r)"
| "check_references E i op (ref # refs) r =
    (let bd = block_digest (rv_crypto E) (rv_block E) in
     bindD (mapErrD (\<lambda>e. Rule_error 4 bd (Operation_error i (op_name op) (ref_field ref) e))
       (resolve E (ref_digest ref) r)) (\<lambda>(r1, rec).
     if rec_kind rec \<noteq> ref_kind ref then
       Some (Inl (Rule_error 5 bd (Kind_mismatch i (ref_field ref) (ref_kind ref) (rec_kind rec))))
     else check_references E i op refs r1))"

text \<open>
  Rule 5 for a molecule. A digest the map does not hold would give the zero record; the check of
  the references has put the bond's digest there.
\<close>

definition check_molecule :: "resolver_env \<Rightarrow> nat \<Rightarrow> operation \<Rightarrow> resolver \<Rightarrow> block_error + unit" where
  "check_molecule E i op r =
    (case op of
       Create_molecule m \<Rightarrow>
         let bond = (case rv_defs r (mol_bond m) of Some rec \<Rightarrow> rec_bond rec | None \<Rightarrow> zero_bond) in
         mapErr (\<lambda>e. Rule_error 5 (block_digest (rv_crypto E) (rv_block E)) (Molecule_error i e))
           (validate_against (sha256 (rv_crypto E)) m bond)
     | _ \<Rightarrow> Inr ())"

fun check_ops :: "resolver_env \<Rightarrow> nat \<Rightarrow> operation list \<Rightarrow> resolver \<Rightarrow> (block_error + resolver) option" where
  "check_ops E i [] r = Some (Inr r)"
| "check_ops E i (op # ops) r =
    bindD (check_references E i op (references op) r) (\<lambda>r1.
    bindD (Some (check_molecule E i op r1)) (\<lambda>_.
    check_ops E (i + 1) ops (define_op (rv_crypto E) op r1)))"

definition new_resolver :: "block \<Rightarrow> report \<Rightarrow> resolver" where
  "new_resolver b report =
    \<lparr>rv_report = report, rv_defs = (\<lambda>_. None), rv_cache = (\<lambda>_. None), rv_next = block_prev b,
     rv_ancestor_gap = None, rv_refs_gap = None, rv_key_gap = None, rv_warned = False,
     rv_queue = [], rv_visited = (\<lambda>_. False), rv_scanned = 0\<rparr>"

definition resolver_env_of :: "crypto \<Rightarrow> block \<Rightarrow> source \<Rightarrow> options option \<Rightarrow> resolver_env" where
  "resolver_env_of cr b src opts =
    \<lparr>rv_crypto = cr, rv_block = b, rv_src = src, rv_limit = scan_limit opts, rv_decrypter = decrypter_of opts\<rparr>"

definition validate_references :: "crypto \<Rightarrow> block \<Rightarrow> digest list \<Rightarrow> operation list \<Rightarrow> source \<Rightarrow>
    options option \<Rightarrow> report \<Rightarrow> (block_error + report) option" where
  "validate_references cr b refs ops src opts report =
    (let E = resolver_env_of cr b src opts in
     bindD (Some (check_refs E refs (new_resolver b report))) (\<lambda>r1.
     bindD (check_ops E 0 ops (r1\<lparr>rv_queue := refs\<rparr>)) (\<lambda>r2.
     Some (Inr ((rv_report r2)\<lparr>r_scanned := rv_scanned r2\<rparr>)))))"

section \<open>Validation\<close>

definition validate_header :: "crypto \<Rightarrow> block \<Rightarrow> source \<Rightarrow> block_error + report" where
  "validate_header cr b src =
    (let d = block_digest cr b in
     if c_version (blk_content b) \<noteq> protocol_version then
       Inl (Rule_error 1 d (Form (Wrong_version (c_version (blk_content b)))))
     else bindE (mapErr (\<lambda>e. Rule_error 2 d (Form e)) (block_verify cr b)) (\<lambda>_.
     if has_plaintext_payload (c_type (blk_content b)) \<and> block_ops b = [] then Inl (Rule_error 7 d Empty_operations)
     else bindE (validate_linkage cr b src empty_report) (\<lambda>report.
     case src_siblings src of
       Some siblings \<Rightarrow>
         Inr (case detect_fork cr b siblings of None \<Rightarrow> report
              | Some f \<Rightarrow> report\<lparr>r_forks := r_forks report @ [f]\<rparr>)
     | None \<Rightarrow> Inr (warn 9 d No_siblings_notice report))))"

definition validate :: "crypto \<Rightarrow> block \<Rightarrow> source \<Rightarrow> options option \<Rightarrow> (block_error + report) option" where
  "validate cr b src opts =
    bindD (Some (validate_header cr b src)) (\<lambda>report.
    if is_private b then
      Some (Inr (warn 0 (block_digest cr b) Private_block_notice
        (report\<lparr>r_unchecked := r_unchecked report @ [4, 5, 6, 10]\<rparr>)))
    else validate_references cr b (block_refs b) (block_ops b) src opts report)"

definition validate_payload :: "crypto \<Rightarrow> block \<Rightarrow> payload \<Rightarrow> source \<Rightarrow> options option \<Rightarrow>
    (block_error + report) option" where
  "validate_payload cr b p src opts =
    (if \<not> is_private b then Some (Inl Not_private)
     else bindD (Some (mapErr Form (validate_payload_form p))) (\<lambda>_.
       validate_references cr b (p_refs p) (p_ops p) src opts empty_report))"

end
