(* ===== verification/Resolution.thy ===== *)
theory Resolution
  imports Validate
begin

text \<open>
  What the search of \<open>Validate\<close> for the entities a block names does: each step as the fields it
  changes, a rule for invariants of the search, what a successful check of the operations
  establishes, when the search returns, and the invariants that say it finds only what the source
  holds and overlooks nothing it could read.
\<close>

section \<open>One step of the resolver\<close>

definition cache_ok :: "resolver_env \<Rightarrow> resolver \<Rightarrow> bool" where
  "cache_ok E r \<longleftrightarrow> (\<forall>d b. rv_cache r d = Some b \<longrightarrow> src_block (rv_src E) d = Inr b)"

lemma fetch_source:
  "cache_ok E r \<Longrightarrow> fetch E d r =
    bindE (src_block (rv_src E) d) (\<lambda>b. Inr (r\<lparr>rv_cache := (rv_cache r)(d \<mapsto> b)\<rparr>, b))"
  by (cases "rv_cache r d") (auto simp: fetch_def cache_ok_def fun_upd_idem)

text \<open>The payload resolution reads in a block, if it can read it.\<close>

definition readable :: "resolver_env \<Rightarrow> block \<Rightarrow> payload option" where
  "readable E t =
    (if is_private t then (case decrypt_block E t of Inr (Some p) \<Rightarrow> Some p | _ \<Rightarrow> None)
     else Some \<lparr>p_refs = block_refs t, p_ts = c_ts (blk_content t), p_ops = block_ops t\<rparr>)"

definition visible_ops :: "resolver_env \<Rightarrow> block \<Rightarrow> operation list" where
  "visible_ops E t = (case readable E t of Some p \<Rightarrow> p_ops p | None \<Rightarrow> block_ops t)"

text \<open>Only the definitions change when operations are defined.\<close>

lemma define_op_fields [simp]:
  "rv_report (define_op cr op r) = rv_report r" "rv_cache (define_op cr op r) = rv_cache r"
  "rv_next (define_op cr op r) = rv_next r" "rv_ancestor_gap (define_op cr op r) = rv_ancestor_gap r"
  "rv_refs_gap (define_op cr op r) = rv_refs_gap r" "rv_key_gap (define_op cr op r) = rv_key_gap r"
  "rv_warned (define_op cr op r) = rv_warned r" "rv_queue (define_op cr op r) = rv_queue r"
  "rv_visited (define_op cr op r) = rv_visited r" "rv_scanned (define_op cr op r) = rv_scanned r"
  by (simp_all add: define_op_def split: option.splits prod.splits)

lemma define_all_simps [simp]:
  "define_all cr [] r = r" "define_all cr (op # ops) r = define_all cr ops (define_op cr op r)"
  by (simp_all add: define_all_def)

lemma define_all_fields [simp]:
  "rv_report (define_all cr ops r) = rv_report r" "rv_cache (define_all cr ops r) = rv_cache r"
  "rv_next (define_all cr ops r) = rv_next r" "rv_ancestor_gap (define_all cr ops r) = rv_ancestor_gap r"
  "rv_refs_gap (define_all cr ops r) = rv_refs_gap r" "rv_key_gap (define_all cr ops r) = rv_key_gap r"
  "rv_warned (define_all cr ops r) = rv_warned r" "rv_queue (define_all cr ops r) = rv_queue r"
  "rv_visited (define_all cr ops r) = rv_visited r" "rv_scanned (define_all cr ops r) = rv_scanned r"
  by (induction ops arbitrary: r) simp_all

definition op_defines :: "crypto \<Rightarrow> operation \<Rightarrow> digest \<Rightarrow> entity_record \<Rightarrow> bool" where
  "op_defines cr op d rec \<longleftrightarrow> creates (sha256 cr) op = Some (d, rec_kind rec) \<and>
    rec_bond rec = (case op of Create_bond b \<Rightarrow> b | _ \<Rightarrow> zero_bond)"

lemma define_op_defs:
  "rv_defs (define_op cr op r) d =
    (case rv_defs r d of Some rec \<Rightarrow> Some rec
     | None \<Rightarrow> (case creates (sha256 cr) op of
         Some (d', kind) \<Rightarrow> if d' = d then Some \<lparr>rec_kind = kind,
           rec_bond = (case op of Create_bond b \<Rightarrow> b | _ \<Rightarrow> zero_bond)\<rparr> else None
       | None \<Rightarrow> None))"
  by (auto simp: define_op_def split: option.splits prod.splits)

lemma define_op_mono: "rv_defs r d = Some rec \<Longrightarrow> rv_defs (define_op cr op r) d = Some rec"
  by (simp add: define_op_defs)

lemma define_op_new: "rv_defs (define_op cr op r) d = Some rec \<Longrightarrow> rv_defs r d = Some rec \<or> op_defines cr op d rec"
  by (auto simp: define_op_defs op_defines_def split: option.splits if_splits)

lemma define_op_done: "creates (sha256 cr) op = Some (d, k) \<Longrightarrow> rv_defs (define_op cr op r) d \<noteq> None"
  by (simp add: define_op_defs split: option.splits)

lemma define_all_mono: "rv_defs r d = Some rec \<Longrightarrow> rv_defs (define_all cr ops r) d = Some rec"
  by (induction ops arbitrary: r) (simp_all add: define_op_mono)

lemma define_all_new:
  "rv_defs (define_all cr ops r) d = Some rec \<Longrightarrow> rv_defs r d = Some rec \<or> (\<exists>op \<in> set ops. op_defines cr op d rec)"
  by (induction ops arbitrary: r) (auto dest: define_op_new)

lemma define_all_done:
  "op \<in> set ops \<Longrightarrow> creates (sha256 cr) op = Some (d, k) \<Longrightarrow> rv_defs (define_all cr ops r) d \<noteq> None"
proof (induction ops arbitrary: r)
  case (Cons a ops)
  show ?case
  proof (cases "op = a")
    case True
    then obtain rec where "rv_defs (define_op cr a r) d = Some rec"
      using define_op_done [OF Cons.prems(2), of r] by auto
    then show ?thesis using define_all_mono [of "define_op cr a r"] by simp
  qed (use Cons in simp)
qed simp

text \<open>What one call of \<open>extendAncestors\<close> or \<open>extendRefs\<close> does, as the fields it changes.\<close>

lemma extend_ancestors_cases:
  assumes "extend_ancestors E r = Inr r'" and "rv_next r = Some d" and "cache_ok E r"
  obtains (gap) e where "src_block (rv_src E) d = Inl e" "is_not_found e"
      "r' = r\<lparr>rv_ancestor_gap := Some d, rv_next := None\<rparr>"
    | (fold) t r1 where "src_block (rv_src E) d = Inr t"
      "r' = (define_all (rv_crypto E) (visible_ops E t) r1)\<lparr>rv_next := block_prev t\<rparr>"
      "rv_defs r1 = rv_defs r" "rv_cache r1 = (rv_cache r)(d \<mapsto> t)" "rv_ancestor_gap r1 = rv_ancestor_gap r"
      "rv_refs_gap r1 = rv_refs_gap r" "rv_queue r1 = rv_queue r" "rv_visited r1 = rv_visited r" "rv_scanned r1 = rv_scanned r"
      "rv_key_gap r1 = (if readable E t = None \<and> rv_key_gap r = None then Some d else rv_key_gap r)"
      "readable E t = None \<Longrightarrow> is_private t \<and> decrypt_block E t = Inr None"
      "r_unchecked_refs (rv_report r1) = r_unchecked_refs (rv_report r)"
      "r_forks (rv_report r1) = r_forks (rv_report r)"
proof (cases "src_block (rv_src E) d")
  case (Inl e)
  then show thesis
    using assms gap by (auto simp: extend_ancestors_def fetch_source split: if_splits)
next
  case (Inr t)
  let ?r = "r\<lparr>rv_cache := (rv_cache r)(d \<mapsto> t)\<rparr>"
  show thesis
  proof (cases "is_private t")
    case False
    then have "r' = (define_all (rv_crypto E) (block_ops t) ?r)\<lparr>rv_next := block_prev t\<rparr>"
      using assms Inr by (simp add: extend_ancestors_def fetch_source)
    then show thesis
      using False Inr by (intro fold [of t ?r]) (simp_all add: visible_ops_def readable_def)
  next
    case True
    then obtain found where f: "decrypt_block E t = Inr found"
      using assms Inr by (cases "decrypt_block E t") (simp_all add: extend_ancestors_def fetch_source)
    show thesis
    proof (cases found)
      case (Some p)
      then have "r' = (define_all (rv_crypto E) (p_ops p) ?r)\<lparr>rv_next := block_prev t\<rparr>"
        using assms Inr True f by (simp add: extend_ancestors_def fetch_source)
      then show thesis
        using True Inr f Some by (intro fold [of t ?r]) (simp_all add: visible_ops_def readable_def)
    next
      case None
      let ?r2 = "note_key_gap d ?r"
      let ?r3 = "if rv_warned ?r2 then ?r2 else (resolver_warn E (Private_ancestor d) ?r2)\<lparr>rv_warned := True\<rparr>"
      have "r' = (define_all (rv_crypto E) (block_ops t) ?r3)\<lparr>rv_next := block_prev t\<rparr>"
        using assms Inr True f None by (simp add: extend_ancestors_def fetch_source Let_def)
      then show thesis
        using True Inr f None
        by (intro fold [of t ?r3]) (simp_all add: visible_ops_def readable_def note_key_gap_def resolver_warn_def warn_def)
    qed
  qed
qed

lemma extend_refs_cases:
  assumes "extend_refs E r = Inr r'" and "rv_queue r = d # q" and "cache_ok E r"
  obtains (visited) "rv_visited r d" "r' = r\<lparr>rv_queue := q\<rparr>"
    | (missing) e where "\<not> rv_visited r d" "src_block (rv_src E) d = Inl e" "is_not_found e"
      "rv_defs r' = rv_defs r" "rv_cache r' = rv_cache r" "rv_next r' = rv_next r"
      "rv_ancestor_gap r' = rv_ancestor_gap r" "rv_refs_gap r' = (if rv_refs_gap r = None then Some d else rv_refs_gap r)"
      "rv_key_gap r' = rv_key_gap r" "rv_queue r' = q" "rv_visited r' = (rv_visited r)(d := True)" "rv_scanned r' = rv_scanned r"
      "r_unchecked_refs (rv_report r') = r_unchecked_refs (rv_report r)" "r_forks (rv_report r') = r_forks (rv_report r)"
    | (unread) t where "\<not> rv_visited r d" "src_block (rv_src E) d = Inr t" "is_private t" "decrypt_block E t = Inr None"
      "readable E t = None"
      "rv_limit E < 0 \<or> int (rv_scanned r) < rv_limit E"
      "rv_defs r' = rv_defs r" "rv_cache r' = (rv_cache r)(d \<mapsto> t)" "rv_next r' = rv_next r"
      "rv_ancestor_gap r' = rv_ancestor_gap r" "rv_refs_gap r' = rv_refs_gap r"
      "rv_key_gap r' = (if rv_key_gap r = None then Some d else rv_key_gap r)" "rv_queue r' = q"
      "rv_visited r' = (rv_visited r)(d := True)" "rv_scanned r' = rv_scanned r + 1"
      "r_unchecked_refs (rv_report r') = r_unchecked_refs (rv_report r)" "r_forks (rv_report r') = r_forks (rv_report r)"
    | (scan) t p r1 where "\<not> rv_visited r d" "src_block (rv_src E) d = Inr t" "readable E t = Some p"
      "rv_limit E < 0 \<or> int (rv_scanned r) < rv_limit E"
      "r1 = r\<lparr>rv_cache := (rv_cache r)(d \<mapsto> t), rv_visited := (rv_visited r)(d := True), rv_scanned := rv_scanned r + 1\<rparr>"
      "r' = (define_all (rv_crypto E) (p_ops p) r1)\<lparr>rv_queue := q @ p_refs p\<rparr>"
proof (cases "rv_visited r d")
  case True
  then show thesis using assms visited by (simp add: extend_refs_def)
next
  case nv: False
  have ok: "cache_ok E (r\<lparr>rv_queue := q, rv_visited := (rv_visited r)(d := True)\<rparr>)"
    using assms(3) by (simp add: cache_ok_def)
  show thesis
  proof (cases "src_block (rv_src E) d")
    case (Inl e)
    then have "is_not_found e" and "r' = resolver_warn E (Missing_reference d)
        (if rv_refs_gap r = None then r\<lparr>rv_queue := q, rv_visited := (rv_visited r)(d := True), rv_refs_gap := Some d\<rparr>
         else r\<lparr>rv_queue := q, rv_visited := (rv_visited r)(d := True)\<rparr>)"
      using assms nv by (auto simp: extend_refs_def fetch_source [OF ok] Let_def split: if_splits)
    then show thesis
      using nv Inl by (intro missing [of e]) (simp_all add: resolver_warn_def warn_def)
  next
    case (Inr t)
    have lim: "rv_limit E < 0 \<or> int (rv_scanned r) < rv_limit E"
      using assms nv Inr by (auto simp: extend_refs_def fetch_source [OF ok] Let_def split: if_splits)
    let ?r1 = "r\<lparr>rv_cache := (rv_cache r)(d \<mapsto> t), rv_visited := (rv_visited r)(d := True), rv_scanned := rv_scanned r + 1\<rparr>"
    let ?r3 = "r\<lparr>rv_queue := q, rv_visited := (rv_visited r)(d := True), rv_cache := (rv_cache r)(d \<mapsto> t), rv_scanned := rv_scanned r + 1\<rparr>"
    have defs: "rv_defs (define_all cr ops (s\<lparr>rv_queue := q\<rparr>)) = rv_defs (define_all cr ops s)" for cr ops s
    proof (induction ops arbitrary: s)
      case (Cons a ops)
      have "define_op cr a (s\<lparr>rv_queue := q\<rparr>) = (define_op cr a s)\<lparr>rv_queue := q\<rparr>"
        by (auto simp: define_op_def split: option.splits prod.splits)
      then show ?case using Cons by simp
    qed simp
    have swap: "(define_all cr ops ?r3)\<lparr>rv_queue := x\<rparr> = (define_all cr ops ?r1)\<lparr>rv_queue := x\<rparr>" for cr ops x
    proof -
      have "?r3 = ?r1\<lparr>rv_queue := q\<rparr>" by (intro resolver.equality) simp_all
      then have "rv_defs (define_all cr ops ?r3) = rv_defs (define_all cr ops ?r1)"
        using defs [of cr ops ?r1] by (simp only:)
      then show ?thesis by (intro resolver.equality) simp_all
    qed
    show thesis
    proof (cases "is_private t")
      case False
      then have "r' = (define_all (rv_crypto E) (block_ops t) ?r3)\<lparr>rv_queue := q @ block_refs t\<rparr>"
        using assms nv Inr lim by (auto simp: extend_refs_def fetch_source [OF ok] Let_def split: if_splits)
      then show thesis
        using False nv Inr lim swap by (intro scan [of t "\<lparr>p_refs = block_refs t, p_ts = c_ts (blk_content t), p_ops = block_ops t\<rparr>" ?r1])
            (simp_all add: readable_def)
    next
      case True
      then obtain found where f: "decrypt_block E t = Inr found"
        using assms nv Inr lim
        by (cases "decrypt_block E t") (auto simp: extend_refs_def fetch_source [OF ok] Let_def split: if_splits)
      show thesis
      proof (cases found)
        case (Some p)
        then have "r' = (define_all (rv_crypto E) (p_ops p) ?r3)\<lparr>rv_queue := q @ p_refs p\<rparr>"
          using assms nv Inr lim True f by (auto simp: extend_refs_def fetch_source [OF ok] Let_def split: if_splits)
        then show thesis
          using True nv Inr lim f Some swap by (intro scan [of t p ?r1]) (simp_all add: readable_def)
      next
        case None
        then have "r' = resolver_warn E (Private_reference_unread d) (note_key_gap d ?r3)"
          using assms nv Inr lim True f by (auto simp: extend_refs_def fetch_source [OF ok] Let_def split: if_splits)
        then show thesis
          using True nv Inr lim f None
          by (intro unread [of t]) (simp_all add: readable_def resolver_warn_def note_key_gap_def warn_def)
      qed
    qed
  qed
qed

section \<open>Invariants of a search\<close>

text \<open>A property of the resolver every step of the search keeps.\<close>

definition stable :: "resolver_env \<Rightarrow> (resolver \<Rightarrow> bool) \<Rightarrow> bool" where
  "stable E I \<longleftrightarrow> (\<forall>r r'. cache_ok E r \<and> I r \<and>
    (rv_next r \<noteq> None \<and> extend_ancestors E r = Inr r' \<or> rv_queue r \<noteq> [] \<and> extend_refs E r = Inr r') \<longrightarrow> I r')"

lemma stableI:
  assumes "\<And>r r' d. cache_ok E r \<Longrightarrow> I r \<Longrightarrow> rv_next r = Some d \<Longrightarrow> extend_ancestors E r = Inr r' \<Longrightarrow> I r'"
    and "\<And>r r' d q. cache_ok E r \<Longrightarrow> I r \<Longrightarrow> rv_queue r = d # q \<Longrightarrow> extend_refs E r = Inr r' \<Longrightarrow> I r'"
  shows "stable E I"
  unfolding stable_def using assms by (metis list.exhaust not_None_eq)

lemma stableD:
  "stable E I \<Longrightarrow> cache_ok E r \<Longrightarrow> I r \<Longrightarrow> rv_next r \<noteq> None \<Longrightarrow> extend_ancestors E r = Inr r' \<Longrightarrow> I r'"
  "stable E I \<Longrightarrow> cache_ok E r \<Longrightarrow> I r \<Longrightarrow> rv_queue r \<noteq> [] \<Longrightarrow> extend_refs E r = Inr r' \<Longrightarrow> I r'"
  by (auto simp: stable_def)

lemma cache_ok_update: "cache_ok E r \<Longrightarrow> src_block (rv_src E) d = Inr t \<Longrightarrow> rv_cache r' = (rv_cache r)(d \<mapsto> t) \<Longrightarrow> cache_ok E r'"
  by (simp add: cache_ok_def)

lemma cache_ok_same: "cache_ok E r \<Longrightarrow> rv_cache r' = rv_cache r \<Longrightarrow> cache_ok E r'"
  by (simp add: cache_ok_def)

lemma cache_ok_ancestors:
  assumes "cache_ok E r" and "rv_next r \<noteq> None" and "extend_ancestors E r = Inr r'"
  shows "cache_ok E r'"
proof -
  from assms(2) obtain d where d: "rv_next r = Some d" by auto
  show ?thesis
  proof (cases rule: extend_ancestors_cases [OF assms(3) d assms(1), case_names gap fold])
    case (fold t r1)
    from cache_ok_update [OF assms(1) fold(1), of r'] show ?thesis using fold(2,4) by simp
  qed (use assms(1) in \<open>simp add: cache_ok_def\<close>)
qed

lemma cache_ok_refs:
  assumes "cache_ok E r" and "rv_queue r \<noteq> []" and "extend_refs E r = Inr r'"
  shows "cache_ok E r'"
proof -
  from assms(2) obtain d q where d: "rv_queue r = d # q" by (cases "rv_queue r") auto
  show ?thesis
  proof (cases rule: extend_refs_cases [OF assms(3) d assms(1), case_names visited missing unread scan])
    case visited
    then show ?thesis using assms(1) by (simp add: cache_ok_def)
  next
    case (missing e)
    then show ?thesis using cache_ok_same [OF assms(1)] by blast
  next
    case (unread t)
    from cache_ok_update [OF assms(1) unread(2), of r'] unread show ?thesis by blast
  next
    case (scan t p r1)
    from cache_ok_update [OF assms(1) scan(2), of r'] show ?thesis by (simp add: scan(5,6))
  qed
qed

text \<open>The state a failed lookup ends in.\<close>

definition stuck :: "resolver_env \<Rightarrow> (resolver \<Rightarrow> bool) \<Rightarrow> digest \<Rightarrow> block_error \<Rightarrow> bool" where
  "stuck E I d e \<longleftrightarrow> (\<exists>t. cache_ok E t \<and> I t \<and> rv_defs t d = None \<and>
    (e = unresolved d t \<and> rv_next t = None \<and> rv_queue t = [] \<or>
     rv_next t \<noteq> None \<and> extend_ancestors E t = Inl e \<or>
     rv_queue t \<noteq> [] \<and> extend_refs E t = Inl e))"

lemma ancestors_loop_rule:
  assumes "ancestors_loop E d r = Some res" and "cache_ok E r" and "I r" and "stable E I"
  shows "case res of Inr t \<Rightarrow> cache_ok E t \<and> I t \<and> \<not> (rv_defs t d = None \<and> rv_next t \<noteq> None)
    | Inl e \<Rightarrow> stuck E I d e"
proof -
  let ?J = "\<lambda>t. cache_ok E t \<and> I t"
  have "case res of Inr t \<Rightarrow> ?J t \<and> \<not> (rv_defs t d = None \<and> rv_next t \<noteq> None)
    | Inl e \<Rightarrow> \<exists>t. ?J t \<and> (rv_defs t d = None \<and> rv_next t \<noteq> None) \<and> extend_ancestors E t = Inl e"
    using assms(1) unfolding ancestors_loop_def
  proof (rule loopE_rule)
    show "?J r" using assms by simp
    fix t t' assume "?J t" and "rv_defs t d = None \<and> rv_next t \<noteq> None" and "extend_ancestors E t = Inr t'"
    then show "?J t'" using stableD(1) [OF assms(4)] cache_ok_ancestors by blast
  qed
  then show ?thesis by (auto simp: stuck_def split: sum.splits)
qed

lemma refs_loop_rule:
  assumes "refs_loop E d r = Some res" and "cache_ok E r" and "I r" and "stable E I"
  shows "case res of Inr t \<Rightarrow> cache_ok E t \<and> I t \<and> \<not> (rv_defs t d = None \<and> rv_queue t \<noteq> [])
    | Inl e \<Rightarrow> stuck E I d e"
proof -
  let ?J = "\<lambda>t. cache_ok E t \<and> I t"
  have "case res of Inr t \<Rightarrow> ?J t \<and> \<not> (rv_defs t d = None \<and> rv_queue t \<noteq> [])
    | Inl e \<Rightarrow> \<exists>t. ?J t \<and> (rv_defs t d = None \<and> rv_queue t \<noteq> []) \<and> extend_refs E t = Inl e"
    using assms(1) unfolding refs_loop_def
  proof (rule loopE_rule)
    show "?J r" using assms by simp
    fix t t' assume "?J t" and "rv_defs t d = None \<and> rv_queue t \<noteq> []" and "extend_refs E t = Inr t'"
    then show "?J t'" using stableD(2) [OF assms(4)] cache_ok_refs by blast
  qed
  then show ?thesis by (auto simp: stuck_def split: sum.splits)
qed

lemma refs_step_next:
  assumes "cache_ok E r" and "rv_queue r = d # q" and "extend_refs E r = Inr r'"
  shows "rv_next r' = rv_next r"
  using extend_refs_cases [OF assms(3,2,1)] by cases simp_all

lemma resolve_rule:
  assumes "resolve E d r = Some res" and "cache_ok E r" and "I r" and "stable E I"
  shows "case res of Inr (t, rec) \<Rightarrow> cache_ok E t \<and> I t \<and> rv_defs t d = Some rec | Inl e \<Rightarrow> stuck E I d e"
proof -
  from assms(1) obtain res1 where a: "ancestors_loop E d r = Some res1"
    by (cases "ancestors_loop E d r") (auto simp: resolve_def)
  note ra = ancestors_loop_rule [OF a assms(2-4)]
  show ?thesis
  proof (cases res1)
    case (Inl e)
    then have "res = Inl e" using assms(1) a by (simp add: resolve_def)
    then show ?thesis using ra Inl by simp
  next
    case (Inr r1)
    then have r1: "cache_ok E r1" "I r1" "rv_defs r1 d \<noteq> None \<or> rv_next r1 = None" using ra by auto
    show ?thesis
    proof (cases "rv_defs r1 d")
      case (Some rec)
      then have "res = Inr (r1, rec)" using assms(1) a Inr by (simp add: resolve_def)
      then show ?thesis using r1 Some by simp
    next
      case None
      then have nx: "rv_next r1 = None" using r1(3) by simp
      from assms(1) obtain res2 where b: "refs_loop E d r1 = Some res2"
        by (cases "refs_loop E d r1") (auto simp: resolve_def a Inr None)
      have st: "stable E (\<lambda>t. I t \<and> rv_next t = None)"
        using assms(4) refs_step_next by (intro stableI) (auto dest: stableD)
      note rb = refs_loop_rule [OF b r1(1) _ st]
      show ?thesis
      proof (cases res2)
        case (Inl e)
        then have "stuck E (\<lambda>t. I t \<and> rv_next t = None) d e" using rb r1 nx by simp
        then have "stuck E I d e" by (auto simp: stuck_def)
        moreover have "res = Inl e" using assms(1) a b Inr None Inl by (simp add: resolve_def)
        ultimately show ?thesis by simp
      next
        case r2: (Inr r2)
        then have r2': "cache_ok E r2" "I r2" "rv_next r2 = None" "rv_defs r2 d \<noteq> None \<or> rv_queue r2 = []"
          using rb r1 nx by auto
        show ?thesis
        proof (cases "rv_defs r2 d")
          case (Some rec)
          then have "res = Inr (r2, rec)" using assms(1) a b Inr None r2 by (simp add: resolve_def)
          then show ?thesis using r2' Some by simp
        next
          case n2: None
          then have "stuck E I d (unresolved d r2)" using r2' by (auto simp: stuck_def)
          moreover have "res = Inl (unresolved d r2)" using assms(1) a b Inr None r2 n2 by (simp add: resolve_def)
          ultimately show ?thesis by simp
        qed
      qed
    qed
  qed
qed

lemmas resolve_Inr = resolve_rule [where res = "Inr (t, rec)" for t rec, simplified]
lemmas resolve_Inl = resolve_rule [where res = "Inl e" for e, simplified]

text \<open>Definitions are only ever added.\<close>

lemma stable_defs: "stable E (\<lambda>r. rv_defs r d = Some rec)"
proof (rule stableI)
  fix r r' d' assume "cache_ok E r" "rv_defs r d = Some rec" "rv_next r = Some d'" "extend_ancestors E r = Inr r'"
  from extend_ancestors_cases [OF this(4,3,1)] this(2) show "rv_defs r' d = Some rec"
    by cases (simp_all add: define_all_mono)
next
  fix r r' d' q assume "cache_ok E r" "rv_defs r d = Some rec" "rv_queue r = d' # q" "extend_refs E r = Inr r'"
  from extend_refs_cases [OF this(4,3,1)] this(2) show "rv_defs r' d = Some rec"
    by cases (simp_all add: define_all_mono)
qed

lemma stable_conj: "stable E I \<Longrightarrow> stable E J \<Longrightarrow> stable E (\<lambda>r. I r \<and> J r)"
  unfolding stable_def by blast

definition resolved :: "resolver \<Rightarrow> reference \<Rightarrow> bool" where
  "resolved r ref \<longleftrightarrow> (\<exists>rec. rv_defs r (ref_digest ref) = Some rec \<and> rec_kind rec = ref_kind ref)"

lemma stable_resolved: "stable E (\<lambda>r. resolved r ref)"
proof -
  have "stable E (\<lambda>r. \<exists>rec. rv_defs r (ref_digest ref) = Some rec \<and> rec_kind rec = ref_kind ref)"
    using stable_defs unfolding stable_def by blast
  then show ?thesis by (simp add: resolved_def [abs_def])
qed

lemma check_references_Inr:
  assumes "check_references E i op refs r = Some (Inr r')" and "cache_ok E r" and "I r" and "stable E I"
  shows "cache_ok E r' \<and> I r' \<and> (\<forall>ref \<in> set refs. resolved r' ref)"
  using assms
proof (induction refs arbitrary: r I)
  case (Cons ref refs)
  from Cons.prems(1) obtain r1 rec where 1: "resolve E (ref_digest ref) r = Some (Inr (r1, rec))"
    and k: "rec_kind rec = ref_kind ref" and 2: "check_references E i op refs r1 = Some (Inr r')"
    by (auto simp: bindD_eq_Inr Let_def split: if_splits)
  from resolve_Inr [OF 1 Cons.prems(2-4)] have r1: "cache_ok E r1" "I r1" "resolved r1 ref"
    using k by (auto simp: resolved_def)
  from Cons.IH [OF 2 r1(1) _ stable_conj [OF Cons.prems(4) stable_resolved [of E ref]]] r1
  show ?case by simp
qed simp

lemma check_references_Inl:
  assumes "check_references E i op refs r = Some (Inl e)" and "cache_ok E r" and "I r" and "stable E I"
  shows "\<exists>ref \<in> set refs. (\<exists>e'. e = Rule_error 4 (block_digest (rv_crypto E) (rv_block E))
        (Operation_error i (op_name op) (ref_field ref) e') \<and> stuck E I (ref_digest ref) e') \<or>
    (\<exists>k. e = Rule_error 5 (block_digest (rv_crypto E) (rv_block E)) (Kind_mismatch i (ref_field ref) (ref_kind ref) k))"
  using assms
proof (induction refs arbitrary: r)
  case (Cons ref refs)
  let ?w = "\<lambda>e. Rule_error 4 (block_digest (rv_crypto E) (rv_block E)) (Operation_error i (op_name op) (ref_field ref) e)"
  from Cons.prems(1) obtain res where res: "resolve E (ref_digest ref) r = Some res"
    by (cases "resolve E (ref_digest ref) r") (auto simp: Let_def)
  show ?case
  proof (cases res)
    case (Inl e')
    then have "e = ?w e'" using Cons.prems(1) res by (simp add: Let_def)
    moreover have "stuck E I (ref_digest ref) e'" using resolve_Inl [OF res [unfolded Inl] Cons.prems(2-4)] .
    ultimately show ?thesis by auto
  next
    case (Inr x)
    obtain r1 rec where x: "x = (r1, rec)" by (cases x)
    from resolve_Inr [OF res [unfolded Inr x] Cons.prems(2-4)] have r1: "cache_ok E r1" "I r1" by auto
    show ?thesis
    proof (cases "rec_kind rec = ref_kind ref")
      case True
      then have "check_references E i op refs r1 = Some (Inl e)"
        using Cons.prems(1) res by (simp add: Inr x Let_def)
      from Cons.IH [OF this r1 Cons.prems(4)] show ?thesis by auto
    next
      case False
      then have "e = Rule_error 5 (block_digest (rv_crypto E) (rv_block E)) (Kind_mismatch i (ref_field ref) (ref_kind ref) (rec_kind rec))"
        using Cons.prems(1) res by (simp add: Inr x Let_def)
      then show ?thesis by auto
    qed
  qed
qed simp

text \<open>
  The operations of a block are checked in order: an invariant indexed by the operations already
  defined holds when each one's references are looked up.
\<close>

definition op_checked :: "resolver_env \<Rightarrow> operation \<Rightarrow> resolver \<Rightarrow> bool" where
  "op_checked E op t \<longleftrightarrow> (\<forall>ref \<in> set (references op). resolved t ref) \<and>
    (\<forall>m. op = Create_molecule m \<longrightarrow> (\<exists>rec. rv_defs t (mol_bond m) = Some rec \<and>
      validate_against (sha256 (rv_crypto E)) m (rec_bond rec) = Inr ()))"

lemma check_ops_Inr:
  assumes "check_ops E i ops r = Some (Inr r')" and "cache_ok E r" and "J done_ops r"
    and st: "\<And>d. stable E (J d)" and dp: "\<And>d op t. J d t \<Longrightarrow> J (d @ [op]) (define_op (rv_crypto E) op t)"
  shows "cache_ok E r' \<and> J (done_ops @ ops) r' \<and>
    (\<forall>k < length ops. \<exists>t. cache_ok E t \<and> J (done_ops @ take k ops) t \<and> op_checked E (ops ! k) t)"
  using assms(1-3)
proof (induction ops arbitrary: i r done_ops)
  case (Cons op ops)
  from Cons.prems(1) obtain r1 u where 1: "check_references E i op (references op) r = Some (Inr r1)"
    and m: "check_molecule E i op r1 = Inr u"
    and 2: "check_ops E (i + 1) ops (define_op (rv_crypto E) op r1) = Some (Inr r')"
    by (auto simp: bindD_eq_Inr)
  from check_references_Inr [OF 1 Cons.prems(2,3) st] have r1: "cache_ok E r1" "J done_ops r1"
    "\<forall>ref \<in> set (references op). resolved r1 ref" by auto
  have chk: "op_checked E op r1"
  proof -
    have "\<exists>rec. rv_defs r1 (mol_bond m') = Some rec \<and> validate_against (sha256 (rv_crypto E)) m' (rec_bond rec) = Inr ()"
      if "op = Create_molecule m'" for m'
    proof -
      have "resolved r1 \<lparr>ref_digest = mol_bond m', ref_kind = Kind_bond, ref_field = Bond_field\<rparr>"
        using r1(3) that by simp
      then obtain rec where "rv_defs r1 (mol_bond m') = Some rec" by (auto simp: resolved_def)
      then show ?thesis using m that by (auto simp: check_molecule_def)
    qed
    then show ?thesis using r1(3) by (simp add: op_checked_def)
  qed
  have "cache_ok E (define_op (rv_crypto E) op r1)" using cache_ok_same [OF r1(1)] by simp
  from Cons.IH [OF 2 this dp [OF r1(2)]]
  have IH: "cache_ok E r'" "J ((done_ops @ [op]) @ ops) r'"
    "\<forall>k < length ops. \<exists>t. cache_ok E t \<and> J ((done_ops @ [op]) @ take k ops) t \<and> op_checked E (ops ! k) t" by auto
  have "\<exists>t. cache_ok E t \<and> J (done_ops @ take k (op # ops)) t \<and> op_checked E ((op # ops) ! k) t"
    if "k < length (op # ops)" for k
    using that IH(3) r1 chk by (cases k) auto
  with IH(1,2) show ?case by simp
qed simp

lemma check_ops_Inl:
  assumes "check_ops E i ops r = Some (Inl e)" and "cache_ok E r" and "J done_ops r"
    and st: "\<And>d. stable E (J d)" and dp: "\<And>d op t. J d t \<Longrightarrow> J (d @ [op]) (define_op (rv_crypto E) op t)"
  shows "\<exists>k < length ops. (\<exists>ref \<in> set (references (ops ! k)). \<exists>e'.
        e = Rule_error 4 (block_digest (rv_crypto E) (rv_block E)) (Operation_error (i + k) (op_name (ops ! k)) (ref_field ref) e') \<and>
        stuck E (J (done_ops @ take k ops)) (ref_digest ref) e') \<or>
    (\<exists>e'. e = Rule_error 5 (block_digest (rv_crypto E) (rv_block E)) e' \<and>
       \<not> is_unvalidated e')"
  using assms(1-3)
proof (induction ops arbitrary: i r done_ops)
  case (Cons op ops)
  show ?case
  proof (cases "check_references E i op (references op) r")
    case None
    then show ?thesis using Cons.prems(1) by simp
  next
    case (Some res)
    show ?thesis
    proof (cases res)
      case (Inl e')
      then have "check_references E i op (references op) r = Some (Inl e)"
        using Cons.prems(1) Some by simp
      from check_references_Inl [OF this Cons.prems(2,3) st] show ?thesis
        by (intro exI [of _ 0]) (auto simp: is_unvalidated_def)
    next
      case (Inr r1)
      from check_references_Inr [OF Some [unfolded Inr] Cons.prems(2,3) st] have r1: "cache_ok E r1" "J done_ops r1" by auto
      show ?thesis
      proof (cases "check_molecule E i op r1")
        case (Inl e')
        then have "e = e'" using Cons.prems(1) Some Inr by simp
        then have "\<exists>e'. e = Rule_error 5 (block_digest (rv_crypto E) (rv_block E)) e' \<and> \<not> is_unvalidated e'"
          using Inl by (auto simp: check_molecule_def mapErr_eq_Inl is_unvalidated_def split: operation.splits)
        then show ?thesis by (intro exI [of _ 0]) auto
      next
        case m: (Inr u)
        then have 2: "check_ops E (i + 1) ops (define_op (rv_crypto E) op r1) = Some (Inl e)"
          using Cons.prems(1) Some Inr by simp
        have "cache_ok E (define_op (rv_crypto E) op r1)" using cache_ok_same [OF r1(1)] by simp
        from Cons.IH [OF 2 this dp [OF r1(2)]] obtain k where "k < length ops" and
          k: "(\<exists>ref \<in> set (references (ops ! k)). \<exists>e'.
        e = Rule_error 4 (block_digest (rv_crypto E) (rv_block E)) (Operation_error (i + 1 + k) (op_name (ops ! k)) (ref_field ref) e') \<and>
        stuck E (J ((done_ops @ [op]) @ take k ops)) (ref_digest ref) e') \<or>
    (\<exists>e'. e = Rule_error 5 (block_digest (rv_crypto E) (rv_block E)) e' \<and> \<not> is_unvalidated e')"
          by blast
        then show ?thesis by (intro exI [of _ "Suc k"]) simp
      qed
    qed
  qed
qed simp

section \<open>Termination\<close>

text \<open>The links from a block the source holds to its predecessor.\<close>

definition prev_links :: "source \<Rightarrow> (digest \<times> digest) set" where
  "prev_links src = {(p, d). \<exists>b. src_block src d = Inr b \<and> block_prev b = Some p}"

definition option_rel :: "('a \<times> 'a) set \<Rightarrow> ('a option \<times> 'a option) set" where
  "option_rel R = {(x, y). \<exists>d. y = Some d \<and> (x = None \<or> (\<exists>p. x = Some p \<and> (p, d) \<in> R))}"

lemma wf_option_rel:
  assumes "wf R"
  shows "wf (option_rel R)"
proof (rule wfUNIVI)
  fix P :: "'a option \<Rightarrow> bool" and x
  assume step: "\<forall>x. (\<forall>y. (y, x) \<in> option_rel R \<longrightarrow> P y) \<longrightarrow> P x"
  have none: "P None" using step by (auto simp: option_rel_def)
  have "P (Some d)" for d
  proof (induction d rule: wf_induct_rule [OF assms])
    case (1 d)
    have "P y" if "(y, Some d) \<in> option_rel R" for y
      using that 1 none by (auto simp: option_rel_def)
    then show ?case using step by blast
  qed
  with none show "P x" by (cases x) auto
qed

lemma ancestors_loop_returns:
  assumes "cache_ok E r" and "wf (prev_links (rv_src E))"
  shows "ancestors_loop E d r \<noteq> None"
  unfolding ancestors_loop_def
proof (rule loopE_returns [where R = "inv_image (option_rel (prev_links (rv_src E))) rv_next" and I = "cache_ok E"])
  show "wf (inv_image (option_rel (prev_links (rv_src E))) rv_next)"
    using assms(2) by (simp add: wf_option_rel)
  fix t t' assume t: "cache_ok E t" and nx: "rv_defs t d = None \<and> rv_next t \<noteq> None" and s: "extend_ancestors E t = Inr t'"
  then obtain n where n: "rv_next t = Some n" by auto
  have "(rv_next t', rv_next t) \<in> option_rel (prev_links (rv_src E))"
  proof (cases rule: extend_ancestors_cases [OF s n t, case_names gap fold])
    case (fold b r1)
    then show ?thesis using n by (cases "block_prev b") (auto simp: option_rel_def prev_links_def)
  qed (use n in \<open>simp add: option_rel_def\<close>)
  then show "cache_ok E t' \<and> (t', t) \<in> inv_image (option_rel (prev_links (rv_src E))) rv_next"
    using cache_ok_ancestors [OF t _ s] n by simp
qed (rule assms(1))

lemma refs_loop_returns:
  assumes "cache_ok E r" and "0 \<le> rv_limit E"
  shows "refs_loop E d r \<noteq> None"
  unfolding refs_loop_def
proof (rule loopE_returns [where I = "cache_ok E" and
      R = "inv_image (less_than <*lex*> less_than) (\<lambda>r. (nat (rv_limit E) - rv_scanned r, length (rv_queue r)))"])
  show "wf (inv_image (less_than <*lex*> less_than) (\<lambda>r. (nat (rv_limit E) - rv_scanned r, length (rv_queue r))))"
    by auto
  fix t t' assume t: "cache_ok E t" and nx: "rv_defs t d = None \<and> rv_queue t \<noteq> []" and s: "extend_refs E t = Inr t'"
  then obtain x q where q: "rv_queue t = x # q" by (cases "rv_queue t") auto
  have "(t', t) \<in> inv_image (less_than <*lex*> less_than) (\<lambda>r. (nat (rv_limit E) - rv_scanned r, length (rv_queue r)))"
  proof (cases rule: extend_refs_cases [OF s q t, case_names visited missing unread scan])
    case (unread b)
    then have "nat (rv_limit E) - rv_scanned t' < nat (rv_limit E) - rv_scanned t" using assms(2) by linarith
    then show ?thesis by simp
  next
    case (scan b p r1)
    then have "rv_scanned t' = rv_scanned t + 1" by simp
    then have "nat (rv_limit E) - rv_scanned t' < nat (rv_limit E) - rv_scanned t" using assms(2) scan(4) by linarith
    then show ?thesis by simp
  qed (simp_all add: q)
  then show "cache_ok E t' \<and> (t', t) \<in> inv_image (less_than <*lex*> less_than)
      (\<lambda>r. (nat (rv_limit E) - rv_scanned r, length (rv_queue r)))"
    using cache_ok_refs [OF t _ s] q by simp
qed (rule assms(1))

lemma stable_True: "stable E (\<lambda>_. True)"
  by (simp add: stable_def)

lemma resolve_returns:
  assumes "cache_ok E r" and "wf (prev_links (rv_src E))" and "0 \<le> rv_limit E"
  shows "resolve E d r \<noteq> None"
proof
  assume n: "resolve E d r = None"
  obtain res where a: "ancestors_loop E d r = Some res" using ancestors_loop_returns [OF assms(1,2)] by blast
  note ra = ancestors_loop_rule [OF a assms(1) TrueI stable_True]
  with n obtain r1 where r1: "res = Inr r1" "cache_ok E r1" "rv_defs r1 d = None"
    by (cases res) (auto simp: resolve_def a split: option.splits)
  with n have "refs_loop E d r1 = None"
    by (auto simp: resolve_def a bindD_eq_None split: option.splits)
  then show False using refs_loop_returns [OF r1(2) assms(3)] by simp
qed

lemma check_references_returns:
  assumes "cache_ok E r" and "wf (prev_links (rv_src E))" and "0 \<le> rv_limit E"
  shows "check_references E i op refs r \<noteq> None"
  using assms(1)
proof (induction refs arbitrary: r)
  case (Cons ref refs)
  obtain res where res: "resolve E (ref_digest ref) r = Some res" using resolve_returns [OF Cons.prems assms(2,3)] by blast
  show ?case
  proof (cases res)
    case (Inr x)
    obtain r1 rec where x: "x = (r1, rec)" by (cases x)
    have "cache_ok E r1" using resolve_Inr [OF res [unfolded Inr x] Cons.prems TrueI stable_True] by simp
    from Cons.IH [OF this] show ?thesis by (simp add: res Inr x Let_def)
  qed (simp add: res Let_def)
qed simp

lemma check_ops_returns:
  assumes "cache_ok E r" and "wf (prev_links (rv_src E))" and "0 \<le> rv_limit E"
  shows "check_ops E i ops r \<noteq> None"
  using assms(1)
proof (induction ops arbitrary: i r)
  case (Cons op ops)
  obtain res where res: "check_references E i op (references op) r = Some res"
    using check_references_returns [OF Cons.prems assms(2,3)] by blast
  show ?case
  proof (cases res)
    case (Inr r1)
    have r1: "cache_ok E r1" using check_references_Inr [OF res [unfolded Inr] Cons.prems TrueI stable_True] by simp
    then have "cache_ok E (define_op (rv_crypto E) op r1)" using cache_ok_same by simp
    from Cons.IH [OF this] show ?thesis
      by (cases "check_molecule E i op r1") (simp_all add: res Inr)
  qed (simp add: res)
qed simp

section \<open>What a search may find, and what it has covered\<close>

text \<open>
  The digests of the author's own chain before the block, and those of the refs graph as far as
  the node can read it.
\<close>

definition chain_digests :: "resolver_env \<Rightarrow> digest set" where
  "chain_digests E = {d. \<exists>p. block_prev (rv_block E) = Some p \<and> (d, p) \<in> (prev_links (rv_src E))\<^sup>*}"

definition ref_links :: "resolver_env \<Rightarrow> (digest \<times> digest) set" where
  "ref_links E = {(x, d). \<exists>t p. src_block (rv_src E) d = Inr t \<and> readable E t = Some p \<and> x \<in> set (p_refs p)}"

definition graph_digests :: "resolver_env \<Rightarrow> digest list \<Rightarrow> digest set" where
  "graph_digests E refs = {d. \<exists>x \<in> set refs. (d, x) \<in> (ref_links E)\<^sup>*}"

definition provided :: "resolver_env \<Rightarrow> digest list \<Rightarrow> operation \<Rightarrow> bool" where
  "provided E refs op \<longleftrightarrow> (\<exists>d t. d \<in> chain_digests E \<union> graph_digests E refs \<and> src_block (rv_src E) d = Inr t \<and>
    op \<in> set (visible_ops E t))"

lemma chain_digests_step:
  "d \<in> chain_digests E \<Longrightarrow> src_block (rv_src E) d = Inr t \<Longrightarrow> block_prev t = Some p \<Longrightarrow> p \<in> chain_digests E"
  unfolding chain_digests_def prev_links_def by (fastforce intro: converse_rtrancl_into_rtrancl)

lemma graph_digests_step:
  "d \<in> graph_digests E refs \<Longrightarrow> src_block (rv_src E) d = Inr t \<Longrightarrow> readable E t = Some p \<Longrightarrow> x \<in> set (p_refs p) \<Longrightarrow>
    x \<in> graph_digests E refs"
proof -
  assume d: "d \<in> graph_digests E refs" and l: "src_block (rv_src E) d = Inr t" "readable E t = Some p" "x \<in> set (p_refs p)"
  then have "(x, d) \<in> ref_links E" by (auto simp: ref_links_def)
  with d show ?thesis by (auto simp: graph_digests_def intro: converse_rtrancl_into_rtrancl)
qed

text \<open>Every definition is an operation's of a block the search may read, and every gap is real.\<close>

definition sound_search :: "resolver_env \<Rightarrow> digest list \<Rightarrow> operation list \<Rightarrow> resolver \<Rightarrow> bool" where
  "sound_search E refs done_ops r \<longleftrightarrow>
    (\<forall>n. rv_next r = Some n \<longrightarrow> n \<in> chain_digests E) \<and> set (rv_queue r) \<subseteq> graph_digests E refs \<and>
    (\<forall>d rec. rv_defs r d = Some rec \<longrightarrow>
      (\<exists>op. op_defines (rv_crypto E) op d rec \<and> (op \<in> set done_ops \<or> provided E refs op))) \<and>
    (\<forall>g. rv_ancestor_gap r = Some g \<longrightarrow> g \<in> chain_digests E \<and> (\<exists>e. src_block (rv_src E) g = Inl e \<and> is_not_found e)) \<and>
    (\<forall>g. rv_refs_gap r = Some g \<longrightarrow> g \<in> graph_digests E refs \<and> (\<exists>e. src_block (rv_src E) g = Inl e \<and> is_not_found e)) \<and>
    (\<forall>g. rv_key_gap r = Some g \<longrightarrow> g \<in> chain_digests E \<union> graph_digests E refs \<and>
      (\<exists>t. src_block (rv_src E) g = Inr t \<and> is_private t \<and> decrypt_block E t = Inr None))"

lemma sound_searchD:
  assumes "sound_search E refs done_ops r"
  shows "rv_next r = Some n \<Longrightarrow> n \<in> chain_digests E" "d \<in> set (rv_queue r) \<Longrightarrow> d \<in> graph_digests E refs"
    "rv_defs r x = Some rec \<Longrightarrow> \<exists>op. op_defines (rv_crypto E) op x rec \<and> (op \<in> set done_ops \<or> provided E refs op)"
    "rv_ancestor_gap r = Some g \<Longrightarrow> g \<in> chain_digests E \<and> (\<exists>e. src_block (rv_src E) g = Inl e \<and> is_not_found e)"
    "rv_refs_gap r = Some g \<Longrightarrow> g \<in> graph_digests E refs \<and> (\<exists>e. src_block (rv_src E) g = Inl e \<and> is_not_found e)"
    "rv_key_gap r = Some g \<Longrightarrow> g \<in> chain_digests E \<union> graph_digests E refs \<and>
      (\<exists>t. src_block (rv_src E) g = Inr t \<and> is_private t \<and> decrypt_block E t = Inr None)"
  using assms unfolding sound_search_def by blast+

lemma stable_sound_search: "stable E (sound_search E refs done_ops)"
proof (rule stableI)
  fix r r' d
  assume c: "cache_ok E r" and I: "sound_search E refs done_ops r" and n: "rv_next r = Some d" and s: "extend_ancestors E r = Inr r'"
  note D = sound_searchD [OF I]
  show "sound_search E refs done_ops r'"
  proof (cases rule: extend_ancestors_cases [OF s n c, case_names gap fold])
    case (gap e)
    then show ?thesis using D n by (simp add: sound_search_def subset_iff)
  next
    case (fold t r1)
    have "\<exists>op. op_defines (rv_crypto E) op x rec \<and> (op \<in> set done_ops \<or> provided E refs op)"
      if "rv_defs r' x = Some rec" for x rec
    proof -
      from that have "rv_defs r x = Some rec \<or> (\<exists>op \<in> set (visible_ops E t). op_defines (rv_crypto E) op x rec)"
        using define_all_new [of "rv_crypto E" "visible_ops E t" r1 x rec] fold by simp
      then show ?thesis using D(1) [OF n] D(3) fold(1) by (auto simp: provided_def)
    qed
    moreover have "n' \<in> chain_digests E" if "rv_next r' = Some n'" for n'
      using that chain_digests_step [OF D(1) [OF n] fold(1)] fold by simp
    ultimately show ?thesis
      using D(1) [OF n] D(2,4,5,6) fold(1,11) unfolding sound_search_def
      by (simp add: fold(2,5-10) subset_iff split: if_splits)
  qed
next
  fix r r' d q
  assume c: "cache_ok E r" and I: "sound_search E refs done_ops r" and n: "rv_queue r = d # q" and s: "extend_refs E r = Inr r'"
  note D = sound_searchD [OF I]
  have d: "d \<in> graph_digests E refs" and q: "set q \<subseteq> graph_digests E refs" using D(2) n by auto
  show "sound_search E refs done_ops r'"
  proof (cases rule: extend_refs_cases [OF s n c, case_names visited missing unread scan])
    case visited
    then show ?thesis using D q by (simp add: sound_search_def subset_iff)
  next
    case (missing e)
    then show ?thesis using D q d unfolding sound_search_def by (simp add: subset_iff)
  next
    case (unread t)
    then show ?thesis using D q d unfolding sound_search_def by (simp add: subset_iff)
  next
    case (scan t p r1)
    have v: "visible_ops E t = p_ops p" using scan(3) by (simp add: visible_ops_def)
    have "\<exists>op. op_defines (rv_crypto E) op x rec \<and> (op \<in> set done_ops \<or> provided E refs op)"
      if "rv_defs r' x = Some rec" for x rec
    proof -
      from that have "rv_defs r x = Some rec \<or> (\<exists>op \<in> set (p_ops p). op_defines (rv_crypto E) op x rec)"
        using define_all_new [of "rv_crypto E" "p_ops p" r1 x rec] scan(5,6) by simp
      then show ?thesis using d D(3) scan(2) by (auto simp: provided_def simp flip: v)
    qed
    moreover have "set (p_refs p) \<subseteq> graph_digests E refs"
      using graph_digests_step [OF d scan(2,3)] by blast
    ultimately show ?thesis
      using D q unfolding sound_search_def by (simp add: scan(5,6) subset_iff)
  qed
qed

lemma sound_search_define:
  "sound_search E refs done_ops r \<Longrightarrow> sound_search E refs (done_ops @ [op]) (define_op (rv_crypto E) op r)"
proof -
  assume I: "sound_search E refs done_ops r"
  have "\<exists>op'. op_defines (rv_crypto E) op' d rec \<and> (op' \<in> set (done_ops @ [op]) \<or> provided E refs op')"
    if "rv_defs (define_op (rv_crypto E) op r) d = Some rec" for d rec
    using define_op_new [OF that] sound_searchD(3) [OF I] by auto
  then show ?thesis using I unfolding sound_search_def by simp
qed

text \<open>
  What has been covered: with no gap recorded, every ancestor is folded in or still ahead, and
  every visited block of the refs graph is folded in with its own references queued.
\<close>

definition covered :: "resolver_env \<Rightarrow> resolver \<Rightarrow> digest \<Rightarrow> bool" where
  "covered E r d \<longleftrightarrow> (\<exists>t. src_block (rv_src E) d = Inr t \<and>
    (case readable E t of
       None \<Rightarrow> rv_key_gap r \<noteq> None
     | Some p \<Rightarrow> \<forall>op \<in> set (p_ops p). \<forall>e k. creates (sha256 (rv_crypto E)) op = Some (e, k) \<longrightarrow> rv_defs r e \<noteq> None))"

lemma covered_same:
  assumes "rv_defs r' = rv_defs r" and "rv_key_gap r' = rv_key_gap r"
  shows "covered E r' = covered E r"
  unfolding covered_def [abs_def] assms ..

lemma covered_mono:
  assumes "covered E r d" and "\<And>e rec. rv_defs r e = Some rec \<Longrightarrow> rv_defs r' e = Some rec"
    and "rv_key_gap r \<noteq> None \<Longrightarrow> rv_key_gap r' \<noteq> None"
  shows "covered E r' d"
proof -
  have "rv_defs r e \<noteq> None \<Longrightarrow> rv_defs r' e \<noteq> None" for e using assms(2) by auto
  then show ?thesis using assms(1,3) unfolding covered_def by (fastforce split: option.splits)
qed

definition complete_search :: "resolver_env \<Rightarrow> digest list \<Rightarrow> operation list \<Rightarrow> resolver \<Rightarrow> bool" where
  "complete_search E refs done_ops r \<longleftrightarrow>
    (\<forall>op \<in> set done_ops. \<forall>e k. creates (sha256 (rv_crypto E)) op = Some (e, k) \<longrightarrow> rv_defs r e \<noteq> None) \<and>
    (rv_ancestor_gap r \<noteq> None \<or>
      (\<forall>d \<in> chain_digests E. covered E r d \<or> (\<exists>n. rv_next r = Some n \<and> (d, n) \<in> (prev_links (rv_src E))\<^sup>*))) \<and>
    (\<forall>d \<in> set refs. rv_visited r d \<or> d \<in> set (rv_queue r)) \<and>
    (rv_refs_gap r \<noteq> None \<or>
      (\<forall>d. rv_visited r d \<longrightarrow> covered E r d \<and> (\<forall>x. (x, d) \<in> ref_links E \<longrightarrow> rv_visited r x \<or> x \<in> set (rv_queue r))))"

lemma complete_searchD:
  assumes "complete_search E refs done_ops r"
  shows "op \<in> set done_ops \<Longrightarrow> creates (sha256 (rv_crypto E)) op = Some (e, k) \<Longrightarrow> rv_defs r e \<noteq> None"
    "rv_ancestor_gap r = None \<Longrightarrow> d \<in> chain_digests E \<Longrightarrow>
      covered E r d \<or> (\<exists>n. rv_next r = Some n \<and> (d, n) \<in> (prev_links (rv_src E))\<^sup>*)"
    "d \<in> set refs \<Longrightarrow> rv_visited r d \<or> d \<in> set (rv_queue r)"
    "rv_refs_gap r = None \<Longrightarrow> rv_visited r d \<Longrightarrow> covered E r d"
    "rv_refs_gap r = None \<Longrightarrow> rv_visited r d \<Longrightarrow> (x, d) \<in> ref_links E \<Longrightarrow> rv_visited r x \<or> x \<in> set (rv_queue r)"
  using assms unfolding complete_search_def by blast+

lemma complete_searchI:
  assumes "\<And>op e k. op \<in> set done_ops \<Longrightarrow> creates (sha256 (rv_crypto E)) op = Some (e, k) \<Longrightarrow> rv_defs r e \<noteq> None"
    "\<And>d. rv_ancestor_gap r = None \<Longrightarrow> d \<in> chain_digests E \<Longrightarrow>
      covered E r d \<or> (\<exists>n. rv_next r = Some n \<and> (d, n) \<in> (prev_links (rv_src E))\<^sup>*)"
    "\<And>d. d \<in> set refs \<Longrightarrow> rv_visited r d \<or> d \<in> set (rv_queue r)"
    "\<And>d. rv_refs_gap r = None \<Longrightarrow> rv_visited r d \<Longrightarrow> covered E r d"
    "\<And>d x. rv_refs_gap r = None \<Longrightarrow> rv_visited r d \<Longrightarrow> (x, d) \<in> ref_links E \<Longrightarrow> rv_visited r x \<or> x \<in> set (rv_queue r)"
  shows "complete_search E refs done_ops r"
  unfolding complete_search_def using assms by blast

lemma prev_chain_cases:
  assumes "(d, n) \<in> (prev_links src)\<^sup>*" and "src_block src n = Inr t"
  shows "d = n \<or> (\<exists>p. block_prev t = Some p \<and> (d, p) \<in> (prev_links src)\<^sup>*)"
  using assms(1)
proof (cases rule: rtranclE)
  case (step y)
  then show ?thesis using assms(2) by (auto simp: prev_links_def)
qed simp

lemma stable_complete_search: "stable E (complete_search E refs done_ops)"
proof (rule stableI)
  fix r r' d
  assume c: "cache_ok E r" and I: "complete_search E refs done_ops r" and n: "rv_next r = Some d" and s: "extend_ancestors E r = Inr r'"
  note D = complete_searchD [OF I]
  show "complete_search E refs done_ops r'"
  proof (cases rule: extend_ancestors_cases [OF s n c, case_names gap fold])
    case (gap e)
    have "covered E r' = covered E r" by (rule covered_same) (simp_all add: gap(3))
    then show ?thesis using D gap(3) by (intro complete_searchI) simp_all
  next
    case (fold t r1)
    have mono: "rv_defs r e = Some rec \<Longrightarrow> rv_defs r' e = Some rec" for e rec
      using define_all_mono [of r1 e rec] fold(2,3) by simp
    have keep: "covered E r x \<Longrightarrow> covered E r' x" for x
      by (rule covered_mono [OF _ mono]) (use fold(2,10) in auto)
    have cd: "covered E r' d"
    proof (cases "readable E t")
      case None
      then show ?thesis using fold(1,2,10) by (simp add: covered_def)
    next
      case (Some p)
      then have "visible_ops E t = p_ops p" by (simp add: visible_ops_def)
      then show ?thesis
        using Some fold(1,2) define_all_done [of _ "p_ops p" "rv_crypto E"] by (auto simp: covered_def)
    qed
    show ?thesis
    proof (rule complete_searchI)
      fix op e k assume "op \<in> set done_ops" "creates (sha256 (rv_crypto E)) op = Some (e, k)"
      then obtain rec where "rv_defs r e = Some rec" using D(1) by blast
      then show "rv_defs r' e \<noteq> None" using mono by blast
    next
      fix x assume "rv_ancestor_gap r' = None" "x \<in> chain_digests E"
      then have "covered E r x \<or> (x, d) \<in> (prev_links (rv_src E))\<^sup>*" using D(2) n fold(2,5) by auto
      then show "covered E r' x \<or> (\<exists>n. rv_next r' = Some n \<and> (x, n) \<in> (prev_links (rv_src E))\<^sup>*)"
        using keep cd prev_chain_cases [OF _ fold(1)] fold(2) by auto
    next
      fix x assume "rv_refs_gap r' = None" "rv_visited r' x"
      then show "covered E r' x" using D(4) keep fold(2,6,8) by simp
    qed (use D(3,5) fold(2,6,7,8) in simp_all)
  qed
next
  fix r r' d q
  assume c: "cache_ok E r" and I: "complete_search E refs done_ops r" and n: "rv_queue r = d # q" and s: "extend_refs E r = Inr r'"
  note D = complete_searchD [OF I]
  show "complete_search E refs done_ops r'"
  proof (cases rule: extend_refs_cases [OF s n c, case_names visited missing unread scan])
    case visited
    have "covered E r' = covered E r" by (rule covered_same) (simp_all add: visited(2))
    then show ?thesis
    proof (intro complete_searchI)
      fix x assume "x \<in> set refs"
      then show "rv_visited r' x \<or> x \<in> set (rv_queue r')" using D(3) [of x] n visited by auto
    next
      fix x y assume "rv_refs_gap r' = None" "rv_visited r' x" "(y, x) \<in> ref_links E"
      then show "rv_visited r' y \<or> y \<in> set (rv_queue r')" using D(5) [of x y] n visited by auto
    qed (use D(1,2,4) visited in simp_all)
  next
    case (missing e)
    have "covered E r' = covered E r" by (rule covered_same) (simp_all add: missing)
    then show ?thesis
    proof (intro complete_searchI)
      fix x assume "x \<in> set refs"
      then show "rv_visited r' x \<or> x \<in> set (rv_queue r')" using D(3) [of x] n missing by auto
    qed (use D(1,2) missing in \<open>auto split: if_splits\<close>)
  next
    case (unread t)
    have keep: "covered E r x \<Longrightarrow> covered E r' x" for x
      by (rule covered_mono) (use unread in auto)
    have cd: "covered E r' d" using unread by (simp add: covered_def)
    have nl: "(x, d) \<notin> ref_links E" for x using unread by (simp add: ref_links_def)
    show ?thesis
    proof (rule complete_searchI)
      fix op e k assume "op \<in> set done_ops" "creates (sha256 (rv_crypto E)) op = Some (e, k)"
      then show "rv_defs r' e \<noteq> None" using D(1) unread by simp
    next
      fix x assume "rv_ancestor_gap r' = None" "x \<in> chain_digests E"
      then show "covered E r' x \<or> (\<exists>n. rv_next r' = Some n \<and> (x, n) \<in> (prev_links (rv_src E))\<^sup>*)"
        using D(2) [of x] keep [of x] unread by auto
    next
      fix x assume "x \<in> set refs"
      then show "rv_visited r' x \<or> x \<in> set (rv_queue r')" using D(3) [of x] n unread by auto
    next
      fix x assume "rv_refs_gap r' = None" "rv_visited r' x"
      then show "covered E r' x" using D(4) [of x] keep [of x] cd unread by (auto split: if_splits)
    next
      fix x y assume "rv_refs_gap r' = None" "rv_visited r' x" "(y, x) \<in> ref_links E"
      then show "rv_visited r' y \<or> y \<in> set (rv_queue r')" using D(5) [of x y] n nl unread by (auto split: if_splits)
    qed
  next
    case (scan t p r1)
    have mono: "rv_defs r e = Some rec \<Longrightarrow> rv_defs r' e = Some rec" for e rec
      using define_all_mono [of r1 e rec] scan(5,6) by simp
    have keep: "covered E r x \<Longrightarrow> covered E r' x" for x
      by (rule covered_mono [OF _ mono]) (use scan(5,6) in auto)
    have cd: "covered E r' d"
      using scan define_all_done [of _ "p_ops p" "rv_crypto E"] by (auto simp: covered_def)
    have ln: "(x, d) \<in> ref_links E \<Longrightarrow> x \<in> set (p_refs p)" for x
      using scan(2,3) by (auto simp: ref_links_def)
    show ?thesis
    proof (rule complete_searchI)
      fix op e k assume "op \<in> set done_ops" "creates (sha256 (rv_crypto E)) op = Some (e, k)"
      then obtain rec where "rv_defs r e = Some rec" using D(1) by blast
      then show "rv_defs r' e \<noteq> None" using mono by blast
    next
      fix x assume "rv_ancestor_gap r' = None" "x \<in> chain_digests E"
      then show "covered E r' x \<or> (\<exists>n. rv_next r' = Some n \<and> (x, n) \<in> (prev_links (rv_src E))\<^sup>*)"
        using D(2) keep scan(5,6) by auto
    next
      fix x assume "x \<in> set refs"
      then show "rv_visited r' x \<or> x \<in> set (rv_queue r')" using D(3) n scan(5,6) by auto
    next
      fix x assume "rv_refs_gap r' = None" "rv_visited r' x"
      then show "covered E r' x" using D(4) keep cd scan(5,6) by (auto split: if_splits)
    next
      fix x y assume "rv_refs_gap r' = None" "rv_visited r' x" "(y, x) \<in> ref_links E"
      then show "rv_visited r' y \<or> y \<in> set (rv_queue r')"
        using D(5) [of x y] n ln scan(5,6) by (auto split: if_splits)
    qed
  qed
qed

lemma complete_search_define:
  assumes "complete_search E refs done_ops r"
  shows "complete_search E refs (done_ops @ [op]) (define_op (rv_crypto E) op r)"
proof -
  note D = complete_searchD [OF assms]
  have keep: "covered E r x \<Longrightarrow> covered E (define_op (rv_crypto E) op r) x" for x
    by (rule covered_mono) (simp_all add: define_op_mono)
  have mono: "rv_defs r e \<noteq> None \<Longrightarrow> rv_defs (define_op (rv_crypto E) op r) e \<noteq> None" for e
    using define_op_mono by fastforce
  show ?thesis
  proof (rule complete_searchI)
    fix op' e k assume "op' \<in> set (done_ops @ [op])" "creates (sha256 (rv_crypto E)) op' = Some (e, k)"
    then show "rv_defs (define_op (rv_crypto E) op r) e \<noteq> None"
      using D(1) mono define_op_done by auto
  next
    fix x assume "rv_ancestor_gap (define_op (rv_crypto E) op r) = None" "x \<in> chain_digests E"
    then show "covered E (define_op (rv_crypto E) op r) x \<or>
        (\<exists>n. rv_next (define_op (rv_crypto E) op r) = Some n \<and> (x, n) \<in> (prev_links (rv_src E))\<^sup>*)"
      using D(2) [of x] keep [of x] by auto
  next
    fix x assume "rv_refs_gap (define_op (rv_crypto E) op r) = None" "rv_visited (define_op (rv_crypto E) op r) x"
    then show "covered E (define_op (rv_crypto E) op r) x" using D(4) [of x] keep [of x] by simp
  qed (use D(3,5) in simp_all)
qed

end
