(* ===== verification/Samples.thy ===== *)
theory Samples
  imports Store
begin

text \<open>
  Signed blocks for the concrete inputs of the witnesses: blocks of two keys over the sample
  signature scheme, with any references and operations, each the decoding of its own bytes.
\<close>

section \<open>Signed contents\<close>

lemma sample_signed:
  assumes "length priv = 64" and "c_pub c = None" and "validate_content (c\<lparr>c_pub := Some (public_half priv)\<rparr>) = Inr ()"
    and "normal_content c" and "bulk (Map (signing_entries (c\<lparr>c_pub := Some (public_half priv)\<rparr>))) < 2 ^ 32"
  obtains b where "sign sample_crypto c priv = Inr b" and "blk_content b = c\<lparr>c_pub := Some (public_half priv)\<rparr>"
    and "sound_block sample_crypto b" and "decode_block sample_crypto (blk_enc b) = Inr b"
proof -
  let ?c = "c\<lparr>c_pub := Some (public_half priv)\<rparr>"
  have h: "honest_key sample_crypto priv"
    using assms(1) by (simp add: honest_key_def sample_crypto_def private_key_size_def signature_size_def)
  have w: "\<forall>op \<in> set (items (c_ops c)). op_encodable op"
    using assms(4) wf_op_encodable by (auto simp: normal_content_def)
  from sign_succeeds [OF h w] assms(2,3) obtain b where b: "sign sample_crypto c priv = Inr b" by auto
  then have cb: "blk_content b = ?c" using assms(2) by (auto simp: sign_Inr assemble_Inr)
  have s: "length (blk_sig b) = 64" and e: "encode (Map (signing_entries ?c @ [(''sig'', Bytes (blk_sig b))])) = Inr (blk_enc b)"
    using b assms(2) by (auto simp: sign_Inr assemble_Inr signature_size_def)
  have "length (blk_enc b) \<le> bulk (Map (signing_entries ?c @ [(''sig'', Bytes (blk_sig b))]))"
    using encode_bulk(1) e by (simp only: encode_def)
  also have "\<dots> = bulk (Map (signing_entries ?c)) + 85" using s by simp
  finally have "small (blk_enc b)" using assms(5) by (simp add: small_def)
  moreover have "normal_content (blk_content b)" using assms(4) by (simp add: cb normal_content_def)
  ultimately have "decode_block sample_crypto (blk_enc b) = Inr b"
    using sign_sound [OF b] by (simp add: decode_block_iff sound_block_def)
  with b cb sign_sound [OF b] show thesis by (rule that)
qed

text \<open>The public block of given references and operations, and the rotation block to a given key.\<close>

definition public_content :: "digest option \<Rightarrow> digest list \<Rightarrow> operation list \<Rightarrow> content" where
  "public_content prev refs ops = \<lparr>c_version = protocol_version, c_type = type_public, c_pub = None, c_prev = prev,
    c_refs = Some refs, c_ts = 0, c_ops = Some ops, c_enc = None, c_nonce = None\<rparr>"

definition rotation_content :: "digest \<Rightarrow> public_key \<Rightarrow> content" where
  "rotation_content prev k = \<lparr>c_version = protocol_version, c_type = type_rotation, c_pub = None, c_prev = Some prev,
    c_refs = Some [], c_ts = 0, c_ops = Some [Rotate_key k], c_enc = None, c_nonce = None\<rparr>"

lemma bulk_signing:
  assumes "length (items (c_pub c)) = 32" and "length (items (c_refs c)) \<le> 64" and "has_plaintext_payload (c_type c)"
    and "length (c_type c) \<le> 64" and "bulk (Array (map op_value (items (c_ops c)))) < 2 ^ 30"
  shows "bulk (Map (signing_entries c)) < 2 ^ 32"
proof -
  have "sum_list (map (\<lambda>d. bulk (Bytes (digest_bytes d))) (items (c_refs c))) = length (items (c_refs c)) * 41"
    by (simp add: sum_list_triv)
  then have r: "sum_list (map (\<lambda>d. bulk (Bytes (digest_bytes d))) (items (c_refs c))) \<le> 64 * 64"
    using assms(2) by simp
  have p: "bulk (prev_value (c_prev c)) \<le> 64" by (cases "c_prev c") (simp_all add: prev_value_def)
  show ?thesis
    using assms(1,3-5) p r by (simp add: signing_entries_def payload_entries_def comp_def)
qed

lemma public_half_length: "length priv = 64 \<Longrightarrow> length (public_half priv) = 32"
  by (simp add: public_half_def)

lemma public_block:
  assumes "length priv = 64" and "distinct refs" and "length refs \<le> 64" and "ops \<noteq> []"
    and "\<forall>op \<in> set ops. wf_op op \<and> \<not> is_rotate_key op" and "bulk (Array (map op_value ops)) < 2 ^ 30"
  obtains b where "sign sample_crypto (public_content prev refs ops) priv = Inr b"
    and "sound_block sample_crypto b" and "decode_block sample_crypto (blk_enc b) = Inr b"
    and "block_prev b = prev" and "block_refs b = refs" and "block_ops b = ops" and "block_pub b = public_half priv"
    and "c_type (blk_content b) = type_public" and "c_version (blk_content b) = protocol_version"
    and "c_ts (blk_content b) = 0"
proof -
  let ?c = "public_content prev refs ops\<lparr>c_pub := Some (public_half priv)\<rparr>"
  have l: "length (type_public) \<le> 64" by (simp add: type_public_def)
  have v: "validate_content ?c = Inr ()"
    using assms type_names public_half_length [OF assms(1)]
    by (simp add: validate_content_Inr validate_plain_Inr public_content_def block_type_valid_def public_key_size_def)
  have n: "normal_content (public_content prev refs ops)" using assms(5) by (simp add: normal_content_def public_content_def)
  have "bulk (Map (signing_entries ?c)) < 2 ^ 32"
    using assms l public_half_length [OF assms(1)] by (intro bulk_signing) (simp_all add: public_content_def)
  moreover have "c_pub (public_content prev refs ops) = None" by (simp add: public_content_def)
  ultimately obtain b where b: "sign sample_crypto (public_content prev refs ops) priv = Inr b" "blk_content b = ?c"
    "sound_block sample_crypto b" "decode_block sample_crypto (blk_enc b) = Inr b"
    using sample_signed [OF assms(1) _ v n] by blast
  then show thesis
    by (intro that [of b]) (simp_all add: block_prev_def block_refs_def block_ops_def block_pub_def public_content_def)
qed

lemma rotation_block:
  assumes "length priv = 64" and "digest_bytes k \<noteq> public_half priv"
  obtains b where "sign sample_crypto (rotation_content p k) priv = Inr b"
    and "sound_block sample_crypto b" and "decode_block sample_crypto (blk_enc b) = Inr b"
    and "block_prev b = Some p" and "block_refs b = []" and "block_ops b = [Rotate_key k]" and "block_pub b = public_half priv"
    and "c_type (blk_content b) = type_rotation" and "c_version (blk_content b) = protocol_version"
    and "c_ts (blk_content b) = 0"
proof -
  let ?c = "rotation_content p k\<lparr>c_pub := Some (public_half priv)\<rparr>"
  have l: "length (type_rotation) \<le> 64" "length op_rotate_key \<le> 64"
    by (simp_all add: type_rotation_def op_rotate_key_def)
  have v: "validate_content ?c = Inr ()"
    using assms type_names public_half_length [OF assms(1)]
    by (simp add: validate_content_Inr validate_plain_Inr validate_rotation_Inr rotation_content_def block_type_valid_def public_key_size_def)
  have n: "normal_content (rotation_content p k)" by (simp add: normal_content_def rotation_content_def)
  have "bulk (Map (signing_entries ?c)) < 2 ^ 32"
    using assms l public_half_length [OF assms(1)] by (intro bulk_signing) (simp_all add: rotation_content_def)
  moreover have "c_pub (rotation_content p k) = None" by (simp add: rotation_content_def)
  ultimately obtain b where b: "sign sample_crypto (rotation_content p k) priv = Inr b" "blk_content b = ?c"
    "sound_block sample_crypto b" "decode_block sample_crypto (blk_enc b) = Inr b"
    using sample_signed [OF assms(1) _ v n] by blast
  then show thesis
    by (intro that [of b]) (simp_all add: block_prev_def block_refs_def block_ops_def block_pub_def rotation_content_def)
qed

section \<open>Sample operations\<close>

text \<open>The bond \<open>_A_ is true\<close> and a molecule that claims a text is, over the bond of a given digest.\<close>

definition truth_bond :: bond where
  "truth_bond = must_bond template_truth_assertion"

definition text_filler :: filler where
  "text_filler = zero_filler\<lparr>ftype := filler_ipfs_uri, furi := ''ipfs://a''\<rparr>"

lemma wf_text_filler: "wf_filler text_filler"
proof -
  have "validate_filler text_filler = Inr ()" by code_simp
  then show ?thesis by (simp add: wf_filler_def text_filler_def zero_filler_def filler_tags)
qed

definition truth_molecule :: "digest \<Rightarrow> molecule" where
  "truth_molecule d = (case new_molecule d [text_filler] of Inr m \<Rightarrow> m)"

lemma truth_molecule_ok: "new_molecule d [text_filler] = Inr (truth_molecule d)"
proof -
  have "\<forall>f \<in> set [text_filler]. validate_filler f = Inr ()" using wf_text_filler by (simp add: wf_filler_def)
  moreover obtain e where "encode (molecule_value d [text_filler]) = Inr e"
    using molecule_encodes [of "[text_filler]" d] calculation by blast
  ultimately have "new_molecule d [text_filler] = Inr \<lparr>mol_bond = d, mol_fillers = [text_filler], mol_enc = e\<rparr>"
    by (simp add: new_molecule_Inr)
  then show ?thesis by (simp add: truth_molecule_def)
qed

lemma truth_molecule_fields [simp]:
  "mol_bond (truth_molecule d) = d" "mol_fillers (truth_molecule d) = [text_filler]"
  using truth_molecule_ok [of d] by (auto simp: new_molecule_Inr)

lemma wf_truth_molecule: "wf_op (Create_molecule (truth_molecule d))"
  using truth_molecule_ok [of d] wf_text_filler by simp

lemma truth_references:
  "references (Create_molecule (truth_molecule d)) = [\<lparr>ref_digest = d, ref_kind = Kind_bond, ref_field = Bond_field\<rparr>]"
  by (simp add: filler_references_def text_filler_def type_is_ref_def filler_tags)

lemma truth_bond_ok: "new_bond (bond_template truth_bond) = Inr truth_bond" "variable_count truth_bond = 1" "bond_enc truth_bond \<noteq> []"
  by code_simp+

lemma wf_truth_bond: "wf_op (Create_bond truth_bond)"
  by (simp add: truth_bond_ok)

lemma sample_bulk:
  "bulk (op_value (Create_atom water)) \<le> 200" "bulk (op_value (Create_atom ice)) \<le> 200"
  "bulk (op_value (Create_bond truth_bond)) \<le> 200" "bulk (op_value (Create_molecule (truth_molecule d))) \<le> 300"
proof -
  show "bulk (op_value (Create_atom water)) \<le> 200" "bulk (op_value (Create_atom ice)) \<le> 200"
    by code_simp+
  show "bulk (op_value (Create_bond truth_bond)) \<le> 200" by code_simp
  have "length op_create_molecule = 15" by code_simp
  moreover have "bulk (filler_value text_filler) \<le> 100" by code_simp
  ultimately show "bulk (op_value (Create_molecule (truth_molecule d))) \<le> 300"
    by (simp add: molecule_value_def)
qed

end
