(* ===== verification/Validation.thy ===== *)
theory Validation
  imports Resolution Samples
begin

text \<open>
  The outcomes of a validation: what acceptance establishes, what each rejection and each
  undecided answer is evidence of, when validation returns, and two places where the code departs
  from its own documentation.
\<close>

section \<open>The passes of a validation\<close>

definition unobtainable :: "source \<Rightarrow> digest \<Rightarrow> bool" where
  "unobtainable src d \<longleftrightarrow> (case src_block src d of Inl e \<Rightarrow> is_not_found e | Inr t \<Rightarrow> False)"

definition is_public :: "block \<Rightarrow> bool" where
  "is_public b \<longleftrightarrow> c_type (blk_content b) = type_public"

definition rules_6_10 :: "block \<Rightarrow> source \<Rightarrow> digest list \<Rightarrow> bool" where
  "rules_6_10 b src refs \<longleftrightarrow> (\<forall>ref \<in> set refs. \<forall>t. src_block src ref = Inr t \<longrightarrow>
    \<not> (is_public b \<and> is_private t) \<and> \<not> same_author t b)"

lemma check_refs_Inr:
  assumes "check_refs E refs r = Inr r'" and "cache_ok E r"
  shows "cache_ok E r' \<and> rules_6_10 (rv_block E) (rv_src E) refs \<and>
    (\<exists>c rep. r' = r\<lparr>rv_cache := c, rv_report := rep\<rparr> \<and> r_forks rep = r_forks (rv_report r) \<and>
      r_unchecked_refs rep = r_unchecked_refs (rv_report r) @ filter (unobtainable (rv_src E)) refs)"
  using assms
proof (induction refs arbitrary: r)
  case Nil
  have "r = r\<lparr>rv_cache := rv_cache r, rv_report := rv_report r\<rparr>" by simp
  moreover have "r' = r" using Nil by simp
  ultimately show ?case
    using Nil by (intro conjI exI [of _ "rv_cache r"] exI [of _ "rv_report r"]) (simp_all add: rules_6_10_def)
next
  case (Cons ref refs)
  show ?case
  proof (cases "src_block (rv_src E) ref")
    case (Inl e)
    then have nf: "is_not_found e" and u: "unobtainable (rv_src E) ref"
      using Cons.prems by (auto simp: fetch_source Let_def unobtainable_def split: if_splits)
    let ?rep = "(rv_report r)\<lparr>r_unchecked_refs := r_unchecked_refs (rv_report r) @ [ref]\<rparr>"
    let ?rep' = "if c_type (blk_content (rv_block E)) = type_public
      then warn 6 (block_digest (rv_crypto E) (rv_block E)) (Type_and_author_unchecked ref) ?rep
      else warn 10 (block_digest (rv_crypto E) (rv_block E)) (Author_unchecked ref) ?rep"
    have step: "check_refs E refs (r\<lparr>rv_report := ?rep'\<rparr>) = Inr r'"
      using Cons.prems nf Inl by (simp add: fetch_source Let_def)
    have c: "cache_ok E (r\<lparr>rv_report := ?rep'\<rparr>)" using Cons.prems(2) by (simp add: cache_ok_def)
    from Cons.IH [OF step c] show ?thesis
      using Inl u by (force simp: rules_6_10_def warn_def)
  next
    case (Inr t)
    let ?r = "r\<lparr>rv_cache := (rv_cache r)(ref \<mapsto> t)\<rparr>"
    have step: "check_refs E refs ?r = Inr r'" "\<not> (is_public (rv_block E) \<and> is_private t)" "\<not> same_author t (rv_block E)"
      using Cons.prems Inr by (auto simp: fetch_source Let_def is_public_def split: if_splits)
    have c: "cache_ok E ?r" using cache_ok_update [OF Cons.prems(2) Inr] by simp
    have u: "\<not> unobtainable (rv_src E) ref" using Inr by (simp add: unobtainable_def)
    from Cons.IH [OF step(1) c] show ?thesis
      using Inr u step(2,3) by (force simp: rules_6_10_def)
  qed
qed

lemma check_refs_Inl:
  assumes "check_refs E refs r = Inl e" and "cache_ok E r"
  shows "(\<exists>ref \<in> set refs. src_block (rv_src E) ref = Inl e \<and> \<not> is_not_found e) \<or>
    (\<exists>n ref e'. e = Rule_error n (block_digest (rv_crypto E) (rv_block E)) e' \<and>
      (n = 6 \<and> e' = Private_reference ref \<or> n = 10 \<and> e' = Own_chain_reference ref))"
  using assms
proof (induction refs arbitrary: r)
  case (Cons ref refs)
  show ?case
  proof (cases "src_block (rv_src E) ref")
    case (Inl e')
    show ?thesis
    proof (cases "is_not_found e'")
      case True
      then obtain rep where "check_refs E refs (r\<lparr>rv_report := rep\<rparr>) = Inl e"
        using Cons.prems Inl by (auto simp: fetch_source Let_def)
      moreover have "cache_ok E (r\<lparr>rv_report := rep\<rparr>)" using Cons.prems(2) by (simp add: cache_ok_def)
      ultimately show ?thesis using Cons.IH by auto
    next
      case False
      then show ?thesis using Cons.prems Inl by (auto simp: fetch_source Let_def)
    qed
  next
    case (Inr t)
    have c: "cache_ok E (r\<lparr>rv_cache := (rv_cache r)(ref \<mapsto> t)\<rparr>)" using cache_ok_update [OF Cons.prems(2) Inr] by simp
    show ?thesis
      using Cons.prems Inr Cons.IH [OF _ c] by (auto simp: fetch_source Let_def split: if_splits)
  qed
qed simp

text \<open>The state the operations of a block are checked from.\<close>

lemma start_search:
  assumes "check_refs E refs (new_resolver (rv_block E) report) = Inr r1"
  shows "cache_ok E (r1\<lparr>rv_queue := refs\<rparr>) \<and> sound_search E refs [] (r1\<lparr>rv_queue := refs\<rparr>) \<and>
    complete_search E refs [] (r1\<lparr>rv_queue := refs\<rparr>) \<and> rules_6_10 (rv_block E) (rv_src E) refs \<and> rv_scanned r1 = 0 \<and>
    r_forks (rv_report r1) = r_forks report \<and>
    r_unchecked_refs (rv_report r1) = r_unchecked_refs report @ filter (unobtainable (rv_src E)) refs"
proof -
  have c: "cache_ok E (new_resolver (rv_block E) report)" by (simp add: cache_ok_def new_resolver_def)
  from check_refs_Inr [OF assms c] obtain ca rep where c1: "cache_ok E r1" and ru: "rules_6_10 (rv_block E) (rv_src E) refs"
    and r1: "r1 = (new_resolver (rv_block E) report)\<lparr>rv_cache := ca, rv_report := rep\<rparr>"
    and rep: "r_forks rep = r_forks report" "r_unchecked_refs rep = r_unchecked_refs report @ filter (unobtainable (rv_src E)) refs"
    by (auto simp: new_resolver_def)
  have "n \<in> chain_digests E" if "block_prev (rv_block E) = Some n" for n
    using that by (auto simp: chain_digests_def)
  moreover have "set refs \<subseteq> graph_digests E refs" by (auto simp: graph_digests_def)
  ultimately have "sound_search E refs [] (r1\<lparr>rv_queue := refs\<rparr>)"
    by (simp add: sound_search_def r1 new_resolver_def)
  moreover have "complete_search E refs [] (r1\<lparr>rv_queue := refs\<rparr>)"
    by (rule complete_searchI) (auto simp: r1 new_resolver_def chain_digests_def)
  ultimately show ?thesis using c1 ru rep by (auto simp: r1 cache_ok_def new_resolver_def)
qed

definition in_limit :: "resolver_env \<Rightarrow> fork list \<Rightarrow> digest list \<Rightarrow> resolver \<Rightarrow> bool" where
  "in_limit E F U r \<longleftrightarrow> (0 \<le> rv_limit E \<longrightarrow> int (rv_scanned r) \<le> rv_limit E) \<and>
    r_forks (rv_report r) = F \<and> r_unchecked_refs (rv_report r) = U"

lemma stable_in_limit: "stable E (in_limit E F U)"
proof (rule stableI)
  fix r r' d
  assume c: "cache_ok E r" and I: "in_limit E F U r" and n: "rv_next r = Some d" and s: "extend_ancestors E r = Inr r'"
  from I show "in_limit E F U r'"
    by (cases rule: extend_ancestors_cases [OF s n c, case_names gap fold]) (simp_all add: in_limit_def)
next
  fix r r' d q
  assume c: "cache_ok E r" and I: "in_limit E F U r" and n: "rv_queue r = d # q" and s: "extend_refs E r = Inr r'"
  from I show "in_limit E F U r'"
    by (cases rule: extend_refs_cases [OF s n c, case_names visited missing unread scan]) (auto simp: in_limit_def)
qed

text \<open>Everything the check of the operations establishes, by one invariant.\<close>

definition search_inv :: "resolver_env \<Rightarrow> digest list \<Rightarrow> fork list \<Rightarrow> digest list \<Rightarrow> operation list \<Rightarrow> resolver \<Rightarrow> bool" where
  "search_inv E refs F U done_ops r \<longleftrightarrow>
    sound_search E refs done_ops r \<and> complete_search E refs done_ops r \<and> in_limit E F U r"

lemma stable_search_inv: "stable E (search_inv E refs F U done_ops)"
  using stable_conj [OF stable_sound_search stable_conj [OF stable_complete_search stable_in_limit]]
  by (simp add: search_inv_def [abs_def])

lemma search_inv_define:
  "search_inv E refs F U done_ops r \<Longrightarrow> search_inv E refs F U (done_ops @ [op]) (define_op (rv_crypto E) op r)"
  by (simp add: search_inv_def sound_search_define complete_search_define in_limit_def)

lemma start_inv:
  assumes "check_refs E refs (new_resolver (rv_block E) report) = Inr r1"
  shows "cache_ok E (r1\<lparr>rv_queue := refs\<rparr>)"
    and "search_inv E refs (r_forks report) (r_unchecked_refs report @ filter (unobtainable (rv_src E)) refs) []
      (r1\<lparr>rv_queue := refs\<rparr>)"
  using start_search [OF assms] by (auto simp: search_inv_def in_limit_def)

text \<open>What rules 4 and 5 require of the operation at one position.\<close>

definition op_resolves :: "resolver_env \<Rightarrow> digest list \<Rightarrow> operation list \<Rightarrow> operation \<Rightarrow> bool" where
  "op_resolves E refs earlier op \<longleftrightarrow>
    (\<forall>ref \<in> set (references op). \<exists>op'. (op' \<in> set earlier \<or> provided E refs op') \<and>
      creates (sha256 (rv_crypto E)) op' = Some (ref_digest ref, ref_kind ref)) \<and>
    (\<forall>m. op = Create_molecule m \<longrightarrow> (\<exists>bond. (Create_bond bond \<in> set earlier \<or> provided E refs (Create_bond bond)) \<and>
      bond_digest (sha256 (rv_crypto E)) bond = mol_bond m \<and> length (mol_fillers m) = variable_count bond))"

lemma op_checked_resolves:
  assumes "sound_search E refs earlier t" and "op_checked E op t"
  shows "op_resolves E refs earlier op"
proof -
  have refs: "\<exists>op'. (op' \<in> set earlier \<or> provided E refs op') \<and>
      creates (sha256 (rv_crypto E)) op' = Some (ref_digest ref, ref_kind ref)" if "ref \<in> set (references op)" for ref
  proof -
    have "resolved t ref" using assms(2) that by (simp add: op_checked_def)
    then obtain rec where rec: "rv_defs t (ref_digest ref) = Some rec" "rec_kind rec = ref_kind ref"
      unfolding resolved_def by blast
    from sound_searchD(3) [OF assms(1) rec(1)] obtain op' where
      "op_defines (rv_crypto E) op' (ref_digest ref) rec" "op' \<in> set earlier \<or> provided E refs op'" by blast
    then show ?thesis using rec(2) unfolding op_defines_def by metis
  qed
  have "\<exists>bond. (Create_bond bond \<in> set earlier \<or> provided E refs (Create_bond bond)) \<and>
      bond_digest (sha256 (rv_crypto E)) bond = mol_bond m \<and> length (mol_fillers m) = variable_count bond"
    if m: "op = Create_molecule m" for m
  proof -
    obtain rec where rec: "rv_defs t (mol_bond m) = Some rec"
      and v: "validate_against (sha256 (rv_crypto E)) m (rec_bond rec) = Inr ()"
      using assms(2) m by (auto simp: op_checked_def)
    have "resolved t \<lparr>ref_digest = mol_bond m, ref_kind = Kind_bond, ref_field = Bond_field\<rparr>"
      using assms(2) m by (simp add: op_checked_def)
    then have k: "rec_kind rec = Kind_bond" using rec by (simp add: resolved_def)
    from sound_searchD(3) [OF assms(1) rec] obtain op' where op': "op_defines (rv_crypto E) op' (mol_bond m) rec"
      "op' \<in> set earlier \<or> provided E refs op'" by blast
    then obtain bond where "op' = Create_bond bond" "rec_bond rec = bond" "bond_digest (sha256 (rv_crypto E)) bond = mol_bond m"
      using k by (cases op') (auto simp: op_defines_def)
    then show ?thesis using op'(2) v by (auto simp: validate_against_def split: if_splits)
  qed
  then show ?thesis using refs by (simp add: op_resolves_def)
qed

lemma validate_references_Inr:
  assumes "validate_references cr b refs ops src opts report = Some (Inr report')"
  defines "E \<equiv> resolver_env_of cr b src opts"
  shows "rules_6_10 b src refs \<and> (\<forall>k < length ops. op_resolves E refs (take k ops) (ops ! k)) \<and>
    r_forks report' = r_forks report \<and> r_unchecked_refs report' = r_unchecked_refs report @ filter (unobtainable src) refs \<and>
    (0 \<le> scan_limit opts \<longrightarrow> int (r_scanned report') \<le> scan_limit opts)"
proof -
  have E: "rv_block E = b" "rv_src E = src" "rv_limit E = scan_limit opts" "rv_crypto E = cr"
    by (simp_all add: E_def resolver_env_of_def)
  from assms(1) obtain r1 r2 where 1: "check_refs E refs (new_resolver (rv_block E) report) = Inr r1"
    and 2: "check_ops E 0 ops (r1\<lparr>rv_queue := refs\<rparr>) = Some (Inr r2)"
    and rep: "report' = (rv_report r2)\<lparr>r_scanned := rv_scanned r2\<rparr>"
    by (auto simp: validate_references_def Let_def bindD_eq_Inr E_def [symmetric] E(1))
  note st = start_inv [OF 1]
  from check_ops_Inr [OF 2 st(1,2) stable_search_inv search_inv_define]
  have fin: "search_inv E refs (r_forks report) (r_unchecked_refs report @ filter (unobtainable src) refs) ops r2"
    and each: "\<And>k. k < length ops \<Longrightarrow> \<exists>t. search_inv E refs (r_forks report)
      (r_unchecked_refs report @ filter (unobtainable src) refs) (take k ops) t \<and> op_checked E (ops ! k) t"
    using E(2) by auto
  have "op_resolves E refs (take k ops) (ops ! k)" if "k < length ops" for k
    using each [OF that] op_checked_resolves by (auto simp: search_inv_def)
  then show ?thesis
    using start_search [OF 1] fin rep E by (simp add: search_inv_def in_limit_def)
qed

section \<open>The ways a validation fails\<close>

text \<open>
  What the interfaces of a source and a decrypter return as errors: \<open>ErrNotFound\<close> for a block that
  is not there, or a fault of their own.
\<close>

definition plain_source :: "source \<Rightarrow> bool" where
  "plain_source src \<longleftrightarrow> (\<forall>d e. src_block src d = Inl e \<longrightarrow> e = Not_found d \<or> (\<exists>s. e = Fault s))"

definition plain_decrypter :: "options option \<Rightarrow> bool" where
  "plain_decrypter opts \<longleftrightarrow> (\<forall>dec b e. decrypter_of opts = Some dec \<longrightarrow> dec b = Inl e \<longrightarrow> (\<exists>s. e = Fault s))"

text \<open>A failure of a lookup that is not one of the four outcomes of a completed search.\<close>

definition fault_like :: "block_error \<Rightarrow> bool" where
  "fault_like e \<longleftrightarrow> (\<exists>s. e = Fault s) \<or> (\<exists>n. e = Scan_limit n) \<or> (\<exists>d s. e = Decrypt_error d (Fault s)) \<or> (\<exists>f. e = Form f)"

lemma fault_like_not_unvalidated:
  assumes "fault_like e"
  shows "\<not> is_unvalidated e \<and> (\<forall>d. e \<noteq> Unreachable_entity d)"
  using assms by (auto simp: fault_like_def is_unvalidated_def)

text \<open>A digest a completed search has not found is created nowhere it looked.\<close>

definition absent :: "resolver_env \<Rightarrow> digest list \<Rightarrow> operation list \<Rightarrow> digest \<Rightarrow> bool" where
  "absent E refs earlier d \<longleftrightarrow>
    (\<forall>op \<in> set earlier. \<forall>k. creates (sha256 (rv_crypto E)) op \<noteq> Some (d, k)) \<and>
    (\<forall>x \<in> chain_digests E \<union> graph_digests E refs. \<exists>t p. src_block (rv_src E) x = Inr t \<and> readable E t = Some p \<and>
      (\<forall>op \<in> set (p_ops p). \<forall>k. creates (sha256 (rv_crypto E)) op \<noteq> Some (d, k)))"

definition missing_block :: "resolver_env \<Rightarrow> digest list \<Rightarrow> digest \<Rightarrow> bool" where
  "missing_block E refs g \<longleftrightarrow> g \<in> chain_digests E \<union> graph_digests E refs \<and> unobtainable (rv_src E) g"

definition unread_block :: "resolver_env \<Rightarrow> digest list \<Rightarrow> digest \<Rightarrow> bool" where
  "unread_block E refs g \<longleftrightarrow> g \<in> chain_digests E \<union> graph_digests E refs \<and>
    (\<exists>t. src_block (rv_src E) g = Inr t \<and> is_private t \<and> decrypt_block E t = Inr None)"

lemma graph_visited:
  assumes "complete_search E refs earlier r" and "rv_refs_gap r = None" and "rv_queue r = []"
    and "d \<in> graph_digests E refs"
  shows "rv_visited r d"
proof -
  note D = complete_searchD [OF assms(1)]
  from assms(4) obtain x where x: "x \<in> set refs" "(d, x) \<in> (ref_links E)\<^sup>*" by (auto simp: graph_digests_def)
  from x(2) show ?thesis
  proof (induction rule: converse_rtrancl_induct)
    case base
    then show ?case using D(3) [OF x(1)] assms(3) by simp
  next
    case (step y z)
    then show ?case using D(5) [OF assms(2) step(3,1)] assms(3) by simp
  qed
qed

lemma covered_absent:
  assumes "covered E r x" and "rv_key_gap r = None" and "rv_defs r d = None"
  shows "\<exists>t p. src_block (rv_src E) x = Inr t \<and> readable E t = Some p \<and>
    (\<forall>op \<in> set (p_ops p). \<forall>k. creates (sha256 (rv_crypto E)) op \<noteq> Some (d, k))"
  using assms unfolding covered_def by (fastforce split: option.splits)

lemma unresolved_outcome:
  assumes "search_inv E refs F U earlier r" and "rv_defs r d = None" and "rv_next r = None" and "rv_queue r = []"
  shows "(\<exists>g. missing_block E refs g \<and>
      (unresolved d r = Pending_error g False (Incomplete_chain d g) \<or> unresolved d r = Pending_error g False (Incomplete_refs d g))) \<or>
    (\<exists>g. unread_block E refs g \<and> unresolved d r = Pending_error g True (Undecryptable d g)) \<or>
    unresolved d r = Unreachable_entity d \<and> absent E refs earlier d"
proof -
  have S: "sound_search E refs earlier r" and C: "complete_search E refs earlier r"
    using assms(1) by (simp_all add: search_inv_def)
  note SD = sound_searchD [OF S] and CD = complete_searchD [OF C]
  show ?thesis
  proof (cases "rv_ancestor_gap r")
    case (Some g)
    then show ?thesis using SD(4) [OF Some] by (auto simp: unresolved_def missing_block_def unobtainable_def)
  next
    case a: None
    show ?thesis
    proof (cases "rv_refs_gap r")
      case (Some g)
      then show ?thesis using SD(5) [OF Some] a by (auto simp: unresolved_def missing_block_def unobtainable_def)
    next
      case g: None
      show ?thesis
      proof (cases "rv_key_gap r")
        case (Some k)
        then show ?thesis using SD(6) [OF Some] a g by (auto simp: unresolved_def unread_block_def)
      next
        case k: None
        have "covered E r x" if "x \<in> chain_digests E \<union> graph_digests E refs" for x
          using that CD(2) [OF a, of x] CD(4) [OF g, of x] graph_visited [OF C g assms(4), of x] assms(3) by auto
        then have "absent E refs earlier d"
          using covered_absent [OF _ k assms(2)] CD(1) [of _ d] assms(2) unfolding absent_def by blast
        then show ?thesis using a g k by (simp add: unresolved_def)
      qed
    qed
  qed
qed

lemma decrypt_block_fault:
  assumes "decrypt_block E b = Inl e" and "rv_decrypter E = decrypter_of opts" and "plain_decrypter opts"
  shows "fault_like e"
proof -
  from assms(1) obtain dec where dec: "rv_decrypter E = Some dec"
    by (cases "rv_decrypter E") (auto simp: decrypt_block_def)
  show ?thesis
  proof (cases "dec b")
    case (Inl e')
    moreover have "decrypter_of opts = Some dec" using assms(2) dec by simp
    ultimately obtain s where "e' = Fault s" using assms(3) unfolding plain_decrypter_def by blast
    then show ?thesis using assms(1) dec Inl by (auto simp: decrypt_block_def fault_like_def)
  next
    case (Inr found)
    then show ?thesis using assms(1) dec
      by (cases found) (auto simp: decrypt_block_def fault_like_def mapErr_eq_Inl bindE_eq_Inl)
  qed
qed

lemma extend_fault:
  assumes "plain_source (rv_src E)" and "rv_decrypter E = decrypter_of opts" and "plain_decrypter opts" and "cache_ok E r"
  shows "rv_next r \<noteq> None \<Longrightarrow> extend_ancestors E r = Inl e \<Longrightarrow> fault_like e"
    and "rv_queue r \<noteq> [] \<Longrightarrow> extend_refs E r = Inl e \<Longrightarrow> fault_like e"
proof -
  have src: "fault_like e" if "src_block (rv_src E) d = Inl e" "\<not> is_not_found e" for d e
  proof -
    from that(1) assms(1) have "e = Not_found d \<or> (\<exists>s. e = Fault s)" unfolding plain_source_def by blast
    then show ?thesis using that(2) by (auto simp: fault_like_def)
  qed
  note dec = decrypt_block_fault [OF _ assms(2,3)]
  show "fault_like e" if n: "rv_next r \<noteq> None" and x: "extend_ancestors E r = Inl e"
  proof -
    from n obtain d where d: "rv_next r = Some d" by auto
    show ?thesis
    proof (cases "src_block (rv_src E) d")
      case (Inl e')
      then show ?thesis using x d src by (auto simp: extend_ancestors_def fetch_source [OF assms(4)] split: if_splits)
    next
      case (Inr t)
      show ?thesis
      proof (cases "decrypt_block E t")
        case (Inl e')
        then show ?thesis using x d Inr dec
          by (auto simp: extend_ancestors_def fetch_source [OF assms(4)] split: if_splits)
      next
        case f: (Inr found)
        then show ?thesis using x d Inr
          by (cases found) (auto simp: extend_ancestors_def fetch_source [OF assms(4)] Let_def split: if_splits)
      qed
    qed
  qed
  show "fault_like e" if n: "rv_queue r \<noteq> []" and x: "extend_refs E r = Inl e"
  proof -
    let ?r = "r\<lparr>rv_queue := tl (rv_queue r), rv_visited := (rv_visited r)(hd (rv_queue r) := True)\<rparr>"
    have c: "cache_ok E ?r" using assms(4) by (simp add: cache_ok_def)
    have nv: "\<not> rv_visited r (hd (rv_queue r))" using x by (auto simp: extend_refs_def)
    show ?thesis
    proof (cases "src_block (rv_src E) (hd (rv_queue r))")
      case (Inl e')
      then show ?thesis using x nv src by (auto simp: extend_refs_def fetch_source [OF c] Let_def split: if_splits)
    next
      case (Inr t)
      show ?thesis
      proof (cases "decrypt_block E t")
        case (Inl e')
        then show ?thesis using x nv Inr dec
          by (auto simp: extend_refs_def fetch_source [OF c] Let_def fault_like_def split: if_splits)
      next
        case f: (Inr found)
        then show ?thesis using x nv Inr
          by (cases found) (auto simp: extend_refs_def fetch_source [OF c] Let_def fault_like_def split: if_splits)
      qed
    qed
  qed
qed

lemma stuck_outcome:
  assumes "stuck E (search_inv E refs F U earlier) d e"
    and "plain_source (rv_src E)" and "rv_decrypter E = decrypter_of opts" and "plain_decrypter opts"
  shows "fault_like e \<or>
    (\<exists>g. missing_block E refs g \<and> (e = Pending_error g False (Incomplete_chain d g) \<or> e = Pending_error g False (Incomplete_refs d g))) \<or>
    (\<exists>g. unread_block E refs g \<and> e = Pending_error g True (Undecryptable d g)) \<or>
    e = Unreachable_entity d \<and> absent E refs earlier d"
proof -
  from assms(1) obtain t where t: "cache_ok E t" "search_inv E refs F U earlier t" "rv_defs t d = None"
    and c: "e = unresolved d t \<and> rv_next t = None \<and> rv_queue t = [] \<or>
     rv_next t \<noteq> None \<and> extend_ancestors E t = Inl e \<or> rv_queue t \<noteq> [] \<and> extend_refs E t = Inl e"
    unfolding stuck_def by blast
  from c show ?thesis
  proof (elim disjE)
    assume "e = unresolved d t \<and> rv_next t = None \<and> rv_queue t = []"
    then show ?thesis using unresolved_outcome [OF t(2,3)] by auto
  qed (use extend_fault [OF assms(2-4) t(1)] in blast)+
qed

text \<open>Every error of a validation of the references, in the order of the checks.\<close>

definition reference_failure :: "resolver_env \<Rightarrow> digest list \<Rightarrow> operation list \<Rightarrow> block_error \<Rightarrow> bool" where
  "reference_failure E refs ops e \<longleftrightarrow>
    (\<exists>s. e = Fault s) \<or>
    (\<exists>n e'. e = Rule_error n (block_digest (rv_crypto E) (rv_block E)) e' \<and> n \<in> {5, 6, 10} \<and> \<not> is_unvalidated e') \<or>
    (\<exists>k < length ops. \<exists>ref \<in> set (references (ops ! k)). \<exists>e'.
      e = Rule_error 4 (block_digest (rv_crypto E) (rv_block E)) (Operation_error k (op_name (ops ! k)) (ref_field ref) e') \<and>
      (fault_like e' \<or>
       (\<exists>g. missing_block E refs g \<and>
         (e' = Pending_error g False (Incomplete_chain (ref_digest ref) g) \<or> e' = Pending_error g False (Incomplete_refs (ref_digest ref) g))) \<or>
       (\<exists>g. unread_block E refs g \<and> e' = Pending_error g True (Undecryptable (ref_digest ref) g)) \<or>
       e' = Unreachable_entity (ref_digest ref) \<and> absent E refs (take k ops) (ref_digest ref)))"

lemma validate_references_Inl:
  assumes "validate_references cr b refs ops src opts report = Some (Inl e)"
    and "plain_source src" and "plain_decrypter opts"
  shows "reference_failure (resolver_env_of cr b src opts) refs ops e"
proof -
  define E where "E = resolver_env_of cr b src opts"
  have E: "rv_block E = b" "rv_src E = src" "rv_decrypter E = decrypter_of opts" "rv_crypto E = cr"
    by (simp_all add: E_def resolver_env_of_def)
  have c0: "cache_ok E (new_resolver (rv_block E) report)" by (simp add: cache_ok_def new_resolver_def)
  from assms(1) consider (refs) "check_refs E refs (new_resolver (rv_block E) report) = Inl e"
    | (ops) r1 where "check_refs E refs (new_resolver (rv_block E) report) = Inr r1"
      "check_ops E 0 ops (r1\<lparr>rv_queue := refs\<rparr>) = Some (Inl e)"
    by (auto simp: validate_references_def Let_def bindD_eq_Inl E_def [symmetric] E(1))
  then have "reference_failure E refs ops e" (is ?failure)
  proof cases
    case refs
    from check_refs_Inl [OF refs c0] show ?failure
    proof (elim disjE bexE exE conjE)
      fix ref assume "src_block (rv_src E) ref = Inl e" "\<not> is_not_found e"
      moreover have "e = Not_found ref \<or> (\<exists>s. e = Fault s)"
        using calculation(1) assms(2) unfolding plain_source_def E(2) by blast
      ultimately have "\<exists>s. e = Fault s" by auto
      then show ?failure by (simp add: reference_failure_def)
    qed (auto simp: reference_failure_def is_unvalidated_def)
  next
    case ops
    note st = start_inv [OF ops(1)]
    from check_ops_Inl [OF ops(2) st(1,2) stable_search_inv search_inv_define]
    obtain k where k: "k < length ops" and
      o: "(\<exists>ref \<in> set (references (ops ! k)). \<exists>e'.
        e = Rule_error 4 (block_digest (rv_crypto E) (rv_block E)) (Operation_error (0 + k) (op_name (ops ! k)) (ref_field ref) e') \<and>
        stuck E (search_inv E refs (r_forks report) (r_unchecked_refs report @ filter (unobtainable (rv_src E)) refs)
          ([] @ take k ops)) (ref_digest ref) e') \<or>
       (\<exists>e'. e = Rule_error 5 (block_digest (rv_crypto E) (rv_block E)) e' \<and> \<not> is_unvalidated e')"
      by blast
    from o show ?failure
    proof (elim disjE bexE exE conjE)
      fix ref e' assume ref: "ref \<in> set (references (ops ! k))"
        and e: "e = Rule_error 4 (block_digest (rv_crypto E) (rv_block E)) (Operation_error (0 + k) (op_name (ops ! k)) (ref_field ref) e')"
        and s: "stuck E (search_inv E refs (r_forks report) (r_unchecked_refs report @ filter (unobtainable (rv_src E)) refs)
          ([] @ take k ops)) (ref_digest ref) e'"
      note out = stuck_outcome [OF s, of opts, unfolded E append_Nil, OF assms(2) refl assms(3)]
      show ?failure unfolding reference_failure_def E
        using k ref e out by (intro disjI2) (auto simp: E)
    qed (simp add: reference_failure_def)
  qed
  then show ?thesis by (simp add: E_def)
qed

lemma validate_references_returns:
  assumes "wf (prev_links src)" and "0 \<le> scan_limit opts"
  shows "validate_references cr b refs ops src opts report \<noteq> None"
proof -
  define E where "E = resolver_env_of cr b src opts"
  have E: "rv_block E = b" "rv_src E = src" "rv_limit E = scan_limit opts" by (simp_all add: E_def resolver_env_of_def)
  show ?thesis
  proof (cases "check_refs E refs (new_resolver b report)")
    case (Inl e)
    then show ?thesis by (simp add: validate_references_def E_def [symmetric])
  next
    case (Inr r1)
    have "cache_ok E (r1\<lparr>rv_queue := refs\<rparr>)" using start_inv(1) Inr E(1) by metis
    from check_ops_returns [OF this, of 0 ops] assms E(2,3) obtain res where
      res: "check_ops E 0 ops (r1\<lparr>rv_queue := refs\<rparr>) = Some res" by auto
    then show ?thesis
      by (cases res) (simp_all add: validate_references_def E_def [symmetric] Inr)
  qed
qed

section \<open>The other rules\<close>

definition accepted_previous :: "block \<Rightarrow> source \<Rightarrow> bool" where
  "accepted_previous b src \<longleftrightarrow> (\<forall>p. block_prev b = Some p \<longrightarrow>
    (\<exists>prev. src_block src p = Inr prev \<and> same_author prev b \<and> c_type (blk_content prev) \<noteq> type_rotation) \<and>
    (\<forall>v. src_verdict src = Some v \<longrightarrow> fst (v p) = Verdict_valid))"

definition expected_forks :: "crypto \<Rightarrow> block \<Rightarrow> source \<Rightarrow> fork list" where
  "expected_forks cr b src = (case src_siblings src of None \<Rightarrow> [] | Some siblings \<Rightarrow>
    (case detect_fork cr b siblings of None \<Rightarrow> [] | Some f \<Rightarrow> [f]))"

lemma warn_fields [simp]:
  "r_forks (warn n d m r) = r_forks r" "r_scanned (warn n d m r) = r_scanned r"
  "r_unchecked (warn n d m r) = r_unchecked r" "r_unchecked_refs (warn n d m r) = r_unchecked_refs r"
  by (simp_all add: warn_def)

lemma empty_report_fields [simp]:
  "r_forks empty_report = []" "r_scanned empty_report = 0" "r_unchecked empty_report = []" "r_unchecked_refs empty_report = []"
  by (simp_all add: empty_report_def)

lemma validate_linkage_Inr:
  assumes "validate_linkage cr b src report = Inr report'"
  shows "accepted_previous b src \<and> r_forks report' = r_forks report \<and> r_unchecked report' = r_unchecked report \<and>
    r_unchecked_refs report' = r_unchecked_refs report \<and> r_scanned report' = r_scanned report"
proof (cases "block_prev b")
  case None
  then show ?thesis using assms by (simp add: validate_linkage_def accepted_previous_def)
next
  case (Some p)
  then obtain prev where p: "src_block src p = Inr prev"
    using assms by (cases "src_block src p") (simp_all add: validate_linkage_def Let_def)
  show ?thesis using assms Some p
    by (cases "src_verdict src") (auto simp: validate_linkage_def accepted_previous_def Let_def split: if_splits)
qed

lemma validate_linkage_Inl:
  assumes "validate_linkage cr b src report = Inl e" and "plain_source src" and "is_unvalidated e"
  obtains p where "block_prev b = Some p" and "find_pending e = Some (p, False)"
    and "unobtainable src p \<or> (\<exists>v. src_verdict src = Some v \<and> fst (v p) \<noteq> Verdict_valid)"
proof (cases "block_prev b")
  case None
  then show thesis using assms by (simp add: validate_linkage_def)
next
  case (Some p)
  show thesis
  proof (cases "src_block src p")
    case (Inl e')
    then have "e' = Not_found p \<or> (\<exists>s. e' = Fault s)" using assms(2) unfolding plain_source_def by blast
    then show thesis using assms(1,3) Some Inl
      by (intro that [of p]) (auto simp: validate_linkage_def Let_def is_unvalidated_def unobtainable_def)
  next
    case (Inr prev)
    then show thesis using assms(1,3) Some
      by (cases "src_verdict src"; intro that [of p])
        (auto simp: validate_linkage_def Let_def is_unvalidated_def split: if_splits)
  qed
qed

lemma validate_header_Inr:
  assumes "validate_header cr b src = Inr report"
  shows "c_version (blk_content b) = protocol_version \<and> block_verify cr b = Inr () \<and>
    (has_plaintext_payload (c_type (blk_content b)) \<longrightarrow> block_ops b \<noteq> []) \<and> accepted_previous b src \<and>
    r_forks report = expected_forks cr b src \<and> r_unchecked report = [] \<and> r_unchecked_refs report = [] \<and> r_scanned report = 0"
proof -
  from assms obtain rep where h: "c_version (blk_content b) = protocol_version" "block_verify cr b = Inr ()"
    "has_plaintext_payload (c_type (blk_content b)) \<longrightarrow> block_ops b \<noteq> []" "validate_linkage cr b src empty_report = Inr rep"
    and r: "(case src_siblings src of
       Some siblings \<Rightarrow> Inr (case detect_fork cr b siblings of None \<Rightarrow> rep | Some f \<Rightarrow> rep\<lparr>r_forks := r_forks rep @ [f]\<rparr>)
     | None \<Rightarrow> Inr (warn 9 (block_digest cr b) No_siblings_notice rep)) = (Inr report :: block_error + report)"
    unfolding validate_header_def Let_def guard_Inr bindE_eq_Inr mapErr_eq_Inr by auto
  from validate_linkage_Inr [OF h(4)] h(1-3) r show ?thesis
    by (auto simp: expected_forks_def split: option.splits)
qed

lemma validate_header_Inl:
  assumes "validate_header cr b src = Inl e" and "is_unvalidated e"
  shows "validate_linkage cr b src empty_report = Inl e"
  using assms by (auto simp: validate_header_def Let_def bindE_eq_Inl mapErr_eq_Inl is_unvalidated_def
      split: if_splits option.splits)

section \<open>Lookups the witnesses evaluate\<close>

lemma resolve_known: "rv_defs r d = Some rec \<Longrightarrow> resolve E d r = Some (Inr (r, rec))"
  by (simp add: resolve_def ancestors_loop_def loopE_skip)

lemma resolve_ahead:
  assumes "rv_defs r d = None" and "rv_next r = None" and "rv_queue r \<noteq> []"
  shows "resolve E d r = bindD (Some (extend_refs E r)) (\<lambda>r'. bindD (refs_loop E d r') (\<lambda>r2.
    case rv_defs r2 d of Some rec \<Rightarrow> Some (Inr (r2, rec)) | None \<Rightarrow> Some (Inl (unresolved d r2))))"
  using assms by (cases "extend_refs E r")
    (simp_all add: resolve_def ancestors_loop_def loopE_skip refs_loop_def loopE_unfold [of _ _ r])

lemma refs_loop_stop: "rv_defs r d \<noteq> None \<or> rv_queue r = [] \<Longrightarrow> refs_loop E d r = Some (Inr r)"
  by (auto simp: refs_loop_def loopE_skip)

lemma refs_loop_step:
  "rv_defs r d = None \<Longrightarrow> rv_queue r \<noteq> [] \<Longrightarrow> refs_loop E d r = bindD (Some (extend_refs E r)) (refs_loop E d)"
  unfolding refs_loop_def by (subst loopE_unfold) simp

lemma resolve_stuck:
  "rv_defs r d = None \<Longrightarrow> rv_next r = None \<Longrightarrow> rv_queue r = [] \<Longrightarrow> resolve E d r = Some (Inl (unresolved d r))"
  by (simp add: resolve_def ancestors_loop_def loopE_skip refs_loop_stop)

lemma loopE_diverges:
  assumes "I s" and "\<And>t. I t \<Longrightarrow> p t \<and> (\<exists>t'. f t = Inr t' \<and> I t')"
  shows "loopE p f s = None"
proof (rule ccontr)
  assume "loopE p f s \<noteq> None"
  then obtain r where r: "loopE p f s = Some r" by blast
  have "\<And>t t'. I t \<Longrightarrow> p t \<Longrightarrow> f t = Inr t' \<Longrightarrow> I t'" using assms(2) by fastforce
  from loopE_rule [where I = I, OF r assms(1) this] show False using assms(2) by (cases r) fastforce+
qed

section \<open>Properties\<close>

lemma validate_Inr:
  assumes "validate cr b src opts = Some (Inr report)"
  obtains (sealed) rep where "validate_header cr b src = Inr rep" "is_private b"
      "report = warn 0 (block_digest cr b) Private_block_notice (rep\<lparr>r_unchecked := r_unchecked rep @ [4, 5, 6, 10]\<rparr>)"
    | (plain) rep where "validate_header cr b src = Inr rep" "\<not> is_private b"
      "validate_references cr b (block_refs b) (block_ops b) src opts rep = Some (Inr report)"
  using assms by (auto simp: validate_def bindD_eq_Inr split: if_splits)

text \<open>
  C1. A block \<open>Validate\<close> accepts satisfies the rules that can be read off it and its neighbours:
  version 1 and a signature that verifies; an operation; a predecessor the source holds, of the
  same author, not a rotation block and, where the source keeps verdicts, accepted; no reference
  to a block of its own author nor, from a public block, to a private one, among the blocks held.
  The report lists exactly the fork found and the references not held, a private block's rules 4,
  5, 6 and 10 as unchecked, and at most the limit of blocks scanned.
\<close>

theorem accepted_block_rules:
  assumes "validate cr b src opts = Some (Inr report)"
  shows "c_version (blk_content b) = protocol_version \<and> block_verify cr b = Inr () \<and>
    (has_plaintext_payload (c_type (blk_content b)) \<longrightarrow> block_ops b \<noteq> []) \<and> accepted_previous b src \<and>
    r_forks report = expected_forks cr b src \<and>
    (if is_private b then r_unchecked report = [4, 5, 6, 10] \<and> r_unchecked_refs report = []
     else rules_6_10 b src (block_refs b) \<and> r_unchecked_refs report = filter (unobtainable src) (block_refs b) \<and>
       (0 \<le> scan_limit opts \<longrightarrow> int (r_scanned report) \<le> scan_limit opts))"
  using assms
proof (cases rule: validate_Inr)
  case (sealed rep)
  then show ?thesis using validate_header_Inr [OF sealed(1)] by simp
next
  case (plain rep)
  then show ?thesis using validate_header_Inr [OF plain(1)] validate_references_Inr [OF plain(3)] by simp
qed

text \<open>
  C5. Rules 4 and 5 hold for the operations \<open>Validate\<close> and \<open>ValidatePayload\<close> accept: every entity
  an operation names is created with the kind its position requires by an earlier operation of
  the block, or by an operation of a block of the author's own chain or of the refs graph the node
  could read, and a molecule has as many fillers as the bond of its digest has variables.
\<close>

theorem references_resolve:
  assumes "validate cr b src opts = Some (Inr report) \<and> \<not> is_private b \<and> refs = block_refs b \<and> ops = block_ops b \<or>
    validate_payload cr b p src opts = Some (Inr report) \<and> refs = p_refs p \<and> ops = p_ops p"
  shows "\<forall>k < length ops. op_resolves (resolver_env_of cr b src opts) refs (take k ops) (ops ! k)"
proof -
  have "\<exists>rep. validate_references cr b refs ops src opts rep = Some (Inr report)"
    using assms by (auto simp: validate_def validate_payload_def bindD_eq_Inr split: if_splits)
  then show ?thesis using validate_references_Inr by blast
qed

text \<open>
  C6. An entity is reported unreachable, which condemns the block for good, only when nothing is
  missing from the picture: every block of the author's chain and of the refs graph is held and
  readable, and neither they nor the earlier operations of the block create the digest.
\<close>

theorem unreachable_justified:
  assumes "validate cr b src opts = Some (Inl (Rule_error 4 d (Operation_error k nm f (Unreachable_entity x))))"
    and "plain_source src" and "plain_decrypter opts"
  shows "k < length (block_ops b) \<and> (\<exists>ref \<in> set (references (block_ops b ! k)). ref_digest ref = x \<and> ref_field ref = f) \<and>
    absent (resolver_env_of cr b src opts) (block_refs b) (take k (block_ops b)) x"
proof -
  have "validate_header cr b src \<noteq> Inl (Rule_error 4 d (Operation_error k nm f (Unreachable_entity x)))"
  proof
    assume "validate_header cr b src = Inl (Rule_error 4 d (Operation_error k nm f (Unreachable_entity x)))"
    then show False
      by (auto simp: validate_header_def Let_def bindE_eq_Inl mapErr_eq_Inl validate_linkage_def
          split: if_splits option.splits sum.splits)
  qed
  with assms(1) obtain rep where "validate_references cr b (block_refs b) (block_ops b) src opts rep =
      Some (Inl (Rule_error 4 d (Operation_error k nm f (Unreachable_entity x))))"
    by (auto simp: validate_def bindD_eq_Inl split: if_splits)
  from validate_references_Inl [OF this assms(2,3)] show ?thesis
    by (auto simp: reference_failure_def fault_like_def)
qed

lemma undecided_pending:
  assumes "validate cr b src opts = Some (Inl e)" and "is_unvalidated e"
    and "plain_source src" and "plain_decrypter opts"
  shows "\<exists>g key. find_pending e = Some (g, key) \<and>
    (if key then unread_block (resolver_env_of cr b src opts) (block_refs b) g
     else block_prev b = Some g \<and> (unobtainable src g \<or> (\<exists>v. src_verdict src = Some v \<and> fst (v g) \<noteq> Verdict_valid)) \<or>
       missing_block (resolver_env_of cr b src opts) (block_refs b) g)"
proof (cases "validate_header cr b src")
  case (Inl e')
  then have "validate_linkage cr b src empty_report = Inl e"
    using assms(1) validate_header_Inl [OF _ assms(2)] by (simp add: validate_def)
  from validate_linkage_Inl [OF this assms(3,2)] show ?thesis by (metis (full_types))
next
  case (Inr rep)
  then have "validate_references cr b (block_refs b) (block_ops b) src opts rep = Some (Inl e)"
    using assms(1) by (auto simp: validate_def split: if_splits)
  from validate_references_Inl [OF this assms(3,4)] have f:
    "reference_failure (resolver_env_of cr b src opts) (block_refs b) (block_ops b) e" .
  have no_fault: "\<not> fault_like e'" if "is_unvalidated e'" for e'
    using fault_like_not_unvalidated [of e'] that by blast
  define E where "E = resolver_env_of cr b src opts"
  have "reference_failure E (block_refs b) (block_ops b) e" using f by (simp only: E_def)
  from this [unfolded reference_failure_def] show ?thesis
  proof (elim disjE exE bexE conjE)
    fix k ref e'
    assume e: "e = Rule_error 4 (block_digest (rv_crypto E) (rv_block E)) (Operation_error k (op_name (block_ops b ! k)) (ref_field ref) e')"
    have u: "is_unvalidated e'" using assms(2) by (simp add: e is_unvalidated_def)
    show ?thesis if "fault_like e'" using that u no_fault by blast
    show ?thesis if "e' = Unreachable_entity (ref_digest ref)" using that u by (simp add: is_unvalidated_def)
    fix g
    show ?thesis if "missing_block E (block_refs b) g" "e' = Pending_error g False (Incomplete_chain (ref_digest ref) g)"
      using that by (intro exI [of _ g] exI [of _ False]) (simp add: e E_def)
    show ?thesis if "missing_block E (block_refs b) g" "e' = Pending_error g False (Incomplete_refs (ref_digest ref) g)"
      using that by (intro exI [of _ g] exI [of _ False]) (simp add: e E_def)
    show ?thesis if "unread_block E (block_refs b) g" "e' = Pending_error g True (Undecryptable (ref_digest ref) g)"
      using that by (intro exI [of _ g] exI [of _ True]) (simp add: e E_def)
  qed (use assms(2) in \<open>simp_all add: is_unvalidated_def\<close>)
qed

text \<open>
  A block left undecided names what would settle it: the digest in the error's
  \<open>PendingError\<close> is the predecessor that is not held or not accepted, a block of the author's
  chain or of the refs graph that is not held, or, when a key is what is missing, a held private
  block no key opens.
\<close>

theorem undecided_justified:
  assumes "validate cr b src opts = Some (Inl e)" and "is_unvalidated e"
    and "plain_source src" and "plain_decrypter opts"
  shows "\<exists>g key. find_pending e = Some (g, key) \<and>
    (if key then unread_block (resolver_env_of cr b src opts) (block_refs b) g
     else block_prev b = Some g \<and> (unobtainable src g \<or> (\<exists>v. src_verdict src = Some v \<and> fst (v g) \<noteq> Verdict_valid)) \<or>
       missing_block (resolver_env_of cr b src opts) (block_refs b) g)"
  by (rule undecided_pending [OF assms])


section \<open>Sample sources and blocks\<close>

definition map_source :: "(digest \<Rightarrow> block option) \<Rightarrow> source" where
  "map_source m = \<lparr>src_block = (\<lambda>d. case m d of Some b \<Rightarrow> Inr b | None \<Rightarrow> Inl (Not_found d)),
    src_siblings = None, src_referrers = None, src_verdict = None\<rparr>"

lemma map_source_simps [simp]:
  "src_block (map_source m) d = (case m d of Some b \<Rightarrow> Inr b | None \<Rightarrow> Inl (Not_found d))"
  "src_siblings (map_source m) = None" "src_referrers (map_source m) = None" "src_verdict (map_source m) = None"
  by (simp_all add: map_source_def)

lemma plain_map_source: "plain_source (map_source m)"
  by (simp add: plain_source_def split: option.splits)

lemma plain_no_decrypter: "decrypter_of opts = None \<Longrightarrow> plain_decrypter opts"
  by (simp add: plain_decrypter_def)

lemma genesis_header:
  assumes "sound_block cr b" and "c_version (blk_content b) = protocol_version" and "block_ops b \<noteq> []"
    and "block_prev b = None" and "src_siblings src = None"
  shows "validate_header cr b src = Inr (warn 9 (block_digest cr b) No_siblings_notice empty_report)"
  using assms sound_verifies [OF assms(1)] by (simp add: validate_header_def validate_linkage_def)

lemma genesis_validate:
  assumes "sound_block cr b" and "c_version (blk_content b) = protocol_version" and "block_ops b \<noteq> []"
    and "block_prev b = None" and "src_siblings src = None" and "c_type (blk_content b) = type_public"
  shows "validate cr b src opts = validate_references cr b (block_refs b) (block_ops b) src opts
    (warn 9 (block_digest cr b) No_siblings_notice empty_report)"
  using genesis_header [OF assms(1-5)] type_names assms(6) by (simp add: validate_def is_private_def)

lemma resolver_env_fields [simp]:
  "rv_crypto (resolver_env_of cr b src opts) = cr" "rv_block (resolver_env_of cr b src opts) = b"
  "rv_src (resolver_env_of cr b src opts) = src" "rv_limit (resolver_env_of cr b src opts) = scan_limit opts"
  "rv_decrypter (resolver_env_of cr b src opts) = decrypter_of opts"
  by (simp_all add: resolver_env_of_def)

lemma new_resolver_fields [simp]:
  "rv_defs (new_resolver b report) = (\<lambda>_. None)" "rv_cache (new_resolver b report) = (\<lambda>_. None)"
  "rv_next (new_resolver b report) = block_prev b" "rv_queue (new_resolver b report) = []"
  "rv_visited (new_resolver b report) = (\<lambda>_. False)" "rv_scanned (new_resolver b report) = 0"
  "rv_ancestor_gap (new_resolver b report) = None" "rv_refs_gap (new_resolver b report) = None"
  "rv_key_gap (new_resolver b report) = None" "rv_report (new_resolver b report) = report"
  by (simp_all add: new_resolver_def)

text \<open>A block whose one operation is a molecule over the bond of a digest that is nowhere created.\<close>

lemma molecule_block:
  assumes "distinct refs" and "length refs \<le> 64" and "length priv = 64"
  obtains b where "sound_block sample_crypto b" and "decode_block sample_crypto (blk_enc b) = Inr b"
    and "block_prev b = prev" and "block_refs b = refs"
    and "block_ops b = [Create_molecule (truth_molecule d)]" and "block_pub b = public_half priv"
    and "c_type (blk_content b) = type_public" and "c_version (blk_content b) = protocol_version"
proof -
  let ?ops = "[Create_molecule (truth_molecule d)]"
  have "bulk (Array (map op_value ?ops)) < 2 ^ 30" using sample_bulk(4) [of d] by simp
  moreover have "\<forall>op \<in> set ?ops. wf_op op \<and> \<not> is_rotate_key op"
    using wf_truth_molecule [of d] by (simp add: is_rotate_key_def)
  ultimately show thesis
    using public_block [OF assms(3,1,2), of ?ops prev] that by (metis list.distinct(1))
qed

text \<open>A block that creates a bond and a molecule over it.\<close>

lemma self_contained_block:
  obtains b where "sound_block sample_crypto b" and "block_prev b = None" and "block_refs b = []"
    and "block_ops b = [Create_bond truth_bond, Create_molecule (truth_molecule (bond_digest length_hash truth_bond))]"
    and "c_type (blk_content b) = type_public" and "c_version (blk_content b) = protocol_version"
proof -
  let ?ops = "[Create_bond truth_bond, Create_molecule (truth_molecule (bond_digest length_hash truth_bond))]"
  have "bulk (Array (map op_value ?ops)) < 2 ^ 30"
    using sample_bulk(4) [of "bond_digest length_hash truth_bond"] sample_bulk(3) by simp
  moreover have "\<forall>op \<in> set ?ops. wf_op op \<and> \<not> is_rotate_key op"
    using wf_truth_molecule wf_truth_bond by (simp add: is_rotate_key_def)
  moreover have "length sample_key = 64" "distinct ([] :: digest list)" "length ([] :: digest list) \<le> 64" by (simp_all add: sample_key_def)
  ultimately show thesis
    using public_block [of sample_key "[]" ?ops None] that by (metis list.distinct(1))
qed

lemma self_contained_validates:
  assumes "sound_block sample_crypto b" and "block_prev b = None" and "block_refs b = []"
    and "block_ops b = [Create_bond truth_bond, Create_molecule (truth_molecule (bond_digest length_hash truth_bond))]"
    and "c_type (blk_content b) = type_public" and "c_version (blk_content b) = protocol_version"
  shows "\<exists>report. validate sample_crypto b (map_source (\<lambda>_. None)) None = Some (Inr report)"
proof -
  have sha: "sha256 sample_crypto = length_hash" by (simp add: sample_crypto_def)
  have d: "rv_defs (define_op sample_crypto (Create_bond truth_bond) (new_resolver b rep)) (bond_digest length_hash truth_bond) = Some \<lparr>rec_kind = Kind_bond, rec_bond = truth_bond\<rparr>" for rep
    by (simp add: define_op_defs sha)
  have q: "(new_resolver b rep)\<lparr>rv_queue := []\<rparr> = new_resolver b rep" for rep
    by (intro resolver.equality) simp_all
  have v: "validate_against length_hash (truth_molecule (bond_digest length_hash truth_bond)) truth_bond = Inr ()"
    using truth_bond_ok by (simp add: validate_against_def)
  show ?thesis
    using assms genesis_validate [OF assms(1,6) _ assms(2) _ assms(5), of "map_source (\<lambda>_. None)" None] d v truth_references
    by (simp add: validate_references_def q check_molecule_def resolve_known sha del: references.simps(1))
qed

section \<open>Witnesses\<close>

theorem accepted_block_rules_witness:
  "\<exists>b report. validate sample_crypto b (map_source (\<lambda>_. None)) None = Some (Inr report) \<and>
    block_verify sample_crypto b = Inr () \<and> r_forks report = []"
proof -
  obtain b where b: "sound_block sample_crypto b" "block_prev b = None" "block_refs b = []"
    "block_ops b = [Create_bond truth_bond, Create_molecule (truth_molecule (bond_digest length_hash truth_bond))]"
    "c_type (blk_content b) = type_public" "c_version (blk_content b) = protocol_version" by (rule self_contained_block)
  from self_contained_validates [OF this] obtain report
    where v: "validate sample_crypto b (map_source (\<lambda>_. None)) None = Some (Inr report)" by blast
  from accepted_block_rules [OF v] have "r_forks report = []" "block_verify sample_crypto b = Inr ()"
    by (auto simp: expected_forks_def)
  with v show ?thesis by blast
qed

theorem references_resolve_witness:
  "\<exists>b m. block_ops b = [Create_bond truth_bond, Create_molecule m] \<and>
    op_resolves (resolver_env_of sample_crypto b (map_source (\<lambda>_. None)) None) [] [Create_bond truth_bond] (Create_molecule m)"
proof -
  obtain b where b: "sound_block sample_crypto b" "block_prev b = None" "block_refs b = []"
    "block_ops b = [Create_bond truth_bond, Create_molecule (truth_molecule (bond_digest length_hash truth_bond))]"
    "c_type (blk_content b) = type_public" "c_version (blk_content b) = protocol_version" by (rule self_contained_block)
  from self_contained_validates [OF this] obtain report
    where v: "validate sample_crypto b (map_source (\<lambda>_. None)) None = Some (Inr report)" by blast
  have "\<not> is_private b" using b(5) type_names by (simp add: is_private_def)
  with v references_resolve [of sample_crypto b "map_source (\<lambda>_. None)" None report "[]" "block_ops b"] b(3)
  have "\<forall>k < length (block_ops b). op_resolves (resolver_env_of sample_crypto b (map_source (\<lambda>_. None)) None) []
      (take k (block_ops b)) (block_ops b ! k)" by simp
  then have "op_resolves (resolver_env_of sample_crypto b (map_source (\<lambda>_. None)) None) []
      (take 1 (block_ops b)) (block_ops b ! 1)" using b(4) by fastforce
  then show ?thesis using b(4) by auto
qed

lemma lookup_fails:
  assumes "rv_block E = b" and "rv_crypto E = cr" and "resolve E d r = Some (Inl e)"
  shows "check_ops E 0 [Create_molecule (truth_molecule d)] r =
    Some (Inl (Rule_error 4 (block_digest cr b) (Operation_error 0 op_create_molecule Bond_field e)))"
  using assms truth_references [of d] by (simp add: Let_def del: references.simps(1))

theorem unreachable_justified_witness:
  "\<exists>b. validate sample_crypto b (map_source (\<lambda>_. None)) None =
      Some (Inl (Rule_error 4 (block_digest sample_crypto b) (Operation_error 0 op_create_molecule Bond_field (Unreachable_entity 5)))) \<and>
    absent (resolver_env_of sample_crypto b (map_source (\<lambda>_. None)) None) [] [] 5"
proof -
  have k: "length sample_key = 64" by (simp add: sample_key_def)
  obtain b where b: "sound_block sample_crypto b" "block_prev b = None" "block_refs b = []"
    "block_ops b = [Create_molecule (truth_molecule 5)]" "c_type (blk_content b) = type_public"
    "c_version (blk_content b) = protocol_version"
    using molecule_block [of "[]" sample_key None 5] k by auto
  let ?E = "resolver_env_of sample_crypto b (map_source (\<lambda>_. None)) None"
  have q: "(new_resolver b rep)\<lparr>rv_queue := []\<rparr> = new_resolver b rep" for rep
    by (intro resolver.equality) simp_all
  have "resolve ?E 5 (new_resolver b rep) = Some (Inl (Unreachable_entity 5))" for rep
    using resolve_stuck [of "new_resolver b rep" 5 ?E] b(2) by (simp add: unresolved_def)
  then have v: "validate sample_crypto b (map_source (\<lambda>_. None)) None =
      Some (Inl (Rule_error 4 (block_digest sample_crypto b) (Operation_error 0 op_create_molecule Bond_field (Unreachable_entity 5))))"
    using genesis_validate [OF b(1,6) _ b(2) _ b(5), of "map_source (\<lambda>_. None)" None] b(3,4)
    by (simp add: validate_references_def q lookup_fails del: check_ops.simps)
  from unreachable_justified [OF v plain_map_source plain_no_decrypter] b(3,4) v show ?thesis
    by (auto simp: decrypter_of_def)
qed

theorem undecided_justified_witness:
  "\<exists>b e. validate sample_crypto b (map_source (\<lambda>_. None)) None = Some (Inl e) \<and> find_pending e = Some (9, False) \<and>
    missing_block (resolver_env_of sample_crypto b (map_source (\<lambda>_. None)) None) [9] 9"
proof -
  have k: "length sample_key = 64" by (simp add: sample_key_def)
  obtain b where b: "sound_block sample_crypto b" "block_prev b = None" "block_refs b = [9]"
    "block_ops b = [Create_molecule (truth_molecule 5)]" "c_type (blk_content b) = type_public"
    "c_version (blk_content b) = protocol_version"
    using molecule_block [of "[9]" sample_key None 5] k by auto
  let ?E = "resolver_env_of sample_crypto b (map_source (\<lambda>_. None)) None"
  let ?e = "Pending_error 9 False (Incomplete_refs 5 9)"
  have "resolve ?E 5 ((new_resolver b rep)\<lparr>rv_queue := [9]\<rparr>) = Some (Inl ?e)" for rep
    using b(2) by (simp add: resolve_ahead extend_refs_def fetch_def resolver_warn_def refs_loop_stop unresolved_def)
  moreover have "resolve ?E 5 ((new_resolver b rep)\<lparr>rv_report := rep', rv_queue := [9]\<rparr>) = Some (Inl ?e)" for rep rep'
    using b(2) by (simp add: resolve_ahead extend_refs_def fetch_def resolver_warn_def refs_loop_stop unresolved_def)
  ultimately have v: "validate sample_crypto b (map_source (\<lambda>_. None)) None =
      Some (Inl (Rule_error 4 (block_digest sample_crypto b) (Operation_error 0 op_create_molecule Bond_field ?e)))"
    using genesis_validate [OF b(1,6) _ b(2) _ b(5), of "map_source (\<lambda>_. None)" None] b(3-5)
    by (simp add: validate_references_def lookup_fails fetch_def del: check_ops.simps)
  from undecided_justified [OF v _ plain_map_source plain_no_decrypter] b(2,3)
  have "missing_block ?E [9] 9" by (auto simp: decrypter_of_def is_unvalidated_def)
  then show ?thesis using v by (intro exI conjI) (assumption, simp_all)
qed


section \<open>Where the code departs from its own documentation\<close>

text \<open>A search along an author chain that is a circle of one block which does not create the digest.\<close>

lemma circle_search_diverges:
  assumes "cache_ok E r" and "rv_next r = Some p" and "rv_defs r d = None" and "src_block (rv_src E) p = Inr a"
    and "block_prev a = Some p" and "\<not> is_private a" and "\<forall>op \<in> set (block_ops a). \<forall>k. creates (sha256 (rv_crypto E)) op \<noteq> Some (d, k)"
  shows "resolve E d r = None"
proof -
  define I where "I r \<longleftrightarrow> cache_ok E r \<and> rv_next r = Some p \<and> rv_defs r d = None" for r
  have step: "\<exists>r'. extend_ancestors E r = Inr r' \<and> I r'" if "I r" for r
  proof -
    have r: "cache_ok E r" "rv_next r = Some p" "rv_defs r d = None" using that by (simp_all add: I_def)
    let ?r = "(define_all (rv_crypto E) (block_ops a) (r\<lparr>rv_cache := (rv_cache r)(p \<mapsto> a)\<rparr>))\<lparr>rv_next := Some p\<rparr>"
    have e: "extend_ancestors E r = Inr ?r"
      using r assms(4-6) by (simp add: extend_ancestors_def fetch_source)
    have "rv_defs ?r d = None"
    proof (rule ccontr)
      assume "rv_defs ?r d \<noteq> None"
      then obtain rec where "rv_defs (define_all (rv_crypto E) (block_ops a) (r\<lparr>rv_cache := (rv_cache r)(p \<mapsto> a)\<rparr>)) d = Some rec" by auto
      from define_all_new [OF this] r(3) assms(7) show False by (auto simp: op_defines_def)
    qed
    then show ?thesis using e cache_ok_ancestors [OF r(1) _ e] r(2) by (simp add: I_def)
  qed
  have "ancestors_loop E d r = None" unfolding ancestors_loop_def
  proof (rule loopE_diverges [of I])
    show "I r" using assms(1-3) by (simp add: I_def)
    fix t assume "I t"
    then show "(rv_defs t d = None \<and> rv_next t \<noteq> None) \<and> (\<exists>t'. extend_ancestors E t = Inr t' \<and> I t')"
      using step by (auto simp: I_def)
  qed
  then show ?thesis by (simp add: resolve_def)
qed

lemma water_block:
  assumes "length priv = 64"
  obtains a where "sound_block sample_crypto a" and "block_prev a = prev" and "block_ops a = [Create_atom water]"
    and "block_pub a = public_half priv" and "c_type (blk_content a) = type_public" and "c_ts (blk_content a) = 0"
proof -
  have "bulk (Array (map op_value [Create_atom water])) < 2 ^ 30" using sample_bulk(1) by simp
  then show thesis
    using public_block [OF assms, of "[]" "[Create_atom water]" prev] wf_water that by (auto simp: is_rotate_key_def)
qed

text \<open>
  C37. The walk of the author's own chain has no guard against a source whose predecessor links
  run in a circle, which the walk of \<open>ValidateChain\<close> has ("a buggy one must not spin this loop
  forever"): there are two blocks, each with a valid signature, and a source holding one of them
  under the digest it names as its own predecessor, on which validating the other never returns.
\<close>

theorem validate_can_diverge:
  "\<exists>cr b a p src. sound_block cr b \<and> sound_block cr a \<and> block_prev b = Some p \<and>
    src_block src = (\<lambda>d. Inl (Not_found d))(p := Inr a) \<and>
    block_prev a = Some p \<and> validate cr b src None = None"
proof -
  have k: "length sample_key = 64" by (simp add: sample_key_def)
  obtain b where b: "sound_block sample_crypto b" "block_prev b = Some 1" "block_refs b = []"
    "block_ops b = [Create_molecule (truth_molecule 5)]" "block_pub b = public_half sample_key"
    "c_type (blk_content b) = type_public" "c_version (blk_content b) = protocol_version"
    using molecule_block [of "[]" sample_key "Some 1" 5] k by auto
  obtain a where a: "sound_block sample_crypto a" "block_prev a = Some 1" "block_ops a = [Create_atom water]"
    "block_pub a = public_half sample_key" "c_type (blk_content a) = type_public" "c_ts (blk_content a) = 0"
    using water_block [OF k] .
  let ?src = "map_source (\<lambda>d. if d = 1 then Some a else None)"
  let ?E = "resolver_env_of sample_crypto b ?src None"
  have "same_author a b" using a(4) b(5) by (simp add: same_author_def block_pub_def)
  then have "\<exists>rep. validate_header sample_crypto b ?src = Inr rep"
    using b a(5) type_names sound_verifies [OF b(1)] by (simp add: validate_header_def validate_linkage_def)
  then obtain rep where h: "validate_header sample_crypto b ?src = Inr rep" ..
  have "atom_digest length_hash water \<noteq> 5" by code_simp
  then have "\<forall>op \<in> set (block_ops a). \<forall>k. creates (sha256 sample_crypto) op \<noteq> Some (5, k)"
    using a(3) by (simp add: sample_crypto_def)
  moreover have "\<not> is_private a" "\<not> is_private b" using a(5) b(6) type_names by (simp_all add: is_private_def)
  ultimately have "resolve ?E 5 ((new_resolver b rep)\<lparr>rv_queue := []\<rparr>) = None"
    using a(2) b(2) by (intro circle_search_diverges [where p = 1 and a = a]) (simp_all add: cache_ok_def)
  then have "check_ops ?E 0 (block_ops b) ((new_resolver b rep)\<lparr>rv_queue := []\<rparr>) = None"
    using b(4) truth_references [of 5] by (simp add: Let_def del: references.simps(1))
  then have "validate sample_crypto b ?src None = None"
    using h b(3) \<open>\<not> is_private b\<close> by (simp add: validate_def validate_references_def)
  moreover have "src_block ?src = (\<lambda>d. Inl (Not_found d))(1 := Inr a)" by (rule ext) simp
  ultimately show ?thesis using b(1,2) a(1,2) by blast
qed

text \<open>
  Three blocks of another author and one that names two of them: \<open>w\<close> creates the bond that the
  operation of \<open>b\<close> is over, and \<open>v\<close> leads on to \<open>u\<close>. A hash tells the four apart.
\<close>

definition two_ways :: "crypto \<Rightarrow> block \<Rightarrow> block \<Rightarrow> block \<Rightarrow> block \<Rightarrow> bool" where
  "two_ways cr b u v w \<longleftrightarrow>
    sound_block cr b \<and> sound_block cr u \<and> sound_block cr v \<and> sound_block cr w \<and>
    block_digest cr u = 1 \<and> block_digest cr v = 2 \<and> block_digest cr w = 3 \<and> bond_digest (sha256 cr) truth_bond = 4 \<and>
    atom_digest (sha256 cr) water \<noteq> 4 \<and> atom_digest (sha256 cr) ice \<noteq> 4 \<and>
    block_refs u = [] \<and> block_ops u = [Create_atom water] \<and> block_refs v = [1] \<and> block_ops v = [Create_atom ice] \<and>
    block_refs w = [] \<and> block_ops w = [Create_bond truth_bond] \<and>
    \<not> is_private u \<and> \<not> is_private v \<and> \<not> is_private w \<and> \<not> same_author v b \<and> \<not> same_author w b \<and>
    block_prev b = None \<and> block_refs b = [3, 2] \<and> block_ops b = [Create_molecule (truth_molecule 4)] \<and>
    c_type (blk_content b) = type_public \<and> c_version (blk_content b) = protocol_version"

lemma two_ways_exist: "\<exists>cr b u v w. two_ways cr b u v w"
proof -
  let ?key = "replicate 64 8 :: byte list"
  have k: "length sample_key = 64" "length ?key = 64" by (simp_all add: sample_key_def)
  have ne: "public_half ?key \<noteq> public_half sample_key" by (simp add: public_half_def sample_key_def)
  have one: "\<exists>t. sound_block sample_crypto t \<and> decode_block sample_crypto (blk_enc t) = Inr t \<and>
      block_refs t = refs \<and> block_ops t = [op] \<and> block_pub t = public_half ?key \<and> \<not> is_private t"
    if "length refs \<le> 1" "wf_op op" "\<not> is_rotate_key op" "bulk (op_value op) \<le> 200" for refs op
  proof -
    have "distinct refs" using that(1) by (cases refs) auto
    then have d: "distinct refs" "length refs \<le> 64" "[op] \<noteq> []" using that(1) by simp_all
    have o: "\<forall>op' \<in> set [op]. wf_op op' \<and> \<not> is_rotate_key op'" "bulk (Array (map op_value [op])) < 2 ^ 30" using that by simp_all
    obtain t where t: "sound_block sample_crypto t" "decode_block sample_crypto (blk_enc t) = Inr t"
      "block_refs t = refs" "block_ops t = [op]" "block_pub t = public_half ?key" "c_type (blk_content t) = type_public"
      using public_block [OF k(2) d o, of None] by blast
    moreover have "\<not> is_private t" using t(6) type_names by (simp add: is_private_def)
    ultimately show ?thesis by blast
  qed
  obtain u where u: "sound_block sample_crypto u" "decode_block sample_crypto (blk_enc u) = Inr u"
    "block_refs u = []" "block_ops u = [Create_atom water]" "block_pub u = public_half ?key" "\<not> is_private u"
    using one [of "[]" "Create_atom water"] wf_water sample_bulk(1) by (auto simp: is_rotate_key_def)
  obtain v where v: "sound_block sample_crypto v" "decode_block sample_crypto (blk_enc v) = Inr v"
    "block_refs v = [1]" "block_ops v = [Create_atom ice]" "block_pub v = public_half ?key" "\<not> is_private v"
    using one [of "[1]" "Create_atom ice"] wf_ice sample_bulk(2) by (auto simp: is_rotate_key_def)
  obtain w where w: "sound_block sample_crypto w" "decode_block sample_crypto (blk_enc w) = Inr w"
    "block_refs w = []" "block_ops w = [Create_bond truth_bond]" "block_pub w = public_half ?key" "\<not> is_private w"
    using one [of "[]" "Create_bond truth_bond"] wf_truth_bond sample_bulk(3) by (auto simp: is_rotate_key_def)
  obtain b where b: "sound_block sample_crypto b" "block_prev b = None" "block_refs b = [3, 2]"
    "block_ops b = [Create_molecule (truth_molecule 4)]" "block_pub b = public_half sample_key"
    "c_type (blk_content b) = type_public" "c_version (blk_content b) = protocol_version"
    using molecule_block [of "[3, 2]" sample_key None 4] k by auto
  have "u \<noteq> v" "u \<noteq> w" "v \<noteq> w" using u(4) v(4) w(4) by (auto simp: water_def ice_def)
  then have enc: "blk_enc u \<noteq> blk_enc v" "blk_enc u \<noteq> blk_enc w" "blk_enc v \<noteq> blk_enc w"
    using u(2) v(2) w(2) by auto
  have "case decode_block sample_crypto (bond_enc truth_bond) of Inr _ \<Rightarrow> False | Inl _ \<Rightarrow> True" by code_simp
  then have nb: "bond_enc truth_bond \<noteq> blk_enc u" "bond_enc truth_bond \<noteq> blk_enc v" "bond_enc truth_bond \<noteq> blk_enc w"
    using u(2) v(2) w(2) by auto
  have at: "atom_enc water \<noteq> bond_enc truth_bond" "atom_enc ice \<noteq> bond_enc truth_bond" by code_simp+
  let ?cr = "sample_crypto\<lparr>sha256 := \<lambda>bs. if bs = bond_enc truth_bond then 4 else if bs = blk_enc u then 1
    else if bs = blk_enc v then 2 else if bs = blk_enc w then 3 else 0\<rparr>"
  have "two_ways ?cr b u v w"
    using u v w b enc nb at ne unfolding two_ways_def
    by (simp add: sound_sha256 block_digest_def sum_digest_def bond_digest_def atom_digest_def same_author_def block_pub_def)
  then show ?thesis by blast
qed

definition one_scan :: "options option" where
  "one_scan = Some \<lparr>opt_scan_limit = 1, opt_decrypter = None\<rparr>"

lemma two_ways_accepted:
  assumes "two_ways cr b u v w"
  shows "\<exists>report. validate cr b (map_source [1 \<mapsto> u, 2 \<mapsto> v, 3 \<mapsto> w]) one_scan = Some (Inr report)"
proof -
  let ?src = "map_source [1 \<mapsto> u, 2 \<mapsto> v, 3 \<mapsto> w]"
  let ?E = "resolver_env_of cr b ?src one_scan" and ?rec = "\<lparr>rec_kind = Kind_bond, rec_bond = truth_bond\<rparr>"
  note t = assms [unfolded two_ways_def]
  have limit: "scan_limit one_scan = 1" by (simp add: scan_limit_def one_scan_def)
  have va: "validate_against (sha256 cr) (truth_molecule 4) truth_bond = Inr ()"
    using truth_bond_ok t by (simp add: validate_against_def)
  have found: "\<exists>r'. resolve ?E 4 r = Some (Inr (r', ?rec)) \<and> rv_defs r' 4 = Some ?rec"
    if "rv_defs r = (\<lambda>_. None)" "rv_next r = None" "rv_queue r = [3, 2]" "rv_visited r = (\<lambda>_. False)" "rv_scanned r = 0"
      "rv_cache r 3 = Some w" for r
    using that t limit
    by (simp add: resolve_ahead extend_refs_def fetch_def Let_def refs_loop_stop define_op_defs)
  have "\<exists>r1. check_refs ?E [3, 2] (new_resolver b rep) = Inr r1 \<and> rv_defs r1 = (\<lambda>_. None) \<and> rv_next r1 = None \<and>
      rv_visited r1 = (\<lambda>_. False) \<and> rv_scanned r1 = 0 \<and> rv_cache r1 3 = Some w" for rep
    using t by (simp add: fetch_def Let_def)
  then obtain r1 where r1: "check_refs ?E [3, 2] (new_resolver b (warn 9 (block_digest cr b) No_siblings_notice empty_report)) = Inr r1"
    "rv_defs r1 = (\<lambda>_. None)" "rv_next r1 = None" "rv_visited r1 = (\<lambda>_. False)" "rv_scanned r1 = 0" "rv_cache r1 3 = Some w"
    by blast
  from found [of "r1\<lparr>rv_queue := [3, 2]\<rparr>"] r1(2-6) obtain r' where
    r': "resolve ?E 4 (r1\<lparr>rv_queue := [3, 2]\<rparr>) = Some (Inr (r', ?rec))" "rv_defs r' 4 = Some ?rec" by auto
  show ?thesis
    using genesis_validate [of cr b ?src one_scan] t r1(1) r' va truth_references [of 4]
    by (simp add: validate_references_def check_molecule_def Let_def del: references.simps(1) check_refs.simps)
qed

lemma two_ways_condemned:
  assumes "two_ways cr b u v w"
  shows "\<exists>e. validate cr b (map_source [1 \<mapsto> u, 2 \<mapsto> v]) one_scan = Some (Inl e) \<and> \<not> is_unvalidated e"
proof -
  let ?src = "map_source [1 \<mapsto> u, 2 \<mapsto> v]"
  let ?E = "resolver_env_of cr b ?src one_scan"
  note t = assms [unfolded two_ways_def]
  have limit: "scan_limit one_scan = 1" by (simp add: scan_limit_def one_scan_def)
  have lost: "resolve ?E 4 r = Some (Inl (Scan_limit 1))"
    if "rv_defs r = (\<lambda>_. None)" "rv_next r = None" "rv_queue r = [3, 2]" "rv_visited r = (\<lambda>_. False)" "rv_scanned r = 0"
      "rv_cache r 3 = None" "rv_cache r 2 = Some v" "rv_cache r 1 = None" for r
    using that t limit
    by (simp add: resolve_ahead extend_refs_def fetch_def Let_def refs_loop_step define_op_defs resolver_warn_def)
  have "\<exists>r1. check_refs ?E [3, 2] (new_resolver b rep) = Inr r1 \<and> rv_defs r1 = (\<lambda>_. None) \<and> rv_next r1 = None \<and>
      rv_visited r1 = (\<lambda>_. False) \<and> rv_scanned r1 = 0 \<and> rv_cache r1 3 = None \<and> rv_cache r1 2 = Some v \<and> rv_cache r1 1 = None" for rep
    using t by (simp add: fetch_def Let_def)
  then obtain r1 where r1: "check_refs ?E [3, 2] (new_resolver b (warn 9 (block_digest cr b) No_siblings_notice empty_report)) = Inr r1"
    "rv_defs r1 = (\<lambda>_. None)" "rv_next r1 = None" "rv_visited r1 = (\<lambda>_. False)" "rv_scanned r1 = 0"
    "rv_cache r1 3 = None" "rv_cache r1 2 = Some v" "rv_cache r1 1 = None"
    by blast
  have "resolve ?E 4 (r1\<lparr>rv_queue := [3, 2]\<rparr>) = Some (Inl (Scan_limit 1))" using r1(2-8) by (intro lost) simp_all
  then show ?thesis
    using genesis_validate [of cr b ?src one_scan] t r1(1)
      lookup_fails [of ?E b cr 4 "r1\<lparr>rv_queue := [3, 2]\<rparr>" "Scan_limit 1"]
    by (simp add: validate_references_def is_unvalidated_def del: check_ops.simps check_refs.simps)
qed

text \<open>A source that holds sound blocks, each under its own digest.\<close>

definition faithful_source :: "crypto \<Rightarrow> source \<Rightarrow> bool" where
  "faithful_source cr src \<longleftrightarrow> (\<forall>d t. src_block src d = Inr t \<longrightarrow> sound_block cr t \<and> block_digest cr t = d)"

text \<open>
  Withholding one block can condemn a valid one. There are a block, a source that holds every
  block under its own digest, and a second source that differs only in not holding one block the
  references name, such that the block is accepted with the first source and rejected for good
  with the second: resolution, not finding the bond where it is, goes on through the other
  reference and reaches the scan limit, which \<open>IsUnvalidated\<close> takes for a bound reached "against
  blocks it holds and read".
\<close>

theorem withheld_block_condemns:
  "\<exists>cr b src withheld g e report opts. sound_block cr b \<and> faithful_source cr src \<and>
    src_block withheld = (src_block src)(g := Inl (Not_found g)) \<and> g \<in> set (block_refs b) \<and>
    validate cr b src opts = Some (Inr report) \<and>
    validate cr b withheld opts = Some (Inl e) \<and> \<not> is_unvalidated e"
proof -
  obtain cr b u v w where t: "two_ways cr b u v w" using two_ways_exist by blast
  note f = t [unfolded two_ways_def]
  let ?src = "map_source [1 \<mapsto> u, 2 \<mapsto> v, 3 \<mapsto> w]" and ?withheld = "map_source [1 \<mapsto> u, 2 \<mapsto> v]"
  have "src_block ?withheld = (src_block ?src)(3 := Inl (Not_found 3))" by (rule ext) simp
  moreover have "faithful_source cr ?src" using f by (auto simp: faithful_source_def split: option.splits if_splits)
  moreover have "3 \<in> set (block_refs b)" "sound_block cr b" using f by simp_all
  ultimately show ?thesis using two_ways_accepted [OF t] two_ways_condemned [OF t] by blast
qed

end
