(* ===== verification/Chain.thy ===== *)
theory Chain
  imports Validation
begin

text \<open>
  Author chains (\<open>go/block/chain.go\<close>): the walk from a tip back to the genesis block, the validation
  of a chain, of the link between a rotation block and its successor, and of a history of chains.
\<close>

section \<open>Chains\<close>

record chain =
  ch_pub :: "byte list"
  ch_blocks :: "block list"
  ch_report :: report

definition chain_genesis :: "chain \<Rightarrow> block" where
  "chain_genesis c = ch_blocks c ! 0"

definition chain_tip :: "chain \<Rightarrow> block" where
  "chain_tip c = ch_blocks c ! (length (ch_blocks c) - 1)"

definition chain_rotation :: "chain \<Rightarrow> block option" where
  "chain_rotation c =
    (if c_type (blk_content (chain_tip c)) \<noteq> type_rotation then None else Some (chain_tip c))"

definition next_public_key :: "chain \<Rightarrow> public_key option" where
  "next_public_key c = (case chain_rotation c of None \<Rightarrow> None | Some b \<Rightarrow> block_rotate_key b)"

section \<open>The walk\<close>

definition fetch_checked :: "crypto \<Rightarrow> source \<Rightarrow> digest \<Rightarrow> block_error + block" where
  "fetch_checked cr src d =
    bindE (src_block src d) (\<lambda>b.
    if block_digest cr b \<noteq> d then Inl (Wrong_block d (block_digest cr b)) else Inr b)"

text \<open>The blocks found so far, tip first, the digests seen and the next one.\<close>

type_synonym walker = "block list \<times> (digest \<Rightarrow> bool) \<times> digest option"

definition walk_step :: "crypto \<Rightarrow> digest \<Rightarrow> source \<Rightarrow> walker \<Rightarrow> block_error + walker" where
  "walk_step cr tip src = (\<lambda>(blocks, seen, next_digest).
    let d = the next_digest in
    if seen d then Inl (Chain_cycle tip d)
    else bindE (fetch_checked cr src d) (\<lambda>b. Inr (blocks @ [b], seen(d := True), block_prev b)))"

definition walk :: "crypto \<Rightarrow> digest \<Rightarrow> source \<Rightarrow> (block_error + block list) option" where
  "walk cr tip src =
    bindD (loopE (\<lambda>(blocks, seen, next_digest). next_digest \<noteq> None) (walk_step cr tip src) ([], \<lambda>_. False, Some tip))
      (\<lambda>(blocks, seen, next_digest). Some (Inr (rev blocks)))"

section \<open>Validation of a chain\<close>

text \<open>A recorded verdict is read; without one the block is validated.\<close>

definition accepted :: "crypto \<Rightarrow> block \<Rightarrow> source \<Rightarrow> options option \<Rightarrow> (block_error + report) option" where
  "accepted cr b src opts =
    (case src_verdict src of
       None \<Rightarrow> validate cr b src opts
     | Some v \<Rightarrow>
         (case v (block_digest cr b) of (verdict, recorded) \<Rightarrow>
            if verdict = Verdict_valid
            then Some (Inr (case recorded of None \<Rightarrow> empty_report | Some r \<Rightarrow> r))
            else validate cr b src opts))"

definition merge_report :: "report \<Rightarrow> report \<Rightarrow> report" where
  "merge_report r report =
    r\<lparr>r_warnings := r_warnings r @ r_warnings report, r_forks := r_forks r @ r_forks report,
      r_scanned := r_scanned r + r_scanned report,
      r_unchecked := foldl (\<lambda>rules rule. if rule \<in> set rules then rules else rules @ [rule])
        (r_unchecked r) (r_unchecked report)\<rparr>"

fun accept_all :: "crypto \<Rightarrow> source \<Rightarrow> options option \<Rightarrow> block list \<Rightarrow> report \<Rightarrow> (block_error + report) option" where
  "accept_all cr src opts [] r = Some (Inr r)"
| "accept_all cr src opts (b # bs) r =
    bindD (accepted cr b src opts) (\<lambda>report. accept_all cr src opts bs (merge_report r report))"

definition validate_chain :: "crypto \<Rightarrow> digest \<Rightarrow> source \<Rightarrow> options option \<Rightarrow> (block_error + chain) option" where
  "validate_chain cr tip src opts =
    bindD (walk cr tip src) (\<lambda>blocks.
    bindD (accept_all cr src opts blocks empty_report) (\<lambda>report.
    Some (Inr \<lparr>ch_pub = block_pub (blocks ! 0), ch_blocks = blocks, ch_report = report\<rparr>)))"

section \<open>Succession\<close>

definition validate_succession :: "crypto \<Rightarrow> block \<Rightarrow> block \<Rightarrow> block_error + report" where
  "validate_succession cr rotation genesis =
    (case block_rotate_key rotation of
       None \<Rightarrow> Inl (Not_a_rotation (block_digest cr rotation))
     | Some k \<Rightarrow>
         if \<not> is_genesis genesis then Inl (Not_a_genesis (block_digest cr genesis))
         else if c_type (blk_content genesis) \<noteq> type_public then
           (if c_type (blk_content genesis) = type_private then Inl (Private_genesis (block_digest cr genesis))
            else Inl (Genesis_type (c_type (blk_content genesis))))
         else if block_pub genesis \<noteq> digest_bytes k then Inl Foreign_successor
         else if block_digest cr rotation \<notin> set (block_refs genesis)
           then Inl (Unreferenced_rotation (block_digest cr rotation))
         else Inr empty_report)"

text \<open>The loop over the blocks that refer to the rotation block.\<close>

fun claimants_of :: "source \<Rightarrow> byte list \<Rightarrow> digest list \<Rightarrow> block_error + digest list" where
  "claimants_of src new_pub [] = Inr []"
| "claimants_of src new_pub (d # ds) =
    (case src_block src d of
       Inl e \<Rightarrow> if is_not_found e then claimants_of src new_pub ds else Inl e
     | Inr candidate \<Rightarrow>
         bindE (claimants_of src new_pub ds) (\<lambda>found_below.
         Inr (if is_genesis candidate \<and> c_type (blk_content candidate) = type_public \<and> block_pub candidate = new_pub
              then d # found_below else found_below)))"

definition successors :: "crypto \<Rightarrow> block \<Rightarrow> source \<Rightarrow> block_error + digest list \<times> fork option" where
  "successors cr rotation src =
    (case block_rotate_key rotation of
       None \<Rightarrow> Inl (Not_a_rotation (block_digest cr rotation))
     | Some k \<Rightarrow>
         (case src_referrers src of
            None \<Rightarrow> Inl (No_referrers (block_digest cr rotation))
          | Some referring \<Rightarrow>
              bindE (claimants_of src (digest_bytes k) (referring (block_digest cr rotation))) (\<lambda>found.
              let ds = sort_digests found in
              Inr (ds, if 1 < length ds then Some \<lparr>fork_pub = digest_bytes k, fork_prev = None, fork_blocks = ds\<rparr> else None))))"

section \<open>Histories\<close>

text \<open>The junction of a chain with the one before it, chain \<open>i\<close> of \<open>n\<close> counted from one.\<close>

definition junction :: "crypto \<Rightarrow> source \<Rightarrow> nat \<Rightarrow> nat \<Rightarrow> chain option \<Rightarrow> chain \<Rightarrow> block_error + chain" where
  "junction cr src i n previous c =
    (case previous of
       None \<Rightarrow> Inr c
     | Some p \<Rightarrow>
         (case chain_rotation p of
            None \<Rightarrow> Inl (Chain_open i n)
          | Some rotation \<Rightarrow>
              bindE (validate_succession cr rotation (chain_genesis c)) (\<lambda>report.
              let c' = c\<lparr>ch_report := (ch_report c)\<lparr>r_warnings := r_warnings (ch_report c) @ r_warnings report\<rparr>\<rparr> in
              if src_referrers src = None then Inr c'
              else bindE (successors cr rotation src) (\<lambda>(ds, conflict).
                if conflict \<noteq> None then Inl (Ambiguous_succession (block_digest cr rotation) ds) else Inr c'))))"

fun history_from :: "crypto \<Rightarrow> source \<Rightarrow> options option \<Rightarrow> nat \<Rightarrow> nat \<Rightarrow> chain option \<Rightarrow> digest list \<Rightarrow>
    (block_error + chain list) option" where
  "history_from cr src opts i n previous [] = Some (Inr [])"
| "history_from cr src opts i n previous (tip # tip_list) =
    bindD (mapErrD (Chain_at (i + 1) n) (validate_chain cr tip src opts)) (\<lambda>c.
    bindD (Some (junction cr src i n previous c)) (\<lambda>c'.
    bindD (history_from cr src opts (i + 1) n (Some c') tip_list) (\<lambda>found_below.
    Some (Inr (c' # found_below)))))"

definition validate_history :: "crypto \<Rightarrow> digest list \<Rightarrow> source \<Rightarrow> options option \<Rightarrow> (block_error + chain list) option" where
  "validate_history cr tip_list src opts =
    (if tip_list = [] then Some (Inl No_tips) else history_from cr src opts 0 (length tip_list) None tip_list)"

section \<open>What the walk finds\<close>

text \<open>A chain as a source holds it: genesis first, every block the predecessor of the next.\<close>

fun linked :: "crypto \<Rightarrow> digest option \<Rightarrow> block list \<Rightarrow> bool" where
  "linked cr p [] \<longleftrightarrow> True"
| "linked cr p (b # bs) \<longleftrightarrow> block_prev b = p \<and> linked cr (Some (block_digest cr b)) bs"

definition held_chain :: "crypto \<Rightarrow> source \<Rightarrow> digest \<Rightarrow> block list \<Rightarrow> bool" where
  "held_chain cr src tip bs \<longleftrightarrow> bs \<noteq> [] \<and> block_digest cr (last bs) = tip \<and> linked cr None bs \<and>
    (\<forall>b \<in> set bs. src_block src (block_digest cr b) = Inr b)"

lemma linked_append:
  "linked cr p (as @ bs) \<longleftrightarrow> linked cr p as \<and> linked cr (if as = [] then p else Some (block_digest cr (last as))) bs"
  by (induction as arbitrary: p) auto

lemma linked_nth:
  "linked cr p bs \<Longrightarrow> i < length bs \<Longrightarrow> block_prev (bs ! i) = (if i = 0 then p else Some (block_digest cr (bs ! (i - 1))))"
proof (induction bs arbitrary: p i)
  case (Cons b bs)
  then show ?case by (cases i) (auto simp: nth_Cons')
qed simp

lemma held_chain_snoc:
  "held_chain cr src tip (bs @ [b]) \<longleftrightarrow> src_block src tip = Inr b \<and> block_digest cr b = tip \<and>
    (case block_prev b of None \<Rightarrow> bs = [] | Some p \<Rightarrow> held_chain cr src p bs)"
  by (auto simp: held_chain_def linked_append split: option.splits)

text \<open>A source holds one chain for a tip.\<close>

lemma held_chain_unique:
  "held_chain cr src tip as \<Longrightarrow> held_chain cr src tip bs \<Longrightarrow> as = bs"
proof (induction as arbitrary: tip bs rule: rev_induct)
  case Nil
  then show ?case by (simp add: held_chain_def)
next
  case (snoc a as)
  obtain cs c where bs: "bs = cs @ [c]" using snoc.prems(2) by (cases bs rule: rev_cases) (auto simp: held_chain_def)
  have "a = c" using snoc.prems by (simp add: bs held_chain_snoc)
  moreover have "as = cs"
  proof (cases "block_prev a")
    case None
    then show ?thesis using snoc.prems \<open>a = c\<close> by (simp add: bs held_chain_snoc)
  next
    case (Some p)
    then show ?thesis using snoc.prems \<open>a = c\<close> snoc.IH [of p cs] by (simp add: bs held_chain_snoc)
  qed
  ultimately show ?case by (simp add: bs)
qed

text \<open>A chain visits no digest twice, or it would have two lengths.\<close>

lemma held_chain_prefix:
  "held_chain cr src tip bs \<Longrightarrow> i < length bs \<Longrightarrow> held_chain cr src (block_digest cr (bs ! i)) (take (Suc i) bs)"
proof -
  assume h: "held_chain cr src tip bs" and i: "i < length bs"
  have "linked cr None (take (Suc i) bs @ drop (Suc i) bs)" using h by (simp add: held_chain_def)
  then have "linked cr None (take (Suc i) bs)" by (simp only: linked_append)
  moreover have "last (take (Suc i) bs) = bs ! i" using i by (simp add: take_Suc_conv_app_nth)
  ultimately show ?thesis using h i set_take_subset [of "Suc i" bs] by (auto simp: held_chain_def)
qed

lemma held_chain_distinct:
  assumes "held_chain cr src tip bs"
  shows "distinct (map (block_digest cr) bs)"
proof -
  have "i = j" if "i < length bs" "j < length bs" "block_digest cr (bs ! i) = block_digest cr (bs ! j)" for i j
  proof -
    have "take (Suc i) bs = take (Suc j) bs"
      using held_chain_unique held_chain_prefix [OF assms that(1)] held_chain_prefix [OF assms that(2)] that(3) by metis
    then have "length (take (Suc i) bs) = length (take (Suc j) bs)" by simp
    then show ?thesis using that(1,2) by simp
  qed
  then show ?thesis by (auto simp: distinct_conv_nth)
qed

text \<open>The walk so far, from the tip down: the rest of the chain is still to be read.\<close>

definition walked :: "crypto \<Rightarrow> source \<Rightarrow> digest \<Rightarrow> walker \<Rightarrow> bool" where
  "walked cr src tip = (\<lambda>(blocks, seen, next_digest).
    (\<forall>b \<in> set blocks. src_block src (block_digest cr b) = Inr b) \<and>
    (\<forall>d. seen d \<longleftrightarrow> d \<in> block_digest cr ` set blocks) \<and>
    (if blocks = [] then next_digest = Some tip
     else block_digest cr (hd blocks) = tip \<and> next_digest = block_prev (last blocks)) \<and>
    linked cr (block_prev (last blocks)) (rev blocks))"

lemma fetch_checked_Inr: "fetch_checked cr src d = Inr b \<longleftrightarrow> src_block src d = Inr b \<and> block_digest cr b = d"
  by (auto simp: fetch_checked_def bindE_eq_Inr)

lemma walk_step_Inr:
  "walk_step cr tip src (bs, seen, Some d) = Inr w \<longleftrightarrow>
    \<not> seen d \<and> (\<exists>b. src_block src d = Inr b \<and> block_digest cr b = d \<and> w = (bs @ [b], seen(d := True), block_prev b))"
  by (auto simp: walk_step_def bindE_eq_Inr fetch_checked_Inr)

lemma walked_step:
  assumes "walked cr src tip (bs, seen, Some d)" and "walk_step cr tip src (bs, seen, Some d) = Inr w"
  shows "walked cr src tip w"
proof -
  from assms(2) obtain b where b: "src_block src d = Inr b" "block_digest cr b = d"
    and w: "w = (bs @ [b], seen(d := True), block_prev b)"
    by (auto simp: walk_step_Inr)
  have "bs \<noteq> [] \<Longrightarrow> block_prev (last bs) = Some d" using assms(1) by (auto simp: walked_def)
  then show ?thesis using assms(1) b w by (cases bs) (auto simp: walked_def)
qed

text \<open>The digests are finitely many, so a walk that revisits none ends.\<close>

lemma walk_loop_returns:
  "loopE (\<lambda>(blocks, seen, next_digest). next_digest \<noteq> None) (walk_step cr tip src) w \<noteq> None"
proof (rule loopE_returns [where R = "measure (\<lambda>(bs, seen, n). card {d. \<not> seen d})" and I = "\<lambda>_. True"])
  fix t t' :: walker
  assume n: "case t of (bs, seen, n) \<Rightarrow> n \<noteq> None" and s: "walk_step cr tip src t = Inr t'"
  obtain bs seen d where t: "t = (bs, seen, Some d)" using n by (cases t) auto
  from s obtain b where w: "\<not> seen d" "t' = (bs @ [b], seen(d := True), block_prev b)" by (auto simp: t walk_step_Inr)
  have "{x. \<not> (seen(d := True)) x} \<subset> {x. \<not> seen x}" using w(1) by auto
  then have "card {x. \<not> (seen(d := True)) x} < card {x. \<not> seen x}" by (intro psubset_card_mono) auto
  then show "True \<and> (t', t) \<in> measure (\<lambda>(bs, seen, n). card {d. \<not> seen d})" by (simp add: t w)
qed auto

lemma walk_sound:
  assumes "walk cr tip src = Some (Inr bs)"
  shows "held_chain cr src tip bs"
proof -
  let ?p = "\<lambda>(blocks, seen, next_digest). next_digest \<noteq> (None :: digest option)"
  from assms obtain w where l: "loopE ?p (walk_step cr tip src) ([], \<lambda>_. False, Some tip) = Some (Inr w)"
    and bs: "bs = rev (fst w)" by (auto simp: walk_def bindD_eq_Inr case_prod_unfold)
  have "walked cr src tip w \<and> \<not> ?p w"
  proof (rule loopE_Inr [OF l])
    show "walked cr src tip ([], \<lambda>_. False, Some tip)" by (simp add: walked_def)
    fix t t' :: walker assume "walked cr src tip t" and "?p t" and "walk_step cr tip src t = Inr t'"
    moreover obtain xs seen d where "t = (xs, seen, Some d)" using \<open>?p t\<close> by (cases t) auto
    ultimately show "walked cr src tip t'" using walked_step by blast
  qed
  then show ?thesis
    by (cases w) (auto simp: bs walked_def held_chain_def last_rev split: if_splits)
qed

lemma linked_rev: "linked cr p (rev bs) \<Longrightarrow> bs \<noteq> [] \<Longrightarrow> block_prev (last bs) = p"
  by (cases bs rule: rev_cases) auto

lemma held_chain_step:
  assumes "held_chain cr src tip (below @ rev bs)" and "walked cr src tip (bs, seen, Some d)"
  obtains b below' where "below = below' @ [b]" and "src_block src d = Inr b" and "block_digest cr b = d" and "\<not> seen d"
proof -
  have "below \<noteq> []"
  proof
    assume e: "below = []"
    then have ne: "bs \<noteq> []" using assms(1) by (auto simp: held_chain_def)
    have "linked cr None (rev bs)" using assms(1) e by (simp add: held_chain_def)
    then have "block_prev (last bs) = None" using ne by (rule linked_rev)
    then show False using assms(2) ne by (simp add: walked_def)
  qed
  then obtain below' b where r: "below = below' @ [b]" by (cases below rule: rev_cases) auto
  have d: "block_digest cr b = d"
  proof (cases "bs = []")
    case True
    then show ?thesis using assms r by (simp add: held_chain_def walked_def)
  next
    case False
    have "block_prev (last bs) = Some (block_digest cr b)"
      using linked_rev [OF _ False] assms(1) r by (auto simp: held_chain_def linked_append)
    then show ?thesis using assms(2) False by (simp add: walked_def)
  qed
  have "src_block src d = Inr b" using assms(1) r d by (auto simp: held_chain_def)
  moreover have "\<not> seen d"
    using held_chain_distinct [OF assms(1)] assms(2) d by (auto simp: r walked_def)
  ultimately show thesis using r d by (intro that)
qed

lemma walk_complete:
  assumes "held_chain cr src tip bs"
  shows "walk cr tip src = Some (Inr bs)"
proof -
  let ?p = "\<lambda>(blocks, seen, next_digest). next_digest \<noteq> (None :: digest option)"
  let ?I = "\<lambda>w. walked cr src tip w \<and> (\<exists>below. bs = below @ rev (fst w))"
  obtain r where r: "loopE ?p (walk_step cr tip src) ([], \<lambda>_. False, Some tip) = Some r" using walk_loop_returns by blast
  have step: "\<exists>t'. walk_step cr tip src t = Inr t' \<and> ?I t'" if I: "?I t" and p: "?p t" for t
  proof -
    obtain xs seen d where t: "t = (xs, seen, Some d)" using p by (cases t) auto
    obtain below where below: "bs = below @ rev xs" using I t by auto
    have h: "held_chain cr src tip (below @ rev xs)" and w: "walked cr src tip (xs, seen, Some d)"
      using assms I by (simp_all add: t below)
    obtain b below' where "below = below' @ [b]" "src_block src d = Inr b" "block_digest cr b = d" "\<not> seen d"
      by (rule held_chain_step [OF h w])
    moreover from this have s: "walk_step cr tip src t = Inr (xs @ [b], seen(d := True), block_prev b)"
      by (simp add: t walk_step_Inr)
    ultimately show ?thesis using walked_step [of cr src tip xs seen d] I by (auto simp: t below)
  qed
  have "case r of Inr t \<Rightarrow> ?I t \<and> \<not> ?p t | Inl e \<Rightarrow> \<exists>t. ?I t \<and> ?p t \<and> walk_step cr tip src t = Inl e"
  proof (rule loopE_rule [where I = ?I, OF r])
    show "?I ([], \<lambda>_. False, Some tip)" by (simp add: walked_def)
    fix t t' assume "?I t" "?p t" "walk_step cr tip src t = Inr t'"
    then show "?I t'" using step [of t] by auto
  qed
  then obtain w where "r = Inr w" using step by (cases r) fastforce+
  then have "walk cr tip src = Some (Inr (rev (fst w)))" using r by (simp add: walk_def case_prod_unfold)
  then show ?thesis using walk_sound [of cr tip src] held_chain_unique [OF assms] by metis
qed

lemma walk_iff: "walk cr tip src = Some (Inr bs) \<longleftrightarrow> held_chain cr src tip bs"
  using walk_sound walk_complete by blast

lemma walk_returns: "walk cr tip src \<noteq> None"
  using walk_loop_returns [of cr tip src] by (auto simp: walk_def bindD_eq_None)

section \<open>Acceptance of a chain\<close>

text \<open>The verdicts of a source stand for validations: an accepted block verifies and has a predecessor fit for it.\<close>

definition verdicts_sound :: "crypto \<Rightarrow> source \<Rightarrow> bool" where
  "verdicts_sound cr src \<longleftrightarrow> (\<forall>v d b. src_verdict src = Some v \<longrightarrow> fst (v d) = Verdict_valid \<longrightarrow> src_block src d = Inr b \<longrightarrow>
    block_verify cr b = Inr () \<and> accepted_previous b src)"

lemma validated:
  assumes "validate cr b src opts = Some (Inr report)"
  shows "block_verify cr b = Inr () \<and> accepted_previous b src"
  using assms by (cases rule: validate_Inr) (use validate_header_Inr in blast)+

lemma accepted_Inr:
  assumes "accepted cr b src opts = Some (Inr report)" and "src_block src (block_digest cr b) = Inr b" and "verdicts_sound cr src"
  shows "block_verify cr b = Inr () \<and> accepted_previous b src"
proof (cases "src_verdict src")
  case None
  then show ?thesis using assms(1) validated by (simp add: accepted_def)
next
  case (Some v)
  show ?thesis
  proof (cases "fst (v (block_digest cr b)) = Verdict_valid")
    case True
    then show ?thesis using assms(2,3) Some unfolding verdicts_sound_def by blast
  next
    case False
    then show ?thesis using assms(1) Some validated by (auto simp: accepted_def split: prod.splits)
  qed
qed

lemma merge_report_refs [simp]: "r_unchecked_refs (merge_report r report) = r_unchecked_refs r"
  by (simp add: merge_report_def)

lemma accept_all_Inr:
  assumes "accept_all cr src opts bs r = Some (Inr report)"
  shows "(\<forall>b \<in> set bs. \<exists>rep. accepted cr b src opts = Some (Inr rep)) \<and> r_unchecked_refs report = r_unchecked_refs r"
  using assms
proof (induction bs arbitrary: r)
  case (Cons b bs)
  from Cons.prems obtain rep where a: "accepted cr b src opts = Some (Inr rep)"
    and "accept_all cr src opts bs (merge_report r rep) = Some (Inr report)" by (auto simp: bindD_eq_Inr)
  with Cons.IH show ?case by fastforce
qed simp

lemma accept_all_total:
  assumes "\<forall>b \<in> set bs. \<exists>rep. accepted cr b src opts = Some (Inr rep)"
  shows "\<exists>report. accept_all cr src opts bs r = Some (Inr report)"
  using assms by (induction bs arbitrary: r) auto

text \<open>A chain whose blocks are each accepted has one author and no rotation block before its tip.\<close>

lemma accepted_chain:
  assumes "held_chain cr src tip bs" and "\<forall>b \<in> set bs. accepted_previous b src"
  shows "(\<forall>b \<in> set bs. block_pub b = block_pub (bs ! 0)) \<and>
    (\<forall>i < length bs - 1. c_type (blk_content (bs ! i)) \<noteq> type_rotation)"
proof -
  have link: "same_author (bs ! i) (bs ! Suc i) \<and> c_type (blk_content (bs ! i)) \<noteq> type_rotation" if "Suc i < length bs" for i
  proof -
    have "block_prev (bs ! Suc i) = Some (block_digest cr (bs ! i))"
      using linked_nth [of cr None bs "Suc i"] assms(1) that by (simp add: held_chain_def)
    moreover have "src_block src (block_digest cr (bs ! i)) = Inr (bs ! i)" using assms(1) that by (simp add: held_chain_def)
    moreover have "accepted_previous (bs ! Suc i) src" using assms(2) that by simp
    ultimately show ?thesis by (simp add: accepted_previous_def)
  qed
  have "block_pub (bs ! i) = block_pub (bs ! 0)" if "i < length bs" for i
    using that link by (induction i) (auto simp: same_author_def block_pub_def)
  then show ?thesis using link by (auto simp: in_set_conv_nth)
qed

section \<open>Succession in a store\<close>

text \<open>The store as a source.\<close>

definition store_source :: "mem_store \<Rightarrow> source" where
  "store_source s = \<lparr>src_block = get_block s, src_siblings = Some (blocks_with_prev s),
    src_referrers = Some (blocks_referencing s), src_verdict = None\<rparr>"

lemma store_source_simps [simp]:
  "src_block (store_source s) = get_block s" "src_siblings (store_source s) = Some (blocks_with_prev s)"
  "src_referrers (store_source s) = Some (blocks_referencing s)" "src_verdict (store_source s) = None"
  by (simp_all add: store_source_def)

lemma get_block_Inr: "get_block s d = Inr b \<longleftrightarrow> held s d = Some b"
  by (simp add: get_block_def held_def split: option.splits)

definition successor_genesis :: "block \<Rightarrow> byte list \<Rightarrow> bool" where
  "successor_genesis b new_pub \<longleftrightarrow> is_genesis b \<and> c_type (blk_content b) = type_public \<and> block_pub b = new_pub"

lemma claimants_of_store:
  assumes "claimants_of src new_pub ds = Inr xs"
  shows "xs = filter (\<lambda>d. \<exists>b. src_block src d = Inr b \<and> successor_genesis b new_pub) ds"
  using assms by (induction ds arbitrary: xs) (auto simp: bindE_eq_Inr successor_genesis_def split: sum.splits if_splits)

lemma claimants_of_total:
  assumes "\<And>d e. src_block src d = Inl e \<Longrightarrow> is_not_found e"
  shows "\<exists>xs. claimants_of src new_pub ds = Inr xs"
  using assms by (induction ds) (auto simp: bindE_eq_Inr split: sum.splits)

lemma store_claimants:
  "\<exists>xs. claimants_of (store_source s) new_pub ds = Inr xs \<and>
    xs = filter (\<lambda>d. \<exists>b. held s d = Some b \<and> successor_genesis b new_pub) ds"
proof -
  have "\<exists>xs. claimants_of (store_source s) new_pub ds = Inr xs"
    by (rule claimants_of_total) (auto simp: get_block_def split: option.splits)
  then show ?thesis using claimants_of_store [of "store_source s" new_pub ds] by (auto simp: get_block_Inr)
qed

lemma validate_succession_Inr:
  "validate_succession cr rotation b = Inr report \<longleftrightarrow> report = empty_report \<and>
    (\<exists>k. block_rotate_key rotation = Some k \<and> successor_genesis b (digest_bytes k)) \<and>
    block_digest cr rotation \<in> set (block_refs b)"
  by (auto simp: validate_succession_def successor_genesis_def split: option.splits)

text \<open>
  \<open>Successors\<close> asked of a store returns exactly the held blocks \<open>ValidateSuccession\<close> accepts as
  the genesis of the rotation's successor, in strictly ascending order of their digests, with the
  fork between them exactly when there is more than one.
\<close>

theorem successors_exact:
  assumes "store_ok cr s" and "block_rotate_key rotation = Some k"
  shows "\<exists>ds conflict. successors cr rotation (store_source s) = Inr (ds, conflict) \<and>
    sorted_wrt (<) (map digest_bytes ds) \<and>
    set ds = {d. \<exists>b. held s d = Some b \<and> validate_succession cr rotation b = Inr empty_report} \<and>
    conflict = (if 2 \<le> length ds then Some \<lparr>fork_pub = digest_bytes k, fork_prev = None, fork_blocks = ds\<rparr> else None)"
proof -
  let ?refs = "blocks_referencing s (block_digest cr rotation)"
  obtain xs where xs: "claimants_of (store_source s) (digest_bytes k) ?refs = Inr xs"
    and f: "xs = filter (\<lambda>d. \<exists>b. held s d = Some b \<and> successor_genesis b (digest_bytes k)) ?refs"
    using store_claimants by blast
  have refs: "distinct ?refs" "set ?refs = {d. \<exists>b. held s d = Some b \<and> block_digest cr rotation \<in> set (block_refs b)}"
    using store_okD(5,6) [OF assms(1), of "block_digest cr rotation"] by (simp_all add: blocks_referencing_def)
  have "set (sort_digests xs) = {d. \<exists>b. held s d = Some b \<and> validate_succession cr rotation b = Inr empty_report}"
    using refs(2) assms(2) by (auto simp: f validate_succession_Inr)
  moreover have "sorted_wrt (<) (map digest_bytes (sort_digests xs))"
    using refs(1) by (intro sort_digests_strict) (simp add: f)
  moreover have "successors cr rotation (store_source s) = Inr (sort_digests xs, if 2 \<le> length (sort_digests xs)
      then Some \<lparr>fork_pub = digest_bytes k, fork_prev = None, fork_blocks = sort_digests xs\<rparr> else None)"
    using xs assms(2) by (simp add: successors_def Let_def Suc_le_eq)
  ultimately show ?thesis by blast
qed

section \<open>Chains and histories\<close>

text \<open>
  The walk from a tip always returns, even on a source that does not answer honestly, and it
  returns exactly the chain the source holds for the tip: held under their own digests, the
  genesis block first, each block naming the one before it.
\<close>

theorem walk_correct:
  "walk cr tip src \<noteq> None \<and> (walk cr tip src = Some (Inr bs) \<longleftrightarrow> held_chain cr src tip bs)"
  using walk_returns walk_iff by blast

lemma validate_chain_Inr:
  assumes "validate_chain cr tip src opts = Some (Inr c)" and "verdicts_sound cr src"
  shows "held_chain cr src tip (ch_blocks c) \<and> ch_pub c = block_pub (ch_blocks c ! 0) \<and>
    (\<forall>b \<in> set (ch_blocks c). block_verify cr b = Inr () \<and> accepted_previous b src) \<and> r_unchecked_refs (ch_report c) = []"
proof -
  from assms(1) obtain bs report where w: "walk cr tip src = Some (Inr bs)"
    and a: "accept_all cr src opts bs empty_report = Some (Inr report)"
    and c: "c = \<lparr>ch_pub = block_pub (bs ! 0), ch_blocks = bs, ch_report = report\<rparr>"
    by (auto simp: validate_chain_def bindD_eq_Inr)
  have h: "held_chain cr src tip bs" using w by (simp add: walk_iff)
  then have "block_verify cr b = Inr () \<and> accepted_previous b src" if "b \<in> set bs" for b
    using accept_all_Inr [OF a] that accepted_Inr [OF _ _ assms(2), of b opts] by (auto simp: held_chain_def)
  then show ?thesis using h accept_all_Inr [OF a] c by simp
qed

text \<open>
  C28. A chain \<open>ValidateChain\<close> returns runs from a genesis block to the tip it was given, every
  block verifies and is signed by the chain's key, and only the tip may be a rotation block; its
  report never carries the unchecked references of its blocks.
\<close>

theorem validate_chain_correct:
  assumes "validate_chain cr tip src opts = Some (Inr c)" and "verdicts_sound cr src"
  shows "held_chain cr src tip (ch_blocks c) \<and> is_genesis (chain_genesis c) \<and> block_digest cr (chain_tip c) = tip \<and>
    (\<forall>b \<in> set (ch_blocks c). block_verify cr b = Inr () \<and> block_pub b = ch_pub c) \<and>
    (\<forall>i < length (ch_blocks c) - 1. c_type (blk_content (ch_blocks c ! i)) \<noteq> type_rotation) \<and>
    r_unchecked_refs (ch_report c) = []"
proof -
  note v = validate_chain_Inr [OF assms]
  then have h: "held_chain cr src tip (ch_blocks c)" by blast
  then have "is_genesis (chain_genesis c)"
    using linked_nth [of cr None "ch_blocks c" 0]
    by (simp add: held_chain_def is_genesis_def chain_genesis_def block_prev_def)
  moreover have "block_digest cr (chain_tip c) = tip"
    using h by (auto simp: held_chain_def chain_tip_def last_conv_nth)
  ultimately show ?thesis using v accepted_chain [OF h] by auto
qed

lemma junction_Inr:
  assumes "junction cr src i n (Some p) c = Inr c'"
  shows "\<exists>rotation. chain_rotation p = Some rotation \<and> validate_succession cr rotation (chain_genesis c) = Inr empty_report \<and>
    ch_blocks c' = ch_blocks c \<and> ch_pub c' = ch_pub c \<and>
    (src_referrers src \<noteq> None \<longrightarrow> (\<exists>ds. successors cr rotation src = Inr (ds, None)))"
proof -
  from assms obtain rotation where r: "chain_rotation p = Some rotation" by (auto simp: junction_def split: option.splits)
  with assms obtain report where v: "validate_succession cr rotation (chain_genesis c) = Inr report"
    by (auto simp: junction_def bindE_eq_Inr)
  then have e: "report = empty_report" by (simp add: validate_succession_Inr)
  show ?thesis using assms r v e by (auto simp: junction_def bindE_eq_Inr Let_def split: if_splits)
qed

definition succeeds_chain :: "crypto \<Rightarrow> source \<Rightarrow> chain \<Rightarrow> chain \<Rightarrow> bool" where
  "succeeds_chain cr src p c \<longleftrightarrow> (\<exists>rotation. chain_rotation p = Some rotation \<and>
    validate_succession cr rotation (chain_genesis c) = Inr empty_report \<and>
    (src_referrers src \<noteq> None \<longrightarrow> (\<exists>ds. successors cr rotation src = Inr (ds, None))))"

lemma same_blocks:
  assumes "ch_blocks c' = ch_blocks c"
  shows "chain_genesis c' = chain_genesis c" "chain_tip c' = chain_tip c" "chain_rotation c' = chain_rotation c"
  using assms by (simp_all add: chain_genesis_def chain_tip_def chain_rotation_def)

lemma history_from_Inr:
  assumes "history_from cr src opts i n previous tip_list = Some (Inr cs)"
  shows "list_all2 (\<lambda>tip c'. \<exists>c. validate_chain cr tip src opts = Some (Inr c) \<and> ch_blocks c' = ch_blocks c \<and> ch_pub c' = ch_pub c)
      tip_list cs \<and>
    (\<forall>k < length cs. k = 0 \<and> previous = None \<or>
      succeeds_chain cr src (if k = 0 then the previous else cs ! (k - 1)) (cs ! k))"
  using assms
proof (induction tip_list arbitrary: i previous cs)
  case (Cons tip tip_list)
  from Cons.prems obtain c c' cs' where c: "validate_chain cr tip src opts = Some (Inr c)"
    and j: "junction cr src i n previous c = Inr c'"
    and more: "history_from cr src opts (i + 1) n (Some c') tip_list = Some (Inr cs')" and cs: "cs = c' # cs'"
    by (auto simp: bindD_eq_Inr)
  have jc: "ch_blocks c' = ch_blocks c \<and> ch_pub c' = ch_pub c \<and> (previous = None \<or> succeeds_chain cr src (the previous) c')"
  proof (cases previous)
    case (Some p)
    from junction_Inr [OF j [unfolded Some]] obtain rotation where r: "chain_rotation p = Some rotation"
      "validate_succession cr rotation (chain_genesis c) = Inr empty_report" "ch_blocks c' = ch_blocks c" "ch_pub c' = ch_pub c"
      "src_referrers src \<noteq> None \<longrightarrow> (\<exists>ds. successors cr rotation src = Inr (ds, None))" by blast
    then have "succeeds_chain cr src p c'" unfolding succeeds_chain_def same_blocks(1) [OF r(3)] by blast
    then show ?thesis using r(3,4) Some by simp
  qed (use j in \<open>simp add: junction_def\<close>)
  from Cons.IH [OF more] have IH: "list_all2 (\<lambda>tip c'. \<exists>c. validate_chain cr tip src opts = Some (Inr c) \<and> ch_blocks c' = ch_blocks c \<and> ch_pub c' = ch_pub c)
      tip_list cs'" "\<forall>k < length cs'. succeeds_chain cr src (if k = 0 then c' else cs' ! (k - 1)) (cs' ! k)" by auto
  have "k = 0 \<and> previous = None \<or> succeeds_chain cr src (if k = 0 then the previous else cs ! (k - 1)) (cs ! k)"
    if "k < length cs" for k
    using that IH(2) jc by (cases k) (auto simp: cs nth_Cons' split: if_splits)
  then show ?case using c jc IH(1) by (auto simp: cs)
qed simp

text \<open>
  C29. A history \<open>ValidateHistory\<close> affirms has one chain per tip, each a chain of one author from its
  genesis block to that tip; every chain but the last ends in a rotation block that appoints the
  key of the next one, whose genesis block refers to it, and, where the source can be asked, no
  other block claims the succession.
\<close>

theorem validate_history_correct:
  assumes "validate_history cr tip_list src opts = Some (Inr cs)" and "verdicts_sound cr src"
  shows "length cs = length tip_list \<and>
    (\<forall>k < length cs. held_chain cr src (tip_list ! k) (ch_blocks (cs ! k)) \<and>
      (\<forall>b \<in> set (ch_blocks (cs ! k)). block_verify cr b = Inr () \<and> block_pub b = ch_pub (cs ! k))) \<and>
    (\<forall>k < length cs - 1. \<exists>new_key. next_public_key (cs ! k) = Some new_key \<and> digest_bytes new_key = ch_pub (cs ! Suc k) \<and>
      tip_list ! k \<in> set (block_refs (chain_genesis (cs ! Suc k))) \<and>
      (src_referrers src \<noteq> None \<longrightarrow> (\<exists>ds. successors cr (chain_tip (cs ! k)) src = Inr (ds, None))))"
proof -
  from assms(1) have "history_from cr src opts 0 (length tip_list) None tip_list = Some (Inr cs)"
    by (simp add: validate_history_def split: if_splits)
  note h = history_from_Inr [OF this]
  have len: "length cs = length tip_list" using h by (auto dest: list_all2_lengthD)
  have each: "held_chain cr src (tip_list ! k) (ch_blocks (cs ! k)) \<and> block_digest cr (chain_tip (cs ! k)) = tip_list ! k \<and>
      ch_pub (cs ! k) = block_pub (chain_genesis (cs ! k)) \<and>
      (\<forall>b \<in> set (ch_blocks (cs ! k)). block_verify cr b = Inr () \<and> block_pub b = ch_pub (cs ! k))" if k: "k < length cs" for k
  proof -
    obtain c where c: "validate_chain cr (tip_list ! k) src opts = Some (Inr c)" "ch_blocks (cs ! k) = ch_blocks c" "ch_pub (cs ! k) = ch_pub c"
      using h k len by (auto simp: list_all2_conv_all_nth)
    from validate_chain_correct [OF c(1) assms(2)] validate_chain_Inr [OF c(1) assms(2)] show ?thesis
      using same_blocks [OF c(2)] c(2,3) by (simp add: chain_genesis_def)
  qed
  have "\<exists>new_key. next_public_key (cs ! k) = Some new_key \<and> digest_bytes new_key = ch_pub (cs ! Suc k) \<and>
      tip_list ! k \<in> set (block_refs (chain_genesis (cs ! Suc k))) \<and>
      (src_referrers src \<noteq> None \<longrightarrow> (\<exists>ds. successors cr (chain_tip (cs ! k)) src = Inr (ds, None)))" if k: "k < length cs - 1" for k
  proof -
    have "succeeds_chain cr src (cs ! k) (cs ! Suc k)" using h k by (auto dest!: spec [of _ "Suc k"])
    then obtain rotation where r: "chain_rotation (cs ! k) = Some rotation"
      "validate_succession cr rotation (chain_genesis (cs ! Suc k)) = Inr empty_report"
      "src_referrers src \<noteq> None \<longrightarrow> (\<exists>ds. successors cr rotation src = Inr (ds, None))"
      unfolding succeeds_chain_def by blast
    have t: "rotation = chain_tip (cs ! k)" using r(1) by (simp add: chain_rotation_def split: if_splits)
    show ?thesis
      using r each [of k] each [of "Suc k"] k by (auto simp: t validate_succession_Inr next_public_key_def successor_genesis_def)
  qed
  then show ?thesis using len each by blast
qed

lemma accept_all_returns:
  assumes "wf (prev_links src)" and "0 \<le> scan_limit opts"
  shows "accept_all cr src opts bs r \<noteq> None"
proof (induction bs arbitrary: r)
  case (Cons b bs)
  have "validate cr b src opts \<noteq> None" using validate_references_returns [OF assms, of cr b]
    by (cases "validate_header cr b src") (simp_all add: validate_def)
  then have "accepted cr b src opts \<noteq> None" by (auto simp: accepted_def split: option.splits prod.splits)
  then show ?case using Cons.IH by (auto simp: bindD_eq_None)
qed simp

lemma validate_chain_returns:
  assumes "wf (prev_links src)" and "0 \<le> scan_limit opts"
  shows "validate_chain cr tip src opts \<noteq> None"
  using walk_returns accept_all_returns [OF assms] by (auto simp: validate_chain_def bindD_eq_None)

text \<open>
  The validation of a history returns when the scan limit is on and the predecessor links of
  the source are well-founded.
\<close>

theorem validate_history_returns:
  assumes "wf (prev_links src)" and "0 \<le> scan_limit opts"
  shows "validate_history cr tip_list src opts \<noteq> None"
proof -
  have "history_from cr src opts i n previous tip_list \<noteq> None" for i n previous
    using validate_chain_returns [OF assms] by (induction tip_list arbitrary: i previous) (auto simp: bindD_eq_None)
  then show ?thesis by (simp add: validate_history_def)
qed

section \<open>Witnesses\<close>

text \<open>A key's genesis and rotation block and the genesis block of the key it appoints.\<close>

definition succession_blocks :: "crypto \<Rightarrow> block \<Rightarrow> block \<Rightarrow> block \<Rightarrow> bool" where
  "succession_blocks cr g r h \<longleftrightarrow> sound_block cr g \<and> sound_block cr r \<and> sound_block cr h \<and>
    block_digest cr g = 1 \<and> block_digest cr r = 2 \<and> block_digest cr h = 3 \<and>
    block_prev g = None \<and> block_prev r = Some 1 \<and> block_prev h = None \<and> 2 \<in> set (block_refs h) \<and>
    c_type (blk_content g) = type_public \<and> c_type (blk_content r) = type_rotation \<and> c_type (blk_content h) = type_public \<and>
    same_author g r \<and> block_pub h \<noteq> block_pub g \<and>
    (\<exists>k. block_rotate_key r = Some k \<and> block_pub h = digest_bytes k)"

lemma succession_exists: "\<exists>cr g r h. succession_blocks cr g r h"
proof -
  let ?key = "replicate 64 8 :: byte list"
  let ?k = "digest_of_bytes (public_half ?key)"
  have k: "length sample_key = 64" "length ?key = 64" by (simp_all add: sample_key_def)
  have kb: "digest_bytes ?k = public_half ?key" by (simp add: digest_bytes_inverse public_half_def)
  have ne: "public_half ?key \<noteq> public_half sample_key" by (simp add: public_half_def sample_key_def)
  have small: "bulk (Array (map op_value [Create_atom water])) < 2 ^ 30" using sample_bulk(1) by simp
  have w: "\<forall>op \<in> set [Create_atom water]. wf_op op \<and> \<not> is_rotate_key op" using wf_water by (simp add: is_rotate_key_def)
  obtain g where g: "sound_block sample_crypto g" "decode_block sample_crypto (blk_enc g) = Inr g" "block_prev g = None"
    "block_pub g = public_half sample_key" "c_type (blk_content g) = type_public"
    using public_block [OF k(1) _ _ _ w small, of "[]" None] by auto
  obtain r where r: "sound_block sample_crypto r" "decode_block sample_crypto (blk_enc r) = Inr r" "block_prev r = Some 1"
    "block_ops r = [Rotate_key ?k]" "block_pub r = public_half sample_key" "c_type (blk_content r) = type_rotation"
    using rotation_block [OF k(1), of ?k 1] ne by (auto simp: kb)
  obtain h where h: "sound_block sample_crypto h" "decode_block sample_crypto (blk_enc h) = Inr h" "block_prev h = None"
    "block_refs h = [2]" "block_pub h = public_half ?key" "c_type (blk_content h) = type_public"
    using public_block [OF k(2) _ _ _ w small, of "[2]" None] by auto
  have "g \<noteq> r" "g \<noteq> h" "r \<noteq> h" using g(3,4) r(3) h(3,5) ne by auto
  then have enc: "blk_enc g \<noteq> blk_enc r" "blk_enc g \<noteq> blk_enc h" "blk_enc r \<noteq> blk_enc h" using g(2) r(2) h(2) by auto
  let ?cr = "sample_crypto\<lparr>sha256 := \<lambda>bs. if bs = blk_enc g then 1 else if bs = blk_enc r then 2
    else if bs = blk_enc h then 3 else 0\<rparr>"
  have rk: "block_rotate_key r = Some ?k" using r(4,6) by (simp add: block_rotate_key_def block_ops_def)
  have "block_digest ?cr g = 1" "block_digest ?cr r = 2" "block_digest ?cr h = 3"
    using enc by (simp_all add: block_digest_def sum_digest_def)
  then have "succession_blocks ?cr g r h"
    using g r h ne rk kb unfolding succession_blocks_def
    by (simp add: sound_sha256 same_author_def block_pub_def)
  then show ?thesis by blast
qed

definition succession_map :: "block \<Rightarrow> block \<Rightarrow> block \<Rightarrow> digest \<Rightarrow> block option" where
  "succession_map g r h = [1 \<mapsto> g, 2 \<mapsto> r, 3 \<mapsto> h]"

text \<open>A source that has accepted everything it holds.\<close>

definition accepting_source :: "(digest \<Rightarrow> block option) \<Rightarrow> source" where
  "accepting_source m = (map_source m)\<lparr>src_verdict := Some (\<lambda>_. (Verdict_valid, None))\<rparr>"

lemma accepting_source_simps [simp]:
  "src_block (accepting_source m) = src_block (map_source m)" "src_referrers (accepting_source m) = None"
  "accepted cr b (accepting_source m) opts = Some (Inr empty_report)"
  by (simp_all add: accepting_source_def accepted_def map_source_def)

lemma accepting_chain:
  assumes "held_chain cr (accepting_source m) tip bs"
  shows "\<exists>c. validate_chain cr tip (accepting_source m) opts = Some (Inr c) \<and> ch_blocks c = bs"
proof -
  obtain report where "accept_all cr (accepting_source m) opts bs empty_report = Some (Inr report)"
    using accept_all_total [of bs cr "accepting_source m" opts] by auto
  then show ?thesis using walk_complete [OF assms] by (simp add: validate_chain_def)
qed

lemma succession_held:
  assumes "succession_blocks cr g r h"
  shows "held_chain cr (accepting_source (succession_map g r h)) 2 [g, r]"
    and "held_chain cr (accepting_source (succession_map g r h)) 3 [h]"
    and "verdicts_sound cr (accepting_source (succession_map g r h))"
proof -
  note s = assms [unfolded succession_blocks_def]
  show "held_chain cr (accepting_source (succession_map g r h)) 2 [g, r]"
    "held_chain cr (accepting_source (succession_map g r h)) 3 [h]"
    using s by (simp_all add: held_chain_def succession_map_def)
  have "accepted_previous b (accepting_source (succession_map g r h)) \<and> block_verify cr b = Inr ()" if "b \<in> {g, r, h}" for b
    using that s type_names sound_verifies [of cr] by (auto simp: accepted_previous_def succession_map_def accepting_source_def)
  then show "verdicts_sound cr (accepting_source (succession_map g r h))"
    by (auto simp: verdicts_sound_def succession_map_def split: if_splits)
qed

theorem validate_chain_correct_witness:
  "\<exists>cr src c g r. validate_chain cr 2 src None = Some (Inr c) \<and> ch_blocks c = [g, r] \<and> block_pub g = ch_pub c \<and>
    c_type (blk_content r) = type_rotation \<and> c_type (blk_content g) \<noteq> type_rotation"
proof -
  obtain cr g r h where s: "succession_blocks cr g r h" using succession_exists by blast
  let ?src = "accepting_source (succession_map g r h)"
  obtain c where c: "validate_chain cr 2 ?src None = Some (Inr c)" "ch_blocks c = [g, r]"
    using accepting_chain [OF succession_held(1) [OF s]] by blast
  from validate_chain_correct [OF c(1) succession_held(3) [OF s]] c(2)
  have "block_pub g = ch_pub c \<and> c_type (blk_content g) \<noteq> type_rotation" by auto
  then show ?thesis using c s unfolding succession_blocks_def by blast
qed

theorem validate_history_correct_witness:
  "\<exists>cr src cs. validate_history cr [2, 3] src None = Some (Inr cs) \<and> length cs = 2 \<and>
    (\<exists>new_key. next_public_key (cs ! 0) = Some new_key \<and> digest_bytes new_key = ch_pub (cs ! 1))"
proof -
  obtain cr g r h where s: "succession_blocks cr g r h" using succession_exists by blast
  let ?src = "accepting_source (succession_map g r h)"
  obtain c where c: "validate_chain cr 2 ?src None = Some (Inr c)" "ch_blocks c = [g, r]"
    using accepting_chain [OF succession_held(1) [OF s]] by blast
  obtain c2 where c2: "validate_chain cr 3 ?src None = Some (Inr c2)" "ch_blocks c2 = [h]"
    using accepting_chain [OF succession_held(2) [OF s]] by blast
  note f = s [unfolded succession_blocks_def]
  have "chain_rotation c = Some r" using c(2) f by (simp add: chain_rotation_def chain_tip_def)
  moreover have "validate_succession cr r (chain_genesis c2) = Inr empty_report"
    using f c2(2) by (auto simp: validate_succession_Inr chain_genesis_def successor_genesis_def is_genesis_def block_prev_def)
  ultimately have "\<exists>cs. validate_history cr [2, 3] ?src None = Some (Inr cs)"
    using c(1) c2(1) by (simp add: validate_history_def junction_def Let_def)
  then obtain cs where cs: "validate_history cr [2, 3] ?src None = Some (Inr cs)" by blast
  from validate_history_correct [OF cs succession_held(3) [OF s]] cs show ?thesis by fastforce
qed

theorem successors_exact_witness:
  "\<exists>cr r h. store_ok cr (fst (add cr h new_mem_store)) \<and>
    (\<exists>ds conflict. successors cr r (store_source (fst (add cr h new_mem_store))) = Inr (ds, conflict) \<and> set ds = {block_digest cr h})"
proof -
  obtain cr g r h k where s: "succession_blocks cr g r h" and k: "block_rotate_key r = Some k" "block_pub h = digest_bytes k"
    using succession_exists unfolding succession_blocks_def by blast
  note f = s [unfolded succession_blocks_def]
  let ?s = "fst (add cr h new_mem_store)"
  have ok: "store_ok cr ?s" using add_ok [OF store_ok_empty] f by blast
  have held: "held ?s d = (if d = 3 then Some h else None)" for d using f by (simp add: add_held mem.get_none)
  have "validate_succession cr r h = Inr empty_report"
    using f k by (simp add: validate_succession_Inr successor_genesis_def is_genesis_def block_prev_def)
  then have "{d. \<exists>b. held ?s d = Some b \<and> validate_succession cr r b = Inr empty_report} = {block_digest cr h}"
    using f by (auto simp: held)
  with successors_exact [OF ok k(1)] ok show ?thesis by metis
qed

theorem validate_history_returns_witness:
  "validate_history sample_crypto [1] (map_source (\<lambda>_. None)) None \<noteq> None"
proof -
  have "prev_links (map_source (\<lambda>_. None)) = {}" by (simp add: prev_links_def)
  then have "wf (prev_links (map_source (\<lambda>_. None)))" by simp
  from validate_history_returns [OF this, of None sample_crypto "[1]"] show ?thesis
    by (simp add: scan_limit_def default_scan_limit_def)
qed

end
