(* ===== verification/Verdict_Store.thy ===== *)
theory Verdict_Store
  imports Chain
begin

text \<open>
  The store that validates each block as it arrives and keeps the verdict
  (\<open>go/block/verdict.go\<close>). It is a source itself, and validation reads it back. One operation
  runs at a time: the mutex and what two concurrent validations could do to each other are not
  represented. The two maps are only read and written by key, so they are functions.
\<close>

section \<open>The store and its operations\<close>

record verdict_entry =
  en_verdict :: verdict
  en_report :: "report option"
  en_pending :: "block_error option"

record admission =
  ad_digest :: digest
  ad_verdict :: verdict
  ad_duplicate :: bool
  ad_report :: "report option"
  ad_pending :: "block_error option"

record vstore =
  vs_blocks :: mem_store
  vs_opts :: "options option"
  vs_verdicts :: "digest \<Rightarrow> verdict_entry option"
  vs_waiting :: "digest \<Rightarrow> digest list"

definition new_vstore :: "options option \<Rightarrow> vstore" where
  "new_vstore opts = \<lparr>vs_blocks = new_mem_store, vs_opts = opts, vs_verdicts = (\<lambda>_. None), vs_waiting = (\<lambda>_. [])\<rparr>"

definition vs_verdict :: "vstore \<Rightarrow> digest \<Rightarrow> verdict \<times> report option" where
  "vs_verdict s d = (case vs_verdicts s d of None \<Rightarrow> (Verdict_unknown, None) | Some e \<Rightarrow> (en_verdict e, en_report e))"

definition vs_accepted :: "vstore \<Rightarrow> digest \<Rightarrow> bool" where
  "vs_accepted s d \<longleftrightarrow> fst (vs_verdict s d) = Verdict_valid"

definition vs_pending :: "vstore \<Rightarrow> digest \<Rightarrow> block_error option" where
  "vs_pending s d = (case vs_verdicts s d of None \<Rightarrow> None | Some e \<Rightarrow> en_pending e)"

text \<open>The store as the source it validates against.\<close>

definition vs_source :: "vstore \<Rightarrow> source" where
  "vs_source s = \<lparr>src_block = get_block (vs_blocks s), src_siblings = Some (blocks_with_prev (vs_blocks s)),
    src_referrers = Some (blocks_referencing (vs_blocks s)), src_verdict = Some (vs_verdict s)\<rparr>"

definition put_block :: "crypto \<Rightarrow> block \<Rightarrow> vstore \<Rightarrow> block_error + vstore" where
  "put_block cr b s =
    (case add cr b (vs_blocks s) of (blocks, err) \<Rightarrow>
      (case err of
         Some e \<Rightarrow> (case e of Fork_error f \<Rightarrow> Inr (s\<lparr>vs_blocks := blocks\<rparr>) | _ \<Rightarrow> Inl e)
       | None \<Rightarrow> Inr (s\<lparr>vs_blocks := blocks\<rparr>)))"

definition file_waiting :: "digest \<Rightarrow> digest \<Rightarrow> vstore \<Rightarrow> vstore" where
  "file_waiting awaited d s =
    (if d \<in> set (vs_waiting s awaited) then s
     else s\<lparr>vs_waiting := (vs_waiting s)(awaited := vs_waiting s awaited @ [d])\<rparr>)"

definition record_verdict :: "digest \<Rightarrow> verdict_entry \<Rightarrow> digest option \<Rightarrow> vstore \<Rightarrow> vstore" where
  "record_verdict d e awaited s =
    (if \<exists>e'. vs_verdicts s d = Some e' \<and> en_verdict e' = Verdict_valid then s
     else let s' = s\<lparr>vs_verdicts := (vs_verdicts s)(d \<mapsto> e)\<rparr> in
       case awaited of None \<Rightarrow> s' | Some a \<Rightarrow> file_waiting a d s')"

definition take_waiting :: "digest \<Rightarrow> vstore \<Rightarrow> vstore \<times> digest list" where
  "take_waiting d s = (s\<lparr>vs_waiting := (vs_waiting s)(d := [])\<rparr>, vs_waiting s d)"

text \<open>
  \<open>admit\<close> past the lookup of an accepted verdict: a rejection leaves the store as it was, an undecided
  block is stored and filed. Then the whole of it.
\<close>

definition admit_new :: "crypto \<Rightarrow> block \<Rightarrow> vstore \<Rightarrow> (block_error + vstore \<times> admission) option" where
  "admit_new cr b s =
    (let d = block_digest cr b in
     case validate cr b (vs_source s) (vs_opts s) of
       None \<Rightarrow> None
     | Some (Inl e) \<Rightarrow>
         if \<not> is_unvalidated e then Some (Inl e)
         else bindD (Some (put_block cr b s)) (\<lambda>s'.
           Some (Inr (record_verdict d \<lparr>en_verdict = Verdict_unvalidated, en_report = None, en_pending = Some e\<rparr> (awaiting e) s',
             \<lparr>ad_digest = d, ad_verdict = Verdict_unvalidated, ad_duplicate = False, ad_report = None, ad_pending = Some e\<rparr>)))
     | Some (Inr report) \<Rightarrow>
         bindD (Some (put_block cr b s)) (\<lambda>s'.
           Some (Inr (record_verdict d \<lparr>en_verdict = Verdict_valid, en_report = Some report, en_pending = None\<rparr> None s',
             \<lparr>ad_digest = d, ad_verdict = Verdict_valid, ad_duplicate = False, ad_report = Some report, ad_pending = None\<rparr>))))"

definition admit :: "crypto \<Rightarrow> block \<Rightarrow> vstore \<Rightarrow> (block_error + vstore \<times> admission) option" where
  "admit cr b s =
    (let d = block_digest cr b in
     case vs_verdict s d of (verdict, report) \<Rightarrow>
       if verdict = Verdict_valid then
         Some (Inr (s, \<lparr>ad_digest = d, ad_verdict = Verdict_valid, ad_duplicate = True, ad_report = report, ad_pending = None\<rparr>))
       else admit_new cr b s)"

text \<open>
  \<open>settle\<close>: the blocks that waited for an arrival are offered again, in the order they were filed,
  and those that become valid are arrivals in turn. An error of a re-offer is dropped.
\<close>

fun resettle :: "crypto \<Rightarrow> digest list \<Rightarrow> vstore \<times> digest list \<Rightarrow> (block_error + vstore \<times> digest list) option" where
  "resettle cr [] (s, queue) = Some (Inr (s, queue))"
| "resettle cr (d # ds) (s, queue) =
    (case get_block (vs_blocks s) d of
       Inl e \<Rightarrow> resettle cr ds (s, queue)
     | Inr b \<Rightarrow>
         (case admit cr b s of
            None \<Rightarrow> None
          | Some (Inl e) \<Rightarrow> resettle cr ds (s, queue)
          | Some (Inr (s', adm)) \<Rightarrow>
              resettle cr ds (s', if ad_verdict adm = Verdict_valid then queue @ [d] else queue)))"

definition settle_step :: "crypto \<Rightarrow> vstore \<times> digest list \<Rightarrow> (block_error + vstore \<times> digest list) option" where
  "settle_step cr = (\<lambda>(s, queue).
    case take_waiting (hd queue) s of (s', ds) \<Rightarrow> resettle cr ds (s', tl queue))"

definition settle :: "crypto \<Rightarrow> digest \<Rightarrow> vstore \<Rightarrow> (block_error + vstore \<times> digest list) option" where
  "settle cr arrived s = loopD (\<lambda>(s, queue). queue \<noteq> []) (settle_step cr) (s, [arrived])"

definition vs_add :: "crypto \<Rightarrow> block \<Rightarrow> vstore \<Rightarrow> (block_error + vstore \<times> admission) option" where
  "vs_add cr b s =
    bindD (admit cr b s) (\<lambda>(s', adm).
    if ad_duplicate adm then Some (Inr (s', adm))
    else bindD (settle cr (ad_digest adm) s') (\<lambda>(s'', queue). Some (Inr (s'', adm))))"

text \<open>\<open>AddAll\<close>: the store as it is left, and the first rejection.\<close>

fun vs_add_all :: "crypto \<Rightarrow> block list \<Rightarrow> vstore \<Rightarrow> (vstore \<times> block_error option) option" where
  "vs_add_all cr [] s = Some (s, None)"
| "vs_add_all cr (b # bs) s =
    (case vs_add cr b s of
       None \<Rightarrow> None
     | Some (Inl e) \<Rightarrow> Some (s, Some e)
     | Some (Inr (s', adm)) \<Rightarrow> vs_add_all cr bs s')"

section \<open>The invariant\<close>

abbreviation vs_held :: "vstore \<Rightarrow> digest \<Rightarrow> block option" where
  "vs_held s \<equiv> held (vs_blocks s)"

definition entry_ok :: "verdict_entry \<Rightarrow> bool" where
  "entry_ok e \<longleftrightarrow>
    en_verdict e = Verdict_valid \<and> en_report e \<noteq> None \<and> en_pending e = None \<or>
    en_verdict e = Verdict_unvalidated \<and> en_report e = None \<and> (\<exists>p. en_pending e = Some p \<and> is_unvalidated p)"

text \<open>
  The blocks offered are taken from a set \<open>B\<close> of sound blocks no two of which share a digest. Every
  held block has a verdict; an accepted one verifies and follows an accepted one, and the order
  in which blocks were accepted bounds the length of what is behind each; what waits is held.
\<close>

definition vs_ok :: "crypto \<Rightarrow> block set \<Rightarrow> vstore \<Rightarrow> bool" where
  "vs_ok cr B s \<longleftrightarrow> store_ok cr (vs_blocks s) \<and> ran (vs_held s) \<subseteq> B \<and>
    (\<forall>d. vs_verdicts s d = None \<longleftrightarrow> vs_held s d = None) \<and>
    (\<forall>d e. vs_verdicts s d = Some e \<longrightarrow> entry_ok e) \<and>
    (\<forall>d b. vs_accepted s d \<longrightarrow> vs_held s d = Some b \<longrightarrow> block_verify cr b = Inr () \<and> accepted_previous b (vs_source s)) \<and>
    (\<exists>rank :: digest \<Rightarrow> nat. \<forall>d b p. vs_accepted s d \<longrightarrow> vs_held s d = Some b \<longrightarrow> block_prev b = Some p \<longrightarrow> rank p < rank d) \<and>
    (\<forall>g. set (vs_waiting s g) \<subseteq> dom (vs_held s))"

text \<open>What never changes once it is there: the blocks held, and the accepted verdicts.\<close>

definition vs_grows :: "vstore \<Rightarrow> vstore \<Rightarrow> bool" where
  "vs_grows s t \<longleftrightarrow> vs_opts t = vs_opts s \<and> vs_held s \<subseteq>\<^sub>m vs_held t \<and>
    (\<forall>d e. vs_verdicts s d = Some e \<longrightarrow> en_verdict e = Verdict_valid \<longrightarrow> vs_verdicts t d = Some e)"

lemma vs_grows_refl [simp]: "vs_grows s s"
  by (simp add: vs_grows_def)

lemma vs_grows_trans: "vs_grows s t \<Longrightarrow> vs_grows t u \<Longrightarrow> vs_grows s u"
  unfolding vs_grows_def by (metis map_le_trans)

lemma vs_source_simps [simp]:
  "src_block (vs_source s) = get_block (vs_blocks s)" "src_verdict (vs_source s) = Some (vs_verdict s)"
  "src_siblings (vs_source s) = Some (blocks_with_prev (vs_blocks s))"
  "src_referrers (vs_source s) = Some (blocks_referencing (vs_blocks s))"
  by (simp_all add: vs_source_def)

lemma vs_accepted_iff: "vs_accepted s d \<longleftrightarrow> (\<exists>e. vs_verdicts s d = Some e \<and> en_verdict e = Verdict_valid)"
  by (auto simp: vs_accepted_def vs_verdict_def split: option.splits)

lemma vs_grows_accepted: "vs_grows s t \<Longrightarrow> vs_accepted s d \<Longrightarrow> vs_accepted t d"
  by (auto simp: vs_grows_def vs_accepted_iff)

lemma vs_grows_held: "vs_grows s t \<Longrightarrow> vs_held s d = Some b \<Longrightarrow> vs_held t d = Some b"
  by (auto simp: vs_grows_def map_le_def dom_def)

lemma vs_grows_previous: "vs_grows s t \<Longrightarrow> accepted_previous b (vs_source s) \<Longrightarrow> accepted_previous b (vs_source t)"
  using vs_grows_held [of s t] vs_grows_accepted [of s t]
  by (fastforce simp: accepted_previous_def get_block_Inr vs_accepted_def)

lemma vs_okD:
  assumes "vs_ok cr B s"
  shows "store_ok cr (vs_blocks s)" "vs_held s d = Some b \<Longrightarrow> b \<in> B" "vs_verdicts s d = None \<longleftrightarrow> vs_held s d = None"
    "vs_verdicts s d = Some e \<Longrightarrow> entry_ok e"
    "vs_accepted s d \<Longrightarrow> vs_held s d = Some b \<Longrightarrow> block_verify cr b = Inr () \<and> accepted_previous b (vs_source s)"
    "d \<in> set (vs_waiting s g) \<Longrightarrow> vs_held s d \<noteq> None"
  using assms by (auto simp: vs_ok_def ran_def)

lemma vs_ok_new: "vs_ok cr B (new_vstore opts)"
  by (simp add: vs_ok_def new_vstore_def store_ok_empty mem.get_none vs_accepted_iff ran_def)

lemma put_block_eq: "put_block cr b s = Inr (s\<lparr>vs_blocks := fst (add cr b (vs_blocks s))\<rparr>)"
  by (auto simp: put_block_def add_def Let_def split: prod.splits)

text \<open>The store after a verdict has been recorded for a block that had no accepted one.\<close>

definition decided :: "crypto \<Rightarrow> block \<Rightarrow> verdict_entry \<Rightarrow> digest option \<Rightarrow> vstore \<Rightarrow> vstore" where
  "decided cr b e awaited s = record_verdict (block_digest cr b) e awaited (s\<lparr>vs_blocks := fst (add cr b (vs_blocks s))\<rparr>)"

lemma decided_fields:
  assumes "\<not> vs_accepted s (block_digest cr b)"
  shows "vs_blocks (decided cr b e a s) = fst (add cr b (vs_blocks s))" "vs_opts (decided cr b e a s) = vs_opts s"
    "vs_verdicts (decided cr b e a s) = (vs_verdicts s)(block_digest cr b \<mapsto> e)"
    "set (vs_waiting (decided cr b e a s) g) =
      (if a = Some g then insert (block_digest cr b) (set (vs_waiting s g)) else set (vs_waiting s g))"
proof -
  have n: "\<not> (\<exists>e'. vs_verdicts s (block_digest cr b) = Some e' \<and> en_verdict e' = Verdict_valid)"
    using assms by (auto simp: vs_accepted_iff)
  show "vs_blocks (decided cr b e a s) = fst (add cr b (vs_blocks s))" "vs_opts (decided cr b e a s) = vs_opts s"
    "vs_verdicts (decided cr b e a s) = (vs_verdicts s)(block_digest cr b \<mapsto> e)"
    "set (vs_waiting (decided cr b e a s) g) =
      (if a = Some g then insert (block_digest cr b) (set (vs_waiting s g)) else set (vs_waiting s g))"
    using n by (auto simp: decided_def record_verdict_def file_waiting_def Let_def split: option.splits)
qed

lemma admit_cases:
  assumes "admit cr b s = Some (Inr (s', adm))"
  obtains (duplicate) "vs_accepted s (block_digest cr b)" "s' = s" "ad_duplicate adm" "ad_verdict adm = Verdict_valid"
      "ad_digest adm = block_digest cr b"
    | (undecided) e where "\<not> vs_accepted s (block_digest cr b)" "validate cr b (vs_source s) (vs_opts s) = Some (Inl e)"
      "is_unvalidated e" "ad_verdict adm = Verdict_unvalidated" "\<not> ad_duplicate adm" "ad_digest adm = block_digest cr b"
      "s' = decided cr b \<lparr>en_verdict = Verdict_unvalidated, en_report = None, en_pending = Some e\<rparr> (awaiting e) s"
    | (valid) report where "\<not> vs_accepted s (block_digest cr b)" "validate cr b (vs_source s) (vs_opts s) = Some (Inr report)"
      "ad_verdict adm = Verdict_valid" "\<not> ad_duplicate adm" "ad_digest adm = block_digest cr b"
      "s' = decided cr b \<lparr>en_verdict = Verdict_valid, en_report = Some report, en_pending = None\<rparr> None s"
proof (cases "vs_accepted s (block_digest cr b)")
  case True
  then show thesis using assms duplicate by (auto simp: admit_def vs_accepted_def Let_def split: prod.splits)
next
  case False
  then have n: "admit_new cr b s = Some (Inr (s', adm))"
    using assms by (auto simp: admit_def vs_accepted_def Let_def split: prod.splits)
  then obtain res where res: "validate cr b (vs_source s) (vs_opts s) = Some res"
    by (cases "validate cr b (vs_source s) (vs_opts s)") (auto simp: admit_new_def)
  show thesis
  proof (cases res)
    case (Inl e)
    then show thesis using False n res undecided
      by (auto simp: admit_new_def put_block_eq decided_def Let_def split: if_splits)
  next
    case (Inr report)
    then show thesis using False n res valid by (auto simp: admit_new_def put_block_eq decided_def Let_def)
  qed
qed

definition offered :: "crypto \<Rightarrow> block set \<Rightarrow> bool" where
  "offered cr B \<longleftrightarrow> (\<forall>b \<in> B. sound_block cr b) \<and> inj_on (block_digest cr) B"

lemma accepted_previousD:
  "accepted_previous b (vs_source s) \<Longrightarrow> block_prev b = Some p \<Longrightarrow> vs_accepted s p \<and> vs_held s p \<noteq> None"
  by (auto simp: accepted_previous_def get_block_Inr vs_accepted_def)

lemma decided_held:
  assumes "vs_ok cr B s" and "offered cr B" and "b \<in> B" and "\<not> vs_accepted s (block_digest cr b)"
  shows "vs_held (decided cr b e a s) = (vs_held s)(block_digest cr b \<mapsto> b)"
proof (rule ext)
  fix d
  have "x = b" if "vs_held s (block_digest cr b) = Some x" for x
    using vs_okD(1,2) [OF assms(1)] store_okD(1) that assms(2,3) unfolding offered_def inj_on_def by metis
  then show "vs_held (decided cr b e a s) d = ((vs_held s)(block_digest cr b \<mapsto> b)) d"
    by (auto simp: decided_fields [OF assms(4)] add_held)
qed

lemma decided_grows:
  assumes "vs_ok cr B s" and "offered cr B" and "b \<in> B" and "\<not> vs_accepted s (block_digest cr b)"
  shows "vs_grows s (decided cr b e a s)"
proof -
  have "vs_held s \<subseteq>\<^sub>m vs_held (decided cr b e a s)"
    by (auto simp: map_le_def decided_fields [OF assms(4)] add_held dom_def)
  then show ?thesis
    using assms(4) by (auto simp: vs_grows_def decided_fields [OF assms(4)] vs_accepted_iff)
qed

lemma decided_accepted:
  assumes "\<not> vs_accepted s (block_digest cr b)"
  shows "vs_accepted (decided cr b e a s) d \<longleftrightarrow> vs_accepted s d \<or> d = block_digest cr b \<and> en_verdict e = Verdict_valid"
  using assms by (auto simp: vs_accepted_iff decided_fields [OF assms])

lemma decided_ok:
  assumes "vs_ok cr B s" and "offered cr B" and "b \<in> B" and n: "\<not> vs_accepted s (block_digest cr b)"
    and "entry_ok e" and fit: "en_verdict e = Verdict_valid \<Longrightarrow> block_verify cr b = Inr () \<and> accepted_previous b (vs_source s)"
  shows "vs_ok cr B (decided cr b e a s)"
proof -
  let ?s = "decided cr b e a s" and ?d = "block_digest cr b"
  note h = decided_held [OF assms(1-4), of e a] and f = decided_fields [OF n, of e a]
    and acc = decided_accepted [OF n, of e a] and g = decided_grows [OF assms(1-4), of e a]
  note ok = vs_okD [OF assms(1)]
  have "store_ok cr (vs_blocks ?s)"
    using add_ok [OF ok(1)] assms(2,3) by (simp add: f offered_def)
  moreover have "ran (vs_held ?s) \<subseteq> B" using ok(2) assms(3) by (auto simp: h ran_def split: if_splits)
  moreover have "\<forall>d. vs_verdicts ?s d = None \<longleftrightarrow> vs_held ?s d = None" using ok(3) by (simp add: h f(3))
  moreover have "\<forall>d x. vs_verdicts ?s d = Some x \<longrightarrow> entry_ok x" using ok(4) assms(5) by (auto simp: f)
  moreover have "\<forall>d x. vs_accepted ?s d \<longrightarrow> vs_held ?s d = Some x \<longrightarrow> block_verify cr x = Inr () \<and> accepted_previous x (vs_source ?s)"
    using ok(5) fit vs_grows_previous [OF g] n by (auto simp: h acc split: if_splits)
  moreover have "\<exists>rank :: digest \<Rightarrow> nat. \<forall>d x p. vs_accepted ?s d \<longrightarrow> vs_held ?s d = Some x \<longrightarrow> block_prev x = Some p \<longrightarrow> rank p < rank d"
  proof -
    obtain rank :: "digest \<Rightarrow> nat" where rank: "\<And>d x p. vs_accepted s d \<Longrightarrow> vs_held s d = Some x \<Longrightarrow> block_prev x = Some p \<Longrightarrow> rank p < rank d"
      using assms(1) unfolding vs_ok_def by blast
    let ?rank = "rank(?d := (case block_prev b of None \<Rightarrow> 0 | Some p \<Rightarrow> Suc (rank p)))"
    have "?rank p < ?rank d" if "vs_accepted ?s d" "vs_held ?s d = Some x" "block_prev x = Some p" for d x p
    proof (cases "d = ?d")
      case True
      then have "x = b" "en_verdict e = Verdict_valid" using that n by (auto simp: h acc)
      then have "p \<noteq> ?d" using fit that(3) accepted_previousD n by blast
      then show ?thesis using True that(3) \<open>x = b\<close> by simp
    next
      case False
      then have x: "vs_accepted s d" "vs_held s d = Some x" using that by (auto simp: h acc)
      then have "p \<noteq> ?d" using ok(5) that(3) accepted_previousD n by blast
      then show ?thesis using rank [OF x that(3)] False by simp
    qed
    then show ?thesis by blast
  qed
  moreover have "\<forall>w. set (vs_waiting ?s w) \<subseteq> dom (vs_held ?s)" using ok(6) by (fastforce simp: h f(4) split: if_splits)
  ultimately show ?thesis unfolding vs_ok_def by blast
qed

lemma admit_ok:
  assumes "vs_ok cr B s" and "offered cr B" and "b \<in> B" and "admit cr b s = Some (Inr (s', adm))"
  shows "vs_ok cr B s' \<and> vs_grows s s' \<and> vs_held s' (block_digest cr b) = Some b"
  using assms(4)
proof (cases rule: admit_cases)
  case duplicate
  then obtain x where "vs_held s (block_digest cr b) = Some x"
    using vs_okD(3) [OF assms(1), of "block_digest cr b"] by (auto simp: vs_accepted_iff)
  moreover from this have "x = b"
    using vs_okD(1,2) [OF assms(1)] store_okD(1) assms(2,3) unfolding offered_def inj_on_def by metis
  ultimately show ?thesis using duplicate assms(1) by simp
next
  case (undecided e)
  have "vs_ok cr B s'"
    unfolding undecided(7) using undecided(3) by (intro decided_ok [OF assms(1-3) undecided(1)]) (simp_all add: entry_ok_def)
  then show ?thesis
    using undecided(1,7) decided_grows [OF assms(1-3)] decided_held [OF assms(1-3)] by simp
next
  case (valid report)
  have "vs_ok cr B s'"
    unfolding valid(6) using validated [OF valid(2)] by (intro decided_ok [OF assms(1-3) valid(1)]) (simp_all add: entry_ok_def)
  then show ?thesis
    using valid(1,6) decided_grows [OF assms(1-3)] decided_held [OF assms(1-3)] by simp
qed

lemma take_ok: "vs_ok cr B s \<Longrightarrow> vs_ok cr B (fst (take_waiting d s)) \<and> vs_grows s (fst (take_waiting d s))"
  by (simp add: take_waiting_def vs_ok_def vs_grows_def vs_accepted_iff vs_source_def vs_verdict_def [abs_def])

text \<open>A property of the store that taking and admitting held blocks keeps, through the whole of \<open>settle\<close>.\<close>

lemma resettle_rule:
  assumes "resettle cr ds (s, queue) = Some (Inr (s', queue'))" and "I s queue"
    and step: "\<And>s queue d b t adm. I s queue \<Longrightarrow> d \<in> set ds \<Longrightarrow> get_block (vs_blocks s) d = Inr b \<Longrightarrow> admit cr b s = Some (Inr (t, adm)) \<Longrightarrow>
      I t (if ad_verdict adm = Verdict_valid then queue @ [d] else queue)"
  shows "I s' queue'"
  using assms
proof (induction ds arbitrary: s queue)
  case (Cons d ds)
  show ?case
  proof (cases "get_block (vs_blocks s) d")
    case (Inl e)
    then show ?thesis using Cons by simp
  next
    case (Inr b)
    then obtain res where res: "admit cr b s = Some res" using Cons.prems(1) by (cases "admit cr b s") auto
    show ?thesis
    proof (cases res)
      case (Inl e)
      then show ?thesis using Cons Inr res by simp
    next
      case (Inr y)
      obtain t adm where y: "y = (t, adm)" by (cases y)
      have "I t (if ad_verdict adm = Verdict_valid then queue @ [d] else queue)"
        using Cons.prems(3) [OF Cons.prems(2)] \<open>get_block (vs_blocks s) d = Inr b\<close> res Inr y by simp
      moreover have "resettle cr ds (t, if ad_verdict adm = Verdict_valid then queue @ [d] else queue) = Some (Inr (s', queue'))"
        using Cons.prems(1) \<open>get_block (vs_blocks s) d = Inr b\<close> res Inr y by simp
      ultimately show ?thesis using Cons.IH Cons.prems(3) by simp
    qed
  qed
qed simp

lemma settle_rule:
  assumes "settle cr d s = Some (Inr (s', queue'))" and "I s [d]"
    and tk: "\<And>s x queue. I s (x # queue) \<Longrightarrow> J x (fst (take_waiting x s)) queue"
    and adm: "\<And>s x queue d b t adm. J x s queue \<Longrightarrow> get_block (vs_blocks s) d = Inr b \<Longrightarrow> admit cr b s = Some (Inr (t, adm)) \<Longrightarrow>
      J x t (if ad_verdict adm = Verdict_valid then queue @ [d] else queue)"
    and next_turn: "\<And>s x queue. J x s queue \<Longrightarrow> I s queue"
  shows "I s' []"
proof -
  have "(\<lambda>(s, queue). I s queue) (s', queue') \<and> \<not> (\<lambda>(s, queue). queue \<noteq> []) (s', queue')"
  proof (rule loopD_rule [OF assms(1) [unfolded settle_def]])
    fix t t' assume I: "(\<lambda>(s, queue). I s queue) t" and p: "(\<lambda>(s, queue). queue \<noteq> []) t" and f: "settle_step cr t = Some (Inr t')"
    obtain u x queue where t: "t = (u, x # queue)" using p by (cases t; cases "snd t") auto
    obtain u' queue' where t': "t' = (u', queue')" by (cases t')
    have "resettle cr (vs_waiting u x) (fst (take_waiting x u), queue) = Some (Inr (u', queue'))"
      using f by (simp add: t t' settle_step_def take_waiting_def)
    moreover have "J x (fst (take_waiting x u)) queue" using tk I by (simp add: t)
    ultimately have "J x u' queue'" by (rule resettle_rule) (rule adm)
    then show "(\<lambda>(s, queue). I s queue) t'" using next_turn by (simp add: t')
  qed (use assms(2) in simp)
  then show ?thesis by auto
qed

lemma vs_add_Inr:
  assumes "vs_add cr b s = Some (Inr (s', adm))"
  obtains (duplicate) "admit cr b s = Some (Inr (s', adm))" "ad_duplicate adm"
    | (settled) t queue where "admit cr b s = Some (Inr (t, adm))" "\<not> ad_duplicate adm"
      "settle cr (ad_digest adm) t = Some (Inr (s', queue))"
  using assms by (auto simp: vs_add_def bindD_eq_Inr split: if_splits)

lemma get_block_member:
  "vs_ok cr B s \<Longrightarrow> get_block (vs_blocks s) d = Inr b \<Longrightarrow> b \<in> B \<and> block_digest cr b = d"
  using vs_okD(2) [of cr B s d b] store_okD(1) [OF vs_okD(1)] by (simp add: get_block_Inr)

lemma vs_add_ok:
  assumes "vs_ok cr B s" and "offered cr B" and "b \<in> B" and "vs_add cr b s = Some (Inr (s', adm))"
  shows "vs_ok cr B s' \<and> vs_grows s s' \<and> vs_held s' (block_digest cr b) = Some b"
  using assms(4)
proof (cases rule: vs_add_Inr)
  case duplicate
  then show ?thesis using admit_ok [OF assms(1-3)] by blast
next
  case (settled t queue)
  let ?I = "\<lambda>u queue. vs_ok cr B u \<and> vs_grows t u"
  have t: "vs_ok cr B t \<and> vs_grows s t \<and> vs_held t (block_digest cr b) = Some b"
    using admit_ok [OF assms(1-3) settled(1)] .
  have "?I s' []"
  proof (rule settle_rule [where I = ?I and J = "\<lambda>_. ?I", OF settled(3)])
    show "?I t [ad_digest adm]" using t by simp
    fix u x q show "?I u (x # q) \<Longrightarrow> ?I (fst (take_waiting x u)) q" using take_ok vs_grows_trans by blast
    fix d c v adm' assume "?I u q" "get_block (vs_blocks u) d = Inr c" "admit cr c u = Some (Inr (v, adm'))"
    then show "?I v (if ad_verdict adm' = Verdict_valid then q @ [d] else q)"
      using admit_ok assms(2) get_block_member vs_grows_trans by blast
  qed
  then show ?thesis using t vs_grows_trans vs_grows_held by blast
qed

section \<open>What waits\<close>

text \<open>
  Nothing is filed under an accepted block that is not about to be settled, and an undecided block
  is filed under the one it awaits as long as that one is not held.
\<close>

definition filed_ok :: "vstore \<Rightarrow> digest list \<Rightarrow> bool" where
  "filed_ok s queue \<longleftrightarrow>
    (\<forall>g. vs_accepted s g \<longrightarrow> vs_waiting s g = [] \<or> g \<in> set queue) \<and>
    (\<forall>d p g. vs_pending s d = Some p \<longrightarrow> awaiting p = Some g \<longrightarrow> d \<in> set (vs_waiting s g) \<or> vs_held s g \<noteq> None) \<and>
    (\<forall>g \<in> set queue. vs_held s g \<noteq> None)"

lemma filed_ok_new: "filed_ok (new_vstore opts) []"
  by (simp add: filed_ok_def new_vstore_def vs_accepted_iff vs_pending_def)

lemma plain_vs_source: "plain_source (vs_source s)"
  by (simp add: plain_source_def get_block_def split: option.splits)

text \<open>An undecided block waits for one that has not been accepted.\<close>

lemma awaited_unaccepted:
  assumes "vs_ok cr B s" and "plain_decrypter opts" and "validate cr b (vs_source s) opts = Some (Inl e)"
    and "is_unvalidated e" and "awaiting e = Some g"
  shows "\<not> vs_accepted s g"
proof -
  have "find_pending e = Some (g, False)" using assms(5) by (auto simp: awaiting_def split: option.splits if_splits)
  with undecided_pending [OF assms(3,4) plain_vs_source assms(2)]
  have "unobtainable (vs_source s) g \<or> (\<exists>v. src_verdict (vs_source s) = Some v \<and> fst (v g) \<noteq> Verdict_valid)"
    by (auto simp: missing_block_def)
  then show ?thesis
    using vs_okD(3) [OF assms(1), of g]
    by (auto simp: unobtainable_def get_block_def held_def vs_accepted_def vs_verdict_def split: option.splits)
qed

lemma awaiting_filed:
  assumes "\<not> vs_accepted s (block_digest cr b)" and "filed_ok s queue" and "en_verdict x = Verdict_valid \<Longrightarrow> block_digest cr b \<in> set queue'"
    and "a \<noteq> None \<Longrightarrow> en_verdict x \<noteq> Verdict_valid \<and> \<not> vs_accepted s (the a)" and "set queue \<subseteq> set queue'"
    and "\<And>p. en_pending x = Some p \<Longrightarrow> awaiting p = a" and "\<forall>g \<in> set queue'. vs_held (decided cr b x a s) g \<noteq> None"
    and "vs_held s \<subseteq>\<^sub>m vs_held (decided cr b x a s)"
  shows "filed_ok (decided cr b x a s) queue'"
proof -
  let ?s = "decided cr b x a s"
  note f = decided_fields [OF assms(1), of x a] and acc = decided_accepted [OF assms(1), of x a]
  have w: "vs_waiting ?s g = [] \<longleftrightarrow> vs_waiting s g = []" if "a \<noteq> Some g" for g
    using f(4) [of g] that by (metis set_empty2)
  have "vs_waiting ?s g = [] \<or> g \<in> set queue'" if g: "vs_accepted ?s g" for g
  proof (cases "vs_accepted s g")
    case True
    then have "vs_waiting s g = [] \<or> g \<in> set queue" using assms(2) by (simp add: filed_ok_def)
    moreover have "a \<noteq> Some g" using True assms(4) by auto
    ultimately show ?thesis using w assms(5) by blast
  next
    case False
    then show ?thesis using g assms(3) acc by auto
  qed
  moreover have "d \<in> set (vs_waiting ?s g) \<or> vs_held ?s g \<noteq> None"
    if p: "vs_pending ?s d = Some p" "awaiting p = Some g" for d p g
  proof (cases "d = block_digest cr b")
    case True
    then have "awaiting p = a" using p(1) assms(6) by (simp add: vs_pending_def f(3))
    then show ?thesis using p(2) True f(4) [of g] by simp
  next
    case False
    then have "d \<in> set (vs_waiting s g) \<or> vs_held s g \<noteq> None"
      using p assms(2) by (auto simp: filed_ok_def vs_pending_def f(3))
    then show ?thesis
    proof
      assume "vs_held s g \<noteq> None"
      then obtain y where "vs_held s g = Some y" by blast
      then have "vs_held ?s g = Some y" using assms(8) by (auto simp: map_le_def dom_def)
      then show ?thesis by simp
    qed (use f(4) [of g] in auto)
  qed
  ultimately show ?thesis using assms(7) unfolding filed_ok_def by blast
qed

lemma admit_filed:
  assumes "vs_ok cr B s" and "offered cr B" and "b \<in> B" and "plain_decrypter (vs_opts s)" and "filed_ok s queue"
    and "admit cr b s = Some (Inr (s', adm))"
  shows "filed_ok s' (queue @ [block_digest cr b]) \<and> (ad_verdict adm \<noteq> Verdict_valid \<longrightarrow> filed_ok s' queue)"
proof -
  note ok = admit_ok [OF assms(1-3,6)]
  have q: "\<forall>g \<in> set (queue @ [block_digest cr b]). vs_held s' g \<noteq> None"
    using assms(5) ok vs_grows_held [of s s'] unfolding filed_ok_def by fastforce
  have le: "vs_held s \<subseteq>\<^sub>m vs_held s'" using ok by (simp add: vs_grows_def)
  show ?thesis
    using assms(6)
  proof (cases rule: admit_cases)
    case duplicate
    then show ?thesis using assms(5) q by (auto simp: filed_ok_def)
  next
    case (undecided e)
    have u: "\<not> vs_accepted s (the (awaiting e))" if "awaiting e \<noteq> None"
      using awaited_unaccepted [OF assms(1,4) undecided(2,3)] that by auto
    have "filed_ok s' queue'" if "queue' = queue \<or> queue' = queue @ [block_digest cr b]" for queue'
      unfolding undecided(7) using u q le that
      by (intro awaiting_filed [OF undecided(1) assms(5)]) (auto simp: undecided(7))
    then show ?thesis by blast
  next
    case (valid report)
    have "filed_ok s' (queue @ [block_digest cr b])"
      unfolding valid(6) using q le by (intro awaiting_filed [OF valid(1) assms(5)]) (auto simp: valid(6))
    then show ?thesis using valid(3) by simp
  qed
qed

lemma take_filed: "filed_ok s (x # queue) \<Longrightarrow> filed_ok (fst (take_waiting x s)) queue"
  by (auto simp: filed_ok_def take_waiting_def vs_accepted_iff vs_pending_def)

lemma vs_add_filed:
  assumes "vs_ok cr B s" and "offered cr B" and "b \<in> B" and "plain_decrypter (vs_opts s)" and "filed_ok s []"
    and "vs_add cr b s = Some (Inr (s', adm))"
  shows "filed_ok s' []"
  using assms(6)
proof (cases rule: vs_add_Inr)
  case duplicate
  from duplicate(1) show ?thesis
    by (cases rule: admit_cases) (use duplicate(2) assms(5) in simp_all)
next
  case (settled t queue)
  let ?I = "\<lambda>u q. vs_ok cr B u \<and> vs_opts u = vs_opts s \<and> filed_ok u q"
  have t: "vs_ok cr B t" "vs_grows s t" using admit_ok [OF assms(1-3) settled(1)] by auto
  have d: "ad_digest adm = block_digest cr b" using settled(1) by (cases rule: admit_cases) simp_all
  have "?I s' []"
  proof (rule settle_rule [where I = ?I and J = "\<lambda>_. ?I", OF settled(3)])
    show "?I t [ad_digest adm]"
      using t admit_filed [OF assms(1-5) settled(1)] by (simp add: d vs_grows_def)
    fix u x q assume "?I u (x # q)"
    then show "?I (fst (take_waiting x u)) q" using take_ok [of cr B u x] take_filed by (auto simp: vs_grows_def)
  next
    fix u q d c v adm' assume u: "?I u q" and g: "get_block (vs_blocks u) d = Inr c" and a: "admit cr c u = Some (Inr (v, adm'))"
    have c: "c \<in> B" "block_digest cr c = d" using get_block_member [OF _ g] u by blast+
    have "plain_decrypter (vs_opts u)" using u assms(4) by simp
    from admit_filed [OF _ assms(2) c(1) this _ a, of q] u admit_ok [OF _ assms(2) c(1) a]
    show "?I v (if ad_verdict adm' = Verdict_valid then q @ [d] else q)"
      by (auto simp: c(2) vs_grows_def)
  qed
  then show ?thesis by blast
qed

section \<open>Settling ends\<close>

definition offered_links :: "crypto \<Rightarrow> block set \<Rightarrow> (digest \<times> digest) set" where
  "offered_links cr B = {(p, d). \<exists>b \<in> B. block_digest cr b = d \<and> block_prev b = Some p}"

lemma vs_links: "vs_ok cr B s \<Longrightarrow> prev_links (vs_source s) \<subseteq> offered_links cr B"
  using get_block_member by (fastforce simp: prev_links_def offered_links_def)

lemma admit_returns:
  assumes "vs_ok cr B s" and "wf (offered_links cr B)" and "0 \<le> scan_limit (vs_opts s)"
  shows "admit cr b s \<noteq> None"
proof -
  have "wf (prev_links (vs_source s))" using assms(2) vs_links [OF assms(1)] by (rule wf_subset)
  then have "validate cr b (vs_source s) (vs_opts s) \<noteq> None"
    using validate_references_returns [of "vs_source s" "vs_opts s" cr b] assms(3)
    by (cases "validate_header cr b (vs_source s)") (simp_all add: validate_def)
  then have "admit_new cr b s \<noteq> None"
    by (auto simp: admit_new_def Let_def put_block_eq split: option.splits sum.splits)
  then show ?thesis by (auto simp: admit_def Let_def split: prod.splits)
qed

text \<open>The entries filed for accepted blocks: each can put its block in the queue once more.\<close>

definition stale :: "vstore \<Rightarrow> nat" where
  "stale s = (\<Sum>g\<in>UNIV. length (filter (vs_accepted s) (vs_waiting s g)))"

definition accepted_set :: "vstore \<Rightarrow> digest set" where
  "accepted_set s = {d. vs_accepted s d}"

lemma stale_file:
  assumes "\<not> vs_accepted s d"
  shows "stale (file_waiting a d s) = stale s"
proof -
  have "vs_accepted (file_waiting a d s) = vs_accepted s"
    by (rule ext) (simp add: file_waiting_def vs_accepted_iff)
  then show ?thesis using assms by (auto simp: stale_def file_waiting_def intro!: sum.cong)
qed

lemma admit_progress:
  assumes "vs_ok cr B s" and "offered cr B" and "b \<in> B" and "admit cr b s = Some (Inr (s', adm))"
  shows "accepted_set s \<subset> accepted_set s' \<or> accepted_set s' = accepted_set s \<and> stale s' = stale s \<and>
    (ad_verdict adm = Verdict_valid \<longleftrightarrow> vs_accepted s (block_digest cr b))"
  using assms(4)
proof (cases rule: admit_cases)
  case (undecided e)
  let ?x = "\<lparr>en_verdict = Verdict_unvalidated, en_report = None, en_pending = Some e\<rparr>"
  let ?t = "s\<lparr>vs_blocks := fst (add cr b (vs_blocks s)), vs_verdicts := (vs_verdicts s)(block_digest cr b \<mapsto> ?x)\<rparr>"
  have acc: "vs_accepted ?t = vs_accepted s"
    using undecided(1) by (intro ext) (auto simp: vs_accepted_iff)
  have s': "s' = (case awaiting e of None \<Rightarrow> ?t | Some a \<Rightarrow> file_waiting a (block_digest cr b) ?t)"
    using undecided(1) by (auto simp: undecided(7) decided_def record_verdict_def vs_accepted_iff Let_def)
  have "stale ?t = stale s" unfolding stale_def acc by simp
  moreover have "\<not> vs_accepted ?t (block_digest cr b)" using undecided(1) acc by simp
  ultimately have "stale s' = stale s" using stale_file [of ?t "block_digest cr b"] by (auto simp: s' split: option.splits)
  moreover have "accepted_set s' = accepted_set s"
    using decided_accepted [OF undecided(1), of ?x "awaiting e"] by (auto simp: accepted_set_def undecided(7))
  ultimately show ?thesis using undecided(1,4) by simp
next
  case (valid report)
  have "accepted_set s' = insert (block_digest cr b) (accepted_set s)"
    using decided_accepted [OF valid(1), of "\<lparr>en_verdict = Verdict_valid, en_report = Some report, en_pending = None\<rparr>" None]
    by (auto simp: accepted_set_def valid(6))
  then show ?thesis using valid(1) by (auto simp: accepted_set_def)
qed simp

lemma resettle_returns:
  assumes "vs_ok cr B s" and "offered cr B" and "wf (offered_links cr B)" and "0 \<le> scan_limit (vs_opts s)"
  shows "\<exists>s' queue'. resettle cr ds (s, queue) = Some (Inr (s', queue')) \<and> vs_ok cr B s' \<and> vs_opts s' = vs_opts s \<and>
    (accepted_set s \<subset> accepted_set s' \<or> accepted_set s' = accepted_set s \<and> stale s' = stale s \<and>
      length queue' = length queue + length (filter (vs_accepted s) ds))"
  using assms(1,4)
proof (induction ds arbitrary: s queue)
  case (Cons d ds)
  show ?case
  proof (cases "get_block (vs_blocks s) d")
    case (Inl e)
    then have "\<not> vs_accepted s d" using vs_okD(3) [OF Cons.prems(1), of d]
      by (auto simp: vs_accepted_iff get_block_def held_def split: option.splits)
    then show ?thesis using Cons Inl by simp
  next
    case (Inr b)
    note b = get_block_member [OF Cons.prems(1) Inr]
    obtain res where res: "admit cr b s = Some res" using admit_returns [OF Cons.prems(1) assms(3) Cons.prems(2)] by blast
    show ?thesis
    proof (cases res)
      case (Inl e)
      then have "\<not> vs_accepted s d" using res b by (auto simp: admit_def vs_accepted_def Let_def split: prod.splits if_splits)
      then show ?thesis using Cons.IH [OF Cons.prems] Inl res \<open>get_block (vs_blocks s) d = Inr b\<close> by simp
    next
      case (Inr y)
      obtain t adm where y: "y = (t, adm)" by (cases y)
      have a: "admit cr b s = Some (Inr (t, adm))" using res Inr y by simp
      have t: "vs_ok cr B t" "vs_opts t = vs_opts s" "accepted_set s \<subseteq> accepted_set t"
        using admit_ok [OF Cons.prems(1) assms(2) _ a] b vs_grows_accepted by (auto simp: vs_grows_def accepted_set_def)
      obtain s' queue' where r: "resettle cr ds (t, if ad_verdict adm = Verdict_valid then queue @ [d] else queue) = Some (Inr (s', queue'))"
        "vs_ok cr B s'" "vs_opts s' = vs_opts t"
        and p: "accepted_set t \<subset> accepted_set s' \<or> accepted_set s' = accepted_set t \<and> stale s' = stale t \<and>
          length queue' = length (if ad_verdict adm = Verdict_valid then queue @ [d] else queue) + length (filter (vs_accepted t) ds)"
        using Cons.IH [OF t(1), of "if ad_verdict adm = Verdict_valid then queue @ [d] else queue"] Cons.prems(2) t(2) by auto
      have same: "vs_accepted t = vs_accepted s" if "accepted_set t = accepted_set s"
        using that by (auto simp: accepted_set_def fun_eq_iff)
      have bB: "b \<in> B" and bd: "block_digest cr b = d" using b by auto
      have "accepted_set s \<subset> accepted_set s' \<or> accepted_set s' = accepted_set s \<and> stale s' = stale s \<and>
          length queue' = length queue + length (filter (vs_accepted s) (d # ds))"
        using admit_progress [OF Cons.prems(1) assms(2) bB a]
      proof
        assume "accepted_set s \<subset> accepted_set t"
        then have "accepted_set s \<subset> accepted_set s'" using p by (elim disjE) (auto simp: psubset_eq)
        then show ?thesis ..
      next
        assume e: "accepted_set t = accepted_set s \<and> stale t = stale s \<and>
          (ad_verdict adm = Verdict_valid \<longleftrightarrow> vs_accepted s (block_digest cr b))"
        then have "vs_accepted t = vs_accepted s" using same by blast
        then show ?thesis using p e bd by (elim disjE) simp_all
      qed
      then show ?thesis using r t(2) a \<open>get_block (vs_blocks s) d = Inr b\<close> by simp
    qed
  qed
qed simp

lemma stale_take:
  fixes x :: digest
  shows "vs_accepted (fst (take_waiting x s)) = vs_accepted s" "accepted_set (fst (take_waiting x s)) = accepted_set s"
  "stale s = stale (fst (take_waiting x s)) + length (filter (vs_accepted s) (vs_waiting s x))"
proof -
  show acc: "vs_accepted (fst (take_waiting x s)) = vs_accepted s"
    by (rule ext) (simp add: take_waiting_def vs_accepted_iff)
  then show "accepted_set (fst (take_waiting x s)) = accepted_set s" by (simp add: accepted_set_def)
  have fin: "finite (UNIV :: digest set)" by simp
  have "stale (fst (take_waiting x s)) = (\<Sum>g\<in>UNIV - {x}. length (filter (vs_accepted s) (vs_waiting s g)))"
    unfolding stale_def acc by (subst sum.remove [OF fin UNIV_I, of _ x]) (simp add: take_waiting_def)
  then show "stale s = stale (fst (take_waiting x s)) + length (filter (vs_accepted s) (vs_waiting s x))"
    unfolding stale_def [of s] by (subst sum.remove [OF fin UNIV_I, of _ x]) simp
qed

lemma settle_returns:
  assumes "vs_ok cr B s" and "offered cr B" and "wf (offered_links cr B)" and "0 \<le> scan_limit (vs_opts s)"
  shows "settle cr d s \<noteq> None"
  unfolding settle_def
proof (rule loopD_returns [where I = "\<lambda>(u, q). vs_ok cr B u \<and> vs_opts u = vs_opts s"
      and R = "inv_image (less_than <*lex*> less_than) (\<lambda>(u, q). (card (- accepted_set u), stale u + length q))"])
  fix t :: "vstore \<times> digest list" assume I: "case t of (u, q) \<Rightarrow> vs_ok cr B u \<and> vs_opts u = vs_opts s" and p: "case t of (u, queue) \<Rightarrow> queue \<noteq> []"
  obtain u :: vstore and x :: digest and q where t: "t = (u, x # q)" using p by (cases t; cases "snd t") auto
  let ?u = "fst (take_waiting x u)"
  have u: "vs_ok cr B ?u" "vs_opts ?u = vs_opts s" using I take_ok [of cr B u x] by (auto simp: t vs_grows_def)
  obtain v q' where r: "resettle cr (vs_waiting u x) (?u, q) = Some (Inr (v, q'))" "vs_ok cr B v" "vs_opts v = vs_opts ?u"
    and pr: "accepted_set ?u \<subset> accepted_set v \<or> accepted_set v = accepted_set ?u \<and> stale v = stale ?u \<and>
      length q' = length q + length (filter (vs_accepted ?u) (vs_waiting u x))"
    using resettle_returns [OF u(1) assms(2,3), of "vs_waiting u x" q] assms(4) u(2) by auto
  have "card (- accepted_set v) < card (- accepted_set u) \<or>
      card (- accepted_set v) = card (- accepted_set u) \<and> stale v + length q' < stale u + length (x # q)"
    using pr
  proof
    assume "accepted_set ?u \<subset> accepted_set v"
    then have "- accepted_set v \<subset> - accepted_set u" by (auto simp: stale_take)
    then show ?thesis by (intro disjI1 psubset_card_mono) auto
  qed (simp add: stale_take stale_take(3) [of u x])
  then show "(\<exists>e. settle_step cr t = Some (Inl e)) \<or> (\<exists>t'. settle_step cr t = Some (Inr t') \<and>
      (case t' of (u, q) \<Rightarrow> vs_ok cr B u \<and> vs_opts u = vs_opts s) \<and>
      (t', t) \<in> inv_image (less_than <*lex*> less_than) (\<lambda>(u, q). (card (- accepted_set u), stale u + length q)))"
    using r u(2) by (intro disjI2 exI [of _ "(v, q')"]) (auto simp: t settle_step_def take_waiting_def)
qed (use assms in auto)

section \<open>Reachable stores\<close>

text \<open>A store is reached from the empty one by offering blocks of \<open>B\<close>; a rejection leaves it as it was.\<close>

inductive vs_reach :: "crypto \<Rightarrow> block set \<Rightarrow> options option \<Rightarrow> vstore \<Rightarrow> bool" for cr B opts where
  empty: "vs_reach cr B opts (new_vstore opts)"
| offer: "vs_reach cr B opts s \<Longrightarrow> b \<in> B \<Longrightarrow> vs_add cr b s = Some (Inr (s', adm)) \<Longrightarrow> vs_reach cr B opts s'"

lemma new_vstore_opts [simp]: "vs_opts (new_vstore opts) = opts"
  by (simp add: new_vstore_def)

lemma reach_ok:
  assumes "vs_reach cr B opts s" and "offered cr B"
  shows "vs_ok cr B s \<and> vs_opts s = opts"
  using assms(1)
proof (induction rule: vs_reach.induct)
  case empty
  show ?case using vs_ok_new by simp
next
  case (offer s b s' adm)
  then show ?case using vs_add_ok [OF _ assms(2) offer.hyps(2,3)] by (simp add: vs_grows_def)
qed

lemma reach_filed:
  assumes "vs_reach cr B opts s" and "offered cr B" and "plain_decrypter opts"
  shows "filed_ok s []"
  using assms(1)
proof (induction rule: vs_reach.induct)
  case empty
  show ?case using filed_ok_new by simp
next
  case (offer s b s' adm)
  have "vs_ok cr B s" "plain_decrypter (vs_opts s)" using reach_ok [OF offer.hyps(1) assms(2)] assms(3) by simp_all
  then show ?case using vs_add_filed [OF _ assms(2) offer.hyps(2) _ offer.IH offer.hyps(3)] by blast
qed

lemma reach_sound: "vs_ok cr B s \<Longrightarrow> verdicts_sound cr (vs_source s)"
  using vs_okD(5) by (auto simp: verdicts_sound_def get_block_Inr vs_accepted_def)

lemma loopD_no_error:
  fixes f :: "'s \<Rightarrow> ('e + 's) option"
  assumes "\<And>t e. f t \<noteq> Some (Inl e)"
  shows "loopD p f s \<noteq> Some (Inl e)"
proof
  assume "loopD p f s = Some (Inl e)"
  then have r: "while_option (stepping p) (\<lambda>m. bindD m f) (Some (Inr s)) = Some (Some (Inl e))"
    by (auto simp: loopD_def split: option.splits)
  let ?J = "\<lambda>m :: ('e + 's) option. \<forall>e. m \<noteq> Some (Inl e)"
  have "?J (Some (Inl e))"
    by (rule while_option_rule [OF _ r, of ?J]) (use assms in \<open>auto simp: bindD_eq_Inl\<close>)
  then show False by simp
qed

text \<open>\<open>settle\<close> never fails: what a re-offered block is rejected with is dropped.\<close>

lemma resettle_Inl: "resettle cr ds (s, queue) \<noteq> Some (Inl e)"
  by (induction ds arbitrary: s queue) (auto split: sum.splits option.splits)

lemma settle_Inl: "settle cr d s \<noteq> Some (Inl e)"
  unfolding settle_def
  by (rule loopD_no_error) (use resettle_Inl in \<open>auto simp: settle_step_def take_waiting_def\<close>)

lemma vs_add_Inl: "vs_add cr b s = Some (Inl e) \<longleftrightarrow> admit cr b s = Some (Inl e)"
  using settle_Inl by (auto simp: vs_add_def bindD_eq_Inl split: if_splits)

lemma admit_Inl:
  "admit cr b s = Some (Inl e) \<longleftrightarrow> \<not> vs_accepted s (block_digest cr b) \<and>
    validate cr b (vs_source s) (vs_opts s) = Some (Inl e) \<and> \<not> is_unvalidated e"
  by (auto simp: admit_def admit_new_def Let_def vs_accepted_def put_block_eq split: prod.splits option.splits sum.splits if_splits)

section \<open>An accepted tip has a valid chain\<close>

lemma accepted_held_chain:
  assumes "vs_ok cr B s" and "vs_accepted s d"
  shows "\<exists>bs. held_chain cr (vs_source s) d bs \<and> (\<forall>b \<in> set bs. vs_accepted s (block_digest cr b))"
proof -
  obtain rank :: "digest \<Rightarrow> nat" where rank: "\<And>d b p. vs_accepted s d \<Longrightarrow> vs_held s d = Some b \<Longrightarrow> block_prev b = Some p \<Longrightarrow> rank p < rank d"
    using assms(1) unfolding vs_ok_def by blast
  show ?thesis
    using assms(2)
  proof (induction "rank d" arbitrary: d rule: less_induct)
    case less
    obtain b where b: "vs_held s d = Some b"
      using less.prems vs_okD(3) [OF assms(1), of d] by (auto simp: vs_accepted_iff)
    then have g: "src_block (vs_source s) d = Inr b" by (simp add: get_block_Inr)
    then have d: "block_digest cr b = d" using get_block_member [OF assms(1)] by simp
    show ?case
    proof (cases "block_prev b")
      case None
      then have "held_chain cr (vs_source s) d [b]" using g d held_chain_snoc [of cr "vs_source s" d "[]" b] by simp
      then show ?thesis using less.prems d by (intro exI [of _ "[b]"]) simp
    next
      case (Some p)
      have "vs_accepted s p" using accepted_previousD [OF _ Some] vs_okD(5) [OF assms(1) less.prems b] by blast
      then obtain bs where "held_chain cr (vs_source s) p bs" "\<forall>b \<in> set bs. vs_accepted s (block_digest cr b)"
        using less.hyps [of p] rank [OF less.prems b Some] by blast
      then show ?thesis using g d Some less.prems held_chain_snoc [of cr "vs_source s" d bs b]
        by (intro exI [of _ "bs @ [b]"]) auto
    qed
  qed
qed

lemma accepted_reads: "vs_accepted s (block_digest cr b) \<Longrightarrow> \<exists>rep. accepted cr b (vs_source s) opts = Some (Inr rep)"
  by (auto simp: accepted_def vs_accepted_def split: prod.splits)

section \<open>What waits is validated again\<close>

text \<open>Block \<open>x\<close> of digest \<open>d\<close> was accepted, or validated again in a store between the two.\<close>

definition revalidated :: "crypto \<Rightarrow> vstore \<Rightarrow> vstore \<Rightarrow> digest \<Rightarrow> block \<Rightarrow> bool" where
  "revalidated cr s t d x \<longleftrightarrow> vs_accepted t d \<or>
    (\<exists>u e. vs_grows s u \<and> vs_grows u t \<and> validate cr x (vs_source u) (vs_opts u) = Some (Inl e))"

lemma revalidated_mono: "revalidated cr s t d x \<Longrightarrow> vs_grows r s \<Longrightarrow> vs_grows t t' \<Longrightarrow> revalidated cr r t' d x"
  unfolding revalidated_def by (meson vs_grows_accepted vs_grows_trans)

lemma admit_revalidates:
  assumes "vs_ok cr B s" and "offered cr B" and "x \<in> B" and "admit cr x s = Some (Inr (t, adm))"
  shows "revalidated cr s t (block_digest cr x) x"
  using assms(4)
proof (cases rule: admit_cases)
  case duplicate
  then show ?thesis by (simp add: revalidated_def)
next
  case (undecided e)
  moreover have "vs_grows s t" using admit_ok [OF assms] by blast
  ultimately show ?thesis unfolding revalidated_def using vs_grows_refl by blast
next
  case (valid report)
  then show ?thesis by (simp add: revalidated_def decided_accepted)
qed

lemma resettle_revalidates:
  assumes "vs_ok cr B s" and "offered cr B" and "resettle cr ds (s, queue) = Some (Inr (s', queue'))"
  shows "vs_ok cr B s' \<and> vs_grows s s' \<and> (\<forall>d \<in> set ds. \<forall>x. vs_held s d = Some x \<longrightarrow> revalidated cr s s' d x)"
  using assms(1,3)
proof (induction ds arbitrary: s queue)
  case (Cons d ds)
  show ?case
  proof (cases "get_block (vs_blocks s) d")
    case (Inl e)
    then have "vs_held s d = None" by (auto simp: get_block_def held_def split: option.splits)
    then show ?thesis using Cons.IH [OF Cons.prems(1)] Cons.prems(2) Inl by simp
  next
    case (Inr b)
    note b = get_block_member [OF Cons.prems(1) Inr]
    have h: "vs_held s d = Some b" using Inr by (simp add: get_block_Inr)
    obtain res where res: "admit cr b s = Some res" using Cons.prems(2) Inr by (cases "admit cr b s") auto
    show ?thesis
    proof (cases res)
      case (Inl e)
      then have "validate cr b (vs_source s) (vs_opts s) = Some (Inl e)" using res admit_Inl by blast
      moreover have "resettle cr ds (s, queue) = Some (Inr (s', queue'))"
        using Cons.prems(2) \<open>get_block (vs_blocks s) d = Inr b\<close> res Inl by simp
      moreover note IH = Cons.IH [OF Cons.prems(1) calculation(2)]
      ultimately have "revalidated cr s s' d b" unfolding revalidated_def using vs_grows_refl by blast
      then show ?thesis using IH h by auto
    next
      case (Inr y)
      obtain t adm where y: "y = (t, adm)" by (cases y)
      have a: "admit cr b s = Some (Inr (t, adm))" using res Inr y by simp
      note t = admit_ok [OF Cons.prems(1) assms(2) conjunct1 [OF b] a]
      have IH: "vs_ok cr B s' \<and> vs_grows t s' \<and> (\<forall>d \<in> set ds. \<forall>x. vs_held t d = Some x \<longrightarrow> revalidated cr t s' d x)"
        using Cons.IH [of t] t Cons.prems(2) \<open>get_block (vs_blocks s) d = Inr b\<close> a by simp
      have "revalidated cr s s' d b"
        using admit_revalidates [OF Cons.prems(1) assms(2) conjunct1 [OF b] a] IH revalidated_mono b by fastforce
      moreover have "revalidated cr s s' c x" if "c \<in> set ds" "vs_held s c = Some x" for c x
        using IH that t vs_grows_held revalidated_mono vs_grows_refl by blast
      ultimately show ?thesis using IH t h vs_grows_trans by auto
    qed
  qed
qed simp

lemma loopD_from:
  assumes "vs_ok cr B u" and "offered cr B" and "loopD (\<lambda>(s, queue). queue \<noteq> []) (settle_step cr) (u, q) = Some (Inr (s', q'))"
  shows "vs_ok cr B s' \<and> vs_grows u s'"
proof -
  let ?I = "\<lambda>(v, queue :: digest list). vs_ok cr B v \<and> vs_grows u v"
  have "?I (s', q') \<and> \<not> (\<lambda>(s, queue). queue \<noteq> []) (s', q')"
  proof (rule loopD_rule [OF assms(3)])
    show "?I (u, q)" using assms(1) by simp
    fix t t' assume I: "?I t" and f: "settle_step cr t = Some (Inr t')"
    obtain v p where t: "t = (v, p)" by (cases t)
    obtain v' p' where t': "t' = (v', p')" by (cases t')
    have "resettle cr (vs_waiting v (hd p)) (fst (take_waiting (hd p) v), tl p) = Some (Inr (v', p'))"
      using f by (simp add: t t' settle_step_def take_waiting_def)
    moreover have "vs_ok cr B (fst (take_waiting (hd p) v))" using I take_ok by (simp add: t)
    ultimately have "vs_ok cr B v' \<and> vs_grows (fst (take_waiting (hd p) v)) v'" using resettle_revalidates assms(2) by blast
    moreover have "vs_grows u (fst (take_waiting (hd p) v))" using I take_ok vs_grows_trans by (fastforce simp: t)
    ultimately show "?I t'" using vs_grows_trans by (auto simp: t')
  qed
  then show ?thesis by simp
qed

text \<open>Adding a block that is not a duplicate validates again every block filed under it.\<close>

lemma arrival_revalidates:
  assumes "vs_ok cr B s" and "offered cr B" and "b \<in> B" and "vs_add cr b s = Some (Inr (s', adm))" and "\<not> ad_duplicate adm"
    and "d \<in> set (vs_waiting s (block_digest cr b))" and "vs_held s d = Some x"
  shows "\<exists>t. vs_grows s t \<and> vs_held t (block_digest cr b) = Some b \<and> revalidated cr t s' d x"
  using assms(4)
proof (cases rule: vs_add_Inr)
  case duplicate
  then show ?thesis using assms(5) by simp
next
  case (settled t queue)
  note t = admit_ok [OF assms(1-3) settled(1)]
  have n: "\<not> vs_accepted s (block_digest cr b)" "ad_digest adm = block_digest cr b"
    "d \<in> set (vs_waiting t (block_digest cr b))"
    using settled(1,2) assms(6) by (cases rule: admit_cases; simp add: decided_fields)+
  let ?u = "fst (take_waiting (block_digest cr b) t)"
  have u: "vs_ok cr B ?u \<and> vs_grows t ?u" using take_ok t by blast
  have "bindD (settle_step cr (t, [block_digest cr b])) (loopD (\<lambda>(s, queue). queue \<noteq> []) (settle_step cr)) = Some (Inr (s', queue))"
    using settled(3) n(2) unfolding settle_def by (subst (asm) loopD_unfold) simp
  then obtain v q where v: "resettle cr (vs_waiting t (block_digest cr b)) (?u, []) = Some (Inr (v, q))"
    and l: "loopD (\<lambda>(s, queue). queue \<noteq> []) (settle_step cr) (v, q) = Some (Inr (s', queue))"
    by (auto simp: bindD_eq_Inr settle_step_def take_waiting_def)
  have h: "vs_held ?u d = Some x" using assms(7) t u vs_grows_held by blast
  have r: "vs_ok cr B v" "revalidated cr ?u v d x"
    using resettle_revalidates [OF conjunct1 [OF u] assms(2) v] n(3) h by blast+
  then have "revalidated cr ?u s' d x" using loopD_from [OF r(1) assms(2) l] revalidated_mono vs_grows_refl by blast
  then show ?thesis using t u vs_grows_trans vs_grows_held by blast
qed

section \<open>Properties\<close>

text \<open>
  C2. A reachable store has a verdict for exactly the blocks it holds, each held under its own digest:
  an accepted one has a report, a signature that verifies and an accepted predecessor fit for it;
  any other is undecided, for a reason \<open>IsUnvalidated\<close> recognises.
\<close>

theorem stored_blocks_decided:
  assumes "vs_reach cr B opts s" and "offered cr B"
  shows "(fst (vs_verdict s d) = Verdict_unknown \<longleftrightarrow> vs_held s d = None) \<and>
    (\<forall>b. vs_held s d = Some b \<longrightarrow> b \<in> B \<and> block_digest cr b = d \<and>
      (if vs_accepted s d
       then block_verify cr b = Inr () \<and> accepted_previous b (vs_source s) \<and> snd (vs_verdict s d) \<noteq> None \<and> vs_pending s d = None
       else fst (vs_verdict s d) = Verdict_unvalidated \<and> (\<exists>e. vs_pending s d = Some e \<and> is_unvalidated e)))"
proof -
  have ok: "vs_ok cr B s" using reach_ok [OF assms] by blast
  note f = vs_okD [OF ok]
  show ?thesis
  proof (cases "vs_held s d")
    case None
    then show ?thesis using f(3) [of d] by (simp add: vs_verdict_def)
  next
    case (Some b)
    then obtain e where e: "vs_verdicts s d = Some e" using f(3) [of d] by auto
    have m: "b \<in> B" "block_digest cr b = d" using get_block_member [OF ok, of d b] Some by (simp_all add: get_block_Inr)
    show ?thesis
    proof (cases "vs_accepted s d")
      case True
      then show ?thesis using f(4) [OF e] f(5) [OF True Some] Some m e
        by (auto simp: entry_ok_def vs_accepted_iff vs_verdict_def vs_pending_def)
    next
      case False
      then show ?thesis using f(4) [OF e] Some m e
        by (auto simp: entry_ok_def vs_accepted_iff vs_verdict_def vs_pending_def)
    qed
  qed
qed

text \<open>
  A verdict moves in one direction: adding a block drops no block held and changes no accepted
  verdict or report, and an accepted block offered again is a lookup.
\<close>

theorem verdict_one_way:
  assumes "vs_reach cr B opts s" and "offered cr B" and "b \<in> B" and "vs_add cr b s = Some (Inr (s', adm))"
  shows "vs_held s \<subseteq>\<^sub>m vs_held s' \<and> vs_held s' (block_digest cr b) = Some b \<and>
    (\<forall>d. vs_accepted s d \<longrightarrow> vs_verdict s' d = vs_verdict s d) \<and>
    (\<forall>x. vs_accepted s (block_digest cr x) \<longrightarrow> vs_add cr x s' = Some (Inr (s', \<lparr>ad_digest = block_digest cr x,
      ad_verdict = Verdict_valid, ad_duplicate = True, ad_report = snd (vs_verdict s (block_digest cr x)), ad_pending = None\<rparr>)))"
proof -
  have g: "vs_grows s s'" "vs_held s' (block_digest cr b) = Some b"
    using vs_add_ok [OF conjunct1 [OF reach_ok [OF assms(1,2)]] assms(2-4)] by blast+
  have v: "vs_verdict s' d = vs_verdict s d" if "vs_accepted s d" for d
    using that g(1) by (auto simp: vs_grows_def vs_accepted_iff vs_verdict_def)
  have "vs_add cr x s' = Some (Inr (s', \<lparr>ad_digest = block_digest cr x, ad_verdict = Verdict_valid, ad_duplicate = True,
      ad_report = snd (vs_verdict s (block_digest cr x)), ad_pending = None\<rparr>))" if "vs_accepted s (block_digest cr x)" for x
    using v [OF that] that by (cases "vs_verdict s (block_digest cr x)") (simp add: vs_add_def admit_def vs_accepted_def Let_def)
  then show ?thesis using g v by (simp add: vs_grows_def)
qed

text \<open>
  C7. A block the store accepted has a chain that \<open>ValidateChain\<close> accepts over the same store: every
  block back to the genesis block is held, accepted and of the author, and none before the tip is
  a rotation block.
\<close>

theorem accepted_tip_chain:
  assumes "vs_reach cr B opts s" and "offered cr B" and "vs_accepted s d"
  shows "\<exists>c. validate_chain cr d (vs_source s) other = Some (Inr c) \<and> held_chain cr (vs_source s) d (ch_blocks c) \<and>
    (\<forall>b \<in> set (ch_blocks c). vs_accepted s (block_digest cr b) \<and> block_pub b = ch_pub c) \<and>
    (\<forall>i < length (ch_blocks c) - 1. c_type (blk_content (ch_blocks c ! i)) \<noteq> type_rotation)"
proof -
  have ok: "vs_ok cr B s" using reach_ok [OF assms(1,2)] by blast
  obtain bs where h: "held_chain cr (vs_source s) d bs" and acc: "\<forall>b \<in> set bs. vs_accepted s (block_digest cr b)"
    using accepted_held_chain [OF ok assms(3)] by blast
  obtain r where r: "accept_all cr (vs_source s) other bs empty_report = Some (Inr r)"
    using accept_all_total accepted_reads acc by blast
  have "\<forall>b \<in> set bs. accepted_previous b (vs_source s)"
  proof
    fix b assume b: "b \<in> set bs"
    then have "vs_held s (block_digest cr b) = Some b" using h by (simp add: held_chain_def get_block_Inr)
    then show "accepted_previous b (vs_source s)" using vs_okD(5) [OF ok] acc b by blast
  qed
  note c = accepted_chain [OF h this]
  show ?thesis
    using walk_complete [OF h] r h acc c
    by (intro exI [of _ "\<lparr>ch_pub = block_pub (bs ! 0), ch_blocks = bs, ch_report = r\<rparr>"]) (simp add: validate_chain_def)
qed

lemma add_returns:
  assumes "vs_reach cr B opts s" and "offered cr B" and "b \<in> B" and "wf (offered_links cr B)" and "0 \<le> scan_limit opts"
  shows "(\<exists>s' adm. vs_add cr b s = Some (Inr (s', adm)) \<and> vs_held s' (block_digest cr b) = Some b \<and>
      ad_verdict adm \<in> {Verdict_valid, Verdict_unvalidated}) \<or>
    (\<exists>e. vs_add cr b s = Some (Inl e) \<and> validate cr b (vs_source s) opts = Some (Inl e) \<and> \<not> is_unvalidated e)"
proof -
  have ok: "vs_ok cr B s" "vs_opts s = opts" using reach_ok [OF assms(1,2)] by blast+
  obtain res where res: "admit cr b s = Some res" using admit_returns [OF ok(1) assms(4)] assms(5) ok(2) by blast
  show ?thesis
  proof (cases res)
    case (Inl e)
    then show ?thesis using res ok(2) admit_Inl [of cr b s e] vs_add_Inl [of cr b s e] by blast
  next
    case (Inr y)
    obtain t adm where a: "admit cr b s = Some (Inr (t, adm))" using res Inr by (cases y) simp
    have t: "vs_ok cr B t" "vs_opts t = opts" using admit_ok [OF ok(1) assms(2,3) a] ok(2) by (simp_all add: vs_grows_def)
    have "settle cr (ad_digest adm) t \<noteq> None" using settle_returns [OF t(1) assms(2,4)] assms(5) t(2) by simp
    then obtain u q where u: "settle cr (ad_digest adm) t = Some (Inr (u, q))"
      using settle_Inl [of cr "ad_digest adm" t] by (cases "settle cr (ad_digest adm) t") (auto split: sum.splits, metis obj_sumE surj_pair)
    obtain s' where s': "vs_add cr b s = Some (Inr (s', adm))" using a u by (cases "ad_duplicate adm") (auto simp: vs_add_def)
    have "ad_verdict adm \<in> {Verdict_valid, Verdict_unvalidated}" using a by (cases rule: admit_cases) auto
    then show ?thesis using s' vs_add_ok [OF ok(1) assms(2,3) s'] by blast
  qed
qed



section \<open>A block that names two others\<close>

text \<open>
  \<open>w\<close> creates the bond the operation of \<open>b\<close> is over; \<open>b\<close> names a block nobody has, of digest 9,
  and \<open>w\<close>. The hash tells the two and the bond apart.
\<close>

definition two_refs :: "crypto \<Rightarrow> block \<Rightarrow> block \<Rightarrow> bool" where
  "two_refs cr b w \<longleftrightarrow> sound_block cr b \<and> sound_block cr w \<and>
    block_digest cr b = 5 \<and> block_digest cr w = 3 \<and> bond_digest (sha256 cr) truth_bond = 4 \<and>
    block_prev b = None \<and> block_refs b = [9, 3] \<and> block_ops b = [Create_molecule (truth_molecule 4)] \<and>
    block_prev w = None \<and> block_refs w = [] \<and> block_ops w = [Create_bond truth_bond] \<and> \<not> same_author w b \<and>
    c_type (blk_content b) = type_public \<and> c_version (blk_content b) = protocol_version \<and>
    c_type (blk_content w) = type_public \<and> c_version (blk_content w) = protocol_version"

lemma two_refs_exist: "\<exists>cr b w. two_refs cr b w"
proof -
  let ?key = "replicate 64 8 :: byte list"
  have k: "length sample_key = 64" "length ?key = 64" by (simp_all add: sample_key_def)
  have ne: "public_half ?key \<noteq> public_half sample_key" by (simp add: public_half_def sample_key_def)
  have d: "distinct ([] :: digest list)" "length ([] :: digest list) \<le> 64" "[Create_bond truth_bond] \<noteq> []"
    "\<forall>op \<in> set [Create_bond truth_bond]. wf_op op \<and> \<not> is_rotate_key op"
    "bulk (Array (map op_value [Create_bond truth_bond])) < 2 ^ 30"
    using wf_truth_bond sample_bulk(3) by (simp_all add: is_rotate_key_def)
  obtain w where w: "sound_block sample_crypto w" "decode_block sample_crypto (blk_enc w) = Inr w"
    "block_prev w = None" "block_refs w = []" "block_ops w = [Create_bond truth_bond]" "block_pub w = public_half ?key"
    "c_type (blk_content w) = type_public" "c_version (blk_content w) = protocol_version"
    using public_block [OF k(2) d, of None] by blast
  have "distinct [9, 3 :: digest]" "length [9, 3 :: digest] \<le> 64" by simp_all
  then obtain b where b: "sound_block sample_crypto b" "decode_block sample_crypto (blk_enc b) = Inr b"
    "block_prev b = None" "block_refs b = [9, 3]" "block_ops b = [Create_molecule (truth_molecule 4)]"
    "block_pub b = public_half sample_key" "c_type (blk_content b) = type_public" "c_version (blk_content b) = protocol_version"
    using molecule_block [OF _ _ k(1), of "[9, 3]" None 4] by blast
  have "b \<noteq> w" using b(4) w(4) by auto
  then have enc: "blk_enc b \<noteq> blk_enc w" using b(2) w(2) by auto
  have "case decode_block sample_crypto (bond_enc truth_bond) of Inr _ \<Rightarrow> False | Inl _ \<Rightarrow> True" by code_simp
  then have nb: "bond_enc truth_bond \<noteq> blk_enc b" "bond_enc truth_bond \<noteq> blk_enc w" using b(2) w(2) by auto
  let ?cr = "sample_crypto\<lparr>sha256 := \<lambda>bs. if bs = bond_enc truth_bond then 4 else if bs = blk_enc b then 5
    else if bs = blk_enc w then 3 else 0\<rparr>"
  have "two_refs ?cr b w"
    using b w enc nb ne unfolding two_refs_def
    by (simp add: sound_sha256 block_digest_def sum_digest_def bond_digest_def same_author_def block_pub_def)
  then show ?thesis by blast
qed

lemma genesis_any:
  assumes "sound_block cr b" and "c_version (blk_content b) = protocol_version" and "block_ops b \<noteq> []"
    and "block_prev b = None" and "c_type (blk_content b) = type_public"
  shows "\<exists>rep. validate cr b src opts = validate_references cr b (block_refs b) (block_ops b) src opts rep"
  using assms sound_verifies [OF assms(1)] type_names
  by (cases "src_siblings src")
    (auto simp: validate_def validate_header_def validate_linkage_def is_private_def intro: exI [of _ empty_report])

lemma bond_block_validates:
  assumes "two_refs cr b w"
  shows "\<exists>report. validate cr w src opts = Some (Inr report)"
proof -
  note f = assms [unfolded two_refs_def]
  obtain rep where "validate cr w src opts = validate_references cr w (block_refs w) (block_ops w) src opts rep"
    using genesis_any [of cr w src opts] f by auto
  then show ?thesis using f by (simp add: validate_references_def check_molecule_def)
qed

abbreviation waits_for_9 :: block_error where
  "waits_for_9 \<equiv> Rule_error 4 5 (Operation_error 0 op_create_molecule Bond_field (Pending_error 9 False (Incomplete_refs 4 9)))"

lemma two_refs_undecided:
  assumes "two_refs cr b w" and "src_block src 9 = Inl (Not_found 9)" and "src_block src 3 = Inl (Not_found 3)"
  shows "validate cr b src opts = Some (Inl waits_for_9)"
proof -
  note f = assms(1) [unfolded two_refs_def]
  let ?E = "resolver_env_of cr b src opts"
  obtain rep where v: "validate cr b src opts = validate_references cr b (block_refs b) (block_ops b) src opts rep"
    using genesis_any [of cr b src opts] f by auto
  have n: "\<exists>r'. check_refs ?E [9, 3] (new_resolver b rep) = Inr r' \<and> rv_defs r' = (\<lambda>_. None) \<and> rv_next r' = None \<and>
      rv_visited r' = (\<lambda>_. False) \<and> rv_cache r' = (\<lambda>_. None) \<and> rv_refs_gap r' = None \<and> rv_ancestor_gap r' = None"
    using f assms(2,3) by (simp add: fetch_def Let_def)
  then obtain r1 where r1: "check_refs ?E [9, 3] (new_resolver b rep) = Inr r1" "rv_defs r1 = (\<lambda>_. None)" "rv_next r1 = None"
    "rv_visited r1 = (\<lambda>_. False)" "rv_cache r1 = (\<lambda>_. None)" "rv_refs_gap r1 = None" "rv_ancestor_gap r1 = None" by blast
  have "resolve ?E 4 (r1\<lparr>rv_queue := [9, 3]\<rparr>) = Some (Inl (Pending_error 9 False (Incomplete_refs 4 9)))"
    using r1 assms(2,3)
    by (simp add: resolve_ahead extend_refs_def fetch_def resolver_warn_def refs_loop_step refs_loop_stop unresolved_def Let_def)
  then show ?thesis using v f r1(1) lookup_fails [of ?E b cr 4 "r1\<lparr>rv_queue := [9, 3]\<rparr>"]
    by (simp add: validate_references_def del: check_ops.simps check_refs.simps)
qed

lemma two_refs_accepted:
  assumes "two_refs cr b w" and "src_block src 9 = Inl (Not_found 9)" and "src_block src 3 = Inr w"
  shows "\<exists>report. validate cr b src None = Some (Inr report)"
proof -
  note f = assms(1) [unfolded two_refs_def]
  let ?E = "resolver_env_of cr b src None" and ?rec = "\<lparr>rec_kind = Kind_bond, rec_bond = truth_bond\<rparr>"
  have p: "\<not> is_private w" using f type_names by (simp add: is_private_def)
  have limit: "scan_limit None = 256" by (simp add: scan_limit_def default_scan_limit_def)
  have va: "validate_against (sha256 cr) (truth_molecule 4) truth_bond = Inr ()"
    using truth_bond_ok f by (simp add: validate_against_def)
  obtain rep where v: "validate cr b src None = validate_references cr b (block_refs b) (block_ops b) src None rep"
    using genesis_any [of cr b src None] f by auto
  have n: "\<exists>r'. check_refs ?E [9, 3] (new_resolver b rep) = Inr r' \<and> rv_defs r' = (\<lambda>_. None) \<and> rv_next r' = None \<and>
      rv_visited r' = (\<lambda>_. False) \<and> rv_cache r' = [3 \<mapsto> w] \<and> rv_scanned r' = 0"
    using f p assms(2,3) by (simp add: fetch_def Let_def)
  then obtain r1 where r1: "check_refs ?E [9, 3] (new_resolver b rep) = Inr r1" "rv_defs r1 = (\<lambda>_. None)" "rv_next r1 = None"
    "rv_visited r1 = (\<lambda>_. False)" "rv_cache r1 = [3 \<mapsto> w]" "rv_scanned r1 = 0" by blast
  have "\<exists>r'. resolve ?E 4 (r1\<lparr>rv_queue := [9, 3]\<rparr>) = Some (Inr (r', ?rec)) \<and> rv_defs r' 4 = Some ?rec"
    using r1 assms(2,3) f p limit
    by (simp add: resolve_ahead extend_refs_def fetch_def resolver_warn_def refs_loop_step refs_loop_stop define_op_defs Let_def)
  then obtain r' where r': "resolve ?E 4 (r1\<lparr>rv_queue := [9, 3]\<rparr>) = Some (Inr (r', ?rec))" "rv_defs r' 4 = Some ?rec" by blast
  show ?thesis
    using v f r1(1) r' va truth_references [of 4]
    by (simp add: validate_references_def check_molecule_def Let_def del: references.simps(1) check_refs.simps)
qed

lemma two_refs_offered:
  assumes "two_refs cr b w"
  shows "offered cr {b, w}" "wf (offered_links cr {b, w})" "0 \<le> scan_limit None"
  using assms by (auto simp: two_refs_def offered_def offered_links_def scan_limit_def default_scan_limit_def)

lemma settle_nothing:
  assumes "vs_waiting s d = []"
  shows "settle cr d s = Some (Inr (s, []))"
proof -
  have e: "s\<lparr>vs_waiting := (vs_waiting s)(d := [])\<rparr> = s" using assms by (intro vstore.equality) auto
  show ?thesis unfolding settle_def
    by (subst loopD_unfold) (simp add: settle_step_def take_waiting_def assms e loopD_unfold [of _ _ "(s, [])"])
qed

lemma vs_add_new:
  assumes "\<not> vs_accepted s (block_digest cr b)" and "validate cr b (vs_source s) (vs_opts s) = Some (Inr report)"
    and "vs_waiting s (block_digest cr b) = []"
  shows "\<exists>adm. vs_add cr b s = Some (Inr (decided cr b \<lparr>en_verdict = Verdict_valid, en_report = Some report, en_pending = None\<rparr> None s, adm)) \<and>
    \<not> ad_duplicate adm"
proof -
  let ?s = "decided cr b \<lparr>en_verdict = Verdict_valid, en_report = Some report, en_pending = None\<rparr> None s"
  have "vs_waiting ?s (block_digest cr b) = []" using decided_fields(4) [OF assms(1)] assms(3) by (metis empty_set set_empty option.distinct(1))
  then show ?thesis using assms(1,2) settle_nothing [of ?s "block_digest cr b" cr]
    by (auto simp: vs_add_def admit_def admit_new_def vs_accepted_def put_block_eq decided_def [symmetric] Let_def split: prod.splits)
qed

lemma vs_add_undecided:
  assumes "\<not> vs_accepted s (block_digest cr b)" and "validate cr b (vs_source s) (vs_opts s) = Some (Inl e)" and "is_unvalidated e"
    and "awaiting e = Some g" and "g \<noteq> block_digest cr b" and "vs_waiting s (block_digest cr b) = []"
  shows "\<exists>adm. vs_add cr b s = Some (Inr (decided cr b \<lparr>en_verdict = Verdict_unvalidated, en_report = None, en_pending = Some e\<rparr> (Some g) s, adm)) \<and>
    \<not> ad_duplicate adm"
proof -
  let ?s = "decided cr b \<lparr>en_verdict = Verdict_unvalidated, en_report = None, en_pending = Some e\<rparr> (Some g) s"
  have "set (vs_waiting ?s (block_digest cr b)) = {}" using decided_fields(4) [OF assms(1)] assms(5,6) by simp
  then have "vs_waiting ?s (block_digest cr b) = []" by simp
  then show ?thesis using assms(1-4) settle_nothing [of ?s "block_digest cr b" cr]
    by (auto simp: vs_add_def admit_def admit_new_def vs_accepted_def put_block_eq decided_def [symmetric] Let_def split: prod.splits)
qed

lemma vs_new [simp]: "vs_held (new_vstore opts) d = None" "\<not> vs_accepted (new_vstore opts) d" "vs_waiting (new_vstore opts) g = []"
  by (simp_all add: new_vstore_def mem.get_none vs_accepted_iff)

lemma source_missing: "vs_held s d = None \<Longrightarrow> src_block (vs_source s) d = Inl (Not_found d)"
  by (auto simp: get_block_def held_def split: option.splits)

text \<open>\<open>b\<close> first, then the block it needs.\<close>

lemma overlooked_run:
  assumes "two_refs cr b w"
  obtains s t adm adm' where "vs_add cr b (new_vstore None) = Some (Inr (s, adm))" and "vs_pending s 5 = Some waits_for_9"
    and "5 \<in> set (vs_waiting s 9)" and "vs_held s 9 = None" and "vs_held s 5 = Some b" and "vs_held s 3 = None"
    and "vs_add cr w s = Some (Inr (t, adm'))" and "\<not> ad_duplicate adm'"
    and "fst (vs_verdict t 5) = Verdict_unvalidated" and "vs_held t 5 = Some b" and "vs_held t 3 = Some w" and "vs_accepted t 3"
    and "vs_held t 9 = None"
proof -
  note f = assms [unfolded two_refs_def] and o = two_refs_offered [OF assms]
  let ?n = "new_vstore None"
  let ?s = "decided cr b \<lparr>en_verdict = Verdict_unvalidated, en_report = None, en_pending = Some waits_for_9\<rparr> (Some 9) ?n"
  have v: "validate cr b (vs_source ?n) (vs_opts ?n) = Some (Inl waits_for_9)"
    using two_refs_undecided [OF assms source_missing source_missing] by simp
  have e: "is_unvalidated waits_for_9" "awaiting waits_for_9 = Some 9" by (simp_all add: is_unvalidated_def awaiting_def)
  have nb: "\<not> vs_accepted ?n (block_digest cr b)" by simp
  obtain adm where add: "vs_add cr b ?n = Some (Inr (?s, adm))" using vs_add_undecided [OF nb v e] f by auto
  have hs: "vs_held ?s = (vs_held ?n)(5 \<mapsto> b)"
    using decided_held [OF vs_ok_new o(1) _ nb] f by simp
  note fs = decided_fields [OF nb, of "\<lparr>en_verdict = Verdict_unvalidated, en_report = None, en_pending = Some waits_for_9\<rparr>" "Some 9"]
  have oks: "vs_ok cr {b, w} ?s" using decided_ok [OF vs_ok_new o(1) _ nb] v e nb f
    using vs_add_ok [OF vs_ok_new o(1) _ add] by simp
  have nw: "\<not> vs_accepted ?s (block_digest cr w)" using f fs(3) by (simp add: vs_accepted_iff new_vstore_def)
  have ww: "vs_waiting ?s (block_digest cr w) = []" using f fs(4) [of 3] by simp
  obtain report where "validate cr w (vs_source ?s) (vs_opts ?s) = Some (Inr report)"
    using bond_block_validates [OF assms] by blast
  note add2 = vs_add_new [OF nw this ww]
  let ?x = "\<lparr>en_verdict = Verdict_valid, en_report = Some report, en_pending = None\<rparr>"
  let ?t = "decided cr w ?x None ?s"
  have ht: "vs_held ?t = (vs_held ?s)(3 \<mapsto> w)" using decided_held [OF oks o(1) _ nw] f by simp
  have vt: "fst (vs_verdict ?t 5) = Verdict_unvalidated" "vs_accepted ?t 3"
    using f fs(3) decided_fields(3) [OF nw, of ?x None] by (simp_all add: vs_verdict_def vs_accepted_iff)
  have ps: "vs_pending ?s 5 = Some waits_for_9" "5 \<in> set (vs_waiting ?s 9)" using f fs(3) fs(4) [of 9] by (simp_all add: vs_pending_def)
  show thesis using add2 that [OF add ps] hs ht vt by auto
qed

text \<open>
  C10. A block the store could accept stays undecided after what it waited for has arrived. \<open>b\<close> names
  two blocks the store does not hold and is filed under the first alone; when the second arrives,
  which defines what \<open>b\<close> needs, \<open>Validate\<close> accepts \<open>b\<close> against the store, but \<open>Add\<close> does not look
  at it again ("the blocks that were waiting for this one can be decided now").
\<close>

theorem arrival_overlooked:
  "\<exists>cr b w s t adm adm'. sound_block cr b \<and> sound_block cr w \<and>
    vs_add cr b (new_vstore None) = Some (Inr (s, adm)) \<and> vs_add cr w s = Some (Inr (t, adm')) \<and>
    block_digest cr w \<in> set (block_refs b) \<and> vs_held s (block_digest cr w) = None \<and> vs_accepted t (block_digest cr w) \<and>
    fst (vs_verdict t (block_digest cr b)) = Verdict_unvalidated \<and>
    (\<exists>report. validate cr b (vs_source t) None = Some (Inr report))"
proof -
  obtain cr b w where w: "two_refs cr b w" using two_refs_exist by blast
  note f = w [unfolded two_refs_def]
  obtain s t adm adm' where r: "vs_add cr b (new_vstore None) = Some (Inr (s, adm))" "vs_held s 3 = None"
    "vs_add cr w s = Some (Inr (t, adm'))" "fst (vs_verdict t 5) = Verdict_unvalidated" "vs_held t 3 = Some w" "vs_accepted t 3"
    "vs_held t 9 = None" by (rule overlooked_run [OF w])
  have "src_block (vs_source t) 3 = Inr w" using r(5) by (simp add: get_block_Inr)
  then have "\<exists>report. validate cr b (vs_source t) None = Some (Inr report)"
    using two_refs_accepted [OF w source_missing [OF r(7)]] by blast
  moreover have "3 \<in> set (block_refs b)" using f by simp
  ultimately show ?thesis using r f by (intro exI [of _ cr] exI [of _ b] exI [of _ w] exI [of _ s] exI [of _ t]) auto
qed

section \<open>Witnesses\<close>

lemma two_adds:
  obtains cr b w s t adm adm' where "two_refs cr b w" and "vs_reach cr {b, w} None s" and "vs_add cr w s = Some (Inr (t, adm'))"
    and "vs_reach cr {b, w} None t" and "vs_accepted t 3" and "vs_held t 5 = Some b"
    and "fst (vs_verdict t 5) = Verdict_unvalidated" and "\<not> ad_duplicate adm'" and "5 \<in> set (vs_waiting s 9)"
    and "vs_pending s 5 = Some waits_for_9" and "vs_held s 9 = None"
proof -
  obtain cr b w where w: "two_refs cr b w" using two_refs_exist by blast
  obtain s t adm adm' where r: "vs_add cr b (new_vstore None) = Some (Inr (s, adm))" "vs_pending s 5 = Some waits_for_9"
    "5 \<in> set (vs_waiting s 9)" "vs_held s 9 = None" "vs_held s 5 = Some b" "vs_held s 3 = None"
    "vs_add cr w s = Some (Inr (t, adm'))" "\<not> ad_duplicate adm'"
    "fst (vs_verdict t 5) = Verdict_unvalidated" "vs_held t 5 = Some b" "vs_held t 3 = Some w" "vs_accepted t 3"
    by (rule overlooked_run [OF w])
  have s: "vs_reach cr {b, w} None s" using vs_reach.offer [OF vs_reach.empty _ r(1)] by blast
  have t: "vs_reach cr {b, w} None t" using vs_reach.offer [OF s _ r(7)] by blast
  show thesis using that [OF w s r(7) t r(12) r(10) r(9) r(8) r(3) r(2) r(4)] .
qed

theorem stored_blocks_decided_witness:
  "\<exists>cr s b e. vs_held s 5 = Some b \<and> block_digest cr b = 5 \<and> \<not> vs_accepted s 5 \<and> vs_pending s 5 = Some e \<and> is_unvalidated e"
proof -
  obtain cr b w s t adm' where t: "two_refs cr b w" "vs_reach cr {b, w} None t" "vs_held t 5 = Some b"
    "fst (vs_verdict t 5) = Verdict_unvalidated" by (rule two_adds) blast
  have "\<not> vs_accepted t 5" using t(4) by (simp add: vs_accepted_def)
  then show ?thesis using stored_blocks_decided [OF t(2) two_refs_offered(1) [OF t(1)], of 5] t(3) by auto
qed

theorem verdict_one_way_witness:
  "\<exists>cr b w s t adm. two_refs cr b w \<and> vs_add cr w s = Some (Inr (t, adm)) \<and> vs_held s \<subseteq>\<^sub>m vs_held t \<and> vs_held t 3 = Some w"
proof -
  obtain cr b w s t adm' where t: "two_refs cr b w" "vs_reach cr {b, w} None s" "vs_add cr w s = Some (Inr (t, adm'))"
    by (rule two_adds) blast
  have "block_digest cr w = 3" using t(1) by (simp add: two_refs_def)
  then have "vs_held s \<subseteq>\<^sub>m vs_held t \<and> vs_held t 3 = Some w"
    using verdict_one_way [OF t(2) two_refs_offered(1) [OF t(1)] _ t(3)] by simp
  then show ?thesis using t(1,3) by blast
qed

theorem accepted_tip_chain_witness:
  "\<exists>cr s c. vs_accepted s 3 \<and> validate_chain cr 3 (vs_source s) None = Some (Inr c) \<and> held_chain cr (vs_source s) 3 (ch_blocks c)"
proof -
  obtain cr b w s t adm' where t: "two_refs cr b w" "vs_reach cr {b, w} None t" "vs_accepted t 3" by (rule two_adds) blast
  from accepted_tip_chain [OF t(2) two_refs_offered(1) [OF t(1)] t(3), of None] t(3) show ?thesis by blast
qed



end
