(* ===== verification/Builder.thy ===== *)
theory Builder
  imports Chain
begin

text \<open>
  The author's side of a chain (\<open>go/block/builder.go\<close>): a state machine that links and signs the
  blocks of one key. Every method gives the state it leaves behind, also where it fails.
\<close>

section \<open>The builder and its methods\<close>

record builder =
  bu_priv :: "byte list"
  bu_pub :: "byte list"
  bu_tip :: "digest option"
  bu_started :: bool
  bu_rotated :: bool
  bu_genesis_refs :: "digest list"

definition new_builder :: "byte list \<Rightarrow> block_error + builder" where
  "new_builder priv =
    (if length priv \<noteq> private_key_size then Inl (Form (Private_key_size (length priv)))
     else Inr \<lparr>bu_priv = priv, bu_pub = public_half priv, bu_tip = None, bu_started = False, bu_rotated = False,
       bu_genesis_refs = []\<rparr>)"

definition succeeds :: "crypto \<Rightarrow> block \<Rightarrow> builder \<Rightarrow> builder \<times> (block_error + unit)" where
  "succeeds cr rotation bu =
    (if bu_started bu then (bu, Inl Already_started)
     else case block_rotate_key rotation of
       None \<Rightarrow> (bu, Inl (Not_a_rotation (block_digest cr rotation)))
     | Some k \<Rightarrow>
         if digest_bytes k \<noteq> bu_pub bu then (bu, Inl Names_other_key)
         else let d = block_digest cr rotation in
           (if d \<in> set (bu_genesis_refs bu) then bu else bu\<lparr>bu_genesis_refs := bu_genesis_refs bu @ [d]\<rparr>, Inr ()))"

text \<open>The content \<open>build\<close> signs: the fields the builder owns, over those the caller gives.\<close>

definition owned_content :: "builder \<Rightarrow> content \<Rightarrow> block_error + content" where
  "owned_content bu c =
    (let c' = c\<lparr>c_version := protocol_version, c_pub := Some (bu_pub bu)\<rparr> in
     case bu_tip bu of
       Some t \<Rightarrow> Inr (c'\<lparr>c_prev := Some t\<rparr>)
     | None \<Rightarrow>
         if bu_genesis_refs bu \<noteq> [] then
           (if c_type c \<noteq> type_public then Inl (Successor_not_public (c_type c))
            else Inr (c'\<lparr>c_refs := Some (bu_genesis_refs bu @ items (c_refs c))\<rparr>))
         else Inr c')"

definition build :: "crypto \<Rightarrow> content \<Rightarrow> builder \<Rightarrow> builder \<times> (block_error + block)" where
  "build cr c bu =
    (if bu_rotated bu then (bu, Inl Chain_rotated)
     else if c_type c = type_rotation \<and> bu_tip bu = None then (bu, Inl Nothing_to_end)
     else case bindE (owned_content bu c) (\<lambda>c'. mapErr Form (sign cr c' (bu_priv bu))) of
       Inl e \<Rightarrow> (bu, Inl e)
     | Inr b \<Rightarrow> (bu\<lparr>bu_tip := Some (block_digest cr b), bu_started := True\<rparr>, Inr b))"

definition bu_public :: "crypto \<Rightarrow> uint64 \<Rightarrow> digest list option \<Rightarrow> operation list option \<Rightarrow> builder \<Rightarrow>
    builder \<times> (block_error + block)" where
  "bu_public cr ts refs ops bu =
    build cr \<lparr>c_version = 0, c_type = type_public, c_pub = None, c_prev = None, c_refs = refs, c_ts = ts, c_ops = ops,
      c_enc = None, c_nonce = None\<rparr> bu"

definition bu_rotation :: "crypto \<Rightarrow> uint64 \<Rightarrow> digest list option \<Rightarrow> byte list \<Rightarrow> builder \<Rightarrow>
    builder \<times> (block_error + block)" where
  "bu_rotation cr ts refs new_pub bu =
    (case new_rotate_key new_pub of
       Inl e \<Rightarrow> (bu, Inl (Form e))
     | Inr op \<Rightarrow>
         (case build cr \<lparr>c_version = 0, c_type = type_rotation, c_pub = None, c_prev = None, c_refs = refs, c_ts = ts,
             c_ops = Some [op], c_enc = None, c_nonce = None\<rparr> bu of
            (bu', Inl e) \<Rightarrow> (bu', Inl e)
          | (bu', Inr b) \<Rightarrow> (bu'\<lparr>bu_rotated := True\<rparr>, Inr b)))"

definition bu_private :: "crypto \<Rightarrow> byte list option \<Rightarrow> byte list option \<Rightarrow> builder \<Rightarrow> builder \<times> (block_error + block)" where
  "bu_private cr enc nonce bu =
    build cr \<lparr>c_version = 0, c_type = type_private, c_pub = None, c_prev = None, c_refs = None, c_ts = 0, c_ops = None,
      c_enc = enc, c_nonce = nonce\<rparr> bu"

section \<open>Runs\<close>

datatype call =
    Call_succeeds block
  | Call_public uint64 "digest list option" "operation list option"
  | Call_rotation uint64 "digest list option" "byte list"
  | Call_private "byte list option" "byte list option"

text \<open>What a call signs, if it succeeds; and what a rotation it records, if it succeeds.\<close>

definition step :: "crypto \<Rightarrow> call \<Rightarrow> builder \<Rightarrow> builder \<times> (block_error + block) option" where
  "step cr a bu =
    (case a of
       Call_succeeds rotation \<Rightarrow> (fst (succeeds cr rotation bu), None)
     | Call_public ts refs ops \<Rightarrow> apsnd Some (bu_public cr ts refs ops bu)
     | Call_rotation ts refs new_pub \<Rightarrow> apsnd Some (bu_rotation cr ts refs new_pub bu)
     | Call_private enc nonce \<Rightarrow> apsnd Some (bu_private cr enc nonce bu))"

text \<open>What a sequence of calls leaves: the builder, the blocks signed and the rotations it took.\<close>

inductive builds :: "crypto \<Rightarrow> byte list \<Rightarrow> builder \<Rightarrow> block list \<Rightarrow> block list \<Rightarrow> bool" for cr priv where
  new: "new_builder priv = Inr bu \<Longrightarrow> builds cr priv bu [] []"
| take: "builds cr priv bu bs rots \<Longrightarrow> succeeds cr rotation bu = (bu', Inr ()) \<Longrightarrow> builds cr priv bu' bs (rots @ [rotation])"
| sign: "builds cr priv bu bs rots \<Longrightarrow> step cr a bu = (bu', Some (Inr b)) \<Longrightarrow> builds cr priv bu' (bs @ [b]) rots"

text \<open>A call that fails changes nothing, so a run needs no step for it.\<close>

lemma build_fails: "build cr c bu = (bu', Inl e) \<Longrightarrow> bu' = bu"
  by (auto simp: build_def split: if_splits sum.splits)

lemma call_fails: "step cr a bu = (bu', Some (Inl e)) \<Longrightarrow> bu' = bu"
  by (auto simp: step_def bu_public_def bu_rotation_def bu_private_def build_def apsnd_def map_prod_def
      split: call.splits if_splits sum.splits prod.splits)

lemma succeeds_fails: "succeeds cr rotation bu = (bu', Inl e) \<Longrightarrow> bu' = bu"
  by (auto simp: succeeds_def Let_def split: if_splits option.splits)

section \<open>The invariant of a run\<close>

definition builder_ok :: "crypto \<Rightarrow> byte list \<Rightarrow> builder \<Rightarrow> block list \<Rightarrow> block list \<Rightarrow> bool" where
  "builder_ok cr priv bu bs rots \<longleftrightarrow>
    bu_priv bu = priv \<and> bu_pub bu = public_half priv \<and>
    bu_tip bu = (if bs = [] then None else Some (block_digest cr (last bs))) \<and> (bu_started bu \<longleftrightarrow> bs \<noteq> []) \<and>
    (bu_rotated bu \<longleftrightarrow> bs \<noteq> [] \<and> c_type (blk_content (last bs)) = type_rotation) \<and>
    linked cr None bs \<and> (\<forall>b \<in> set bs. sound_block cr b \<and> block_pub b = public_half priv) \<and>
    (\<forall>b \<in> set (butlast bs). c_type (blk_content b) \<noteq> type_rotation) \<and>
    set (bu_genesis_refs bu) = block_digest cr ` set rots \<and>
    (\<forall>r \<in> set rots. \<exists>k. block_rotate_key r = Some k \<and> digest_bytes k = public_half priv) \<and>
    (bs \<noteq> [] \<longrightarrow> (\<forall>r \<in> set rots. validate_succession cr r (hd bs) = Inr empty_report))"

text \<open>What \<open>build\<close> signs.\<close>

lemma build_Inr:
  assumes "build cr c bu = (bu', Inr b)"
  obtains c' where "owned_content bu c = Inr c'" "sign cr c' (bu_priv bu) = Inr b" "\<not> bu_rotated bu"
    "bu' = bu\<lparr>bu_tip := Some (block_digest cr b), bu_started := True\<rparr>"
    "c_type c = type_rotation \<Longrightarrow> bu_tip bu \<noteq> None"
  using assms by (auto simp: build_def bindE_eq_Inr split: if_splits sum.splits)

lemma owned_content_Inr:
  assumes "owned_content bu c = Inr c'"
  shows "c_type c' = c_type c" "c_pub c' = Some (bu_pub bu)"
    "c_prev c' = (case bu_tip bu of None \<Rightarrow> c_prev c | Some t \<Rightarrow> Some t)"
    "bu_tip bu = None \<Longrightarrow> bu_genesis_refs bu \<noteq> [] \<Longrightarrow> c_type c = type_public \<and> set (bu_genesis_refs bu) \<subseteq> set (items (c_refs c'))"
  using assms by (auto simp: owned_content_def Let_def split: option.splits if_splits)

lemma signed_content:
  assumes "sign cr c priv = Inr b" and "c_pub c = Some (public_half priv)"
  shows "blk_content b = c" "sound_block cr b" "block_pub b = public_half priv"
proof -
  have "c\<lparr>c_pub := Some (public_half priv)\<rparr> = c" using assms(2) by (intro content.equality) simp_all
  then show "blk_content b = c" using assms(1) by (auto simp: sign_Inr assemble_Inr)
  then show "block_pub b = public_half priv" using assms(2) by (simp add: block_pub_def)
qed (rule sign_sound [OF assms(1)])

lemma build_ok:
  assumes "builder_ok cr priv bu bs rots" and "build cr c bu = (bu', Inr b)" and "c_prev c = None"
  shows "builder_ok cr priv (bu'\<lparr>bu_rotated := c_type c = type_rotation\<rparr>) (bs @ [b]) rots \<and>
    (c_type c \<noteq> type_rotation \<longrightarrow> bu'\<lparr>bu_rotated := c_type c = type_rotation\<rparr> = bu')"
proof -
  note ok = assms(1) [unfolded builder_ok_def]
  from build_Inr [OF assms(2)] obtain c' where c: "owned_content bu c = Inr c'" "sign cr c' (bu_priv bu) = Inr b" "\<not> bu_rotated bu"
    and bu': "bu' = bu\<lparr>bu_tip := Some (block_digest cr b), bu_started := True\<rparr>"
    and rot: "c_type c = type_rotation \<Longrightarrow> bu_tip bu \<noteq> None" by blast
  note w = owned_content_Inr [OF c(1)]
  have pub: "bu_priv bu = priv" "c_pub c' = Some (public_half priv)" using ok w(2) by simp_all
  note b = signed_content [OF c(2) [unfolded pub(1)] pub(2)]
  have prev: "block_prev b = (if bs = [] then None else Some (block_digest cr (last bs)))"
    using b(1) w(3) ok assms(3) by (simp add: block_prev_def)
  have succession: "validate_succession cr r b = Inr empty_report" if h: "bs = []" "r \<in> set rots" for r
  proof -
    obtain k where k: "block_rotate_key r = Some k" "digest_bytes k = public_half priv" using ok h(2) by blast
    have "bu_tip bu = None" "bu_genesis_refs bu \<noteq> []" "block_digest cr r \<in> set (bu_genesis_refs bu)"
      using ok h by (auto simp del: set_empty simp: set_empty [symmetric])
    then have "c_type c' = type_public" "block_digest cr r \<in> set (items (c_refs c'))" using w(1,4) by auto
    then show ?thesis using k b prev h(1)
      by (simp add: validate_succession_def is_genesis_def block_prev_def block_refs_def)
  qed
  have t: "c_type (blk_content b) = c_type c" using b(1) w(1) by simp
  have last: "\<forall>x \<in> set bs. c_type (blk_content x) \<noteq> type_rotation"
    using ok c(3) by (cases bs rule: rev_cases) auto
  have "builder_ok cr priv (bu'\<lparr>bu_rotated := c_type c = type_rotation\<rparr>) (bs @ [b]) rots"
    unfolding builder_ok_def using ok b(2,3) prev succession t last
    by (cases bs) (auto simp: bu' linked_append)
  moreover have "c_type c \<noteq> type_rotation \<Longrightarrow> bu'\<lparr>bu_rotated := c_type c = type_rotation\<rparr> = bu'"
    using c(3) by (simp add: bu')
  ultimately show ?thesis by blast
qed

lemma step_ok:
  assumes "builder_ok cr priv bu bs rots" and "step cr a bu = (bu', Some (Inr b))"
  shows "builder_ok cr priv bu' (bs @ [b]) rots"
proof (cases a)
  case (Call_public ts refs ops)
  have "type_public \<noteq> type_rotation" using type_names by simp
  then show ?thesis using build_ok [OF assms(1)] assms(2)
    by (fastforce simp: step_def Call_public bu_public_def apsnd_def map_prod_def split: prod.splits)
next
  case (Call_private enc nonce)
  have "type_private \<noteq> type_rotation" using type_names by simp
  then show ?thesis using build_ok [OF assms(1)] assms(2)
    by (fastforce simp: step_def Call_private bu_private_def apsnd_def map_prod_def split: prod.splits)
next
  case (Call_rotation ts refs new_pub)
  then show ?thesis using build_ok [OF assms(1)] assms(2)
    by (fastforce simp: step_def bu_rotation_def apsnd_def map_prod_def split: prod.splits sum.splits)
qed (use assms(2) in \<open>simp add: step_def\<close>)

lemma succeeds_ok:
  assumes "builder_ok cr priv bu bs rots" and "succeeds cr rotation bu = (bu', Inr ())"
  shows "builder_ok cr priv bu' bs (rots @ [rotation])"
proof -
  obtain k where k: "\<not> bu_started bu" "block_rotate_key rotation = Some k" "digest_bytes k = bu_pub bu"
    and bu': "bu' = (if block_digest cr rotation \<in> set (bu_genesis_refs bu) then bu
      else bu\<lparr>bu_genesis_refs := bu_genesis_refs bu @ [block_digest cr rotation]\<rparr>)"
    using assms(2) by (auto simp: succeeds_def Let_def split: if_splits option.splits)
  then show ?thesis using assms(1) by (auto simp: builder_ok_def)
qed

lemma builds_ok: "builds cr priv bu bs rots \<Longrightarrow> builder_ok cr priv bu bs rots"
proof (induction rule: builds.induct)
  case (new bu)
  then show ?case by (auto simp: new_builder_def builder_ok_def split: if_splits)
next
  case (take bu bs rots rotation bu')
  then show ?case using succeeds_ok by blast
next
  case (sign bu bs rots a bu' b)
  then show ?case using step_ok by blast
qed

section \<open>Properties\<close>

text \<open>
  C27. Whatever calls are made, the blocks a builder signs form one chain from a genesis block: each
  verifies under the builder's key and names the one before it, only the last can be a rotation
  block, the tip is its digest, and the genesis block succeeds every rotation block the builder
  was told it succeeds.
\<close>

theorem builder_writes_chain:
  assumes "builds cr priv bu bs rots"
  shows "linked cr None bs \<and> (\<forall>b \<in> set bs. block_verify cr b = Inr () \<and> block_pub b = public_half priv) \<and>
    (\<forall>b \<in> set (butlast bs). c_type (blk_content b) \<noteq> type_rotation) \<and>
    bu_tip bu = (if bs = [] then None else Some (block_digest cr (last bs))) \<and>
    (bs \<noteq> [] \<longrightarrow> (\<forall>r \<in> set rots. validate_succession cr r (hd bs) = Inr empty_report))"
  using builds_ok [OF assms] sound_verifies by (auto simp: builder_ok_def)

lemma built_header:
  assumes "builder_ok cr priv bu bs rots" and "\<forall>b \<in> set bs. src_block src (block_digest cr b) = Inr b" and "src_verdict src = None"
    and "i < length bs"
  shows "\<exists>rep. validate_header cr (bs ! i) src = Inr rep"
proof -
  note ok = assms(1) [unfolded builder_ok_def]
  have mem: "bs ! i \<in> set bs" using assms(4) by simp
  then have s: "sound_block cr (bs ! i)" "block_pub (bs ! i) = public_half priv" using ok by auto
  then have v: "block_verify cr (bs ! i) = Inr ()" "c_version (blk_content (bs ! i)) = protocol_version"
    "has_plaintext_payload (c_type (blk_content (bs ! i))) \<Longrightarrow> block_ops (bs ! i) \<noteq> []"
    using sound_verifies sound_valid [of cr "bs ! i"]
    using type_names
    by (auto simp: validate_content_Inr validate_plain_Inr block_ops_def has_plaintext_payload_def split: if_splits)
  have "\<exists>rep. validate_linkage cr (bs ! i) src empty_report = Inr rep"
  proof (cases i)
    case 0
    then have "block_prev (bs ! i) = None" using linked_nth [of cr None bs i] ok assms(4) by simp
    then show ?thesis by (simp add: validate_linkage_def)
  next
    case (Suc j)
    then have p: "block_prev (bs ! i) = Some (block_digest cr (bs ! j))" using linked_nth [of cr None bs i] ok assms(4) by simp
    have "butlast bs ! j \<in> set (butlast bs)" using Suc assms(4) by (intro nth_mem) simp
    then have j: "bs ! j \<in> set (butlast bs)" "bs ! j \<in> set bs"
      using Suc assms(4) by (simp_all add: nth_butlast)
    then have "c_type (blk_content (bs ! j)) \<noteq> type_rotation" "block_pub (bs ! j) = block_pub (bs ! i)"
      "src_block src (block_digest cr (bs ! j)) = Inr (bs ! j)" using ok s(2) assms(2) by auto
    then show ?thesis using p assms(3) by (auto simp: validate_linkage_def Let_def same_author_def block_pub_def)
  qed
  then show ?thesis using v by (auto simp: validate_header_def Let_def split: option.splits)
qed

text \<open>
  A reader that holds the blocks finds the chain: the walk from the tip returns exactly them, and
  each passes the rules of \<open>Validate\<close> that ask for no reference: version, signature, operations
  and predecessor.
\<close>

theorem built_chain_read_back:
  assumes "builds cr priv bu bs rots" and "bu_tip bu = Some tip"
    and "\<forall>b \<in> set bs. src_block src (block_digest cr b) = Inr b" and "src_verdict src = None"
  shows "walk cr tip src = Some (Inr bs) \<and> (\<forall>b \<in> set bs. \<exists>rep. validate_header cr b src = Inr rep)"
proof
  note ok = builds_ok [OF assms(1)]
  have "bs \<noteq> [] \<and> tip = block_digest cr (last bs)" using ok assms(2) by (auto simp: builder_ok_def split: if_splits)
  then have "held_chain cr src tip bs" using ok assms(3) by (simp add: builder_ok_def held_chain_def)
  then show "walk cr tip src = Some (Inr bs)" by (rule walk_complete)
  show "\<forall>b \<in> set bs. \<exists>rep. validate_header cr b src = Inr rep"
    using built_header [OF ok assms(3,4)] by (auto simp: in_set_conv_nth)
qed

text \<open>
  A call that fails leaves the builder as it was; nothing can be signed once the chain has ended,
  nor can a succession be recorded once it has begun.
\<close>

theorem refused_calls:
  assumes "builds cr priv bu bs rots"
  shows "(step cr a bu = (bu', Some (Inl e)) \<longrightarrow> bu' = bu) \<and> (succeeds cr r bu = (bu', Inl e) \<longrightarrow> bu' = bu) \<and>
    (bs \<noteq> [] \<and> c_type (blk_content (last bs)) = type_rotation \<longrightarrow> step cr a bu \<noteq> (bu', Some (Inr b))) \<and>
    (bs \<noteq> [] \<longrightarrow> succeeds cr r bu = (bu, Inl Already_started))"
proof -
  have "step cr a bu \<noteq> (bu', Some (Inr b))" if "bs \<noteq> []" "c_type (blk_content (last bs)) = type_rotation"
  proof
    assume "step cr a bu = (bu', Some (Inr b))"
    from builds.sign [OF assms this] have "builder_ok cr priv bu' (bs @ [b]) rots" by (rule builds_ok)
    then show False using that by (auto simp: builder_ok_def butlast_append)
  qed
  moreover have "bs \<noteq> [] \<Longrightarrow> bu_started bu" using builds_ok [OF assms] by (simp add: builder_ok_def)
  then have "bs \<noteq> [] \<Longrightarrow> succeeds cr r bu = (bu, Inl Already_started)" by (simp add: succeeds_def)
  ultimately show ?thesis using call_fails succeeds_fails by blast
qed

section \<open>Witnesses\<close>

text \<open>A successor chain of two blocks: the genesis block that names the rotation, and a rotation of its own.\<close>

lemma sign_own_key: "c_pub c = None \<Longrightarrow> sign cr (c\<lparr>c_pub := Some (public_half priv)\<rparr>) priv = sign cr c priv"
  by (simp add: sign_def Let_def)

lemma sample_succession:
  obtains r g t bu bu1 where "builds sample_crypto sample_key bu [g, t] [r]" and "builds sample_crypto sample_key bu1 [g] [r]" and "block_refs g = [block_digest sample_crypto r]"
    and "c_type (blk_content t) = type_rotation"
proof -
  let ?old = "replicate 64 8 :: byte list" and ?cr = sample_crypto
  have k: "length sample_key = 64" "length ?old = 64" by (simp_all add: sample_key_def)
  have l: "length (public_half sample_key) = 32" using public_half_length k by blast
  have "digest_bytes (digest_of_bytes (public_half sample_key)) \<noteq> public_half ?old"
    using l by (simp add: public_half_def sample_key_def)
  then obtain r where r: "sound_block ?cr r" "block_ops r = [Rotate_key (digest_of_bytes (public_half sample_key))]"
    "c_type (blk_content r) = type_rotation"
    using rotation_block [OF k(2), of "digest_of_bytes (public_half sample_key)" 1] by blast
  let ?d = "block_digest ?cr r"
  have rk: "block_rotate_key r = Some (digest_of_bytes (public_half sample_key))"
    using r(2,3) by (simp add: block_rotate_key_def block_ops_def)
  have d: "distinct [?d]" "length [?d] \<le> 64" "[Create_atom water] \<noteq> []"
    "\<forall>op \<in> set [Create_atom water]. wf_op op \<and> \<not> is_rotate_key op" "bulk (Array (map op_value [Create_atom water])) < 2 ^ 30"
    using wf_water sample_bulk(1) by (simp_all add: is_rotate_key_def)
  obtain g where g: "sign ?cr (public_content None [?d] [Create_atom water]) sample_key = Inr g" "block_refs g = [?d]"
    using public_block [OF k(1) d, of None] by blast
  let ?new = "digest_of_bytes (public_half ?old)"
  have "digest_bytes ?new \<noteq> public_half sample_key"
    using public_half_length [OF k(2)] by (simp add: public_half_def sample_key_def)
  then obtain t where t: "sign ?cr (rotation_content (block_digest ?cr g) ?new) sample_key = Inr t" "c_type (blk_content t) = type_rotation"
    using rotation_block [OF k(1), of ?new "block_digest ?cr g"] by blast
  define b0 where "b0 = \<lparr>bu_priv = sample_key, bu_pub = public_half sample_key, bu_tip = None, bu_started = False,
    bu_rotated = False, bu_genesis_refs = []\<rparr>"
  then have b0: "new_builder sample_key = Inr b0" "bu_priv b0 = sample_key" "bu_pub b0 = public_half sample_key" "bu_tip b0 = None"
    "\<not> bu_started b0" "\<not> bu_rotated b0" "bu_genesis_refs b0 = []"
    using k(1) by (simp_all add: new_builder_def private_key_size_def)
  let ?b1 = "b0\<lparr>bu_genesis_refs := [?d]\<rparr>"
  have s1: "succeeds ?cr r b0 = (?b1, Inr ())" using b0 rk l by (simp add: succeeds_def)
  let ?b2 = "?b1\<lparr>bu_tip := Some (block_digest ?cr g), bu_started := True\<rparr>"
  have "step ?cr (Call_public 0 None (Some [Create_atom water])) ?b1 = (?b2, Some (Inr g))"
    using b0 g(1) sign_own_key [of "public_content None [?d] [Create_atom water]" ?cr sample_key] type_names
    by (simp add: step_def bu_public_def build_def owned_content_def public_content_def)
  note s2 = this
  let ?b3 = "?b2\<lparr>bu_tip := Some (block_digest ?cr t), bu_started := True, bu_rotated := True\<rparr>"
  have nr: "new_rotate_key (public_half ?old) = Inr (Rotate_key ?new)" using public_half_length [OF k(2)] by simp
  have s3: "step ?cr (Call_rotation 0 (Some []) (public_half ?old)) ?b2 = (?b3, Some (Inr t))"
    using b0 t(1) sign_own_key [of "rotation_content (block_digest ?cr g) ?new" ?cr sample_key]
    by (simp add: step_def bu_rotation_def build_def owned_content_def rotation_content_def nr del: new_rotate_key_Inr)
  have "builds ?cr sample_key ?b2 [g] [r]" using builds.sign [OF builds.take [OF builds.new [OF b0(1)] s1] s2] by simp
  moreover from builds.sign [OF this s3] have "builds ?cr sample_key ?b3 [g, t] [r]" by simp
  ultimately show thesis using that g(2) t(2) by blast
qed

theorem builder_writes_chain_witness:
  "\<exists>r g t. linked sample_crypto None [g, t] \<and> validate_succession sample_crypto r g = Inr empty_report \<and>
    c_type (blk_content t) = type_rotation"
proof -
  obtain r g t bu where b: "builds sample_crypto sample_key bu [g, t] [r]" "c_type (blk_content t) = type_rotation"
    by (rule sample_succession)
  from builder_writes_chain [OF b(1)] b(2) show ?thesis by auto
qed

theorem built_chain_read_back_witness:
  "\<exists>g src. walk sample_crypto (block_digest sample_crypto g) src = Some (Inr [g]) \<and> (\<exists>rep. validate_header sample_crypto g src = Inr rep)"
proof -
  obtain g r bu where b: "builds sample_crypto sample_key bu [g] [r]" by (rule sample_succession)
  have tip: "bu_tip bu = Some (block_digest sample_crypto g)" using builds_ok [OF b] by (simp add: builder_ok_def)
  let ?src = "map_source [block_digest sample_crypto g \<mapsto> g]"
  have "\<forall>x \<in> set [g]. src_block ?src (block_digest sample_crypto x) = Inr x" "src_verdict ?src = None"
    by (simp_all add: map_source_def)
  from built_chain_read_back [OF b tip this] show ?thesis by auto
qed

theorem refused_calls_witness:
  "\<exists>bu. (\<forall>r. succeeds sample_crypto r bu = (bu, Inl Already_started)) \<and>
    (\<forall>a bu' b. step sample_crypto a bu \<noteq> (bu', Some (Inr b)))"
proof -
  obtain r g t bu where b: "builds sample_crypto sample_key bu [g, t] [r]" "c_type (blk_content t) = type_rotation"
    by (rule sample_succession)
  have "succeeds sample_crypto r' bu = (bu, Inl Already_started) \<and> step sample_crypto a bu \<noteq> (bu', Some (Inr x))" for r' a bu' x
    using refused_calls [OF b(1), of a bu' undefined r' x] b(2) by simp
  then show ?thesis by blast
qed

end
