(* ===== verification/Ordered.thy ===== *)
theory Ordered
  imports Cid "HOL-Library.Product_Lexorder"
begin

text \<open>
  Ascending lists without repetition, which is how the graph and the views over it keep every
  index (\<open>insertDigest\<close>, \<open>insertAuthor\<close>, \<open>digestSet\<close> and \<open>keySet\<close> of \<open>go/graph\<close> and
  \<open>go/accept\<close>). Digests and keys are compared bytewise by the code and as numbers here.
\<close>

section \<open>Bytewise order\<close>

lemma be_nat_Cons: "be_nat (b # bs) = unat b * 256 ^ length bs + be_nat bs"
  by (induction bs rule: rev_induct) (simp_all add: be_nat_def algebra_simps)

lemma bytes_less: "length as = length bs \<Longrightarrow> as < bs \<longleftrightarrow> be_nat as < be_nat bs"
proof (induction as bs rule: list_induct2)
  case (Cons a as b bs)
  let ?p = "256 ^ length bs :: nat"
  have bound: "be_nat as < ?p" "be_nat bs < ?p" using be_nat_less [of as] be_nat_less [of bs] Cons.hyps by simp_all
  have "unat a * ?p + be_nat as < unat b * ?p + be_nat bs" if "a < b"
  proof -
    have "unat a * ?p + ?p \<le> unat b * ?p" using that by (metis Suc_leI add.commute mult_Suc mult_le_mono1 word_less_nat_alt)
    then show ?thesis using bound by linarith
  qed
  moreover have "unat b * ?p + be_nat bs < unat a * ?p + be_nat as" if "b < a"
  proof -
    have "unat b * ?p + ?p \<le> unat a * ?p" using that by (metis Suc_leI add.commute mult_Suc mult_le_mono1 word_less_nat_alt)
    then show ?thesis using bound by linarith
  qed
  ultimately show ?case using Cons by (cases a b rule: linorder_cases) (auto simp: be_nat_Cons)
qed simp

text \<open>The order of digests as numbers is the order of their bytes.\<close>

lemma digest_less_iff: "digest_bytes a < digest_bytes b \<longleftrightarrow> a < b"
proof -
  have n: "be_nat (digest_bytes d) = unat d" for d
    using unsigned_less [of d, where 'a = nat] by (simp add: digest_bytes_def be_nat_be_bytes)
  show ?thesis using bytes_less [of "digest_bytes a" "digest_bytes b"] by (simp add: n word_less_nat_alt)
qed

section \<open>Ordered insertion\<close>

text \<open>Where \<open>slices.BinarySearchFunc\<close> finds its target in an ascending slice, and \<open>slices.Insert\<close>.\<close>

definition binary_search :: "'a::linorder list \<Rightarrow> 'a \<Rightarrow> nat \<times> bool" where
  "binary_search s x = (let i = length (takeWhile (\<lambda>y. y < x) s) in (i, i < length s \<and> s ! i = x))"

definition slice_insert :: "'a list \<Rightarrow> nat \<Rightarrow> 'a \<Rightarrow> 'a list" where
  "slice_insert s i x = take i s @ x # drop i s"

definition insert_ordered :: "'a::linorder list \<Rightarrow> 'a \<Rightarrow> 'a list" where
  "insert_ordered s x = (case binary_search s x of (i, found) \<Rightarrow> if found then s else slice_insert s i x)"

lemma slice_insert_insort:
  "sorted s \<Longrightarrow> slice_insert s (length (takeWhile (\<lambda>y. y < x) s)) x = insort x s"
  by (induction s) (auto simp: slice_insert_def not_less)

lemma binary_search_found:
  "sorted s \<Longrightarrow> snd (binary_search s x) \<longleftrightarrow> x \<in> set s"
  by (induction s) (auto simp: binary_search_def Let_def not_less)

lemma insert_ordered_insort: "sorted s \<Longrightarrow> insert_ordered s x = insort_insert x s"
  using binary_search_found [of s x] slice_insert_insort [of s x]
  by (auto simp: insert_ordered_def insort_insert_key_def binary_search_def Let_def)

text \<open>An index is determined by the set of what it lists.\<close>

lemma insert_ordered_set [simp]:
  "finite S \<Longrightarrow> insert_ordered (sorted_list_of_set S) x = sorted_list_of_set (insert x S)"
proof -
  assume S: "finite S"
  have "insert_ordered (sorted_list_of_set S) x = insort_insert x (sorted_list_of_set S)"
    by (simp add: insert_ordered_insort)
  also have "\<dots> = sorted_list_of_set (insert x S)"
    using S by (cases "x \<in> S") (simp_all add: insort_insert_key_def insert_absorb)
  finally show ?thesis .
qed

lemma insert_ordered_fold:
  "finite S \<Longrightarrow> foldl insert_ordered (sorted_list_of_set S) xs = sorted_list_of_set (S \<union> set xs)"
  by (induction xs arbitrary: S) (simp_all del: sorted_list_of_set_insert_remove)

lemma insert_ordered_all [simp]: "foldl insert_ordered [] xs = sorted_list_of_set (set xs)"
  using insert_ordered_fold [of "{}" xs] by simp

end
