(* ===== verification/Graph.thy ===== *)
theory Graph
  imports Samples Ordered
begin

text \<open>
  The ontology graph (\<open>go/graph\<close>): the entities of the ingested blocks, each kept once with the
  records of who published it where, behind indexes that are ascending lists. The maps are only
  read and written by key, so they are functions. A refused block writes nothing before it is
  refused, so an ingestion gives an error or the new graph; the lock is not represented.
\<close>

section \<open>Data\<close>

datatype graph_entity = Atom_entity atom | Bond_entity bond | Molecule_entity molecule

text \<open>An authorship record: the author's key and the block, ordered by the one and then the other.\<close>

type_synonym tag = "public_key \<times> digest"

record entry =
  ge_kind :: entity_kind
  ge_value :: graph_entity
  ge_authors :: "tag list"

record graph =
  gr_entities :: "digest \<Rightarrow> entry option"
  gr_order :: "digest list"
  gr_by_kind :: "entity_kind \<Rightarrow> digest list"
  gr_by_author :: "public_key \<Rightarrow> digest list"
  gr_authors :: "public_key list"
  gr_blocks :: "digest \<Rightarrow> digest option"
  gr_block_order :: "digest list"

definition new_graph :: graph where
  "new_graph = \<lparr>gr_entities = (\<lambda>_. None), gr_order = [], gr_by_kind = (\<lambda>_. []), gr_by_author = (\<lambda>_. []),
    gr_authors = [], gr_blocks = (\<lambda>_. None), gr_block_order = []\<rparr>"

datatype graph_error =
    Payload_required digest
  | Payload_mismatch digest
  | Not_a_private_block digest string
  | Payload_refused digest form_error
  | Author_key_length nat
  | Kind_changed digest entity_kind entity_kind
  | Unknown_entity nat string
  | Entity_mismatch nat digest digest

section \<open>Ingestion\<close>

definition graph_entity_digest :: "(byte list \<Rightarrow> digest) \<Rightarrow> graph_entity \<Rightarrow> digest" where
  "graph_entity_digest sha e =
    (case e of Atom_entity a \<Rightarrow> atom_digest sha a | Bond_entity b \<Rightarrow> bond_digest sha b | Molecule_entity m \<Rightarrow> molecule_digest sha m)"

record creation =
  cn_digest :: digest
  cn_kind :: entity_kind
  cn_value :: graph_entity

fun operation_entity :: "operation \<Rightarrow> graph_entity option" where
  "operation_entity (Create_atom a) = Some (Atom_entity a)"
| "operation_entity (Create_bond b) = Some (Bond_entity b)"
| "operation_entity (Create_molecule m) = Some (Molecule_entity m)"
| "operation_entity (Rotate_key k) = None"

fun creations :: "(byte list \<Rightarrow> digest) \<Rightarrow> nat \<Rightarrow> operation list \<Rightarrow> graph_error + creation list" where
  "creations sha i [] = Inr []"
| "creations sha i (op # ops) =
    (case creates sha op of
       None \<Rightarrow> creations sha (i + 1) ops
     | Some (d, kind) \<Rightarrow>
         (case operation_entity op of
            None \<Rightarrow> Inl (Unknown_entity i (op_name op))
          | Some e \<Rightarrow>
              if graph_entity_digest sha e \<noteq> d then Inl (Entity_mismatch i d (graph_entity_digest sha e))
              else bindE (creations sha (i + 1) ops) (\<lambda>cs. Inr (\<lparr>cn_digest = d, cn_kind = kind, cn_value = e\<rparr> # cs))))"

definition graph_add :: "tag \<Rightarrow> creation \<Rightarrow> graph \<Rightarrow> graph" where
  "graph_add t c g =
    (let d = cn_digest c;
         g1 = (case gr_entities g d of
             Some n \<Rightarrow> g
           | None \<Rightarrow> g\<lparr>gr_entities := (gr_entities g)(d \<mapsto> \<lparr>ge_kind = cn_kind c, ge_value = cn_value c, ge_authors = []\<rparr>),
               gr_order := insert_ordered (gr_order g) d,
               gr_by_kind := (gr_by_kind g)(cn_kind c := insert_ordered (gr_by_kind g (cn_kind c)) d)\<rparr>);
         n = the (gr_entities g1 d)
     in g1\<lparr>gr_entities := (gr_entities g1)(d \<mapsto> n\<lparr>ge_authors := insert_ordered (ge_authors n) t\<rparr>),
           gr_authors := insert_ordered (gr_authors g1) (fst t),
           gr_by_author := (gr_by_author g1)(fst t := insert_ordered (gr_by_author g1 (fst t)) d)\<rparr>)"

definition changed_kind :: "graph \<Rightarrow> creation \<Rightarrow> bool" where
  "changed_kind g c \<longleftrightarrow> (case gr_entities g (cn_digest c) of None \<Rightarrow> False | Some n \<Rightarrow> ge_kind n \<noteq> cn_kind c)"

definition ingest :: "crypto \<Rightarrow> block \<Rightarrow> operation list \<Rightarrow> digest \<Rightarrow> graph \<Rightarrow> graph_error + graph" where
  "ingest cr b ops payload g =
    bindE (creations (sha256 cr) 0 ops) (\<lambda>created.
    if length (block_pub b) \<noteq> public_key_size then Inl (Author_key_length (length (block_pub b)))
    else let t = (digest_of_bytes (block_pub b), block_digest cr b) in
      case gr_blocks g (snd t) of
        Some stored \<Rightarrow> if stored \<noteq> payload then Inl (Payload_mismatch (snd t)) else Inr g
      | None \<Rightarrow>
          (case find (changed_kind g) created of
             Some c \<Rightarrow> Inl (Kind_changed (cn_digest c) (cn_kind c) (ge_kind (the (gr_entities g (cn_digest c)))))
           | None \<Rightarrow>
               let g' = foldl (\<lambda>g c. graph_add t c g) g created in
               Inr (g'\<lparr>gr_blocks := (gr_blocks g')(snd t \<mapsto> payload),
                 gr_block_order := insert_ordered (gr_block_order g') (snd t)\<rparr>)))"

definition graph_ingest :: "crypto \<Rightarrow> block \<Rightarrow> graph \<Rightarrow> graph_error + graph" where
  "graph_ingest cr b g =
    (if c_type (blk_content b) = type_private then Inl (Payload_required (block_digest cr b))
     else ingest cr b (block_ops b) 0 g)"

definition graph_ingest_payload :: "crypto \<Rightarrow> block \<Rightarrow> payload \<Rightarrow> graph \<Rightarrow> graph_error + graph" where
  "graph_ingest_payload cr b p g =
    (if c_type (blk_content b) \<noteq> type_private then Inl (Not_a_private_block (block_digest cr b) (c_type (blk_content b)))
     else bindE (mapErr (Payload_refused (block_digest cr b)) (encode_payload p)) (\<lambda>enc.
       ingest cr b (p_ops p) (sum_digest (sha256 cr) enc) g))"

section \<open>Queries\<close>

definition entries_of :: "graph \<Rightarrow> digest list \<Rightarrow> entry list" where
  "entries_of g ds = concat (map (\<lambda>d. case gr_entities g d of None \<Rightarrow> [] | Some n \<Rightarrow> [n]) ds)"

definition graph_entries :: "graph \<Rightarrow> entry list" where
  "graph_entries g = entries_of g (gr_order g)"

definition entries_of_kind :: "entity_kind \<Rightarrow> graph \<Rightarrow> entry list" where
  "entries_of_kind k g = entries_of g (gr_by_kind g k)"

definition entries_by_author :: "byte list \<Rightarrow> graph \<Rightarrow> entry list" where
  "entries_by_author pub g =
    (if length pub \<noteq> public_key_size then [] else entries_of g (gr_by_author g (digest_of_bytes pub)))"

definition provenance :: "digest \<Rightarrow> graph \<Rightarrow> tag list" where
  "provenance d g = (case gr_entities g d of None \<Rightarrow> [] | Some n \<Rightarrow> ge_authors n)"

definition authored_by :: "byte list \<Rightarrow> entry \<Rightarrow> bool" where
  "authored_by pub e \<longleftrightarrow> list_ex (\<lambda>t. digest_bytes (fst t) = pub) (ge_authors e)"

definition has_block :: "digest \<Rightarrow> graph \<Rightarrow> bool" where
  "has_block d g \<longleftrightarrow> gr_blocks g d \<noteq> None"

section \<open>What a graph shows\<close>

text \<open>
  The abstract graph is a set of facts: an entity was created by a block of an author. A concrete
  graph shows a set of facts when its map has the created entities with their records and every
  index lists exactly what it should.
\<close>

type_synonym fact = "creation \<times> tag"

definition tags_of :: "fact set \<Rightarrow> digest \<Rightarrow> tag set" where
  "tags_of F d = {t. \<exists>c. (c, t) \<in> F \<and> cn_digest c = d}"

definition entry_of :: "fact set \<Rightarrow> creation \<Rightarrow> entry" where
  "entry_of F c = \<lparr>ge_kind = cn_kind c, ge_value = cn_value c, ge_authors = sorted_list_of_set (tags_of F (cn_digest c))\<rparr>"

definition digests_of :: "fact set \<Rightarrow> digest set" where
  "digests_of F = (\<lambda>f. cn_digest (fst f)) ` F"

definition of_kind :: "fact set \<Rightarrow> entity_kind \<Rightarrow> digest set" where
  "of_kind F k = digests_of {f \<in> F. cn_kind (fst f) = k}"

definition of_author :: "fact set \<Rightarrow> public_key \<Rightarrow> digest set" where
  "of_author F a = digests_of {f \<in> F. fst (snd f) = a}"

definition authors_of :: "fact set \<Rightarrow> public_key set" where
  "authors_of F = (\<lambda>f. fst (snd f)) ` F"

lemma sets_insert:
  "digests_of (insert (c, t) F) = insert (cn_digest c) (digests_of F)"
  "of_kind (insert (c, t) F) k = (if cn_kind c = k then insert (cn_digest c) (of_kind F k) else of_kind F k)"
  "of_author (insert (c, t) F) a = (if fst t = a then insert (cn_digest c) (of_author F a) else of_author F a)"
  "authors_of (insert (c, t) F) = insert (fst t) (authors_of F)"
  by (force simp: digests_of_def of_kind_def of_author_def authors_of_def)+

lemma finite_sets [simp]:
  "finite F \<Longrightarrow> finite (digests_of F)" "finite F \<Longrightarrow> finite (of_kind F k)" "finite F \<Longrightarrow> finite (of_author F a)"
  "finite F \<Longrightarrow> finite (authors_of F)"
  by (auto simp: digests_of_def of_kind_def of_author_def authors_of_def)

definition graph_shows :: "fact set \<Rightarrow> graph \<Rightarrow> bool" where
  "graph_shows F g \<longleftrightarrow>
    (\<forall>d. gr_entities g d = None \<longleftrightarrow> tags_of F d = {}) \<and>
    (\<forall>c t. (c, t) \<in> F \<longrightarrow> gr_entities g (cn_digest c) = Some (entry_of F c)) \<and>
    gr_order g = sorted_list_of_set (digests_of F) \<and>
    (\<forall>k. gr_by_kind g k = sorted_list_of_set (of_kind F k)) \<and>
    (\<forall>a. gr_by_author g a = sorted_list_of_set (of_author F a)) \<and>
    gr_authors g = sorted_list_of_set (authors_of F)"

text \<open>No digest stands for two entities.\<close>

definition coherent :: "fact set \<Rightarrow> bool" where
  "coherent F \<longleftrightarrow> (\<forall>f \<in> F. \<forall>f' \<in> F. cn_digest (fst f) = cn_digest (fst f') \<longrightarrow> fst f = fst f')"

lemma coherentD: "coherent F \<Longrightarrow> (c, t) \<in> F \<Longrightarrow> (c', t') \<in> F \<Longrightarrow> cn_digest c = cn_digest c' \<Longrightarrow> c = c'"
  by (fastforce simp: coherent_def)

lemma coherent_mono: "coherent F \<Longrightarrow> G \<subseteq> F \<Longrightarrow> coherent G"
  by (auto simp: coherent_def)

lemma tags_of_insert: "tags_of (insert (c, t) F) d = (if d = cn_digest c then insert t (tags_of F d) else tags_of F d)"
  by (auto simp: tags_of_def)

lemma finite_tags: "finite F \<Longrightarrow> finite (tags_of F d)"
proof -
  assume "finite F"
  then have "finite (snd ` F)" by simp
  moreover have "tags_of F d \<subseteq> snd ` F" by (force simp: tags_of_def)
  ultimately show ?thesis by (rule finite_subset [rotated])
qed

lemma shows_empty: "graph_shows {} new_graph"
  by (simp add: graph_shows_def new_graph_def tags_of_def digests_of_def of_kind_def of_author_def authors_of_def)

declare sorted_list_of_set_insert_remove [simp del]

lemma add_shows:
  assumes F: "finite F" and co: "coherent (insert (c, t) F)" and g: "graph_shows F g"
  shows "graph_shows (insert (c, t) F) (graph_add t c g)"
proof -
  let ?d = "cn_digest c" and ?F = "insert (c, t) F"
  note G = g [unfolded graph_shows_def]
  have entry: "entry_of ?F x = (if cn_digest x = ?d then (entry_of F x)\<lparr>ge_authors := sorted_list_of_set (insert t (tags_of F ?d))\<rparr> else entry_of F x)" for x
    by (simp add: entry_of_def tags_of_insert)
  show ?thesis
  proof (cases "gr_entities g ?d")
    case None
    then have no: "tags_of F ?d = {}" using G by simp
    then have new: "\<And>x u. (x, u) \<in> F \<Longrightarrow> cn_digest x \<noteq> ?d" by (auto simp: tags_of_def)
    let ?e = "\<lparr>ge_kind = cn_kind c, ge_value = cn_value c, ge_authors = [t]\<rparr>"
    have ga: "graph_add t c g = g\<lparr>gr_entities := (gr_entities g)(?d \<mapsto> ?e), gr_order := insert_ordered (gr_order g) ?d,
        gr_by_kind := (gr_by_kind g)(cn_kind c := insert_ordered (gr_by_kind g (cn_kind c)) ?d),
        gr_authors := insert_ordered (gr_authors g) (fst t),
        gr_by_author := (gr_by_author g)(fst t := insert_ordered (gr_by_author g (fst t)) ?d)\<rparr>"
      using None insert_ordered_set [of "{}" t] by (simp add: graph_add_def Let_def)
    have "entry_of ?F c = ?e" by (simp add: entry no) (simp add: entry_of_def)
    then show ?thesis
      using G new F by (auto simp: graph_shows_def ga tags_of_insert entry sets_insert)
  next
    case (Some n)
    then have "tags_of F ?d \<noteq> {}" using G by (metis option.distinct(1))
    then obtain x u where xu: "(x, u) \<in> F" "cn_digest x = ?d" by (auto simp: tags_of_def)
    then have "x = c" using coherentD [OF co, of x u c t] by simp
    then have cu: "(c, u) \<in> F" using xu by simp
    then have "gr_entities g ?d = Some (entry_of F c)" using G by blast
    then have n: "n = entry_of F c" using Some by simp
    let ?e = "n\<lparr>ge_authors := insert_ordered (ge_authors n) t\<rparr>"
    have e: "?e = entry_of ?F c" using F finite_tags [OF F] by (simp add: n entry) (simp add: entry_of_def)
    have ga: "graph_add t c g = g\<lparr>gr_entities := (gr_entities g)(?d \<mapsto> ?e),
        gr_authors := insert_ordered (gr_authors g) (fst t),
        gr_by_author := (gr_by_author g)(fst t := insert_ordered (gr_by_author g (fst t)) ?d)\<rparr>"
      using Some by (simp add: graph_add_def Let_def)
    have "?d \<in> digests_of F" "?d \<in> of_kind F (cn_kind c)" using cu by (force simp: digests_of_def of_kind_def)+
    then have same: "insert ?d (digests_of F) = digests_of F" "insert ?d (of_kind F (cn_kind c)) = of_kind F (cn_kind c)" by blast+
    have cy: "y = c" if "(y, v) \<in> F" "cn_digest y = ?d" for y v using coherentD [OF co, of y v c t] that by simp
    show ?thesis
      using G F e cy same by (auto simp: graph_shows_def ga tags_of_insert entry sets_insert)
  qed
qed

lemma add_all_shows:
  "finite F \<Longrightarrow> coherent ((\<lambda>c. (c, t)) ` set cs \<union> F) \<Longrightarrow> graph_shows F g \<Longrightarrow>
    graph_shows ((\<lambda>c. (c, t)) ` set cs \<union> F) (foldl (\<lambda>g c. graph_add t c g) g cs)"
proof (induction cs arbitrary: F g)
  case (Cons c cs)
  have "(\<lambda>c. (c, t)) ` set (c # cs) \<union> F = (\<lambda>c. (c, t)) ` set cs \<union> insert (c, t) F" by auto
  moreover have "graph_shows (insert (c, t) F) (graph_add t c g)"
    using add_shows [of F c t g] Cons.prems by (auto intro: coherent_mono)
  moreover have "coherent ((\<lambda>c. (c, t)) ` set cs \<union> insert (c, t) F)" using Cons.prems(2) calculation(1) by simp
  ultimately show ?case using Cons.IH [of "insert (c, t) F" "graph_add t c g"] Cons.prems(1) by simp
qed simp

section \<open>Ingested items\<close>

text \<open>What is ingested: a block whose operations are in the clear, or one with its decrypted payload.\<close>

type_synonym item = "block \<times> payload option"

definition item_ops :: "item \<Rightarrow> operation list" where
  "item_ops x = (case snd x of None \<Rightarrow> block_ops (fst x) | Some p \<Rightarrow> p_ops p)"

definition item_payload :: "crypto \<Rightarrow> item \<Rightarrow> digest" where
  "item_payload cr x = (case snd x of None \<Rightarrow> 0
     | Some p \<Rightarrow> (case encode_payload p of Inl e \<Rightarrow> 0 | Inr enc \<Rightarrow> sum_digest (sha256 cr) enc))"

definition item_digest :: "crypto \<Rightarrow> item \<Rightarrow> digest" where
  "item_digest cr x = block_digest cr (fst x)"

definition item_tag :: "crypto \<Rightarrow> item \<Rightarrow> tag" where
  "item_tag cr x = (digest_of_bytes (block_pub (fst x)), item_digest cr x)"

definition take_item :: "crypto \<Rightarrow> item \<Rightarrow> graph \<Rightarrow> graph_error + graph" where
  "take_item cr x g = (case snd x of None \<Rightarrow> graph_ingest cr (fst x) g | Some p \<Rightarrow> graph_ingest_payload cr (fst x) p g)"

text \<open>Whether the method takes the item at all, the author's key being of its length.\<close>

definition item_fits :: "item \<Rightarrow> bool" where
  "item_fits x \<longleftrightarrow> length (block_pub (fst x)) = public_key_size \<and>
    (case snd x of None \<Rightarrow> c_type (blk_content (fst x)) \<noteq> type_private
     | Some p \<Rightarrow> c_type (blk_content (fst x)) = type_private \<and> (\<exists>enc. encode_payload p = Inr enc))"

definition creation_of :: "(byte list \<Rightarrow> digest) \<Rightarrow> operation \<Rightarrow> creation option" where
  "creation_of sha op = (case (creates sha op, operation_entity op) of
     (Some (d, kind), Some e) \<Rightarrow> Some \<lparr>cn_digest = d, cn_kind = kind, cn_value = e\<rparr> | _ \<Rightarrow> None)"

definition created_by :: "crypto \<Rightarrow> item \<Rightarrow> creation list" where
  "created_by cr x = List.map_filter (creation_of (sha256 cr)) (item_ops x)"

definition item_facts :: "crypto \<Rightarrow> item \<Rightarrow> fact set" where
  "item_facts cr x = (\<lambda>c. (c, item_tag cr x)) ` set (created_by cr x)"

definition facts :: "crypto \<Rightarrow> item set \<Rightarrow> fact set" where
  "facts cr X = (\<Union>x \<in> X. item_facts cr x)"

text \<open>The branches the code marks unreachable are: extraction never fails.\<close>

lemma creations_total: "creations sha i ops = Inr (List.map_filter (creation_of sha) ops)"
proof (induction ops arbitrary: i)
  case (Cons op ops)
  then show ?case by (cases op) (simp_all add: creation_of_def graph_entity_digest_def map_filter_simps)
qed (simp add: map_filter_simps)

text \<open>The items ever offered: no digest stands for two entities, and none for two payloads of a block.\<close>

definition honest_items :: "crypto \<Rightarrow> item set \<Rightarrow> bool" where
  "honest_items cr W \<longleftrightarrow> coherent (facts cr W) \<and> inj_on (\<lambda>x. (item_digest cr x, item_payload cr x)) W"

inductive graph_of :: "crypto \<Rightarrow> item set \<Rightarrow> item set \<Rightarrow> graph \<Rightarrow> bool" for cr W where
  new: "graph_of cr W {} new_graph"
| take: "graph_of cr W X g \<Longrightarrow> x \<in> W \<Longrightarrow> take_item cr x g = Inr g' \<Longrightarrow> graph_of cr W (insert x X) g'"

text \<open>The graph is exactly what the items ingested say.\<close>

definition graph_ok :: "crypto \<Rightarrow> item set \<Rightarrow> graph \<Rightarrow> bool" where
  "graph_ok cr X g \<longleftrightarrow> graph_shows (facts cr X) g \<and>
    (\<forall>x \<in> X. gr_blocks g (item_digest cr x) = Some (item_payload cr x)) \<and>
    (\<forall>d. gr_blocks g d = None \<longleftrightarrow> d \<notin> item_digest cr ` X) \<and>
    gr_block_order g = sorted_list_of_set (item_digest cr ` X)"

lemma graph_ok_new: "graph_ok cr {} new_graph"
  using shows_empty by (simp add: graph_ok_def facts_def) (simp add: new_graph_def)

lemma finite_facts: "finite X \<Longrightarrow> finite (facts cr X)"
  by (simp add: facts_def item_facts_def)

lemma facts_insert: "facts cr (insert x X) = item_facts cr x \<union> facts cr X"
  by (simp add: facts_def)

lemma facts_mono: "X \<subseteq> W \<Longrightarrow> facts cr X \<subseteq> facts cr W"
  by (auto simp: facts_def)

text \<open>What taking an item does to a graph that is exact.\<close>

definition take_core :: "crypto \<Rightarrow> item \<Rightarrow> graph \<Rightarrow> graph" where
  "take_core cr x g = (let g' = foldl (\<lambda>g c. graph_add (item_tag cr x) c g) g (created_by cr x) in
    g'\<lparr>gr_blocks := (gr_blocks g')(item_digest cr x \<mapsto> item_payload cr x),
      gr_block_order := insert_ordered (gr_block_order g') (item_digest cr x)\<rparr>)"

lemma graph_add_blocks [simp]:
  "gr_blocks (graph_add t c g) = gr_blocks g" "gr_block_order (graph_add t c g) = gr_block_order g"
  by (simp_all add: graph_add_def Let_def split: option.splits)

lemma fold_add_blocks [simp]:
  "gr_blocks (foldl (\<lambda>g c. graph_add t c g) g cs) = gr_blocks g"
  "gr_block_order (foldl (\<lambda>g c. graph_add t c g) g cs) = gr_block_order g"
  by (induction cs arbitrary: g) simp_all

lemma take_item_eq:
  assumes "item_fits x"
  shows "take_item cr x g = (case gr_blocks g (item_digest cr x) of
      Some stored \<Rightarrow> if stored \<noteq> item_payload cr x then Inl (Payload_mismatch (item_digest cr x)) else Inr g
    | None \<Rightarrow> (case find (changed_kind g) (created_by cr x) of
        Some c \<Rightarrow> Inl (Kind_changed (cn_digest c) (cn_kind c) (ge_kind (the (gr_entities g (cn_digest c)))))
      | None \<Rightarrow> Inr (take_core cr x g)))"
proof (cases "snd x")
  case None
  then show ?thesis using assms
    by (simp add: take_item_def graph_ingest_def ingest_def creations_total item_fits_def item_ops_def item_payload_def
        created_by_def take_core_def item_tag_def item_digest_def Let_def split: option.split)
next
  case (Some p)
  then obtain enc where "encode_payload p = Inr enc" using assms by (auto simp: item_fits_def)
  then show ?thesis using assms Some
    by (simp add: take_item_def graph_ingest_payload_def ingest_def creations_total item_fits_def item_ops_def item_payload_def
        created_by_def take_core_def item_tag_def item_digest_def Let_def split: option.split)
qed

lemma take_item_fits: "take_item cr x g = Inr g' \<Longrightarrow> item_fits x"
  by (cases "snd x")
    (auto simp: take_item_def graph_ingest_def graph_ingest_payload_def ingest_def item_fits_def bindE_eq_Inr split: if_splits)

lemma kinds_agree:
  assumes "graph_ok cr X g" and "X \<subseteq> W" and "honest_items cr W" and "x \<in> W"
  shows "find (changed_kind g) (created_by cr x) = None"
proof -
  have "\<not> changed_kind g c" if "c \<in> set (created_by cr x)" for c
  proof (cases "gr_entities g (cn_digest c)")
    case (Some n)
    have sh: "graph_shows (facts cr X) g" using assms(1) by (simp add: graph_ok_def)
    then have "tags_of (facts cr X) (cn_digest c) \<noteq> {}" using Some unfolding graph_shows_def by (metis option.distinct(1))
    then obtain c' t where c': "(c', t) \<in> facts cr X" "cn_digest c' = cn_digest c" by (auto simp: tags_of_def)
    have "(c', t) \<in> facts cr W" using c'(1) facts_mono [OF assms(2)] by blast
    moreover have "(c, item_tag cr x) \<in> facts cr W" using that assms(4) by (auto simp: facts_def item_facts_def)
    ultimately have "(c, item_tag cr x) \<in> facts cr W" "(c', t) \<in> facts cr W" by blast+
    then have "c' = c" using coherentD c'(2) assms(3) unfolding honest_items_def by blast
    then have "gr_entities g (cn_digest c) = Some (entry_of (facts cr X) c)" using sh c'(1) unfolding graph_shows_def by blast
    then show ?thesis by (simp add: changed_kind_def entry_of_def)
  qed (simp add: changed_kind_def)
  then show ?thesis by (simp add: find_None_iff)
qed

lemma take_core_ok:
  assumes "graph_ok cr X g" and "finite X" and "X \<subseteq> W" and "honest_items cr W" and "x \<in> W"
    and "gr_blocks g (item_digest cr x) = None"
  shows "graph_ok cr (insert x X) (take_core cr x g)"
proof -
  have co: "coherent (facts cr (insert x X))"
  proof (rule coherent_mono)
    show "coherent (facts cr W)" using assms(4) by (simp only: honest_items_def)
    show "facts cr (insert x X) \<subseteq> facts cr W" using assms(3,5) by (intro facts_mono) simp
  qed
  let ?g = "foldl (\<lambda>g c. graph_add (item_tag cr x) c g) g (created_by cr x)"
  have fi: "(\<lambda>c. (c, item_tag cr x)) ` set (created_by cr x) \<union> facts cr X = facts cr (insert x X)"
    by (simp only: facts_insert item_facts_def)
  have sh: "graph_shows (facts cr X) g" using assms(1) by (simp only: graph_ok_def)
  have "graph_shows (facts cr (insert x X)) ?g"
    using add_all_shows [OF finite_facts [OF assms(2)] co [folded fi] sh] by (simp only: fi)
  then have "graph_shows (facts cr (insert x X)) (take_core cr x g)" by (simp add: take_core_def Let_def graph_shows_def)
  moreover have "\<forall>y \<in> insert x X. gr_blocks (take_core cr x g) (item_digest cr y) = Some (item_payload cr y)"
  proof
    fix y assume "y \<in> insert x X"
    moreover have "item_digest cr y \<noteq> item_digest cr x" if "y \<in> X"
    proof
      assume "item_digest cr y = item_digest cr x"
      moreover have "gr_blocks g (item_digest cr y) = Some (item_payload cr y)" using assms(1) that by (simp add: graph_ok_def)
      ultimately show False using assms(6) by simp
    qed
    ultimately show "gr_blocks (take_core cr x g) (item_digest cr y) = Some (item_payload cr y)"
      using assms(1) by (cases "y = x") (simp_all add: graph_ok_def take_core_def Let_def)
  qed
  moreover have "\<forall>d. gr_blocks (take_core cr x g) d = None \<longleftrightarrow> d \<notin> item_digest cr ` insert x X"
    using assms(1) by (simp add: graph_ok_def take_core_def Let_def)
  moreover have "gr_block_order (take_core cr x g) = sorted_list_of_set (item_digest cr ` insert x X)"
    using assms(1,2) by (simp add: graph_ok_def take_core_def Let_def)
  ultimately show ?thesis by (simp add: graph_ok_def)
qed

lemma graph_of_ok:
  assumes "graph_of cr W X g" and "honest_items cr W"
  shows "graph_ok cr X g \<and> finite X \<and> X \<subseteq> W"
  using assms(1)
proof (induction rule: graph_of.induct)
  case new
  then show ?case using graph_ok_new by simp
next
  case (take X g x g')
  have f: "item_fits x" using take_item_fits [OF take.hyps(3)] .
  show ?case
  proof (cases "gr_blocks g (item_digest cr x)")
    case None
    then have "g' = take_core cr x g"
      using take.hyps(3) take_item_eq [OF f, of cr g] kinds_agree [of cr X g W x] take.IH assms(2) take.hyps(2) by simp
    then show ?thesis using take_core_ok [of cr X g W x] None take.IH assms(2) take.hyps(2) by simp
  next
    case (Some stored)
    then have g': "g' = g" "stored = item_payload cr x" using take.hyps(3) take_item_eq [OF f, of cr g] by (simp_all split: if_splits)
    obtain y where y: "y \<in> X" "item_digest cr y = item_digest cr x"
      using take.IH Some unfolding graph_ok_def by (metis image_iff option.distinct(1))
    then have "item_payload cr y = item_payload cr x" using take.IH Some g'(2) unfolding graph_ok_def by (metis option.inject)
    then have "y = x" using y take.IH take.hyps(2) assms(2) unfolding honest_items_def by (auto dest: inj_onD)
    then show ?thesis using y(1) take.IH g'(1) take.hyps(2) by (simp add: insert_absorb)
  qed
qed

section \<open>Reading a graph\<close>

lemma showsD:
  assumes "graph_shows F g"
  shows "gr_entities g d = None \<longleftrightarrow> tags_of F d = {}" "(c, t) \<in> F \<Longrightarrow> gr_entities g (cn_digest c) = Some (entry_of F c)"
    "gr_order g = sorted_list_of_set (digests_of F)" "gr_by_kind g k = sorted_list_of_set (of_kind F k)"
    "gr_by_author g a = sorted_list_of_set (of_author F a)" "gr_authors g = sorted_list_of_set (authors_of F)"
  using assms unfolding graph_shows_def by blast+

lemma shows_entity:
  assumes "graph_shows F g" and "gr_entities g d = Some n"
  obtains c t where "(c, t) \<in> F" "cn_digest c = d" "n = entry_of F c"
proof -
  have "tags_of F d \<noteq> {}" using assms unfolding graph_shows_def by (metis option.distinct(1))
  then obtain c t where c: "(c, t) \<in> F" "cn_digest c = d" by (auto simp: tags_of_def)
  then have "gr_entities g d = Some (entry_of F c)" using assms(1) unfolding graph_shows_def by blast
  then show thesis using that [OF c] assms(2) by simp
qed

lemma shows_unique: "graph_shows F g \<Longrightarrow> graph_shows F h \<Longrightarrow> gr_entities g = gr_entities h"
proof
  fix d assume g: "graph_shows F g" and h: "graph_shows F h"
  show "gr_entities g d = gr_entities h d"
  proof (cases "gr_entities g d")
    case None
    then show ?thesis using showsD(1) [OF g, of d] showsD(1) [OF h, of d] by simp
  next
    case (Some n)
    then obtain c t where "(c, t) \<in> F" "cn_digest c = d" "n = entry_of F c" using shows_entity [OF g] by blast
    moreover from this have "gr_entities h d = Some (entry_of F c)" using h unfolding graph_shows_def by blast
    ultimately show ?thesis using Some by simp
  qed
qed

lemma graph_ok_unique:
  assumes "graph_ok cr X g" and "graph_ok cr X h"
  shows "g = h"
proof (rule graph.equality)
  have g: "graph_shows (facts cr X) g" and h: "graph_shows (facts cr X) h" using assms by (simp_all add: graph_ok_def)
  show "gr_entities g = gr_entities h" using shows_unique [OF g h] .
  show "gr_order g = gr_order h" "gr_by_kind g = gr_by_kind h" "gr_by_author g = gr_by_author h" "gr_authors g = gr_authors h"
    using g h by (simp_all add: graph_shows_def fun_eq_iff)
  show "gr_blocks g = gr_blocks h"
  proof
    fix d show "gr_blocks g d = gr_blocks h d"
    proof (cases "d \<in> item_digest cr ` X")
      case True
      then show ?thesis using assms by (auto simp: graph_ok_def)
    next
      case False
      then have "gr_blocks g d = None" "gr_blocks h d = None" using assms unfolding graph_ok_def by blast+
      then show ?thesis by simp
    qed
  qed
  show "gr_block_order g = gr_block_order h" using assms by (simp add: graph_ok_def)
qed simp

lemma sorted_list_of_filter:
  assumes "finite A"
  shows "sorted_list_of_set {x \<in> A. P x} = filter P (sorted_list_of_set A)"
  using assms by (intro sorted_distinct_set_unique) (auto intro: sorted_filter [where f = id, simplified])

lemma fact_digest: "(c, t) \<in> facts cr X \<Longrightarrow> graph_entity_digest (sha256 cr) (cn_value c) = cn_digest c"
proof -
  assume "(c, t) \<in> facts cr X"
  then obtain op where "creation_of (sha256 cr) op = Some c"
    by (auto simp: facts_def item_facts_def created_by_def map_filter_def)
  then show ?thesis by (cases op) (auto simp: creation_of_def graph_entity_digest_def)
qed

lemma entries_of_map:
  assumes "\<forall>d \<in> set ds. gr_entities g d \<noteq> None"
  shows "entries_of g ds = map (\<lambda>d. the (gr_entities g d)) ds"
  using assms by (induction ds) (auto simp: entries_of_def)

lemma shows_dom:
  assumes "graph_shows F g"
  shows "d \<in> digests_of F \<longleftrightarrow> gr_entities g d \<noteq> None"
proof -
  have "d \<in> digests_of F \<longleftrightarrow> tags_of F d \<noteq> {}" by (force simp: digests_of_def tags_of_def)
  then show ?thesis using showsD(1) [OF assms, of d] by simp
qed

lemma shows_kind:
  assumes "graph_shows F g" and "coherent F"
  shows "of_kind F k = {d \<in> digests_of F. ge_kind (the (gr_entities g d)) = k}"
proof -
  have "ge_kind (the (gr_entities g (cn_digest c))) = cn_kind c" if "(c, t) \<in> F" for c t
    using showsD(2) [OF assms(1) that] by (simp add: entry_of_def)
  then show ?thesis by (force simp: of_kind_def digests_of_def)
qed

lemma shows_author:
  assumes "graph_shows F g" and "finite F"
  shows "of_author F a = {d \<in> digests_of F. \<exists>t \<in> set (ge_authors (the (gr_entities g d))). fst t = a}"
proof -
  have au: "set (ge_authors (the (gr_entities g (cn_digest c)))) = tags_of F (cn_digest c)" if "(c, t) \<in> F" for c t
  proof -
    have "gr_entities g (cn_digest c) = Some (entry_of F c)" using showsD(2) [OF assms(1) that] .
    then show ?thesis using finite_tags [OF assms(2)] by (simp add: entry_of_def)
  qed
  show ?thesis
  proof (intro set_eqI iffI)
    fix d assume "d \<in> of_author F a"
    then obtain c t where c: "(c, t) \<in> F" "fst t = a" "cn_digest c = d" by (auto simp: of_author_def digests_of_def)
    moreover have "t \<in> tags_of F d" using c by (auto simp: tags_of_def)
    ultimately show "d \<in> {d \<in> digests_of F. \<exists>t \<in> set (ge_authors (the (gr_entities g d))). fst t = a}"
      using au [OF c(1)] by (force simp: digests_of_def)
  next
    fix d assume "d \<in> {d \<in> digests_of F. \<exists>t \<in> set (ge_authors (the (gr_entities g d))). fst t = a}"
    then obtain c t u where c: "(c, t) \<in> F" "cn_digest c = d" "u \<in> set (ge_authors (the (gr_entities g d)))" "fst u = a"
      by (auto simp: digests_of_def)
    then have "u \<in> tags_of F d" using au [OF c(1)] by simp
    then obtain x where "(x, u) \<in> F" "cn_digest x = d" by (auto simp: tags_of_def)
    then show "d \<in> of_author F a" using c(4) by (force simp: of_author_def digests_of_def)
  qed
qed

section \<open>Properties\<close>

text \<open>
  C11. The graph built from any sequence of ingestions implements the set of facts "this block of this
  author creates this entity": each entity is kept once, with all its records in order, and every
  index lists exactly its entities, authors and blocks.
\<close>

theorem graph_exact:
  assumes "graph_of cr W X g" and "honest_items cr W"
  shows "graph_ok cr X g"
  using graph_of_ok [OF assms] by blast

text \<open>What a graph is depends on what was ingested and not on the order or on repetitions.\<close>

theorem graph_order_independent:
  assumes "graph_of cr W X g" and "graph_of cr W X h" and "honest_items cr W"
  shows "g = h"
  using graph_ok_unique graph_of_ok [OF assms(1,3)] graph_of_ok [OF assms(2,3)] by blast

text \<open>
  An ingestion is refused exactly when the block comes without its payload or with one it has no
  place for, or the block is held with another payload; a repetition changes nothing, and what an
  ingestion adds leaves every entity its kind, its value and the records it had.
\<close>

theorem ingestion_outcome:
  assumes "graph_of cr W X g" and "honest_items cr W" and "x \<in> W"
  shows "((\<exists>g'. take_item cr x g = Inr g') \<longleftrightarrow>
      item_fits x \<and> (\<forall>y \<in> X. item_digest cr y = item_digest cr x \<longrightarrow> item_payload cr y = item_payload cr x)) \<and>
    (x \<in> X \<longrightarrow> item_fits x \<longrightarrow> take_item cr x g = Inr g) \<and>
    (\<forall>g' d n. take_item cr x g = Inr g' \<longrightarrow> gr_entities g d = Some n \<longrightarrow>
      (\<exists>n'. gr_entities g' d = Some n' \<and> ge_kind n' = ge_kind n \<and> ge_value n' = ge_value n \<and>
        set (ge_authors n) \<subseteq> set (ge_authors n')))"
proof (intro conjI allI impI)
  have ok: "graph_ok cr X g" "finite X" "X \<subseteq> W" using graph_of_ok [OF assms(1,2)] by blast+
  have blocks: "gr_blocks g (item_digest cr y) = Some (item_payload cr y)" if "y \<in> X" for y
    using ok(1) that by (simp add: graph_ok_def)
  note kinds = kinds_agree [OF ok(1,3) assms(2,3)]
  show "(\<exists>g'. take_item cr x g = Inr g') \<longleftrightarrow>
      item_fits x \<and> (\<forall>y \<in> X. item_digest cr y = item_digest cr x \<longrightarrow> item_payload cr y = item_payload cr x)"
  proof (cases "item_fits x")
    case True
    show ?thesis
    proof (cases "gr_blocks g (item_digest cr x)")
      case None
      then have "\<forall>y \<in> X. item_digest cr y \<noteq> item_digest cr x" using blocks by fastforce
      then show ?thesis using True None take_item_eq [OF True, of cr g] kinds by simp
    next
      case (Some stored)
      obtain y where y: "y \<in> X" "item_digest cr y = item_digest cr x"
        using ok(1) Some unfolding graph_ok_def by (metis image_iff option.distinct(1))
      have all: "item_payload cr z = stored" if "z \<in> X" "item_digest cr z = item_digest cr x" for z
        using blocks [OF that(1)] that(2) Some by simp
      then have "(\<forall>z \<in> X. item_digest cr z = item_digest cr x \<longrightarrow> item_payload cr z = item_payload cr x) \<longleftrightarrow> stored = item_payload cr x"
        using y by blast
      then show ?thesis using True Some take_item_eq [OF True, of cr g] by simp
    qed
  next
    case False
    then show ?thesis using take_item_fits by blast
  qed
  show "take_item cr x g = Inr g" if "x \<in> X" "item_fits x"
    using take_item_eq [OF that(2), of cr g] blocks [OF that(1)] by simp
  fix g' d n assume t: "take_item cr x g = Inr g'" and n: "gr_entities g d = Some n"
  have ok': "graph_ok cr (insert x X) g'" using graph_of_ok [OF graph_of.take [OF assms(1,3) t] assms(2)] by blast
  have sh: "graph_shows (facts cr X) g" "graph_shows (facts cr (insert x X)) g'" using ok(1) ok' by (simp_all add: graph_ok_def)
  obtain c u where c: "(c, u) \<in> facts cr X" "cn_digest c = d" "n = entry_of (facts cr X) c" using shows_entity [OF sh(1) n] by blast
  have sub: "facts cr X \<subseteq> facts cr (insert x X)" by (rule facts_mono) auto
  then have "gr_entities g' d = Some (entry_of (facts cr (insert x X)) c)" using sh(2) c unfolding graph_shows_def by blast
  moreover have "tags_of (facts cr X) d \<subseteq> tags_of (facts cr (insert x X)) d" using sub by (auto simp: tags_of_def)
  moreover have "finite (tags_of (facts cr X) d)" "finite (tags_of (facts cr (insert x X)) d)"
    using ok(2) finite_tags [OF finite_facts] by simp_all
  ultimately show "\<exists>n'. gr_entities g' d = Some n' \<and> ge_kind n' = ge_kind n \<and> ge_value n' = ge_value n \<and>
      set (ge_authors n) \<subseteq> set (ge_authors n')"
    by (simp add: c entry_of_def)
qed

text \<open>
  The queries agree: the entries come in the order of their digests, those of a kind are the
  entries of that kind, and those by an author the entries with a record of the author.
\<close>

theorem queries_agree:
  assumes "graph_of cr W X g" and "honest_items cr W"
  shows "map (\<lambda>e. graph_entity_digest (sha256 cr) (ge_value e)) (graph_entries g) = gr_order g \<and>
    sorted_wrt (<) (gr_order g) \<and>
    entries_of_kind k g = filter (\<lambda>e. ge_kind e = k) (graph_entries g) \<and>
    entries_by_author pub g = filter (authored_by pub) (graph_entries g)"
proof -
  let ?F = "facts cr X"
  have ok: "graph_ok cr X g" "finite X" "X \<subseteq> W" using graph_of_ok [OF assms] by blast+
  have sh: "graph_shows ?F g" using ok(1) by (simp add: graph_ok_def)
  have fin: "finite ?F" using finite_facts ok(2) by blast
  have "coherent (facts cr W)" using assms(2) by (simp only: honest_items_def)
  then have co: "coherent ?F" using facts_mono [OF ok(3)] by (rule coherent_mono)
  have ix: "gr_order g = sorted_list_of_set (digests_of ?F)" "gr_by_kind g k = sorted_list_of_set (of_kind ?F k)"
    "gr_by_author g a = sorted_list_of_set (of_author ?F a)" for a
    using showsD [OF sh] by blast+
  have held: "\<forall>d \<in> set (gr_order g). gr_entities g d \<noteq> None" using shows_dom [OF sh] fin by (simp add: ix(1))
  have all: "graph_entries g = map (\<lambda>d. the (gr_entities g d)) (gr_order g)"
    unfolding graph_entries_def using entries_of_map [OF held] .
  have "graph_entity_digest (sha256 cr) (ge_value (the (gr_entities g d))) = d" if d: "d \<in> set (gr_order g)" for d
  proof -
    have "gr_entities g d \<noteq> None" using held d by (rule bspec)
    then obtain n where n: "gr_entities g d = Some n" by (rule not_None_eq [THEN iffD1, THEN exE])
    obtain c t where c: "(c, t) \<in> ?F" "cn_digest c = d" "n = entry_of ?F c" using shows_entity [OF sh n] .
    then show ?thesis using fact_digest [OF c(1)] n by (simp add: entry_of_def)
  qed
  then have "map (\<lambda>e. graph_entity_digest (sha256 cr) (ge_value e)) (graph_entries g) = gr_order g"
    by (simp add: all map_idI)
  moreover have "sorted_wrt (<) (gr_order g)" by (simp add: ix(1) strict_sorted_list_of_set)
  moreover have part: "entries_of g (filter P (gr_order g)) = filter (\<lambda>e. Q e) (graph_entries g)"
    if "\<And>d. d \<in> set (gr_order g) \<Longrightarrow> P d \<longleftrightarrow> Q (the (gr_entities g d))" for P Q
  proof -
    have e: "filter P (gr_order g) = filter (\<lambda>d. Q (the (gr_entities g d))) (gr_order g)" using that by (intro filter_cong) auto
    have "\<forall>d \<in> set (filter (\<lambda>d. Q (the (gr_entities g d))) (gr_order g)). gr_entities g d \<noteq> None" using held by simp
    from entries_of_map [OF this] show ?thesis by (simp add: e all filter_map comp_def)
  qed
  have "entries_of_kind k g = filter (\<lambda>e. ge_kind e = k) (graph_entries g)"
    unfolding entries_of_kind_def ix(2) shows_kind [OF sh co]
    using part [of "\<lambda>d. ge_kind (the (gr_entities g d)) = k"] fin by (simp add: sorted_list_of_filter ix(1))
  moreover have "entries_by_author pub g = filter (authored_by pub) (graph_entries g)"
  proof (cases "length pub = public_key_size")
    case True
    then have "digest_bytes a = pub \<longleftrightarrow> a = digest_of_bytes pub" for a by (auto simp: public_key_size_def)
    then have au: "authored_by pub = (\<lambda>e. \<exists>t \<in> set (ge_authors e). fst t = digest_of_bytes pub)"
      by (simp add: authored_by_def list_ex_iff fun_eq_iff)
    show ?thesis unfolding entries_by_author_def ix(3) shows_author [OF sh fin]
      using True part [of "\<lambda>d. \<exists>t \<in> set (ge_authors (the (gr_entities g d))). fst t = digest_of_bytes pub" "authored_by pub"] fin
      by (simp add: sorted_list_of_filter ix(1) au)
  next
    case False
    then have "\<not> authored_by pub e" for e by (auto simp: authored_by_def list_ex_iff public_key_size_def)
    then show ?thesis using False by (simp add: entries_by_author_def)
  qed
  ultimately show ?thesis by blast
qed

section \<open>Witnesses\<close>

lemma take_new:
  assumes "graph_of cr W Z g" and "honest_items cr W" and "z \<in> W" and "item_fits z" and "gr_blocks g (item_digest cr z) = None"
  shows "take_item cr z g = Inr (take_core cr z g) \<and> graph_of cr W (insert z Z) (take_core cr z g)"
proof -
  have "find (changed_kind g) (created_by cr z) = None" using kinds_agree graph_of_ok [OF assms(1,2)] assms(2,3) by blast
  then have "take_item cr z g = Inr (take_core cr z g)" using take_item_eq [OF assms(4)] assms(5) by simp
  then show ?thesis using graph_of.take [OF assms(1,3)] by simp
qed

lemma two_items:
  obtains cr x y g h where "honest_items cr {x, y}" and "graph_of cr {x, y} {x, y} g" and "graph_of cr {x, y} {x, y} h"
    and "take_item cr x new_graph \<noteq> take_item cr y new_graph" and "item_fits x" and "item_fits y"
proof -
  obtain a where a: "decode_block sample_crypto (blk_enc a) = Inr a" "block_ops a = [Create_atom water]"
    "block_pub a = public_half sample_key" "c_type (blk_content a) = type_public"
    using genesis_atom_block [OF wf_water] by (auto simp: water_def)
  obtain b where b: "decode_block sample_crypto (blk_enc b) = Inr b" "block_ops b = [Create_atom ice]"
    "block_pub b = public_half sample_key" "c_type (blk_content b) = type_public"
    using genesis_atom_block [OF wf_ice] by (auto simp: ice_def)
  have "a \<noteq> b" using a(2) b(2) by (auto simp: water_def ice_def)
  then have ne: "blk_enc a \<noteq> blk_enc b" using a(1) b(1) by auto
  have "case decode_block sample_crypto (atom_enc water) of Inr _ \<Rightarrow> False | Inl _ \<Rightarrow> True"
    "case decode_block sample_crypto (atom_enc ice) of Inr _ \<Rightarrow> False | Inl _ \<Rightarrow> True" by code_simp+
  then have at: "atom_enc water \<noteq> blk_enc a" "atom_enc water \<noteq> blk_enc b" "atom_enc ice \<noteq> blk_enc a" "atom_enc ice \<noteq> blk_enc b"
    using a(1) b(1) by auto
  have ae: "atom_enc water \<noteq> atom_enc ice" by code_simp
  let ?cr = "sample_crypto\<lparr>sha256 := \<lambda>bs. if bs = blk_enc a then 1 else if bs = blk_enc b then 2 else if bs = atom_enc water then 3 else 4\<rparr>"
  let ?x = "(a, None :: payload option)" and ?y = "(b, None :: payload option)"
  have d: "item_digest ?cr ?x = 1" "item_digest ?cr ?y = 2" "atom_digest (sha256 ?cr) water = 3" "atom_digest (sha256 ?cr) ice = 4"
    using ne at ae by (simp_all add: item_digest_def block_digest_def atom_digest_def sum_digest_def)
  have c: "created_by ?cr ?x = [\<lparr>cn_digest = 3, cn_kind = Kind_atom, cn_value = Atom_entity water\<rparr>]"
    "created_by ?cr ?y = [\<lparr>cn_digest = 4, cn_kind = Kind_atom, cn_value = Atom_entity ice\<rparr>]"
    using a(2) b(2) d(3,4) by (simp_all add: created_by_def item_ops_def creation_of_def map_filter_simps)
  have hon: "honest_items ?cr {?x, ?y}"
    using d(1,2) c by (auto simp: honest_items_def facts_def item_facts_def coherent_def inj_on_def)
  have len: "length (public_half sample_key) = public_key_size" using public_half_length by (simp add: sample_key_def public_key_size_def)
  have fits: "item_fits ?x" "item_fits ?y" using a b type_names len by (simp_all add: item_fits_def)
  note tk = take_new [OF _ hon]
  have one: "graph_of ?cr {?x, ?y} {?x} (take_core ?cr ?x new_graph)" "graph_of ?cr {?x, ?y} {?y} (take_core ?cr ?y new_graph)"
    "take_item ?cr ?x new_graph = Inr (take_core ?cr ?x new_graph)" "take_item ?cr ?y new_graph = Inr (take_core ?cr ?y new_graph)"
    using tk [OF graph_of.new] fits by (simp_all add: new_graph_def)
  have free: "gr_blocks (take_core ?cr ?x new_graph) (item_digest ?cr ?y) = None" "gr_blocks (take_core ?cr ?y new_graph) (item_digest ?cr ?x) = None"
    using d(1,2) by (simp_all add: take_core_def Let_def new_graph_def)
  have two: "graph_of ?cr {?x, ?y} {?x, ?y} (take_core ?cr ?y (take_core ?cr ?x new_graph))"
    "graph_of ?cr {?x, ?y} {?x, ?y} (take_core ?cr ?x (take_core ?cr ?y new_graph))"
    using tk [OF one(1) _ fits(2) free(1)] tk [OF one(2) _ fits(1) free(2)] by (simp_all add: insert_commute)
  have "gr_blocks (take_core ?cr ?x new_graph) 1 \<noteq> gr_blocks (take_core ?cr ?y new_graph) 1"
    using d(1,2) by (simp add: take_core_def Let_def new_graph_def)
  then have "take_core ?cr ?x new_graph \<noteq> take_core ?cr ?y new_graph" by metis
  then have "take_item ?cr ?x new_graph \<noteq> take_item ?cr ?y new_graph" using one(3,4) by simp
  then show thesis using that [OF hon two] fits by blast
qed

theorem graph_exact_witness:
  "\<exists>cr x y g. graph_of cr {x, y} {x, y} g \<and> graph_ok cr {x, y} g"
proof -
  obtain cr x y g where g: "honest_items cr {x, y}" "graph_of cr {x, y} {x, y} g" by (rule two_items)
  from graph_exact [OF g(2,1)] g(2) show ?thesis by blast
qed

theorem graph_order_independent_witness:
  "\<exists>cr x y g h. graph_of cr {x, y} {x, y} g \<and> graph_of cr {x, y} {x, y} h \<and> g = h \<and>
    take_item cr x new_graph \<noteq> take_item cr y new_graph"
proof -
  obtain cr x y g h where g: "honest_items cr {x, y}" "graph_of cr {x, y} {x, y} g" "graph_of cr {x, y} {x, y} h"
    "take_item cr x new_graph \<noteq> take_item cr y new_graph" by (rule two_items)
  from graph_order_independent [OF g(2,3,1)] g show ?thesis by blast
qed

theorem ingestion_outcome_witness:
  "\<exists>cr x y g. graph_of cr {x, y} {x, y} g \<and> take_item cr x g = Inr g"
proof -
  obtain cr x y g where g: "honest_items cr {x, y}" "graph_of cr {x, y} {x, y} g" "item_fits x" by (rule two_items)
  from ingestion_outcome [OF g(2,1), of x] g(2,3) show ?thesis by blast
qed

theorem queries_agree_witness:
  "\<exists>cr x y g. graph_of cr {x, y} {x, y} g \<and> entries_of_kind Kind_atom g = filter (\<lambda>e. ge_kind e = Kind_atom) (graph_entries g)"
proof -
  obtain cr x y g where g: "honest_items cr {x, y}" "graph_of cr {x, y} {x, y} g" by (rule two_items)
  from queries_agree [OF g(2,1), of Kind_atom "[]"] g(2) show ?thesis by blast
qed

end
