(* ===== verification/Subscriptions.thy ===== *)
theory Subscriptions
  imports Graph
begin

text \<open>
  The subscribed authors (\<open>go/accept/subscriptions.go\<close>): a set of keys, each marked as the user's
  own or not, with its ascending list. A nil set is an option's \<open>None\<close>.
\<close>

section \<open>The set\<close>

record subscriptions =
  su_own :: "public_key \<Rightarrow> bool option"
  su_order :: "public_key list"

definition no_subscriptions :: subscriptions where
  "no_subscriptions = \<lparr>su_own = (\<lambda>_. None), su_order = []\<rparr>"

definition key_of :: "byte list \<Rightarrow> public_key option" where
  "key_of pub = (if length pub \<noteq> public_key_size then None else Some (digest_of_bytes pub))"

definition subs_add1 :: "bool \<Rightarrow> byte list \<Rightarrow> subscriptions \<Rightarrow> subscriptions" where
  "subs_add1 own pub s =
    (case key_of pub of
       None \<Rightarrow> s
     | Some k \<Rightarrow>
         (case su_own s k of
            None \<Rightarrow> s\<lparr>su_own := (su_own s)(k \<mapsto> own), su_order := slice_insert (su_order s) (fst (binary_search (su_order s) k)) k\<rparr>
          | Some was \<Rightarrow> if own \<and> \<not> was then s\<lparr>su_own := (su_own s)(k \<mapsto> True)\<rparr> else s))"

definition subs_add :: "bool \<Rightarrow> byte list list \<Rightarrow> subscriptions \<Rightarrow> subscriptions" where
  "subs_add own pubs s = foldl (\<lambda>s pub. subs_add1 own pub s) s pubs"

definition subscribe :: "byte list list \<Rightarrow> subscriptions \<Rightarrow> subscriptions" where
  "subscribe pubs s = subs_add False pubs s"

definition subscribe_own :: "byte list list \<Rightarrow> subscriptions \<Rightarrow> subscriptions" where
  "subscribe_own pubs s = subs_add True pubs s"

definition new_subscriptions :: "byte list list \<Rightarrow> subscriptions" where
  "new_subscriptions pubs = subscribe pubs no_subscriptions"

definition subscribed :: "subscriptions option \<Rightarrow> byte list \<Rightarrow> bool" where
  "subscribed s pub =
    (case s of None \<Rightarrow> False
     | Some s \<Rightarrow> (case key_of pub of None \<Rightarrow> False | Some k \<Rightarrow> su_own s k \<noteq> None))"

definition is_own :: "subscriptions option \<Rightarrow> byte list \<Rightarrow> bool" where
  "is_own s pub =
    (case s of None \<Rightarrow> False
     | Some s \<Rightarrow> (case key_of pub of None \<Rightarrow> False | Some k \<Rightarrow> su_own s k = Some True))"

definition subs_keys :: "subscriptions option \<Rightarrow> byte list list" where
  "subs_keys s = (case s of None \<Rightarrow> [] | Some s \<Rightarrow> map digest_bytes (su_order s))"

definition subs_snapshot :: "subscriptions option \<Rightarrow> subscriptions" where
  "subs_snapshot s =
    (case s of None \<Rightarrow> no_subscriptions
     | Some s \<Rightarrow> \<lparr>su_own = foldl (\<lambda>m k. m(k \<mapsto> su_own s k = Some True)) (\<lambda>_. None) (su_order s), su_order = su_order s\<rparr>)"

section \<open>What the set holds\<close>

definition subs_ok :: "subscriptions \<Rightarrow> bool" where
  "subs_ok s \<longleftrightarrow> finite (dom (su_own s)) \<and> su_order s = sorted_list_of_set (dom (su_own s))"

lemma key_of_bytes [simp]: "key_of (digest_bytes k) = Some k"
  by (simp add: key_of_def public_key_size_def)

lemma key_of_Some: "key_of pub = Some k \<longleftrightarrow> pub = digest_bytes k"
  by (auto simp: key_of_def public_key_size_def)

lemma slice_insert_new:
  assumes "finite S" and "k \<notin> S"
  shows "slice_insert (sorted_list_of_set S) (fst (binary_search (sorted_list_of_set S) k)) k = sorted_list_of_set (insert k S)"
proof -
  have "\<not> snd (binary_search (sorted_list_of_set S) k)" using assms binary_search_found [of "sorted_list_of_set S" k] by simp
  then have "insert_ordered (sorted_list_of_set S) k =
      slice_insert (sorted_list_of_set S) (fst (binary_search (sorted_list_of_set S) k)) k"
    by (cases "binary_search (sorted_list_of_set S) k") (simp add: insert_ordered_def)
  then show ?thesis using assms(1) by simp
qed

lemma subs_add1_ok: "subs_ok s \<Longrightarrow> subs_ok (subs_add1 own pub s)"
  using slice_insert_new [of "dom (su_own s)"]
  by (auto simp: subs_ok_def subs_add1_def insert_absorb domIff split: option.splits)

lemma subs_add_ok: "subs_ok s \<Longrightarrow> subs_ok (subs_add own pubs s)"
  unfolding subs_add_def by (induction pubs arbitrary: s) (simp_all add: subs_add1_ok)

lemma subs_add1_own:
  "su_own (subs_add1 own pub s) k =
    (if pub = digest_bytes k then Some (own \<or> su_own s k = Some True) else su_own s k)"
proof (cases "key_of pub")
  case None
  then have "pub \<noteq> digest_bytes k" by auto
  then show ?thesis using None by (simp add: subs_add1_def)
next
  case (Some j)
  then show ?thesis by (cases "su_own s j") (auto simp: subs_add1_def key_of_Some)
qed

lemma subs_add_own:
  "su_own (subs_add own pubs s) k =
    (if digest_bytes k \<in> set pubs then Some (own \<or> su_own s k = Some True) else su_own s k)"
proof (induction pubs arbitrary: s)
  case (Cons pub pubs)
  have "subs_add own (pub # pubs) s = subs_add own pubs (subs_add1 own pub s)" by (simp add: subs_add_def)
  then show ?case by (auto simp: Cons subs_add1_own)
qed (simp add: subs_add_def)

lemma snapshot_fold:
  "foldl (\<lambda>m k. m(k \<mapsto> f k)) m ks k = (if k \<in> set ks then Some (f k) else m k)"
  by (induction ks arbitrary: m) auto

lemma snapshot_same:
  assumes "subs_ok s"
  shows "subs_snapshot (Some s) = s"
proof (rule subscriptions.equality)
  show "su_own (subs_snapshot (Some s)) = su_own s"
  proof
    fix k
    have "k \<in> set (su_order s) \<longleftrightarrow> su_own s k \<noteq> None" using assms by (simp add: subs_ok_def domIff)
    moreover have "su_own s k = Some (su_own s k = Some True)" if "su_own s k \<noteq> None" using that by (cases "su_own s k") auto
    ultimately show "su_own (subs_snapshot (Some s)) k = su_own s k" by (auto simp: subs_snapshot_def snapshot_fold)
  qed
qed (simp_all add: subs_snapshot_def)

lemma subs_ok_none: "subs_ok no_subscriptions"
  by (simp add: subs_ok_def no_subscriptions_def)

text \<open>
  The set built by any calls is the set of the keys subscribed: \<open>Contains\<close> answers for exactly
  them, \<open>IsOwn\<close> for those ever subscribed as the user's own, \<open>Keys\<close> lists them in order, and
  the snapshot a view takes is the set itself.
\<close>

datatype subs_call = Subscribe "byte list list" | Subscribe_own "byte list list"

definition subs_run :: "subs_call list \<Rightarrow> subscriptions" where
  "subs_run calls = foldl (\<lambda>s c. case c of Subscribe pubs \<Rightarrow> subscribe pubs s | Subscribe_own pubs \<Rightarrow> subscribe_own pubs s)
    no_subscriptions calls"

definition named_keys :: "subs_call list \<Rightarrow> byte list set" where
  "named_keys calls = {pub. length pub = public_key_size \<and>
    (\<exists>pubs. (Subscribe pubs \<in> set calls \<or> Subscribe_own pubs \<in> set calls) \<and> pub \<in> set pubs)}"

definition own_keys :: "subs_call list \<Rightarrow> byte list set" where
  "own_keys calls = {pub. length pub = public_key_size \<and> (\<exists>pubs. Subscribe_own pubs \<in> set calls \<and> pub \<in> set pubs)}"

lemma named_keys_snoc:
  "named_keys (calls @ [c]) = named_keys calls \<union>
    {pub. length pub = public_key_size \<and> pub \<in> set (case c of Subscribe pubs \<Rightarrow> pubs | Subscribe_own pubs \<Rightarrow> pubs)}"
  by (auto simp: named_keys_def split: subs_call.splits)

lemma own_keys_snoc:
  "own_keys (calls @ [c]) = own_keys calls \<union>
    {pub. length pub = public_key_size \<and> pub \<in> set (case c of Subscribe pubs \<Rightarrow> [] | Subscribe_own pubs \<Rightarrow> pubs)}"
  by (auto simp: own_keys_def split: subs_call.splits)

lemma subs_run_ok:
  "subs_ok (subs_run calls) \<and> (\<forall>k. su_own (subs_run calls) k =
    (if digest_bytes k \<in> named_keys calls then Some (digest_bytes k \<in> own_keys calls) else None))"
proof (induction calls rule: rev_induct)
  case Nil
  then show ?case by (simp add: subs_run_def subs_ok_none named_keys_def) (simp add: no_subscriptions_def)
next
  case (snoc c calls)
  let ?s = "subs_run calls"
  have run: "subs_run (calls @ [c]) = (case c of Subscribe pubs \<Rightarrow> subscribe pubs ?s | Subscribe_own pubs \<Rightarrow> subscribe_own pubs ?s)"
    by (cases c) (simp_all add: subs_run_def)
  have sub: "own_keys calls \<subseteq> named_keys calls" by (auto simp: own_keys_def named_keys_def)
  have ok: "subs_ok (subs_run (calls @ [c]))"
    using snoc by (auto simp: run subscribe_def subscribe_own_def subs_add_ok split: subs_call.splits)
  have "su_own (subs_run (calls @ [c])) k =
      (if digest_bytes k \<in> named_keys (calls @ [c]) then Some (digest_bytes k \<in> own_keys (calls @ [c])) else None)" for k
  proof -
    have k: "su_own ?s k = (if digest_bytes k \<in> named_keys calls then Some (digest_bytes k \<in> own_keys calls) else None)" using snoc by blast
    show ?thesis using sub unfolding run
      by (cases c) (auto simp: subscribe_def subscribe_own_def subs_add_own k named_keys_snoc own_keys_snoc public_key_size_def)
  qed
  then show ?case using ok by blast
qed

theorem subscriptions_correct:
  "(subscribed (Some (subs_run calls)) pub \<longleftrightarrow> pub \<in> named_keys calls) \<and>
   (is_own (Some (subs_run calls)) pub \<longleftrightarrow> pub \<in> own_keys calls) \<and>
   set (subs_keys (Some (subs_run calls))) = named_keys calls \<and> sorted_wrt (<) (subs_keys (Some (subs_run calls))) \<and>
   subs_snapshot (Some (subs_run calls)) = subs_run calls"
proof -
  let ?s = "subs_run calls"
  note ok = conjunct1 [OF subs_run_ok [of calls]]
  have own: "su_own ?s k = (if digest_bytes k \<in> named_keys calls then Some (digest_bytes k \<in> own_keys calls) else None)" for k
    using subs_run_ok [of calls] by blast
  have bytes: "\<exists>k. pub = digest_bytes k" if "length pub = public_key_size" for pub :: "byte list"
    using that by (intro exI [of _ "digest_of_bytes pub"]) (simp add: public_key_size_def)
  have sub: "own_keys calls \<subseteq> named_keys calls" by (auto simp: own_keys_def named_keys_def)
  have short: "key_of pub = None \<Longrightarrow> pub \<notin> named_keys calls" by (auto simp: key_of_def named_keys_def split: if_splits)
  have "subscribed (Some ?s) pub \<longleftrightarrow> pub \<in> named_keys calls"
    using short by (auto simp: subscribed_def own key_of_Some split: option.splits if_splits)
  moreover have "is_own (Some ?s) pub \<longleftrightarrow> pub \<in> own_keys calls"
    using short sub by (auto simp: is_own_def own key_of_Some split: option.splits if_splits)
  moreover
  have dm: "set (su_order ?s) = {k. digest_bytes k \<in> named_keys calls}" using ok by (auto simp: subs_ok_def own split: if_splits)
  have named: "\<exists>k. x = digest_bytes k" if "x \<in> named_keys calls" for x using bytes that by (auto simp: named_keys_def)
  have "set (subs_keys (Some ?s)) = named_keys calls" using named by (auto simp: subs_keys_def dm)
  moreover have "sorted_wrt (<) (su_order ?s)" using ok by (simp add: subs_ok_def)
  then have "sorted_wrt (<) (subs_keys (Some ?s))" by (simp add: subs_keys_def sorted_wrt_map digest_less_iff)
  ultimately show ?thesis using snapshot_same [OF ok] by blast
qed

end
