(* ===== verification/Union_Find.thy ===== *)
theory Union_Find
  imports Ordered "HOL-Library.While_Combinator"
begin

text \<open>
  The union-find of the equivalence closure (\<open>unionFind\<close> in \<open>go/accept/meta.go\<close>), with its path
  compression. The two loops of \<open>find\<close> run for ever on parents that form a circle, so a find is
  \<open>None\<close> there; reading a missing key of a map gives the zero digest.
\<close>

section \<open>The structure\<close>

type_synonym union_find = "digest \<Rightarrow> digest option"

definition new_union_find :: union_find where
  "new_union_find = (\<lambda>_. None)"

definition parent :: "union_find \<Rightarrow> digest \<Rightarrow> digest" where
  "parent u d = (case u d of None \<Rightarrow> 0 | Some p \<Rightarrow> p)"

definition find_root :: "union_find \<Rightarrow> digest \<Rightarrow> digest option" where
  "find_root u = while_option (\<lambda>r. r \<noteq> parent u r) (parent u)"

definition compress :: "digest \<Rightarrow> union_find \<times> digest \<Rightarrow> (union_find \<times> digest) option" where
  "compress r = while_option (\<lambda>(u, cur). cur \<noteq> r) (\<lambda>(u, cur). (u(cur \<mapsto> r), parent u cur))"

definition uf_find :: "union_find \<Rightarrow> digest \<Rightarrow> (union_find \<times> digest) option" where
  "uf_find u d =
    (case u d of
       None \<Rightarrow> Some (u(d \<mapsto> d), d)
     | Some r \<Rightarrow> (case find_root u r of
         None \<Rightarrow> None
       | Some root \<Rightarrow> map_option (\<lambda>(u', cur). (u', root)) (compress root (u, d))))"

definition uf_union :: "digest \<Rightarrow> digest \<Rightarrow> union_find \<Rightarrow> union_find option" where
  "uf_union a b u =
    (case uf_find u a of None \<Rightarrow> None | Some (u1, ra) \<Rightarrow>
    (case uf_find u1 b of None \<Rightarrow> None | Some (u2, rb) \<Rightarrow>
     if ra = rb then Some u2
     else let (ra, rb) = if rb < ra then (rb, ra) else (ra, rb) in Some (u2(rb \<mapsto> ra))))"

definition uf_known :: "union_find \<Rightarrow> digest \<Rightarrow> bool" where
  "uf_known u d \<longleftrightarrow> u d \<noteq> None"

text \<open>The closure of a list of pairs.\<close>

fun union_all :: "(digest \<times> digest) list \<Rightarrow> union_find \<Rightarrow> union_find option" where
  "union_all [] u = Some u"
| "union_all ((a, b) # ps) u = (case uf_union a b u of None \<Rightarrow> None | Some u' \<Rightarrow> union_all ps u')"

section \<open>Roots\<close>

lemma unat_less: "(p :: digest) \<le> x \<Longrightarrow> p \<noteq> x \<Longrightarrow> unat p < unat x"
  using word_less_nat_alt [of p x] by (simp add: order_less_le)

text \<open>A parent is known and no larger than its child, so every path descends to a root.\<close>

definition uf_ok :: "union_find \<Rightarrow> bool" where
  "uf_ok u \<longleftrightarrow> (\<forall>x p. u x = Some p \<longrightarrow> p \<le> x \<and> u p \<noteq> None)"

lemma uf_okD: "uf_ok u \<Longrightarrow> u x = Some p \<Longrightarrow> p \<le> x \<and> (\<exists>q. u p = Some q)"
  by (auto simp: uf_ok_def)

inductive leads :: "union_find \<Rightarrow> digest \<Rightarrow> digest \<Rightarrow> bool" for u where
  root: "u r = Some r \<Longrightarrow> leads u r r"
| up: "u x = Some p \<Longrightarrow> p \<noteq> x \<Longrightarrow> leads u p r \<Longrightarrow> leads u x r"

inductive_cases leadsE: "leads u x r"

lemma leads_root: "leads u x r \<Longrightarrow> u r = Some r"
  by (induction rule: leads.induct)

lemma leads_known: "leads u x r \<Longrightarrow> u x \<noteq> None"
  by (erule leadsE) auto

lemma leads_unique: "leads u x r \<Longrightarrow> leads u x s \<Longrightarrow> r = s"
proof (induction rule: leads.induct)
  case (root r)
  from root.prems root.hyps show ?case by (auto elim: leadsE)
next
  case (up x p r)
  from up.prems up.hyps have "leads u p s" by (auto elim: leadsE)
  then show ?case by (rule up.IH)
qed

lemma leads_le: "leads u x r \<Longrightarrow> uf_ok u \<Longrightarrow> r \<le> x"
  by (induction rule: leads.induct) (use uf_okD in fastforce)+

lemma leads_exists: "uf_ok u \<Longrightarrow> u x \<noteq> None \<Longrightarrow> \<exists>r. leads u x r"
proof (induction "unat x" arbitrary: x rule: less_induct)
  case less
  from less.prems obtain p where p: "u x = Some p" by blast
  show ?case
  proof (cases "p = x")
    case True
    then show ?thesis using p leads.root by blast
  next
    case False
    have "p \<le> x \<and> u p \<noteq> None" using uf_okD [OF less.prems(1) p] by auto
    then have "unat p < unat x" "u p \<noteq> None" using False unat_less by auto
    then show ?thesis using less.hyps [of p] less.prems(1) leads.up [of u x p] p False by blast
  qed
qed

text \<open>\<open>find\<close>'s first loop computes the root.\<close>

lemma find_root_leads: "leads u x r \<Longrightarrow> find_root u x = Some r"
proof (induction rule: leads.induct)
  case (root r)
  then show ?case by (simp add: find_root_def while_option_unfold parent_def)
next
  case (up x p r)
  then show ?case unfolding find_root_def by (subst while_option_unfold) (simp add: parent_def)
qed

text \<open>Pointing a node of a path at the root changes no root.\<close>

lemma compress_leads:
  assumes "leads u x r" and "leads u y s"
  shows "leads (u(x \<mapsto> r)) y s"
proof -
  have xr: "leads (u(x \<mapsto> r)) x r"
  proof (cases "x = r")
    case True
    then show ?thesis by (simp add: leads.root)
  next
    case False
    then have "(u(x \<mapsto> r)) r = Some r" using leads_root [OF assms(1)] by simp
    then show ?thesis using False by (intro leads.up [of _ x r]) (auto intro: leads.root)
  qed
  show ?thesis using assms(2)
  proof (induction rule: leads.induct)
    case (root s)
    then show ?case
    proof (cases "s = x")
      case True
      then have "r = s" using leads_unique [OF assms(1)] leads.root [of u s] root by blast
      then show ?thesis using xr \<open>s = x\<close> by metis
    next
      case False
      then show ?thesis using root by (simp add: leads.root)
    qed
  next
    case (up y p s)
    show ?case
    proof (cases "y = x")
      case True
      have "leads u y s" using up.hyps leads.up by blast
      then have "s = r" using leads_unique [OF assms(1)] True by blast
      then show ?thesis using xr True by metis
    next
      case False
      then show ?thesis using up by (intro leads.up [of _ y p]) simp_all
    qed
  qed
qed

lemma compress_ok:
  assumes "uf_ok u" and "leads u x r"
  shows "uf_ok (u(x \<mapsto> r))"
  using assms leads_le [OF assms(2,1)] leads_root [OF assms(2)] unfolding uf_ok_def by auto

lemma compress_result:
  assumes "uf_ok u" and "leads u x r"
  shows "\<exists>u'. compress r (u, x) = Some (u', r) \<and> uf_ok u' \<and> dom u' = dom u \<and> (\<forall>y s. leads u y s \<longrightarrow> leads u' y s)"
  using assms
proof (induction "unat x" arbitrary: u x rule: less_induct)
  case less
  show ?case
  proof (cases "x = r")
    case True
    then show ?thesis using less.prems by (simp add: compress_def while_option_unfold)
  next
    case False
    then obtain p where p: "u x = Some p" "p \<noteq> x" "leads u p r" using less.prems(2) by (auto elim: leadsE)
    let ?u = "u(x \<mapsto> r)"
    have ok: "uf_ok ?u" using compress_ok [OF less.prems] .
    have keep: "\<And>y s. leads u y s \<Longrightarrow> leads ?u y s" using compress_leads [OF less.prems(2)] .
    have "unat p < unat x" using uf_okD [OF less.prems(1) p(1)] p(2) unat_less by blast
    from less.hyps [OF this ok keep [OF p(3)]] obtain u' where u': "compress r (?u, p) = Some (u', r)" "uf_ok u'" "dom u' = dom ?u"
      "\<forall>y s. leads ?u y s \<longrightarrow> leads u' y s" by blast
    have "compress r (u, x) = compress r (?u, p)"
      unfolding compress_def by (subst while_option_unfold) (simp add: False parent_def p(1))
    then show ?thesis using u' keep p(1) by auto
  qed
qed

section \<open>Finds and unions\<close>

text \<open>Two nodes of one class.\<close>

definition same :: "union_find \<Rightarrow> digest \<Rightarrow> digest \<Rightarrow> bool" where
  "same u x y \<longleftrightarrow> (\<exists>r. leads u x r \<and> leads u y r)"

lemma same_leads: "leads u x r \<Longrightarrow> leads u y s \<Longrightarrow> same u x y \<longleftrightarrow> r = s"
  unfolding same_def using leads_unique by blast

definition keeps :: "union_find \<Rightarrow> union_find \<Rightarrow> bool" where
  "keeps u u' \<longleftrightarrow> uf_ok u' \<and> dom u \<subseteq> dom u' \<and> (\<forall>y s. leads u y s \<longrightarrow> leads u' y s)"

lemma keeps_trans: "keeps u v \<Longrightarrow> keeps v w \<Longrightarrow> keeps u w"
  unfolding keeps_def by blast

lemma dom_leads: "uf_ok u \<Longrightarrow> x \<in> dom u \<Longrightarrow> \<exists>r. leads u x r"
  by (simp add: leads_exists domIff)

lemma leads_dom: "leads u x r \<Longrightarrow> r \<in> dom u"
  using leads_root by blast

text \<open>Besides, what is new is a class of its own.\<close>

definition grows :: "union_find \<Rightarrow> union_find \<Rightarrow> bool" where
  "grows u u' \<longleftrightarrow> keeps u u' \<and>
    (\<forall>x \<in> dom u'. \<forall>y \<in> dom u'. same u' x y \<longleftrightarrow> x = y \<or> x \<in> dom u \<and> y \<in> dom u \<and> same u x y)"

lemma grows_trans:
  assumes "grows u v" and "grows v w"
  shows "grows u w"
  unfolding grows_def
proof (intro conjI ballI)
  show "keeps u w" using assms keeps_trans unfolding grows_def by blast
  fix x y assume xy: "x \<in> dom w" "y \<in> dom w"
  have d: "dom u \<subseteq> dom v" using assms(1) by (simp add: grows_def keeps_def)
  have w: "same w x y \<longleftrightarrow> x = y \<or> x \<in> dom v \<and> y \<in> dom v \<and> same v x y" using assms(2) xy by (simp only: grows_def)
  show "same w x y \<longleftrightarrow> x = y \<or> x \<in> dom u \<and> y \<in> dom u \<and> same u x y"
  proof (cases "x \<in> dom v \<and> y \<in> dom v")
    case True
    then have "same v x y \<longleftrightarrow> x = y \<or> x \<in> dom u \<and> y \<in> dom u \<and> same u x y" using assms(1) by (simp only: grows_def)
    then show ?thesis using w True by blast
  next
    case False
    then show ?thesis using w d by blast
  qed
qed

lemma keeps_same:
  assumes "uf_ok u" and "keeps u u'" and "x \<in> dom u" and "y \<in> dom u"
  shows "same u' x y \<longleftrightarrow> same u x y"
proof -
  obtain r s where r: "leads u x r" "leads u y s" using dom_leads assms(1,3,4) by blast
  then have "leads u' x r" "leads u' y s" using assms(2) by (auto simp: keeps_def)
  then show ?thesis using same_leads r by blast
qed

lemma same_refl: "uf_ok u \<Longrightarrow> x \<in> dom u \<Longrightarrow> same u x x"
  using dom_leads [of u x] unfolding same_def by blast

lemma keeps_grows:
  assumes "uf_ok u" and "keeps u u'" and "dom u' = dom u"
  shows "grows u u'"
  unfolding grows_def
proof (intro conjI ballI)
  fix x y assume "x \<in> dom u'" "y \<in> dom u'"
  then show "same u' x y \<longleftrightarrow> x = y \<or> x \<in> dom u \<and> y \<in> dom u \<and> same u x y"
    using keeps_same [OF assms(1,2)] same_refl [OF assms(1)] assms(3) by metis
qed (rule assms(2))

lemma singleton_grows:
  assumes "uf_ok u" and "u d = None" and "keeps u (u(d \<mapsto> d))" and "leads (u(d \<mapsto> d)) d d"
  shows "grows u (u(d \<mapsto> d))"
  unfolding grows_def
proof (intro conjI ballI)
  let ?u = "u(d \<mapsto> d)"
  show "keeps u ?u" using assms(3) .
  have new: "\<not> same ?u x d \<and> \<not> same ?u d x" if x: "x \<in> dom u" for x
  proof -
    obtain r where r: "leads u x r" using dom_leads [OF assms(1) x] by blast
    then have "leads ?u x r" "r \<noteq> d" using assms(2,3) leads_dom [OF r] by (auto simp: keeps_def)
    then show ?thesis using same_leads [OF _ assms(4), of x r] same_leads [OF assms(4), of x r] by blast
  qed
  have fresh: "d \<notin> dom u" using assms(2) by blast
  have dd: "same ?u d d" using assms(4) unfolding same_def by blast
  fix x y assume "x \<in> dom ?u" "y \<in> dom ?u"
  then have "x = d \<or> x \<in> dom u" "y = d \<or> y \<in> dom u" by (simp_all add: dom_fun_upd)
  then show "same ?u x y \<longleftrightarrow> x = y \<or> x \<in> dom u \<and> y \<in> dom u \<and> same u x y"
    using keeps_same [OF assms(1,3)] new fresh dd same_refl [OF assms(1)] by metis
qed

lemma singleton_keeps:
  assumes "uf_ok u" and "u d = None"
  shows "keeps u (u(d \<mapsto> d)) \<and> leads (u(d \<mapsto> d)) d d"
proof -
  let ?u = "u(d \<mapsto> d)"
  have "leads ?u y s" if "leads u y s" for y s using that
  proof (induction rule: leads.induct)
    case (root r)
    then have "?u r = Some r" using assms(2) by auto
    then show ?case by (rule leads.root)
  next
    case (up x p r)
    then have "?u x = Some p" using assms(2) by auto
    then show ?case using up leads.up [of ?u x p r] by blast
  qed
  moreover have "uf_ok ?u" using assms unfolding uf_ok_def by auto
  moreover have "leads ?u d d" using leads.root [of ?u d] by simp
  ultimately show ?thesis unfolding keeps_def by auto
qed

lemma uf_find_result:
  assumes "uf_ok u"
  shows "\<exists>u' r. uf_find u d = Some (u', r) \<and> keeps u u' \<and> grows u u' \<and> leads u' d r \<and> dom u' = insert d (dom u)"
proof (cases "u d")
  case None
  then have "keeps u (u(d \<mapsto> d))" "leads (u(d \<mapsto> d)) d d" using singleton_keeps [OF assms None] by blast+
  moreover have "grows u (u(d \<mapsto> d))" using singleton_grows [OF assms None] calculation .
  ultimately show ?thesis using None by (simp add: uf_find_def)
next
  case (Some p)
  obtain r where r: "leads u d r" using leads_exists [OF assms, of d] Some by auto
  obtain q where "u p = Some q" using uf_okD [OF assms Some] by blast
  then obtain s where s: "leads u p s" using leads_exists [OF assms, of p] by auto
  have "leads u p r"
  proof (cases "p = d")
    case False
    then have "leads u d s" using leads.up [of u d p s] Some s by blast
    then show ?thesis using leads_unique [OF r] s by blast
  qed (use r in simp)
  then have "find_root u p = Some r" by (rule find_root_leads)
  moreover obtain u' where u': "compress r (u, d) = Some (u', r)" "uf_ok u'" "dom u' = dom u" "\<forall>y s. leads u y s \<longrightarrow> leads u' y s"
    using compress_result [OF assms r] by blast
  moreover have k: "keeps u u'" using u' by (simp add: keeps_def)
  moreover have "grows u u'" using keeps_grows [OF assms k u'(3)] .
  moreover have "leads u' d r" using u'(4) r by blast
  moreover have "dom u' = insert d (dom u)" using u'(3) Some by auto
  moreover have "uf_find u d = Some (u', r)" using Some calculation(1) u'(1) by (simp add: uf_find_def)
  ultimately show ?thesis by blast
qed

text \<open>Linking one root under another moves its class.\<close>

lemma link_leads:
  assumes "uf_ok u" and "u ra = Some ra" and "u rb = Some rb" and "ra < rb" and "leads u x r"
  shows "leads (u(rb \<mapsto> ra)) x (if r = rb then ra else r)"
  using assms(5)
proof (induction rule: leads.induct)
  case (root r)
  have ra: "leads (u(rb \<mapsto> ra)) ra ra" using assms(2,4) by (intro leads.root) auto
  show ?case
  proof (cases "r = rb")
    case True
    have "leads (u(rb \<mapsto> ra)) rb ra" using ra assms(4) leads.up [of "u(rb \<mapsto> ra)" rb ra ra] by simp
    then show ?thesis using True by (simp del: fun_upd_apply)
  next
    case False
    then have "(u(rb \<mapsto> ra)) r = Some r" using root by simp
    then have "leads (u(rb \<mapsto> ra)) r r" by (rule leads.root)
    then show ?thesis using False by (simp del: fun_upd_apply)
  qed
next
  case (up x p r)
  then have "x \<noteq> rb" using assms(3) by auto
  then have "(u(rb \<mapsto> ra)) x = Some p" using up by simp
  then show ?case using up leads.up [of "u(rb \<mapsto> ra)" x p] by blast
qed

lemma link_ok:
  assumes "uf_ok u" and "u ra = Some ra" and "ra < rb"
  shows "uf_ok (u(rb \<mapsto> ra))"
  using assms unfolding uf_ok_def by auto

lemma uf_union_result:
  assumes "uf_ok u"
  shows "\<exists>u' v. uf_union a b u = Some u' \<and> grows u v \<and> dom v = insert a (insert b (dom u)) \<and> uf_ok u' \<and> dom u' = dom v \<and>
    (\<forall>x \<in> dom v. \<forall>y \<in> dom v. same u' x y \<longleftrightarrow> same v x y \<or> same v x a \<and> same v b y \<or> same v x b \<and> same v a y)"
proof -
  obtain u1 ra where u1: "uf_find u a = Some (u1, ra)" "keeps u u1" "grows u u1" "leads u1 a ra" "dom u1 = insert a (dom u)"
    using uf_find_result [OF assms] by blast
  have ok1: "uf_ok u1" using u1(2) by (simp add: keeps_def)
  obtain v rb where v: "uf_find u1 b = Some (v, rb)" "keeps u1 v" "grows u1 v" "leads v b rb" "dom v = insert b (dom u1)"
    using uf_find_result [OF ok1] by blast
  have gv: "grows u v" using grows_trans u1(3) v(3) by blast
  have okv: "uf_ok v" and la: "leads v a ra" using v(2) u1(4) by (auto simp: keeps_def)
  have dv: "dom v = insert a (insert b (dom u))" using v(5) u1(5) by auto
  show ?thesis
  proof (cases "ra = rb")
    case True
    then have "uf_union a b u = Some v" by (simp add: uf_union_def u1(1) v(1))
    moreover have "same v x y \<longleftrightarrow> same v x y \<or> same v x a \<and> same v b y \<or> same v x b \<and> same v a y" for x y
      using la v(4) True unfolding same_def by (metis leads_unique)
    ultimately show ?thesis using gv dv okv by blast
  next
    case False
    let ?lo = "min ra rb" and ?hi = "max ra rb"
    let ?u = "v(?hi \<mapsto> ?lo)"
    have roots: "v ?lo = Some ?lo" "v ?hi = Some ?hi" "?lo < ?hi"
      using leads_root [OF la] leads_root [OF v(4)] False by (auto simp: min_def max_def)
    have un: "uf_union a b u = Some ?u" using False by (auto simp: uf_union_def u1(1) v(1) Let_def min_def max_def)
    have ok: "uf_ok ?u" using link_ok [OF okv roots(1,3)] .
    have lk: "leads v x r \<Longrightarrow> leads ?u x (if r = ?hi then ?lo else r)" for x r using link_leads [OF okv roots] .
    have "same ?u x y \<longleftrightarrow> same v x y \<or> same v x a \<and> same v b y \<or> same v x b \<and> same v a y" if xy: "x \<in> dom v" "y \<in> dom v" for x y
    proof -
      obtain r where r: "leads v x r" using dom_leads [OF okv xy(1)] by blast
      obtain s where s: "leads v y s" using dom_leads [OF okv xy(2)] by blast
      have "same ?u x y \<longleftrightarrow> (if r = ?hi then ?lo else r) = (if s = ?hi then ?lo else s)" using same_leads [OF lk [OF r] lk [OF s]] .
      also have "\<dots> \<longleftrightarrow> r = s \<or> r = ra \<and> s = rb \<or> r = rb \<and> s = ra" using False by (auto simp: min_def max_def)
      also have "\<dots> \<longleftrightarrow> same v x y \<or> same v x a \<and> same v b y \<or> same v x b \<and> same v a y"
        using same_leads [OF r s] same_leads [OF r la] same_leads [OF v(4) s] same_leads [OF r v(4)] same_leads [OF la s] by blast
      finally show ?thesis .
    qed
    moreover have "dom ?u = dom v" using roots(2) by auto
    ultimately show ?thesis using un gv dv ok by blast
  qed
qed

section \<open>The closure\<close>

text \<open>Connected by the pairs read both ways.\<close>

definition conn :: "(digest \<times> digest) set \<Rightarrow> (digest \<times> digest) set" where
  "conn P = (P \<union> P\<inverse>)\<^sup>*"

lemma conn_sym: "(x, y) \<in> conn P \<Longrightarrow> (y, x) \<in> conn P"
  unfolding conn_def by (rule symD [OF sym_rtrancl]) (auto simp: sym_def)

lemma conn_trans: "(x, y) \<in> conn P \<Longrightarrow> (y, z) \<in> conn P \<Longrightarrow> (x, z) \<in> conn P"
  unfolding conn_def by (rule rtrancl_trans)

lemma conn_refl [simp]: "(x, x) \<in> conn P"
  by (simp add: conn_def)

lemma conn_empty: "(x, y) \<in> conn {} \<longleftrightarrow> x = y"
  by (simp add: conn_def)

lemma conn_field: "(x, y) \<in> conn P \<Longrightarrow> x \<noteq> y \<Longrightarrow> x \<in> Field P \<and> y \<in> Field P"
proof -
  assume c: "(x, y) \<in> conn P" and n: "x \<noteq> y"
  have "y \<in> Field P" using c n unfolding conn_def by (cases rule: rtranclE) (auto simp: Field_def)
  moreover have "x \<in> Field P" using c n unfolding conn_def by (cases rule: converse_rtranclE) (auto simp: Field_def)
  ultimately show ?thesis by simp
qed

lemma conn_mono: "(x, y) \<in> conn P \<Longrightarrow> (x, y) \<in> conn (insert e P)"
  unfolding conn_def by (erule rtrancl_mono [THEN subsetD, rotated]) auto

lemma conn_insert:
  "(x, y) \<in> conn (insert (a, b) P) \<longleftrightarrow>
    (x, y) \<in> conn P \<or> (x, a) \<in> conn P \<and> (b, y) \<in> conn P \<or> (x, b) \<in> conn P \<and> (a, y) \<in> conn P"
proof
  assume "(x, y) \<in> conn (insert (a, b) P)"
  then have "(x, y) \<in> (insert (a, b) P \<union> (insert (a, b) P)\<inverse>)\<^sup>*" by (simp add: conn_def)
  then show "(x, y) \<in> conn P \<or> (x, a) \<in> conn P \<and> (b, y) \<in> conn P \<or> (x, b) \<in> conn P \<and> (a, y) \<in> conn P"
  proof (induction rule: rtrancl_induct)
    case (step y z)
    from step.hyps(2) consider "(y, z) \<in> conn P" | "y = a" "z = b" | "y = b" "z = a"
      unfolding conn_def by blast
    then show ?case
    proof cases
      case 1
      then show ?thesis using step.IH conn_trans by blast
    next
      case 2
      then show ?thesis using step.IH conn_sym conn_trans conn_refl by blast
    next
      case 3
      then show ?thesis using step.IH conn_sym conn_trans conn_refl by blast
    qed
  qed simp
next
  have ab: "(a, b) \<in> conn (insert (a, b) P)" by (auto simp: conn_def)
  assume "(x, y) \<in> conn P \<or> (x, a) \<in> conn P \<and> (b, y) \<in> conn P \<or> (x, b) \<in> conn P \<and> (a, y) \<in> conn P"
  then show "(x, y) \<in> conn (insert (a, b) P)" using ab conn_mono conn_sym conn_trans by meson
qed

definition closes :: "(digest \<times> digest) set \<Rightarrow> union_find \<Rightarrow> bool" where
  "closes P u \<longleftrightarrow> uf_ok u \<and> dom u = Field P \<and> (\<forall>x \<in> dom u. \<forall>y \<in> dom u. same u x y \<longleftrightarrow> (x, y) \<in> conn P)"

lemma closes_new: "closes {} new_union_find"
  by (simp add: closes_def new_union_find_def uf_ok_def)

lemma closes_union:
  assumes "closes P u"
  shows "\<exists>u'. uf_union a b u = Some u' \<and> closes (insert (a, b) P) u'"
proof -
  have ok: "uf_ok u" and d: "dom u = Field P" and c: "\<forall>x \<in> dom u. \<forall>y \<in> dom u. same u x y \<longleftrightarrow> (x, y) \<in> conn P"
    using assms by (simp_all add: closes_def)
  obtain u' v where u': "uf_union a b u = Some u'" "grows u v" "dom v = insert a (insert b (dom u))" "uf_ok u'" "dom u' = dom v"
    and s: "\<forall>x \<in> dom v. \<forall>y \<in> dom v. same u' x y \<longleftrightarrow> same v x y \<or> same v x a \<and> same v b y \<or> same v x b \<and> same v a y"
    using uf_union_result [OF ok, of a b] by (elim exE conjE) (rule that)
  have cv: "same v x y \<longleftrightarrow> (x, y) \<in> conn P" if "x \<in> dom v" "y \<in> dom v" for x y
  proof -
    have "same v x y \<longleftrightarrow> x = y \<or> x \<in> dom u \<and> y \<in> dom u \<and> same u x y" using u'(2) that by (simp only: grows_def)
    also have "\<dots> \<longleftrightarrow> (x, y) \<in> conn P" 
    proof (cases "x = y")
      case False
      then show ?thesis using c d conn_field [of x y P] by metis
    qed simp
    finally show ?thesis .
  qed
  have ab: "a \<in> dom v" "b \<in> dom v" using u'(3) by simp_all
  have "same u' x y \<longleftrightarrow> (x, y) \<in> conn (insert (a, b) P)" if "x \<in> dom v" "y \<in> dom v" for x y
  proof -
    have "same u' x y \<longleftrightarrow> same v x y \<or> same v x a \<and> same v b y \<or> same v x b \<and> same v a y" using s that by blast
    then show ?thesis by (simp only: conn_insert cv that ab)
  qed
  moreover have "dom u' = Field (insert (a, b) P)" using u'(3,5) d by (simp add: Field_insert)
  ultimately show ?thesis using u'(1,4,5) by (simp only: closes_def) blast
qed

lemma union_all_closes:
  "closes P u \<Longrightarrow> \<exists>u'. union_all ps u = Some u' \<and> closes (P \<union> set ps) u'"
proof (induction ps arbitrary: P u)
  case (Cons e ps)
  obtain a b where e: "e = (a, b)" by (cases e)
  obtain u1 where u1: "uf_union a b u = Some u1" "closes (insert (a, b) P) u1" using closes_union [OF Cons.prems] by blast
  then show ?case using Cons.IH [OF u1(2)] by (simp add: e)
qed simp

text \<open>The root of a class is its least member.\<close>

lemma closes_find:
  assumes "closes P u" and "d \<in> Field P"
  shows "\<exists>u' r. uf_find u d = Some (u', r) \<and> closes P u' \<and> (d, r) \<in> conn P \<and> (\<forall>x. (d, x) \<in> conn P \<longrightarrow> r \<le> x)"
proof -
  have ok: "uf_ok u" and d: "dom u = Field P" and c: "\<forall>x \<in> dom u. \<forall>y \<in> dom u. same u x y \<longleftrightarrow> (x, y) \<in> conn P"
    using assms(1) by (simp_all add: closes_def)
  obtain u' r where f: "uf_find u d = Some (u', r)" "keeps u u'" "leads u' d r" "dom u' = insert d (dom u)"
    using uf_find_result [OF ok] by blast
  have ok': "uf_ok u'" and d': "dom u' = dom u" using f(2,4) d assms(2) by (auto simp: keeps_def)
  have "same u' x y \<longleftrightarrow> (x, y) \<in> conn P" if "x \<in> dom u" "y \<in> dom u" for x y
    using keeps_same [OF ok f(2) that] c that by blast
  then have cl: "closes P u'" using ok' d' d by (simp add: closes_def)
  have le: "r \<le> x" if "(d, x) \<in> conn P" for x
  proof (cases "x = d")
    case True
    then show ?thesis using leads_le [OF f(3) ok'] by simp
  next
    case False
    then have "x \<in> dom u'" using conn_field [OF that] d d' by simp
    then have "same u' d x" using cl that d' d assms(2) by (simp add: closes_def)
    then have "leads u' x r" using f(3) leads_unique unfolding same_def by blast
    then show ?thesis using leads_le ok' by blast
  qed
  have "leads u' r r" using leads.root [of u' r] leads_root [OF f(3)] by blast
  then have "same u' d r" using f(3) unfolding same_def by blast
  then have "(d, r) \<in> conn P" using cl leads_dom [OF f(3)] assms(2) by (simp add: closes_def)
  then show ?thesis using f(1) cl le by blast
qed

end
