(* ===== verification/Accept_View.thy ===== *)
theory Accept_View
  imports Subscriptions Union_Find Chain
begin

text \<open>
  Layer 3 (\<open>go/accept\<close>): the data of a view, the filtering of the graph by subscription
  (\<open>accept.go\<close>) and the reading of the standard meta-bonds' molecules (\<open>meta.go\<close>). Keys and
  digests sets kept as ascending lists (\<open>keySet\<close>, \<open>digestSet\<close>) are built by ordered insertion.
\<close>

section \<open>Data\<close>

datatype truth_state = Unasserted | Asserted | Retracted | Conflicted

record chain_position =
  cp_author :: public_key
  cp_lineage :: digest
  cp_height :: nat
  cp_length :: nat

record backing =
  bk_author :: public_key
  bk_block :: digest
  bk_position :: chain_position

record claim =
  cl_meta :: digest
  cl_template :: string
  cl_a :: digest
  cl_b :: digest
  cl_typ :: uint64
  cl_stance :: truth_state
  cl_prov :: "tag list"
  cl_backing :: "backing list"

record claims =
  cs_equivalences :: "claim list"
  cs_truths :: "claim list"
  cs_contradictions :: "claim list"
  cs_supersessions :: "claim list"
  cs_malformed :: "digest list"

record decl =
  dc_meta :: digest
  dc_template :: string
  dc_a :: digest
  dc_b :: digest
  dc_backing :: "backing list"

record assertion =
  as_author :: public_key
  as_stance :: truth_state
  as_meta :: digest
  as_block :: digest
  as_position :: chain_position
  as_subject :: digest
  as_latest :: bool

datatype conflict_kind = Truth_disagreement | Contradiction | Supersession_cycle | Ambiguous_order

definition stance_true :: string where "stance_true = ''is true''"
definition stance_untrue :: string where "stance_untrue = ''is untrue''"

record side =
  sd_stance :: string
  sd_molecules :: "digest list"
  sd_authors :: "public_key list"

record conflict =
  cf_kind :: conflict_kind
  cf_molecules :: "digest list"
  cf_sides :: "side list"
  cf_meta :: "digest list"
  cf_blocks :: "digest list"
  cf_declarers :: "public_key list"

record view =
  vw_subs :: subscriptions
  vw_entries :: "digest \<Rightarrow> entry option"
  vw_order :: "digest list"
  vw_by_kind :: "entity_kind \<Rightarrow> digest list"
  vw_positions :: "digest \<Rightarrow> chain_position option"
  vw_class :: "digest \<Rightarrow> digest option"
  vw_members :: "digest \<Rightarrow> digest list"
  vw_truth :: "digest \<Rightarrow> truth_state"
  vw_assertions :: "digest \<Rightarrow> assertion list"
  vw_supersedes :: "digest \<Rightarrow> digest list"
  vw_superseded_by :: "digest \<Rightarrow> digest list"
  vw_edges :: "(digest \<times> digest) list"
  vw_contradicts :: "digest \<Rightarrow> digest list"
  vw_equivalence_decls :: "digest \<Rightarrow> decl list"
  vw_supersession_decls :: "digest \<Rightarrow> decl list"
  vw_contradiction_decls :: "digest \<Rightarrow> decl list"
  vw_malformed :: "digest list"
  vw_withdrawn :: "digest list"
  vw_conflicts :: "conflict list"

definition empty_view :: "subscriptions \<Rightarrow> view" where
  "empty_view s = \<lparr>vw_subs = s, vw_entries = (\<lambda>_. None), vw_order = [], vw_by_kind = (\<lambda>_. []), vw_positions = (\<lambda>_. None),
    vw_class = (\<lambda>_. None), vw_members = (\<lambda>_. []), vw_truth = (\<lambda>_. Unasserted), vw_assertions = (\<lambda>_. []),
    vw_supersedes = (\<lambda>_. []), vw_superseded_by = (\<lambda>_. []), vw_edges = [], vw_contradicts = (\<lambda>_. []),
    vw_equivalence_decls = (\<lambda>_. []), vw_supersession_decls = (\<lambda>_. []), vw_contradiction_decls = (\<lambda>_. []),
    vw_malformed = [], vw_withdrawn = [], vw_conflicts = []\<rparr>"

definition vw_has :: "view \<Rightarrow> digest \<Rightarrow> bool" where
  "vw_has v d \<longleftrightarrow> vw_entries v d \<noteq> None"

text \<open>\<open>v.class\<close> read by a digest without a class gives the zero digest.\<close>

definition class_at :: "view \<Rightarrow> digest \<Rightarrow> digest" where
  "class_at v d = (case vw_class v d of None \<Rightarrow> 0 | Some c \<Rightarrow> c)"

section \<open>Filtering\<close>

definition entry_digest :: "crypto \<Rightarrow> entry \<Rightarrow> digest" where
  "entry_digest cr e = graph_entity_digest (sha256 cr) (ge_value e)"

definition subscribed_provenance :: "subscriptions \<Rightarrow> entry \<Rightarrow> tag list" where
  "subscribed_provenance s e = filter (\<lambda>t. subscribed (Some s) (digest_bytes (fst t))) (ge_authors e)"

definition filter_entry :: "crypto \<Rightarrow> view \<Rightarrow> entry \<Rightarrow> view" where
  "filter_entry cr v e =
    (if subscribed_provenance (vw_subs v) e = [] then v
     else let d = entry_digest cr e in
       v\<lparr>vw_entries := (vw_entries v)(d \<mapsto> e), vw_order := vw_order v @ [d],
         vw_by_kind := (vw_by_kind v)(ge_kind e := vw_by_kind v (ge_kind e) @ [d])\<rparr>)"

definition filter_graph :: "crypto \<Rightarrow> graph \<Rightarrow> subscriptions option \<Rightarrow> view" where
  "filter_graph cr g subs = foldl (filter_entry cr) (empty_view (subs_snapshot subs)) (graph_entries g)"

section \<open>Reading the meta-molecules\<close>

definition read_one :: "digest \<Rightarrow> string \<Rightarrow> filler list \<Rightarrow> tag list \<Rightarrow> claim option" where
  "read_one d tmpl fillers prov =
    (let c = \<lparr>cl_meta = d, cl_template = tmpl, cl_a = 0, cl_b = 0, cl_typ = filler_atom, cl_stance = Unasserted,
         cl_prov = prov, cl_backing = []\<rparr> in
     if tmpl = template_equivalence then
       (case fillers of
          [f, f'] \<Rightarrow>
            if ftype f \<noteq> ftype f' \<or> \<not> type_is_ref (ftype f) then None
            else (case (filler_ref f, filler_ref f') of
              (Some a, Some b) \<Rightarrow> Some (c\<lparr>cl_a := a, cl_b := b, cl_typ := ftype f\<rparr>) | _ \<Rightarrow> None)
        | _ \<Rightarrow> None)
     else if tmpl = template_truth_assertion \<or> tmpl = template_truth_retraction then
       (case fillers of
          [f] \<Rightarrow>
            if ftype f \<noteq> filler_molecule then None
            else (case filler_ref f of
              None \<Rightarrow> None
            | Some a \<Rightarrow> Some (c\<lparr>cl_a := a, cl_typ := filler_molecule,
                cl_stance := if tmpl = template_truth_retraction then Retracted else Asserted\<rparr>))
        | _ \<Rightarrow> None)
     else if tmpl = template_contradiction \<or> tmpl = template_supersession then
       (case fillers of
          [f, f'] \<Rightarrow>
            if ftype f \<noteq> filler_molecule \<or> ftype f' \<noteq> filler_molecule then None
            else (case (filler_ref f, filler_ref f') of
              (Some a, Some b) \<Rightarrow> Some (c\<lparr>cl_a := a, cl_b := b, cl_typ := filler_molecule\<rparr>) | _ \<Rightarrow> None)
        | _ \<Rightarrow> None)
     else None)"

text \<open>A digest of the view is a meta-molecule's when its molecule is over a standard meta-bond.\<close>

definition meta_of :: "crypto \<Rightarrow> view \<Rightarrow> digest \<Rightarrow> (molecule \<times> bond \<times> tag list) option" where
  "meta_of cr v d =
    (case vw_entries v d of
       None \<Rightarrow> None
     | Some e \<Rightarrow>
         (case ge_value e of
            Molecule_entity m \<Rightarrow>
              (case lookup_meta_bond (sha256 cr) (mol_bond m) of
                 None \<Rightarrow> None
               | Some b \<Rightarrow>
                   let prov = subscribed_provenance (vw_subs v) e in
                   if prov = [] then None else Some (m, b, prov))
          | _ \<Rightarrow> None))"

definition sort_claim :: "string \<Rightarrow> claim \<Rightarrow> claims \<Rightarrow> claims" where
  "sort_claim tmpl cl c =
    (if tmpl = template_equivalence then c\<lparr>cs_equivalences := cs_equivalences c @ [cl]\<rparr>
     else if tmpl = template_truth_assertion \<or> tmpl = template_truth_retraction then c\<lparr>cs_truths := cs_truths c @ [cl]\<rparr>
     else if tmpl = template_contradiction then c\<lparr>cs_contradictions := cs_contradictions c @ [cl]\<rparr>
     else if tmpl = template_supersession then c\<lparr>cs_supersessions := cs_supersessions c @ [cl]\<rparr>
     else c)"

definition read_molecule :: "crypto \<Rightarrow> view \<Rightarrow> claims \<Rightarrow> digest \<Rightarrow> claims" where
  "read_molecule cr v c d =
    (case meta_of cr v d of
       None \<Rightarrow> c
     | Some (m, b, prov) \<Rightarrow>
         (case read_one d (bond_template b) (mol_fillers m) prov of
            None \<Rightarrow> c\<lparr>cs_malformed := cs_malformed c @ [d]\<rparr>
          | Some cl \<Rightarrow> sort_claim (bond_template b) cl c))"

definition no_claims :: claims where
  "no_claims = \<lparr>cs_equivalences = [], cs_truths = [], cs_contradictions = [], cs_supersessions = [], cs_malformed = []\<rparr>"

definition read_claims :: "crypto \<Rightarrow> view \<Rightarrow> claims" where
  "read_claims cr v = foldl (read_molecule cr v) no_claims (vw_by_kind v Kind_molecule)"

section \<open>The closure of the equivalences\<close>

definition declare_at :: "view \<Rightarrow> decl \<Rightarrow> (digest \<Rightarrow> decl list) \<times> digest list \<Rightarrow> digest \<Rightarrow>
    (digest \<Rightarrow> decl list) \<times> digest list" where
  "declare_at v x = (\<lambda>(index, filed) end_digest.
    if \<not> vw_has v end_digest then (index, filed)
    else let c = class_at v end_digest in
      if c \<in> set filed then (index, filed)
      else (index(c := insort_key (\<lambda>y. (dc_meta y, dc_a y, dc_b y)) x (index c)), insert_ordered filed c))"

definition declare_claim :: "view \<Rightarrow> claim \<Rightarrow> digest list \<Rightarrow> (digest \<Rightarrow> decl list) \<Rightarrow> digest \<Rightarrow> decl list" where
  "declare_claim v cl ends index =
    (let x = \<lparr>dc_meta = cl_meta cl, dc_template = cl_template cl, dc_a = cl_a cl, dc_b = cl_b cl, dc_backing = cl_backing cl\<rparr>
     in fst (foldl (declare_at v x) (index, []) ends))"

text \<open>Each digest of the view joins the class of its root; a find compresses what it walks.\<close>

definition class_digest :: "view \<times> union_find \<Rightarrow> digest \<Rightarrow> (view \<times> union_find) option" where
  "class_digest = (\<lambda>(v, u) d.
    map_option (\<lambda>(u', root). (v\<lparr>vw_class := (vw_class v)(d \<mapsto> root), vw_members := (vw_members v)(root := vw_members v root @ [d])\<rparr>, u'))
      (if uf_known u d then uf_find u d else Some (u, d)))"

fun class_all :: "digest list \<Rightarrow> view \<times> union_find \<Rightarrow> (view \<times> union_find) option" where
  "class_all [] s = Some s"
| "class_all (d # ds) s = (case class_digest s d of None \<Rightarrow> None | Some s' \<Rightarrow> class_all ds s')"

definition close_equivalences :: "claims \<Rightarrow> view \<Rightarrow> view option" where
  "close_equivalences c v =
    (case union_all (map (\<lambda>cl. (cl_a cl, cl_b cl)) (cs_equivalences c)) new_union_find of
       None \<Rightarrow> None
     | Some u \<Rightarrow>
         map_option (\<lambda>(v', u').
             v'\<lparr>vw_equivalence_decls := foldl (\<lambda>index cl. declare_claim v' cl [cl_a cl, cl_b cl] index) (vw_equivalence_decls v') (cs_equivalences c)\<rparr>)
           (class_all (vw_order v) (v, u)))"

section \<open>What is in a view\<close>

definition admitted :: "subscriptions \<Rightarrow> entry \<Rightarrow> bool" where
  "admitted s e \<longleftrightarrow> subscribed_provenance s e \<noteq> []"

lemma filter_entry_subs [simp]: "vw_subs (filter_entry cr v e) = vw_subs v"
  by (simp add: filter_entry_def Let_def)

lemma filter_fold:
  "vw_subs (foldl (filter_entry cr) v es) = vw_subs v"
  "vw_order (foldl (filter_entry cr) v es) = vw_order v @ map (entry_digest cr) (filter (admitted (vw_subs v)) es)"
  "vw_by_kind (foldl (filter_entry cr) v es) k =
    vw_by_kind v k @ map (entry_digest cr) (filter (\<lambda>e. admitted (vw_subs v) e \<and> ge_kind e = k) es)"
  "vw_entries (foldl (filter_entry cr) v es) =
    foldl (\<lambda>m e. m(entry_digest cr e \<mapsto> e)) (vw_entries v) (filter (admitted (vw_subs v)) es)"
  by (induction es arbitrary: v) (auto simp: filter_entry_def Let_def admitted_def)

lemma fold_entries:
  assumes "distinct (map f es)"
  shows "foldl (\<lambda>m e. m(f e \<mapsto> e)) m es d = (case find (\<lambda>e. f e = d) es of None \<Rightarrow> m d | Some e \<Rightarrow> Some e)"
  using assms
proof (induction es arbitrary: m)
  case (Cons e es)
  have "find (\<lambda>x. f x = d) es = None" if "f e = d"
  proof -
    have "\<forall>x \<in> set es. f x \<noteq> d" using Cons.prems that by (metis distinct.simps(2) imageI list.set_map list.simps(9))
    then show ?thesis by (auto simp: find_None_iff)
  qed
  then show ?case using Cons by auto
qed simp

lemma find_member: "distinct (map f es) \<Longrightarrow> find (\<lambda>e. f e = d) es = Some e \<longleftrightarrow> e \<in> set es \<and> f e = d"
  by (induction es) auto

text \<open>The filtered view of a list of entries in digest order.\<close>

definition view_ok :: "crypto \<Rightarrow> view \<Rightarrow> bool" where
  "view_ok cr v \<longleftrightarrow> sorted_wrt (<) (vw_order v) \<and> set (vw_order v) = {d. vw_has v d} \<and>
    (\<forall>d e. vw_entries v d = Some e \<longrightarrow> entry_digest cr e = d \<and> admitted (vw_subs v) e) \<and>
    (\<forall>k. vw_by_kind v k = filter (\<lambda>d. ge_kind (the (vw_entries v d)) = k) (vw_order v))"

lemma filter_graph_entries:
  assumes "sorted_wrt (<) (map (entry_digest cr) (graph_entries g))"
  shows "vw_entries (filter_graph cr g subs) d = Some e \<longleftrightarrow>
      e \<in> set (graph_entries g) \<and> entry_digest cr e = d \<and> admitted (subs_snapshot subs) e"
    and "view_ok cr (filter_graph cr g subs)"
proof -
  let ?s = "subs_snapshot subs" and ?v = "filter_graph cr g subs"
  let ?es = "filter (admitted ?s) (graph_entries g)"
  have vs: "vw_subs ?v = ?s" by (simp add: filter_graph_def filter_fold empty_view_def)
  have order: "vw_order ?v = map (entry_digest cr) ?es" by (simp add: filter_graph_def filter_fold) (simp add: empty_view_def)
  have kinds: "vw_by_kind ?v k = map (entry_digest cr) (filter (\<lambda>e. admitted ?s e \<and> ge_kind e = k) (graph_entries g))" for k
    by (simp add: filter_graph_def filter_fold) (simp add: empty_view_def)
  have sorted: "sorted_wrt (<) (map (entry_digest cr) ?es)"
    using assms by (simp add: sorted_wrt_map sorted_wrt_filter)
  then have distinct: "distinct (map (entry_digest cr) ?es)" by (simp add: strict_sorted_iff)
  have ent: "vw_entries ?v d = find (\<lambda>e. entry_digest cr e = d) ?es" for d
    by (simp add: filter_graph_def filter_fold)
      (simp add: empty_view_def fold_entries [OF distinct] split: option.splits)
  show main: "vw_entries ?v d = Some e \<longleftrightarrow> e \<in> set (graph_entries g) \<and> entry_digest cr e = d \<and> admitted ?s e" for d e
    unfolding ent find_member [OF distinct] by auto
  have has: "vw_has ?v d \<longleftrightarrow> d \<in> set (vw_order ?v)" for d
    using main [of d] by (auto simp: vw_has_def order image_iff)
  have val: "the (vw_entries ?v (entry_digest cr e)) = e" if "e \<in> set ?es" for e
    using main [of "entry_digest cr e" e] that by simp
  have "vw_by_kind ?v k = filter (\<lambda>d. ge_kind (the (vw_entries ?v d)) = k) (vw_order ?v)" for k
  proof -
    have "filter (\<lambda>d. ge_kind (the (vw_entries ?v d)) = k) (vw_order ?v) =
        map (entry_digest cr) (filter (\<lambda>e. ge_kind (the (vw_entries ?v (entry_digest cr e))) = k) ?es)"
      by (simp only: order filter_map comp_def)
    also have "filter (\<lambda>e. ge_kind (the (vw_entries ?v (entry_digest cr e))) = k) ?es = filter (\<lambda>e. ge_kind e = k) ?es"
      using val by (intro filter_cong) auto
    finally show ?thesis by (simp add: kinds conj_commute)
  qed
  then show "view_ok cr ?v" using sorted main has by (auto simp: view_ok_def vs order)
qed

section \<open>What is read\<close>

definition claim_of :: "crypto \<Rightarrow> view \<Rightarrow> digest \<Rightarrow> claim option" where
  "claim_of cr v d = (case meta_of cr v d of None \<Rightarrow> None
     | Some (m, b, prov) \<Rightarrow> read_one d (bond_template b) (mol_fillers m) prov)"

definition claims_of :: "crypto \<Rightarrow> view \<Rightarrow> string set \<Rightarrow> claim list" where
  "claims_of cr v T = filter (\<lambda>cl. cl_template cl \<in> T) (List.map_filter (claim_of cr v) (vw_by_kind v Kind_molecule))"

lemma read_one_fields:
  assumes "read_one d t fs prov = Some cl"
  shows "cl_meta cl = d" "cl_template cl = t" "cl_prov cl = prov" "cl_backing cl = []"
    "t \<in> {template_equivalence, template_truth_assertion, template_truth_retraction, template_contradiction, template_supersession}"
  using assms by (auto simp: read_one_def Let_def split: if_splits list.splits option.splits)

lemma template_names:
  "template_equivalence \<noteq> template_truth_assertion" "template_equivalence \<noteq> template_truth_retraction"
  "template_equivalence \<noteq> template_contradiction" "template_equivalence \<noteq> template_supersession"
  "template_truth_assertion \<noteq> template_truth_retraction" "template_truth_assertion \<noteq> template_contradiction"
  "template_truth_assertion \<noteq> template_supersession" "template_truth_retraction \<noteq> template_contradiction"
  "template_truth_retraction \<noteq> template_supersession" "template_contradiction \<noteq> template_supersession"
  by code_simp+

abbreviation truth_templates :: "string set" where
  "truth_templates \<equiv> {template_truth_assertion, template_truth_retraction}"

lemma sort_claim_cases:
  assumes "t \<in> {template_equivalence, template_truth_assertion, template_truth_retraction, template_contradiction, template_supersession}"
    and "cl_template cl = t"
  shows "sort_claim t cl c =
    \<lparr>cs_equivalences = cs_equivalences c @ (if t = template_equivalence then [cl] else []),
     cs_truths = cs_truths c @ (if t \<in> truth_templates then [cl] else []),
     cs_contradictions = cs_contradictions c @ (if t = template_contradiction then [cl] else []),
     cs_supersessions = cs_supersessions c @ (if t = template_supersession then [cl] else []),
     cs_malformed = cs_malformed c\<rparr>"
  using assms(1) by (elim insertE emptyE) (simp_all add: sort_claim_def template_names template_names [symmetric])

text \<open>The fold sorts the claims of the molecules by template, in the order of the molecules.\<close>

lemma map_filter_snoc: "List.map_filter f (xs @ [x]) = List.map_filter f xs @ (case f x of None \<Rightarrow> [] | Some y \<Rightarrow> [y])"
  by (induction xs) (auto simp: map_filter_simps split: option.splits)

lemma read_fold:
  "foldl (read_molecule cr v) no_claims ds =
    (let cls = List.map_filter (claim_of cr v) ds in
     \<lparr>cs_equivalences = filter (\<lambda>cl. cl_template cl \<in> {template_equivalence}) cls,
      cs_truths = filter (\<lambda>cl. cl_template cl \<in> truth_templates) cls,
      cs_contradictions = filter (\<lambda>cl. cl_template cl \<in> {template_contradiction}) cls,
      cs_supersessions = filter (\<lambda>cl. cl_template cl \<in> {template_supersession}) cls,
      cs_malformed = filter (\<lambda>d. meta_of cr v d \<noteq> None \<and> claim_of cr v d = None) ds\<rparr>)"
proof (induction ds rule: rev_induct)
  case Nil
  then show ?case by (simp add: no_claims_def map_filter_simps)
next
  case (snoc d ds)
  show ?case
  proof (cases "meta_of cr v d")
    case None
    then have "claim_of cr v d = None" by (simp add: claim_of_def)
    then show ?thesis using snoc None by (simp add: read_molecule_def map_filter_snoc Let_def)
  next
    case (Some mbp)
    obtain m b prov where mbp: "mbp = (m, b, prov)" by (cases mbp)
    show ?thesis
    proof (cases "claim_of cr v d")
      case None
      then have "read_one d (bond_template b) (mol_fillers m) prov = None" using Some mbp by (simp add: claim_of_def)
      then show ?thesis using snoc Some None mbp by (simp add: read_molecule_def map_filter_snoc Let_def)
    next
      case (Some cl)
      then have r: "read_one d (bond_template b) (mol_fillers m) prov = Some cl" using \<open>meta_of cr v d = Some mbp\<close> mbp by (simp add: claim_of_def)
      note f = read_one_fields [OF r]
      have "foldl (read_molecule cr v) no_claims (ds @ [d]) = sort_claim (bond_template b) cl (foldl (read_molecule cr v) no_claims ds)"
        using \<open>meta_of cr v d = Some mbp\<close> mbp r by (simp add: read_molecule_def)
      then show ?thesis using snoc Some \<open>meta_of cr v d = Some mbp\<close>
        unfolding sort_claim_cases [OF f(5,2)] by (simp add: f(2) map_filter_snoc Let_def)
    qed
  qed
qed

lemma read_claims_eq:
  "cs_equivalences (read_claims cr v) = claims_of cr v {template_equivalence}"
  "cs_truths (read_claims cr v) = claims_of cr v truth_templates"
  "cs_contradictions (read_claims cr v) = claims_of cr v {template_contradiction}"
  "cs_supersessions (read_claims cr v) = claims_of cr v {template_supersession}"
  "cs_malformed (read_claims cr v) = filter (\<lambda>d. meta_of cr v d \<noteq> None \<and> claim_of cr v d = None) (vw_by_kind v Kind_molecule)"
  by (simp_all add: read_claims_def read_fold claims_of_def Let_def)

text \<open>When the fillers fit the template of the bond.\<close>

definition fits :: "string \<Rightarrow> filler list \<Rightarrow> bool" where
  "fits t fs \<longleftrightarrow>
    (if t = template_equivalence then (\<exists>f f'. fs = [f, f'] \<and> ftype f = ftype f' \<and> type_is_ref (ftype f))
     else if t \<in> truth_templates then (\<exists>f. fs = [f] \<and> ftype f = filler_molecule)
     else t \<in> {template_contradiction, template_supersession} \<and>
       (\<exists>f f'. fs = [f, f'] \<and> ftype f = filler_molecule \<and> ftype f' = filler_molecule))"

lemma molecule_is_ref: "type_is_ref filler_molecule"
  by (simp add: type_is_ref_def)

lemma read_one_None: "read_one d t fs prov = None \<longleftrightarrow> \<not> fits t fs"
  by (auto simp: read_one_def fits_def Let_def filler_ref_def molecule_is_ref split: list.splits if_splits)

section \<open>The classes\<close>

text \<open>What the loop over the view does to the classes, for any structure that closes the pairs.\<close>

definition least_of :: "(digest \<times> digest) set \<Rightarrow> digest \<Rightarrow> digest \<Rightarrow> bool" where
  "least_of P d r \<longleftrightarrow> (d, r) \<in> conn P \<and> (\<forall>x. (d, x) \<in> conn P \<longrightarrow> r \<le> x)"

lemma least_of_unique: "least_of P d r \<Longrightarrow> least_of P e s \<Longrightarrow> (d, e) \<in> conn P \<longleftrightarrow> r = s"
  unfolding least_of_def by (meson conn_sym conn_trans antisym)

lemma class_digest_result:
  assumes "closes P u"
  shows "\<exists>u' r. class_digest (v, u) d =
      Some (v\<lparr>vw_class := (vw_class v)(d \<mapsto> r), vw_members := (vw_members v)(r := vw_members v r @ [d])\<rparr>, u') \<and>
    closes P u' \<and> least_of P d r"
proof (cases "d \<in> Field P")
  case True
  then have "uf_known u d" using assms by (auto simp: uf_known_def closes_def)
  moreover obtain u' r where "uf_find u d = Some (u', r)" "closes P u'" "least_of P d r"
    using closes_find [OF assms True] by (auto simp: least_of_def)
  ultimately show ?thesis by (intro exI [of _ u'] exI [of _ r]) (simp add: class_digest_def)
next
  case False
  then have "\<not> uf_known u d" using assms by (auto simp: uf_known_def closes_def)
  moreover have "least_of P d d" using False conn_field [of d _ P] by (auto simp: least_of_def)
  ultimately show ?thesis using assms by (intro exI [of _ u] exI [of _ d]) (simp add: class_digest_def)
qed

definition classed :: "(digest \<times> digest) set \<Rightarrow> digest list \<Rightarrow> view \<Rightarrow> bool" where
  "classed P ds v \<longleftrightarrow> (\<forall>d. vw_class v d = None \<longleftrightarrow> d \<notin> set ds) \<and> (\<forall>d r. vw_class v d = Some r \<longrightarrow> least_of P d r) \<and>
    (\<forall>r. vw_members v r = filter (\<lambda>d. vw_class v d = Some r) ds)"

lemma class_all_result:
  assumes "closes P u" and "classed P ds v" and "distinct (ds @ es)"
  shows "\<exists>v' u'. class_all es (v, u) = Some (v', u') \<and> classed P (ds @ es) v' \<and>
    v' = v\<lparr>vw_class := vw_class v', vw_members := vw_members v'\<rparr>"
  using assms
proof (induction es arbitrary: v u ds)
  case Nil
  then show ?case by simp
next
  case (Cons d es)
  obtain u1 r where c: "class_digest (v, u) d =
      Some (v\<lparr>vw_class := (vw_class v)(d \<mapsto> r), vw_members := (vw_members v)(r := vw_members v r @ [d])\<rparr>, u1)"
    "closes P u1" "least_of P d r" using class_digest_result [OF Cons.prems(1)] by blast
  let ?v = "v\<lparr>vw_class := (vw_class v)(d \<mapsto> r), vw_members := (vw_members v)(r := vw_members v r @ [d])\<rparr>"
  have new: "d \<notin> set ds" using Cons.prems(3) by simp
  have "filter (\<lambda>x. ((vw_class v)(d \<mapsto> r)) x = Some s) ds = filter (\<lambda>x. vw_class v x = Some s) ds" for s
    using new by (intro filter_cong) auto
  then have "classed P (ds @ [d]) ?v" using Cons.prems(2) new c(3) by (auto simp: classed_def)
  from Cons.IH [OF c(2) this] Cons.prems(3) obtain v' u' where
    v': "class_all es (?v, u1) = Some (v', u')" "classed P (ds @ [d] @ es) v'"
      "v' = ?v\<lparr>vw_class := vw_class v', vw_members := vw_members v'\<rparr>" by auto
  have "v' = v\<lparr>vw_class := vw_class v', vw_members := vw_members v'\<rparr>" by (subst v'(3)) simp
  then show ?case using c(1) v'(1,2) by auto
qed

text \<open>The pairs of the equivalences that are applied.\<close>

definition declared_pairs :: "claims \<Rightarrow> (digest \<times> digest) set" where
  "declared_pairs c = (\<lambda>cl. (cl_a cl, cl_b cl)) ` set (cs_equivalences c)"

lemma close_equivalences_result:
  assumes "distinct (vw_order v)" and "vw_class v = (\<lambda>_. None)" and "vw_members v = (\<lambda>_. [])"
  shows "\<exists>v'. close_equivalences c v = Some v' \<and> classed (declared_pairs c) (vw_order v) v' \<and>
    v' = v\<lparr>vw_class := vw_class v', vw_members := vw_members v', vw_equivalence_decls := vw_equivalence_decls v'\<rparr>"
proof -
  obtain u where u: "union_all (map (\<lambda>cl. (cl_a cl, cl_b cl)) (cs_equivalences c)) new_union_find = Some u"
    and cl: "closes (declared_pairs c) u"
    using union_all_closes [OF closes_new] by (fastforce simp: declared_pairs_def)
  have "classed (declared_pairs c) [] v" using assms(2,3) by (simp add: classed_def)
  from class_all_result [OF cl this, of "vw_order v"] assms(1) obtain v1 u1 where
    v1: "class_all (vw_order v) (v, u) = Some (v1, u1)" "classed (declared_pairs c) (vw_order v) v1"
      "v1 = v\<lparr>vw_class := vw_class v1, vw_members := vw_members v1\<rparr>" by auto
  let ?v = "v1\<lparr>vw_equivalence_decls := foldl (\<lambda>index cl. declare_claim v1 cl [cl_a cl, cl_b cl] index) (vw_equivalence_decls v1) (cs_equivalences c)\<rparr>"
  have "close_equivalences c v = Some ?v" by (simp add: close_equivalences_def u v1(1))
  moreover have "classed (declared_pairs c) (vw_order v) ?v" using v1(2) by (simp add: classed_def)
  moreover have "?v = v\<lparr>vw_class := vw_class ?v, vw_members := vw_members ?v, vw_equivalence_decls := vw_equivalence_decls ?v\<rparr>"
    by (subst v1(3)) simp
  ultimately show ?thesis by blast
qed

end
