(* ===== verification/Block_Order.thy ===== *)
theory Block_Order
  imports Accept_View
begin

text \<open>
  Block order (\<open>go/accept/order.go\<close>): where a block sits in its author's chain, counted from the
  genesis block of the oldest chain that a verifiable, unambiguous succession leads back to. The
  walk keeps what it has placed; its loop ends because the digests are finitely many.
\<close>

section \<open>The walk\<close>

datatype accept_error =
    Chain_revisits digest digest
  | Source_lacks digest block_error
  | Source_wrong digest digest
  | Reading_ref digest digest block_error
  | Reading_rotation digest block_error
  | Placing_block digest accept_error
  | Ordering_publication digest accept_error
  | Ordering_assertion digest accept_error

record place =
  pl_lineage :: digest
  pl_index :: nat

record block_order =
  bo_pos :: "digest \<Rightarrow> place option"
  bo_reported :: "digest \<Rightarrow> bool"
  bo_conflicts :: "conflict list"

definition new_block_order :: block_order where
  "new_block_order = \<lparr>bo_pos = (\<lambda>_. None), bo_reported = (\<lambda>_. False), bo_conflicts = []\<rparr>"

fun rotation_claims :: "crypto \<Rightarrow> source \<Rightarrow> block \<Rightarrow> digest list \<Rightarrow> accept_error + digest list" where
  "rotation_claims cr src genesis [] = Inr []"
| "rotation_claims cr src genesis (ref # refs) =
    (case src_block src ref of
       Inl e \<Rightarrow> if is_not_found e then rotation_claims cr src genesis refs
         else Inl (Reading_ref ref (block_digest cr genesis) e)
     | Inr b \<Rightarrow>
         (case block_rotate_key b of
            None \<Rightarrow> rotation_claims cr src genesis refs
          | Some k \<Rightarrow>
              if digest_bytes k \<noteq> block_pub genesis then rotation_claims cr src genesis refs
              else bindE (rotation_claims cr src genesis refs) (\<lambda>cs. Inr (ref # cs))))"

definition signers_of :: "source \<Rightarrow> digest list \<Rightarrow> public_key list" where
  "signers_of src ds = foldl (\<lambda>ks d. case src_block src d of
      Inl e \<Rightarrow> ks
    | Inr b \<Rightarrow> (case key_of (block_pub b) of None \<Rightarrow> ks | Some k \<Rightarrow> insert_ordered ks k)) [] ds"

definition report_ambiguity :: "source \<Rightarrow> digest \<Rightarrow> digest list \<Rightarrow> block_order \<Rightarrow> block_order" where
  "report_ambiguity src at blocks o' =
    (if bo_reported o' at then o'
     else let involved = foldl insert_ordered [] (at # blocks) in
       o'\<lparr>bo_reported := (bo_reported o')(at := True),
         bo_conflicts := bo_conflicts o' @ [\<lparr>cf_kind = Ambiguous_order, cf_molecules = [], cf_sides = [], cf_meta = [],
           cf_blocks = involved, cf_declarers = signers_of src involved\<rparr>]\<rparr>)"

text \<open>An error of \<open>Successors\<close> is dropped: a source that cannot answer detects no ambiguity.\<close>

definition rotation_behind :: "crypto \<Rightarrow> source \<Rightarrow> block \<Rightarrow> block_order \<Rightarrow> accept_error + block_order \<times> digest option" where
  "rotation_behind cr src genesis o' =
    (if c_type (blk_content genesis) \<noteq> type_public then Inr (o', None)
     else bindE (rotation_claims cr src genesis (block_refs genesis)) (\<lambda>cs.
       case cs of
         [] \<Rightarrow> Inr (o', None)
       | [rotation] \<Rightarrow>
           bindE (mapErr (Reading_rotation rotation) (src_block src rotation)) (\<lambda>rb.
           case successors cr rb src of
             Inr (ds, Some f) \<Rightarrow> Inr (report_ambiguity src rotation ds o', None)
           | _ \<Rightarrow> Inr (o', Some rotation))
       | _ \<Rightarrow> Inr (report_ambiguity src (block_digest cr genesis) cs o', None)))"

text \<open>The state of the loop of \<open>of\<close>: the memo, the path walked, the digests seen, the next one and the base found.\<close>

type_synonym order_walk = "block_order \<times> digest list \<times> (digest \<Rightarrow> bool) \<times> digest \<times> place option"

definition order_step :: "crypto \<Rightarrow> source \<Rightarrow> digest \<Rightarrow> order_walk \<Rightarrow> accept_error + order_walk" where
  "order_step cr src d = (\<lambda>(o', path, seen, cur, base).
    case bo_pos o' cur of
      Some p \<Rightarrow> Inr (o', path, seen, cur, Some p)
    | None \<Rightarrow>
        if seen cur then Inl (Chain_revisits d cur)
        else bindE (mapErr (Source_lacks cur) (src_block src cur)) (\<lambda>b.
          if block_digest cr b \<noteq> cur then Inl (Source_wrong (block_digest cr b) cur)
          else case block_prev b of
            Some p \<Rightarrow> Inr (o', path @ [cur], seen(cur := True), p, None)
          | None \<Rightarrow>
              bindE (rotation_behind cr src b o') (\<lambda>(o2, rotation).
              case rotation of
                Some r \<Rightarrow> Inr (o2, path @ [cur], seen(cur := True), r, None)
              | None \<Rightarrow> let b0 = \<lparr>pl_lineage = cur, pl_index = 0\<rparr> in
                  Inr (o2\<lparr>bo_pos := (bo_pos o2)(cur \<mapsto> b0)\<rparr>, path, seen(cur := True), cur, Some b0))))"

text \<open>The second loop, from the end of the path.\<close>

definition place_path :: "digest list \<Rightarrow> place \<Rightarrow> block_order \<Rightarrow> block_order" where
  "place_path path base o' =
    fst (foldl (\<lambda>(o', b) d. let b' = \<lparr>pl_lineage = pl_lineage b, pl_index = pl_index b + 1\<rparr> in
        (o'\<lparr>bo_pos := (bo_pos o')(d \<mapsto> b')\<rparr>, b')) (o', base) (rev path))"

definition order_pending :: "order_walk \<Rightarrow> bool" where
  "order_pending = (\<lambda>(o', path, seen, cur, base). base = None)"

definition order_of :: "crypto \<Rightarrow> source \<Rightarrow> digest \<Rightarrow> block_order \<Rightarrow> (accept_error + block_order \<times> place) option" where
  "order_of cr src d o' =
    (case bo_pos o' d of
       Some p \<Rightarrow> Some (Inr (o', p))
     | None \<Rightarrow>
         bindD (loopE order_pending (order_step cr src d) (o', [], \<lambda>_. False, d, None))
           (\<lambda>(o2, path, seen, cur, base). let o3 = place_path path (the base) o2 in Some (Inr (o3, the (bo_pos o3 d)))))"

section \<open>Block order as a relation\<close>

text \<open>The block before a block: its predecessor, or the rotation its genesis block succeeds.\<close>

definition rotation_before :: "crypto \<Rightarrow> source \<Rightarrow> block \<Rightarrow> accept_error + digest option" where
  "rotation_before cr src b =
    (if c_type (blk_content b) \<noteq> type_public then Inr None
     else bindE (rotation_claims cr src b (block_refs b)) (\<lambda>cs.
       case cs of [r] \<Rightarrow>
           bindE (mapErr (Reading_rotation r) (src_block src r)) (\<lambda>rb.
             case successors cr rb src of Inr (ds, Some f) \<Rightarrow> Inr None | _ \<Rightarrow> Inr (Some r))
       | _ \<Rightarrow> Inr None))"

definition step_back :: "crypto \<Rightarrow> source \<Rightarrow> block \<Rightarrow> accept_error + digest option" where
  "step_back cr src b = (case block_prev b of Some p \<Rightarrow> Inr (Some p) | None \<Rightarrow> rotation_before cr src b)"

inductive placed :: "crypto \<Rightarrow> source \<Rightarrow> digest \<Rightarrow> place \<Rightarrow> bool" for cr src where
  start: "src_block src d = Inr b \<Longrightarrow> block_digest cr b = d \<Longrightarrow> step_back cr src b = Inr None \<Longrightarrow>
    placed cr src d \<lparr>pl_lineage = d, pl_index = 0\<rparr>"
| after: "src_block src d = Inr b \<Longrightarrow> block_digest cr b = d \<Longrightarrow> step_back cr src b = Inr (Some c) \<Longrightarrow>
    placed cr src c p \<Longrightarrow> placed cr src d \<lparr>pl_lineage = pl_lineage p, pl_index = pl_index p + 1\<rparr>"

inductive_cases placedE: "placed cr src d p"

lemma placed_unique: "placed cr src d p \<Longrightarrow> placed cr src d q \<Longrightarrow> p = q"
proof (induction arbitrary: q rule: placed.induct)
  case (start d b)
  from start.prems start.hyps show ?case by (auto elim: placedE)
next
  case (after d b c p)
  from after.prems after.hyps obtain p' where "placed cr src c p'" "q = \<lparr>pl_lineage = pl_lineage p', pl_index = pl_index p' + 1\<rparr>"
    by (auto elim: placedE)
  then show ?case using after.IH by blast
qed

lemma report_pos [simp]: "bo_pos (report_ambiguity src at bs o') = bo_pos o'"
  by (simp add: report_ambiguity_def Let_def)

lemma rotation_behind_result:
  "rotation_behind cr src g o' = (case rotation_before cr src g of Inl e \<Rightarrow> Inl e
     | Inr r \<Rightarrow> Inr (case rotation_behind cr src g o' of Inr (o2, _) \<Rightarrow> o2 | Inl e \<Rightarrow> o', r))"
  "rotation_behind cr src g o' = Inr (o2, r) \<Longrightarrow> bo_pos o2 = bo_pos o'"
  by (auto simp: rotation_behind_def rotation_before_def bindE_def mapErr_def split: sum.splits list.splits prod.splits option.splits if_splits)

section \<open>What the walk computes\<close>

lemma placed_after:
  assumes "src_block src d = Inr b" and "block_digest cr b = d" and "step_back cr src b = Inr (Some e)"
  shows "placed cr src d q \<longleftrightarrow> (\<exists>p. placed cr src e p \<and> q = \<lparr>pl_lineage = pl_lineage p, pl_index = pl_index p + 1\<rparr>)"
proof
  assume "placed cr src d q"
  then show "\<exists>p. placed cr src e p \<and> q = \<lparr>pl_lineage = pl_lineage p, pl_index = pl_index p + 1\<rparr>"
    by cases (use assms in auto)
next
  assume "\<exists>p. placed cr src e p \<and> q = \<lparr>pl_lineage = pl_lineage p, pl_index = pl_index p + 1\<rparr>"
  then show "placed cr src d q" using placed.after [OF assms] by blast
qed

text \<open>The path walked leads back from \<open>d\<close> to \<open>c\<close>.\<close>

fun traced :: "crypto \<Rightarrow> source \<Rightarrow> digest \<Rightarrow> digest list \<Rightarrow> digest \<Rightarrow> bool" where
  "traced cr src d [] c \<longleftrightarrow> d = c"
| "traced cr src d (x # xs) c \<longleftrightarrow> x = d \<and>
    (\<exists>b e. src_block src x = Inr b \<and> block_digest cr b = x \<and> step_back cr src b = Inr (Some e) \<and> traced cr src e xs c)"

lemma traced_append: "traced cr src d (xs @ ys) c \<longleftrightarrow> (\<exists>e. traced cr src d xs e \<and> traced cr src e ys c)"
  by (induction xs arbitrary: d) auto

lemma traced_placed:
  assumes "traced cr src d xs c"
  shows "placed cr src d q \<longleftrightarrow> (\<exists>p. placed cr src c p \<and> q = \<lparr>pl_lineage = pl_lineage p, pl_index = pl_index p + length xs\<rparr>)"
  using assms
proof (induction xs arbitrary: d q)
  case (Cons x xs)
  then obtain b e where b: "x = d" "src_block src d = Inr b" "block_digest cr b = d" "step_back cr src b = Inr (Some e)" "traced cr src e xs c"
    by auto
  have "placed cr src d q \<longleftrightarrow> (\<exists>p. placed cr src e p \<and> q = \<lparr>pl_lineage = pl_lineage p, pl_index = pl_index p + 1\<rparr>)"
    using placed_after [OF b(2,3,4)] by simp
  also have "\<dots> \<longleftrightarrow> (\<exists>p. placed cr src c p \<and> q = \<lparr>pl_lineage = pl_lineage p, pl_index = pl_index p + length (x # xs)\<rparr>)"
    unfolding Cons.IH [OF b(5)] by auto
  finally show ?case .
next
  case Nil
  have "\<lparr>pl_lineage = pl_lineage p, pl_index = pl_index p + length []\<rparr> = p" for p :: place by (cases p) simp
  then have e: "(\<exists>p. placed cr src c p \<and> q = \<lparr>pl_lineage = pl_lineage p, pl_index = pl_index p + length []\<rparr>) \<longleftrightarrow> placed cr src c q"
    by metis
  from Nil have dc: "d = c" by simp
  show ?case unfolding dc by (rule e [symmetric])
qed

lemma traced_member: "traced cr src d xs c \<Longrightarrow> x \<in> set xs \<Longrightarrow> \<exists>ys zs. xs = ys @ x # zs \<and> traced cr src x (x # zs) c"
proof -
  assume w: "traced cr src d xs c" and "x \<in> set xs"
  then obtain ys zs where xs: "xs = ys @ x # zs" by (meson split_list)
  with w obtain e where "traced cr src e (x # zs) c" by (auto simp only: traced_append)
  moreover from this have "e = x" by simp
  ultimately show ?thesis using xs by blast
qed

text \<open>A place is never reached again from itself.\<close>

lemma placed_acyclic:
  assumes "traced cr src d xs d" and "xs \<noteq> []"
  shows "\<not> placed cr src d p"
proof
  assume p: "placed cr src d p"
  then obtain q where "placed cr src d q" "p = \<lparr>pl_lineage = pl_lineage q, pl_index = pl_index q + length xs\<rparr>"
    using traced_placed [OF assms(1)] by blast
  then have "pl_index p = pl_index p + length xs" using placed_unique [OF p, of q] by (metis place.select_convs(2))
  then show False using assms(2) by simp
qed

text \<open>The memo holds places only.\<close>

definition order_ok :: "crypto \<Rightarrow> source \<Rightarrow> block_order \<Rightarrow> bool" where
  "order_ok cr src o' \<longleftrightarrow> (\<forall>d p. bo_pos o' d = Some p \<longrightarrow> placed cr src d p)"

lemma order_okD: "order_ok cr src o' \<Longrightarrow> bo_pos o' d = Some p \<Longrightarrow> placed cr src d p"
  by (simp add: order_ok_def)

lemma new_block_order_ok [simp]: "order_ok cr src new_block_order"
  by (simp add: order_ok_def new_block_order_def)

definition walk_ok :: "crypto \<Rightarrow> source \<Rightarrow> digest \<Rightarrow> block_order \<Rightarrow> order_walk \<Rightarrow> bool" where
  "walk_ok cr src d o' = (\<lambda>(o2, path, seen, cur, base).
    order_ok cr src o2 \<and> traced cr src d path cur \<and> bo_pos o' \<subseteq>\<^sub>m bo_pos o2 \<and>
    (\<forall>p. base = Some p \<longrightarrow> placed cr src cur p \<and> bo_pos o2 cur = Some p) \<and> (base = None \<longrightarrow> {x. seen x} = set path))"

lemma rotation_behind_cases:
  assumes "block_prev b = None"
  obtains (fail) e where "rotation_behind cr src b o' = Inl e" "step_back cr src b = Inl e"
    | (more) o2 r where "rotation_behind cr src b o' = Inr (o2, Some r)" "step_back cr src b = Inr (Some r)" "bo_pos o2 = bo_pos o'"
    | (stop) o2 where "rotation_behind cr src b o' = Inr (o2, None)" "step_back cr src b = Inr None" "bo_pos o2 = bo_pos o'"
proof (cases "rotation_before cr src b")
  case (Inl e)
  have "rotation_behind cr src b o' = Inl e" by (subst rotation_behind_result(1)) (simp add: Inl)
  then show ?thesis using fail assms Inl by (simp add: step_back_def)
next
  case (Inr r)
  have "\<exists>o2. rotation_behind cr src b o' = Inr (o2, r)" by (subst rotation_behind_result(1)) (simp only: Inr sum.case, blast)
  then obtain o2 where o2: "rotation_behind cr src b o' = Inr (o2, r)" ..
  note p = rotation_behind_result(2) [OF o2]
  show ?thesis using assms Inr o2 p more stop by (cases r) (simp_all add: step_back_def)
qed

text \<open>One turn of the loop.\<close>

lemma order_step_cases:
  assumes "walk_ok cr src d o' (o2, path, seen, cur, None)"
  obtains (error) e where "order_step cr src d (o2, path, seen, cur, None) = Inl e" "\<And>p. \<not> placed cr src cur p"
    | (memo) p where "order_step cr src d (o2, path, seen, cur, None) = Inr (o2, path, seen, cur, Some p)" "bo_pos o2 cur = Some p"
    | (more) o3 c where "order_step cr src d (o2, path, seen, cur, None) = Inr (o3, path @ [cur], seen(cur := True), c, None)"
        "bo_pos o3 = bo_pos o2" "traced cr src cur [cur] c" "\<not> seen cur"
    | (start) o3 where "order_step cr src d (o2, path, seen, cur, None) =
          Inr (o3\<lparr>bo_pos := (bo_pos o2)(cur \<mapsto> \<lparr>pl_lineage = cur, pl_index = 0\<rparr>)\<rparr>, path, seen(cur := True), cur, Some \<lparr>pl_lineage = cur, pl_index = 0\<rparr>)"
        "placed cr src cur \<lparr>pl_lineage = cur, pl_index = 0\<rparr>" "bo_pos o2 cur = None"
proof (cases "bo_pos o2 cur")
  case (Some p)
  then show ?thesis using memo by (simp add: order_step_def)
next
  case unplaced: None
  show ?thesis
  proof (cases "seen cur")
    case True
    then have "cur \<in> set path" using assms by (auto simp: walk_ok_def)
    then obtain zs where "traced cr src cur (cur # zs) cur"
      using assms traced_member [of cr src d path cur cur] by (auto simp: walk_ok_def)
    then have "\<not> placed cr src cur p" for p using placed_acyclic by blast
    then show ?thesis using error unplaced True by (simp add: order_step_def)
  next
    case fresh: False
    show ?thesis
    proof (cases "src_block src cur")
      case (Inl e)
      then have "\<not> placed cr src cur p" for p by (auto elim: placedE)
      then show ?thesis using error unplaced fresh Inl by (simp add: order_step_def)
    next
      case b: (Inr b)
      show ?thesis
      proof (cases "block_digest cr b = cur")
        case False
        then have "\<not> placed cr src cur p" for p using b by (auto elim: placedE)
        then show ?thesis using error unplaced fresh b False by (simp add: order_step_def)
      next
        case digest: True
        show ?thesis
        proof (cases "block_prev b")
          case (Some c)
          then show ?thesis using more [of o2 c] unplaced fresh b digest by (simp add: order_step_def step_back_def)
        next
          case None
          show ?thesis
          proof (cases rule: rotation_behind_cases [OF None, of cr src o2])
            case (1 e)
            then have "\<not> placed cr src cur p" for p using b by (auto elim: placedE)
            then show ?thesis using error 1 unplaced fresh b digest None by (simp add: order_step_def)
          next
            case (2 o3 r)
            then show ?thesis using more [of o3 r] unplaced fresh b digest None by (simp add: order_step_def)
          next
            case (3 o3)
            then have "placed cr src cur \<lparr>pl_lineage = cur, pl_index = 0\<rparr>" using placed.start b digest by blast
            then show ?thesis using start [of o3] 3 unplaced fresh b digest None by (simp add: order_step_def Let_def)
          qed
        qed
      qed
    qed
  qed
qed

lemma walk_ok_step:
  assumes "walk_ok cr src d o' t" and "order_pending t" and "order_step cr src d t = Inr t'"
  shows "walk_ok cr src d o' t'"
proof -
  obtain o2 path seen cur where t: "t = (o2, path, seen, cur, None)" using assms(2) by (auto simp: order_pending_def)
  note I = assms(1) [unfolded t]
  have inv: "order_ok cr src o2" "traced cr src d path cur" "bo_pos o' \<subseteq>\<^sub>m bo_pos o2" "{x. seen x} = set path"
    using I by (simp_all add: walk_ok_def)
  show ?thesis
  proof (cases rule: order_step_cases [OF I])
    case (1 e)
    then show ?thesis using assms(3) t by simp
  next
    case (2 p)
    then show ?thesis using assms(3) t inv order_okD [OF inv(1)] by (auto simp: walk_ok_def)
  next
    case (3 o3 c)
    have "{x. (seen(cur := True)) x} = set (path @ [cur])" using inv(4) by auto
    moreover have "traced cr src d (path @ [cur]) c" using inv(2) 3(3) by (auto simp only: traced_append)
    moreover have "t' = (o3, path @ [cur], seen(cur := True), c, None)" using 3(1) assms(3) t by simp
    ultimately show ?thesis using 3(2) inv by (simp add: walk_ok_def order_ok_def del: fun_upd_apply)
  next
    case (4 o3)
    have "bo_pos o2 \<subseteq>\<^sub>m (bo_pos o2)(cur \<mapsto> \<lparr>pl_lineage = cur, pl_index = 0\<rparr>)" using 4(3) by (simp add: map_le_def dom_def)
    then have "bo_pos o' \<subseteq>\<^sub>m (bo_pos o2)(cur \<mapsto> \<lparr>pl_lineage = cur, pl_index = 0\<rparr>)" using inv(3) map_le_trans by blast
    then show ?thesis using 4 assms(3) t inv by (auto simp: walk_ok_def order_ok_def split: if_splits)
  qed
qed

lemma order_walk_returns: "loopE order_pending (order_step cr src d) (o', [], \<lambda>_. False, d, None) \<noteq> None"
  if "order_ok cr src o'"
proof (rule loopE_returns [where I = "walk_ok cr src d o'" and
      R = "measure (\<lambda>(o', path, seen, cur, base). (if base = None then Suc (card {x. \<not> seen x}) else 0))"])
  show "walk_ok cr src d o' (o', [], \<lambda>_. False, d, None)" using that by (simp add: walk_ok_def)
  fix t t' assume I: "walk_ok cr src d o' t" "order_pending t" "order_step cr src d t = Inr t'"
  obtain o2 path seen cur where t: "t = (o2, path, seen, cur, None)" using I(2) by (auto simp: order_pending_def)
  have "(t', t) \<in> measure (\<lambda>(o', path, seen, cur, base). (if base = None then Suc (card {x. \<not> seen x}) else 0))"
  proof (cases rule: order_step_cases [OF I(1) [unfolded t]])
    case (3 o3 c)
    have "{x. \<not> (seen(cur := True)) x} \<subset> {x. \<not> seen x}" using 3(4) by auto
    then have "card {x. \<not> (seen(cur := True)) x} < card {x. \<not> seen x}" by (intro psubset_card_mono finite)
    then show ?thesis using 3 I(3) t by (auto simp del: fun_upd_apply)
  qed (use I(3) t in auto)
  then show "walk_ok cr src d o' t' \<and> (t', t) \<in> measure (\<lambda>(o', path, seen, cur, base). (if base = None then Suc (card {x. \<not> seen x}) else 0))"
    using walk_ok_step [OF I] by blast
qed simp

text \<open>Placing what was walked.\<close>

lemma place_path_append: "place_path (x # xs) p o' =
    (let o2 = place_path xs p o' in o2\<lparr>bo_pos := (bo_pos o2)(x \<mapsto> \<lparr>pl_lineage = pl_lineage p, pl_index = pl_index p + length xs + 1\<rparr>)\<rparr>)"
proof -
  have snd: "snd (foldl (\<lambda>(o', b) d. let b' = \<lparr>pl_lineage = pl_lineage b, pl_index = pl_index b + 1\<rparr> in
        (o'\<lparr>bo_pos := (bo_pos o')(d \<mapsto> b')\<rparr>, b')) (o', p) ys) = \<lparr>pl_lineage = pl_lineage p, pl_index = pl_index p + length ys\<rparr>" for ys
    by (induction ys rule: rev_induct) (auto simp: Let_def split: prod.splits)
  show ?thesis using snd [of "rev xs"]
    by (cases "foldl (\<lambda>(o', b) d. let b' = \<lparr>pl_lineage = pl_lineage b, pl_index = pl_index b + 1\<rparr> in
        (o'\<lparr>bo_pos := (bo_pos o')(d \<mapsto> b')\<rparr>, b')) (o', p) (rev xs)") (simp add: place_path_def Let_def)
qed

lemma place_path_ok:
  assumes "traced cr src d xs c" and "placed cr src c p" and "bo_pos o' c = Some p" and "order_ok cr src o'"
  shows "order_ok cr src (place_path xs p o') \<and> bo_pos o' \<subseteq>\<^sub>m bo_pos (place_path xs p o') \<and>
    (\<exists>q. bo_pos (place_path xs p o') d = Some q \<and> placed cr src d q)"
  using assms(1)
proof (induction xs arbitrary: d)
  case Nil
  then show ?case using assms by (simp add: place_path_def)
next
  case (Cons x xs)
  then obtain b e where b: "x = d" "traced cr src e xs c" by auto
  let ?q = "\<lparr>pl_lineage = pl_lineage p, pl_index = pl_index p + length xs + 1\<rparr>" and ?o = "place_path xs p o'"
  note IH = Cons.IH [OF b(2)]
  have q: "placed cr src d ?q" using traced_placed [OF Cons.prems] assms(2) by auto
  have "bo_pos ?o \<subseteq>\<^sub>m (bo_pos ?o)(d \<mapsto> ?q)"
    using placed_unique [OF q] order_okD IH by (fastforce simp: map_le_def dom_def)
  then have "bo_pos o' \<subseteq>\<^sub>m (bo_pos ?o)(d \<mapsto> ?q)" using IH map_le_trans by blast
  moreover have "order_ok cr src (?o\<lparr>bo_pos := (bo_pos ?o)(d \<mapsto> ?q)\<rparr>)" using IH q by (simp add: order_ok_def)
  moreover have "place_path (x # xs) p o' = ?o\<lparr>bo_pos := (bo_pos ?o)(d \<mapsto> ?q)\<rparr>" by (simp only: place_path_append Let_def b(1))
  ultimately show ?case using q by (simp del: fun_upd_apply) simp
qed

text \<open>
  \<open>of\<close> always returns: the place of the block when the walk back reaches the start of a lineage,
  an error otherwise. The memo grows by true places only.
\<close>

lemma order_of_result:
  assumes "order_ok cr src o'"
  obtains (placed) o2 p where "order_of cr src d o' = Some (Inr (o2, p))" "placed cr src d p" "order_ok cr src o2"
      "bo_pos o' \<subseteq>\<^sub>m bo_pos o2" "bo_pos o2 d = Some p"
    | (failed) e where "order_of cr src d o' = Some (Inl e)" "\<And>p. \<not> placed cr src d p"
proof (cases "bo_pos o' d")
  case (Some p)
  then show ?thesis using placed [of o' p] assms order_okD by (simp add: order_of_def)
next
  case None
  let ?f = "loopE order_pending (order_step cr src d) (o', [], \<lambda>_. False, d, None)"
  have I0: "walk_ok cr src d o' (o', [], \<lambda>_. False, d, None)" using assms by (simp add: walk_ok_def)
  obtain r where r: "?f = Some r" using order_walk_returns [OF assms] by blast
  have rule: "case r of Inr t \<Rightarrow> walk_ok cr src d o' t \<and> \<not> order_pending t
      | Inl e \<Rightarrow> \<exists>t. walk_ok cr src d o' t \<and> order_pending t \<and> order_step cr src d t = Inl e"
    by (rule loopE_rule [where I = "walk_ok cr src d o'", OF r I0]) (rule walk_ok_step)
  show ?thesis
  proof (cases r)
    case (Inl e)
    with rule obtain o2 path seen cur where t: "walk_ok cr src d o' (o2, path, seen, cur, None)" "order_step cr src d (o2, path, seen, cur, None) = Inl e"
      by (auto simp: order_pending_def)
    have "\<not> placed cr src cur p" for p by (cases rule: order_step_cases [OF t(1)]) (use t(2) in auto)
    then have "\<not> placed cr src d p" for p using t(1) traced_placed [of cr src d path cur] by (auto simp: walk_ok_def)
    then show ?thesis using failed [of e] None r Inl by (simp add: order_of_def)
  next
    case (Inr t)
    with rule obtain o2 path seen cur p where t: "t = (o2, path, seen, cur, Some p)" "walk_ok cr src d o' (o2, path, seen, cur, Some p)"
      by (cases t; cases "snd (snd (snd (snd t)))") (auto simp: order_pending_def)
    then have w: "order_ok cr src o2" "traced cr src d path cur" "bo_pos o' \<subseteq>\<^sub>m bo_pos o2" "placed cr src cur p" "bo_pos o2 cur = Some p"
      by (simp_all add: walk_ok_def)
    note P = place_path_ok [OF w(2,4,5,1)]
    then obtain q where q: "bo_pos (place_path path p o2) d = Some q" "placed cr src d q" by blast
    have "order_of cr src d o' = Some (Inr (place_path path p o2, q))" using None r Inr t(1) q(1) by (simp add: order_of_def Let_def)
    then show ?thesis using placed q P w(3) map_le_trans by blast
  qed
qed

section \<open>Chains and their order\<close>

text \<open>From a block of a chain the walk leads back to the genesis block.\<close>

lemma chain_traced:
  assumes "held_chain cr src tip bs" and "i < length bs"
  shows "\<exists>xs. traced cr src (block_digest cr (bs ! i)) xs (block_digest cr (hd bs)) \<and> length xs = i"
  using assms(2)
proof (induction i)
  case 0
  then show ?case using assms(1) by (intro exI [of _ "[]"]) (simp add: hd_conv_nth held_chain_def)
next
  case (Suc i)
  then obtain xs where xs: "traced cr src (block_digest cr (bs ! i)) xs (block_digest cr (hd bs))" "length xs = i" by auto
  have "src_block src (block_digest cr (bs ! Suc i)) = Inr (bs ! Suc i)" using assms(1) Suc.prems by (simp add: held_chain_def)
  moreover have "block_prev (bs ! Suc i) = Some (block_digest cr (bs ! i))"
    using assms(1) Suc.prems linked_nth [of cr None bs "Suc i"] by (simp add: held_chain_def)
  ultimately show ?case using xs
    by (intro exI [of _ "block_digest cr (bs ! Suc i) # xs"]) (simp add: step_back_def)
qed

lemma chain_placed:
  assumes "held_chain cr src tip bs" and "i < length bs"
  shows "step_back cr src (hd bs) = Inr None \<Longrightarrow> placed cr src (block_digest cr (bs ! i)) \<lparr>pl_lineage = block_digest cr (hd bs), pl_index = i\<rparr>"
    and "step_back cr src (hd bs) = Inr (Some r) \<Longrightarrow> placed cr src r p \<Longrightarrow>
      placed cr src (block_digest cr (bs ! i)) \<lparr>pl_lineage = pl_lineage p, pl_index = pl_index p + 1 + i\<rparr>"
proof -
  obtain xs where xs: "traced cr src (block_digest cr (bs ! i)) xs (block_digest cr (hd bs))" "length xs = i"
    using chain_traced [OF assms] by blast
  have g: "src_block src (block_digest cr (hd bs)) = Inr (hd bs)" using assms(1) by (simp add: held_chain_def)
  note t = traced_placed [OF xs(1)]
  show "placed cr src (block_digest cr (bs ! i)) \<lparr>pl_lineage = block_digest cr (hd bs), pl_index = i\<rparr>"
    if "step_back cr src (hd bs) = Inr None"
    unfolding t using placed.start [OF g refl that] xs(2)
    by (intro exI [of _ "\<lparr>pl_lineage = block_digest cr (hd bs), pl_index = 0\<rparr>"]) simp
  show "placed cr src (block_digest cr (bs ! i)) \<lparr>pl_lineage = pl_lineage p, pl_index = pl_index p + 1 + i\<rparr>"
    if "step_back cr src (hd bs) = Inr (Some r)" "placed cr src r p"
    unfolding t using placed.after [OF g refl that] xs(2)
    by (intro exI [of _ "\<lparr>pl_lineage = pl_lineage p, pl_index = pl_index p + 1\<rparr>"]) simp
qed

text \<open>When a genesis block continues a chain: the rotation behind it is unique and not contested.\<close>

definition appoints :: "source \<Rightarrow> digest \<Rightarrow> block \<Rightarrow> bool" where
  "appoints src d g \<longleftrightarrow> (\<exists>b k. src_block src d = Inr b \<and> block_rotate_key b = Some k \<and> digest_bytes k = block_pub g)"

lemma rotation_claims_filter:
  "(\<forall>d \<in> set ds. \<forall>e. src_block src d = Inl e \<longrightarrow> is_not_found e) \<Longrightarrow>
    rotation_claims cr src g ds = Inr (filter (\<lambda>d. appoints src d g) ds)"
  by (induction ds) (auto simp: appoints_def split: sum.split option.split)

lemma continues:
  assumes "\<forall>d \<in> set (block_refs g). \<forall>e. src_block src d = Inl e \<longrightarrow> is_not_found e"
  shows "rotation_before cr src g = Inr (Some r) \<longleftrightarrow> c_type (blk_content g) = type_public \<and>
    filter (\<lambda>d. appoints src d g) (block_refs g) = [r] \<and>
    (\<forall>rb ds f. src_block src r = Inr rb \<longrightarrow> successors cr rb src \<noteq> Inr (ds, Some f))"
proof (cases "filter (\<lambda>d. appoints src d g) (block_refs g)")
  case Nil
  then show ?thesis using rotation_claims_filter [OF assms] by (simp add: rotation_before_def)
next
  case (Cons x xs)
  note cs = this
  show ?thesis
  proof (cases xs)
    case Nil
    have "x \<in> set (filter (\<lambda>d. appoints src d g) (block_refs g))" using cs by simp
    then obtain rb where "src_block src x = Inr rb" by (auto simp: appoints_def)
    then show ?thesis using rotation_claims_filter [OF assms] cs Nil
      by (auto simp: rotation_before_def split: sum.splits option.splits prod.splits)
  next
    case (Cons y ys)
    then show ?thesis using rotation_claims_filter [OF assms] cs by (simp add: rotation_before_def)
  qed
qed

text \<open>
  C14. Block order. Over any source \<open>of\<close> returns: with the place of the block when the walk back
  ends, and with an error exactly when it does not. In a chain the source holds, block \<open>i\<close> has
  index \<open>i\<close> in the lineage of the chain's genesis block when that one succeeds nothing; when it
  succeeds a rotation block, whose place is \<open>p\<close>, the count goes on from there in the lineage of \<open>p\<close>.
  The memo only grows, and holds places only.
\<close>

theorem order_of_correct:
  assumes "order_ok cr src o'"
  shows "(\<exists>r. order_of cr src d o' = Some r \<and>
      (case r of Inl e \<Rightarrow> (\<forall>p. \<not> placed cr src d p)
       | Inr (o2, p) \<Rightarrow> placed cr src d p \<and> order_ok cr src o2 \<and> bo_pos o' \<subseteq>\<^sub>m bo_pos o2 \<and> bo_pos o2 d = Some p)) \<and>
    (\<forall>tip bs i. held_chain cr src tip bs \<longrightarrow> i < length bs \<longrightarrow>
      (step_back cr src (hd bs) = Inr None \<longrightarrow>
        (\<exists>o2. order_of cr src (block_digest cr (bs ! i)) o' = Some (Inr (o2, \<lparr>pl_lineage = block_digest cr (hd bs), pl_index = i\<rparr>)))) \<and>
      (\<forall>rotation p. step_back cr src (hd bs) = Inr (Some rotation) \<longrightarrow> placed cr src rotation p \<longrightarrow>
        (\<exists>o2. order_of cr src (block_digest cr (bs ! i)) o' = Some (Inr (o2, \<lparr>pl_lineage = pl_lineage p, pl_index = pl_index p + 1 + i\<rparr>)))))"
proof (intro conjI allI impI)
  show "\<exists>r. order_of cr src d o' = Some r \<and>
    (case r of Inl e \<Rightarrow> (\<forall>p. \<not> placed cr src d p)
     | Inr (o2, p) \<Rightarrow> placed cr src d p \<and> order_ok cr src o2 \<and> bo_pos o' \<subseteq>\<^sub>m bo_pos o2 \<and> bo_pos o2 d = Some p)"
    by (rule order_of_result [OF assms, of d]) auto
  have at: "\<exists>o2. order_of cr src x o' = Some (Inr (o2, q))" if "placed cr src x q" for x q
    by (rule order_of_result [OF assms, of x]) (use placed_unique [OF that] that in auto)
  fix tip bs i assume h: "held_chain cr src tip bs" "i < length bs"
  show "\<exists>o2. order_of cr src (block_digest cr (bs ! i)) o' = Some (Inr (o2, \<lparr>pl_lineage = block_digest cr (hd bs), pl_index = i\<rparr>))"
    if "step_back cr src (hd bs) = Inr None"
    by (rule at, rule chain_placed(1) [OF h that])
  show "\<exists>o2. order_of cr src (block_digest cr (bs ! i)) o' = Some (Inr (o2, \<lparr>pl_lineage = pl_lineage p, pl_index = pl_index p + 1 + i\<rparr>))"
    if "step_back cr src (hd bs) = Inr (Some rotation)" "placed cr src rotation p" for rotation p
    by (rule at, rule chain_placed(2) [OF h that])
qed

lemma filter_single: "distinct xs \<Longrightarrow> x \<in> set xs \<Longrightarrow> (\<And>y. y \<in> set xs \<Longrightarrow> P y \<longleftrightarrow> y = x) \<Longrightarrow> filter P xs = [x]"
proof -
  assume d: "distinct xs" "x \<in> set xs" and P: "\<And>y. y \<in> set xs \<Longrightarrow> P y \<longleftrightarrow> y = x"
  have "filter P xs = filter (\<lambda>y. y = x) xs" using P by (intro filter_cong) auto
  also have "\<dots> = [x]" using d by (induction xs) (auto simp: filter_empty_conv)
  finally show ?thesis .
qed

lemma succession_steps:
  assumes "succession_blocks cr g r h"
  shows "step_back cr (accepting_source (succession_map g r h)) g = Inr None"
    and "step_back cr (accepting_source (succession_map g r h)) h = Inr (Some 2)"
proof -
  let ?src = "accepting_source (succession_map g r h)"
  note f = assms [unfolded succession_blocks_def]
  obtain k where k: "block_rotate_key r = Some k" "block_pub h = digest_bytes k" using f by blast
  have rk: "block_rotate_key g = None" "block_rotate_key h = None" using f type_names by (simp_all add: block_rotate_key_def)
  have held: "src_block ?src d = Inr b \<longleftrightarrow> (d = 1 \<and> b = g) \<or> (d = 2 \<and> b = r) \<or> (d = 3 \<and> b = h)" for d b
    by (auto simp: succession_map_def map_source_def split: option.splits)
  have ap: "appoints ?src d x \<longleftrightarrow> d = 2 \<and> block_pub x = block_pub h" for d x
    using k rk unfolding appoints_def held by auto
  have gaps: "\<forall>d \<in> D. \<forall>e. src_block ?src d = Inl e \<longrightarrow> is_not_found e" for D
    by (auto simp: map_source_def split: option.splits)
  have "filter (\<lambda>d. appoints ?src d g) (block_refs g) = []" using ap f by (auto simp: filter_empty_conv)
  then show "step_back cr ?src g = Inr None"
    using f rotation_claims_filter [OF gaps, of cr g] by (simp add: step_back_def rotation_before_def)
  have "filter (\<lambda>d. appoints ?src d h) (block_refs h) = [2]"
    by (rule filter_single) (use f ap sound_refs_distinct in auto)
  moreover have "successors cr rb ?src \<noteq> Inr x" for rb x by (cases "block_rotate_key rb") (simp_all add: successors_def)
  ultimately have "rotation_before cr ?src h = Inr (Some 2)" using f unfolding continues [OF gaps] by blast
  then show "step_back cr ?src h = Inr (Some 2)" using f by (simp add: step_back_def)
qed

theorem order_of_correct_witness:
  "\<exists>cr src g r h. succession_blocks cr g r h \<and>
    (\<exists>o2. order_of cr src 2 new_block_order = Some (Inr (o2, \<lparr>pl_lineage = 1, pl_index = 1\<rparr>))) \<and>
    (\<exists>o2. order_of cr src 3 new_block_order = Some (Inr (o2, \<lparr>pl_lineage = 1, pl_index = 2\<rparr>)))"
proof -
  obtain cr g r h where s: "succession_blocks cr g r h" using succession_exists by blast
  note f = s [unfolded succession_blocks_def]
  let ?src = "accepting_source (succession_map g r h)"
  have a: "step_back cr ?src (hd [g, r]) = Inr None" using succession_steps(1) [OF s] by simp
  have b: "step_back cr ?src (hd [h]) = Inr (Some 2)" using succession_steps(2) [OF s] by simp
  have p: "placed cr ?src 2 \<lparr>pl_lineage = 1, pl_index = 1\<rparr>"
    using chain_placed(1) [OF succession_held(1) [OF s], of 1] a f by auto
  note chain = order_of_correct [OF new_block_order_ok, of cr ?src 2, THEN conjunct2, rule_format]
  have "\<exists>o2. order_of cr ?src (block_digest cr ([g, r] ! 1)) new_block_order = Some (Inr (o2, \<lparr>pl_lineage = block_digest cr (hd [g, r]), pl_index = 1\<rparr>))"
    by (rule chain [OF succession_held(1) [OF s], THEN conjunct1, rule_format, OF _ a]) simp
  moreover have "\<exists>o2. order_of cr ?src (block_digest cr ([h] ! 0)) new_block_order = Some (Inr (o2, \<lparr>pl_lineage = pl_lineage \<lparr>pl_lineage = 1, pl_index = 1\<rparr>,
      pl_index = pl_index \<lparr>pl_lineage = 1, pl_index = 1\<rparr> + 1 + 0\<rparr>))"
    by (rule chain [OF succession_held(2) [OF s], THEN conjunct2, rule_format, OF _ b p]) simp
  ultimately show ?thesis using s f by (intro exI [of _ cr] exI [of _ "?src"] exI [of _ g] exI [of _ r] exI [of _ h]) auto
qed

section \<open>Placing the blocks of a view\<close>

text \<open>The blocks that published an entity of the view, once each, in digest order.\<close>

definition view_tags :: "view \<Rightarrow> tag list" where
  "view_tags v = concat (map (\<lambda>d. case vw_entries v d of None \<Rightarrow> [] | Some e \<Rightarrow> ge_authors e) (vw_order v))"

definition once :: "tag list \<Rightarrow> tag \<Rightarrow> tag list" where
  "once ts t = (if snd t \<in> snd ` set ts then ts else ts @ [t])"

definition published :: "view \<Rightarrow> tag list" where
  "published v = sort_key snd (foldl once [] (view_tags v))"

type_synonym placing = "block_order \<times> (digest \<Rightarrow> chain_position option) \<times> (digest \<Rightarrow> nat)"

fun place_each :: "crypto \<Rightarrow> source \<Rightarrow> tag list \<Rightarrow> placing \<Rightarrow> (accept_error + placing) option" where
  "place_each cr src [] s = Some (Inr s)"
| "place_each cr src ((author, b) # ts) (o', at, far) =
    bindD (mapErrD (Placing_block b) (order_of cr src b o')) (\<lambda>(o2, p).
      place_each cr src ts
        (o2, at(b \<mapsto> \<lparr>cp_author = author, cp_lineage = pl_lineage p, cp_height = pl_index p, cp_length = 0\<rparr>),
         if far (pl_lineage p) < pl_index p + 1 then far(pl_lineage p := pl_index p + 1) else far))"

definition set_length :: "(digest \<Rightarrow> nat) \<Rightarrow> (digest \<Rightarrow> chain_position option) \<Rightarrow> tag \<Rightarrow> digest \<Rightarrow> chain_position option" where
  "set_length far at t = at(snd t := map_option (\<lambda>p. p\<lparr>cp_length := far (cp_lineage p)\<rparr>) (at (snd t)))"

definition place_blocks :: "crypto \<Rightarrow> source \<Rightarrow> view \<Rightarrow> block_order \<Rightarrow> (accept_error + block_order \<times> view) option" where
  "place_blocks cr src v o' =
    bindD (place_each cr src (published v) (o', \<lambda>_. None, \<lambda>_. 0)) (\<lambda>(o2, at, far).
      Some (Inr (o2, v\<lparr>vw_positions := foldl (set_length far) at (published v)\<rparr>)))"

text \<open>\<open>View.BlockPosition\<close>.\<close>

definition block_position :: "view \<Rightarrow> digest \<Rightarrow> chain_position option" where
  "block_position v d = vw_positions v d"

text \<open>A block without a position has the zero position.\<close>

definition position_at :: "view \<Rightarrow> digest \<Rightarrow> chain_position" where
  "position_at v d = (case vw_positions v d of Some p \<Rightarrow> p
     | None \<Rightarrow> \<lparr>cp_author = 0, cp_lineage = 0, cp_height = 0, cp_length = 0\<rparr>)"

section \<open>The positions of a view\<close>

lemma once_step: "snd ` set (once ts t) = insert (snd t) (snd ` set ts)" "set (once ts t) \<subseteq> insert t (set ts)"
  "distinct (map snd ts) \<Longrightarrow> distinct (map snd (once ts t))"
  by (auto simp: once_def)

lemma once_each:
  "snd ` set (foldl once us ts) = snd ` (set us \<union> set ts)"
  "distinct (map snd us) \<Longrightarrow> distinct (map snd (foldl once us ts))"
  "set (foldl once us ts) \<subseteq> set us \<union> set ts"
proof (induction ts arbitrary: us)
  case (Cons t ts)
  { case 1 show ?case using Cons.IH(1) [of "once us t"] by (simp add: once_step(1) image_Un) next
    case 2 then show ?case using Cons.IH(2) once_step(3) by simp next
    case 3 show ?case using Cons.IH(3) [of "once us t"] once_step(2) [of us t] by auto }
qed simp_all

lemma published_props:
  "snd ` set (published v) = snd ` set (view_tags v)" "distinct (map snd (published v))" "set (published v) \<subseteq> set (view_tags v)"
proof -
  let ?l = "foldl once [] (view_tags v)"
  note o1 = once_each [of "[]" "view_tags v"]
  show "snd ` set (published v) = snd ` set (view_tags v)" using o1(1) by (simp add: published_def)
  have "distinct ?l \<and> inj_on snd (set ?l)" using o1(2) by (simp add: distinct_map)
  then show "distinct (map snd (published v))" by (simp add: published_def distinct_map)
  show "set (published v) \<subseteq> set (view_tags v)" using o1(3) by (simp add: published_def)
qed

lemma tags_sorted: "sorted (map snd (published v))"
  by (simp add: published_def)

lemma max_insert: "finite A \<Longrightarrow> Max (insert (max a b) A) = Max (insert a (insert b A))" for a b :: nat
  by (cases "A = {}") (simp_all add: max.assoc)

text \<open>One step of the loop, whatever comes after.\<close>

lemma place_each_result:
  assumes "order_ok cr src o'" and "distinct (map snd ts)"
  obtains (placed) o2 at' far' where "place_each cr src ts (o', at, far) = Some (Inr (o2, at', far'))"
      "order_ok cr src o2" "bo_pos o' \<subseteq>\<^sub>m bo_pos o2"
      "\<forall>t \<in> set ts. \<exists>p. placed cr src (snd t) p \<and> bo_pos o2 (snd t) = Some p \<and>
        at' (snd t) = Some \<lparr>cp_author = fst t, cp_lineage = pl_lineage p, cp_height = pl_index p, cp_length = 0\<rparr>"
      "\<forall>d. d \<notin> snd ` set ts \<longrightarrow> at' d = at d"
      "\<forall>l. far' l = Max (insert (far l) {Suc (pl_index p) | p. pl_lineage p = l \<and> (\<exists>t \<in> set ts. placed cr src (snd t) p)})"
    | (failed) e b where "place_each cr src ts (o', at, far) = Some (Inl (Placing_block b e))" "b \<in> snd ` set ts" "\<And>p. \<not> placed cr src b p"
  using assms
proof (induction ts arbitrary: o' at far thesis)
  case Nil
  show ?case by (rule Nil(1) [of o' at far]) (use Nil in auto)
next
  case (Cons t ts)
  obtain a b where t: "t = (a, b)" by (cases t)
  show ?case
  proof (cases rule: order_of_result [OF Cons.prems(3), of b])
    case (2 e)
    show ?thesis by (rule Cons.prems(2) [of b e]) (use 2 in \<open>auto simp: t\<close>)
  next
    case (1 o2 p)
    let ?q = "\<lparr>cp_author = a, cp_lineage = pl_lineage p, cp_height = pl_index p, cp_length = 0\<rparr>"
    let ?far = "if far (pl_lineage p) < pl_index p + 1 then far(pl_lineage p := pl_index p + 1) else far"
    have step: "place_each cr src (t # ts) (o', at, far) = place_each cr src ts (o2, at(b \<mapsto> ?q), ?far)" using 1(1) by (simp add: t)
    have ds: "distinct (map snd ts)" "b \<notin> snd ` set ts" using Cons.prems(4) t by auto
    show ?thesis
    proof (rule Cons.IH [OF _ _ 1(3) ds(1), of "at(b \<mapsto> ?q)" ?far])
      fix o3 at' far'
      assume h: "place_each cr src ts (o2, at(b \<mapsto> ?q), ?far) = Some (Inr (o3, at', far'))"
        "order_ok cr src o3" "bo_pos o2 \<subseteq>\<^sub>m bo_pos o3"
        "\<forall>t \<in> set ts. \<exists>p. placed cr src (snd t) p \<and> bo_pos o3 (snd t) = Some p \<and>
          at' (snd t) = Some \<lparr>cp_author = fst t, cp_lineage = pl_lineage p, cp_height = pl_index p, cp_length = 0\<rparr>"
        "\<forall>d. d \<notin> snd ` set ts \<longrightarrow> at' d = (at(b \<mapsto> ?q)) d"
        "\<forall>l. far' l = Max (insert (?far l) {Suc (pl_index p) | p. pl_lineage p = l \<and> (\<exists>t \<in> set ts. placed cr src (snd t) p)})"
      let ?S = "\<lambda>ts l. {Suc (pl_index p) | p. pl_lineage p = l \<and> (\<exists>t \<in> set ts. placed cr src (snd t) p)}"
      have ins: "?S (t # ts) l = (if l = pl_lineage p then insert (Suc (pl_index p)) (?S ts l) else ?S ts l)" for l
      proof -
        have "placed cr src b q \<longleftrightarrow> q = p" for q using 1(2) placed_unique by blast
        then show ?thesis by (auto simp: t)
      qed
      have fin: "finite (?S ts l)" for l
      proof -
        have "?S ts l \<subseteq> (\<lambda>t. Suc (pl_index (the (bo_pos o3 (snd t))))) ` set ts"
        proof
          fix n assume "n \<in> ?S ts l"
          then obtain q t where t: "n = Suc (pl_index q)" "t \<in> set ts" "placed cr src (snd t) q" by blast
          with h(4) obtain p where "placed cr src (snd t) p" "bo_pos o3 (snd t) = Some p" by blast
          then have "bo_pos o3 (snd t) = Some q" using placed_unique t(3) by blast
          then show "n \<in> (\<lambda>t. Suc (pl_index (the (bo_pos o3 (snd t))))) ` set ts" using t by force
        qed
        then show ?thesis using finite_surj [OF finite_set] by blast
      qed
      have mx: "Max (insert (?far l) (?S ts l)) = Max (insert (far l) (?S (t # ts) l))" for l
      proof (cases "l = pl_lineage p")
        case True
        have "?far l = max (far l) (Suc (pl_index p))" by (simp add: True)
        then show ?thesis unfolding ins using max_insert [OF fin [of l]] True by simp
      next
        case False
        then show ?thesis unfolding ins by simp
      qed
      show ?thesis
      proof (rule Cons.prems(1) [of o3 at' far'])
        show "place_each cr src (t # ts) (o', at, far) = Some (Inr (o3, at', far'))" using step h(1) by simp
        show "order_ok cr src o3" by (rule h(2))
        show "bo_pos o' \<subseteq>\<^sub>m bo_pos o3" using 1(4) h(3) map_le_trans by blast
        have "bo_pos o3 b = Some p" using 1(5) h(3) by (metis domI map_le_def)
        moreover have "at' b = Some ?q" using h(5) ds(2) by simp
        ultimately show "\<forall>t \<in> set (t # ts). \<exists>p. placed cr src (snd t) p \<and> bo_pos o3 (snd t) = Some p \<and>
            at' (snd t) = Some \<lparr>cp_author = fst t, cp_lineage = pl_lineage p, cp_height = pl_index p, cp_length = 0\<rparr>"
          using h(4) 1(2) by (simp add: t)
        show "\<forall>d. d \<notin> snd ` set (t # ts) \<longrightarrow> at' d = at d" using h(5) by (simp add: t)
        show "\<forall>l. far' l = Max (insert (far l) (?S (t # ts) l))" using h(6) mx by simp
      qed
    next
      fix e c assume h: "place_each cr src ts (o2, at(b \<mapsto> ?q), ?far) = Some (Inl (Placing_block c e))" "c \<in> snd ` set ts"
        "\<And>p. \<not> placed cr src c p"
      show ?thesis by (rule Cons.prems(2) [of c e]) (use h step in auto)
    qed
  qed
qed

text \<open>The length of a lineage as the view sees it.\<close>

definition seen_length :: "crypto \<Rightarrow> source \<Rightarrow> view \<Rightarrow> digest \<Rightarrow> nat" where
  "seen_length cr src v l = Max (insert 0 {Suc (pl_index p) | p. pl_lineage p = l \<and> (\<exists>t \<in> set (published v). placed cr src (snd t) p)})"

definition positions_ok :: "crypto \<Rightarrow> source \<Rightarrow> view \<Rightarrow> (digest \<Rightarrow> chain_position option) \<Rightarrow> bool" where
  "positions_ok cr src v at \<longleftrightarrow>
    (\<forall>t \<in> set (published v). \<exists>p. placed cr src (snd t) p \<and> at (snd t) = Some \<lparr>cp_author = fst t, cp_lineage = pl_lineage p,
      cp_height = pl_index p, cp_length = seen_length cr src v (pl_lineage p)\<rparr>) \<and>
    (\<forall>d. d \<notin> snd ` set (published v) \<longrightarrow> at d = None)"

lemma set_lengths:
  "distinct (map snd ts) \<Longrightarrow> foldl (set_length far) at ts d =
    (if d \<in> snd ` set ts then map_option (\<lambda>p. p\<lparr>cp_length := far (cp_lineage p)\<rparr>) (at d) else at d)"
  by (induction ts arbitrary: at) (auto simp: set_length_def)

text \<open>Every block the view's entities came from is in the memo, so that later questions are answered by it.\<close>

definition all_placed :: "view \<Rightarrow> block_order \<Rightarrow> bool" where
  "all_placed v o' \<longleftrightarrow> (\<forall>t \<in> set (view_tags v). bo_pos o' (snd t) \<noteq> None)"

lemma place_blocks_result:
  assumes "order_ok cr src o'"
  obtains (placed) o2 at where "place_blocks cr src v o' = Some (Inr (o2, v\<lparr>vw_positions := at\<rparr>))"
      "order_ok cr src o2" "all_placed v o2" "positions_ok cr src v at"
    | (failed) e b where "place_blocks cr src v o' = Some (Inl (Placing_block b e))" "b \<in> snd ` set (view_tags v)" "\<And>p. \<not> placed cr src b p"
proof -
  note pp = published_props [of v]
  show thesis
  proof (rule place_each_result [OF assms pp(2), of "\<lambda>_. None" "\<lambda>_. 0"])
    fix o2 at far
    assume h: "place_each cr src (published v) (o', \<lambda>_. None, \<lambda>_. 0) = Some (Inr (o2, at, far))" "order_ok cr src o2"
      "\<forall>t \<in> set (published v). \<exists>p. placed cr src (snd t) p \<and> bo_pos o2 (snd t) = Some p \<and>
        at (snd t) = Some \<lparr>cp_author = fst t, cp_lineage = pl_lineage p, cp_height = pl_index p, cp_length = 0\<rparr>"
      "\<forall>d. d \<notin> snd ` set (published v) \<longrightarrow> at d = None"
      "\<forall>l. far l = Max (insert 0 {Suc (pl_index p) | p. pl_lineage p = l \<and> (\<exists>t \<in> set (published v). placed cr src (snd t) p)})"
    let ?at = "foldl (set_length far) at (published v)"
    have far: "far l = seen_length cr src v l" for l using h(5) by (simp add: seen_length_def)
    have "snd ` set (view_tags v) \<subseteq> dom (bo_pos o2)" unfolding pp(1) [symmetric] using h(3) by fastforce
    then have "all_placed v o2" by (fastforce simp: all_placed_def)
    moreover have "positions_ok cr src v ?at"
      unfolding positions_ok_def
    proof (intro conjI ballI allI impI)
      fix t assume t: "t \<in> set (published v)"
      with h(3) obtain p where p: "placed cr src (snd t) p"
        "at (snd t) = Some \<lparr>cp_author = fst t, cp_lineage = pl_lineage p, cp_height = pl_index p, cp_length = 0\<rparr>" by blast
      then show "\<exists>p. placed cr src (snd t) p \<and> ?at (snd t) = Some \<lparr>cp_author = fst t, cp_lineage = pl_lineage p,
          cp_height = pl_index p, cp_length = seen_length cr src v (pl_lineage p)\<rparr>"
        using t by (intro exI [of _ p]) (simp add: set_lengths [OF pp(2)] far)
    next
      fix d assume "d \<notin> snd ` set (published v)"
      then show "?at d = None" using h(4) by (simp add: set_lengths [OF pp(2)])
    qed
    moreover have "place_blocks cr src v o' = Some (Inr (o2, v\<lparr>vw_positions := ?at\<rparr>))" using h(1) by (simp add: place_blocks_def)
    ultimately show thesis using placed h(2) by blast
  next
    fix e b assume "place_each cr src (published v) (o', \<lambda>_. None, \<lambda>_. 0) = Some (Inl (Placing_block b e))"
      "b \<in> snd ` set (published v)" "\<And>p. \<not> placed cr src b p"
    then show thesis using failed pp(1) by (simp add: place_blocks_def)
  qed
qed

text \<open>With the memo full, a question about one of those blocks leaves it as it is.\<close>

lemma order_of_memo: "bo_pos o' d = Some p \<Longrightarrow> order_of cr src d o' = Some (Inr (o', p))"
  by (simp add: order_of_def)

definition in_memo :: "block_order \<Rightarrow> tag list \<Rightarrow> bool" where
  "in_memo o' ts \<longleftrightarrow> (\<forall>t \<in> set ts. bo_pos o' (snd t) \<noteq> None)"

lemma in_memo_simps [simp]: "in_memo o' []" "in_memo o' (t # ts) \<longleftrightarrow> bo_pos o' (snd t) \<noteq> None \<and> in_memo o' ts"
  by (simp_all add: in_memo_def)

text \<open>Two blocks of one author, placed and memoized, for concrete inputs.\<close>

lemma sample_places:
  obtains cr src o' where "order_ok cr src o'" and "bo_pos o' 1 \<noteq> None" and "bo_pos o' 2 \<noteq> None"
    and "\<And>q. placed cr src 1 q \<longleftrightarrow> q = \<lparr>pl_lineage = 1, pl_index = 0\<rparr>"
    and "\<And>q. placed cr src 2 q \<longleftrightarrow> q = \<lparr>pl_lineage = 1, pl_index = 1\<rparr>"
proof -
  obtain cr g r h where s: "succession_blocks cr g r h" using succession_exists by blast
  let ?src = "accepting_source (succession_map g r h)"
  have h: "hd [g, r] = g" "block_digest cr g = 1" "block_digest cr r = 2" using s by (simp_all add: succession_blocks_def)
  have p: "placed cr ?src 1 \<lparr>pl_lineage = 1, pl_index = 0\<rparr>" "placed cr ?src 2 \<lparr>pl_lineage = 1, pl_index = 1\<rparr>"
    using chain_placed(1) [OF succession_held(1) [OF s], of 0] chain_placed(1) [OF succession_held(1) [OF s], of 1]
      succession_steps(1) [OF s] h by simp_all
  have at: "placed cr ?src 1 q \<longleftrightarrow> q = \<lparr>pl_lineage = 1, pl_index = 0\<rparr>" "placed cr ?src 2 q \<longleftrightarrow> q = \<lparr>pl_lineage = 1, pl_index = 1\<rparr>" for q
    using p placed_unique by blast+
  let ?o = "new_block_order\<lparr>bo_pos := [1 \<mapsto> \<lparr>pl_lineage = 1, pl_index = 0\<rparr>, 2 \<mapsto> \<lparr>pl_lineage = 1, pl_index = 1\<rparr>]\<rparr>"
  have "order_ok cr ?src ?o" using p by (auto simp: order_ok_def split: if_splits)
  then show thesis by (rule that [OF _ _ _ at]) simp_all
qed

end
