(* ===== verification/Runs.thy ===== *)
theory Runs
  imports Main "HOL-Library.Product_Lexorder"
begin

text \<open>
  Grouping a sorted list: the loops of \<open>go/accept\<close> that advance \<open>end\<close> while a key stays the same.
\<close>

fun run_from :: "('a \<Rightarrow> 'k) \<Rightarrow> 'k \<Rightarrow> 'a list \<Rightarrow> 'a list \<Rightarrow> 'a list list" where
  "run_from f k g [] = [g]"
| "run_from f k g (x # xs) = (if f x = k then run_from f k (g @ [x]) xs else g # run_from f (f x) [x] xs)"

definition runs :: "('a \<Rightarrow> 'k) \<Rightarrow> 'a list \<Rightarrow> 'a list list" where
  "runs f xs = (case xs of [] \<Rightarrow> [] | x # ys \<Rightarrow> run_from f (f x) [x] ys)"

lemma run_from_concat: "concat (run_from f k g xs) = g @ xs"
  by (induction xs arbitrary: k g) auto

lemma runs_concat [simp]: "concat (runs f xs) = xs"
  by (simp add: runs_def run_from_concat split: list.split)

lemma runs_Nil [simp]: "runs f [] = []"
  by (simp add: runs_def)

text \<open>In a list sorted by the key, the runs are the groups of the keys, in order.\<close>

lemma run_from_groups:
  fixes f :: "'a \<Rightarrow> 'k::linorder"
  assumes "\<forall>y \<in> set g. f y = k" and "g \<noteq> []" and "sorted (map f xs)" and "\<forall>x \<in> set xs. k \<le> f x"
  shows "set (run_from f k g xs) = (\<lambda>j. filter (\<lambda>y. f y = j) (g @ xs)) ` f ` set (g @ xs)"
    and "sorted_wrt (\<lambda>a b. f (hd a) < f (hd b)) (run_from f k g xs)"
    and "\<forall>r \<in> set (run_from f k g xs). k \<le> f (hd r)"
  using assms
proof (induction xs arbitrary: k g)
  case Nil
  { case 1 then have "filter (\<lambda>y. f y = k) g = g" "f ` set g = {k}" by (simp add: filter_id_conv, use 1 in \<open>cases g; force\<close>) then show ?case by simp next
    case 2 then show ?case by simp next
    case 3 then show ?case by (cases g) auto }
next
  case (Cons x xs)
  { case 1
    show ?case
    proof (cases "f x = k")
      case True
      then show ?thesis using Cons.IH(1) [of "g @ [x]" k] 1 by auto
    next
      case False
      then have lt: "\<forall>y \<in> set (x # xs). k < f y" using 1(3,4) by fastforce
      have "set (run_from f (f x) [x] xs) = (\<lambda>j. filter (\<lambda>y. f y = j) ([x] @ xs)) ` f ` set ([x] @ xs)"
        using Cons.IH(1) [of "[x]" "f x"] 1 by simp
      moreover have "(\<lambda>j. filter (\<lambda>y. f y = j) (g @ x # xs)) ` f ` set (x # xs) = (\<lambda>j. filter (\<lambda>y. f y = j) (x # xs)) ` f ` set (x # xs)"
      proof (intro image_cong refl)
        fix j assume "j \<in> f ` set (x # xs)"
        then have "k < j" using lt by auto
        then have "filter (\<lambda>y. f y = j) g = []" using 1(1) by (auto simp: filter_empty_conv)
        then show "filter (\<lambda>y. f y = j) (g @ x # xs) = filter (\<lambda>y. f y = j) (x # xs)" by simp
      qed
      moreover have "filter (\<lambda>y. f y = k) (g @ x # xs) = g"
      proof -
        have "filter (\<lambda>y. f y = k) (x # xs) = []" using lt by (auto simp: filter_empty_conv simp del: filter.simps)
        moreover have "filter (\<lambda>y. f y = k) g = g" using 1(1) by (simp add: filter_id_conv)
        ultimately show ?thesis by (simp only: filter_append append_Nil2)
      qed
      moreover have "f ` set (g @ x # xs) = insert k (f ` set (x # xs))" using 1(1,2) by (cases g) auto
      ultimately show ?thesis using False by (simp only: run_from.simps if_False list.set(2) image_insert append_Cons append_Nil)
    qed
  next
    case 2
    show ?case
    proof (cases "f x = k")
      case True
      then show ?thesis using Cons.IH(2) [of "g @ [x]" k] 2 by auto
    next
      case False
      then have "k < f x" using 2 by fastforce
      have "f (hd g) = k" using 2(1,2) by simp
      moreover have "sorted_wrt (\<lambda>a b. f (hd a) < f (hd b)) (run_from f (f x) [x] xs)" "\<forall>r \<in> set (run_from f (f x) [x] xs). f x \<le> f (hd r)"
        using Cons.IH(2,3) [of "[x]" "f x"] 2 by auto
      ultimately show ?thesis using False \<open>k < f x\<close> by auto
    qed
  next
    case 3
    show ?case
    proof (cases "f x = k")
      case True
      then show ?thesis using Cons.IH(3) [of "g @ [x]" k] 3 by auto
    next
      case False
      have "f (hd g) = k" using 3(1,2) by simp
      moreover have "\<forall>r \<in> set (run_from f (f x) [x] xs). f x \<le> f (hd r)" using Cons.IH(3) [of "[x]" "f x"] 3 by auto
      moreover have "k \<le> f x" using 3 by simp
      ultimately show ?thesis using False order_trans by auto
    qed }
qed

lemma runs_groups:
  fixes f :: "'a \<Rightarrow> 'k::linorder"
  assumes "sorted (map f xs)"
  shows "set (runs f xs) = (\<lambda>j. filter (\<lambda>y. f y = j) xs) ` f ` set xs"
    and "sorted_wrt (\<lambda>a b. f (hd a) < f (hd b)) (runs f xs)"
  using assms run_from_groups [of "[hd xs]" f "f (hd xs)" "tl xs"] by (cases xs; simp add: runs_def)+

lemma runs_exist:
  fixes f :: "'a \<Rightarrow> 'k::linorder"
  assumes "sorted (map f xs)"
  shows "(\<exists>g \<in> set (runs f xs). P g) \<longleftrightarrow> (\<exists>x \<in> set xs. P (filter (\<lambda>y. f y = f x) xs))"
  using runs_groups(1) [OF assms] by auto

text \<open>Sorting by a key and then another sorts by the first, and each group by the second.\<close>

lemma sorted_first:
  fixes f :: "'a \<Rightarrow> 'k::linorder" and g :: "'a \<Rightarrow> 'l::linorder"
  assumes "sorted (map (\<lambda>x. (f x, g x)) xs)"
  shows "sorted (map f xs)" and "sorted (map g (filter (\<lambda>y. f y = k) xs))"
proof -
  have s: "sorted_wrt (\<lambda>x y. f x < f y \<or> f x = f y \<and> g x \<le> g y) xs" using assms by (auto simp: sorted_wrt_map less_eq_prod_def elim!: sorted_wrt_mono_rel [rotated])
  then show "sorted (map f xs)" by (auto simp: sorted_wrt_map elim!: sorted_wrt_mono_rel [rotated])
  have "sorted_wrt (\<lambda>x y. f x < f y \<or> f x = f y \<and> g x \<le> g y) (filter (\<lambda>y. f y = k) xs)" using s by (rule sorted_wrt_filter)
  then show "sorted (map g (filter (\<lambda>y. f y = k) xs))" by (auto simp: sorted_wrt_map elim!: sorted_wrt_mono_rel [rotated])
qed

lemma sorted_last: "sorted (map f xs) \<Longrightarrow> x \<in> set xs \<Longrightarrow> f x \<le> f (last xs)" for f :: "'a \<Rightarrow> 'b::linorder"
  by (induction xs) (auto split: if_splits)

text \<open>The runs of a sorted list, key by key; and a map over the members of every run.\<close>

lemma runs_sorted:
  fixes f :: "'a \<Rightarrow> 'k::linorder"
  assumes "sorted (map f xs)"
  shows "runs f xs = map (\<lambda>k. filter (\<lambda>y. f y = k) xs) (sorted_list_of_set (f ` set xs))"
proof -
  let ?G = "\<lambda>k. filter (\<lambda>y. f y = k) xs"
  note g = runs_groups [OF assms]
  have hd: "f (hd (?G k)) = k" if "k \<in> f ` set xs" for k
  proof -
    from that have "?G k \<noteq> []" by (auto simp: filter_empty_conv)
    then have "hd (?G k) \<in> set (?G k)" by (rule hd_in_set)
    then show ?thesis by simp
  qed
  have "sorted_wrt (<) (map (\<lambda>r. f (hd r)) (runs f xs))" using g(2) by (simp add: sorted_wrt_map)
  moreover have "set (map (\<lambda>r. f (hd r)) (runs f xs)) = f ` set xs" using g(1) hd by (auto simp: image_image)
  ultimately have ks: "map (\<lambda>r. f (hd r)) (runs f xs) = sorted_list_of_set (f ` set xs)"
    by (intro strict_sorted_equal) auto
  have "r = ?G (f (hd r))" if "r \<in> set (runs f xs)" for r
    using that g(1) hd by auto
  then have "runs f xs = map (\<lambda>r. ?G (f (hd r))) (runs f xs)" by (intro map_idI [symmetric]) simp
  also have "\<dots> = map ?G (map (\<lambda>r. f (hd r)) (runs f xs))" by simp
  finally show ?thesis unfolding ks .
qed

lemma runs_map:
  fixes f :: "'a \<Rightarrow> 'k::linorder"
  assumes "sorted (map f xs)"
  shows "concat (map (\<lambda>g. map (h g) g) (runs f xs)) = map (\<lambda>x. h (filter (\<lambda>y. f y = f x) xs) x) xs"
proof -
  have e: "map (h g) g = map (\<lambda>x. h (filter (\<lambda>y. f y = f x) xs) x) g" if "g \<in> set (runs f xs)" for g
    using that runs_groups(1) [OF assms] by (intro map_cong refl) auto
  have "concat (map (\<lambda>g. map (h g) g) (runs f xs)) = concat (map (map (\<lambda>x. h (filter (\<lambda>y. f y = f x) xs) x)) (runs f xs))"
    by (rule arg_cong [where f = concat], rule map_cong [OF refl], rule e)
  then show ?thesis by (simp add: map_concat [symmetric])
qed

end
