(* ===== verification/Standing.thy ===== *)
theory Standing
  imports Block_Order Runs
begin

text \<open>
  Standing (\<open>go/accept/standing.go\<close>): which equivalences, contradictions and supersessions of a view
  are applied, and on whose backing. The records are sorted stably, where the code's order of
  records that compare equal is open: only the group of a record and its position matter.
\<close>

record standing_record =
  sr_author :: public_key
  sr_place :: place
  sr_retract :: bool

definition standing_key :: "standing_record \<Rightarrow> public_key \<times> digest" where
  "standing_key r = (sr_author r, pl_lineage (sr_place r))"

definition sort_standing :: "standing_record list \<Rightarrow> standing_record list" where
  "sort_standing = sort_key (\<lambda>r. (standing_key r, pl_index (sr_place r)))"

fun publications :: "crypto \<Rightarrow> source \<Rightarrow> digest \<Rightarrow> tag list \<Rightarrow> block_order \<Rightarrow>
    (accept_error + block_order \<times> standing_record list) option" where
  "publications cr src meta [] o' = Some (Inr (o', []))"
| "publications cr src meta (t # ts) o' =
    bindD (mapErrD (Ordering_publication meta) (order_of cr src (snd t) o')) (\<lambda>(o2, p).
    bindD (publications cr src meta ts o2) (\<lambda>(o3, rs).
    Some (Inr (o3, \<lparr>sr_author = fst t, sr_place = p, sr_retract = False\<rparr> # rs))))"

text \<open>The statements of publishing authors in one truth claim, and in all claims about the meta-molecule.\<close>

fun statements :: "crypto \<Rightarrow> source \<Rightarrow> public_key set \<Rightarrow> claim \<Rightarrow> tag list \<Rightarrow> block_order \<Rightarrow>
    (accept_error + block_order \<times> standing_record list) option" where
  "statements cr src publishers t [] o' = Some (Inr (o', []))"
| "statements cr src publishers t (a # as) o' =
    (if fst a \<notin> publishers then statements cr src publishers t as o'
     else
       bindD (mapErrD (Ordering_assertion (cl_meta t)) (order_of cr src (snd a) o')) (\<lambda>(o2, p).
       bindD (statements cr src publishers t as o2) (\<lambda>(o3, rs).
       Some (Inr (o3, \<lparr>sr_author = fst a, sr_place = p, sr_retract = (cl_stance t = Retracted)\<rparr> # rs)))))"

fun all_statements :: "crypto \<Rightarrow> source \<Rightarrow> public_key set \<Rightarrow> claim list \<Rightarrow> block_order \<Rightarrow>
    (accept_error + block_order \<times> standing_record list) option" where
  "all_statements cr src publishers [] o' = Some (Inr (o', []))"
| "all_statements cr src publishers (t # ts) o' =
    bindD (statements cr src publishers t (cl_prov t) o') (\<lambda>(o2, rs).
    bindD (all_statements cr src publishers ts o2) (\<lambda>(o3, rs').
    Some (Inr (o3, rs @ rs'))))"

text \<open>One group: its last position is the last record's.\<close>

definition group_stands :: "standing_record list \<Rightarrow> bool" where
  "group_stands g \<longleftrightarrow> (\<exists>r \<in> set g. pl_index (sr_place r) = pl_index (sr_place (last g)) \<and> \<not> sr_retract r)"

definition backers_of :: "standing_record list \<Rightarrow> public_key list" where
  "backers_of rs = map (\<lambda>g. sr_author (hd g)) (filter group_stands (runs standing_key (sort_standing rs)))"

definition standing :: "crypto \<Rightarrow> source \<Rightarrow> claim \<Rightarrow> (digest \<Rightarrow> claim list) \<Rightarrow> block_order \<Rightarrow>
    (accept_error + block_order \<times> public_key list) option" where
  "standing cr src cl by_subject o' =
    bindD (publications cr src (cl_meta cl) (cl_prov cl) o') (\<lambda>(o2, rs).
    if rs = [] then Some (Inr (o2, []))
    else bindD (all_statements cr src (fst ` set (cl_prov cl)) (by_subject (cl_meta cl)) o2) (\<lambda>(o3, rs').
      Some (Inr (o3, backers_of (rs @ rs')))))"

definition backing_by :: "view \<Rightarrow> claim \<Rightarrow> public_key set \<Rightarrow> backing list" where
  "backing_by v cl authors = map (\<lambda>t. \<lparr>bk_author = fst t, bk_block = snd t, bk_position = position_at v (snd t)\<rparr>)
    (filter (\<lambda>t. fst t \<in> authors) (cl_prov cl))"

fun keep_claims :: "crypto \<Rightarrow> source \<Rightarrow> view \<Rightarrow> (digest \<Rightarrow> claim list) \<Rightarrow> claim list \<Rightarrow> block_order \<times> digest list \<Rightarrow>
    (accept_error + (block_order \<times> digest list) \<times> claim list) option" where
  "keep_claims cr src v by_subject [] s = Some (Inr (s, []))"
| "keep_claims cr src v by_subject (cl # cls) (o', withdrawn) =
    bindD (standing cr src cl by_subject o') (\<lambda>(o2, backers).
    if backers = [] then keep_claims cr src v by_subject cls (o2, insert_ordered withdrawn (cl_meta cl))
    else bindD (keep_claims cr src v by_subject cls (o2, withdrawn)) (\<lambda>(s, kept).
      Some (Inr (s, cl\<lparr>cl_backing := backing_by v cl (set backers)\<rparr> # kept))))"

definition subjects_index :: "claim list \<Rightarrow> digest \<Rightarrow> claim list" where
  "subjects_index truths = foldl (\<lambda>m t. m(cl_a t := m (cl_a t) @ [t])) (\<lambda>_. []) truths"

definition apply_standing :: "crypto \<Rightarrow> source \<Rightarrow> view \<Rightarrow> claims \<Rightarrow> block_order \<Rightarrow>
    (accept_error + block_order \<times> view \<times> claims) option" where
  "apply_standing cr src v c o' =
    (let by_subject = subjects_index (cs_truths c) in
     bindD (keep_claims cr src v by_subject (cs_equivalences c) (o', [])) (\<lambda>(s1, equivalences).
     bindD (keep_claims cr src v by_subject (cs_contradictions c) s1) (\<lambda>(s2, contradictions).
     bindD (keep_claims cr src v by_subject (cs_supersessions c) s2) (\<lambda>(s3, supersessions).
     Some (Inr (fst s3, v\<lparr>vw_withdrawn := snd s3\<rparr>,
       c\<lparr>cs_equivalences := equivalences, cs_contradictions := contradictions, cs_supersessions := supersessions\<rparr>))))))"

section \<open>What an author says of a meta-molecule\<close>

definition says :: "crypto \<Rightarrow> source \<Rightarrow> claim list \<Rightarrow> claim \<Rightarrow> public_key \<Rightarrow> place \<Rightarrow> bool \<Rightarrow> bool" where
  "says cr src truths cl a p retract \<longleftrightarrow>
    (\<exists>b. placed cr src b p \<and> (a, b) \<in> set (cl_prov cl)) \<and> \<not> retract \<or>
    a \<in> fst ` set (cl_prov cl) \<and>
    (\<exists>t \<in> set truths. cl_a t = cl_meta cl \<and> (\<exists>b. placed cr src b p \<and> (a, b) \<in> set (cl_prov t)) \<and> retract = (cl_stance t = Retracted))"

text \<open>An author backs it when some lineage of theirs ends with a statement that is no retraction.\<close>

definition backs :: "crypto \<Rightarrow> source \<Rightarrow> claim list \<Rightarrow> claim \<Rightarrow> public_key \<Rightarrow> bool" where
  "backs cr src truths cl a \<longleftrightarrow> (\<exists>p. says cr src truths cl a p False \<and>
    (\<forall>q retract. says cr src truths cl a q retract \<longrightarrow> pl_lineage q = pl_lineage p \<longrightarrow> pl_index q \<le> pl_index p))"

definition stands :: "crypto \<Rightarrow> source \<Rightarrow> claim list \<Rightarrow> claim \<Rightarrow> bool" where
  "stands cr src truths cl \<longleftrightarrow> (\<exists>a. backs cr src truths cl a)"

lemma subjects_index_eq: "subjects_index truths d = filter (\<lambda>t. cl_a t = d) truths"
proof -
  have "foldl (\<lambda>m t. m(cl_a t := m (cl_a t) @ [t])) m truths d = m d @ filter (\<lambda>t. cl_a t = d) truths" for m
    by (induction truths arbitrary: m) auto
  then show ?thesis by (simp add: subjects_index_def)
qed

text \<open>The records under a full memo.\<close>

abbreviation (input) memo :: "block_order \<Rightarrow> digest \<Rightarrow> place" where
  "memo o' d \<equiv> the (bo_pos o' d)"

lemma publications_memo: "in_memo o' ts \<Longrightarrow> publications cr src meta ts o' =
    Some (Inr (o', map (\<lambda>t. \<lparr>sr_author = fst t, sr_place = memo o' (snd t), sr_retract = False\<rparr>) ts))"
  by (induction ts) (auto simp: order_of_memo)

lemma statements_memo: "in_memo o' ts \<Longrightarrow> statements cr src A t ts o' =
    Some (Inr (o', map (\<lambda>a. \<lparr>sr_author = fst a, sr_place = memo o' (snd a), sr_retract = (cl_stance t = Retracted)\<rparr>)
      (filter (\<lambda>a. fst a \<in> A) ts)))"
  by (induction ts) (auto simp: order_of_memo)

lemma all_statements_memo: "\<forall>t \<in> set cls. in_memo o' (cl_prov t) \<Longrightarrow> all_statements cr src A cls o' =
    Some (Inr (o', concat (map (\<lambda>t. map (\<lambda>a. \<lparr>sr_author = fst a, sr_place = memo o' (snd a), sr_retract = (cl_stance t = Retracted)\<rparr>)
      (filter (\<lambda>a. fst a \<in> A) (cl_prov t))) cls)))"
  by (induction cls) (auto simp: statements_memo)

lemma backers_of_set:
  "a \<in> set (backers_of rs) \<longleftrightarrow> (\<exists>r \<in> set rs. sr_author r = a \<and> \<not> sr_retract r \<and>
    (\<forall>r' \<in> set rs. standing_key r' = standing_key r \<longrightarrow> pl_index (sr_place r') \<le> pl_index (sr_place r)))"
proof -
  let ?s = "sort_standing rs"
  have sorted2: "sorted (map (\<lambda>r. (standing_key r, pl_index (sr_place r))) ?s)" by (simp add: sort_standing_def)
  note sorted = sorted_first(1) [OF this]
  have set: "set ?s = set rs" by (simp add: sort_standing_def)
  let ?g = "\<lambda>r. filter (\<lambda>y. standing_key y = standing_key r) ?s"
  note grp = sorted_first(2) [OF sorted2]
  have mem: "r \<in> set (?g r)" "hd (?g r) \<in> set (?g r)" "last (?g r) \<in> set (?g r)" if "r \<in> set rs" for r
    using that set by (auto intro!: hd_in_set last_in_set simp: filter_empty_conv simp del: set_filter) (auto simp: filter_empty_conv)
  have "a \<in> set (backers_of rs) \<longleftrightarrow> (\<exists>g \<in> set (runs standing_key ?s). group_stands g \<and> sr_author (hd g) = a)"
    by (auto simp: backers_of_def)
  also have "\<dots> \<longleftrightarrow> (\<exists>r \<in> set rs. group_stands (?g r) \<and> sr_author r = a)"
    unfolding runs_exist [OF sorted, where P = "\<lambda>g. group_stands g \<and> sr_author (hd g) = a"] set
    using mem(2) by (intro bex_cong refl) (auto simp: standing_key_def)
  also have "\<dots> \<longleftrightarrow> (\<exists>r \<in> set rs. sr_author r = a \<and> \<not> sr_retract r \<and>
    (\<forall>r' \<in> set rs. standing_key r' = standing_key r \<longrightarrow> pl_index (sr_place r') \<le> pl_index (sr_place r)))" (is "?L \<longleftrightarrow> ?R")
  proof
    assume ?L
    then obtain r x where r: "r \<in> set rs" "sr_author r = a" "x \<in> set (?g r)"
      "pl_index (sr_place x) = pl_index (sr_place (last (?g r)))" "\<not> sr_retract x" by (auto simp: group_stands_def)
    then have "x \<in> set rs" "standing_key x = standing_key r" using set by auto
    moreover have "pl_index (sr_place r') \<le> pl_index (sr_place x)" if "r' \<in> set rs" "standing_key r' = standing_key x" for r'
      using sorted_last [OF grp, of r' "standing_key r"] that calculation(2) set r(4) by simp
    ultimately show ?R using r by (intro bexI [of _ x]) (auto simp: standing_key_def)
  next
    assume ?R
    then obtain r where r: "r \<in> set rs" "sr_author r = a" "\<not> sr_retract r"
      "\<forall>r' \<in> set rs. standing_key r' = standing_key r \<longrightarrow> pl_index (sr_place r') \<le> pl_index (sr_place r)" by blast
    have "pl_index (sr_place r) = pl_index (sr_place (last (?g r)))"
      using sorted_last [OF grp mem(1) [OF r(1)]] r(4) mem(3) [OF r(1)] set by (intro antisym) auto
    then show ?L using r mem(1) [OF r(1)] unfolding group_stands_def by blast
  qed
  finally show ?thesis .
qed

lemma standing_result:
  assumes o: "order_ok cr src o'" and m: "in_memo o' (cl_prov cl)"
    and mt: "\<forall>t \<in> set truths. in_memo o' (cl_prov t)"
  shows "\<exists>bs. standing cr src cl (subjects_index truths) o' = Some (Inr (o', bs)) \<and> set bs = {a. backs cr src truths cl a}"
proof -
  have at: "placed cr src b p \<longleftrightarrow> p = memo o' b" if "bo_pos o' b \<noteq> None" for b p
    using that order_okD [OF o, of b] placed_unique by auto
  let ?A = "fst ` set (cl_prov cl)" and ?ts = "filter (\<lambda>t. cl_a t = cl_meta cl) truths"
  let ?rs = "map (\<lambda>t. \<lparr>sr_author = fst t, sr_place = memo o' (snd t), sr_retract = False\<rparr>) (cl_prov cl)"
  let ?rs' = "concat (map (\<lambda>t. map (\<lambda>a. \<lparr>sr_author = fst a, sr_place = memo o' (snd a), sr_retract = (cl_stance t = Retracted)\<rparr>)
      (filter (\<lambda>a. fst a \<in> ?A) (cl_prov t))) ?ts)"
  have p: "publications cr src (cl_meta cl) (cl_prov cl) o' = Some (Inr (o', ?rs))" by (rule publications_memo [OF m])
  have s: "all_statements cr src ?A ?ts o' = Some (Inr (o', ?rs'))" by (rule all_statements_memo) (use mt in simp)
  have says1: "(\<exists>b. placed cr src b q \<and> (a, b) \<in> set (cl_prov cl)) \<longleftrightarrow> (\<exists>b. q = memo o' b \<and> (a, b) \<in> set (cl_prov cl))" for a q
    using at m unfolding in_memo_def by (metis snd_conv)
  have says2: "(\<exists>b. placed cr src b q \<and> (a, b) \<in> set (cl_prov t)) \<longleftrightarrow> (\<exists>b. q = memo o' b \<and> (a, b) \<in> set (cl_prov t))" if "t \<in> set truths" for a q t
    using at mt that unfolding in_memo_def by (metis snd_conv)
  have rec1: "r \<in> set ?rs \<longleftrightarrow> (\<exists>b. sr_place r = memo o' b \<and> (sr_author r, b) \<in> set (cl_prov cl)) \<and> \<not> sr_retract r" for r
    by (cases r) (force simp: image_iff)
  have rec2: "r \<in> set ?rs' \<longleftrightarrow> sr_author r \<in> ?A \<and> (\<exists>t \<in> set truths. cl_a t = cl_meta cl \<and>
      (\<exists>b. sr_place r = memo o' b \<and> (sr_author r, b) \<in> set (cl_prov t)) \<and> sr_retract r = (cl_stance t = Retracted))" for r
    by (cases r) (force simp: image_iff)
  have rec: "r \<in> set (?rs @ ?rs') \<longleftrightarrow> says cr src truths cl (sr_author r) (sr_place r) (sr_retract r)" for r
    unfolding says_def says1 using says2 by (simp only: set_append Un_iff rec1 rec2) (simp cong: bex_cong)
  have "a \<in> set (backers_of (?rs @ ?rs')) \<longleftrightarrow> backs cr src truths cl a" for a
    unfolding backers_of_set
  proof
    assume "\<exists>r \<in> set (?rs @ ?rs'). sr_author r = a \<and> \<not> sr_retract r \<and>
      (\<forall>r' \<in> set (?rs @ ?rs'). standing_key r' = standing_key r \<longrightarrow> pl_index (sr_place r') \<le> pl_index (sr_place r))"
    then obtain r where r: "r \<in> set (?rs @ ?rs')" "sr_author r = a" "\<not> sr_retract r"
      "\<forall>r' \<in> set (?rs @ ?rs'). standing_key r' = standing_key r \<longrightarrow> pl_index (sr_place r') \<le> pl_index (sr_place r)" by blast
    have "says cr src truths cl a (sr_place r) False" using r(1-3) rec [of r] by simp
    moreover have "pl_index q \<le> pl_index (sr_place r)" if "says cr src truths cl a q b" "pl_lineage q = pl_lineage (sr_place r)" for q b
    proof -
      let ?q = "\<lparr>sr_author = a, sr_place = q, sr_retract = b\<rparr>"
      have "?q \<in> set (?rs @ ?rs')" using rec [of ?q] that(1) by (simp only: standing_record.select_convs)
      moreover have "standing_key ?q = standing_key r" using that(2) r(2) by (simp add: standing_key_def)
      ultimately have "pl_index (sr_place ?q) \<le> pl_index (sr_place r)" using r(4) by blast
      then show ?thesis by simp
    qed
    ultimately show "backs cr src truths cl a" unfolding backs_def by blast
  next
    assume "backs cr src truths cl a"
    then obtain p where p: "says cr src truths cl a p False"
      "\<forall>q b. says cr src truths cl a q b \<longrightarrow> pl_lineage q = pl_lineage p \<longrightarrow> pl_index q \<le> pl_index p" unfolding backs_def by blast
    let ?r = "\<lparr>sr_author = a, sr_place = p, sr_retract = False\<rparr>"
    have m: "?r \<in> set (?rs @ ?rs')" using p(1) rec [of ?r] by (simp only: standing_record.select_convs)
    have "pl_index (sr_place r') \<le> pl_index p" if "r' \<in> set (?rs @ ?rs')" "standing_key r' = standing_key ?r" for r'
      using that(2) p(2) rec [THEN iffD1, OF that(1)] by (auto simp: standing_key_def)
    then show "\<exists>r \<in> set (?rs @ ?rs'). sr_author r = a \<and> \<not> sr_retract r \<and>
      (\<forall>r' \<in> set (?rs @ ?rs'). standing_key r' = standing_key r \<longrightarrow> pl_index (sr_place r') \<le> pl_index (sr_place r))"
      by (intro bexI [OF _ m]) (simp only: standing_record.select_convs, blast)
  qed
  then have B: "set (backers_of (?rs @ ?rs')) = {a. backs cr src truths cl a}" by blast
  show ?thesis
  proof (cases "cl_prov cl = []")
    case True
    then have "{a. backs cr src truths cl a} = {}" by (auto simp: backs_def says_def)
    then show ?thesis using p True by (intro exI [of _ "[]"]) (simp add: standing_def)
  next
    case False
    then have "standing cr src cl (subjects_index truths) o' = Some (Inr (o', backers_of (?rs @ ?rs')))"
      using p s by (simp add: standing_def subjects_index_eq)
    then show ?thesis using B by blast
  qed
qed

text \<open>A claim that stands, with its backing.\<close>

definition backed :: "crypto \<Rightarrow> source \<Rightarrow> view \<Rightarrow> claim list \<Rightarrow> claim \<Rightarrow> claim" where
  "backed cr src v truths cl = cl\<lparr>cl_backing := backing_by v cl {a. backs cr src truths cl a}\<rparr>"

lemma keep_claims_result:
  assumes "order_ok cr src o'" and "\<forall>cl \<in> set cls. in_memo o' (cl_prov cl)" and "\<forall>t \<in> set truths. in_memo o' (cl_prov t)"
  shows "keep_claims cr src v (subjects_index truths) cls (o', W) =
    Some (Inr ((o', foldl insert_ordered W (map cl_meta (filter (\<lambda>cl. \<not> stands cr src truths cl) cls))),
      map (backed cr src v truths) (filter (stands cr src truths) cls)))"
  using assms(2)
proof (induction cls arbitrary: W)
  case (Cons cl cls)
  obtain bs where bs: "standing cr src cl (subjects_index truths) o' = Some (Inr (o', bs))" "set bs = {a. backs cr src truths cl a}"
    using standing_result [OF assms(1) _ assms(3)] Cons.prems by fastforce
  have "bs = [] \<longleftrightarrow> \<not> stands cr src truths cl" using bs(2) by (auto simp: stands_def)
  then show ?case using Cons bs by (simp add: backed_def)
qed simp

lemma standing_all:
  assumes "order_ok cr src o'"
    and "\<forall>cl \<in> set (cs_equivalences c) \<union> set (cs_contradictions c) \<union> set (cs_supersessions c) \<union> set (cs_truths c). in_memo o' (cl_prov cl)"
  shows "\<exists>W. apply_standing cr src v c o' = Some (Inr (o', v\<lparr>vw_withdrawn := W\<rparr>,
      c\<lparr>cs_equivalences := map (backed cr src v (cs_truths c)) (filter (stands cr src (cs_truths c)) (cs_equivalences c)),
        cs_contradictions := map (backed cr src v (cs_truths c)) (filter (stands cr src (cs_truths c)) (cs_contradictions c)),
        cs_supersessions := map (backed cr src v (cs_truths c)) (filter (stands cr src (cs_truths c)) (cs_supersessions c))\<rparr>)) \<and>
    sorted_wrt (<) W \<and>
    set W = cl_meta ` {cl \<in> set (cs_equivalences c) \<union> set (cs_contradictions c) \<union> set (cs_supersessions c). \<not> stands cr src (cs_truths c) cl}"
proof -
  have m: "\<forall>t \<in> set (cs_truths c). in_memo o' (cl_prov t)" using assms(2) by blast
  let ?f = "\<lambda>cls W. foldl insert_ordered W (map cl_meta (filter (\<lambda>cl. \<not> stands cr src (cs_truths c) cl) cls))"
  have k: "keep_claims cr src v (subjects_index (cs_truths c)) cls (o', W) =
      Some (Inr ((o', ?f cls W), map (backed cr src v (cs_truths c)) (filter (stands cr src (cs_truths c)) cls)))"
    if "set cls \<subseteq> set (cs_equivalences c) \<union> set (cs_contradictions c) \<union> set (cs_supersessions c)" for cls W
    using that assms(2) by (intro keep_claims_result [OF assms(1) _ m]) blast
  let ?W = "foldl insert_ordered [] (map cl_meta (filter (\<lambda>cl. \<not> stands cr src (cs_truths c) cl)
    (cs_equivalences c @ cs_contradictions c @ cs_supersessions c)))"
  have "apply_standing cr src v c o' = Some (Inr (o', v\<lparr>vw_withdrawn := ?W\<rparr>,
      c\<lparr>cs_equivalences := map (backed cr src v (cs_truths c)) (filter (stands cr src (cs_truths c)) (cs_equivalences c)),
        cs_contradictions := map (backed cr src v (cs_truths c)) (filter (stands cr src (cs_truths c)) (cs_contradictions c)),
        cs_supersessions := map (backed cr src v (cs_truths c)) (filter (stands cr src (cs_truths c)) (cs_supersessions c))\<rparr>))"
    by (simp add: apply_standing_def Let_def k [of "cs_equivalences c"] k [of "cs_contradictions c"] k [of "cs_supersessions c"] le_supI1 del: insert_ordered_all)
  moreover have "sorted_wrt (<) ?W" "set ?W = cl_meta ` {cl \<in> set (cs_equivalences c) \<union> set (cs_contradictions c) \<union> set (cs_supersessions c).
      \<not> stands cr src (cs_truths c) cl}"
    unfolding insert_ordered_all by auto
  ultimately show ?thesis by blast
qed

text \<open>
  C15. Standing. A meta-molecule is applied while some author who published it backs it, and not
  otherwise: an author backs it when, in some lineage of theirs, their last position among the
  publications and the truth statements about it holds a statement that is no retraction. The
  statements of others do not count. The claims kept keep their order and get the publications of
  their backers; the others are listed, ascending; the truth claims are not gated.
\<close>

theorem standing_correct:
  assumes "order_ok cr src o'"
    and "\<forall>cl \<in> set (cs_equivalences c) \<union> set (cs_contradictions c) \<union> set (cs_supersessions c) \<union> set (cs_truths c). in_memo o' (cl_prov cl)"
  shows "\<exists>W. apply_standing cr src v c o' = Some (Inr (o', v\<lparr>vw_withdrawn := W\<rparr>,
      c\<lparr>cs_equivalences := map (backed cr src v (cs_truths c)) (filter (stands cr src (cs_truths c)) (cs_equivalences c)),
        cs_contradictions := map (backed cr src v (cs_truths c)) (filter (stands cr src (cs_truths c)) (cs_contradictions c)),
        cs_supersessions := map (backed cr src v (cs_truths c)) (filter (stands cr src (cs_truths c)) (cs_supersessions c))\<rparr>)) \<and>
    sorted_wrt (<) W \<and>
    set W = cl_meta ` {cl \<in> set (cs_equivalences c) \<union> set (cs_contradictions c) \<union> set (cs_supersessions c). \<not> stands cr src (cs_truths c) cl}"
  using assms by (rule standing_all)

text \<open>One author publishes an equivalence in a block and retracts it in the next: it is withdrawn.\<close>

theorem standing_correct_witness:
  "\<exists>cr src o' v c. order_ok cr src o' \<and> cs_equivalences c \<noteq> [] \<and>
    (\<exists>c'. apply_standing cr src v c o' = Some (Inr (o', v\<lparr>vw_withdrawn := [7]\<rparr>, c')) \<and> cs_equivalences c' = [])"
proof -
  obtain cr src o' where ok: "order_ok cr src o'" and m12: "bo_pos o' 1 \<noteq> None" "bo_pos o' 2 \<noteq> None"
    and at: "\<And>q. placed cr src 1 q \<longleftrightarrow> q = \<lparr>pl_lineage = 1, pl_index = 0\<rparr>" "\<And>q. placed cr src 2 q \<longleftrightarrow> q = \<lparr>pl_lineage = 1, pl_index = 1\<rparr>"
    by (rule sample_places) (rule that)
  let ?cl = "\<lparr>cl_meta = 7, cl_template = template_equivalence, cl_a = 8, cl_b = 9, cl_typ = filler_atom, cl_stance = Unasserted,
    cl_prov = [(5, 1)], cl_backing = []\<rparr>"
  let ?t = "?cl\<lparr>cl_meta := 6, cl_a := 7, cl_stance := Retracted, cl_prov := [(5, 2)]\<rparr>"
  define c where "c = no_claims\<lparr>cs_equivalences := [?cl], cs_truths := [?t]\<rparr>"
  have fields: "cs_equivalences c = [?cl]" "cs_truths c = [?t]" "cs_contradictions c = []" "cs_supersessions c = []"
    by (simp_all add: no_claims_def c_def)
  have says: "says cr src [?t] ?cl a q b \<longleftrightarrow> a = 5 \<and> (q = \<lparr>pl_lineage = 1, pl_index = 0\<rparr> \<and> \<not> b \<or> q = \<lparr>pl_lineage = 1, pl_index = 1\<rparr> \<and> b)" for a q b
    unfolding says_def using at by auto
  have "\<not> backs cr src [?t] ?cl a" for a
  proof
    assume "backs cr src [?t] ?cl a"
    then obtain p where p: "says cr src [?t] ?cl a p False"
      "\<forall>q b. says cr src [?t] ?cl a q b \<longrightarrow> pl_lineage q = pl_lineage p \<longrightarrow> pl_index q \<le> pl_index p" unfolding backs_def by blast
    have ap: "a = 5" "p = \<lparr>pl_lineage = 1, pl_index = 0\<rparr>" using p(1) says [of a p False] by simp_all
    have "says cr src [?t] ?cl a \<lparr>pl_lineage = 1, pl_index = 1\<rparr> True" using says [of a "\<lparr>pl_lineage = 1, pl_index = 1\<rparr>" True] ap by simp
    with p(2) have "pl_index \<lparr>pl_lineage = 1, pl_index = 1\<rparr> \<le> pl_index p" using ap(2) by (metis place.select_convs(1))
    then show False using ap(2) by simp
  qed
  then have no: "\<not> stands cr src [?t] ?cl" by (simp add: stands_def)
  have m: "\<forall>cl \<in> set (cs_equivalences c) \<union> set (cs_contradictions c) \<union> set (cs_supersessions c) \<union> set (cs_truths c). in_memo o' (cl_prov cl)"
    using m12 by (simp add: fields)
  define v where "v = empty_view (subs_snapshot None)"
  have gone: "{cl \<in> set (cs_equivalences c) \<union> set (cs_contradictions c) \<union> set (cs_supersessions c). \<not> stands cr src (cs_truths c) cl} = {?cl}"
    using no by (auto simp: fields)
  have none: "filter (stands cr src (cs_truths c)) (cs_equivalences c) = []" using no by (simp add: fields)
  from standing_correct [OF ok m, of v] obtain W where
    W: "sorted_wrt (<) W" "set W = cl_meta ` {?cl}" and "\<exists>c'. apply_standing cr src v c o' = Some (Inr (o', v\<lparr>vw_withdrawn := W\<rparr>, c')) \<and> cs_equivalences c' = []"
    unfolding gone none by (elim exE conjE) (rule that, assumption, assumption, simp)
  moreover have "W = [7]" using strict_sorted_equal [of W "[7]"] W by simp
  ultimately show ?thesis using ok fields(1)
    by (intro exI [of _ cr] exI [of _ src] exI [of _ o'] exI [of _ v] exI [of _ c]) simp
qed

end
