(* ===== verification/Truth.thy ===== *)
theory Truth
  imports Block_Order Runs
begin

text \<open>
  Truth (\<open>go/accept/truth.go\<close>): the assertions of a view placed in their authors' block order, the
  last word of every lineage about every class, the state of every class and the disagreements.
\<close>

record truth_record =
  tr_class :: digest
  tr_lineage :: digest
  tr_index :: nat
  tr_author :: public_key
  tr_stance :: truth_state
  tr_meta :: digest
  tr_block :: digest
  tr_subject :: digest
  tr_latest :: bool

fun stance_code :: "truth_state \<Rightarrow> nat" where
  "stance_code Unasserted = 0"
| "stance_code Asserted = 1"
| "stance_code Retracted = 2"
| "stance_code Conflicted = 3"

definition sort_records :: "truth_record list \<Rightarrow> truth_record list" where
  "sort_records = sort_key (\<lambda>r. ((tr_class r, tr_lineage r), tr_index r, tr_author r, stance_code (tr_stance r),
    tr_meta r, tr_block r, tr_subject r))"

fun claim_records :: "crypto \<Rightarrow> source \<Rightarrow> digest \<Rightarrow> claim \<Rightarrow> tag list \<Rightarrow> block_order \<Rightarrow>
    (accept_error + block_order \<times> truth_record list) option" where
  "claim_records cr src c cl [] o' = Some (Inr (o', []))"
| "claim_records cr src c cl (t # ts) o' =
    bindD (mapErrD (Ordering_assertion (cl_meta cl)) (order_of cr src (snd t) o')) (\<lambda>(o2, p).
    bindD (claim_records cr src c cl ts o2) (\<lambda>(o3, rs).
    Some (Inr (o3, \<lparr>tr_class = c, tr_lineage = pl_lineage p, tr_index = pl_index p, tr_author = fst t, tr_stance = cl_stance cl,
      tr_meta = cl_meta cl, tr_block = snd t, tr_subject = cl_a cl, tr_latest = False\<rparr> # rs))))"

fun truth_records :: "crypto \<Rightarrow> source \<Rightarrow> view \<Rightarrow> claim list \<Rightarrow> block_order \<Rightarrow>
    (accept_error + block_order \<times> truth_record list) option" where
  "truth_records cr src v [] o' = Some (Inr (o', []))"
| "truth_records cr src v (cl # cls) o' =
    (if \<not> vw_has v (cl_a cl) then truth_records cr src v cls o'
     else
       bindD (claim_records cr src (class_at v (cl_a cl)) cl (cl_prov cl) o') (\<lambda>(o2, rs).
       bindD (truth_records cr src v cls o2) (\<lambda>(o3, rs').
       Some (Inr (o3, rs @ rs')))))"

definition mark_group :: "truth_record list \<Rightarrow> truth_record list" where
  "mark_group g = map (\<lambda>r. r\<lparr>tr_latest := (tr_index r = tr_index (last g))\<rparr>) g"

definition mark_latest :: "truth_record list \<Rightarrow> truth_record list" where
  "mark_latest rs = concat (map mark_group (runs (\<lambda>r. (tr_class r, tr_lineage r)) rs))"

text \<open>The first loop of \<open>applyClass\<close>: who spoke, who holds each stance, by which meta-molecules.\<close>

record tally =
  ta_asserted :: "public_key list"
  ta_retracted :: "public_key list"
  ta_asserted_meta :: "digest list"
  ta_retracted_meta :: "digest list"
  ta_declarers :: "public_key list"

definition tally_record :: "tally \<Rightarrow> truth_record \<Rightarrow> tally" where
  "tally_record t r =
    (let t1 = t\<lparr>ta_declarers := insert_ordered (ta_declarers t) (tr_author r)\<rparr> in
     if \<not> tr_latest r then t1
     else if tr_stance r = Retracted
       then t1\<lparr>ta_retracted := insert_ordered (ta_retracted t1) (tr_author r), ta_retracted_meta := insert_ordered (ta_retracted_meta t1) (tr_meta r)\<rparr>
     else t1\<lparr>ta_asserted := insert_ordered (ta_asserted t1) (tr_author r), ta_asserted_meta := insert_ordered (ta_asserted_meta t1) (tr_meta r)\<rparr>)"

definition tally_of :: "truth_record list \<Rightarrow> tally" where
  "tally_of rs = foldl tally_record \<lparr>ta_asserted = [], ta_retracted = [], ta_asserted_meta = [], ta_retracted_meta = [], ta_declarers = []\<rparr> rs"

definition tally_state :: "tally \<Rightarrow> truth_state" where
  "tally_state t = (if 0 < length (ta_asserted t) \<and> 0 < length (ta_retracted t) then Conflicted
     else if 0 < length (ta_retracted t) then Retracted else Asserted)"

definition assertion_of :: "view \<Rightarrow> truth_record \<Rightarrow> assertion" where
  "assertion_of v r = \<lparr>as_author = tr_author r, as_stance = tr_stance r, as_meta = tr_meta r, as_block = tr_block r,
    as_position = position_at v (tr_block r), as_subject = tr_subject r, as_latest = tr_latest r\<rparr>"

definition truth_conflict :: "view \<Rightarrow> digest \<Rightarrow> tally \<Rightarrow> conflict" where
  "truth_conflict v c t = \<lparr>cf_kind = Truth_disagreement, cf_molecules = vw_members v c,
    cf_sides = [\<lparr>sd_stance = stance_true, sd_molecules = [], sd_authors = ta_asserted t\<rparr>,
      \<lparr>sd_stance = stance_untrue, sd_molecules = [], sd_authors = ta_retracted t\<rparr>],
    cf_meta = foldl insert_ordered (foldl insert_ordered [] (ta_asserted_meta t)) (ta_retracted_meta t),
    cf_blocks = [], cf_declarers = ta_declarers t\<rparr>"

definition apply_class :: "view \<Rightarrow> truth_record list \<Rightarrow> view" where
  "apply_class v rs =
    (let t = tally_of rs; c = tr_class (hd rs); s = tally_state t;
         v1 = v\<lparr>vw_truth := (vw_truth v)(c := s), vw_assertions := (vw_assertions v)(c := map (assertion_of v) rs)\<rparr>
     in if s \<noteq> Conflicted then v1 else v1\<lparr>vw_conflicts := vw_conflicts v1 @ [truth_conflict v1 c t]\<rparr>)"

definition apply_truth :: "crypto \<Rightarrow> source \<Rightarrow> view \<Rightarrow> claims \<Rightarrow> block_order \<Rightarrow> (accept_error + block_order \<times> view) option" where
  "apply_truth cr src v c o' =
    bindD (truth_records cr src v (cs_truths c) o') (\<lambda>(o2, rs).
      Some (Inr (o2, foldl apply_class v (runs tr_class (mark_latest (sort_records rs))))))"

section \<open>What is said of a class\<close>

definition stated :: "crypto \<Rightarrow> source \<Rightarrow> view \<Rightarrow> claim list \<Rightarrow> truth_record set" where
  "stated cr src v truths = {r. \<exists>cl \<in> set truths. vw_has v (cl_a cl) \<and> tr_class r = class_at v (cl_a cl) \<and>
    (tr_author r, tr_block r) \<in> set (cl_prov cl) \<and> placed cr src (tr_block r) \<lparr>pl_lineage = tr_lineage r, pl_index = tr_index r\<rparr> \<and>
    tr_stance r = cl_stance cl \<and> tr_meta r = cl_meta cl \<and> tr_subject r = cl_a cl \<and> \<not> tr_latest r}"

text \<open>A statement is the last word when its lineage says nothing later of the class.\<close>

definition last_word :: "truth_record set \<Rightarrow> truth_record \<Rightarrow> bool" where
  "last_word S r \<longleftrightarrow> r \<in> S \<and> (\<forall>r' \<in> S. tr_class r' = tr_class r \<longrightarrow> tr_lineage r' = tr_lineage r \<longrightarrow> tr_index r' \<le> tr_index r)"

definition holders :: "truth_record set \<Rightarrow> digest \<Rightarrow> bool \<Rightarrow> public_key set" where
  "holders S c retracted = tr_author ` {r. last_word S r \<and> tr_class r = c \<and> (tr_stance r = Retracted) = retracted}"

definition holding_meta :: "truth_record set \<Rightarrow> digest \<Rightarrow> digest set" where
  "holding_meta S c = tr_meta ` {r. last_word S r \<and> tr_class r = c}"

definition truth_of :: "truth_record set \<Rightarrow> digest \<Rightarrow> truth_state" where
  "truth_of S c = (if holders S c True \<noteq> {} \<and> holders S c False \<noteq> {} then Conflicted
     else if holders S c True \<noteq> {} then Retracted else if holders S c False \<noteq> {} then Asserted else Unasserted)"

definition disagreement :: "truth_record set \<Rightarrow> view \<Rightarrow> digest \<Rightarrow> conflict" where
  "disagreement S v c = \<lparr>cf_kind = Truth_disagreement, cf_molecules = vw_members v c,
    cf_sides = [\<lparr>sd_stance = stance_true, sd_molecules = [], sd_authors = sorted_list_of_set (holders S c False)\<rparr>,
      \<lparr>sd_stance = stance_untrue, sd_molecules = [], sd_authors = sorted_list_of_set (holders S c True)\<rparr>],
    cf_meta = sorted_list_of_set (holding_meta S c), cf_blocks = [],
    cf_declarers = sorted_list_of_set (tr_author ` {r \<in> S. tr_class r = c})\<rparr>"

text \<open>The records under a full memo are the statements.\<close>

definition record_of :: "block_order \<Rightarrow> view \<Rightarrow> claim \<Rightarrow> tag \<Rightarrow> truth_record" where
  "record_of o' v cl t = \<lparr>tr_class = class_at v (cl_a cl), tr_lineage = pl_lineage (the (bo_pos o' (snd t))),
    tr_index = pl_index (the (bo_pos o' (snd t))), tr_author = fst t, tr_stance = cl_stance cl,
    tr_meta = cl_meta cl, tr_block = snd t, tr_subject = cl_a cl, tr_latest = False\<rparr>"

lemma claim_records_memo: "in_memo o' ts \<Longrightarrow> claim_records cr src (class_at v (cl_a cl)) cl ts o' = Some (Inr (o', map (record_of o' v cl) ts))"
  by (induction ts) (auto simp: order_of_memo record_of_def)

lemma truth_records_memo:
  assumes "\<forall>cl \<in> set cls. vw_has v (cl_a cl) \<longrightarrow> in_memo o' (cl_prov cl)"
  shows "truth_records cr src v cls o' =
    Some (Inr (o', concat (map (\<lambda>cl. map (record_of o' v cl) (cl_prov cl)) (filter (\<lambda>cl. vw_has v (cl_a cl)) cls))))"
  using assms by (induction cls) (auto simp: claim_records_memo)

lemma stated_memo:
  assumes o: "order_ok cr src o'" and m: "\<forall>cl \<in> set cls. vw_has v (cl_a cl) \<longrightarrow> in_memo o' (cl_prov cl)"
  shows "set (concat (map (\<lambda>cl. map (record_of o' v cl) (cl_prov cl)) (filter (\<lambda>cl. vw_has v (cl_a cl)) cls))) = stated cr src v cls"
proof (intro set_eqI iffI)
  fix r assume "r \<in> set (concat (map (\<lambda>cl. map (record_of o' v cl) (cl_prov cl)) (filter (\<lambda>cl. vw_has v (cl_a cl)) cls)))"
  then obtain cl t where ct: "cl \<in> set cls" "vw_has v (cl_a cl)" "t \<in> set (cl_prov cl)" "r = record_of o' v cl t" by auto
  then obtain p where p: "bo_pos o' (snd t) = Some p" using m by (fastforce simp: in_memo_def)
  have "placed cr src (snd t) p" by (rule order_okD [OF o p])
  then have "placed cr src (tr_block r) \<lparr>pl_lineage = tr_lineage r, pl_index = tr_index r\<rparr>" by (cases p) (simp add: ct(4) record_of_def p)
  then show "r \<in> stated cr src v cls" using ct unfolding stated_def by (intro CollectI bexI [of _ cl]) (auto simp: record_of_def)
next
  fix r assume "r \<in> stated cr src v cls"
  then obtain cl where cl: "cl \<in> set cls" "vw_has v (cl_a cl)" "tr_class r = class_at v (cl_a cl)" "(tr_author r, tr_block r) \<in> set (cl_prov cl)"
    "placed cr src (tr_block r) \<lparr>pl_lineage = tr_lineage r, pl_index = tr_index r\<rparr>"
    "tr_stance r = cl_stance cl" "tr_meta r = cl_meta cl" "tr_subject r = cl_a cl" "\<not> tr_latest r" unfolding stated_def by blast
  then obtain p where p: "bo_pos o' (tr_block r) = Some p" using m by (fastforce simp: in_memo_def)
  have "p = \<lparr>pl_lineage = tr_lineage r, pl_index = tr_index r\<rparr>" using placed_unique [OF order_okD [OF o p] cl(5)] .
  then have "r = record_of o' v cl (tr_author r, tr_block r)" using p cl by (cases r) (simp add: record_of_def)
  then show "r \<in> set (concat (map (\<lambda>cl. map (record_of o' v cl) (cl_prov cl)) (filter (\<lambda>cl. vw_has v (cl_a cl)) cls)))"
    using cl(1,2,4) by auto
qed

section \<open>The marks\<close>

definition marked :: "truth_record set \<Rightarrow> truth_record \<Rightarrow> truth_record" where
  "marked S r = r\<lparr>tr_latest := last_word S r\<rparr>"

lemma sort_records_sorted:
  "sorted (map (\<lambda>r. (tr_class r, tr_lineage r)) (sort_records rs))"
  "sorted (map tr_class (sort_records rs))"
  "sorted (map tr_index (filter (\<lambda>y. (tr_class y, tr_lineage y) = k) (sort_records rs)))"
proof -
  let ?f = "\<lambda>r. (tr_class r, tr_lineage r)" and ?g = "\<lambda>r. (tr_index r, tr_author r, stance_code (tr_stance r), tr_meta r, tr_block r, tr_subject r)"
  have s: "sorted (map (\<lambda>r. (?f r, ?g r)) (sort_records rs))" by (simp add: sort_records_def)
  show a: "sorted (map ?f (sort_records rs))" by (rule sorted_first(1) [OF s])
  show "sorted (map tr_class (sort_records rs))" by (rule sorted_first(1) [OF a])
  show "sorted (map tr_index (filter (\<lambda>y. ?f y = k) (sort_records rs)))" by (rule sorted_first(1) [OF sorted_first(2) [OF s]])
qed

lemma mark_latest_sort: "mark_latest (sort_records rs) = map (marked (set rs)) (sort_records rs)"
proof -
  let ?k = "\<lambda>r. (tr_class r, tr_lineage r)" and ?s = "sort_records rs"
  have set: "set ?s = set rs" by (simp add: sort_records_def)
  have "mark_latest ?s = map (\<lambda>r. r\<lparr>tr_latest := (tr_index r = tr_index (last (filter (\<lambda>y. ?k y = ?k r) ?s)))\<rparr>) ?s"
    unfolding mark_latest_def mark_group_def
    by (rule runs_map [OF sort_records_sorted(1), where h = "\<lambda>g r. r\<lparr>tr_latest := (tr_index r = tr_index (last g))\<rparr>"])
  also have "\<dots> = map (marked (set rs)) ?s"
  proof (intro map_cong refl)
    fix r assume r: "r \<in> set ?s"
    let ?g = "filter (\<lambda>y. ?k y = ?k r) ?s"
    have "r \<in> set ?g" using r by simp
    then have l: "last ?g \<in> set ?g" by (intro last_in_set) (auto simp: filter_empty_conv)
    have le: "tr_index x \<le> tr_index (last ?g)" if "x \<in> set ?g" for x
      using sorted_last [OF sort_records_sorted(3) that] .
    have "tr_index r = tr_index (last ?g) \<longleftrightarrow> last_word (set rs) r"
    proof
      assume e: "tr_index r = tr_index (last ?g)"
      show "last_word (set rs) r" unfolding last_word_def e
        using r set le by auto
    next
      assume "last_word (set rs) r"
      then show "tr_index r = tr_index (last ?g)" using l le [OF \<open>r \<in> set ?g\<close>] set by (intro antisym) (auto simp: last_word_def)
    qed
    then show "r\<lparr>tr_latest := (tr_index r = tr_index (last ?g))\<rparr> = marked (set rs) r" by (simp add: marked_def)
  qed
  finally show ?thesis .
qed

lemma marked_fields [simp]:
  "tr_class (marked S r) = tr_class r" "tr_lineage (marked S r) = tr_lineage r" "tr_index (marked S r) = tr_index r"
  "tr_author (marked S r) = tr_author r" "tr_stance (marked S r) = tr_stance r" "tr_meta (marked S r) = tr_meta r"
  "tr_block (marked S r) = tr_block r" "tr_subject (marked S r) = tr_subject r" "tr_latest (marked S r) = last_word S r"
  by (simp_all add: marked_def)

section \<open>The tally\<close>

lemma tally_fold:
  "tally_of rs = \<lparr>ta_asserted = sorted_list_of_set (tr_author ` {r \<in> set rs. tr_latest r \<and> tr_stance r \<noteq> Retracted}),
    ta_retracted = sorted_list_of_set (tr_author ` {r \<in> set rs. tr_latest r \<and> tr_stance r = Retracted}),
    ta_asserted_meta = sorted_list_of_set (tr_meta ` {r \<in> set rs. tr_latest r \<and> tr_stance r \<noteq> Retracted}),
    ta_retracted_meta = sorted_list_of_set (tr_meta ` {r \<in> set rs. tr_latest r \<and> tr_stance r = Retracted}),
    ta_declarers = sorted_list_of_set (tr_author ` set rs)\<rparr>"
proof (induction rs rule: rev_induct)
  case Nil
  then show ?case by (simp add: tally_of_def)
next
  case (snoc r rs)
  have step: "tally_of (rs @ [r]) = tally_record (tally_of rs) r" by (simp add: tally_of_def)
  have ins: "{x \<in> set (rs @ [r]). P x} = (if P r then insert r {x \<in> set rs. P x} else {x \<in> set rs. P x})" for P by auto
  show ?case unfolding step snoc.IH ins by (simp add: tally_record_def Let_def)
qed

lemma group_tally:
  assumes "S = set rs" and "C \<in> tr_class ` S"
  shows "tally_of (filter (\<lambda>y. tr_class y = C) (map (marked S) (sort_records rs))) =
    \<lparr>ta_asserted = sorted_list_of_set (holders S C False), ta_retracted = sorted_list_of_set (holders S C True),
     ta_asserted_meta = sorted_list_of_set (tr_meta ` {r. last_word S r \<and> tr_class r = C \<and> tr_stance r \<noteq> Retracted}),
     ta_retracted_meta = sorted_list_of_set (tr_meta ` {r. last_word S r \<and> tr_class r = C \<and> tr_stance r = Retracted}),
     ta_declarers = sorted_list_of_set (tr_author ` {r \<in> S. tr_class r = C})\<rparr>"
proof -
  let ?g = "filter (\<lambda>y. tr_class y = C) (map (marked S) (sort_records rs))"
  have set: "set ?g = marked S ` {r \<in> S. tr_class r = C}" using assms(1) by (auto simp: sort_records_def)
  have sub: "{r \<in> marked S ` {r \<in> S. tr_class r = C}. tr_latest r \<and> Q (tr_stance r)} = marked S ` {r. last_word S r \<and> tr_class r = C \<and> Q (tr_stance r)}" for Q
    by (auto simp: last_word_def)
  show ?thesis
    unfolding tally_fold set sub [where Q = "\<lambda>s. s = Retracted"] sub [where Q = "\<lambda>s. s \<noteq> Retracted"]
    by (simp add: holders_def image_image)
qed

lemma holders_some: "C \<in> tr_class ` S \<Longrightarrow> finite S \<Longrightarrow> holders S C True \<noteq> {} \<or> holders S C False \<noteq> {}"
proof -
  assume "C \<in> tr_class ` S" and fin: "finite S"
  then obtain r0 where r0: "r0 \<in> S" "tr_class r0 = C" by auto
  let ?G = "{r \<in> S. tr_class r = C \<and> tr_lineage r = tr_lineage r0}"
  have G: "finite ?G" "?G \<noteq> {}" using fin r0 by auto
  then obtain r where r: "r \<in> ?G" "tr_index r = Max (tr_index ` ?G)" by (metis (mono_tags, lifting) Max_in empty_is_image finite_imageI imageE)
  then have "\<forall>r' \<in> ?G. tr_index r' \<le> tr_index r" using G by simp
  then have "last_word S r" using r(1) unfolding last_word_def by auto
  then show "holders S C True \<noteq> {} \<or> holders S C False \<noteq> {}" using r(1) unfolding holders_def by blast
qed

lemma holders_none: "C \<notin> tr_class ` S \<Longrightarrow> holders S C b = {}"
  by (auto simp: holders_def last_word_def)

lemma holders_finite: "finite S \<Longrightarrow> finite (holders S C b)"
  unfolding holders_def by (rule finite_imageI, rule finite_subset [of _ S]) (auto simp: last_word_def)

section \<open>The states\<close>

definition class_group :: "truth_record set \<Rightarrow> truth_record list \<Rightarrow> digest \<Rightarrow> truth_record list" where
  "class_group S rs C = filter (\<lambda>y. tr_class y = C) (map (marked S) (sort_records rs))"

lemma class_group_set: "S = set rs \<Longrightarrow> set (class_group S rs C) = marked S ` {r \<in> S. tr_class r = C}"
  by (auto simp: class_group_def sort_records_def)

lemma apply_class_group:
  assumes S: "S = set rs" and C: "C \<in> tr_class ` S"
  shows "apply_class v (class_group S rs C) = v\<lparr>vw_truth := (vw_truth v)(C := truth_of S C),
    vw_assertions := (vw_assertions v)(C := map (assertion_of v) (class_group S rs C)),
    vw_conflicts := vw_conflicts v @ (if truth_of S C = Conflicted then [disagreement S v C] else [])\<rparr>"
proof -
  have fin: "finite S" using S by simp
  let ?g = "class_group S rs C"
  note t = group_tally [OF S C, folded class_group_def]
  have "?g \<noteq> []" using class_group_set [OF S, of C] C by (metis (mono_tags, lifting) empty_iff empty_set image_iff imageI mem_Collect_eq)
  then have "hd ?g \<in> set ?g" by (rule hd_in_set)
  then have h: "tr_class (hd ?g) = C" by (simp add: class_group_def)
  have state: "tally_state (tally_of ?g) = truth_of S C"
    using holders_some [OF C fin] holders_finite [OF fin]
    by (simp add: t tally_state_def truth_of_def sorted_list_of_set_nonempty flip: length_greater_0_conv)
  let ?m = "\<lambda>Q. {r. last_word S r \<and> tr_class r = C \<and> Q (tr_stance r)}"
  have fm: "finite (tr_meta ` ?m Q)" for Q by (rule finite_imageI, rule finite_subset [OF _ fin]) (auto simp: last_word_def)
  have "tr_meta ` ?m (\<lambda>s. s \<noteq> Retracted) \<union> tr_meta ` ?m (\<lambda>s. s = Retracted) = holding_meta S C"
    unfolding holding_meta_def by auto
  then have c: "truth_conflict v' C (tally_of ?g) = disagreement S v' C" for v'
    using fm [of "\<lambda>s. s = Retracted"] fm [of "\<lambda>s. s \<noteq> Retracted"]
    by (simp add: truth_conflict_def disagreement_def t insert_ordered_fold)
  have "disagreement S (v\<lparr>vw_truth := f, vw_assertions := a\<rparr>) C = disagreement S v C" for f a by (simp add: disagreement_def)
  then show ?thesis by (simp add: apply_class_def Let_def h state c)
qed

lemma apply_classes:
  assumes S: "S = set rs" and "set Cs \<subseteq> tr_class ` S"
  shows "foldl apply_class v (map (class_group S rs) Cs) = v\<lparr>vw_truth := (\<lambda>C. if C \<in> set Cs then truth_of S C else vw_truth v C),
    vw_assertions := (\<lambda>C. if C \<in> set Cs then map (assertion_of v) (class_group S rs C) else vw_assertions v C),
    vw_conflicts := vw_conflicts v @ map (disagreement S v) (filter (\<lambda>C. truth_of S C = Conflicted) Cs)\<rparr>"
  using assms(2)
proof (induction Cs rule: rev_induct)
  case (snoc C Cs)
  let ?w = "v\<lparr>vw_truth := (\<lambda>C. if C \<in> set Cs then truth_of S C else vw_truth v C),
    vw_assertions := (\<lambda>C. if C \<in> set Cs then map (assertion_of v) (class_group S rs C) else vw_assertions v C),
    vw_conflicts := vw_conflicts v @ map (disagreement S v) (filter (\<lambda>C. truth_of S C = Conflicted) Cs)\<rparr>"
  have a: "assertion_of ?w = assertion_of v" and d: "disagreement S ?w = disagreement S v"
    by (simp_all add: assertion_of_def position_at_def disagreement_def fun_eq_iff)
  have "foldl apply_class v (map (class_group S rs) (Cs @ [C])) = apply_class ?w (class_group S rs C)"
    using snoc by simp
  also have "\<dots> = ?w\<lparr>vw_truth := (vw_truth ?w)(C := truth_of S C),
    vw_assertions := (vw_assertions ?w)(C := map (assertion_of v) (class_group S rs C)),
    vw_conflicts := vw_conflicts ?w @ (if truth_of S C = Conflicted then [disagreement S v C] else [])\<rparr>"
    using apply_class_group [OF S, of C ?w] snoc.prems unfolding a d by simp
  also have "\<dots> = v\<lparr>vw_truth := (\<lambda>D. if D \<in> set (Cs @ [C]) then truth_of S D else vw_truth v D),
    vw_assertions := (\<lambda>D. if D \<in> set (Cs @ [C]) then map (assertion_of v) (class_group S rs D) else vw_assertions v D),
    vw_conflicts := vw_conflicts v @ map (disagreement S v) (filter (\<lambda>C. truth_of S C = Conflicted) (Cs @ [C]))\<rparr>"
    by (simp add: fun_eq_iff)
  finally show ?case .
qed simp

lemma truth_of_unspoken: "C \<notin> tr_class ` S \<Longrightarrow> truth_of S C = Unasserted"
  by (simp add: truth_of_def holders_none)

lemma truth_all:
  assumes "order_ok cr src o'" and "\<forall>cl \<in> set (cs_truths c). vw_has v (cl_a cl) \<longrightarrow> in_memo o' (cl_prov cl)"
    and "vw_truth v = (\<lambda>_. Unasserted)" and "vw_assertions v = (\<lambda>_. [])"
  shows "\<exists>assertions. apply_truth cr src v c o' = Some (Inr (o', v\<lparr>vw_truth := truth_of (stated cr src v (cs_truths c)),
      vw_assertions := assertions,
      vw_conflicts := vw_conflicts v @ map (disagreement (stated cr src v (cs_truths c)) v)
        (sorted_list_of_set {C. truth_of (stated cr src v (cs_truths c)) C = Conflicted})\<rparr>)) \<and>
    (\<forall>C. set (assertions C) = (\<lambda>r. assertion_of v (marked (stated cr src v (cs_truths c)) r)) ` {r \<in> stated cr src v (cs_truths c). tr_class r = C})"
proof -
  define rs where "rs = concat (map (\<lambda>cl. map (record_of o' v cl) (cl_prov cl)) (filter (\<lambda>cl. vw_has v (cl_a cl)) (cs_truths c)))"
  define S where "S = stated cr src v (cs_truths c)"
  have S: "S = set rs" unfolding S_def rs_def by (rule stated_memo [OF assms(1,2), symmetric])
  have r: "truth_records cr src v (cs_truths c) o' = Some (Inr (o', rs))" unfolding rs_def by (rule truth_records_memo [OF assms(2)])
  let ?Cs = "sorted_list_of_set (tr_class ` S)"
  have m: "mark_latest (sort_records rs) = map (marked S) (sort_records rs)" unfolding S by (rule mark_latest_sort)
  have "sorted (map tr_class (map (marked S) (sort_records rs)))" using sort_records_sorted(2) [of rs] by (simp add: comp_def)
  from runs_sorted [OF this] have "runs tr_class (mark_latest (sort_records rs)) = map (class_group S rs) ?Cs"
    unfolding m by (simp add: class_group_def image_image S sort_records_def)
  moreover have "foldl apply_class v (map (class_group S rs) ?Cs) = v\<lparr>vw_truth := (\<lambda>C. if C \<in> set ?Cs then truth_of S C else vw_truth v C),
    vw_assertions := (\<lambda>C. if C \<in> set ?Cs then map (assertion_of v) (class_group S rs C) else vw_assertions v C),
    vw_conflicts := vw_conflicts v @ map (disagreement S v) (filter (\<lambda>C. truth_of S C = Conflicted) ?Cs)\<rparr>"
    by (rule apply_classes [OF S]) (simp add: S)
  moreover have "(\<lambda>C. if C \<in> set ?Cs then truth_of S C else vw_truth v C) = truth_of S"
    using truth_of_unspoken [of _ S] assms(3) S by auto
  moreover have "filter (\<lambda>C. truth_of S C = Conflicted) ?Cs = sorted_list_of_set {C. truth_of S C = Conflicted}"
  proof (rule strict_sorted_equal)
    have "C \<in> tr_class ` S" if "truth_of S C = Conflicted" for C using truth_of_unspoken [of C S] that by (cases "C \<in> tr_class ` S") simp_all
    then have "{C. truth_of S C = Conflicted} \<subseteq> tr_class ` S" by blast
    then have fin: "finite {C. truth_of S C = Conflicted}" using S finite_subset by fastforce
    show "set (filter (\<lambda>C. truth_of S C = Conflicted) ?Cs) = set (sorted_list_of_set {C. truth_of S C = Conflicted})"
      using \<open>{C. truth_of S C = Conflicted} \<subseteq> tr_class ` S\<close> S fin by auto
  qed (simp_all add: sorted_wrt_filter)
  ultimately have "apply_truth cr src v c o' = Some (Inr (o', v\<lparr>vw_truth := truth_of S,
      vw_assertions := (\<lambda>C. if C \<in> set ?Cs then map (assertion_of v) (class_group S rs C) else vw_assertions v C),
      vw_conflicts := vw_conflicts v @ map (disagreement S v) (sorted_list_of_set {C. truth_of S C = Conflicted})\<rparr>))"
    using r by (simp add: apply_truth_def)
  moreover have "set (if C \<in> set ?Cs then map (assertion_of v) (class_group S rs C) else vw_assertions v C) =
      (\<lambda>r. assertion_of v (marked S r)) ` {r \<in> S. tr_class r = C}" for C
  proof (cases "C \<in> set ?Cs")
    case True
    then show ?thesis using class_group_set [OF S, of C] by (simp add: image_image)
  next
    case False
    then have "{r \<in> S. tr_class r = C} = {}" using S by auto
    then show ?thesis using False assms(4) by simp
  qed
  ultimately show ?thesis unfolding S_def by blast
qed

text \<open>
  C16. Truth. A class is unasserted when no assertion of the view is about a member of it; conflicted
  when the last words about it, lineage by lineage, hold both stances; otherwise it has the one
  stance its last words hold. Every assertion is kept, marked when it is a last word, and every
  conflicted class is reported once, in class order, with those who hold either side, their
  meta-molecules and everyone who spoke.
\<close>

theorem truth_correct:
  assumes "order_ok cr src o'" and "\<forall>cl \<in> set (cs_truths c). vw_has v (cl_a cl) \<longrightarrow> in_memo o' (cl_prov cl)"
    and "vw_truth v = (\<lambda>_. Unasserted)" and "vw_assertions v = (\<lambda>_. [])"
  shows "\<exists>assertions. apply_truth cr src v c o' = Some (Inr (o', v\<lparr>vw_truth := truth_of (stated cr src v (cs_truths c)),
      vw_assertions := assertions,
      vw_conflicts := vw_conflicts v @ map (disagreement (stated cr src v (cs_truths c)) v)
        (sorted_list_of_set {C. truth_of (stated cr src v (cs_truths c)) C = Conflicted})\<rparr>)) \<and>
    (\<forall>C. set (assertions C) = (\<lambda>r. assertion_of v (marked (stated cr src v (cs_truths c)) r)) ` {r \<in> stated cr src v (cs_truths c). tr_class r = C})"
  using assms by (rule truth_all)

text \<open>An author asserts a molecule in one block and retracts it in the next: it is retracted.\<close>

theorem truth_correct_witness:
  "\<exists>cr src o' v c v'. apply_truth cr src v c o' = Some (Inr (o', v')) \<and> vw_truth v' 7 = Retracted \<and> vw_truth v' 9 = Unasserted \<and>
    vw_conflicts v' = [] \<and> card (set (vw_assertions v' 7)) = 2"
proof -
  obtain cr src o' where ok: "order_ok cr src o'" and m12: "bo_pos o' 1 \<noteq> None" "bo_pos o' 2 \<noteq> None"
    and at: "\<And>q. placed cr src 1 q \<longleftrightarrow> q = \<lparr>pl_lineage = 1, pl_index = 0\<rparr>" "\<And>q. placed cr src 2 q \<longleftrightarrow> q = \<lparr>pl_lineage = 1, pl_index = 1\<rparr>"
    by (rule sample_places) (rule that)
  let ?t1 = "\<lparr>cl_meta = 5, cl_template = template_truth_assertion, cl_a = 7, cl_b = 0, cl_typ = filler_molecule, cl_stance = Asserted,
    cl_prov = [(4, 1)], cl_backing = []\<rparr>"
  let ?t2 = "?t1\<lparr>cl_meta := 6, cl_stance := Retracted, cl_prov := [(4, 2)]\<rparr>"
  define c where "c = no_claims\<lparr>cs_truths := [?t1, ?t2]\<rparr>"
  have c: "cs_truths c = [?t1, ?t2]" by (simp add: c_def)
  define v where "v = (empty_view (subs_snapshot None))\<lparr>vw_entries := [7 \<mapsto> undefined], vw_class := [7 \<mapsto> 7]\<rparr>"
  have v: "vw_has v 7" "class_at v 7 = 7" "vw_truth v = (\<lambda>_. Unasserted)" "vw_assertions v = (\<lambda>_. [])" "vw_conflicts v = []"
    by (simp_all add: v_def vw_has_def class_at_def empty_view_def)
  let ?r1 = "\<lparr>tr_class = 7, tr_lineage = 1, tr_index = 0, tr_author = 4, tr_stance = Asserted, tr_meta = 5, tr_block = 1,
    tr_subject = 7, tr_latest = False\<rparr>"
  let ?r2 = "?r1\<lparr>tr_index := 1, tr_stance := Retracted, tr_meta := 6, tr_block := 2\<rparr>"
  have S: "stated cr src v (cs_truths c) = {?r1, ?r2}"
  proof (intro set_eqI iffI)
    fix r assume "r \<in> stated cr src v (cs_truths c)"
    then obtain cl where cl: "cl \<in> {?t1, ?t2}" "tr_class r = class_at v (cl_a cl)" "(tr_author r, tr_block r) \<in> set (cl_prov cl)"
      "placed cr src (tr_block r) \<lparr>pl_lineage = tr_lineage r, pl_index = tr_index r\<rparr>"
      "tr_stance r = cl_stance cl" "tr_meta r = cl_meta cl" "tr_subject r = cl_a cl" "\<not> tr_latest r"
      unfolding stated_def c by (simp only: mem_Collect_eq list.set) blast
    from cl(1) consider "cl = ?t1" | "cl = ?t2" by blast
    then show "r \<in> {?r1, ?r2}"
    proof cases
      case 1
      then have "tr_block r = 1" "tr_author r = 4" using cl(3) by simp_all
      then show ?thesis using 1 cl(2,4-8) v(2) by (cases r) (simp add: at)
    next
      case 2
      then have "tr_block r = 2" "tr_author r = 4" using cl(3) by simp_all
      then show ?thesis using 2 cl(2,4-8) v(2) by (cases r) (simp add: at)
    qed
  next
    fix r assume "r \<in> {?r1, ?r2}"
    then consider "r = ?r1" | "r = ?r2" by blast
    then show "r \<in> stated cr src v (cs_truths c)"
      by cases (simp_all add: stated_def c v at)
  qed
  have last: "last_word {?r1, ?r2} r \<longleftrightarrow> r = ?r2" for r by (auto simp: last_word_def)
  have holders: "holders {?r1, ?r2} C True = (if C = 7 then {4} else {})" "holders {?r1, ?r2} C False = {}" for C
    unfolding holders_def last Collect_conv_if by simp_all
  have truth: "truth_of {?r1, ?r2} C = (if C = 7 then Retracted else Unasserted)" for C unfolding truth_of_def holders by simp
  have m: "\<forall>cl \<in> set (cs_truths c). vw_has v (cl_a cl) \<longrightarrow> in_memo o' (cl_prov cl)" using m12 by (simp add: c)
  from truth_correct [OF ok m v(3,4)] obtain assertions where
    a: "apply_truth cr src v c o' = Some (Inr (o', v\<lparr>vw_truth := truth_of {?r1, ?r2}, vw_assertions := assertions,
      vw_conflicts := vw_conflicts v @ map (disagreement {?r1, ?r2} v) (sorted_list_of_set {C. truth_of {?r1, ?r2} C = Conflicted})\<rparr>))"
    "\<forall>C. set (assertions C) = (\<lambda>r. assertion_of v (marked {?r1, ?r2} r)) ` {r \<in> {?r1, ?r2}. tr_class r = C}"
    unfolding S by blast
  have none: "{C. truth_of {?r1, ?r2} C = Conflicted} = {}" unfolding truth by simp
  have "{r \<in> {?r1, ?r2}. tr_class r = 7} = {?r1, ?r2}" by auto
  then have "set (assertions 7) = {assertion_of v (marked {?r1, ?r2} ?r1), assertion_of v (marked {?r1, ?r2} ?r2)}" using a(2) by simp
  moreover have "assertion_of v (marked {?r1, ?r2} ?r1) \<noteq> assertion_of v (marked {?r1, ?r2} ?r2)" by (simp add: assertion_of_def)
  ultimately have card: "card (set (assertions 7)) = 2" by simp
  define T where "T = truth_of {?r1, ?r2}"
  have T: "T 7 = Retracted" "T 9 = Unasserted" unfolding T_def truth by simp_all
  moreover have "apply_truth cr src v c o' = Some (Inr (o', v\<lparr>vw_truth := T, vw_assertions := assertions, vw_conflicts := []\<rparr>))"
    using a(1) unfolding none v(5) T_def by (simp only: sorted_list_of_set_empty list.map append_Nil)
  ultimately show ?thesis using card T
    by (intro exI [of _ cr] exI [of _ src] exI [of _ o'] exI [of _ v] exI [of _ c]
        exI [of _ "v\<lparr>vw_truth := T, vw_assertions := assertions, vw_conflicts := []\<rparr>"]) simp
qed

end
