(* ===== verification/Cycles.thy ===== *)
theory Cycles
  imports Ordered
begin

text \<open>
  The cycles of a graph of classes (\<open>cycles\<close> of \<open>go/accept/supersede.go\<close>): Tarjan's algorithm, and its
  correctness. A component is reported exactly when its members reach themselves.
\<close>

section \<open>The algorithm\<close>

text \<open>
  Tarjan's algorithm, with the record of every node visited, the stack and the components found.
  The fuel bounds the depth of the recursion, which the number of nodes bounds.
\<close>

record node_info =
  ni_index :: nat
  ni_low :: nat
  ni_on_stack :: bool

record tarjan =
  tj_info :: "digest \<Rightarrow> node_info option"
  tj_stack :: "digest list"
  tj_next :: nat
  tj_found :: "digest list list"

text \<open>The loop that pops a component off the stack (its top is the head of the list).\<close>

fun pop_component :: "digest \<Rightarrow> digest list \<Rightarrow> (digest \<Rightarrow> node_info option) \<Rightarrow> digest list \<Rightarrow>
    digest list \<times> (digest \<Rightarrow> node_info option) \<times> digest list" where
  "pop_component d [] info popped = ([], info, popped)"
| "pop_component d (x # xs) info popped =
    (let info' = info(x := map_option (\<lambda>i. i\<lparr>ni_on_stack := False\<rparr>) (info x)); popped' = insert_ordered popped x in
     if x = d then (xs, info', popped') else pop_component d xs info' popped')"

definition set_low :: "digest \<Rightarrow> nat \<Rightarrow> tarjan \<Rightarrow> tarjan" where
  "set_low d n t = t\<lparr>tj_info := (tj_info t)(d := map_option (\<lambda>i. i\<lparr>ni_low := n\<rparr>) (tj_info t d))\<rparr>"

definition low_of :: "tarjan \<Rightarrow> digest \<Rightarrow> nat" where
  "low_of t d = ni_low (the (tj_info t d))"

definition enter :: "digest \<Rightarrow> tarjan \<Rightarrow> tarjan" where
  "enter d t = t\<lparr>tj_info := (tj_info t)(d \<mapsto> \<lparr>ni_index = tj_next t, ni_low = tj_next t, ni_on_stack = True\<rparr>),
     tj_stack := d # tj_stack t, tj_next := tj_next t + 1\<rparr>"

definition leave :: "(digest \<Rightarrow> digest list) \<Rightarrow> digest \<Rightarrow> tarjan \<Rightarrow> tarjan" where
  "leave adj d t =
    (if low_of t d \<noteq> ni_index (the (tj_info t d)) then t
     else case pop_component d (tj_stack t) (tj_info t) [] of (stack, info, popped) \<Rightarrow>
       t\<lparr>tj_stack := stack, tj_info := info,
         tj_found := (if 1 < length popped \<or> d \<in> set (adj d) then tj_found t @ [popped] else tj_found t)\<rparr>)"

fun visit :: "(digest \<Rightarrow> digest list) \<Rightarrow> nat \<Rightarrow> digest \<Rightarrow> tarjan \<Rightarrow> tarjan option"
  and visit_next :: "(digest \<Rightarrow> digest list) \<Rightarrow> nat \<Rightarrow> digest \<Rightarrow> digest list \<Rightarrow> tarjan \<Rightarrow> tarjan option" where
  "visit adj 0 d t = None"
| "visit adj (Suc n) d t = map_option (leave adj d) (visit_next adj n d (adj d) (enter d t))"
| "visit_next adj n d [] t = Some t"
| "visit_next adj n d (x # xs) t =
    (case tj_info t x of
       None \<Rightarrow> (case visit adj n x t of None \<Rightarrow> None
         | Some t1 \<Rightarrow> visit_next adj n d xs (if low_of t1 x < low_of t1 d then set_low d (low_of t1 x) t1 else t1))
     | Some i \<Rightarrow>
         visit_next adj n d xs (if ni_on_stack i \<and> ni_index i < low_of t d then set_low d (ni_index i) t else t))"

fun visit_roots :: "(digest \<Rightarrow> digest list) \<Rightarrow> nat \<Rightarrow> digest list \<Rightarrow> tarjan \<Rightarrow> tarjan option" where
  "visit_roots adj n [] t = Some t"
| "visit_roots adj n (d # ds) t =
    (if tj_info t d = None then (case visit adj n d t of None \<Rightarrow> None | Some t' \<Rightarrow> visit_roots adj n ds t')
     else visit_roots adj n ds t)"

definition cycles :: "digest list \<Rightarrow> (digest \<Rightarrow> digest list) \<Rightarrow> digest list list option" where
  "cycles nodes adj = map_option (\<lambda>t. sort (tj_found t))
    (visit_roots adj (length nodes) nodes \<lparr>tj_info = (\<lambda>_. None), tj_stack = [], tj_next = 0, tj_found = []\<rparr>)"

section \<open>The graph\<close>

declare sorted_list_of_set_insert_remove [simp del]

definition edges_of :: "(digest \<Rightarrow> digest list) \<Rightarrow> (digest \<times> digest) set" where
  "edges_of adj = {(x, y). y \<in> set (adj x)}"

definition component :: "(digest \<Rightarrow> digest list) \<Rightarrow> digest \<Rightarrow> digest set" where
  "component adj d = {w. (d, w) \<in> (edges_of adj)\<^sup>* \<and> (w, d) \<in> (edges_of adj)\<^sup>*}"

lemma edges_of_iff [simp]: "(x, y) \<in> edges_of adj \<longleftrightarrow> y \<in> set (adj x)"
  by (simp add: edges_of_def)

abbreviation (input) reach :: "(digest \<Rightarrow> digest list) \<Rightarrow> digest \<Rightarrow> digest \<Rightarrow> bool" where
  "reach adj x y \<equiv> (x, y) \<in> (edges_of adj)\<^sup>*"

lemma component_self: "d \<in> component adj d"
  by (simp add: component_def)

lemma component_eq: "w \<in> component adj d \<Longrightarrow> component adj w = component adj d"
  unfolding component_def by (auto intro: rtrancl_trans)

text \<open>A closed set is not left.\<close>

lemma closed_reach: "reach adj x y \<Longrightarrow> x \<in> A \<Longrightarrow> (\<And>u. u \<in> A \<Longrightarrow> set (adj u) \<subseteq> A) \<Longrightarrow> y \<in> A"
  by (induction rule: rtrancl_induct) auto

lemma on_cycle: "(d, d) \<in> (edges_of adj)\<^sup>+ \<longleftrightarrow> component adj d \<noteq> {d} \<or> d \<in> set (adj d)"
proof
  assume "(d, d) \<in> (edges_of adj)\<^sup>+"
  then obtain x where x: "(d, x) \<in> edges_of adj" "reach adj x d" by (meson tranclD)
  show "component adj d \<noteq> {d} \<or> d \<in> set (adj d)"
  proof (cases "x = d")
    case False
    have "x \<in> component adj d" using x by (auto simp: component_def)
    then show ?thesis using False by auto
  qed (use x in simp)
next
  assume "component adj d \<noteq> {d} \<or> d \<in> set (adj d)"
  then show "(d, d) \<in> (edges_of adj)\<^sup>+"
  proof
    assume "component adj d \<noteq> {d}"
    then obtain w where "w \<noteq> d" "reach adj d w" "reach adj w d" using component_self [of d adj] by (auto simp: component_def)
    then show ?thesis by (metis rtranclD trancl_rtrancl_trancl)
  qed auto
qed

section \<open>The stack\<close>

lemma pop_component_result:
  "d \<notin> set P \<Longrightarrow> finite A \<Longrightarrow> pop_component d (P @ d # R) info (sorted_list_of_set A) =
    (R, \<lambda>x. if x \<in> insert d (set P) then map_option (\<lambda>i. i\<lparr>ni_on_stack := False\<rparr>) (info x) else info x,
     sorted_list_of_set (A \<union> insert d (set P)))"
proof (induction P arbitrary: info A)
  case Nil
  then show ?case by (simp add: Let_def fun_eq_iff)
next
  case (Cons x P)
  have "pop_component d ((x # P) @ d # R) info (sorted_list_of_set A) =
      pop_component d (P @ d # R) (info(x := map_option (\<lambda>i. i\<lparr>ni_on_stack := False\<rparr>) (info x))) (sorted_list_of_set (insert x A))"
  proof -
    have "x \<noteq> d" using Cons.prems by auto
    then show ?thesis using Cons.prems by (simp add: Let_def)
  qed
  also have "\<dots> = (R, \<lambda>y. if y \<in> insert d (set P) then map_option (\<lambda>i. i\<lparr>ni_on_stack := False\<rparr>) ((info(x := map_option (\<lambda>i. i\<lparr>ni_on_stack := False\<rparr>) (info x))) y)
        else (info(x := map_option (\<lambda>i. i\<lparr>ni_on_stack := False\<rparr>) (info x))) y,
     sorted_list_of_set (insert x A \<union> insert d (set P)))"
    using Cons by simp
  finally show ?case by (auto simp: fun_eq_iff option.map_comp comp_def insert_commute)
qed

section \<open>The invariant\<close>

abbreviation (input) visited :: "tarjan \<Rightarrow> digest set" where
  "visited t \<equiv> dom (tj_info t)"

definition num :: "tarjan \<Rightarrow> digest \<Rightarrow> nat" where
  "num t d = ni_index (the (tj_info t d))"

text \<open>\<open>G\<close> are the nodes entered and not left.\<close>

definition tarjan_ok :: "(digest \<Rightarrow> digest list) \<Rightarrow> digest set \<Rightarrow> tarjan \<Rightarrow> bool" where
  "tarjan_ok adj G t \<longleftrightarrow>
    (\<forall>x. x \<in> set (tj_stack t) \<longleftrightarrow> (\<exists>i. tj_info t x = Some i \<and> ni_on_stack i)) \<and>
    (\<forall>x \<in> visited t. num t x < tj_next t) \<and>
    sorted_wrt (\<lambda>x y. num t y < num t x) (tj_stack t) \<and>
    G \<subseteq> set (tj_stack t) \<and>
    (\<forall>u \<in> visited t - G. set (adj u) \<subseteq> visited t) \<and>
    (\<forall>u \<in> visited t - set (tj_stack t). set (adj u) \<subseteq> visited t - set (tj_stack t)) \<and>
    (\<forall>x \<in> set (tj_stack t). \<forall>y \<in> set (tj_stack t). num t x \<le> num t y \<longrightarrow> reach adj x y) \<and>
    (\<forall>x \<in> set (tj_stack t). \<exists>g \<in> G. num t g \<le> num t x \<and> reach adj x g) \<and>
    distinct (tj_found t) \<and>
    set (tj_found t) = {sorted_list_of_set (component adj u) | u. u \<in> visited t - set (tj_stack t) \<and> (u, u) \<in> (edges_of adj)\<^sup>+}"

lemma tarjan_okD:
  assumes "tarjan_ok adj G t"
  shows "x \<in> set (tj_stack t) \<longleftrightarrow> (\<exists>i. tj_info t x = Some i \<and> ni_on_stack i)"
    and "x \<in> visited t \<Longrightarrow> num t x < tj_next t"
    and "sorted_wrt (\<lambda>x y. num t y < num t x) (tj_stack t)"
    and "G \<subseteq> set (tj_stack t)"
    and "u \<in> visited t \<Longrightarrow> u \<notin> G \<Longrightarrow> set (adj u) \<subseteq> visited t"
    and "u \<in> visited t \<Longrightarrow> u \<notin> set (tj_stack t) \<Longrightarrow> set (adj u) \<subseteq> visited t - set (tj_stack t)"
    and "x \<in> set (tj_stack t) \<Longrightarrow> y \<in> set (tj_stack t) \<Longrightarrow> num t x \<le> num t y \<Longrightarrow> reach adj x y"
    and "x \<in> set (tj_stack t) \<Longrightarrow> \<exists>g \<in> G. num t g \<le> num t x \<and> reach adj x g"
    and "distinct (tj_found t)"
    and "set (tj_found t) = {sorted_list_of_set (component adj u) | u. u \<in> visited t - set (tj_stack t) \<and> (u, u) \<in> (edges_of adj)\<^sup>+}"
proof -
  note c = assms [unfolded tarjan_ok_def]
  show "x \<in> set (tj_stack t) \<longleftrightarrow> (\<exists>i. tj_info t x = Some i \<and> ni_on_stack i)"
    using c [THEN conjunct1] by blast
  show "x \<in> visited t \<Longrightarrow> num t x < tj_next t"
    using c [THEN conjunct2, THEN conjunct1] by blast
  show "sorted_wrt (\<lambda>x y. num t y < num t x) (tj_stack t)"
    by (rule c [THEN conjunct2, THEN conjunct2, THEN conjunct1])
  show "G \<subseteq> set (tj_stack t)"
    by (rule c [THEN conjunct2, THEN conjunct2, THEN conjunct2, THEN conjunct1])
  show "u \<in> visited t \<Longrightarrow> u \<notin> G \<Longrightarrow> set (adj u) \<subseteq> visited t"
    using c [THEN conjunct2, THEN conjunct2, THEN conjunct2, THEN conjunct2, THEN conjunct1] by blast
  show "u \<in> visited t \<Longrightarrow> u \<notin> set (tj_stack t) \<Longrightarrow> set (adj u) \<subseteq> visited t - set (tj_stack t)"
    using c [THEN conjunct2, THEN conjunct2, THEN conjunct2, THEN conjunct2, THEN conjunct2, THEN conjunct1] by blast
  show "x \<in> set (tj_stack t) \<Longrightarrow> y \<in> set (tj_stack t) \<Longrightarrow> num t x \<le> num t y \<Longrightarrow> reach adj x y"
    using c [THEN conjunct2, THEN conjunct2, THEN conjunct2, THEN conjunct2, THEN conjunct2, THEN conjunct2, THEN conjunct1] by blast
  show "x \<in> set (tj_stack t) \<Longrightarrow> \<exists>g \<in> G. num t g \<le> num t x \<and> reach adj x g"
    using c [THEN conjunct2, THEN conjunct2, THEN conjunct2, THEN conjunct2, THEN conjunct2, THEN conjunct2, THEN conjunct2, THEN conjunct1] by blast
  show "distinct (tj_found t)"
    by (rule c [THEN conjunct2, THEN conjunct2, THEN conjunct2, THEN conjunct2, THEN conjunct2, THEN conjunct2, THEN conjunct2, THEN conjunct2, THEN conjunct1])
  show "set (tj_found t) = {sorted_list_of_set (component adj u) | u. u \<in> visited t - set (tj_stack t) \<and> (u, u) \<in> (edges_of adj)\<^sup>+}"
    by (rule c [THEN conjunct2, THEN conjunct2, THEN conjunct2, THEN conjunct2, THEN conjunct2, THEN conjunct2, THEN conjunct2, THEN conjunct2, THEN conjunct2])
qed

lemma stack_visited: "tarjan_ok adj G t \<Longrightarrow> set (tj_stack t) \<subseteq> visited t"
  using tarjan_okD(1) by blast

lemma tarjan_okI:
  assumes "\<And>x. x \<in> set (tj_stack t) \<longleftrightarrow> (\<exists>i. tj_info t x = Some i \<and> ni_on_stack i)"
    and "\<And>x. x \<in> visited t \<Longrightarrow> num t x < tj_next t"
    and "sorted_wrt (\<lambda>x y. num t y < num t x) (tj_stack t)"
    and "G \<subseteq> set (tj_stack t)"
    and "\<And>u. u \<in> visited t \<Longrightarrow> u \<notin> G \<Longrightarrow> set (adj u) \<subseteq> visited t"
    and "\<And>u. u \<in> visited t \<Longrightarrow> u \<notin> set (tj_stack t) \<Longrightarrow> set (adj u) \<subseteq> visited t - set (tj_stack t)"
    and "\<And>x y. x \<in> set (tj_stack t) \<Longrightarrow> y \<in> set (tj_stack t) \<Longrightarrow> num t x \<le> num t y \<Longrightarrow> reach adj x y"
    and "\<And>x. x \<in> set (tj_stack t) \<Longrightarrow> \<exists>g \<in> G. num t g \<le> num t x \<and> reach adj x g"
    and "distinct (tj_found t)"
    and "set (tj_found t) = {sorted_list_of_set (component adj u) | u. u \<in> visited t - set (tj_stack t) \<and> (u, u) \<in> (edges_of adj)\<^sup>+}"
  shows "tarjan_ok adj G t"
  unfolding tarjan_ok_def using assms(1,2,5-8) assms(3,4,9,10) by (intro conjI ballI allI impI) auto

section \<open>Entering, and lowering\<close>

lemma set_low_simps [simp]:
  "tj_stack (set_low d n t) = tj_stack t" "tj_next (set_low d n t) = tj_next t" "tj_found (set_low d n t) = tj_found t"
  "dom (tj_info (set_low d n t)) = dom (tj_info t)" "num (set_low d n t) = num t"
  "x \<noteq> d \<Longrightarrow> tj_info (set_low d n t) x = tj_info t x"
  "d \<in> dom (tj_info t) \<Longrightarrow> low_of (set_low d n t) d = n"
  "(\<exists>i. tj_info (set_low d n t) x = Some i \<and> ni_on_stack i) \<longleftrightarrow> (\<exists>i. tj_info t x = Some i \<and> ni_on_stack i)"
  by (auto simp: set_low_def num_def low_of_def fun_eq_iff split: if_splits option.splits)
    (cases "tj_info t d"; simp)+

lemma tarjan_ok_set_low [simp]: "tarjan_ok adj G (set_low d n t) \<longleftrightarrow> tarjan_ok adj G t"
  unfolding tarjan_ok_def set_low_simps ..

lemma enter_simps [simp]:
  "tj_stack (enter d t) = d # tj_stack t" "tj_next (enter d t) = tj_next t + 1" "tj_found (enter d t) = tj_found t"
  "dom (tj_info (enter d t)) = insert d (dom (tj_info t))"
  "x \<noteq> d \<Longrightarrow> tj_info (enter d t) x = tj_info t x"
  "num (enter d t) d = tj_next t" "x \<noteq> d \<Longrightarrow> num (enter d t) x = num t x" "low_of (enter d t) d = tj_next t"
  by (auto simp: enter_def num_def low_of_def)

definition frame :: "tarjan \<Rightarrow> tarjan \<Rightarrow> bool" where
  "frame t t' \<longleftrightarrow> (\<forall>x \<in> visited t. tj_info t' x = tj_info t x)"

lemma frame_refl: "frame t t"
  by (simp add: frame_def)

lemma frame_trans: "frame t u \<Longrightarrow> frame u v \<Longrightarrow> frame t v"
  unfolding frame_def by (metis domIff)

lemma frame_set_low: "frame t t' \<Longrightarrow> d \<notin> visited t \<Longrightarrow> frame t (set_low d n t')"
  unfolding frame_def by (metis set_low_simps(6))

lemma frame_visited: "frame t t' \<Longrightarrow> visited t \<subseteq> visited t'"
  unfolding frame_def by (metis domIff subsetI)

lemma frame_num: "frame t t' \<Longrightarrow> x \<in> visited t \<Longrightarrow> num t' x = num t x \<and> low_of t' x = low_of t x"
  by (simp add: frame_def num_def low_of_def)

text \<open>Between the entering of \<open>d\<close> from \<open>t0\<close> and its leaving, with the successors \<open>ys\<close> behind.\<close>

definition midway :: "(digest \<Rightarrow> digest list) \<Rightarrow> digest set \<Rightarrow> digest \<Rightarrow> tarjan \<Rightarrow> digest list \<Rightarrow> tarjan \<Rightarrow> bool" where
  "midway adj G d t0 ys t \<longleftrightarrow> tarjan_ok adj G t0 \<and> tarjan_ok adj (insert d G) t \<and> frame t0 t \<and> d \<notin> visited t0 \<and>
    num t d = tj_next t0 \<and> tj_next t0 < tj_next t \<and> set ys \<subseteq> visited t \<and> low_of t d \<le> num t d \<and>
    (\<exists>y \<in> set (tj_stack t). low_of t d = num t y \<and> reach adj d y) \<and>
    (\<exists>P. tj_stack t = P @ d # tj_stack t0 \<and> set P \<inter> visited t0 = {} \<and>
      (\<forall>u \<in> insert d (set P). \<forall>y \<in> set (tj_stack t0). y \<in> set (adj u) \<longrightarrow> (u = d \<longrightarrow> y \<in> set ys) \<longrightarrow> low_of t d \<le> num t y))"

definition after_visit :: "(digest \<Rightarrow> digest list) \<Rightarrow> digest set \<Rightarrow> digest \<Rightarrow> tarjan \<Rightarrow> tarjan \<Rightarrow> bool" where
  "after_visit adj G d t0 t \<longleftrightarrow> tarjan_ok adj G t \<and> frame t0 t \<and> d \<in> visited t \<and>
    num t d = tj_next t0 \<and> tj_next t0 < tj_next t \<and>
    (\<exists>P. tj_stack t = P @ tj_stack t0 \<and> set P \<inter> visited t0 = {} \<and>
      (P = [] \<and> low_of t d = num t d \<or>
        (\<exists>y \<in> set (tj_stack t0). low_of t d = num t y \<and> reach adj d y)) \<and>
      (\<forall>u \<in> set P. \<forall>y \<in> set (tj_stack t0). y \<in> set (adj u) \<longrightarrow> low_of t d \<le> num t y))"

lemma enter_midway:
  assumes ok: "tarjan_ok adj G t" and new: "d \<notin> visited t" and "\<And>g. g \<in> G \<Longrightarrow> reach adj g d"
  shows "midway adj G d t [] (enter d t)"
proof -
  note D = tarjan_okD [OF ok]
  have sv: "set (tj_stack t) \<subseteq> visited t" by (rule stack_visited [OF ok])
  then have ds: "d \<notin> set (tj_stack t)" using new by blast
  have nm: "num (enter d t) x = num t x" if "x \<in> visited t" for x using that new by (intro enter_simps(7)) auto
  have to_d: "reach adj x d" if "x \<in> set (tj_stack t)" for x
    using D(8) [OF that] assms(3) by (meson rtrancl_trans)
  have "tarjan_ok adj (insert d G) (enter d t)"
  proof (rule tarjan_okI)
    fix x show "x \<in> set (tj_stack (enter d t)) \<longleftrightarrow> (\<exists>i. tj_info (enter d t) x = Some i \<and> ni_on_stack i)"
      using D(1) [of x] by (cases "x = d") (auto simp: enter_def)
  next
    fix x assume "x \<in> visited (enter d t)"
    then show "num (enter d t) x < tj_next (enter d t)" using D(2) [of x] nm [of x] by (cases "x = d") auto
  next
    have "sorted_wrt (\<lambda>x y. num (enter d t) y < num (enter d t) x) (tj_stack t)"
    proof (rule sorted_wrt_mono_rel [OF _ D(3)])
      fix x y assume h: "x \<in> set (tj_stack t)" "y \<in> set (tj_stack t)" "num t y < num t x"
      then show "num (enter d t) y < num (enter d t) x" by (simp only: nm [OF subsetD [OF sv]])
    qed
    moreover have "num (enter d t) y < num (enter d t) d" if "y \<in> set (tj_stack t)" for y
      using nm [OF subsetD [OF sv that]] D(2) [OF subsetD [OF sv that]] by simp
    ultimately show "sorted_wrt (\<lambda>x y. num (enter d t) y < num (enter d t) x) (tj_stack (enter d t))" by simp
  next
    show "insert d G \<subseteq> set (tj_stack (enter d t))" using D(4) by auto
  next
    fix u assume "u \<in> visited (enter d t)" "u \<notin> insert d G"
    then show "set (adj u) \<subseteq> visited (enter d t)" using D(5) [of u] by auto
  next
    fix u assume "u \<in> visited (enter d t)" "u \<notin> set (tj_stack (enter d t))"
    then have "u \<in> visited t" "u \<notin> set (tj_stack t)" by auto
    then have "set (adj u) \<subseteq> visited t - set (tj_stack t)" by (rule D(6))
    then show "set (adj u) \<subseteq> visited (enter d t) - set (tj_stack (enter d t))" using new by auto
  next
    fix x y assume xy: "x \<in> set (tj_stack (enter d t))" "y \<in> set (tj_stack (enter d t))" "num (enter d t) x \<le> num (enter d t) y"
    show "reach adj x y"
    proof (cases "y = d")
      case True
      then show ?thesis using xy(1) to_d by auto
    next
      case False
      then have y: "y \<in> set (tj_stack t)" using xy(2) by simp
      then have "num (enter d t) y < tj_next t" using nm [OF subsetD [OF sv y]] D(2) [OF subsetD [OF sv y]] by simp
      then have "x \<noteq> d" using xy(3) by auto
      then have "x \<in> set (tj_stack t)" using xy(1) by simp
      moreover have "num t x \<le> num t y" using xy(3) by (simp only: nm [OF subsetD [OF sv calculation]] nm [OF subsetD [OF sv y]])
      ultimately show ?thesis using D(7) y by blast
    qed
  next
    fix x assume "x \<in> set (tj_stack (enter d t))"
    then show "\<exists>g \<in> insert d G. num (enter d t) g \<le> num (enter d t) x \<and> reach adj x g"
    proof (cases "x = d")
      case False
      then have x: "x \<in> set (tj_stack t)" using \<open>x \<in> set (tj_stack (enter d t))\<close> by simp
      from D(8) [OF this] obtain g where g: "g \<in> G" "num t g \<le> num t x" "reach adj x g" by blast
      moreover have "g \<in> set (tj_stack t)" using g(1) D(4) by blast
      ultimately have "num (enter d t) g \<le> num (enter d t) x" by (simp only: nm [OF subsetD [OF sv]] x)
      then show ?thesis using g by blast
    qed auto
  next
    show "distinct (tj_found (enter d t))" using D(9) by simp
  next
    have "visited (enter d t) - set (tj_stack (enter d t)) = visited t - set (tj_stack t)" using new by auto
    then show "set (tj_found (enter d t)) = {sorted_list_of_set (component adj u) | u.
        u \<in> visited (enter d t) - set (tj_stack (enter d t)) \<and> (u, u) \<in> (edges_of adj)\<^sup>+}" using D(10) by simp
  qed
  moreover have "frame t (enter d t)" unfolding frame_def using new by (auto simp: enter_def)
  ultimately show ?thesis unfolding midway_def using new ok by auto
qed

text \<open>A successor seen before.\<close>

lemma midway_seen:
  assumes m: "midway adj G d t0 ys t" and x: "x \<in> set (adj d)" "tj_info t x = Some i"
  shows "midway adj G d t0 (ys @ [x]) (if ni_on_stack i \<and> ni_index i < low_of t d then set_low d (ni_index i) t else t)"
proof -
  note M = m [unfolded midway_def]
  obtain P where P: "tj_stack t = P @ d # tj_stack t0" "set P \<inter> visited t0 = {}"
    "\<forall>u \<in> insert d (set P). \<forall>y \<in> set (tj_stack t0). y \<in> set (adj u) \<longrightarrow> (u = d \<longrightarrow> y \<in> set ys) \<longrightarrow> low_of t d \<le> num t y" using M by blast
  have ok: "tarjan_ok adj (insert d G) t" "d \<notin> visited t0" "frame t0 t" using M by blast+
  have nx: "num t x = ni_index i" using x(2) by (simp add: num_def)
  have dv: "d \<in> visited t" using stack_visited [OF ok(1)] P(1) by auto
  let ?b = "ni_on_stack i \<and> ni_index i < low_of t d"
  let ?t = "if ?b then set_low d (ni_index i) t else t"
  have low: "low_of ?t d = (if ?b then ni_index i else low_of t d)" using dv by simp
  have s: "tj_stack ?t = tj_stack t" "num ?t = num t" "visited ?t = visited t" "tj_next ?t = tj_next t" by simp_all
  have fr: "frame t0 ?t" using frame_set_low ok(2,3) by simp
  have okt: "tarjan_ok adj (insert d G) ?t" using ok(1) by simp
  have least: "\<forall>u \<in> insert d (set P). \<forall>y \<in> set (tj_stack t0). y \<in> set (adj u) \<longrightarrow> (u = d \<longrightarrow> y \<in> set (ys @ [x])) \<longrightarrow> low_of ?t d \<le> num t y"
  proof (intro ballI impI)
    fix u y assume h: "u \<in> insert d (set P)" "y \<in> set (tj_stack t0)" "y \<in> set (adj u)" "u = d \<longrightarrow> y \<in> set (ys @ [x])"
    show "low_of ?t d \<le> num t y"
    proof (cases "u = d \<and> y \<notin> set ys")
      case True
      then have yx: "y = x" using h(4) by auto
      have "y \<in> set (tj_stack t)" using h(2) P(1) by simp
      then have "ni_on_stack i" using tarjan_okD(1) [OF ok(1)] x(2) yx by auto
      then show ?thesis using low nx yx by auto
    next
      case False
      then have "low_of t d \<le> num t y" using P(3) h by blast
      then show ?thesis using low by auto
    qed
  qed
  have "\<exists>y \<in> set (tj_stack t). low_of ?t d = num t y \<and> reach adj d y"
  proof (cases ?b)
    case True
    then have "x \<in> set (tj_stack t)" using tarjan_okD(1) [OF ok(1)] x(2) by blast
    then show ?thesis using True low nx x(1) by (intro bexI [of _ x]) auto
  next
    case False
    then show ?thesis using M low by auto
  qed
  moreover have "low_of ?t d \<le> num t d" using M low by auto
  moreover have "set (ys @ [x]) \<subseteq> visited t" using M x(2) by auto
  ultimately show ?thesis unfolding midway_def s using M okt fr P(1,2) least by blast
qed

text \<open>A successor visited from here.\<close>

lemma midway_new:
  assumes m: "midway adj G d t0 ys t" and x: "x \<in> set (adj d)" "x \<notin> visited t"
    and a: "after_visit adj (insert d G) x t t1"
  shows "midway adj G d t0 (ys @ [x]) (if low_of t1 x < low_of t1 d then set_low d (low_of t1 x) t1 else t1)"
proof -
  note M = m [unfolded midway_def]
  obtain P where P: "tj_stack t = P @ d # tj_stack t0" "set P \<inter> visited t0 = {}"
    "\<forall>u \<in> insert d (set P). \<forall>y \<in> set (tj_stack t0). y \<in> set (adj u) \<longrightarrow> (u = d \<longrightarrow> y \<in> set ys) \<longrightarrow> low_of t d \<le> num t y" using M by blast
  have ok: "tarjan_ok adj (insert d G) t" "d \<notin> visited t0" "frame t0 t" "tj_next t0 < tj_next t" "num t d = tj_next t0" using M by blast+
  note A = a [unfolded after_visit_def]
  have ok1: "tarjan_ok adj (insert d G) t1" "frame t t1" "x \<in> visited t1" "num t1 x = tj_next t" "tj_next t < tj_next t1" using A by blast+
  obtain Q where Q: "tj_stack t1 = Q @ tj_stack t" "set Q \<inter> visited t = {}"
    "Q = [] \<and> low_of t1 x = num t1 x \<or> (\<exists>y \<in> set (tj_stack t). low_of t1 x = num t1 y \<and> reach adj x y)"
    "\<forall>u \<in> set Q. \<forall>y \<in> set (tj_stack t). y \<in> set (adj u) \<longrightarrow> low_of t1 x \<le> num t1 y" using A by blast
  have sv: "set (tj_stack t) \<subseteq> visited t" by (rule stack_visited [OF ok(1)])
  have dv: "d \<in> visited t" using sv P(1) by auto
  have d1: "low_of t1 d = low_of t d" "num t1 d = num t d" using frame_num [OF ok1(2) dv] by auto
  have n1: "num t1 y = num t y" if "y \<in> set (tj_stack t)" for y using frame_num [OF ok1(2)] that sv by blast
  have v0: "visited t0 \<subseteq> visited t" "visited t \<subseteq> visited t1" using frame_visited ok(3) ok1(2) by blast+
  let ?b = "low_of t1 x < low_of t1 d"
  let ?t = "if ?b then set_low d (low_of t1 x) t1 else t1"
  have dv1: "d \<in> visited t1" using dv v0 by blast
  have low: "low_of ?t d = min (low_of t1 x) (low_of t d)" using d1 set_low_simps(7) [OF dv1] by simp
  have s: "tj_stack ?t = tj_stack t1" "num ?t = num t1" "visited ?t = visited t1" "tj_next ?t = tj_next t1" by simp_all
  have f01: "frame t0 t1" using frame_trans [OF ok(3) ok1(2)] .
  have fr: "frame t0 ?t" using frame_set_low f01 ok(2) by simp
  have st: "tj_stack t1 = (Q @ P) @ d # tj_stack t0" using Q(1) P(1) by simp
  have new: "set (Q @ P) \<inter> visited t0 = {}" unfolding set_append using P(2) Q(2) v0(1) by blast
  have least: "\<forall>u \<in> insert d (set (Q @ P)). \<forall>y \<in> set (tj_stack t0). y \<in> set (adj u) \<longrightarrow> (u = d \<longrightarrow> y \<in> set (ys @ [x])) \<longrightarrow> low_of ?t d \<le> num t1 y"
  proof (intro ballI impI)
    fix u y assume h: "u \<in> insert d (set (Q @ P))" "y \<in> set (tj_stack t0)" "y \<in> set (adj u)" "u = d \<longrightarrow> y \<in> set (ys @ [x])"
    have y: "y \<in> set (tj_stack t)" using h(2) P(1) by simp
    have "y \<noteq> x" using y sv x(2) by auto
    show "low_of ?t d \<le> num t1 y"
    proof (cases "u \<in> set Q")
      case True
      then have "low_of t1 x \<le> num t1 y" using Q(4) y h(3) by blast
      then show ?thesis using low by simp
    next
      case False
      then have "low_of t d \<le> num t y" using P(3) h \<open>y \<noteq> x\<close> by auto
      then show ?thesis using low n1 [OF y] by simp
    qed
  qed
  have xlow: "\<exists>y \<in> set (tj_stack t). low_of t1 x = num t1 y \<and> reach adj x y" if ?b
  proof -
    have "low_of t d \<le> num t d" using M by blast
    then have "low_of t1 x < num t1 x" using that d1 ok(4,5) ok1(4) by simp
    then show ?thesis using Q(3) by auto
  qed
  have "\<exists>y \<in> set (tj_stack t1). low_of ?t d = num t1 y \<and> reach adj d y"
  proof (cases ?b)
    case True
    from xlow [OF this] obtain y where y: "y \<in> set (tj_stack t)" "low_of t1 x = num t1 y" "reach adj x y" by blast
    then have "reach adj d y" using x(1) by (meson converse_rtrancl_into_rtrancl edges_of_iff)
    then show ?thesis using y True low d1 Q(1) by (intro bexI [of _ y]) auto
  next
    case False
    obtain y where y: "y \<in> set (tj_stack t)" "low_of t d = num t y" "reach adj d y" using M by blast
    then show ?thesis using False low d1 n1 [OF y(1)] Q(1) by (intro bexI [of _ y]) auto
  qed
  moreover have "low_of ?t d \<le> num t1 d" using M low d1 by auto
  moreover have "set ys \<subseteq> visited t" using M by blast
  then have "set (ys @ [x]) \<subseteq> visited t1" unfolding set_append list.set using ok1(3) v0(2) by blast
  moreover have "num t1 d = tj_next t0" "tj_next t0 < tj_next t1" using d1 ok(4,5) ok1(5) by auto
  moreover have "tarjan_ok adj (insert d G) ?t" using ok1(1) by simp
  ultimately show ?thesis unfolding midway_def s using M fr st new least by blast
qed

section \<open>Leaving\<close>

lemma midwayE:
  assumes "midway adj G d t0 (adj d) t"
  obtains P y where "tarjan_ok adj G t0" "tarjan_ok adj (insert d G) t" "frame t0 t" "d \<notin> visited t0" "d \<in> visited t"
    "num t d = tj_next t0" "tj_next t0 < tj_next t" "set (adj d) \<subseteq> visited t" "low_of t d \<le> num t d"
    "y \<in> set (tj_stack t)" "low_of t d = num t y" "reach adj d y"
    "tj_stack t = P @ d # tj_stack t0" "set P \<inter> visited t0 = {}"
    "\<And>u w. u \<in> insert d (set P) \<Longrightarrow> w \<in> set (tj_stack t0) \<Longrightarrow> w \<in> set (adj u) \<Longrightarrow> low_of t d \<le> num t w"
    "\<And>u. u \<in> set P \<Longrightarrow> num t d < num t u" "\<And>w. w \<in> set (tj_stack t0) \<Longrightarrow> num t w < num t d"
proof -
  note M = assms [unfolded midway_def]
  obtain P where P: "tj_stack t = P @ d # tj_stack t0" "set P \<inter> visited t0 = {}"
    "\<forall>u \<in> insert d (set P). \<forall>y \<in> set (tj_stack t0). y \<in> set (adj u) \<longrightarrow> (u = d \<longrightarrow> y \<in> set (adj d)) \<longrightarrow> low_of t d \<le> num t y" using M by blast
  obtain y where y: "y \<in> set (tj_stack t)" "low_of t d = num t y" "reach adj d y" using M by blast
  have ok: "tarjan_ok adj (insert d G) t" using M by blast
  have dv: "d \<in> visited t" using stack_visited [OF ok] P(1) by auto
  have s: "sorted_wrt (\<lambda>x y. num t y < num t x) (P @ d # tj_stack t0)" using tarjan_okD(3) [OF ok] P(1) by simp
  show thesis
  proof (rule that [of y P])
    show "num t d < num t u" if "u \<in> set P" for u using s that by (auto simp: sorted_wrt_append)
    show "num t w < num t d" if "w \<in> set (tj_stack t0)" for w using s that by (auto simp: sorted_wrt_append)
    show "low_of t d \<le> num t w" if "u \<in> insert d (set P)" "w \<in> set (tj_stack t0)" "w \<in> set (adj u)" for u w
      using P(3) that by blast
  qed (use M P y dv in auto)
qed

lemma leave_staying:
  assumes m: "midway adj G d t0 (adj d) t" and ne: "low_of t d \<noteq> num t d"
  shows "after_visit adj G d t0 t"
proof (rule midwayE [OF m])
  fix P y
  assume h: "tarjan_ok adj G t0" "tarjan_ok adj (insert d G) t" "frame t0 t" "d \<notin> visited t0" "d \<in> visited t"
    "num t d = tj_next t0" "tj_next t0 < tj_next t" "set (adj d) \<subseteq> visited t" "low_of t d \<le> num t d"
    "y \<in> set (tj_stack t)" "low_of t d = num t y" "reach adj d y"
    "tj_stack t = P @ d # tj_stack t0" "set P \<inter> visited t0 = {}"
    "\<And>u w. u \<in> insert d (set P) \<Longrightarrow> w \<in> set (tj_stack t0) \<Longrightarrow> w \<in> set (adj u) \<Longrightarrow> low_of t d \<le> num t w"
    "\<And>u. u \<in> set P \<Longrightarrow> num t d < num t u" "\<And>w. w \<in> set (tj_stack t0) \<Longrightarrow> num t w < num t d"
  note D = tarjan_okD [OF h(2)]
  have less: "num t y < num t d" using ne h(9,11) by simp
  have y0: "y \<in> set (tj_stack t0)" using h(10,13) less h(6,16) by (fastforce)
  have "tarjan_ok adj G t"
  proof (rule tarjan_okI)
    show "x \<in> set (tj_stack t) \<longleftrightarrow> (\<exists>i. tj_info t x = Some i \<and> ni_on_stack i)" for x by (rule D(1))
    show "x \<in> visited t \<Longrightarrow> num t x < tj_next t" for x by (rule D(2))
    show "sorted_wrt (\<lambda>x y. num t y < num t x) (tj_stack t)" by (rule D(3))
    show "G \<subseteq> set (tj_stack t)" using D(4) by blast
    show "set (adj u) \<subseteq> visited t" if "u \<in> visited t" "u \<notin> G" for u using D(5) [OF that(1)] that(2) h(8) by (cases "u = d") auto
    show "set (adj u) \<subseteq> visited t - set (tj_stack t)" if "u \<in> visited t" "u \<notin> set (tj_stack t)" for u by (rule D(6) [OF that])
    show "reach adj x z" if "x \<in> set (tj_stack t)" "z \<in> set (tj_stack t)" "num t x \<le> num t z" for x z by (rule D(7) [OF that])
    show "\<exists>g \<in> G. num t g \<le> num t x \<and> reach adj x g" if x: "x \<in> set (tj_stack t)" for x
    proof -
      obtain g where g: "g \<in> insert d G" "num t g \<le> num t x" "reach adj x g" using D(8) [OF x] by blast
      show ?thesis
      proof (cases "g = d")
        case True
        obtain g' where g': "g' \<in> insert d G" "num t g' \<le> num t y" "reach adj y g'" using D(8) [OF h(10)] by blast
        have "g' \<noteq> d" using g'(2) less by auto
        moreover have "reach adj x g'" using g(3) h(12) g'(3) True by (meson rtrancl_trans)
        ultimately show ?thesis using g' g(2) less True by (intro bexI [of _ g']) auto
      qed (use g in blast)
    qed
    show "distinct (tj_found t)" by (rule D(9))
    show "set (tj_found t) = {sorted_list_of_set (component adj u) | u. u \<in> visited t - set (tj_stack t) \<and> (u, u) \<in> (edges_of adj)\<^sup>+}" by (rule D(10))
  qed
  moreover have "\<exists>Q. tj_stack t = Q @ tj_stack t0 \<and> set Q \<inter> visited t0 = {} \<and>
      (Q = [] \<and> low_of t d = num t d \<or> (\<exists>y \<in> set (tj_stack t0). low_of t d = num t y \<and> reach adj d y)) \<and>
      (\<forall>u \<in> set Q. \<forall>y \<in> set (tj_stack t0). y \<in> set (adj u) \<longrightarrow> low_of t d \<le> num t y)"
    using h(4,13,14,15) y0 h(11,12) by (intro exI [of _ "P @ [d]"]) auto
  ultimately show "after_visit adj G d t0 t" unfolding after_visit_def using h(3,5-7) by blast
qed

text \<open>What is above \<open>d\<close> on the stack is its component, when nothing lower is reached.\<close>

lemma popped_component:
  assumes m: "midway adj G d t0 (adj d) t" and eq: "low_of t d = num t d" and P: "tj_stack t = P @ d # tj_stack t0"
  shows "component adj d = insert d (set P)"
    and "u \<in> insert d (set P) \<Longrightarrow> set (adj u) \<subseteq> insert d (set P) \<union> (visited t - set (tj_stack t))"
proof -
  obtain y where h: "tarjan_ok adj G t0" "tarjan_ok adj (insert d G) t" "frame t0 t" "d \<notin> visited t0" "d \<in> visited t"
    "set (adj d) \<subseteq> visited t" "set P \<inter> visited t0 = {}"
    "\<And>u w. u \<in> insert d (set P) \<Longrightarrow> w \<in> set (tj_stack t0) \<Longrightarrow> w \<in> set (adj u) \<Longrightarrow> low_of t d \<le> num t w"
    "\<And>u. u \<in> set P \<Longrightarrow> num t d < num t u" "\<And>w. w \<in> set (tj_stack t0) \<Longrightarrow> num t w < num t d"
    by (rule midwayE [OF m]) (use P in auto)
  note D = tarjan_okD [OF h(2)]
  let ?C = "insert d (set P)" and ?B = "visited t - set (tj_stack t)"
  have Cs: "?C \<subseteq> set (tj_stack t)" using P by auto
  have st: "set (tj_stack t) = ?C \<union> set (tj_stack t0)" using P by auto
  have G0: "G \<subseteq> set (tj_stack t0)" by (rule tarjan_okD(4) [OF h(1)])
  have v0: "set (tj_stack t0) \<subseteq> visited t0" by (rule stack_visited [OF h(1)])
  have disj: "?C \<inter> set (tj_stack t0) = {}" using h(4,7) v0 by blast
  show closure: "set (adj u) \<subseteq> ?C \<union> ?B" if u: "u \<in> ?C" for u
  proof
    fix w assume w: "w \<in> set (adj u)"
    have "set (adj u) \<subseteq> visited t"
    proof (cases "u = d")
      case False
      then have "u \<notin> insert d G" using u disj G0 by blast
      moreover have "u \<in> visited t" using u Cs stack_visited [OF h(2)] by blast
      ultimately show ?thesis using D(5) by blast
    qed (use h(6) in simp)
    moreover have "w \<notin> set (tj_stack t0)"
    proof
      assume w0: "w \<in> set (tj_stack t0)"
      from h(8) [OF u w0 w] h(10) [OF w0] eq show False by simp
    qed
    ultimately show "w \<in> ?C \<union> ?B" using w st by blast
  qed
  have closed: "set (adj u) \<subseteq> ?C \<union> ?B" if "u \<in> ?C \<union> ?B" for u
    using that closure [of u] D(6) [of u] by blast
  have both_ways: "reach adj d u \<and> reach adj u d" if u: "u \<in> ?C" for u
  proof
    have "num t d \<le> num t u" using u h(9) by (cases "u = d") (auto intro: less_imp_le)
    then show "reach adj d u" using D(7) u Cs by blast
    obtain g where g: "g \<in> insert d G" "reach adj u g" using D(8) [of u] u Cs by blast
    have "g \<in> ?C \<union> ?B" using closed_reach [OF g(2), of "?C \<union> ?B"] u closed by blast
    then have "g = d" using g(1) G0 disj st by blast
    then show "reach adj u d" using g(2) by simp
  qed
  show "component adj d = ?C"
  proof
    show "?C \<subseteq> component adj d" using both_ways by (auto simp: component_def)
    show "component adj d \<subseteq> ?C"
    proof
      fix w assume "w \<in> component adj d"
      then have w: "reach adj d w" "reach adj w d" by (auto simp: component_def)
      have "w \<in> ?C \<union> ?B" using closed_reach [OF w(1), of "?C \<union> ?B"] closed by blast
      moreover have "w \<notin> ?B"
      proof
        assume "w \<in> ?B"
        then have "d \<in> ?B" using closed_reach [OF w(2), of ?B] D(6) by blast
        then show False using Cs by blast
      qed
      ultimately show "w \<in> ?C" by blast
    qed
  qed
qed

lemma component_cycles: "u \<in> component adj d \<Longrightarrow> (u, u) \<in> (edges_of adj)\<^sup>+ \<longleftrightarrow> (d, d) \<in> (edges_of adj)\<^sup>+"
  unfolding component_def by (auto intro: rtrancl_trancl_trancl trancl_rtrancl_trancl)

lemma leave_popping:
  assumes m: "midway adj G d t0 (adj d) t" and eq: "low_of t d = num t d"
  shows "after_visit adj G d t0 (leave adj d t)"
proof (rule midwayE [OF m])
  fix P y
  assume h: "tarjan_ok adj G t0" "tarjan_ok adj (insert d G) t" "frame t0 t" "d \<notin> visited t0" "d \<in> visited t"
    "num t d = tj_next t0" "tj_next t0 < tj_next t" "set (adj d) \<subseteq> visited t" "low_of t d \<le> num t d"
    "y \<in> set (tj_stack t)" "low_of t d = num t y" "reach adj d y"
    "tj_stack t = P @ d # tj_stack t0" "set P \<inter> visited t0 = {}"
    "\<And>u w. u \<in> insert d (set P) \<Longrightarrow> w \<in> set (tj_stack t0) \<Longrightarrow> w \<in> set (adj u) \<Longrightarrow> low_of t d \<le> num t w"
    "\<And>u. u \<in> set P \<Longrightarrow> num t d < num t u" "\<And>w. w \<in> set (tj_stack t0) \<Longrightarrow> num t w < num t d"
  note D = tarjan_okD [OF h(2)]
  note comp = popped_component [OF m eq h(13)]
  let ?C = "insert d (set P)" and ?R = "tj_stack t0"
  let ?t = "leave adj d t"
  have v0: "set ?R \<subseteq> visited t0" by (rule stack_visited [OF h(1)])
  have disj: "?C \<inter> set ?R = {}" using h(4,14) v0 by blast
  have st: "set (tj_stack t) = ?C \<union> set ?R" using h(13) by auto
  have dP: "d \<notin> set P" using h(16) by blast
  define info where "info = (\<lambda>x. if x \<in> ?C then map_option (\<lambda>i. i\<lparr>ni_on_stack := False\<rparr>) (tj_info t x) else tj_info t x)"
  have pop: "pop_component d (tj_stack t) (tj_info t) [] = (?R, info, sorted_list_of_set ?C)"
    using pop_component_result [OF dP, of "{}" ?R "tj_info t"] by (simp add: h(13) info_def)
  have cyc: "(1 < length (sorted_list_of_set ?C) \<or> d \<in> set (adj d)) \<longleftrightarrow> (d, d) \<in> (edges_of adj)\<^sup>+"
  proof -
    have "1 < card ?C \<longleftrightarrow> ?C \<noteq> {d}" using dP by (cases P) (auto simp: card_gt_0_iff)
    then show ?thesis unfolding on_cycle comp(1) by simp
  qed
  have t': "?t = t\<lparr>tj_stack := ?R, tj_info := info,
      tj_found := (if (d, d) \<in> (edges_of adj)\<^sup>+ then tj_found t @ [sorted_list_of_set ?C] else tj_found t)\<rparr>"
    using eq cyc by (simp only: leave_def num_def pop prod.case if_False simp_thms)
  have dom: "visited ?t = visited t" unfolding t' info_def by (auto split: if_splits)
  have "num ?t x = num t x" for x unfolding t' num_def info_def by (cases "tj_info t x") simp_all
  then have nm: "num ?t = num t" by blast
  have lw: "low_of ?t d = low_of t d" using h(5) unfolding t' low_of_def info_def by auto
  have stk: "tj_stack ?t = ?R" and nxt: "tj_next ?t = tj_next t" unfolding t' by simp_all
  have cv: "visited t - set ?R = ?C \<union> (visited t - set (tj_stack t))" using st disj stack_visited [OF h(2)] by blast
  have "tarjan_ok adj G ?t"
  proof (rule tarjan_okI, unfold dom nm stk nxt)
    show "x \<in> set ?R \<longleftrightarrow> (\<exists>i. tj_info ?t x = Some i \<and> ni_on_stack i)" for x
    proof (cases "x \<in> ?C")
      case True
      then have "x \<notin> set ?R" using disj by blast
      moreover have "\<not> (\<exists>i. tj_info ?t x = Some i \<and> ni_on_stack i)" using True unfolding t' info_def by auto
      ultimately show ?thesis by blast
    next
      case False
      then have "tj_info ?t x = tj_info t x" unfolding t' info_def by simp
      moreover have "x \<in> set ?R \<longleftrightarrow> x \<in> set (tj_stack t)" using False st by blast
      ultimately show ?thesis using D(1) [of x] by simp
    qed
    show "x \<in> visited t \<Longrightarrow> num t x < tj_next t" for x by (rule D(2))
    show "sorted_wrt (\<lambda>x y. num t y < num t x) ?R" using D(3) unfolding h(13) by (simp add: sorted_wrt_append)
    show G: "G \<subseteq> set ?R" by (rule tarjan_okD(4) [OF h(1)])
    show "set (adj u) \<subseteq> visited t" if "u \<in> visited t" "u \<notin> G" for u using D(5) [OF that(1)] that(2) h(8) by (cases "u = d") auto
    show "set (adj u) \<subseteq> visited t - set ?R" if "u \<in> visited t" "u \<notin> set ?R" for u
    proof (cases "u \<in> ?C")
      case True
      show ?thesis unfolding cv by (rule comp(2) [OF True])
    next
      case False
      then have "u \<notin> set (tj_stack t)" using that(2) st by blast
      then show ?thesis unfolding cv using D(6) [OF that(1)] by blast
    qed
    show "reach adj x z" if "x \<in> set ?R" "z \<in> set ?R" "num t x \<le> num t z" for x z using D(7) [of x z] that st by blast
    show "\<exists>g \<in> G. num t g \<le> num t x \<and> reach adj x g" if x: "x \<in> set ?R" for x
    proof -
      have "x \<in> set (tj_stack t)" using x st by blast
      then obtain g where g: "g \<in> insert d G" "num t g \<le> num t x" "reach adj x g" using D(8) by blast
      have "g \<noteq> d" using g(2) h(17) [OF x] by auto
      then show ?thesis using g by blast
    qed
    have fin: "finite A" for A :: "digest set" by simp
    have new: "sorted_list_of_set ?C \<notin> set (tj_found t)"
    proof
      assume "sorted_list_of_set ?C \<in> set (tj_found t)"
      then obtain u where u: "sorted_list_of_set ?C = sorted_list_of_set (component adj u)" "u \<in> visited t - set (tj_stack t)"
        using D(10) by blast
      have "?C = component adj u" using arg_cong [OF u(1), of set] fin by simp
      then have "u \<in> ?C" using component_self by blast
      then show False using u(2) st by blast
    qed
    show "distinct (tj_found ?t)" using D(9) new unfolding t' by simp
    have old: "{sorted_list_of_set (component adj u) | u. u \<in> visited t - set ?R \<and> (u, u) \<in> (edges_of adj)\<^sup>+} =
        (if (d, d) \<in> (edges_of adj)\<^sup>+ then {sorted_list_of_set ?C} else {}) \<union>
        {sorted_list_of_set (component adj u) | u. u \<in> visited t - set (tj_stack t) \<and> (u, u) \<in> (edges_of adj)\<^sup>+}"
    proof -
      have c: "component adj u = ?C \<and> ((u, u) \<in> (edges_of adj)\<^sup>+ \<longleftrightarrow> (d, d) \<in> (edges_of adj)\<^sup>+)" if "u \<in> ?C" for u
        using that component_eq [of u adj d] component_cycles [of u adj d] unfolding comp(1) by blast
      have "{sorted_list_of_set (component adj u) | u. u \<in> visited t - set ?R \<and> (u, u) \<in> (edges_of adj)\<^sup>+} =
          {sorted_list_of_set (component adj u) | u. u \<in> ?C \<and> (u, u) \<in> (edges_of adj)\<^sup>+} \<union>
          {sorted_list_of_set (component adj u) | u. u \<in> visited t - set (tj_stack t) \<and> (u, u) \<in> (edges_of adj)\<^sup>+}"
        unfolding cv by blast
      moreover have "{sorted_list_of_set (component adj u) | u. u \<in> ?C \<and> (u, u) \<in> (edges_of adj)\<^sup>+} =
          {sorted_list_of_set ?C | u. u \<in> ?C \<and> (d, d) \<in> (edges_of adj)\<^sup>+}"
        using c by (intro Collect_cong) metis
      ultimately show ?thesis by auto
    qed
    show "set (tj_found ?t) = {sorted_list_of_set (component adj u) | u. u \<in> visited t - set ?R \<and> (u, u) \<in> (edges_of adj)\<^sup>+}"
      unfolding old D(10) [symmetric] t' by simp
  qed
  moreover have "frame t0 ?t"
    unfolding frame_def
  proof
    fix x assume x: "x \<in> visited t0"
    then have "x \<notin> ?C" using h(4,14) by blast
    then have "tj_info ?t x = tj_info t x" unfolding t' info_def by simp
    then show "tj_info ?t x = tj_info t0 x" using h(3) x unfolding frame_def by simp
  qed
  ultimately show "after_visit adj G d t0 ?t"
    unfolding after_visit_def dom nm stk nxt lw using h(5-7) eq by (intro conjI exI [of _ "[]"]) auto
qed

lemma leave_visit: "midway adj G d t0 (adj d) t \<Longrightarrow> after_visit adj G d t0 (leave adj d t)"
  using leave_popping leave_staying by (cases "low_of t d = num t d") (auto simp: leave_def num_def)

section \<open>The recursion\<close>

lemma visit_loop:
  assumes IH: "\<And>x t G. tarjan_ok adj G t \<Longrightarrow> x \<in> N - visited t \<Longrightarrow> (\<And>g. g \<in> G \<Longrightarrow> reach adj g x) \<Longrightarrow> card (N - visited t) \<le> n \<Longrightarrow>
      \<exists>t'. visit adj n x t = Some t' \<and> after_visit adj G x t t'"
    and N: "finite N" "\<And>u. set (adj u) \<subseteq> N" and G: "\<And>g. g \<in> G \<Longrightarrow> reach adj g d"
    and m: "midway adj G d t0 ys t" and adj: "adj d = ys @ xs" and c: "card (N - visited t) \<le> n"
  shows "\<exists>t'. visit_next adj n d xs t = Some t' \<and> midway adj G d t0 (adj d) t'"
  using m adj c
proof (induction xs arbitrary: ys t)
  case (Cons x xs)
  have x: "x \<in> set (adj d)" using Cons.prems(2) by simp
  have a: "adj d = (ys @ [x]) @ xs" using Cons.prems(2) by simp
  show ?case
  proof (cases "tj_info t x")
    case (Some i)
    let ?t = "if ni_on_stack i \<and> ni_index i < low_of t d then set_low d (ni_index i) t else t"
    have "card (N - visited ?t) \<le> n" using Cons.prems(3) by simp
    from Cons.IH [OF midway_seen [OF Cons.prems(1) x Some] a this] Some show ?thesis by simp
  next
    case None
    then have xn: "x \<notin> visited t" by blast
    have ok: "tarjan_ok adj (insert d G) t" using Cons.prems(1) unfolding midway_def by blast
    have xN: "x \<in> N - visited t" using xn x N(2) by blast
    have to_x: "reach adj g x" if "g \<in> insert d G" for g
    proof -
      have "reach adj g d" using that G by (cases "g = d") auto
      moreover have "(d, x) \<in> edges_of adj" using x by simp
      ultimately show ?thesis by (rule rtrancl_into_rtrancl)
    qed
    obtain t1 where t1: "visit adj n x t = Some t1" "after_visit adj (insert d G) x t t1"
      using IH [OF ok xN to_x Cons.prems(3)] by blast
    let ?t = "if low_of t1 x < low_of t1 d then set_low d (low_of t1 x) t1 else t1"
    have "visited t \<subseteq> visited t1" using t1(2) frame_visited unfolding after_visit_def by blast
    then have "card (N - visited t1) \<le> card (N - visited t)" using N(1) by (intro card_mono) auto
    then have "card (N - visited ?t) \<le> n" using Cons.prems(3) by simp
    from Cons.IH [OF midway_new [OF Cons.prems(1) x xn t1(2)] a this] None t1(1) show ?thesis by simp
  qed
qed simp

lemma visit_correct:
  assumes "finite N" and "\<And>u. set (adj u) \<subseteq> N"
  shows "tarjan_ok adj G t \<Longrightarrow> d \<in> N - visited t \<Longrightarrow> (\<And>g. g \<in> G \<Longrightarrow> reach adj g d) \<Longrightarrow> card (N - visited t) \<le> n \<Longrightarrow>
    \<exists>t'. visit adj n d t = Some t' \<and> after_visit adj G d t t'"
proof (induction n arbitrary: d t G)
  case 0
  then show ?case using assms(1) by auto
next
  case (Suc n)
  have new: "d \<notin> visited t" "d \<in> N" using Suc.prems(2) by blast+
  have m: "midway adj G d t [] (enter d t)" by (rule enter_midway [OF Suc.prems(1) new(1) Suc.prems(3)])
  have "N - visited (enter d t) \<subset> N - visited t" using new by auto
  then have "card (N - visited (enter d t)) < card (N - visited t)" using assms(1) by (intro psubset_card_mono) auto
  then have "card (N - visited (enter d t)) \<le> n" using Suc.prems(4) by simp
  from visit_loop [OF Suc.IH assms Suc.prems(3) m append_Nil [symmetric] this] obtain t' where
    t': "visit_next adj n d (adj d) (enter d t) = Some t'" "midway adj G d t (adj d) t'" by blast
  then show ?case using leave_visit [OF t'(2)] by simp
qed

lemma roots_correct:
  assumes "finite N" and "\<And>u. set (adj u) \<subseteq> N" and "set ds \<subseteq> N" and "card N \<le> n" and "tarjan_ok adj {} t"
  shows "\<exists>t'. visit_roots adj n ds t = Some t' \<and> tarjan_ok adj {} t' \<and> set ds \<union> visited t \<subseteq> visited t'"
  using assms(3,5)
proof (induction ds arbitrary: t)
  case (Cons d ds)
  show ?case
  proof (cases "tj_info t d")
    case None
    then have dN: "d \<in> N - visited t" using Cons.prems(1) by auto
    have c: "card (N - visited t) \<le> n" using assms(1,4) by (meson Diff_subset card_mono order_trans)
    obtain t1 where t1: "visit adj n d t = Some t1" "after_visit adj {} d t t1"
      using visit_correct [OF assms(1,2) Cons.prems(2) dN _ c] by blast
    then have ok: "tarjan_ok adj {} t1" "d \<in> visited t1" "visited t \<subseteq> visited t1"
      using frame_visited unfolding after_visit_def by blast+
    from Cons.IH [OF _ ok(1)] Cons.prems(1) obtain t' where "visit_roots adj n ds t1 = Some t'" "tarjan_ok adj {} t'" "set ds \<union> visited t1 \<subseteq> visited t'"
      by auto
    moreover from this have "set (d # ds) \<union> visited t \<subseteq> visited t'" unfolding list.set using ok(2,3) by blast
    ultimately show ?thesis using None t1(1) by auto
  next
    case (Some i)
    then have "d \<in> visited t" by blast
    from Cons.IH [OF _ Cons.prems(2)] Cons.prems(1) obtain t' where "visit_roots adj n ds t = Some t'" "tarjan_ok adj {} t'" "set ds \<union> visited t \<subseteq> visited t'"
      by auto
    moreover from this have "set (d # ds) \<union> visited t \<subseteq> visited t'" unfolding list.set using \<open>d \<in> visited t\<close> by blast
    ultimately show ?thesis using Some by auto
  qed
qed simp

definition tarjan_start :: tarjan where
  "tarjan_start = \<lparr>tj_info = (\<lambda>_. None), tj_stack = [], tj_next = 0, tj_found = []\<rparr>"

lemma tarjan_start_ok: "tarjan_ok adj {} tarjan_start"
  by (rule tarjan_okI) (simp_all add: tarjan_start_def)

text \<open>
  C20. The cycles of a graph over given nodes: the algorithm returns, and finds exactly the strongly
  connected components of the nodes that reach themselves, each as its ascending list, in order.
\<close>

theorem cycles_correct:
  assumes "\<forall>u. \<forall>w \<in> set (adj u). u \<in> set nodes \<and> w \<in> set nodes"
  shows "cycles nodes adj = Some (sorted_list_of_set {sorted_list_of_set (component adj u) | u. (u, u) \<in> (edges_of adj)\<^sup>+})"
proof -
  have sub: "set (adj u) \<subseteq> set nodes" for u using assms by blast
  obtain t where t: "visit_roots adj (length nodes) nodes tarjan_start = Some t" "tarjan_ok adj {} t" "set nodes \<subseteq> visited t"
    using roots_correct [where N = "set nodes" and ds = nodes and adj = adj, OF finite_set _ subset_refl card_length tarjan_start_ok] sub by blast
  note D = tarjan_okD [OF t(2)]
  have empty: "tj_stack t = []" using D(8) by (cases "tj_stack t") auto
  have on: "u \<in> visited t - set (tj_stack t) \<and> (u, u) \<in> (edges_of adj)\<^sup>+ \<longleftrightarrow> (u, u) \<in> (edges_of adj)\<^sup>+" for u
  proof -
    have "u \<in> visited t" if "(u, u) \<in> (edges_of adj)\<^sup>+" using tranclD [OF that] assms t(3) by auto
    then show ?thesis using empty by auto
  qed
  have "set (tj_found t) = {sorted_list_of_set (component adj u) | u. (u, u) \<in> (edges_of adj)\<^sup>+}"
    unfolding D(10) on ..
  moreover have "sort (tj_found t) = sorted_list_of_set (set (tj_found t))"
    using D(9) by (simp add: sorted_list_of_set_sort_remdups distinct_remdups_id)
  ultimately show ?thesis using t(1) by (simp add: cycles_def tarjan_start_def)
qed

theorem cycles_correct_witness:
  "cycles [1, 2, 3] ((\<lambda>_. [])(1 := [2], 2 := [1], 3 := [1])) = Some [[1, 2]] \<and>
    sorted_list_of_set {sorted_list_of_set (component ((\<lambda>_. [])(1 := [2], 2 := [1], 3 := [1])) u) | u.
      (u, u) \<in> (edges_of ((\<lambda>_. [])(1 := [2], 2 := [1], 3 := [1])))\<^sup>+} = [[1, 2]]"
proof -
  have a: "\<forall>u. \<forall>w \<in> set (((\<lambda>_. [])(1 := [2], 2 := [1], 3 := [1])) u). u \<in> set [1, 2, 3 :: digest] \<and> w \<in> set [1, 2, 3 :: digest]"
    by simp
  have b: "cycles [1, 2, 3] ((\<lambda>_. [])(1 := [2], 2 := [1], 3 := [1])) = Some [[1, 2]]" by code_simp
  show ?thesis using cycles_correct [OF a] unfolding b by (simp only: option.inject simp_thms)
qed

end
