(* ===== verification/Relations.thy ===== *)
theory Relations
  imports Block_Order Cycles
begin

text \<open>
  Supersession and contradiction (\<open>go/accept/supersede.go\<close>), and the declarations behind the readings
  (\<open>declaration.go\<close>). The maps keyed by edge are read by key only.
\<close>

declare sorted_list_of_set_insert_remove [simp del]

type_synonym edge = "digest \<times> digest"

record relating =
  rl_nodes :: "digest list"
  rl_edges :: "edge list"
  rl_metas :: "edge \<Rightarrow> digest list option"
  rl_by :: "edge \<Rightarrow> public_key list"

definition nothing_related :: relating where
  "nothing_related = \<lparr>rl_nodes = [], rl_edges = [], rl_metas = (\<lambda>_. None), rl_by = (\<lambda>_. [])\<rparr>"

text \<open>What both loops do for a claim over an edge: a new edge is filed, the meta-molecule and its publishers noted.\<close>

definition note_edge :: "edge \<Rightarrow> claim \<Rightarrow> relating \<Rightarrow> relating" where
  "note_edge e cl r =
    (let r1 = (if rl_metas r e = None then r\<lparr>rl_edges := rl_edges r @ [e], rl_metas := (rl_metas r)(e \<mapsto> []), rl_by := (rl_by r)(e := [])\<rparr> else r)
     in r1\<lparr>rl_metas := (rl_metas r1)(e \<mapsto> insert_ordered (the (rl_metas r1 e)) (cl_meta cl)),
           rl_by := (rl_by r1)(e := foldl insert_ordered (rl_by r1 e) (map fst (cl_prov cl)))\<rparr>)"

definition members_of :: "view \<Rightarrow> digest list \<Rightarrow> digest list" where
  "members_of v classes = foldl insert_ordered [] (concat (map (vw_members v) classes))"

definition authors_of_all :: "view \<Rightarrow> digest list \<Rightarrow> public_key list" where
  "authors_of_all v ds = foldl insert_ordered [] (concat (map (\<lambda>d. case vw_entries v d of None \<Rightarrow> []
     | Some e \<Rightarrow> map fst (subscribed_provenance (vw_subs v) e)) ds))"

section \<open>Supersession\<close>

definition supersede_claim :: "relating \<times> view \<Rightarrow> claim \<Rightarrow> relating \<times> view" where
  "supersede_claim = (\<lambda>(r, v) cl.
    if \<not> vw_has v (cl_a cl) \<or> \<not> vw_has v (cl_b cl) then (r, v)
    else
      let e = (class_at v (cl_a cl), class_at v (cl_b cl));
          r1 = r\<lparr>rl_nodes := insert_ordered (insert_ordered (rl_nodes r) (fst e)) (snd e)\<rparr>;
          v1 = (if rl_metas r1 e = None
            then v\<lparr>vw_supersedes := (vw_supersedes v)(fst e := insert_ordered (vw_supersedes v (fst e)) (snd e)),
                   vw_superseded_by := (vw_superseded_by v)(snd e := insert_ordered (vw_superseded_by v (snd e)) (fst e))\<rparr>
            else v)
      in (note_edge e cl r1,
          v1\<lparr>vw_supersession_decls := declare_claim v1 cl [cl_a cl, cl_b cl] (vw_supersession_decls v1)\<rparr>))"

text \<open>The conflict of one cycle, over the sorted edges.\<close>

definition cycle_conflict :: "view \<Rightarrow> relating \<Rightarrow> digest list \<Rightarrow> conflict" where
  "cycle_conflict v r classes =
    (let inside = filter (\<lambda>e. fst e \<in> set classes \<and> snd e \<in> set classes) (vw_edges v) in
     \<lparr>cf_kind = Supersession_cycle, cf_molecules = members_of v classes, cf_sides = [],
      cf_meta = foldl insert_ordered [] (concat (map (\<lambda>e. the (rl_metas r e)) inside)), cf_blocks = [],
      cf_declarers = foldl insert_ordered [] (concat (map (rl_by r) inside))\<rparr>)"

definition apply_supersession :: "view \<Rightarrow> claims \<Rightarrow> view option" where
  "apply_supersession v c =
    (case foldl supersede_claim (nothing_related, v) (cs_supersessions c) of (r, v1) \<Rightarrow>
       let v2 = v1\<lparr>vw_edges := sort (vw_edges v1 @ rl_edges r)\<rparr> in
       map_option (\<lambda>found. v2\<lparr>vw_conflicts := vw_conflicts v2 @ map (cycle_conflict v2 r) found\<rparr>)
         (cycles (rl_nodes r) (vw_supersedes v2)))"

section \<open>Contradiction\<close>

text \<open>The pair in its canonical direction.\<close>

definition canonical :: "edge \<Rightarrow> edge" where
  "canonical e = (if snd e < fst e then (snd e, fst e) else e)"

definition contradict_claim :: "relating \<times> view \<Rightarrow> claim \<Rightarrow> relating \<times> view" where
  "contradict_claim = (\<lambda>(r, v) cl.
    if \<not> vw_has v (cl_a cl) \<or> \<not> vw_has v (cl_b cl) then (r, v)
    else
      let e = canonical (class_at v (cl_a cl), class_at v (cl_b cl));
          v1 = (if rl_metas r e \<noteq> None then v
            else if fst e \<noteq> snd e then
              let k1 = (vw_contradicts v)(fst e := insert_ordered (vw_contradicts v (fst e)) (snd e))
              in v\<lparr>vw_contradicts := k1(snd e := insert_ordered (k1 (snd e)) (fst e))\<rparr>
            else v\<lparr>vw_contradicts := (vw_contradicts v)(fst e := insert_ordered (vw_contradicts v (fst e)) (fst e))\<rparr>)
      in (note_edge e cl r,
          v1\<lparr>vw_contradiction_decls := declare_claim v1 cl [cl_a cl, cl_b cl] (vw_contradiction_decls v1)\<rparr>))"

definition contradiction_conflict :: "view \<Rightarrow> relating \<Rightarrow> edge \<Rightarrow> conflict" where
  "contradiction_conflict v r e =
    (let classes = (if fst e \<noteq> snd e then [fst e, snd e] else [fst e]) in
     \<lparr>cf_kind = Contradiction, cf_molecules = members_of v classes,
      cf_sides = map (\<lambda>c. \<lparr>sd_stance = [], sd_molecules = vw_members v c, sd_authors = authors_of_all v (vw_members v c)\<rparr>) classes,
      cf_meta = the (rl_metas r e), cf_blocks = [], cf_declarers = rl_by r e\<rparr>)"

definition apply_contradictions :: "view \<Rightarrow> claims \<Rightarrow> view" where
  "apply_contradictions v c =
    (case foldl contradict_claim (nothing_related, v) (cs_contradictions c) of (r, v1) \<Rightarrow>
       v1\<lparr>vw_conflicts := vw_conflicts v1 @ map (contradiction_conflict v1 r) (sort (rl_edges r))\<rparr>)"

section \<open>What is noted of the edges\<close>

lemma note_edges:
  "foldl (\<lambda>r (e, cl). note_edge e cl r) nothing_related ps =
    \<lparr>rl_nodes = [], rl_edges = rl_edges (foldl (\<lambda>r (e, cl). note_edge e cl r) nothing_related ps),
     rl_metas = (\<lambda>e. if e \<in> fst ` set ps then Some (sorted_list_of_set {cl_meta cl | cl. (e, cl) \<in> set ps}) else None),
     rl_by = (\<lambda>e. sorted_list_of_set {a | a cl. (e, cl) \<in> set ps \<and> a \<in> fst ` set (cl_prov cl)})\<rparr> \<and>
   distinct (rl_edges (foldl (\<lambda>r (e, cl). note_edge e cl r) nothing_related ps)) \<and>
   set (rl_edges (foldl (\<lambda>r (e, cl). note_edge e cl r) nothing_related ps)) = fst ` set ps"
proof (induction ps rule: rev_induct)
  case Nil
  then show ?case by (simp add: nothing_related_def)
next
  case (snoc x ps)
  obtain e cl where x: "x = (e, cl)" by (cases x)
  let ?r = "foldl (\<lambda>r (e, cl). note_edge e cl r) nothing_related ps"
  note IH = snoc.IH
  define E where "E = rl_edges ?r"
  have r: "?r = \<lparr>rl_nodes = [], rl_edges = E,
     rl_metas = (\<lambda>e. if e \<in> fst ` set ps then Some (sorted_list_of_set {cl_meta cl | cl. (e, cl) \<in> set ps}) else None),
     rl_by = (\<lambda>e. sorted_list_of_set {a | a cl. (e, cl) \<in> set ps \<and> a \<in> fst ` set (cl_prov cl)})\<rparr>"
    and E: "distinct E" "set E = fst ` set ps" using IH unfolding E_def by blast+
  have fin: "finite A" for A :: "digest set" by simp
  have metas: "{cl_meta c | c. (e', c) \<in> set (ps @ [x])} =
      (if e' = e then insert (cl_meta cl) {cl_meta c | c. (e, c) \<in> set ps} else {cl_meta c | c. (e', c) \<in> set ps})" for e'
    by (auto simp: x)
  have bys: "{a | a c. (e', c) \<in> set (ps @ [x]) \<and> a \<in> fst ` set (cl_prov c)} =
      (if e' = e then {a | a c. (e, c) \<in> set ps \<and> a \<in> fst ` set (cl_prov c)} \<union> fst ` set (cl_prov cl)
       else {a | a c. (e', c) \<in> set ps \<and> a \<in> fst ` set (cl_prov c)})" for e'
    by (auto simp: x)
  show ?case
  proof (cases "e \<in> fst ` set ps")
    case True
    have "note_edge e cl ?r = \<lparr>rl_nodes = [], rl_edges = E,
     rl_metas = (\<lambda>e. if e \<in> fst ` set (ps @ [x]) then Some (sorted_list_of_set {cl_meta cl | cl. (e, cl) \<in> set (ps @ [x])}) else None),
     rl_by = (\<lambda>e. sorted_list_of_set {a | a cl. (e, cl) \<in> set (ps @ [x]) \<and> a \<in> fst ` set (cl_prov cl)})\<rparr>"
      unfolding r metas bys using True fin
      by (simp add: note_edge_def Let_def fun_eq_iff insert_ordered_fold x)
    then show ?thesis using E True by (auto simp: x)
  next
    case False
    have none: "{cl_meta c | c. (e, c) \<in> set ps} = {}" "{a | a c. (e, c) \<in> set ps \<and> a \<in> fst ` set (cl_prov c)} = {}"
      using False by force+
    have "note_edge e cl ?r = \<lparr>rl_nodes = [], rl_edges = E @ [e],
     rl_metas = (\<lambda>e. if e \<in> fst ` set (ps @ [x]) then Some (sorted_list_of_set {cl_meta cl | cl. (e, cl) \<in> set (ps @ [x])}) else None),
     rl_by = (\<lambda>e. sorted_list_of_set {a | a cl. (e, cl) \<in> set (ps @ [x]) \<and> a \<in> fst ` set (cl_prov cl)})\<rparr>"
      unfolding r metas bys using False none insert_ordered_all [of "[cl_meta cl]"] insert_ordered_all [of "map fst (cl_prov cl)"]
      by (simp add: note_edge_def Let_def fun_eq_iff x del: insert_ordered_all)
    then show ?thesis using E False by (auto simp: x)
  qed
qed

section \<open>The declarations filed\<close>

definition decl_of :: "claim \<Rightarrow> decl" where
  "decl_of cl = \<lparr>dc_meta = cl_meta cl, dc_template = cl_template cl, dc_a = cl_a cl, dc_b = cl_b cl, dc_backing = cl_backing cl\<rparr>"

text \<open>A claim is filed under the class of each end the view holds.\<close>

definition touches :: "view \<Rightarrow> digest \<Rightarrow> claim \<Rightarrow> bool" where
  "touches v c cl \<longleftrightarrow> vw_has v (cl_a cl) \<and> class_at v (cl_a cl) = c \<or> vw_has v (cl_b cl) \<and> class_at v (cl_b cl) = c"

lemma declare_claim_result:
  "declare_claim v cl [cl_a cl, cl_b cl] index =
    (\<lambda>c. if touches v c cl then insort_key (\<lambda>y. (dc_meta y, dc_a y, dc_b y)) (decl_of cl) (index c) else index c)"
proof -
  have one: "insert_ordered [] d = [d]" for d :: digest using insert_ordered_all [of "[d]"] by simp
  show ?thesis unfolding declare_claim_def decl_of_def [symmetric]
    by (auto simp: declare_at_def touches_def fun_eq_iff Let_def one)
qed

lemma declarations_filed:
  "set (foldl (\<lambda>index cl. declare_claim v cl [cl_a cl, cl_b cl] index) index cls c) = set (index c) \<union> decl_of ` {cl \<in> set cls. touches v c cl}"
  by (induction cls arbitrary: index) (auto simp: declare_claim_result set_insort_key)

lemma declarations_sorted:
  assumes "sorted (map (\<lambda>y. (dc_meta y, dc_a y, dc_b y)) (index c))"
  shows "sorted (map (\<lambda>y. (dc_meta y, dc_a y, dc_b y)) (foldl (\<lambda>index cl. declare_claim v cl [cl_a cl, cl_b cl] index) index cls c))"
  using assms by (induction cls arbitrary: index) (auto simp: declare_claim_result sorted_insort_key)

section \<open>The edges of the claims\<close>

definition both_held :: "view \<Rightarrow> claim \<Rightarrow> bool" where
  "both_held v cl \<longleftrightarrow> vw_has v (cl_a cl) \<and> vw_has v (cl_b cl)"

definition edge_at :: "view \<Rightarrow> claim \<Rightarrow> edge" where
  "edge_at v cl = (class_at v (cl_a cl), class_at v (cl_b cl))"

definition related :: "(edge \<Rightarrow> edge) \<Rightarrow> view \<Rightarrow> claim list \<Rightarrow> (edge \<times> claim) list" where
  "related f v cls = map (\<lambda>cl. (f (edge_at v cl), cl)) (filter (both_held v) cls)"

abbreviation (input) noted :: "(edge \<times> claim) list \<Rightarrow> relating" where
  "noted ps \<equiv> foldl (\<lambda>r (e, cl). note_edge e cl r) nothing_related ps"

lemmas noted_edges = note_edges [THEN conjunct2, THEN conjunct1] note_edges [THEN conjunct2, THEN conjunct2]

lemma noted_fields:
  "rl_nodes (noted ps) = []"
  "rl_metas (noted ps) e = (if e \<in> fst ` set ps then Some (sorted_list_of_set {cl_meta cl | cl. (e, cl) \<in> set ps}) else None)"
  "rl_by (noted ps) e = sorted_list_of_set {a | a cl. (e, cl) \<in> set ps \<and> a \<in> fst ` set (cl_prov cl)}"
  by (subst note_edges [THEN conjunct1], simp)+

lemma note_edge_nodes: "note_edge e cl (r\<lparr>rl_nodes := n\<rparr>) = (note_edge e cl r)\<lparr>rl_nodes := n\<rparr>"
  by (simp add: note_edge_def Let_def)

lemma held_update [simp]:
  "vw_has (v\<lparr>vw_supersedes := f\<rparr>) d = vw_has v d" "vw_has (v\<lparr>vw_superseded_by := f\<rparr>) d = vw_has v d"
  "vw_has (v\<lparr>vw_supersession_decls := g\<rparr>) d = vw_has v d" "vw_has (v\<lparr>vw_contradicts := f\<rparr>) d = vw_has v d"
  "vw_has (v\<lparr>vw_contradiction_decls := g\<rparr>) d = vw_has v d"
  "class_at (v\<lparr>vw_supersedes := f\<rparr>) d = class_at v d" "class_at (v\<lparr>vw_superseded_by := f\<rparr>) d = class_at v d"
  "class_at (v\<lparr>vw_supersession_decls := g\<rparr>) d = class_at v d" "class_at (v\<lparr>vw_contradicts := f\<rparr>) d = class_at v d"
  "class_at (v\<lparr>vw_contradiction_decls := g\<rparr>) d = class_at v d"
  by (simp_all add: vw_has_def class_at_def)

lemma declare_claim_view [simp]:
  "declare_claim (v\<lparr>vw_supersedes := f\<rparr>) cl ends = declare_claim v cl ends" "declare_claim (v\<lparr>vw_superseded_by := f\<rparr>) cl ends = declare_claim v cl ends"
  "declare_claim (v\<lparr>vw_supersession_decls := g\<rparr>) cl ends = declare_claim v cl ends"
  "declare_claim (v\<lparr>vw_contradicts := f\<rparr>) cl ends = declare_claim v cl ends"
  "declare_claim (v\<lparr>vw_contradiction_decls := g\<rparr>) cl ends = declare_claim v cl ends"
  unfolding declare_claim_def declare_at_def held_update by simp_all

section \<open>Supersession\<close>

definition successors_in :: "edge set \<Rightarrow> digest \<Rightarrow> digest list" where
  "successors_in E x = sorted_list_of_set {y. (x, y) \<in> E}"

lemma successors_in_insert: "(successors_in E)(x := insert_ordered (successors_in E x) y) = successors_in (insert (x, y) E)"
proof
  fix z
  have "{w. (x, w) \<in> insert (x, y) E} = insert y {w. (x, w) \<in> E}" by auto
  then show "((successors_in E)(x := insert_ordered (successors_in E x) y)) z = successors_in (insert (x, y) E) z"
    by (simp add: successors_in_def)
qed

lemma successors_in_empty: "successors_in {} = (\<lambda>_. [])"
  by (simp add: successors_in_def fun_eq_iff)

definition swapped :: "edge set \<Rightarrow> edge set" where
  "swapped E = E\<inverse>"

lemma supersede_fold:
  fixes cls v
  assumes "vw_supersedes v = (\<lambda>_. [])" and "vw_superseded_by v = (\<lambda>_. [])"
  shows "foldl supersede_claim (nothing_related, v) cls =
    ((noted (related (\<lambda>e. e) v cls))\<lparr>rl_nodes := sorted_list_of_set (fst ` (fst ` set (related (\<lambda>e. e) v cls)) \<union> snd ` (fst ` set (related (\<lambda>e. e) v cls)))\<rparr>,
     v\<lparr>vw_supersedes := successors_in (fst ` set (related (\<lambda>e. e) v cls)), vw_superseded_by := successors_in ((fst ` set (related (\<lambda>e. e) v cls))\<inverse>),
       vw_supersession_decls := foldl (\<lambda>index cl. declare_claim v cl [cl_a cl, cl_b cl] index) (vw_supersession_decls v) (filter (both_held v) cls)\<rparr>)"
proof (induction cls rule: rev_induct)
  case Nil
  have "v\<lparr>vw_supersedes := (\<lambda>_. []), vw_superseded_by := (\<lambda>_. []), vw_supersession_decls := vw_supersession_decls v\<rparr> = v"
    using assms by (cases v) simp
  then show ?case by (simp add: related_def successors_in_empty nothing_related_def)
next
  case (snoc cl cls)
  define ps where "ps = related (\<lambda>e. e) v cls"
  define E where "E = fst ` set ps"
  let ?e = "edge_at v cl"
  let ?D = "foldl (\<lambda>index cl. declare_claim v cl [cl_a cl, cl_b cl] index) (vw_supersession_decls v) (filter (both_held v) cls)"
  let ?v = "v\<lparr>vw_supersedes := successors_in E, vw_superseded_by := successors_in (E\<inverse>), vw_supersession_decls := ?D\<rparr>"
  let ?r = "(noted ps)\<lparr>rl_nodes := sorted_list_of_set (fst ` E \<union> snd ` E)\<rparr>"
  have IH: "foldl supersede_claim (nothing_related, v) cls = (?r, ?v)" using snoc.IH unfolding ps_def E_def .
  show ?case
  proof (cases "both_held v cl")
    case False
    then have "supersede_claim (?r, ?v) cl = (?r, ?v)" by (auto simp: supersede_claim_def both_held_def)
    moreover have "related (\<lambda>e. e) v (cls @ [cl]) = ps" using False by (simp add: related_def ps_def)
    ultimately show ?thesis using IH False by (simp add: E_def)
  next
    case True
    then have ps': "related (\<lambda>e. e) v (cls @ [cl]) = ps @ [(?e, cl)]" by (simp add: related_def ps_def)
    have fin: "finite E" by (simp add: E_def)
    have conv: "(insert ?e E)\<inverse> = insert (snd ?e, fst ?e) (E\<inverse>)" by (cases ?e) auto
    have known: "rl_metas (?r\<lparr>rl_nodes := n\<rparr>) ?e = None \<longleftrightarrow> ?e \<notin> E" for n by (simp add: noted_fields E_def)
    have up: "(if ?e \<notin> E then ?v\<lparr>vw_supersedes := (vw_supersedes ?v)(fst ?e := insert_ordered (vw_supersedes ?v (fst ?e)) (snd ?e)),
                   vw_superseded_by := (vw_superseded_by ?v)(snd ?e := insert_ordered (vw_superseded_by ?v (snd ?e)) (fst ?e))\<rparr> else ?v) =
        ?v\<lparr>vw_supersedes := successors_in (insert ?e E), vw_superseded_by := successors_in ((insert ?e E)\<inverse>)\<rparr>"
    proof (cases "?e \<in> E")
      case True
      then have "insert ?e E = E" by blast
      then show ?thesis using True by simp
    next
      case False
      then show ?thesis unfolding conv by (simp add: successors_in_insert)
    qed
    have nodes: "insert_ordered (insert_ordered (rl_nodes ?r) (fst ?e)) (snd ?e) =
        sorted_list_of_set (fst ` insert ?e E \<union> snd ` insert ?e E)"
      using fin by (simp add: insert_commute)
    have e: "(class_at ?v (cl_a cl), class_at ?v (cl_b cl)) = ?e" by (simp add: edge_at_def)
    have "supersede_claim (?r, ?v) cl =
        (let r1 = ?r\<lparr>rl_nodes := insert_ordered (insert_ordered (rl_nodes ?r) (fst ?e)) (snd ?e)\<rparr>;
          v1 = (if rl_metas r1 ?e = None
            then ?v\<lparr>vw_supersedes := (vw_supersedes ?v)(fst ?e := insert_ordered (vw_supersedes ?v (fst ?e)) (snd ?e)),
                   vw_superseded_by := (vw_superseded_by ?v)(snd ?e := insert_ordered (vw_superseded_by ?v (snd ?e)) (fst ?e))\<rparr>
            else ?v)
      in (note_edge ?e cl r1,
          v1\<lparr>vw_supersession_decls := declare_claim v1 cl [cl_a cl, cl_b cl] (vw_supersession_decls v1)\<rparr>))"
      using True unfolding supersede_claim_def prod.case e Let_def by (simp add: both_held_def)
    also have "\<dots> = ((note_edge ?e cl (noted ps))\<lparr>rl_nodes := sorted_list_of_set (fst ` insert ?e E \<union> snd ` insert ?e E)\<rparr>,
        v\<lparr>vw_supersedes := successors_in (insert ?e E), vw_superseded_by := successors_in ((insert ?e E)\<inverse>),
          vw_supersession_decls := declare_claim v cl [cl_a cl, cl_b cl] ?D\<rparr>)"
      unfolding Let_def known up nodes by (simp add: note_edge_nodes)
    finally have s: "supersede_claim (?r, ?v) cl = \<dots>" .
    show ?thesis using IH s ps' True by (simp add: E_def)
  qed
qed

definition declared_edges :: "(edge \<Rightarrow> edge) \<Rightarrow> view \<Rightarrow> claim list \<Rightarrow> edge set" where
  "declared_edges f v cls = f ` edge_at v ` {cl \<in> set cls. both_held v cl}"

definition declaring :: "(edge \<Rightarrow> edge) \<Rightarrow> view \<Rightarrow> claim list \<Rightarrow> edge set \<Rightarrow> claim set" where
  "declaring f v cls F = {cl \<in> set cls. both_held v cl \<and> f (edge_at v cl) \<in> F}"

definition publishers_of :: "claim set \<Rightarrow> public_key set" where
  "publishers_of C = (\<Union>cl \<in> C. fst ` set (cl_prov cl))"

definition members_in :: "view \<Rightarrow> digest set \<Rightarrow> digest list" where
  "members_in v C = sorted_list_of_set (\<Union>c \<in> C. set (vw_members v c))"

lemma members_of_eq: "members_of v classes = members_in v (set classes)"
  by (simp add: members_of_def members_in_def)

lemma related_edges: "fst ` set (related f v cls) = declared_edges f v cls"
  by (auto simp: related_def declared_edges_def image_iff)

lemma declared_edges_finite [simp]: "finite (declared_edges f v cls)"
  by (simp add: declared_edges_def)

lemma noted_of:
  "rl_metas (noted (related f v cls)) e = (if e \<in> declared_edges f v cls then Some (sorted_list_of_set (cl_meta ` declaring f v cls {e})) else None)"
  "rl_by (noted (related f v cls)) e = sorted_list_of_set (publishers_of (declaring f v cls {e}))"
proof -
  have "{cl_meta cl | cl. (e, cl) \<in> set (related f v cls)} = cl_meta ` declaring f v cls {e}"
    by (auto simp: related_def declaring_def)
  then show "rl_metas (noted (related f v cls)) e = (if e \<in> declared_edges f v cls then Some (sorted_list_of_set (cl_meta ` declaring f v cls {e})) else None)"
    by (simp only: noted_fields related_edges)
  have "{a | a cl. (e, cl) \<in> set (related f v cls) \<and> a \<in> fst ` set (cl_prov cl)} = publishers_of (declaring f v cls {e})"
    by (auto simp: related_def declaring_def publishers_of_def)
  then show "rl_by (noted (related f v cls)) e = sorted_list_of_set (publishers_of (declaring f v cls {e}))"
    by (simp only: noted_fields)
qed

lemma noted_sorted: "sort (rl_edges (noted (related f v cls))) = sorted_list_of_set (declared_edges f v cls)"
  using noted_edges [of "related f v cls"] related_edges [of f v cls]
  by (metis distinct_remdups_id sorted_list_of_set_sort_remdups)

lemma declaring_finite [simp]: "finite (declaring f v cls F)"
  by (rule finite_subset [of _ "set cls"]) (auto simp: declaring_def)

lemma publishers_finite [simp]: "finite C \<Longrightarrow> finite (publishers_of C)"
  by (simp add: publishers_of_def)

text \<open>Over several edges at once.\<close>

lemma union_sorted: "finite F \<Longrightarrow> (\<And>e. finite (A e)) \<Longrightarrow>
    foldl insert_ordered [] (concat (map (\<lambda>e. sorted_list_of_set (A e)) (sorted_list_of_set F))) = sorted_list_of_set (\<Union>e \<in> F. A e)"
  for A :: "'e::linorder \<Rightarrow> 'a::linorder set"
  by (simp add: insert_ordered_all)

section \<open>What is recorded of the supersessions\<close>

definition cycle_report :: "view \<Rightarrow> claim list \<Rightarrow> digest list \<Rightarrow> conflict" where
  "cycle_report v cls classes = \<lparr>cf_kind = Supersession_cycle, cf_molecules = members_in v (set classes), cf_sides = [],
    cf_meta = sorted_list_of_set (cl_meta ` declaring (\<lambda>e. e) v cls (set classes \<times> set classes)), cf_blocks = [],
    cf_declarers = sorted_list_of_set (publishers_of (declaring (\<lambda>e. e) v cls (set classes \<times> set classes)))\<rparr>"

lemma cycle_conflict_report:
  assumes "vw_edges w = sorted_list_of_set (declared_edges (\<lambda>e. e) v cls)" and "vw_members w = vw_members v"
  shows "cycle_conflict w ((noted (related (\<lambda>e. e) v cls))\<lparr>rl_nodes := n\<rparr>) classes = cycle_report v cls classes"
proof -
  let ?E = "declared_edges (\<lambda>e. e) v cls" and ?F = "set classes \<times> set classes"
  let ?in = "filter (\<lambda>e. fst e \<in> set classes \<and> snd e \<in> set classes) (vw_edges w)"
  have i: "?in = sorted_list_of_set (?E \<inter> ?F)"
    unfolding assms(1) by (rule strict_sorted_equal) (auto simp: sorted_wrt_filter mem_Times_iff)
  have m: "map (\<lambda>e. the (rl_metas ((noted (related (\<lambda>e. e) v cls))\<lparr>rl_nodes := n\<rparr>) e)) ?in =
      map (\<lambda>e. sorted_list_of_set (cl_meta ` declaring (\<lambda>e. e) v cls {e})) ?in"
    by (rule map_cong) (auto simp: assms(1) noted_of)
  have U: "(\<Union>e \<in> ?E \<inter> ?F. g (declaring (\<lambda>e. e) v cls {e})) = g (declaring (\<lambda>e. e) v cls ?F)" if "\<And>A. g (\<Union>e \<in> ?E \<inter> ?F. A e) = (\<Union>e \<in> ?E \<inter> ?F. g (A e))" for g :: "claim set \<Rightarrow> 'x set"
  proof -
    have "(\<Union>e \<in> ?E \<inter> ?F. declaring (\<lambda>e. e) v cls {e}) = declaring (\<lambda>e. e) v cls ?F"
      by (auto simp: declaring_def declared_edges_def mem_Times_iff) (metis fst_conv, metis snd_conv)
    then show ?thesis using that [of "\<lambda>e. declaring (\<lambda>e. e) v cls {e}"] by (simp only:)
  qed
  have "foldl insert_ordered [] (concat (map (\<lambda>e. the (rl_metas ((noted (related (\<lambda>e. e) v cls))\<lparr>rl_nodes := n\<rparr>) e)) ?in)) =
      sorted_list_of_set (\<Union>e \<in> ?E \<inter> ?F. cl_meta ` declaring (\<lambda>e. e) v cls {e})"
    unfolding m unfolding i by (rule union_sorted) simp_all
  also have "(\<Union>e \<in> ?E \<inter> ?F. cl_meta ` declaring (\<lambda>e. e) v cls {e}) = cl_meta ` declaring (\<lambda>e. e) v cls ?F"
    by (rule U) auto
  finally have metas: "foldl insert_ordered [] (concat (map (\<lambda>e. the (rl_metas ((noted (related (\<lambda>e. e) v cls))\<lparr>rl_nodes := n\<rparr>) e)) ?in)) = 
      sorted_list_of_set (cl_meta ` declaring (\<lambda>e. e) v cls ?F)" .
  have "foldl insert_ordered [] (concat (map (rl_by ((noted (related (\<lambda>e. e) v cls))\<lparr>rl_nodes := n\<rparr>)) ?in)) =
      sorted_list_of_set (\<Union>e \<in> ?E \<inter> ?F. publishers_of (declaring (\<lambda>e. e) v cls {e}))"
    unfolding i using union_sorted [of "?E \<inter> ?F" "\<lambda>e. publishers_of (declaring (\<lambda>e. e) v cls {e})"]
    by (simp add: noted_of)
  also have "(\<Union>e \<in> ?E \<inter> ?F. publishers_of (declaring (\<lambda>e. e) v cls {e})) = publishers_of (declaring (\<lambda>e. e) v cls ?F)"
    by (rule U) (auto simp: publishers_of_def)
  finally have bys: "foldl insert_ordered [] (concat (map (rl_by ((noted (related (\<lambda>e. e) v cls))\<lparr>rl_nodes := n\<rparr>)) ?in)) = 
      sorted_list_of_set (publishers_of (declaring (\<lambda>e. e) v cls ?F))" .
  show ?thesis
    unfolding cycle_conflict_def Let_def metas bys cycle_report_def members_of_eq members_in_def assms(2) ..
qed

lemma edges_of_successors: "finite E \<Longrightarrow> edges_of (successors_in E) = E"
  by (auto simp: edges_of_def successors_in_def)

lemma supersession_result:
  assumes "vw_supersedes v = (\<lambda>_. [])" and "vw_superseded_by v = (\<lambda>_. [])" and "vw_edges v = []"
  shows "\<exists>D. apply_supersession v c = Some (v\<lparr>
      vw_supersedes := successors_in (declared_edges (\<lambda>e. e) v (cs_supersessions c)),
      vw_superseded_by := successors_in ((declared_edges (\<lambda>e. e) v (cs_supersessions c))\<inverse>),
      vw_edges := sorted_list_of_set (declared_edges (\<lambda>e. e) v (cs_supersessions c)),
      vw_supersession_decls := D,
      vw_conflicts := vw_conflicts v @ map (cycle_report v (cs_supersessions c))
        (sorted_list_of_set {sorted_list_of_set (component (successors_in (declared_edges (\<lambda>e. e) v (cs_supersessions c))) u) | u.
          (u, u) \<in> (declared_edges (\<lambda>e. e) v (cs_supersessions c))\<^sup>+})\<rparr>) \<and>
    (\<forall>x. set (D x) = set (vw_supersession_decls v x) \<union> decl_of ` {cl \<in> set (cs_supersessions c). both_held v cl \<and> touches v x cl})"
proof -
  let ?cls = "cs_supersessions c"
  define E where "E = declared_edges (\<lambda>e. e) v ?cls"
  define D where "D = foldl (\<lambda>index cl. declare_claim v cl [cl_a cl, cl_b cl] index) (vw_supersession_decls v) (filter (both_held v) ?cls)"
  define r where "r = (noted (related (\<lambda>e. e) v ?cls))\<lparr>rl_nodes := sorted_list_of_set (fst ` E \<union> snd ` E)\<rparr>"
  define w where "w = v\<lparr>vw_supersedes := successors_in E, vw_superseded_by := successors_in (E\<inverse>), vw_supersession_decls := D\<rparr>"
  have fold: "foldl supersede_claim (nothing_related, v) ?cls = (r, w)"
    using supersede_fold [OF assms(1,2), of ?cls] unfolding related_edges r_def w_def D_def E_def .
  have fin: "finite E" by (simp add: E_def)
  have edges: "sort (vw_edges w @ rl_edges r) = sorted_list_of_set E"
    using noted_sorted [of "\<lambda>e. e" v ?cls] assms(3) by (simp add: w_def r_def E_def)
  let ?w = "w\<lparr>vw_edges := sorted_list_of_set E\<rparr>"
  have adj: "vw_supersedes ?w = successors_in E" by (simp add: w_def)
  have "\<forall>u. \<forall>x \<in> set (successors_in E u). u \<in> set (rl_nodes r) \<and> x \<in> set (rl_nodes r)"
    using fin by (force simp: successors_in_def r_def)
  from cycles_correct [OF this] have cy: "cycles (rl_nodes r) (vw_supersedes ?w) =
      Some (sorted_list_of_set {sorted_list_of_set (component (successors_in E) u) | u. (u, u) \<in> E\<^sup>+})"
    unfolding adj edges_of_successors [OF fin] .
  have rep: "cycle_conflict ?w r = cycle_report v ?cls"
    unfolding r_def by (rule ext, rule cycle_conflict_report) (simp_all add: w_def E_def)
  have "apply_supersession v c = Some (?w\<lparr>vw_conflicts := vw_conflicts ?w @ map (cycle_report v ?cls)
      (sorted_list_of_set {sorted_list_of_set (component (successors_in E) u) | u. (u, u) \<in> E\<^sup>+})\<rparr>)"
    unfolding apply_supersession_def fold prod.case edges Let_def cy rep by simp
  then have "apply_supersession v c = Some (v\<lparr>vw_supersedes := successors_in E, vw_superseded_by := successors_in (E\<inverse>),
      vw_edges := sorted_list_of_set E, vw_supersession_decls := D,
      vw_conflicts := vw_conflicts v @ map (cycle_report v ?cls)
        (sorted_list_of_set {sorted_list_of_set (component (successors_in E) u) | u. (u, u) \<in> E\<^sup>+})\<rparr>)"
    by (simp add: w_def)
  moreover have "set (D x) = set (vw_supersession_decls v x) \<union> decl_of ` {cl \<in> set ?cls. both_held v cl \<and> touches v x cl}" for x
    unfolding D_def declarations_filed by auto
  ultimately show ?thesis unfolding E_def by blast
qed

text \<open>
  Supersession. Between the classes of the claims both of whose molecules the view holds, the
  relation is recorded in both directions and as the sorted list of its edges, every such claim is
  filed under the classes it touches, and one conflict is reported per cycle: per strongly connected
  component of classes that reach themselves, with the claims over edges inside it.
\<close>

theorem supersession_correct:
  assumes "vw_supersedes v = (\<lambda>_. [])" and "vw_superseded_by v = (\<lambda>_. [])" and "vw_edges v = []"
  shows "\<exists>D. apply_supersession v c = Some (v\<lparr>
      vw_supersedes := successors_in (declared_edges (\<lambda>e. e) v (cs_supersessions c)),
      vw_superseded_by := successors_in ((declared_edges (\<lambda>e. e) v (cs_supersessions c))\<inverse>),
      vw_edges := sorted_list_of_set (declared_edges (\<lambda>e. e) v (cs_supersessions c)),
      vw_supersession_decls := D,
      vw_conflicts := vw_conflicts v @ map (cycle_report v (cs_supersessions c))
        (sorted_list_of_set {sorted_list_of_set (component (successors_in (declared_edges (\<lambda>e. e) v (cs_supersessions c))) u) | u.
          (u, u) \<in> (declared_edges (\<lambda>e. e) v (cs_supersessions c))\<^sup>+})\<rparr>) \<and>
    (\<forall>x. set (D x) = set (vw_supersession_decls v x) \<union> decl_of ` {cl \<in> set (cs_supersessions c). both_held v cl \<and> touches v x cl})"
  using assms by (rule supersession_result)

text \<open>Two molecules that supersede each other are reported as a cycle.\<close>

theorem supersession_correct_witness:
  "\<exists>v c v'. apply_supersession v c = Some v' \<and> vw_edges v' = [(1, 2), (2, 1)] \<and> vw_supersedes v' 1 = [2] \<and> vw_superseded_by v' 1 = [2] \<and>
    (\<exists>k. vw_conflicts v' = [k] \<and> cf_kind k = Supersession_cycle \<and> cf_molecules k = [1, 2])"
proof -
  let ?cl = "\<lparr>cl_meta = 5, cl_template = template_supersession, cl_a = 1, cl_b = 2, cl_typ = filler_molecule, cl_stance = Unasserted,
    cl_prov = [], cl_backing = []\<rparr>"
  let ?cl' = "?cl\<lparr>cl_meta := 6, cl_a := 2, cl_b := 1\<rparr>"
  define c where "c = no_claims\<lparr>cs_supersessions := [?cl, ?cl']\<rparr>"
  have c: "cs_supersessions c = [?cl, ?cl']" by (simp add: c_def)
  define v where "v = (empty_view (subs_snapshot None))\<lparr>vw_entries := [1 \<mapsto> undefined, 2 \<mapsto> undefined],
    vw_class := [1 \<mapsto> 1, 2 \<mapsto> 2], vw_members := (\<lambda>_. [])(1 := [1], 2 := [2])\<rparr>"
  have v: "vw_supersedes v = (\<lambda>_. [])" "vw_superseded_by v = (\<lambda>_. [])" "vw_edges v = []" "vw_conflicts v = []"
    "vw_has v 1" "vw_has v 2" "class_at v 1 = 1" "class_at v 2 = 2" "vw_members v 1 = [1]" "vw_members v 2 = [2]"
    by (simp_all add: v_def empty_view_def vw_has_def class_at_def)
  have E: "declared_edges (\<lambda>e. e) v (cs_supersessions c) = {(1, 2), (2, 1)}"
  proof -
    have "{cl \<in> set [?cl, ?cl']. both_held v cl} = {?cl, ?cl'}" using v by (auto simp: both_held_def)
    then show ?thesis unfolding declared_edges_def c using v by (simp add: edge_at_def)
  qed
  let ?E = "{(1, 2), (2, 1)} :: edge set"
  have e: "edges_of (successors_in ?E) = ?E" by (rule edges_of_successors) simp
  have comp: "component (successors_in ?E) u = {1, 2}" if "u \<in> {1, 2}" for u
  proof
    have "reach (successors_in ?E) x y" if "x \<in> {1, 2}" "y \<in> {1, 2}" for x y
      unfolding e using that by auto
    then show "{1, 2} \<subseteq> component (successors_in ?E) u" using \<open>u \<in> {1, 2}\<close> unfolding component_def by blast
    have "set (successors_in ?E x) \<subseteq> {1, 2}" for x by (auto simp: successors_in_def)
    then show "component (successors_in ?E) u \<subseteq> {1, 2}"
      using \<open>u \<in> {1, 2}\<close> closed_reach [of u _ "successors_in ?E" "{1, 2}"] unfolding component_def by blast
  qed
  have on: "(u, u) \<in> ?E\<^sup>+ \<longleftrightarrow> u \<in> {1, 2}" for u
  proof
    assume "(u, u) \<in> ?E\<^sup>+"
    then show "u \<in> {1, 2}" by (auto dest: tranclD)
  next
    have "(1, 2) \<in> ?E" "(2, 1) \<in> ?E" by auto
    then have "(1, 1) \<in> ?E\<^sup>+" "(2, 2) \<in> ?E\<^sup>+" by (blast intro: trancl_into_trancl r_into_trancl)+
    moreover assume "u \<in> {1, 2}"
    ultimately show "(u, u) \<in> ?E\<^sup>+" by auto
  qed
  have "{sorted_list_of_set (component (successors_in ?E) u) | u. (u, u) \<in> ?E\<^sup>+} = {sorted_list_of_set {1, 2 :: digest}}"
  proof -
    have "{sorted_list_of_set (component (successors_in ?E) u) | u. (u, u) \<in> ?E\<^sup>+} = (\<lambda>u. sorted_list_of_set (component (successors_in ?E) u)) ` {1, 2 :: digest}"
      unfolding on by blast
    also have "\<dots> = (\<lambda>_. sorted_list_of_set {1, 2 :: digest}) ` {1, 2 :: digest}" by (rule image_cong [OF refl]) (simp only: comp)
    finally show ?thesis by simp
  qed
  moreover have l: "sorted_list_of_set {1, 2 :: digest} = [1, 2]" by code_simp
  ultimately have cyc: "sorted_list_of_set {sorted_list_of_set (component (successors_in ?E) u) | u. (u, u) \<in> ?E\<^sup>+} = [[1, 2]]" by simp
  have s: "sorted_list_of_set ?E = [(1, 2), (2, 1)]" by code_simp
  have inv: "?E\<inverse> = ?E" by auto
  have "{y. (1, y) \<in> ?E} = {2}" by auto
  then have s1: "successors_in ?E 1 = [2]" by (simp add: successors_in_def)
  from supersession_correct [OF v(1-3), of c] obtain D where
    "apply_supersession v c = Some (v\<lparr>vw_supersedes := successors_in ?E, vw_superseded_by := successors_in ?E,
      vw_edges := [(1, 2), (2, 1)], vw_supersession_decls := D, vw_conflicts := [cycle_report v (cs_supersessions c) [1, 2]]\<rparr>)"
    unfolding E cyc s inv v(4) by auto
  moreover have "cf_molecules (cycle_report v (cs_supersessions c) [1, 2]) = [1, 2]"
  proof -
    have "(\<Union>x \<in> set [1, 2]. set (vw_members v x)) = {1, 2}" using v(9,10) by auto
    then show ?thesis unfolding cycle_report_def members_in_def l [symmetric] by (simp only: conflict.select_convs)
  qed
  moreover have "cf_kind (cycle_report v (cs_supersessions c) [1, 2]) = Supersession_cycle" by (simp add: cycle_report_def)
  ultimately show ?thesis using s1 by fastforce
qed

section \<open>What is recorded of the contradictions\<close>

lemma contradict_fold:
  fixes cls v
  assumes "vw_contradicts v = (\<lambda>_. [])"
  shows "foldl contradict_claim (nothing_related, v) cls =
    (noted (related canonical v cls),
     v\<lparr>vw_contradicts := successors_in (declared_edges canonical v cls \<union> (declared_edges canonical v cls)\<inverse>),
       vw_contradiction_decls := foldl (\<lambda>index cl. declare_claim v cl [cl_a cl, cl_b cl] index) (vw_contradiction_decls v) (filter (both_held v) cls)\<rparr>)"
proof (induction cls rule: rev_induct)
  case Nil
  have "v\<lparr>vw_contradicts := (\<lambda>_. []), vw_contradiction_decls := vw_contradiction_decls v\<rparr> = v"
    using assms by (cases v) simp
  then show ?case by (simp add: related_def declared_edges_def successors_in_empty)
next
  case (snoc cl cls)
  define E where "E = declared_edges canonical v cls"
  define ps where "ps = related canonical v cls"
  let ?e = "canonical (edge_at v cl)"
  let ?D = "foldl (\<lambda>index cl. declare_claim v cl [cl_a cl, cl_b cl] index) (vw_contradiction_decls v) (filter (both_held v) cls)"
  let ?v = "v\<lparr>vw_contradicts := successors_in (E \<union> E\<inverse>), vw_contradiction_decls := ?D\<rparr>"
  have IH: "foldl contradict_claim (nothing_related, v) cls = (noted ps, ?v)" using snoc.IH unfolding ps_def E_def .
  show ?case
  proof (cases "both_held v cl")
    case False
    then have "contradict_claim (noted ps, ?v) cl = (noted ps, ?v)" by (auto simp: contradict_claim_def both_held_def)
    moreover have "related canonical v (cls @ [cl]) = ps" "declared_edges canonical v (cls @ [cl]) = E"
      using False by (auto simp: related_def ps_def declared_edges_def E_def)
    ultimately show ?thesis using IH False by simp
  next
    case True
    then have ps': "related canonical v (cls @ [cl]) = ps @ [(?e, cl)]" and E': "declared_edges canonical v (cls @ [cl]) = insert ?e E"
      by (auto simp: related_def ps_def declared_edges_def E_def)
    have known: "rl_metas (noted ps) ?e \<noteq> None \<longleftrightarrow> ?e \<in> E" by (simp add: ps_def E_def noted_of)
    have grown: "insert ?e E \<union> (insert ?e E)\<inverse> = insert (snd ?e, fst ?e) (insert ?e (E \<union> E\<inverse>))" by (cases ?e) auto
    have up: "(if rl_metas (noted ps) ?e \<noteq> None then ?v
            else if fst ?e \<noteq> snd ?e then
              let k1 = (vw_contradicts ?v)(fst ?e := insert_ordered (vw_contradicts ?v (fst ?e)) (snd ?e))
              in ?v\<lparr>vw_contradicts := k1(snd ?e := insert_ordered (k1 (snd ?e)) (fst ?e))\<rparr>
            else ?v\<lparr>vw_contradicts := (vw_contradicts ?v)(fst ?e := insert_ordered (vw_contradicts ?v (fst ?e)) (fst ?e))\<rparr>) =
        ?v\<lparr>vw_contradicts := successors_in (insert ?e E \<union> (insert ?e E)\<inverse>)\<rparr>"
    proof (cases "?e \<in> E")
      case True
      then have "insert ?e E = E" by blast
      then show ?thesis using True known by simp
    next
      case fresh: False
      show ?thesis
      proof (cases "fst ?e = snd ?e")
        case True
        then have "insert (snd ?e, fst ?e) (insert ?e (E \<union> E\<inverse>)) = insert (fst ?e, fst ?e) (E \<union> E\<inverse>)"
          by (metis insert_absorb2 prod.collapse)
        then show ?thesis using fresh known True unfolding grown by (simp only: if_False if_True simp_thms successors_in_insert view.select_convs view.update_convs) (simp add: successors_in_insert)
      next
        case False
        then show ?thesis using fresh known unfolding grown by (simp add: Let_def successors_in_insert)
      qed
    qed
    have e: "(class_at ?v (cl_a cl), class_at ?v (cl_b cl)) = edge_at v cl" by (simp add: edge_at_def)
    have h: "vw_has ?v (cl_a cl)" "vw_has ?v (cl_b cl)" using True by (simp_all add: both_held_def)
    have "contradict_claim (noted ps, ?v) cl = (note_edge ?e cl (noted ps),
        v\<lparr>vw_contradicts := successors_in (insert ?e E \<union> (insert ?e E)\<inverse>),
          vw_contradiction_decls := declare_claim v cl [cl_a cl, cl_b cl] ?D\<rparr>)"
      using h unfolding contradict_claim_def prod.case e by (simp only: simp_thms if_False Let_def [of "canonical (edge_at v cl)"] up) (simp add: Let_def)
    then show ?thesis using IH True unfolding ps' E' by simp
  qed
qed

definition contradiction_report :: "view \<Rightarrow> claim list \<Rightarrow> edge \<Rightarrow> conflict" where
  "contradiction_report v cls e =
    (let classes = (if fst e \<noteq> snd e then [fst e, snd e] else [fst e]) in
     \<lparr>cf_kind = Contradiction, cf_molecules = members_in v {fst e, snd e},
      cf_sides = map (\<lambda>c. \<lparr>sd_stance = [], sd_molecules = vw_members v c, sd_authors = authors_of_all v (vw_members v c)\<rparr>) classes,
      cf_meta = sorted_list_of_set (cl_meta ` declaring canonical v cls {e}), cf_blocks = [],
      cf_declarers = sorted_list_of_set (publishers_of (declaring canonical v cls {e}))\<rparr>)"

lemma contradiction_result:
  assumes "vw_contradicts v = (\<lambda>_. [])"
  shows "\<exists>D. apply_contradictions v c = v\<lparr>
      vw_contradicts := successors_in (declared_edges canonical v (cs_contradictions c) \<union> (declared_edges canonical v (cs_contradictions c))\<inverse>),
      vw_contradiction_decls := D,
      vw_conflicts := vw_conflicts v @ map (contradiction_report v (cs_contradictions c)) (sorted_list_of_set (declared_edges canonical v (cs_contradictions c)))\<rparr> \<and>
    (\<forall>x. set (D x) = set (vw_contradiction_decls v x) \<union> decl_of ` {cl \<in> set (cs_contradictions c). both_held v cl \<and> touches v x cl})"
proof -
  let ?cls = "cs_contradictions c"
  define E where "E = declared_edges canonical v ?cls"
  define D where "D = foldl (\<lambda>index cl. declare_claim v cl [cl_a cl, cl_b cl] index) (vw_contradiction_decls v) (filter (both_held v) ?cls)"
  define w where "w = v\<lparr>vw_contradicts := successors_in (E \<union> E\<inverse>), vw_contradiction_decls := D\<rparr>"
  have fold: "foldl contradict_claim (nothing_related, v) ?cls = (noted (related canonical v ?cls), w)"
    using contradict_fold [OF assms, of ?cls] unfolding w_def D_def E_def .
  have rep: "contradiction_conflict w (noted (related canonical v ?cls)) e = contradiction_report v ?cls e" if "e \<in> E" for e
    using that by (simp add: contradiction_conflict_def contradiction_report_def Let_def members_of_eq members_in_def
        authors_of_all_def noted_of w_def E_def)
  have fin: "finite E" by (simp add: E_def)
  have "map (contradiction_conflict w (noted (related canonical v ?cls))) (sorted_list_of_set E) = map (contradiction_report v ?cls) (sorted_list_of_set E)"
    using rep fin by (intro map_cong) auto
  then have "apply_contradictions v c = v\<lparr>vw_contradicts := successors_in (E \<union> E\<inverse>), vw_contradiction_decls := D,
      vw_conflicts := vw_conflicts v @ map (contradiction_report v ?cls) (sorted_list_of_set E)\<rparr>"
    unfolding apply_contradictions_def fold prod.case noted_sorted E_def [symmetric] by (simp add: w_def)
  moreover have "set (D x) = set (vw_contradiction_decls v x) \<union> decl_of ` {cl \<in> set ?cls. both_held v cl \<and> touches v x cl}" for x
    unfolding D_def declarations_filed by auto
  ultimately show ?thesis unfolding E_def by blast
qed

text \<open>
  Contradiction. It is recorded symmetrically between the classes of the claims both of whose
  molecules the view holds, every such claim is filed under the classes it touches, and one conflict
  is reported per pair of classes, in order, with a side per class.
\<close>

theorem contradiction_correct:
  assumes "vw_contradicts v = (\<lambda>_. [])"
  shows "\<exists>D. apply_contradictions v c = v\<lparr>
      vw_contradicts := successors_in (declared_edges canonical v (cs_contradictions c) \<union> (declared_edges canonical v (cs_contradictions c))\<inverse>),
      vw_contradiction_decls := D,
      vw_conflicts := vw_conflicts v @ map (contradiction_report v (cs_contradictions c)) (sorted_list_of_set (declared_edges canonical v (cs_contradictions c)))\<rparr> \<and>
    (\<forall>x. set (D x) = set (vw_contradiction_decls v x) \<union> decl_of ` {cl \<in> set (cs_contradictions c). both_held v cl \<and> touches v x cl})"
  using assms by (rule contradiction_result)

text \<open>A molecule declared to contradict another of its own class is reported once, with one side.\<close>

theorem contradiction_correct_witness:
  "\<exists>v c k. cs_contradictions c \<noteq> [] \<and> vw_contradicts (apply_contradictions v c) 1 = [1] \<and>
    vw_conflicts (apply_contradictions v c) = [k] \<and> length (cf_sides k) = 1"
proof -
  let ?cl = "\<lparr>cl_meta = 5, cl_template = template_contradiction, cl_a = 1, cl_b = 2, cl_typ = filler_molecule, cl_stance = Unasserted,
    cl_prov = [], cl_backing = []\<rparr>"
  define c where "c = no_claims\<lparr>cs_contradictions := [?cl]\<rparr>"
  have c: "cs_contradictions c = [?cl]" by (simp add: c_def)
  define v where "v = (empty_view (subs_snapshot None))\<lparr>vw_entries := [1 \<mapsto> undefined, 2 \<mapsto> undefined], vw_class := [1 \<mapsto> 1, 2 \<mapsto> 1]\<rparr>"
  have v: "vw_contradicts v = (\<lambda>_. [])" "vw_conflicts v = []" "vw_has v 1" "vw_has v 2" "class_at v 1 = 1" "class_at v 2 = 1"
    by (simp_all add: v_def empty_view_def vw_has_def class_at_def)
  have E: "declared_edges canonical v (cs_contradictions c) = {(1, 1)}"
  proof -
    have "{cl \<in> set [?cl]. both_held v cl} = {?cl}" using v by (auto simp: both_held_def)
    then show ?thesis unfolding declared_edges_def c using v by (simp add: edge_at_def canonical_def)
  qed
  from contradiction_correct [OF v(1), of c] obtain D where
    "apply_contradictions v c = v\<lparr>vw_contradicts := successors_in ({(1, 1)} \<union> {(1, 1)}\<inverse>), vw_contradiction_decls := D,
      vw_conflicts := [contradiction_report v (cs_contradictions c) (1, 1)]\<rparr>"
    unfolding E v(2) by (elim exE conjE) (rule that, simp)
  moreover have "successors_in ({(1, 1)} \<union> {(1, 1)}\<inverse>) 1 = [1]" by (simp add: successors_in_def)
  moreover have "length (cf_sides (contradiction_report v (cs_contradictions c) (1, 1))) = 1" by (simp add: contradiction_report_def)
  ultimately show ?thesis using c
    by (intro exI [of _ v] exI [of _ c] exI [of _ "contradiction_report v (cs_contradictions c) (1, 1)"]) simp
qed

end
