(* ===== verification/Ambiguity.thy ===== *)
theory Ambiguity
  imports Block_Order
begin

text \<open>
  Ambiguous successions (\<open>go/accept/order.go\<close>): block order stops where a succession is ambiguous, and
  every ambiguity it stops at is surfaced as a conflict.
\<close>

section \<open>Where order stops\<close>

text \<open>The ambiguity at a genesis block: the block it was found at, and the candidates.\<close>

definition junction :: "crypto \<Rightarrow> source \<Rightarrow> block \<Rightarrow> (digest \<times> digest list) option" where
  "junction cr src b =
    (if c_type (blk_content b) \<noteq> type_public then None
     else case rotation_claims cr src b (block_refs b) of
       Inl e \<Rightarrow> None
     | Inr cs \<Rightarrow>
         (case cs of
            [] \<Rightarrow> None
          | [r] \<Rightarrow>
              (case src_block src r of
                 Inl e \<Rightarrow> None
               | Inr rb \<Rightarrow> (case successors cr rb src of Inr (ds, Some f) \<Rightarrow> Some (r, ds) | _ \<Rightarrow> None))
          | _ \<Rightarrow> Some (block_digest cr b, cs)))"

definition ambiguity :: "source \<Rightarrow> digest \<times> digest list \<Rightarrow> conflict" where
  "ambiguity src j = (let involved = sorted_list_of_set (set (fst j # snd j)) in
    \<lparr>cf_kind = Ambiguous_order, cf_molecules = [], cf_sides = [], cf_meta = [], cf_blocks = involved, cf_declarers = signers_of src involved\<rparr>)"

lemma ambiguity_blocks: "set (cf_blocks (ambiguity src j)) = insert (fst j) (set (snd j))"
  proof -
  have "finite (insert (fst j) (set (snd j)))" by simp
  from set_sorted_list_of_set [OF this] show ?thesis by (simp only: ambiguity_def Let_def conflict.select_convs list.set)
qed

lemma report_ambiguity_eq:
  "report_ambiguity src at bs o' = (if bo_reported o' at then o'
    else o'\<lparr>bo_reported := (bo_reported o')(at := True), bo_conflicts := bo_conflicts o' @ [ambiguity src (at, bs)]\<rparr>)"
  unfolding report_ambiguity_def ambiguity_def Let_def insert_ordered_all by simp

lemma rotation_behind_report:
  assumes "rotation_behind cr src b o' = Inr (o2, r)"
  shows "o2 = (case junction cr src b of None \<Rightarrow> o' | Some j \<Rightarrow> report_ambiguity src (fst j) (snd j) o')"
    and "r \<noteq> None \<Longrightarrow> junction cr src b = None"
proof -
  have "o2 = (case junction cr src b of None \<Rightarrow> o' | Some j \<Rightarrow> report_ambiguity src (fst j) (snd j) o') \<and> (r \<noteq> None \<longrightarrow> junction cr src b = None)"
  proof (cases "c_type (blk_content b) \<noteq> type_public")
    case True
    then show ?thesis using assms by (simp add: rotation_behind_def junction_def)
  next
    case public: False
    then obtain cs where cs: "rotation_claims cr src b (block_refs b) = Inr cs"
      using assms by (cases "rotation_claims cr src b (block_refs b)") (simp_all add: rotation_behind_def)
    consider "cs = []" | ref where "cs = [ref]" | x y zs where "cs = x # y # zs" by (metis neq_Nil_conv)
    then show ?thesis
    proof cases
      case (2 ref)
      then show ?thesis using assms public cs
        by (auto simp: rotation_behind_def junction_def bindE_def mapErr_def split: sum.splits prod.splits option.splits)
    qed (use assms public cs in \<open>simp_all add: rotation_behind_def junction_def\<close>)
  qed
  then show "o2 = (case junction cr src b of None \<Rightarrow> o' | Some j \<Rightarrow> report_ambiguity src (fst j) (snd j) o')"
    and "r \<noteq> None \<Longrightarrow> junction cr src b = None" by blast+
qed

section \<open>What is surfaced\<close>

text \<open>The conflicts are ambiguities at the start of a lineage, and every ambiguity at the start of a known lineage is among them.\<close>

definition surfaced :: "crypto \<Rightarrow> source \<Rightarrow> block_order \<Rightarrow> digest \<Rightarrow> bool" where
  "surfaced cr src o' g \<longleftrightarrow> (\<forall>b j. src_block src g = Inr b \<longrightarrow> junction cr src b = Some j \<longrightarrow> (\<exists>k \<in> set (bo_conflicts o'). fst j \<in> set (cf_blocks k)))"

definition surfaced_ok :: "crypto \<Rightarrow> source \<Rightarrow> block_order \<Rightarrow> bool" where
  "surfaced_ok cr src o' \<longleftrightarrow>
    (\<forall>k \<in> set (bo_conflicts o'). \<exists>g b j. bo_pos o' g = Some \<lparr>pl_lineage = g, pl_index = 0\<rparr> \<and> src_block src g = Inr b \<and>
      junction cr src b = Some j \<and> k = ambiguity src j) \<and>
    (\<forall>d p. bo_pos o' d = Some p \<longrightarrow> surfaced cr src o' (pl_lineage p)) \<and>
    (\<forall>at. bo_reported o' at \<longrightarrow> (\<exists>k \<in> set (bo_conflicts o'). at \<in> set (cf_blocks k)))"

lemma surfaced_okD:
  assumes "surfaced_ok cr src o'"
  shows "k \<in> set (bo_conflicts o') \<Longrightarrow> \<exists>g b j. bo_pos o' g = Some \<lparr>pl_lineage = g, pl_index = 0\<rparr> \<and> src_block src g = Inr b \<and>
      junction cr src b = Some j \<and> k = ambiguity src j"
    and "bo_pos o' d = Some p \<Longrightarrow> surfaced cr src o' (pl_lineage p)"
    and "bo_reported o' at \<Longrightarrow> \<exists>k \<in> set (bo_conflicts o'). at \<in> set (cf_blocks k)"
  using assms unfolding surfaced_ok_def by blast+

lemma surfaced_new: "surfaced_ok cr src new_block_order"
  by (simp add: surfaced_ok_def new_block_order_def)

text \<open>More places, whose lineages are surfaced.\<close>

lemma surfaced_places:
  assumes "surfaced_ok cr src o'" and "bo_pos o' \<subseteq>\<^sub>m m" and "\<forall>d p. m d = Some p \<longrightarrow> surfaced cr src o' (pl_lineage p)"
  shows "surfaced_ok cr src (o'\<lparr>bo_pos := m\<rparr>)"
proof -
  have s: "surfaced cr src (o'\<lparr>bo_pos := m\<rparr>) = surfaced cr src o'" by (rule ext) (simp add: surfaced_def)
  have "m g = Some x" if "bo_pos o' g = Some x" for g x using assms(2) that by (metis domI map_le_def)
  then show ?thesis using assms(1,3) unfolding surfaced_ok_def s by (simp, blast)
qed

text \<open>The start of a lineage, its ambiguity reported.\<close>

lemma surfaced_start:
  assumes "surfaced_ok cr src o'" and "src_block src g = Inr b" and "rotation_behind cr src b o' = Inr (o2, r)" and "bo_pos o' g = None"
  shows "surfaced_ok cr src (o2\<lparr>bo_pos := (bo_pos o2)(g \<mapsto> \<lparr>pl_lineage = g, pl_index = 0\<rparr>)\<rparr>)"
proof (cases "junction cr src b")
  case None
  then have "o2 = o'" using rotation_behind_report(1) [OF assms(3)] by simp
  moreover have "surfaced cr src o' g" using None assms(2) by (simp add: surfaced_def)
  moreover have "bo_pos o' \<subseteq>\<^sub>m (bo_pos o')(g \<mapsto> \<lparr>pl_lineage = g, pl_index = 0\<rparr>)" using assms(4) by (simp add: map_le_def dom_def)
  ultimately show ?thesis using surfaced_places [OF assms(1)] surfaced_okD(2) [OF assms(1)] by simp
next
  case (Some j)
  let ?o = "o2\<lparr>bo_pos := (bo_pos o2)(g \<mapsto> \<lparr>pl_lineage = g, pl_index = 0\<rparr>)\<rparr>"
  have o2: "o2 = report_ambiguity src (fst j) (snd j) o'" using rotation_behind_report(1) [OF assms(3)] Some by simp
  have pos: "bo_pos o2 = bo_pos o'" by (rule rotation_behind_result(2) [OF assms(3)])
  have sub: "set (bo_conflicts o') \<subseteq> set (bo_conflicts o2)" by (auto simp: o2 report_ambiguity_eq)
  have new: "k = ambiguity src j" if "k \<in> set (bo_conflicts o2)" "k \<notin> set (bo_conflicts o')" for k
    using that by (auto simp: o2 report_ambiguity_eq split: if_splits)
  have here: "\<exists>k \<in> set (bo_conflicts o2). fst j \<in> set (cf_blocks k)"
    using surfaced_okD(3) [OF assms(1)] by (auto simp: o2 report_ambiguity_eq ambiguity_blocks)
  show ?thesis
    unfolding surfaced_ok_def
  proof (intro conjI ballI allI impI)
    fix k assume "k \<in> set (bo_conflicts ?o)"
    then have k: "k \<in> set (bo_conflicts o2)" by simp
    show "\<exists>x b j. bo_pos ?o x = Some \<lparr>pl_lineage = x, pl_index = 0\<rparr> \<and> src_block src x = Inr b \<and> junction cr src b = Some j \<and> k = ambiguity src j"
    proof (cases "k \<in> set (bo_conflicts o')")
      case True
      from surfaced_okD(1) [OF assms(1) this] show ?thesis using assms(4) pos by fastforce
    next
      case False
      then show ?thesis using new [OF k] assms(2) Some by (intro exI [of _ g] exI [of _ b] exI [of _ j]) simp
    qed
  next
    fix d p assume "bo_pos ?o d = Some p"
    then have "d = g \<and> p = \<lparr>pl_lineage = g, pl_index = 0\<rparr> \<or> bo_pos o' d = Some p" by (auto simp: pos split: if_splits)
    then show "surfaced cr src ?o (pl_lineage p)"
    proof
      assume "d = g \<and> p = \<lparr>pl_lineage = g, pl_index = 0\<rparr>"
      then show ?thesis using here assms(2) Some unfolding surfaced_def by (simp del: split_paired_All)
    next
      assume "bo_pos o' d = Some p"
      from surfaced_okD(2) [OF assms(1) this] show ?thesis using sub unfolding surfaced_def by fastforce
    qed
  next
    fix at assume "bo_reported ?o at"
    then have "bo_reported o' at \<or> at = fst j" by (auto simp: o2 report_ambiguity_eq split: if_splits)
    then show "\<exists>k \<in> set (bo_conflicts ?o). at \<in> set (cf_blocks k)" using surfaced_okD(3) [OF assms(1)] here sub by auto
  qed
qed

lemma surfaced_step:
  assumes I: "walk_ok cr src d o' (o2, path, seen, cur, None)" and s: "surfaced_ok cr src o2"
    and step: "order_step cr src d (o2, path, seen, cur, None) = Inr (o3, tail)"
  shows "surfaced_ok cr src o3"
proof (cases "bo_pos o2 cur")
  case (Some p)
  then show ?thesis using step s by (simp add: order_step_def)
next
  case None
  then have "\<not> seen cur" using step by (auto simp: order_step_def)
  obtain b where b: "src_block src cur = Inr b" using None \<open>\<not> seen cur\<close> step by (cases "src_block src cur") (simp_all add: order_step_def)
  have d: "block_digest cr b = cur" using None \<open>\<not> seen cur\<close> b step by (simp add: order_step_def split: if_splits)
  show ?thesis
  proof (cases "block_prev b")
    case (Some q)
    then show ?thesis using None \<open>\<not> seen cur\<close> b d step s by (simp add: order_step_def)
  next
    case genesis: None
    then obtain o4 r where r: "rotation_behind cr src b o2 = Inr (o4, r)"
      using None \<open>\<not> seen cur\<close> b d step by (cases "rotation_behind cr src b o2") (auto simp: order_step_def)
    show ?thesis
    proof (cases r)
      case None
      then have "o3 = o4\<lparr>bo_pos := (bo_pos o4)(cur \<mapsto> \<lparr>pl_lineage = cur, pl_index = 0\<rparr>)\<rparr>"
        using \<open>bo_pos o2 cur = None\<close> \<open>\<not> seen cur\<close> b d step genesis r by (simp add: order_step_def Let_def)
      then show ?thesis using surfaced_start [OF s b r \<open>bo_pos o2 cur = None\<close>] by simp
    next
      case (Some x)
      then have "junction cr src b = None" using rotation_behind_report(2) [OF r] by simp
      then have "o4 = o2" using rotation_behind_report(1) [OF r] by simp
      then show ?thesis using \<open>bo_pos o2 cur = None\<close> \<open>\<not> seen cur\<close> b d step genesis r Some s by (simp add: order_step_def)
    qed
  qed
qed

text \<open>Placing a path places blocks of the lineage of its base only.\<close>

lemma place_path_fields:
  "\<exists>m. place_path xs p o' = o'\<lparr>bo_pos := m\<rparr> \<and> (\<forall>d q. m d = Some q \<longrightarrow> bo_pos o' d = Some q \<or> pl_lineage q = pl_lineage p)"
proof (induction xs)
  case Nil
  show ?case by (rule exI [of _ "bo_pos o'"]) (simp add: place_path_def)
next
  case (Cons x xs)
  then obtain m where m: "place_path xs p o' = o'\<lparr>bo_pos := m\<rparr>" "\<forall>d q. m d = Some q \<longrightarrow> bo_pos o' d = Some q \<or> pl_lineage q = pl_lineage p" by blast
  let ?q = "\<lparr>pl_lineage = pl_lineage p, pl_index = pl_index p + length xs + 1\<rparr>"
  have "place_path (x # xs) p o' = o'\<lparr>bo_pos := m(x \<mapsto> ?q)\<rparr>" unfolding place_path_append Let_def m(1) by simp
  moreover have "\<forall>d r. (m(x \<mapsto> ?q)) d = Some r \<longrightarrow> bo_pos o' d = Some r \<or> pl_lineage r = pl_lineage p" using m(2) by auto
  ultimately show ?case by blast
qed

lemma order_of_surfaced:
  assumes ok: "order_ok cr src o'" and s: "surfaced_ok cr src o'" and o2: "order_of cr src d o' = Some (Inr (o3, p))"
  shows "surfaced_ok cr src o3"
proof (cases "bo_pos o' d")
  case (Some p)
  then show ?thesis using o2 s by (simp add: order_of_def)
next
  case None
  let ?f = "loopE order_pending (order_step cr src d) (o', [], \<lambda>_. False, d, None)"
  from None o2 obtain o2 path seen cur base where f: "?f = Some (Inr (o2, path, seen, cur, base))" and o3: "o3 = place_path path (the base) o2"
    by (cases "?f"; cases "the ?f") (auto simp: order_of_def Let_def)
  have J0: "walk_ok cr src d o' (o', [], \<lambda>_. False, d, None) \<and> surfaced_ok cr src (fst (o', [], \<lambda>_. False, d, None))"
    using ok s by (simp add: walk_ok_def)
  have "walk_ok cr src d o' t' \<and> surfaced_ok cr src (fst t')"
    if "walk_ok cr src d o' t \<and> surfaced_ok cr src (fst t)" "order_pending t" "order_step cr src d t = Inr t'" for t t'
  proof
    show "walk_ok cr src d o' t'" using walk_ok_step that by blast
    obtain o2 path seen cur where t: "t = (o2, path, seen, cur, None)" using \<open>order_pending t\<close> by (auto simp: order_pending_def)
    show "surfaced_ok cr src (fst t')" using surfaced_step [of cr src d o' o2 path seen cur "fst t'" "snd t'"]
      \<open>walk_ok cr src d o' t \<and> surfaced_ok cr src (fst t)\<close> \<open>order_step cr src d t = Inr t'\<close> t by simp
  qed
  from loopE_rule [where I = "\<lambda>t. walk_ok cr src d o' t \<and> surfaced_ok cr src (fst t)", OF f J0 this]
  have w: "walk_ok cr src d o' (o2, path, seen, cur, base)" "surfaced_ok cr src o2" "\<not> order_pending (o2, path, seen, cur, base)" by auto
  then obtain q where q: "base = Some q" by (auto simp: order_pending_def)
  have b: "order_ok cr src o2" "traced cr src d path cur" "placed cr src cur q" "bo_pos o2 cur = Some q" using w(1) q by (simp_all add: walk_ok_def)
  obtain m where m: "o3 = o2\<lparr>bo_pos := m\<rparr>" "\<forall>d r. m d = Some r \<longrightarrow> bo_pos o2 d = Some r \<or> pl_lineage r = pl_lineage q"
    using place_path_fields [of path q o2] o3 q by auto
  have "bo_pos o2 \<subseteq>\<^sub>m m" using place_path_ok [OF b(2-4,1)] m(1) o3 q by simp
  moreover have "surfaced cr src o2 (pl_lineage r)" if "m d = Some r" for d r
    using m(2) that surfaced_okD(2) [OF w(2)] b(4) by metis
  ultimately show ?thesis unfolding m(1) using surfaced_places [OF w(2)] by blast
qed

lemma place_each_surfaced:
  assumes "order_ok cr src o'" and "surfaced_ok cr src o'" and "place_each cr src ts (o', at, far) = Some (Inr (o2, at', far'))"
  shows "surfaced_ok cr src o2"
  using assms
proof (induction ts arbitrary: o' at far)
  case (Cons t ts)
  obtain a b where t: "t = (a, b)" by (cases t)
  show ?case
  proof (cases rule: order_of_result [OF Cons.prems(1), of b])
    case (1 o3 p)
    have "surfaced_ok cr src o3" by (rule order_of_surfaced [OF Cons.prems(1,2) 1(1)])
    then show ?thesis using Cons.IH [OF 1(3)] Cons.prems(3) 1(1) by (auto simp: t)
  next
    case (2 e)
    then show ?thesis using Cons.prems(3) by (simp add: t)
  qed
qed simp

lemma place_blocks_surfaced:
  assumes "order_ok cr src o'" and "surfaced_ok cr src o'" and "place_blocks cr src v o' = Some (Inr (o2, w))"
  shows "surfaced_ok cr src o2"
  using assms(3) place_each_surfaced [OF assms(1,2)]
  by (cases "place_each cr src (published v) (o', \<lambda>_. None, \<lambda>_. 0)"; cases "the (place_each cr src (published v) (o', \<lambda>_. None, \<lambda>_. 0))")
    (auto simp: place_blocks_def)

end
