(* ===== verification/Accept.thy ===== *)
theory Accept
  imports Standing Truth Relations Ambiguity
begin

text \<open>
  The view (\<open>go/accept/accept.go\<close>): \<open>Build\<close>, which filters the graph, places the blocks, reads the
  meta-molecules and applies them, and the queries of a view. Slices are copied by the queries; a
  copy is the value here.
\<close>

section \<open>Build\<close>

datatype build_error = No_graph | No_source | Build_failed accept_error

text \<open>\<open>compareConflicts\<close>: kind, molecules, blocks, meta-molecules.\<close>

definition kind_number :: "conflict_kind \<Rightarrow> nat" where
  "kind_number k = (case k of Truth_disagreement \<Rightarrow> 1 | Contradiction \<Rightarrow> 2 | Supersession_cycle \<Rightarrow> 3 | Ambiguous_order \<Rightarrow> 4)"

definition conflict_key :: "conflict \<Rightarrow> nat \<times> digest list \<times> digest list \<times> digest list" where
  "conflict_key k = (kind_number (cf_kind k), cf_molecules k, cf_blocks k, cf_meta k)"

text \<open>Steps 4 to 8, over the filtered and placed view and the claims read from it.\<close>

definition apply_readings :: "crypto \<Rightarrow> source \<Rightarrow> claims \<Rightarrow> block_order \<Rightarrow> view \<Rightarrow> (accept_error + view) option" where
  "apply_readings cr src c o1 v1 =
    bindD (apply_standing cr src v1 c o1) (\<lambda>(o2, v2, c2).
    case close_equivalences c2 v2 of
      None \<Rightarrow> None
    | Some v3 \<Rightarrow>
        bindD (apply_truth cr src v3 c2 o2) (\<lambda>(o3, v4).
        case apply_supersession v4 c2 of
          None \<Rightarrow> None
        | Some v5 \<Rightarrow>
            let v6 = apply_contradictions v5 c2 in
            Some (Inr (v6\<lparr>vw_conflicts := sort_key conflict_key (vw_conflicts v6 @ bo_conflicts o3)\<rparr>))))"

definition build_view :: "crypto \<Rightarrow> graph option \<Rightarrow> source option \<Rightarrow> subscriptions option \<Rightarrow> (build_error + view) option" where
  "build_view cr g src subs =
    (case g of
       None \<Rightarrow> Some (Inl No_graph)
     | Some g \<Rightarrow>
         (case src of
            None \<Rightarrow> Some (Inl No_source)
          | Some src \<Rightarrow>
              mapErrD Build_failed
                (bindD (place_blocks cr src (filter_graph cr g subs) new_block_order) (\<lambda>(o1, v).
                 let c = read_claims cr v in apply_readings cr src c o1 (v\<lparr>vw_malformed := cs_malformed c\<rparr>)))))"

section \<open>Queries\<close>

definition view_subscriptions :: "view \<Rightarrow> byte list list" where
  "view_subscriptions v = subs_keys (Some (vw_subs v))"

definition view_len :: "view \<Rightarrow> nat" where
  "view_len v = length (vw_order v)"

definition view_lookup :: "view \<Rightarrow> digest \<Rightarrow> entry option" where
  "view_lookup v d = vw_entries v d"

definition view_digests :: "view \<Rightarrow> digest list" where
  "view_digests v = vw_order v"

definition view_entries_of :: "view \<Rightarrow> digest list \<Rightarrow> entry list" where
  "view_entries_of v ds = map (\<lambda>d. the (vw_entries v d)) ds"

definition view_entries :: "view \<Rightarrow> entry list" where
  "view_entries v = view_entries_of v (vw_order v)"

definition view_entries_of_kind :: "view \<Rightarrow> entity_kind \<Rightarrow> entry list" where
  "view_entries_of_kind v k = view_entries_of v (vw_by_kind v k)"

definition digests_of_kind :: "view \<Rightarrow> entity_kind \<Rightarrow> digest list" where
  "digests_of_kind v k = vw_by_kind v k"

definition truth_at :: "view \<Rightarrow> digest \<Rightarrow> truth_state" where
  "truth_at v d = (if \<not> vw_has v d then Unasserted else vw_truth v (class_at v d))"

definition assertion_key :: "assertion \<Rightarrow> public_key \<times> digest \<times> digest" where
  "assertion_key a = (as_author a, as_block a, as_meta a)"

definition assertions_at :: "view \<Rightarrow> digest \<Rightarrow> assertion list" where
  "assertions_at v d = (if \<not> vw_has v d then [] else sort_key assertion_key (vw_assertions v (class_at v d)))"

definition equivalence_class :: "view \<Rightarrow> digest \<Rightarrow> digest list" where
  "equivalence_class v d = (if \<not> vw_has v d then [] else vw_members v (class_at v d))"

definition equivalent :: "view \<Rightarrow> digest \<Rightarrow> digest \<Rightarrow> bool" where
  "equivalent v a b = (if \<not> vw_has v a \<or> \<not> vw_has v b then False else class_at v a = class_at v b)"

definition supersedes :: "view \<Rightarrow> digest \<Rightarrow> digest list" where
  "supersedes v d = (if \<not> vw_has v d then [] else members_of v (vw_supersedes v (class_at v d)))"

definition superseded_by :: "view \<Rightarrow> digest \<Rightarrow> digest list" where
  "superseded_by v d = (if \<not> vw_has v d then [] else members_of v (vw_superseded_by v (class_at v d)))"

definition is_superseded :: "view \<Rightarrow> digest \<Rightarrow> bool" where
  "is_superseded v d \<longleftrightarrow> vw_has v d \<and> 0 < length (vw_superseded_by v (class_at v d))"

definition contradictions :: "view \<Rightarrow> digest \<Rightarrow> digest list" where
  "contradictions v d = (if \<not> vw_has v d then [] else members_of v (vw_contradicts v (class_at v d)))"

definition conflicts :: "view \<Rightarrow> conflict list" where
  "conflicts v = vw_conflicts v"

definition conflicts_of_kind :: "view \<Rightarrow> conflict_kind \<Rightarrow> conflict list" where
  "conflicts_of_kind v k = filter (\<lambda>c. cf_kind c = k) (vw_conflicts v)"

definition malformed_meta_molecules :: "view \<Rightarrow> digest list" where
  "malformed_meta_molecules v = vw_malformed v"

definition withdrawn_meta_molecules :: "view \<Rightarrow> digest list" where
  "withdrawn_meta_molecules v = vw_withdrawn v"

definition accepted :: "view \<Rightarrow> digest list" where
  "accepted v = filter (\<lambda>d. \<not> (truth_at v d = Retracted \<or> is_superseded v d)) (vw_by_kind v Kind_molecule)"

text \<open>The walk of \<open>Current\<close>, depth first; the classes not yet visited bound it.\<close>

function current_walk :: "view \<Rightarrow> digest list \<Rightarrow> (digest \<Rightarrow> bool) \<times> digest list \<Rightarrow> (digest \<Rightarrow> bool) \<times> digest list" where
  "current_walk v [] s = s"
| "current_walk v (c # cs) (met, out) =
    (if met c then current_walk v cs (met, out)
     else let nexts = vw_superseded_by v c in
       if nexts = [] then current_walk v cs (met(c := True), foldl insert_ordered out (vw_members v c))
       else current_walk v (nexts @ cs) (met(c := True), out))"
  by pat_completeness auto
termination
proof (relation "measures [\<lambda>(v, cs, met, out). card {c. \<not> met c}, \<lambda>(v, cs, s). length cs]")
  have less: "card {x. \<not> (met(c := True)) x} < card {x. \<not> met x}" if "\<not> met c" for met :: "digest \<Rightarrow> bool" and c :: digest
  proof (rule psubset_card_mono)
    show "finite {x. \<not> met x}" by simp
    show "{x. \<not> (met(c := True)) x} \<subset> {x. \<not> met x}" using that by auto
  qed
  show "((v, cs, met(c := True), foldl insert_ordered out (vw_members v c)), v, c # cs, met, out) \<in>
      measures [\<lambda>(v, cs, met, out). card {c. \<not> met c}, \<lambda>(v, cs, s). length cs]" if "\<not> met c" for v :: view and c :: digest and cs met out
    using less [of met c] that by simp
  show "((v, nexts @ cs, met(c := True), out), v, c # cs, met, out) \<in>
      measures [\<lambda>(v, cs, met, out). card {c. \<not> met c}, \<lambda>(v, cs, s). length cs]" if "\<not> met c" for v :: view and c :: digest and cs met out nexts
    using less [of met c] that by simp
qed auto

definition current :: "view \<Rightarrow> digest \<Rightarrow> digest list" where
  "current v d = (if \<not> vw_has v d then [] else snd (current_walk v [class_at v d] (\<lambda>_. False, [])))"

text \<open>\<open>declarationsOf\<close> and the accessors of the three readings.\<close>

definition declarations_of :: "view \<Rightarrow> (digest \<Rightarrow> decl list) \<Rightarrow> digest \<Rightarrow> decl list" where
  "declarations_of v index d = (if \<not> vw_has v d then [] else index (class_at v d))"

definition equivalence_declarations :: "view \<Rightarrow> digest \<Rightarrow> decl list" where
  "equivalence_declarations v d = declarations_of v (vw_equivalence_decls v) d"

definition supersession_declarations :: "view \<Rightarrow> digest \<Rightarrow> decl list" where
  "supersession_declarations v d = declarations_of v (vw_supersession_decls v) d"

definition contradiction_declarations :: "view \<Rightarrow> digest \<Rightarrow> decl list" where
  "contradiction_declarations v d = declarations_of v (vw_contradiction_decls v) d"

definition decl_authors :: "decl \<Rightarrow> public_key list" where
  "decl_authors x = foldl insert_ordered [] (map bk_author (dc_backing x))"

section \<open>What the readings depend on\<close>

lemma claims_of_cong:
  assumes "vw_entries w = vw_entries v" and "vw_subs w = vw_subs v" and "vw_by_kind w = vw_by_kind v"
  shows "meta_of cr w = meta_of cr v" and "claim_of cr w = claim_of cr v" and "claims_of cr w T = claims_of cr v T"
proof -
  show m: "meta_of cr w = meta_of cr v" by (rule ext) (simp only: meta_of_def assms)
  show c: "claim_of cr w = claim_of cr v" by (rule ext) (simp only: claim_of_def m)
  show "claims_of cr w T = claims_of cr v T" by (simp add: claims_of_def c assms(3))
qed

lemma backed_cong: "vw_positions w = vw_positions v \<Longrightarrow> backed cr src w T = backed cr src v T"
  by (rule ext) (simp only: backed_def backing_by_def position_at_def)

lemma held_cong: "vw_entries w = vw_entries v \<Longrightarrow> vw_has w = vw_has v"
  by (rule ext) (simp only: vw_has_def)

lemma class_cong: "vw_class w = vw_class v \<Longrightarrow> class_at w = class_at v"
  by (rule ext) (simp only: class_at_def)

lemma stated_cong: "vw_entries w = vw_entries v \<Longrightarrow> vw_class w = vw_class v \<Longrightarrow> stated cr src w T = stated cr src v T"
  by (simp only: stated_def held_cong [of w v] class_cong [of w v])

lemma assertion_of_cong: "vw_positions w = vw_positions v \<Longrightarrow> assertion_of w = assertion_of v"
  by (rule ext) (simp only: assertion_of_def position_at_def)

lemma disagreement_cong: "vw_members w = vw_members v \<Longrightarrow> disagreement S w = disagreement S v"
  by (rule ext) (simp only: disagreement_def)

lemma edges_cong:
  assumes "vw_entries w = vw_entries v" and "vw_class w = vw_class v"
  shows "both_held w = both_held v" "edge_at w = edge_at v" "touches w = touches v"
    "declared_edges f w = declared_edges f v" "declaring f w = declaring f v"
proof -
  note hc = held_cong [OF assms(1)] class_cong [OF assms(2)]
  show h: "both_held w = both_held v" and e: "edge_at w = edge_at v" and "touches w = touches v"
    by (intro ext, simp only: both_held_def edge_at_def touches_def hc)+
  show "declared_edges f w = declared_edges f v" "declaring f w = declaring f v"
    by (intro ext, simp only: declared_edges_def declaring_def h e)+
qed

lemma cycle_report_cong:
  assumes "vw_entries w = vw_entries v" and "vw_class w = vw_class v" and "vw_members w = vw_members v"
  shows "cycle_report w cls = cycle_report v cls"
  by (rule ext) (simp add: cycle_report_def members_in_def edges_cong [OF assms(1,2)] assms(3))

lemma contradiction_report_cong:
  assumes "vw_entries w = vw_entries v" and "vw_class w = vw_class v" and "vw_members w = vw_members v" and "vw_subs w = vw_subs v"
  shows "contradiction_report w cls = contradiction_report v cls"
  by (rule ext) (simp add: contradiction_report_def members_in_def authors_of_all_def edges_cong [OF assms(1,2)] assms)

lemma classed_cong: "vw_class w = vw_class v \<Longrightarrow> vw_members w = vw_members v \<Longrightarrow> classed P ds w = classed P ds v"
  by (simp only: classed_def)

lemma positions_cong: "vw_entries w = vw_entries v \<Longrightarrow> vw_order w = vw_order v \<Longrightarrow> positions_ok cr src w at = positions_ok cr src v at"
  by (simp only: positions_ok_def seen_length_def published_def view_tags_def)

section \<open>The view built\<close>

text \<open>The claims that are applied.\<close>

definition standing_claims :: "crypto \<Rightarrow> source \<Rightarrow> view \<Rightarrow> string \<Rightarrow> claim list" where
  "standing_claims cr src v t =
    map (backed cr src v (claims_of cr v truth_templates)) (filter (stands cr src (claims_of cr v truth_templates)) (claims_of cr v {t}))"

text \<open>The gated claims that no author stands behind.\<close>

definition fallen :: "crypto \<Rightarrow> source \<Rightarrow> view \<Rightarrow> claim set" where
  "fallen cr src v = {cl \<in> set (claims_of cr v {template_equivalence}) \<union> set (claims_of cr v {template_contradiction}) \<union>
    set (claims_of cr v {template_supersession}). \<not> stands cr src (claims_of cr v truth_templates) cl}"

definition equated :: "crypto \<Rightarrow> source \<Rightarrow> view \<Rightarrow> (digest \<times> digest) set" where
  "equated cr src v = (\<lambda>cl. (cl_a cl, cl_b cl)) ` set (standing_claims cr src v template_equivalence)"

definition spoken :: "crypto \<Rightarrow> source \<Rightarrow> view \<Rightarrow> truth_record set" where
  "spoken cr src v = stated cr src v (claims_of cr v truth_templates)"

definition supersession_edges :: "crypto \<Rightarrow> source \<Rightarrow> view \<Rightarrow> edge set" where
  "supersession_edges cr src v = declared_edges (\<lambda>e. e) v (standing_claims cr src v template_supersession)"

definition contradiction_edges :: "crypto \<Rightarrow> source \<Rightarrow> view \<Rightarrow> edge set" where
  "contradiction_edges cr src v = declared_edges canonical v (standing_claims cr src v template_contradiction)"

definition truth_conflicts :: "crypto \<Rightarrow> source \<Rightarrow> view \<Rightarrow> conflict list" where
  "truth_conflicts cr src v = map (disagreement (spoken cr src v) v) (sorted_list_of_set {C. truth_of (spoken cr src v) C = Conflicted})"

definition cycle_conflicts :: "crypto \<Rightarrow> source \<Rightarrow> view \<Rightarrow> conflict list" where
  "cycle_conflicts cr src v = map (cycle_report v (standing_claims cr src v template_supersession))
    (sorted_list_of_set {sorted_list_of_set (component (successors_in (supersession_edges cr src v)) u) | u. (u, u) \<in> (supersession_edges cr src v)\<^sup>+})"

definition contradiction_conflicts :: "crypto \<Rightarrow> source \<Rightarrow> view \<Rightarrow> conflict list" where
  "contradiction_conflicts cr src v = map (contradiction_report v (standing_claims cr src v template_contradiction))
    (sorted_list_of_set (contradiction_edges cr src v))"

text \<open>What each part of a view says, over the entities and the classes of the view itself.\<close>

definition readings :: "crypto \<Rightarrow> source \<Rightarrow> conflict list \<Rightarrow> view \<Rightarrow> bool" where
  "readings cr src B v \<longleftrightarrow>
    positions_ok cr src v (vw_positions v) \<and>
    vw_malformed v = filter (\<lambda>d. meta_of cr v d \<noteq> None \<and> claim_of cr v d = None) (vw_by_kind v Kind_molecule) \<and>
    vw_withdrawn v = sorted_list_of_set (cl_meta ` fallen cr src v) \<and>
    classed (equated cr src v) (vw_order v) v \<and>
    vw_truth v = truth_of (spoken cr src v) \<and>
    (\<forall>C. set (vw_assertions v C) = (\<lambda>r. assertion_of v (marked (spoken cr src v) r)) ` {r \<in> spoken cr src v. tr_class r = C}) \<and>
    vw_supersedes v = successors_in (supersession_edges cr src v) \<and>
    vw_superseded_by v = successors_in ((supersession_edges cr src v)\<inverse>) \<and>
    vw_edges v = sorted_list_of_set (supersession_edges cr src v) \<and>
    vw_contradicts v = successors_in (contradiction_edges cr src v \<union> (contradiction_edges cr src v)\<inverse>) \<and>
    (\<forall>x. set (vw_equivalence_decls v x) = decl_of ` {cl \<in> set (standing_claims cr src v template_equivalence). touches v x cl}) \<and>
    (\<forall>x. set (vw_supersession_decls v x) = decl_of ` {cl \<in> set (standing_claims cr src v template_supersession). both_held v cl \<and> touches v x cl}) \<and>
    (\<forall>x. set (vw_contradiction_decls v x) = decl_of ` {cl \<in> set (standing_claims cr src v template_contradiction). both_held v cl \<and> touches v x cl}) \<and>
    vw_conflicts v = sort_key conflict_key (truth_conflicts cr src v @ cycle_conflicts cr src v @ contradiction_conflicts cr src v @ B)"

lemma readings_fields:
  assumes "readings cr src B v"
  shows "positions_ok cr src v (vw_positions v)"
    "vw_malformed v = filter (\<lambda>d. meta_of cr v d \<noteq> None \<and> claim_of cr v d = None) (vw_by_kind v Kind_molecule)"
    "vw_withdrawn v = sorted_list_of_set (cl_meta ` fallen cr src v)"
    "classed (equated cr src v) (vw_order v) v"
    "vw_truth v = truth_of (spoken cr src v)"
    "\<And>C. set (vw_assertions v C) = (\<lambda>r. assertion_of v (marked (spoken cr src v) r)) ` {r \<in> spoken cr src v. tr_class r = C}"
    "vw_supersedes v = successors_in (supersession_edges cr src v)"
    "vw_superseded_by v = successors_in ((supersession_edges cr src v)\<inverse>)"
    "vw_contradicts v = successors_in (contradiction_edges cr src v \<union> (contradiction_edges cr src v)\<inverse>)"
    "\<And>x. set (vw_equivalence_decls v x) = decl_of ` {cl \<in> set (standing_claims cr src v template_equivalence). touches v x cl}"
    "\<And>x. set (vw_supersession_decls v x) = decl_of ` {cl \<in> set (standing_claims cr src v template_supersession). both_held v cl \<and> touches v x cl}"
    "\<And>x. set (vw_contradiction_decls v x) = decl_of ` {cl \<in> set (standing_claims cr src v template_contradiction). both_held v cl \<and> touches v x cl}"
    "vw_conflicts v = sort_key conflict_key (truth_conflicts cr src v @ cycle_conflicts cr src v @ contradiction_conflicts cr src v @ B)"
  using assms [unfolded readings_def] by - (elim conjE, (assumption | erule spec))+

section \<open>The steps of Build\<close>

lemma filter_graph_rest:
  "filter_graph cr g subs = (empty_view (subs_snapshot subs))\<lparr>vw_entries := vw_entries (filter_graph cr g subs),
    vw_order := vw_order (filter_graph cr g subs), vw_by_kind := vw_by_kind (filter_graph cr g subs)\<rparr>"
proof -
  define rest where "rest = (\<lambda>v :: view. v\<lparr>vw_entries := (\<lambda>_. None), vw_order := [], vw_by_kind := (\<lambda>_. [])\<rparr>)"
  have "rest (filter_entry cr v e) = rest v" for v e by (simp add: filter_entry_def rest_def Let_def)
  then have "rest (foldl (filter_entry cr) v es) = rest v" for v es by (induction es arbitrary: v) simp_all
  then have same: "rest (filter_graph cr g subs) = rest (empty_view (subs_snapshot subs))" by (simp add: filter_graph_def)
  have "w = (rest w)\<lparr>vw_entries := vw_entries w, vw_order := vw_order w, vw_by_kind := vw_by_kind w\<rparr>" for w by (simp add: rest_def)
  from this [of "filter_graph cr g subs"] show ?thesis unfolding same by (simp add: rest_def)
qed

lemma claims_in_memo:
  assumes "view_ok cr v" and "all_placed v o'" and "cl \<in> set (claims_of cr v T)"
  shows "in_memo o' (cl_prov cl)"
proof -
  obtain d where d: "d \<in> set (vw_by_kind v Kind_molecule)" "claim_of cr v d = Some cl"
    using assms(3) by (auto simp: claims_of_def map_filter_def)
  then obtain m b prov where p: "meta_of cr v d = Some (m, b, prov)" "read_one d (bond_template b) (mol_fillers m) prov = Some cl"
    by (auto simp: claim_of_def split: option.splits)
  from p(1) obtain e where e: "vw_entries v d = Some e" "prov = subscribed_provenance (vw_subs v) e"
    by (auto simp: meta_of_def Let_def split: option.splits graph_entity.splits if_splits)
  have "d \<in> set (vw_order v)" using d(1) assms(1) by (simp add: view_ok_def)
  then have "set (ge_authors e) \<subseteq> set (view_tags v)" using e(1) by (force simp: view_tags_def)
  moreover have "set (cl_prov cl) \<subseteq> set (ge_authors e)" using read_one_fields(3) [OF p(2)] e(2) by (auto simp: subscribed_provenance_def)
  ultimately show ?thesis using assms(2) by (auto simp: all_placed_def in_memo_def)
qed

lemma equivalence_declarations_filed:
  assumes "close_equivalences c v = Some v'" and "distinct (vw_order v)" and "vw_class v = (\<lambda>_. None)" and "vw_members v = (\<lambda>_. [])"
  shows "set (vw_equivalence_decls v' x) = set (vw_equivalence_decls v x) \<union> decl_of ` {cl \<in> set (cs_equivalences c). touches v' x cl}"
proof -
  from assms(1) obtain u v1 u1 where u: "union_all (map (\<lambda>cl. (cl_a cl, cl_b cl)) (cs_equivalences c)) new_union_find = Some u"
    and v1: "class_all (vw_order v) (v, u) = Some (v1, u1)"
    and v': "v' = v1\<lparr>vw_equivalence_decls := foldl (\<lambda>index cl. declare_claim v1 cl [cl_a cl, cl_b cl] index) (vw_equivalence_decls v1) (cs_equivalences c)\<rparr>"
    by (auto simp: close_equivalences_def split: option.splits)
  have cl: "closes (declared_pairs c) u" using union_all_closes [OF closes_new, of "map (\<lambda>cl. (cl_a cl, cl_b cl)) (cs_equivalences c)"] u
    by (auto simp: declared_pairs_def)
  have "classed (declared_pairs c) [] v" using assms(3,4) by (simp add: classed_def)
  from class_all_result [OF cl this, of "vw_order v"] assms(2) v1 have v1': "v1 = v\<lparr>vw_class := vw_class v1, vw_members := vw_members v1\<rparr>" by auto
  have "vw_equivalence_decls v1 = vw_equivalence_decls v" by (subst v1') simp
  moreover have "touches v' = touches v1" by (rule edges_cong) (simp_all add: v')
  ultimately show ?thesis unfolding v' by (simp add: declarations_filed)
qed

lemma claims_read:
  assumes "vw_entries w = vw_entries v" and "vw_subs w = vw_subs v" and "vw_by_kind w = vw_by_kind v" and "vw_positions w = vw_positions v"
  shows "standing_claims cr src w t = standing_claims cr src v t" and "fallen cr src w = fallen cr src v" and "equated cr src w = equated cr src v"
proof -
  note c = claims_of_cong(3) [OF assms(1-3)]
  show s: "standing_claims cr src w t = standing_claims cr src v t" for t unfolding standing_claims_def c backed_cong [OF assms(4)] ..
  show "fallen cr src w = fallen cr src v" unfolding fallen_def c ..
  show "equated cr src w = equated cr src v" unfolding equated_def s ..
qed

text \<open>The claims as the readings leave them.\<close>

lemma standing_read:
  assumes ok: "order_ok cr src o1" and v: "view_ok cr v" and placed: "all_placed v o1"
  shows "apply_standing cr src (v\<lparr>vw_malformed := m\<rparr>) (read_claims cr v) o1 =
    Some (Inr (o1, v\<lparr>vw_malformed := m, vw_withdrawn := sorted_list_of_set (cl_meta ` fallen cr src v)\<rparr>,
      \<lparr>cs_equivalences = standing_claims cr src v template_equivalence, cs_truths = claims_of cr v truth_templates,
       cs_contradictions = standing_claims cr src v template_contradiction,
       cs_supersessions = standing_claims cr src v template_supersession, cs_malformed = cs_malformed (read_claims cr v)\<rparr>))"
proof -
  let ?w = "v\<lparr>vw_malformed := m\<rparr>"
  note memo = claims_in_memo [OF v placed]
  have "\<forall>cl \<in> set (cs_equivalences (read_claims cr v)) \<union> set (cs_contradictions (read_claims cr v)) \<union>
      set (cs_supersessions (read_claims cr v)) \<union> set (cs_truths (read_claims cr v)). in_memo o1 (cl_prov cl)"
    unfolding read_claims_eq using memo by blast
  note standing_all [OF ok this, of ?w, unfolded read_claims_eq]
  then obtain W where W: "apply_standing cr src ?w (read_claims cr v) o1 = Some (Inr (o1, ?w\<lparr>vw_withdrawn := W\<rparr>,
      (read_claims cr v)\<lparr>cs_equivalences := map (backed cr src ?w (claims_of cr v truth_templates)) (filter (stands cr src (claims_of cr v truth_templates)) (claims_of cr v {template_equivalence})),
        cs_contradictions := map (backed cr src ?w (claims_of cr v truth_templates)) (filter (stands cr src (claims_of cr v truth_templates)) (claims_of cr v {template_contradiction})),
        cs_supersessions := map (backed cr src ?w (claims_of cr v truth_templates)) (filter (stands cr src (claims_of cr v truth_templates)) (claims_of cr v {template_supersession}))\<rparr>))"
    and s: "sorted_wrt (<) W" and e: "set W = cl_meta ` fallen cr src v"
    unfolding fallen_def by (elim exE conjE)
  have w: "W = sorted_list_of_set (cl_meta ` fallen cr src v)"
    by (rule strict_sorted_equal) (use s e in \<open>simp_all add: fallen_def\<close>)
  have b: "backed cr src ?w = backed cr src v" by (rule ext, rule backed_cong) simp
  have r: "(read_claims cr v)\<lparr>cs_equivalences := A, cs_contradictions := B, cs_supersessions := C\<rparr> =
      \<lparr>cs_equivalences = A, cs_truths = claims_of cr v truth_templates, cs_contradictions = B, cs_supersessions = C, cs_malformed = cs_malformed (read_claims cr v)\<rparr>" for A B C
    unfolding read_claims_eq(2) [symmetric] by (cases "read_claims cr v") simp
  show ?thesis using W unfolding w b r standing_claims_def [symmetric] by simp
qed

text \<open>A view as the filter and the placing leave it.\<close>

definition unread :: "view \<Rightarrow> bool" where
  "unread v \<longleftrightarrow> vw_class v = (\<lambda>_. None) \<and> vw_members v = (\<lambda>_. []) \<and> vw_truth v = (\<lambda>_. Unasserted) \<and> vw_assertions v = (\<lambda>_. []) \<and>
    vw_supersedes v = (\<lambda>_. []) \<and> vw_superseded_by v = (\<lambda>_. []) \<and> vw_edges v = [] \<and> vw_contradicts v = (\<lambda>_. []) \<and>
    vw_equivalence_decls v = (\<lambda>_. []) \<and> vw_supersession_decls v = (\<lambda>_. []) \<and> vw_contradiction_decls v = (\<lambda>_. []) \<and> vw_conflicts v = []"

text \<open>The base of a view, which no reading changes.\<close>

definition based :: "view \<Rightarrow> view \<Rightarrow> bool" where
  "based v w \<longleftrightarrow> vw_subs w = vw_subs v \<and> vw_entries w = vw_entries v \<and> vw_order w = vw_order v \<and> vw_by_kind w = vw_by_kind v \<and> vw_positions w = vw_positions v"

lemma basedD: "based v w \<Longrightarrow> vw_subs w = vw_subs v" "based v w \<Longrightarrow> vw_entries w = vw_entries v" "based v w \<Longrightarrow> vw_order w = vw_order v"
  "based v w \<Longrightarrow> vw_by_kind w = vw_by_kind v" "based v w \<Longrightarrow> vw_positions w = vw_positions v"
  by (simp_all add: based_def)

lemma apply_readings_result:
  assumes ok: "order_ok cr src o1" and v: "view_ok cr v" and placed: "all_placed v o1"
    and at: "positions_ok cr src v (vw_positions v)" and u: "unread v"
  obtains w where "apply_readings cr src (read_claims cr v) o1 (v\<lparr>vw_malformed := cs_malformed (read_claims cr v)\<rparr>) = Some (Inr w)"
    and "readings cr src (bo_conflicts o1) w" and "based v w"
proof -
  let ?c = "\<lparr>cs_equivalences = standing_claims cr src v template_equivalence, cs_truths = claims_of cr v truth_templates,
       cs_contradictions = standing_claims cr src v template_contradiction,
       cs_supersessions = standing_claims cr src v template_supersession, cs_malformed = cs_malformed (read_claims cr v)\<rparr>"
  let ?v2 = "v\<lparr>vw_malformed := cs_malformed (read_claims cr v), vw_withdrawn := sorted_list_of_set (cl_meta ` fallen cr src v)\<rparr>"
  note s = standing_read [OF ok v placed, of "cs_malformed (read_claims cr v)"]
  have d: "distinct (vw_order ?v2)" using v by (simp add: view_ok_def strict_sorted_iff)
  have n: "vw_class ?v2 = (\<lambda>_. None)" "vw_members ?v2 = (\<lambda>_. [])" using u by (simp_all add: unread_def)
  from close_equivalences_result [OF d n, of ?c] obtain v3 where v3: "close_equivalences ?c ?v2 = Some v3"
    "classed (declared_pairs ?c) (vw_order ?v2) v3"
    "v3 = ?v2\<lparr>vw_class := vw_class v3, vw_members := vw_members v3, vw_equivalence_decls := vw_equivalence_decls v3\<rparr>" by blast
  define K where "K = vw_class v3"
  define M where "M = vw_members v3"
  define D1 where "D1 = vw_equivalence_decls v3"
  note v3' = v3(3) [folded K_def M_def D1_def]
  have b3: "based v v3" by (subst v3') (simp add: based_def)
  have d1: "set (D1 x) = decl_of ` {cl \<in> set (standing_claims cr src v template_equivalence). touches v3 x cl}" for x
    using equivalence_declarations_filed [OF v3(1) d n, of x] u by (simp add: D1_def unread_def)
  have "\<forall>cl \<in> set (cs_truths ?c). vw_has v3 (cl_a cl) \<longrightarrow> in_memo o1 (cl_prov cl)" using claims_in_memo [OF v placed] by simp
  moreover have "vw_truth v3 = (\<lambda>_. Unasserted)" "vw_assertions v3 = (\<lambda>_. [])" using u by (subst v3', simp add: unread_def)+
  ultimately obtain A where A: "apply_truth cr src v3 ?c o1 = Some (Inr (o1, v3\<lparr>vw_truth := truth_of (stated cr src v3 (cs_truths ?c)),
      vw_assertions := A, vw_conflicts := vw_conflicts v3 @ map (disagreement (stated cr src v3 (cs_truths ?c)) v3)
        (sorted_list_of_set {C. truth_of (stated cr src v3 (cs_truths ?c)) C = Conflicted})\<rparr>))"
    "\<forall>C. set (A C) = (\<lambda>r. assertion_of v3 (marked (stated cr src v3 (cs_truths ?c)) r)) ` {r \<in> stated cr src v3 (cs_truths ?c). tr_class r = C}"
    using truth_all [OF ok, of ?c v3] by blast
  have st: "stated cr src v3 (cs_truths ?c) = spoken cr src v3"
    by (simp add: spoken_def claims_of_cong(3) [OF basedD(2) [OF b3] basedD(1) [OF b3] basedD(4) [OF b3]])
  define S where "S = spoken cr src v3"
  note A' = A [unfolded st, folded S_def]
  define v4 where "v4 = v3\<lparr>vw_truth := truth_of S, vw_assertions := A, vw_conflicts := vw_conflicts v3 @ map (disagreement S v3) (sorted_list_of_set {C. truth_of S C = Conflicted})\<rparr>"
  have b4: "based v v4" using b3 by (simp add: based_def v4_def)
  have "vw_supersedes v4 = (\<lambda>_. [])" "vw_superseded_by v4 = (\<lambda>_. [])" "vw_edges v4 = []"
    unfolding v4_def using u by (subst v3', simp add: unread_def)+
  note sup = supersession_result [OF this, of ?c]
  have sc: "standing_claims cr src w t = standing_claims cr src v t" if "based v w" for w t
    using that by (intro claims_read(1)) (auto simp: based_def)
  have "cs_supersessions ?c = standing_claims cr src v4 template_supersession" by (simp add: sc [OF b4])
  with sup obtain D2 where sup: "apply_supersession v4 ?c = Some (v4\<lparr>vw_supersedes := successors_in (supersession_edges cr src v4),
      vw_superseded_by := successors_in ((supersession_edges cr src v4)\<inverse>), vw_edges := sorted_list_of_set (supersession_edges cr src v4),
      vw_supersession_decls := D2, vw_conflicts := vw_conflicts v4 @ cycle_conflicts cr src v4\<rparr>)"
    "\<forall>x. set (D2 x) = set (vw_supersession_decls v4 x) \<union> decl_of ` {cl \<in> set (standing_claims cr src v4 template_supersession). both_held v4 cl \<and> touches v4 x cl}"
    unfolding supersession_edges_def cycle_conflicts_def by auto
  define v5 where "v5 = v4\<lparr>vw_supersedes := successors_in (supersession_edges cr src v4),
      vw_superseded_by := successors_in ((supersession_edges cr src v4)\<inverse>), vw_edges := sorted_list_of_set (supersession_edges cr src v4),
      vw_supersession_decls := D2, vw_conflicts := vw_conflicts v4 @ cycle_conflicts cr src v4\<rparr>"
  have b5: "based v v5" using b4 by (simp add: based_def v5_def)
  have "vw_contradicts v5 = (\<lambda>_. [])" unfolding v5_def v4_def using u by (subst v3', simp add: unread_def)
  note con = contradiction_result [OF this, of ?c]
  have "cs_contradictions ?c = standing_claims cr src v5 template_contradiction" by (simp add: sc [OF b5])
  with con obtain D3 where con: "apply_contradictions v5 ?c = v5\<lparr>vw_contradicts := successors_in (contradiction_edges cr src v5 \<union> (contradiction_edges cr src v5)\<inverse>),
      vw_contradiction_decls := D3, vw_conflicts := vw_conflicts v5 @ contradiction_conflicts cr src v5\<rparr>"
    "\<forall>x. set (D3 x) = set (vw_contradiction_decls v5 x) \<union> decl_of ` {cl \<in> set (standing_claims cr src v5 template_contradiction). both_held v5 cl \<and> touches v5 x cl}"
    unfolding contradiction_edges_def contradiction_conflicts_def by auto
  define w where "w = (apply_contradictions v5 ?c)\<lparr>vw_conflicts := sort_key conflict_key (vw_conflicts (apply_contradictions v5 ?c) @ bo_conflicts o1)\<rparr>"
  have "apply_readings cr src (read_claims cr v) o1 (v\<lparr>vw_malformed := cs_malformed (read_claims cr v)\<rparr>) = Some (Inr w)"
    unfolding apply_readings_def s bindD_simps prod.case v3(1) option.case A' v4_def [symmetric] sup(1) v5_def [symmetric] w_def Let_def ..
  moreover have bw: "based v w" using b5 by (simp add: based_def w_def con(1))
  moreover have "readings cr src (bo_conflicts o1) w"
  proof -
    have f3: "vw_malformed v3 = cs_malformed (read_claims cr v)" "vw_withdrawn v3 = sorted_list_of_set (cl_meta ` fallen cr src v)"
      "vw_conflicts v3 = []" "vw_supersession_decls v3 = (\<lambda>_. [])" "vw_contradiction_decls v3 = (\<lambda>_. [])"
      using u by (subst v3', simp add: unread_def)+
    have fw: "vw_malformed w = cs_malformed (read_claims cr v)" "vw_withdrawn w = sorted_list_of_set (cl_meta ` fallen cr src v)"
      by (simp_all add: w_def con(1)) (simp_all add: v5_def v4_def f3)
    have same: "vw_class w = vw_class v3" "vw_members w = vw_members v3" "vw_class v4 = vw_class v3" "vw_members v4 = vw_members v3"
      "vw_class v5 = vw_class v3" "vw_members v5 = vw_members v3"
      by (simp_all add: w_def con(1)) (simp_all add: v5_def v4_def)
    have ent: "vw_entries w = vw_entries v3" "vw_entries v4 = vw_entries v3" "vw_entries v5 = vw_entries v3" "vw_subs w = vw_subs v3" "vw_subs v5 = vw_subs v3"
      "vw_positions w = vw_positions v3"
      using bw b3 b4 b5 by (simp_all add: based_def)
    have Sw: "spoken cr src w = S"
      unfolding S_def spoken_def claims_of_cong(3) [OF basedD(2) [OF bw] basedD(1) [OF bw] basedD(4) [OF bw]]
        claims_of_cong(3) [OF basedD(2) [OF b3] basedD(1) [OF b3] basedD(4) [OF b3]]
      by (rule stated_cong) (simp_all add: ent same)
    have E: "supersession_edges cr src v4 = supersession_edges cr src w"
      unfolding supersession_edges_def sc [OF b4] sc [OF bw] by (subst edges_cong(4) [of v4 w]) (simp_all add: ent same)
    have C: "contradiction_edges cr src v5 = contradiction_edges cr src w"
      unfolding contradiction_edges_def sc [OF b5] sc [OF bw] by (subst edges_cong(4) [of v5 w]) (simp_all add: ent same)
    have t: "touches v3 = touches w" "touches v4 = touches w" "touches v5 = touches w" "both_held v4 = both_held w" "both_held v5 = both_held w"
      by (rule edges_cong; simp add: ent same)+
    have tc: "map (disagreement S v3) (sorted_list_of_set {C. truth_of S C = Conflicted}) = truth_conflicts cr src w"
      unfolding truth_conflicts_def Sw by (subst disagreement_cong [of w v3]) (simp_all add: same)
    have cc: "cycle_conflicts cr src v4 = cycle_conflicts cr src w"
      unfolding cycle_conflicts_def sc [OF b4] sc [OF bw] E by (subst cycle_report_cong [of v4 w]) (simp_all add: ent same)
    have kc: "contradiction_conflicts cr src v5 = contradiction_conflicts cr src w"
      unfolding contradiction_conflicts_def sc [OF b5] sc [OF bw] C by (subst contradiction_report_cong [of v5 w]) (simp_all add: ent same)
    have none: "vw_conflicts v3 = []" "vw_supersession_decls v4 = (\<lambda>_. [])" "vw_contradiction_decls v5 = (\<lambda>_. [])"
      by (simp_all add: v5_def v4_def f3)
    have conflicts: "vw_conflicts w = sort_key conflict_key (truth_conflicts cr src w @ cycle_conflicts cr src w @ contradiction_conflicts cr src w @ bo_conflicts o1)"
    proof -
      have "vw_conflicts w = sort_key conflict_key (vw_conflicts v5 @ contradiction_conflicts cr src v5 @ bo_conflicts o1)"
        by (simp add: w_def con(1))
      moreover have "vw_conflicts v5 = vw_conflicts v4 @ cycle_conflicts cr src v4" by (simp add: v5_def)
      moreover have "vw_conflicts v4 = map (disagreement S v3) (sorted_list_of_set {C. truth_of S C = Conflicted})" by (simp add: v4_def f3)
      ultimately show ?thesis by (simp only: tc cc kc append_assoc)
    qed
    have as: "assertion_of w = assertion_of v3" by (rule assertion_of_cong) (simp add: ent)
    have D: "vw_equivalence_decls w = D1" "vw_supersession_decls w = D2" "vw_contradiction_decls w = D3"
      by (simp_all add: w_def con(1)) (simp_all add: v5_def v4_def D1_def)
    have T: "vw_truth w = truth_of S" "vw_assertions w = A" by (simp_all add: w_def con(1)) (simp_all add: v5_def v4_def)
    have R: "vw_supersedes w = successors_in (supersession_edges cr src w)" "vw_superseded_by w = successors_in ((supersession_edges cr src w)\<inverse>)"
      "vw_edges w = sorted_list_of_set (supersession_edges cr src w)" "vw_contradicts w = successors_in (contradiction_edges cr src w \<union> (contradiction_edges cr src w)\<inverse>)"
      unfolding E [symmetric] C [symmetric] by (simp_all add: w_def con(1)) (simp_all add: v5_def)
    have cl: "classed (equated cr src w) (vw_order w) w"
    proof -
      have "declared_pairs ?c = equated cr src w"
        by (simp add: declared_pairs_def equated_def sc [OF bw])
      moreover have "vw_order w = vw_order ?v2" using basedD(3) [OF bw] by simp
      ultimately show ?thesis using v3(2) classed_cong [OF same(1,2)] by simp
    qed
    have pos: "positions_ok cr src w (vw_positions w)"
      using at positions_cong [OF basedD(2) [OF bw] basedD(3) [OF bw]] basedD(5) [OF bw] by simp
    have mal: "vw_malformed w = filter (\<lambda>d. meta_of cr w d \<noteq> None \<and> claim_of cr w d = None) (vw_by_kind w Kind_molecule)"
      unfolding fw read_claims_eq(5) claims_of_cong(1,2) [OF basedD(2) [OF bw] basedD(1) [OF bw] basedD(4) [OF bw]] basedD(4) [OF bw] ..
    have wd: "vw_withdrawn w = sorted_list_of_set (cl_meta ` fallen cr src w)"
      unfolding fw claims_read(2) [OF basedD(2) [OF bw] basedD(1) [OF bw] basedD(4) [OF bw] basedD(5) [OF bw]] ..
    show ?thesis
      unfolding readings_def Sw D T R conflicts as
      using pos mal wd cl d1 A'(2) sup(2) con(2) by (simp add: none t sc [OF bw] sc [OF b4] sc [OF b5])
  qed
  ultimately show thesis using that by blast
qed

text \<open>The graph lists its entries in digest order, as the code relies on.\<close>

definition in_digest_order :: "crypto \<Rightarrow> graph \<Rightarrow> bool" where
  "in_digest_order cr g \<longleftrightarrow> sorted_wrt (<) (map (entry_digest cr) (graph_entries g))"

text \<open>The conflicts found while the blocks were placed.\<close>

definition junctions_surfaced :: "crypto \<Rightarrow> source \<Rightarrow> view \<Rightarrow> conflict list \<Rightarrow> bool" where
  "junctions_surfaced cr src v B \<longleftrightarrow>
    (\<forall>k \<in> set B. \<exists>g b j. placed cr src g \<lparr>pl_lineage = g, pl_index = 0\<rparr> \<and> src_block src g = Inr b \<and> junction cr src b = Some j \<and> k = ambiguity src j) \<and>
    (\<forall>t \<in> set (view_tags v). \<forall>p b j. placed cr src (snd t) p \<longrightarrow> src_block src (pl_lineage p) = Inr b \<longrightarrow> junction cr src b = Some j \<longrightarrow>
      (\<exists>k \<in> set B. fst j \<in> set (cf_blocks k)))"

lemma surfaced_junctions:
  assumes "order_ok cr src o'" and "surfaced_ok cr src o'" and "all_placed v o'"
  shows "junctions_surfaced cr src v (bo_conflicts o')"
  unfolding junctions_surfaced_def
proof (intro conjI ballI allI impI)
  fix k assume "k \<in> set (bo_conflicts o')"
  from surfaced_okD(1) [OF assms(2) this] show "\<exists>g b j. placed cr src g \<lparr>pl_lineage = g, pl_index = 0\<rparr> \<and> src_block src g = Inr b \<and>
      junction cr src b = Some j \<and> k = ambiguity src j" using order_okD [OF assms(1)] by blast
next
  fix t p b j assume t: "t \<in> set (view_tags v)" and p: "placed cr src (snd t) p" and b: "src_block src (pl_lineage p) = Inr b" "junction cr src b = Some j"
  obtain q where q: "bo_pos o' (snd t) = Some q" using t assms(3) by (auto simp: all_placed_def)
  have "q = p" using placed_unique [OF order_okD [OF assms(1) q] p] .
  then show "\<exists>k \<in> set (bo_conflicts o'). fst j \<in> set (cf_blocks k)" using surfaced_okD(2) [OF assms(2) q] b unfolding surfaced_def by blast
qed

text \<open>What Build returns.\<close>

lemma build_result:
  assumes "in_digest_order cr g"
  obtains (built) v B where "build_view cr (Some g) (Some src) subs = Some (Inr v)" "readings cr src B v" "view_ok cr v"
      "\<And>d e. vw_entries v d = Some e \<longleftrightarrow> e \<in> set (graph_entries g) \<and> entry_digest cr e = d \<and> admitted (subs_snapshot subs) e"
      "vw_subs v = subs_snapshot subs" "\<forall>t \<in> set (view_tags (filter_graph cr g subs)). \<exists>p. placed cr src (snd t) p"
      "junctions_surfaced cr src v B" "based v ((filter_graph cr g subs)\<lparr>vw_positions := vw_positions v\<rparr>)"
    | (failed) b e where "build_view cr (Some g) (Some src) subs = Some (Inl (Build_failed (Placing_block b e)))"
      "b \<in> snd ` set (view_tags (filter_graph cr g subs))" "\<And>p. \<not> placed cr src b p"
proof -
  let ?v = "filter_graph cr g subs"
  note ent = filter_graph_entries [OF assms [unfolded in_digest_order_def]]
  show thesis
  proof (cases rule: place_blocks_result [OF new_block_order_ok, of cr src ?v])
    case (2 e b)
    then show thesis using failed [of b e] by (simp add: build_view_def mapErrD_def)
  next
    case (1 o1 at)
    let ?w = "?v\<lparr>vw_positions := at\<rparr>"
    have vw: "view_ok cr ?w" using ent(2) [of subs] by (simp add: view_ok_def vw_has_def)
    have tags: "view_tags ?w = view_tags ?v" by (simp add: view_tags_def)
    then have pl: "all_placed ?w o1" using 1(3) by (simp add: all_placed_def)
    have "positions_ok cr src ?w at" using 1(4) positions_cong [of ?w ?v] by simp
    then have pos: "positions_ok cr src ?w (vw_positions ?w)" by simp
    have "unread ?w" by (subst filter_graph_rest) (simp add: unread_def empty_view_def)
    from apply_readings_result [OF 1(2) vw pl pos this] obtain w where
      w: "apply_readings cr src (read_claims cr ?w) o1 (?w\<lparr>vw_malformed := cs_malformed (read_claims cr ?w)\<rparr>) = Some (Inr w)"
      "readings cr src (bo_conflicts o1) w" "based ?w w" by blast
    have b: "build_view cr (Some g) (Some src) subs = Some (Inr w)" using 1(1) w(1) by (simp add: build_view_def mapErrD_def Let_def)
    have f: "vw_subs w = vw_subs ?v" "vw_entries w = vw_entries ?v" "vw_order w = vw_order ?v" "vw_by_kind w = vw_by_kind ?v" "vw_positions w = at"
      using w(3) by (simp_all add: based_def)
    have sub: "vw_subs ?v = subs_snapshot subs" by (subst filter_graph_rest) (simp add: empty_view_def)
    have ok: "view_ok cr w" using ent(2) [of subs] f by (simp add: view_ok_def vw_has_def)
    have tw: "view_tags w = view_tags ?v" using f by (simp add: view_tags_def)
    have placed_all: "\<forall>t \<in> set (view_tags ?v). \<exists>p. placed cr src (snd t) p"
      using 1(3) order_okD [OF 1(2)] unfolding all_placed_def by blast
    have "surfaced_ok cr src o1" by (rule place_blocks_surfaced [OF new_block_order_ok surfaced_new 1(1)])
    then have "junctions_surfaced cr src w (bo_conflicts o1)"
      using surfaced_junctions [OF 1(2)] 1(3) tw by (simp add: all_placed_def)
    moreover have "based w (?v\<lparr>vw_positions := vw_positions w\<rparr>)" using f by (simp add: based_def)
    ultimately show thesis using built [OF b w(2) ok _ _ placed_all] ent(1) [of subs] f sub by simp
  qed
qed

section \<open>The classes of a built view\<close>

text \<open>What the queries need to know of a view: its entities in order, its classes, and relations between classes with members.\<close>

definition inhabited :: "view \<Rightarrow> edge set \<Rightarrow> bool" where
  "inhabited v E \<longleftrightarrow> finite E \<and> E \<subseteq> {(class_at v a, class_at v b) | a b. vw_has v a \<and> vw_has v b}"

lemma inhabitedD: "inhabited v E \<Longrightarrow> (x, y) \<in> E \<Longrightarrow> \<exists>a b. vw_has v a \<and> vw_has v b \<and> class_at v a = x \<and> class_at v b = y"
proof -
  assume i: "inhabited v E" and e: "(x, y) \<in> E"
  from subsetD [OF conjunct2 [OF i [unfolded inhabited_def]] e] show ?thesis by blast
qed

lemma inhabited_finite: "inhabited v E \<Longrightarrow> finite E"
  by (simp add: inhabited_def)

lemma inhabited_converse: "inhabited v E \<Longrightarrow> inhabited v (E\<inverse>)"
proof -
  assume i: "inhabited v E"
  have "p \<in> {(class_at v a, class_at v b) | a b. vw_has v a \<and> vw_has v b}" if p: "p \<in> E\<inverse>" for p
  proof -
    obtain x y where xy: "p = (y, x)" "(x, y) \<in> E" using p by (cases p) simp
    from inhabitedD [OF i xy(2)] show ?thesis using xy(1) by blast
  qed
  then show ?thesis using i unfolding inhabited_def by (simp add: subsetI)
qed

lemma inhabited_union: "inhabited v E \<Longrightarrow> inhabited v F \<Longrightarrow> inhabited v (E \<union> F)"
  by (simp add: inhabited_def)

lemma edges_inhabited: "inhabited v (declared_edges (\<lambda>e. e) v cls)" "inhabited v (declared_edges canonical v cls)"
proof -
  have "inhabited v (declared_edges f v cls)"
    if f: "\<And>e. f e = e \<or> f e = (snd e, fst e)" for f
    unfolding inhabited_def
  proof (intro conjI subsetI)
    fix e assume "e \<in> declared_edges f v cls"
    then obtain cl where cl: "both_held v cl" "e = f (edge_at v cl)" unfolding declared_edges_def by blast
    have "e = (class_at v (cl_a cl), class_at v (cl_b cl)) \<or> e = (class_at v (cl_b cl), class_at v (cl_a cl))"
      using f [of "edge_at v cl"] cl(2) by (simp add: edge_at_def)
    then show "e \<in> {(class_at v a, class_at v b) | a b. vw_has v a \<and> vw_has v b}"
      using cl(1) unfolding both_held_def by blast
  qed simp
  from this [of "\<lambda>e. e"] this [of canonical] show "inhabited v (declared_edges (\<lambda>e. e) v cls)" "inhabited v (declared_edges canonical v cls)"
    by (simp_all add: canonical_def)
qed

definition well_classed :: "(digest \<times> digest) set \<Rightarrow> view \<Rightarrow> bool" where
  "well_classed P v \<longleftrightarrow> (\<forall>c. sorted_wrt (<) (vw_members v c) \<and> set (vw_members v c) = {d. vw_has v d \<and> class_at v d = c}) \<and>
    (\<forall>d. vw_has v d \<longrightarrow> least_of P d (class_at v d))"

lemma well_classedD:
  assumes "well_classed P v"
  shows "sorted_wrt (<) (vw_members v c)" "set (vw_members v c) = {d. vw_has v d \<and> class_at v d = c}"
    "vw_has v d \<Longrightarrow> least_of P d (class_at v d)"
  using assms unfolding well_classed_def by blast+

lemma classed_well:
  assumes "view_ok cr v" and "classed P (vw_order v) v"
  shows "well_classed P v"
proof -
  have s: "sorted_wrt (<) (vw_order v)" and has: "d \<in> set (vw_order v) \<longleftrightarrow> vw_has v d" for d using assms(1) by (auto simp: view_ok_def)
  have c: "vw_class v d = None \<longleftrightarrow> \<not> vw_has v d" "vw_class v d = Some r \<Longrightarrow> least_of P d r"
    "vw_members v r = filter (\<lambda>d. vw_class v d = Some r) (vw_order v)" for d r
    using assms(2) unfolding classed_def has [symmetric] by blast+
  have at: "vw_class v d = Some c \<longleftrightarrow> class_at v d = c" if "vw_has v d" for d c
    using c(1) [of d] that by (auto simp: class_at_def split: option.splits)
  have "set (vw_members v x) = {d. vw_has v d \<and> class_at v d = x}" for x unfolding c(3) using has at by auto
  moreover have "sorted_wrt (<) (vw_members v x)" for x unfolding c(3) using s by (rule sorted_wrt_filter)
  moreover have "least_of P d (class_at v d)" if "vw_has v d" for d using c(2) [of d] at [OF that] by blast
  ultimately show ?thesis unfolding well_classed_def by blast
qed

lemma members_in_set: "well_classed P v \<Longrightarrow> set (members_in v C) = {d. vw_has v d \<and> class_at v d \<in> C}"
proof -
  assume w: "well_classed P v"
  have f: "finite (\<Union>c \<in> C. set (vw_members v c))" by simp
  show ?thesis unfolding members_in_def set_sorted_list_of_set [OF f] unfolding well_classedD(2) [OF w] by blast
qed

lemma members_of_sorted: "sorted_wrt (<) (members_of v cs)"
  by (simp add: members_of_eq members_in_def)

lemma successors_in_set: "finite E \<Longrightarrow> set (successors_in E x) = {y. (x, y) \<in> E}"
proof -
  assume "finite E"
  then have "finite {y. (x, y) \<in> E}" by simp
  from set_sorted_list_of_set [OF this] show ?thesis unfolding successors_in_def .
qed

text \<open>What a relation between classes says of the entities of the view.\<close>

lemma related_members:
  assumes "well_classed P v" and "inhabited v E" and "vw_has v d"
  shows "set (members_of v (successors_in E (class_at v d))) = {x. vw_has v x \<and> (class_at v d, class_at v x) \<in> E}"
  unfolding members_of_eq members_in_set [OF assms(1)] successors_in_set [OF inhabited_finite [OF assms(2)]] by simp

lemma related_empty:
  assumes "inhabited v E"
  shows "successors_in E (class_at v d) = [] \<longleftrightarrow> {x. vw_has v x \<and> (class_at v d, class_at v x) \<in> E} = {}"
proof -
  have "successors_in E (class_at v d) = [] \<longleftrightarrow> {y. (class_at v d, y) \<in> E} = {}"
    using successors_in_set [OF inhabited_finite [OF assms]] by (metis set_empty)
  also have "\<dots> \<longleftrightarrow> {x. vw_has v x \<and> (class_at v d, class_at v x) \<in> E} = {}" using inhabitedD [OF assms] by blast
  finally show ?thesis .
qed

text \<open>A view that is built: what its readings say, with its classes.\<close>

lemma built_view:
  assumes "in_digest_order cr g" and "build_view cr (Some g) (Some src) subs = Some (Inr v)"
  obtains B where "readings cr src B v" "view_ok cr v" "well_classed (equated cr src v) v" "junctions_surfaced cr src v B"
    "inhabited v (supersession_edges cr src v)" "inhabited v (contradiction_edges cr src v)"
proof (cases rule: build_result [OF assms(1), of src subs])
  case (1 w B)
  then have "w = v" using assms(2) by simp
  then show thesis using that [of B] 1(2,3,7) classed_well [OF 1(3)] readings_fields(4) [OF 1(2)] edges_inhabited
    by (simp add: supersession_edges_def contradiction_edges_def)
next
  case (2 b e)
  then show thesis using assms(2) by simp
qed

section \<open>What a view holds\<close>

lemma graph_of_ordered:
  assumes "graph_of cr W X g" and "honest_items cr W"
  shows "in_digest_order cr g"
proof -
  have ok: "graph_shows (facts cr X) g" "finite X" using graph_of_ok [OF assms] by (simp_all add: graph_ok_def)
  have fin: "finite (digests_of (facts cr X))" using finite_facts [OF ok(2)] by (simp add: digests_of_def)
  have o: "gr_order g = sorted_list_of_set (digests_of (facts cr X))" by (rule showsD(3) [OF ok(1)])
  have held: "\<forall>d \<in> set (gr_order g). gr_entities g d \<noteq> None" using shows_dom [OF ok(1)] fin o by simp
  have "entry_digest cr (the (gr_entities g d)) = d" if d: "d \<in> set (gr_order g)" for d
  proof -
    obtain n where n: "gr_entities g d = Some n" using held d by blast
    obtain c t where c: "(c, t) \<in> facts cr X" "cn_digest c = d" "n = entry_of (facts cr X) c" using shows_entity [OF ok(1) n] .
    then show ?thesis using fact_digest [OF c(1)] n by (simp add: entry_digest_def entry_of_def)
  qed
  then have "map (entry_digest cr) (graph_entries g) = gr_order g"
    using entries_of_map [OF held] by (simp add: graph_entries_def map_idI)
  then show ?thesis by (simp add: in_digest_order_def o)
qed

lemma snapshot_subscribed:
  assumes "\<forall>s. subs = Some s \<longrightarrow> subs_ok s"
  shows "subscribed (Some (subs_snapshot subs)) pub \<longleftrightarrow> subscribed subs pub"
proof (cases subs)
  case None
  then show ?thesis by (simp add: subscribed_def subs_snapshot_def no_subscriptions_def split: option.splits)
next
  case (Some s)
  then show ?thesis using snapshot_same [of s] assms by simp
qed

lemma admitted_subscribed:
  assumes "\<forall>s. subs = Some s \<longrightarrow> subs_ok s"
  shows "admitted (subs_snapshot subs) e \<longleftrightarrow> (\<exists>t \<in> set (ge_authors e). subscribed subs (digest_bytes (fst t)))"
  unfolding admitted_def subscribed_provenance_def filter_empty_conv snapshot_subscribed [OF assms] by blast

text \<open>
  The blocks that published what a subscribed author published, whoever signed them.
\<close>

lemma tags_of_view:
  assumes "in_digest_order cr g" and "\<forall>s. subs = Some s \<longrightarrow> subs_ok s"
  shows "set (view_tags (filter_graph cr g subs)) =
    {t. \<exists>e \<in> set (graph_entries g). (\<exists>t' \<in> set (ge_authors e). subscribed subs (digest_bytes (fst t'))) \<and> t \<in> set (ge_authors e)}"
proof -
  let ?v = "filter_graph cr g subs"
  note ent = filter_graph_entries [OF assms(1) [unfolded in_digest_order_def], of subs]
  have o: "set (vw_order ?v) = {d. vw_has ?v d}" using ent(2) by (simp add: view_ok_def)
  have "set (view_tags ?v) = {t. \<exists>d e. vw_entries ?v d = Some e \<and> t \<in> set (ge_authors e)}"
  proof (intro set_eqI)
    fix t
    have "t \<in> set (view_tags ?v) \<longleftrightarrow> (\<exists>d \<in> set (vw_order ?v). t \<in> set (case vw_entries ?v d of None \<Rightarrow> [] | Some e \<Rightarrow> ge_authors e))"
      by (simp add: view_tags_def)
    also have "\<dots> \<longleftrightarrow> (\<exists>d e. vw_entries ?v d = Some e \<and> t \<in> set (ge_authors e))"
    proof
      assume "\<exists>d \<in> set (vw_order ?v). t \<in> set (case vw_entries ?v d of None \<Rightarrow> [] | Some e \<Rightarrow> ge_authors e)"
      then obtain d where d: "t \<in> set (case vw_entries ?v d of None \<Rightarrow> [] | Some e \<Rightarrow> ge_authors e)" by blast
      then show "\<exists>d e. vw_entries ?v d = Some e \<and> t \<in> set (ge_authors e)" by (cases "vw_entries ?v d") auto
    next
      assume "\<exists>d e. vw_entries ?v d = Some e \<and> t \<in> set (ge_authors e)"
      then obtain d e where de: "vw_entries ?v d = Some e" "t \<in> set (ge_authors e)" by blast
      then have "d \<in> set (vw_order ?v)" by (simp add: o vw_has_def)
      then show "\<exists>d \<in> set (vw_order ?v). t \<in> set (case vw_entries ?v d of None \<Rightarrow> [] | Some e \<Rightarrow> ge_authors e)"
        using de by (intro bexI [of _ d]) simp_all
    qed
    finally show "t \<in> set (view_tags ?v) \<longleftrightarrow> t \<in> {t. \<exists>d e. vw_entries ?v d = Some e \<and> t \<in> set (ge_authors e)}" by simp
  qed
  then show ?thesis unfolding ent(1) admitted_subscribed [OF assms(2)] by blast
qed

end
