(* ===== verification/Accept_Laws.thy ===== *)
theory Accept_Laws
  imports Accept
begin

text \<open>
  What a built view says (\<open>go/accept\<close>): what is in it, its classes, its relations, the current version
  of a molecule and its conflicts, each stated by the queries of the view and proved from the
  readings of \<open>Accept\<close>; then a view of six molecules, on which each statement is applied.
\<close>

section \<open>Build\<close>

text \<open>
  C13. Build. It always returns. Over a graph and a source it gives a view exactly when every block that
  published an entity a subscribed author published has its place in block order, whoever signed
  that block; otherwise the error of placing such a block. Without a graph or a source it gives the
  error that says so.
\<close>

theorem build_returns:
  assumes "in_digest_order cr g" and "\<forall>s. subs = Some s \<longrightarrow> subs_ok s"
  shows "build_view cr None s' subs = Some (Inl No_graph) \<and> build_view cr (Some g) None subs = Some (Inl No_source) \<and>
    (let needed = {b. \<exists>e \<in> set (graph_entries g). (\<exists>t \<in> set (ge_authors e). subscribed subs (digest_bytes (fst t))) \<and> b \<in> snd ` set (ge_authors e)} in
     if \<forall>b \<in> needed. \<exists>p. placed cr src b p then \<exists>v. build_view cr (Some g) (Some src) subs = Some (Inr v)
     else \<exists>b \<in> needed. \<exists>e. (\<forall>p. \<not> placed cr src b p) \<and> build_view cr (Some g) (Some src) subs = Some (Inl (Build_failed (Placing_block b e))))"
proof -
  let ?N = "{b. \<exists>e \<in> set (graph_entries g). (\<exists>t \<in> set (ge_authors e). subscribed subs (digest_bytes (fst t))) \<and> b \<in> snd ` set (ge_authors e)}"
  have N: "snd ` set (view_tags (filter_graph cr g subs)) = ?N" unfolding tags_of_view [OF assms] by blast
  have "if \<forall>b \<in> ?N. \<exists>p. placed cr src b p then \<exists>v. build_view cr (Some g) (Some src) subs = Some (Inr v)
     else \<exists>b \<in> ?N. \<exists>e. (\<forall>p. \<not> placed cr src b p) \<and> build_view cr (Some g) (Some src) subs = Some (Inl (Build_failed (Placing_block b e)))"
  proof (cases rule: build_result [OF assms(1), of src subs])
    case (1 v B)
    then have "\<forall>b \<in> ?N. \<exists>p. placed cr src b p" unfolding N [symmetric] by blast
    then show ?thesis using 1(1) by auto
  next
    case (2 b e)
    have b: "b \<in> ?N" using 2(2) unfolding N .
    then have "\<not> (\<forall>b \<in> ?N. \<exists>p. placed cr src b p)" using 2(3) by blast
    then show ?thesis using 2(1,3) b by (simp only: if_False) blast
  qed
  then show ?thesis by (simp only: build_view_def option.case Let_def simp_thms)
qed

text \<open>
  C3. Filtering. An entity is in the view exactly when the graph holds it and a subscribed author
  published it; the view lists its entities, and those of a kind, as the graph lists them, in digest
  order.
\<close>

theorem view_holds:
  assumes "in_digest_order cr g" and "\<forall>s. subs = Some s \<longrightarrow> subs_ok s" and "build_view cr (Some g) (Some src) subs = Some (Inr v)"
  shows "(view_lookup v d = Some e \<longleftrightarrow>
      e \<in> set (graph_entries g) \<and> entry_digest cr e = d \<and> (\<exists>t \<in> set (ge_authors e). subscribed subs (digest_bytes (fst t)))) \<and>
    view_entries v = filter (\<lambda>e. \<exists>t \<in> set (ge_authors e). subscribed subs (digest_bytes (fst t))) (graph_entries g) \<and>
    view_digests v = map (entry_digest cr) (view_entries v) \<and>
    view_entries_of_kind v k = filter (\<lambda>e. ge_kind e = k) (view_entries v)"
proof (cases rule: build_result [OF assms(1), of src subs])
  case (1 w B)
  have w: "w = v" using 1(1) assms(3) by simp
  note ent = 1(4) [unfolded w] and ok = 1(3) [unfolded w]
  let ?es = "filter (admitted (subs_snapshot subs)) (graph_entries g)"
  have look: "view_lookup v d = Some e \<longleftrightarrow> e \<in> set (graph_entries g) \<and> entry_digest cr e = d \<and> admitted (subs_snapshot subs) e" for d e
    unfolding view_lookup_def by (rule ent)
  have sorted: "sorted_wrt (<) (map (entry_digest cr) ?es)"
    using assms(1) by (simp add: in_digest_order_def sorted_wrt_map sorted_wrt_filter)
  have has: "vw_has v d \<longleftrightarrow> d \<in> entry_digest cr ` set ?es" for d
    using ent [of d] by (auto simp: vw_has_def image_iff)
  have order: "vw_order v = map (entry_digest cr) ?es"
  proof (rule strict_sorted_equal)
    show "sorted_wrt (<) (vw_order v)" using ok by (simp add: view_ok_def)
    show "sorted_wrt (<) (map (entry_digest cr) ?es)" by (rule sorted)
    show "set (vw_order v) = set (map (entry_digest cr) ?es)" using ok has by (auto simp: view_ok_def)
  qed
  have val: "the (vw_entries v (entry_digest cr e)) = e" if "e \<in> set ?es" for e
    using ent [of "entry_digest cr e" e] that by simp
  have entries: "view_entries v = ?es"
    unfolding view_entries_def view_entries_of_def order map_map comp_def using val by (intro map_idI) simp
  have "vw_by_kind v k = filter (\<lambda>d. ge_kind (the (vw_entries v d)) = k) (vw_order v)" using ok by (simp add: view_ok_def)
  then have "view_entries_of_kind v k = filter (\<lambda>e. ge_kind e = k) (view_entries v)"
    by (simp add: view_entries_of_kind_def view_entries_def view_entries_of_def filter_map comp_def)
  moreover have "admitted (subs_snapshot subs) = (\<lambda>e. \<exists>t \<in> set (ge_authors e). subscribed subs (digest_bytes (fst t)))"
    by (rule ext) (rule admitted_subscribed [OF assms(2)])
  ultimately show ?thesis unfolding look entries by (simp add: view_digests_def order)
next
  case (2 b e)
  then show ?thesis using assms(3) by simp
qed


lemma equivalent_conn:
  assumes "well_classed P v"
  shows "equivalent v a b \<longleftrightarrow> vw_has v a \<and> vw_has v b \<and> (a, b) \<in> conn P"
proof (cases "vw_has v a \<and> vw_has v b")
  case True
  then show ?thesis using least_of_unique [OF well_classedD(3) [OF assms] well_classedD(3) [OF assms], of a b] by (simp add: equivalent_def)
qed (auto simp: equivalent_def)

text \<open>
  C17. Equivalence. Two entities of the view are equivalent exactly when the standing equivalences connect
  them, in any number of steps and directions; a class lists the entities of the view equivalent to
  its member, in digest order.
\<close>

theorem equivalence_correct:
  assumes "in_digest_order cr g" and "build_view cr (Some g) (Some src) subs = Some (Inr v)"
  shows "(equivalent v a b \<longleftrightarrow> vw_has v a \<and> vw_has v b \<and> (a, b) \<in> conn (equated cr src v)) \<and>
    equivalence_class v a = filter (equivalent v a) (view_digests v)"
proof -
  obtain B where B: "readings cr src B v" "view_ok cr v" "well_classed (equated cr src v) v" using built_view [OF assms] by blast
  have "equivalence_class v a = filter (equivalent v a) (view_digests v)"
  proof (rule strict_sorted_equal)
    show "sorted_wrt (<) (equivalence_class v a)" using well_classedD(1) [OF B(3)] by (simp add: equivalence_class_def)
    show "sorted_wrt (<) (filter (equivalent v a) (view_digests v))" using B(2) by (simp add: view_ok_def view_digests_def sorted_wrt_filter)
    show "set (equivalence_class v a) = set (filter (equivalent v a) (view_digests v))"
      using B(2) well_classedD(2) [OF B(3)] by (auto simp: view_ok_def view_digests_def equivalence_class_def equivalent_def)
  qed
  then show ?thesis using equivalent_conn [OF B(3)] by blast
qed

section \<open>The relations between the entities of a view\<close>

lemma edge_claims:
  assumes "vw_has v x" and "vw_has v y"
  shows "(class_at v x, class_at v y) \<in> declared_edges (\<lambda>e. e) v cls \<longleftrightarrow> (\<exists>cl \<in> set cls. equivalent v x (cl_a cl) \<and> equivalent v y (cl_b cl))"
    and "(class_at v x, class_at v y) \<in> declared_edges canonical v cls \<union> (declared_edges canonical v cls)\<inverse> \<longleftrightarrow>
      (\<exists>cl \<in> set cls. equivalent v x (cl_a cl) \<and> equivalent v y (cl_b cl) \<or> equivalent v y (cl_a cl) \<and> equivalent v x (cl_b cl))"
proof -
  show "(class_at v x, class_at v y) \<in> declared_edges (\<lambda>e. e) v cls \<longleftrightarrow> (\<exists>cl \<in> set cls. equivalent v x (cl_a cl) \<and> equivalent v y (cl_b cl))"
    using assms by (auto simp: declared_edges_def edge_at_def both_held_def equivalent_def)
  have c: "(a, b) = canonical e \<or> (b, a) = canonical e \<longleftrightarrow> e = (a, b) \<or> e = (b, a)" for a b e
    by (cases e) (auto simp: canonical_def)
  have "(class_at v x, class_at v y) \<in> declared_edges canonical v cls \<union> (declared_edges canonical v cls)\<inverse> \<longleftrightarrow>
      (\<exists>cl \<in> set cls. both_held v cl \<and> ((class_at v x, class_at v y) = canonical (edge_at v cl) \<or> (class_at v y, class_at v x) = canonical (edge_at v cl)))"
    unfolding declared_edges_def by blast
  also have "\<dots> \<longleftrightarrow> (\<exists>cl \<in> set cls. equivalent v x (cl_a cl) \<and> equivalent v y (cl_b cl) \<or> equivalent v y (cl_a cl) \<and> equivalent v x (cl_b cl))"
    unfolding c using assms by (intro bex_cong) (auto simp: edge_at_def both_held_def equivalent_def)
  finally show "(class_at v x, class_at v y) \<in> declared_edges canonical v cls \<union> (declared_edges canonical v cls)\<inverse> \<longleftrightarrow>
      (\<exists>cl \<in> set cls. equivalent v x (cl_a cl) \<and> equivalent v y (cl_b cl) \<or> equivalent v y (cl_a cl) \<and> equivalent v x (cl_b cl))" .
qed

lemma superseded_members:
  assumes "readings cr src B v" and "well_classed P v" and "inhabited v (supersession_edges cr src v)" and "vw_has v d"
  shows "set (superseded_by v d) = {x. vw_has v x \<and> (class_at v x, class_at v d) \<in> supersession_edges cr src v}"
    and "set (supersedes v d) = {x. vw_has v x \<and> (class_at v d, class_at v x) \<in> supersession_edges cr src v}"
    and "is_superseded v d \<longleftrightarrow> superseded_by v d \<noteq> []"
proof -
  note f = readings_fields(7,8) [OF assms(1)]
  show s: "set (superseded_by v d) = {x. vw_has v x \<and> (class_at v x, class_at v d) \<in> supersession_edges cr src v}"
    using related_members [OF assms(2) inhabited_converse [OF assms(3)] assms(4)] assms(4) by (simp add: superseded_by_def f)
  show "set (supersedes v d) = {x. vw_has v x \<and> (class_at v d, class_at v x) \<in> supersession_edges cr src v}"
    using related_members [OF assms(2,3,4)] assms(4) by (simp add: supersedes_def f)
  have "is_superseded v d \<longleftrightarrow> set (superseded_by v d) \<noteq> {}"
    unfolding s using related_empty [OF inhabited_converse [OF assms(3)], of d] assms(4) by (simp add: is_superseded_def f)
  then show "is_superseded v d \<longleftrightarrow> superseded_by v d \<noteq> []" by simp
qed

lemma contradiction_members:
  assumes "readings cr src B v" and "well_classed P v" and "inhabited v (contradiction_edges cr src v)" and "vw_has v d"
  shows "set (contradictions v d) = {x. vw_has v x \<and> (class_at v d, class_at v x) \<in> contradiction_edges cr src v \<union> (contradiction_edges cr src v)\<inverse>}"
  using related_members [OF assms(2) inhabited_union [OF assms(3) inhabited_converse [OF assms(3)]] assms(4)] assms(4)
  by (simp add: contradictions_def readings_fields(9) [OF assms(1)])

text \<open>
  C18. Supersession and contradiction. A molecule of the view supersedes, or contradicts, another exactly
  when a standing claim of that kind names something equivalent to the one and to the other, in
  that order for a supersession and in either for a contradiction. Each list is in digest order, and
  a molecule is marked superseded exactly when something supersedes it.
\<close>

theorem relations_correct:
  assumes "in_digest_order cr g" and "build_view cr (Some g) (Some src) subs = Some (Inr v)"
  shows "(x \<in> set (superseded_by v d) \<longleftrightarrow>
      (\<exists>cl \<in> set (standing_claims cr src v template_supersession). equivalent v x (cl_a cl) \<and> equivalent v d (cl_b cl))) \<and>
    (d \<in> set (supersedes v x) \<longleftrightarrow> x \<in> set (superseded_by v d)) \<and> (is_superseded v d \<longleftrightarrow> superseded_by v d \<noteq> []) \<and>
    (x \<in> set (contradictions v d) \<longleftrightarrow> (\<exists>cl \<in> set (standing_claims cr src v template_contradiction).
      equivalent v x (cl_a cl) \<and> equivalent v d (cl_b cl) \<or> equivalent v d (cl_a cl) \<and> equivalent v x (cl_b cl))) \<and>
    sorted_wrt (<) (superseded_by v d) \<and> sorted_wrt (<) (supersedes v d) \<and> sorted_wrt (<) (contradictions v d)"
proof -
  obtain B where B: "readings cr src B v" "well_classed (equated cr src v) v"
    "inhabited v (supersession_edges cr src v)" "inhabited v (contradiction_edges cr src v)" using built_view [OF assms] by blast
  note sb = superseded_members [OF B(1,2,3)]
  have held: "vw_has v d \<and> vw_has v x" if "equivalent v x a \<and> equivalent v d b" for a b
    using that by (auto simp: equivalent_def split: if_splits)
  have empty: "\<not> vw_has v d \<Longrightarrow> superseded_by v d = []" "\<not> vw_has v d \<Longrightarrow> \<not> is_superseded v d" "\<not> vw_has v x \<Longrightarrow> supersedes v x = []"
    "\<not> vw_has v d \<Longrightarrow> contradictions v d = []"
    by (simp_all add: superseded_by_def is_superseded_def supersedes_def contradictions_def)
  have s: "x \<in> set (superseded_by v d) \<longleftrightarrow> (\<exists>cl \<in> set (standing_claims cr src v template_supersession). equivalent v x (cl_a cl) \<and> equivalent v d (cl_b cl))"
  proof (cases "vw_has v d \<and> vw_has v x")
    case True
    then show ?thesis using sb(1) edge_claims(1) [of v x d] by (simp add: supersession_edges_def)
  next
    case False
    then show ?thesis using sb(1) empty(1) held by (cases "vw_has v d") auto
  qed
  have "d \<in> set (supersedes v x) \<longleftrightarrow> x \<in> set (superseded_by v d)"
    using sb(1) [of d] sb(2) [of x] empty(1,3) by (cases "vw_has v d"; cases "vw_has v x") auto
  moreover have "is_superseded v d \<longleftrightarrow> superseded_by v d \<noteq> []" using sb(3) empty(1,2) by (cases "vw_has v d") auto
  moreover have "x \<in> set (contradictions v d) \<longleftrightarrow> (\<exists>cl \<in> set (standing_claims cr src v template_contradiction).
      equivalent v x (cl_a cl) \<and> equivalent v d (cl_b cl) \<or> equivalent v d (cl_a cl) \<and> equivalent v x (cl_b cl))"
  proof (cases "vw_has v d \<and> vw_has v x")
    case True
    then show ?thesis using contradiction_members [OF B(1,2,4), of d] edge_claims(2) [of v d x "standing_claims cr src v template_contradiction"]
      by (auto simp: contradiction_edges_def)
  next
    case False
    have "x \<notin> set (contradictions v d)"
    proof (cases "vw_has v d")
      case True
      then show ?thesis using contradiction_members [OF B(1,2,4)] False by simp
    qed (simp add: empty)
    then show ?thesis using False by (auto simp: equivalent_def split: if_splits)
  qed
  ultimately show ?thesis using s members_of_sorted by (simp add: superseded_by_def supersedes_def contradictions_def)
qed

section \<open>The current version\<close>

definition replaced :: "view \<Rightarrow> (digest \<times> digest) set" where
  "replaced v = {(x, y). equivalent v x y \<or> y \<in> set (superseded_by v x)}"

lemma current_walk_result:
  assumes "\<forall>c. met c \<or> c \<in> set cs \<longrightarrow> reach (vw_superseded_by v) D c" and "met D \<or> D \<in> set cs"
    and "\<forall>c. met c \<longrightarrow> (\<forall>n \<in> set (vw_superseded_by v c). met n \<or> n \<in> set cs)"
    and "out = sorted_list_of_set {m. \<exists>c. met c \<and> vw_superseded_by v c = [] \<and> m \<in> set (vw_members v c)}"
  shows "snd (current_walk v cs (met, out)) =
    sorted_list_of_set {m. \<exists>c. reach (vw_superseded_by v) D c \<and> vw_superseded_by v c = [] \<and> m \<in> set (vw_members v c)}"
  using assms
proof (induction v cs "(met, out)" arbitrary: met out rule: current_walk.induct)
  case (1 v)
  have "met c" if "reach (vw_superseded_by v) D c" for c
    using closed_reach [OF that, of "{c. met c}"] 1(2,3) by auto
  then have "met = (\<lambda>c. reach (vw_superseded_by v) D c)" using 1(1) by auto
  then show ?case using 1(4) by simp
next
  case (2 v c cs met out)
  show ?case
  proof (cases "met c")
    case True
    have "snd (current_walk v cs (met, out)) =
        sorted_list_of_set {m. \<exists>c. reach (vw_superseded_by v) D c \<and> vw_superseded_by v c = [] \<and> m \<in> set (vw_members v c)}"
      by (rule 2(1) [OF True]) (use 2(4-7) True in auto)
    then show ?thesis using True by simp
  next
    case fresh: False
    show ?thesis
    proof (cases "vw_superseded_by v c = []")
      case True
      have "{m. \<exists>x. (met(c := True)) x \<and> vw_superseded_by v x = [] \<and> m \<in> set (vw_members v x)} =
          {m. \<exists>x. met x \<and> vw_superseded_by v x = [] \<and> m \<in> set (vw_members v x)} \<union> set (vw_members v c)"
        using True by auto
      then have out: "foldl insert_ordered out (vw_members v c) =
          sorted_list_of_set {m. \<exists>x. (met(c := True)) x \<and> vw_superseded_by v x = [] \<and> m \<in> set (vw_members v x)}"
        unfolding 2(7) by (simp add: insert_ordered_fold)
      have "snd (current_walk v cs (met(c := True), foldl insert_ordered out (vw_members v c))) =
          sorted_list_of_set {m. \<exists>c. reach (vw_superseded_by v) D c \<and> vw_superseded_by v c = [] \<and> m \<in> set (vw_members v c)}"
        by (rule 2(2) [OF fresh refl True _ _ _ out]) (use 2(4-6) True in auto)
      then show ?thesis using fresh True by simp
    next
      case False
      have out: "out = sorted_list_of_set {m. \<exists>x. (met(c := True)) x \<and> vw_superseded_by v x = [] \<and> m \<in> set (vw_members v x)}"
      proof -
        have "{m. \<exists>x. (met(c := True)) x \<and> vw_superseded_by v x = [] \<and> m \<in> set (vw_members v x)} =
            {m. \<exists>x. met x \<and> vw_superseded_by v x = [] \<and> m \<in> set (vw_members v x)}" using False by auto
        then show ?thesis unfolding 2(7) by simp
      qed
      have r: "reach (vw_superseded_by v) D c" using 2(4) by simp
      then have n: "reach (vw_superseded_by v) D n" if "n \<in> set (vw_superseded_by v c)" for n using that by (auto intro: rtrancl_into_rtrancl)
      have "snd (current_walk v (vw_superseded_by v c @ cs) (met(c := True), out)) =
          sorted_list_of_set {m. \<exists>c. reach (vw_superseded_by v) D c \<and> vw_superseded_by v c = [] \<and> m \<in> set (vw_members v c)}"
        by (rule 2(3) [OF fresh refl False _ _ _ out]) (use 2(4-6) n r in auto)
      then show ?thesis using fresh False by simp
    qed
  qed
qed


section \<open>The conflicts of a view\<close>

lemma conflict_kinds:
  "k \<in> set (truth_conflicts cr src v) \<Longrightarrow> cf_kind k = Truth_disagreement"
  "k \<in> set (cycle_conflicts cr src v) \<Longrightarrow> cf_kind k = Supersession_cycle"
  "k \<in> set (contradiction_conflicts cr src v) \<Longrightarrow> cf_kind k = Contradiction"
  by (auto simp: truth_conflicts_def cycle_conflicts_def contradiction_conflicts_def disagreement_def cycle_report_def
      contradiction_report_def Let_def)

lemma ambiguity_kind [simp]: "cf_kind (ambiguity src j) = Ambiguous_order"
  by (simp add: ambiguity_def Let_def)

lemma junctions_kind: "junctions_surfaced cr src v B \<Longrightarrow> k \<in> set B \<Longrightarrow> cf_kind k = Ambiguous_order"
  unfolding junctions_surfaced_def by (metis ambiguity_kind)

lemma conflicts_split:
  assumes "readings cr src B v" and "junctions_surfaced cr src v B"
  shows "set (conflicts_of_kind v Truth_disagreement) = set (truth_conflicts cr src v)"
    and "set (conflicts_of_kind v Supersession_cycle) = set (cycle_conflicts cr src v)"
    and "set (conflicts_of_kind v Contradiction) = set (contradiction_conflicts cr src v)"
    and "set (conflicts_of_kind v Ambiguous_order) = set B"
    and "set (conflicts v) = set (truth_conflicts cr src v) \<union> set (cycle_conflicts cr src v) \<union> set (contradiction_conflicts cr src v) \<union> set B"
proof -
  show all: "set (conflicts v) = set (truth_conflicts cr src v) \<union> set (cycle_conflicts cr src v) \<union> set (contradiction_conflicts cr src v) \<union> set B"
    by (simp add: conflicts_def readings_fields(13) [OF assms(1)] Un_assoc)
  have f: "set (conflicts_of_kind v q) = {k \<in> set (conflicts v). cf_kind k = q}" for q by (auto simp: conflicts_of_kind_def conflicts_def)
  note kinds = conflict_kinds [of _ cr src v] junctions_kind [OF assms(2)]
  show "set (conflicts_of_kind v Truth_disagreement) = set (truth_conflicts cr src v)"
    "set (conflicts_of_kind v Supersession_cycle) = set (cycle_conflicts cr src v)"
    "set (conflicts_of_kind v Contradiction) = set (contradiction_conflicts cr src v)"
    "set (conflicts_of_kind v Ambiguous_order) = set B"
    unfolding f all by (auto dest: kinds)
qed

lemma successors_edges: "finite E \<Longrightarrow> component (successors_in E) u = {w. (u, w) \<in> E\<^sup>* \<and> (w, u) \<in> E\<^sup>*}"
  by (simp add: component_def edges_of_successors)

text \<open>Round trips through the relation of the entities are those through the relation of their classes.\<close>

lemma superseding_paths:
  assumes "readings cr src B v" and "well_classed P v" and "inhabited v (supersession_edges cr src v)"
  shows "(d, d) \<in> {(x, y). y \<in> set (superseded_by v x)}\<^sup>+ \<longleftrightarrow> vw_has v d \<and> (class_at v d, class_at v d) \<in> (supersession_edges cr src v)\<^sup>+"
proof -
  let ?R = "{(x, y). y \<in> set (superseded_by v x)}" and ?E = "supersession_edges cr src v"
  note sb = superseded_members(1) [OF assms]
  have edge: "(x, y) \<in> ?R \<longleftrightarrow> vw_has v x \<and> vw_has v y \<and> (class_at v y, class_at v x) \<in> ?E" for x y
    using sb [of x] by (cases "vw_has v x") (auto simp: superseded_by_def)
  have to: "vw_has v x \<and> (class_at v y, class_at v x) \<in> ?E\<^sup>+" if "(x, y) \<in> ?R\<^sup>+" for x y
    using that
  proof (induction rule: trancl_induct)
    case (base y)
    then show ?case using edge by blast
  next
    case (step y z)
    then have "(class_at v z, class_at v y) \<in> ?E" using edge by blast
    then show ?case using step.IH by (blast intro: trancl_into_trancl2)
  qed
  have fro: "(y, x) \<in> ?R\<^sup>+" if "(c, c') \<in> ?E\<^sup>+" "vw_has v x" "vw_has v y" "class_at v x = c" "class_at v y = c'" for c c' x y
    using that
  proof (induction arbitrary: y rule: trancl_induct)
    case (base c')
    then have "(y, x) \<in> ?R" unfolding edge by simp
    then show ?case by blast
  next
    case (step b c')
    obtain m where m: "vw_has v m" "class_at v m = b" using inhabitedD [OF assms(3) step(2)] by blast
    have "(y, m) \<in> ?R" unfolding edge using step m by simp
    then show ?case using step.IH [OF step(4) m(1) step(6) m(2)] by (blast intro: trancl_into_trancl2)
  qed
  show ?thesis using to [of d d] fro [of "class_at v d" "class_at v d" d d] by blast
qed

text \<open>
  C4. Conflicts. A molecule is conflicted exactly when a truth disagreement names it; two molecules
  contradict each other exactly when a contradiction has them on its two sides, or on its only side
  when they are of one class; a molecule supersedes itself in some number of steps exactly when a
  supersession cycle names it.
\<close>

theorem conflicts_surfaced:
  assumes "in_digest_order cr g" and "build_view cr (Some g) (Some src) subs = Some (Inr v)"
  shows "(truth_at v d = Conflicted \<longleftrightarrow> (\<exists>k \<in> set (conflicts_of_kind v Truth_disagreement). d \<in> set (cf_molecules k))) \<and>
    (e \<in> set (contradictions v d) \<longleftrightarrow> (\<exists>k \<in> set (conflicts_of_kind v Contradiction).
      (\<exists>s s'. cf_sides k = [s, s'] \<and> (d \<in> set (sd_molecules s) \<and> e \<in> set (sd_molecules s') \<or> e \<in> set (sd_molecules s) \<and> d \<in> set (sd_molecules s'))) \<or>
      (\<exists>s. cf_sides k = [s] \<and> d \<in> set (sd_molecules s) \<and> e \<in> set (sd_molecules s)))) \<and>
    ((d, d) \<in> {(x, y). y \<in> set (superseded_by v x)}\<^sup>+ \<longleftrightarrow> (\<exists>k \<in> set (conflicts_of_kind v Supersession_cycle). d \<in> set (cf_molecules k)))"
proof -
  obtain B where B: "readings cr src B v" "well_classed (equated cr src v) v" "junctions_surfaced cr src v B"
    "inhabited v (supersession_edges cr src v)" "inhabited v (contradiction_edges cr src v)" using built_view [OF assms] by blast
  note of_kind = conflicts_split [OF B(1,3)]
  note mem = well_classedD(2) [OF B(2)]
  have truth: "truth_at v d = Conflicted \<longleftrightarrow> (\<exists>k \<in> set (conflicts_of_kind v Truth_disagreement). d \<in> set (cf_molecules k))"
  proof -
    have fin: "finite {C. truth_of (spoken cr src v) C = Conflicted}" by simp
    have "(\<exists>k \<in> set (truth_conflicts cr src v). d \<in> set (cf_molecules k)) \<longleftrightarrow> (\<exists>C. truth_of (spoken cr src v) C = Conflicted \<and> d \<in> set (vw_members v C))"
      unfolding truth_conflicts_def set_map set_sorted_list_of_set [OF fin] by (simp add: disagreement_def)
    also have "\<dots> \<longleftrightarrow> truth_at v d = Conflicted" unfolding mem by (auto simp: truth_at_def readings_fields(5) [OF B(1)])
    finally show ?thesis unfolding of_kind by blast
  qed
  let ?K = "contradiction_edges cr src v" and ?cls = "standing_claims cr src v template_contradiction"
  have side: "d \<in> set (vw_members v c) \<longleftrightarrow> vw_has v d \<and> class_at v d = c" for d c unfolding mem by simp
  have contra: "e \<in> set (contradictions v d) \<longleftrightarrow> (\<exists>k \<in> set (conflicts_of_kind v Contradiction).
      (\<exists>s s'. cf_sides k = [s, s'] \<and> (d \<in> set (sd_molecules s) \<and> e \<in> set (sd_molecules s') \<or> e \<in> set (sd_molecules s) \<and> d \<in> set (sd_molecules s'))) \<or>
      (\<exists>s. cf_sides k = [s] \<and> d \<in> set (sd_molecules s) \<and> e \<in> set (sd_molecules s)))" (is "?l \<longleftrightarrow> (\<exists>k \<in> _. ?P k)")
  proof -
    have P: "?P (contradiction_report v ?cls q) \<longleftrightarrow> vw_has v d \<and> vw_has v e \<and> (q = (class_at v d, class_at v e) \<or> q = (class_at v e, class_at v d))" for q
      by (cases q) (auto simp: contradiction_report_def Let_def side)
    have "(\<exists>k \<in> set (contradiction_conflicts cr src v). ?P k) \<longleftrightarrow> (\<exists>q \<in> ?K. ?P (contradiction_report v ?cls q))"
      unfolding contradiction_conflicts_def set_map set_sorted_list_of_set [OF inhabited_finite [OF B(5)]] by blast
    also have "\<dots> \<longleftrightarrow> vw_has v d \<and> vw_has v e \<and> (class_at v d, class_at v e) \<in> ?K \<union> ?K\<inverse>" unfolding P by blast
    also have "\<dots> \<longleftrightarrow> ?l"
      using contradiction_members [OF B(1,2,5), of d] by (cases "vw_has v d") (auto simp: contradictions_def)
    finally show ?thesis unfolding of_kind by blast
  qed
  let ?E = "supersession_edges cr src v"
  have cycle: "(d, d) \<in> {(x, y). y \<in> set (superseded_by v x)}\<^sup>+ \<longleftrightarrow> (\<exists>k \<in> set (conflicts_of_kind v Supersession_cycle). d \<in> set (cf_molecules k))"
  proof -
    note comp = successors_edges [OF inhabited_finite [OF B(4)]]
    have fin: "finite {sorted_list_of_set (component (successors_in ?E) u) | u. (u, u) \<in> ?E\<^sup>+}" by simp
    have fc: "finite (component (successors_in ?E) u)" for u by simp
    have "(\<exists>k \<in> set (cycle_conflicts cr src v). d \<in> set (cf_molecules k)) \<longleftrightarrow>
        (\<exists>u. (u, u) \<in> ?E\<^sup>+ \<and> d \<in> set (members_in v (component (successors_in ?E) u)))"
      unfolding cycle_conflicts_def set_map set_sorted_list_of_set [OF fin]
      by (auto simp: cycle_report_def set_sorted_list_of_set [OF fc])
    also have "\<dots> \<longleftrightarrow> vw_has v d \<and> (\<exists>u. (u, u) \<in> ?E\<^sup>+ \<and> class_at v d \<in> component (successors_in ?E) u)"
      unfolding members_in_set [OF B(2)] by blast
    also have "\<dots> \<longleftrightarrow> vw_has v d \<and> (class_at v d, class_at v d) \<in> ?E\<^sup>+"
    proof -
      have "(c, c) \<in> ?E\<^sup>+" if "(u, u) \<in> ?E\<^sup>+" "c \<in> component (successors_in ?E) u" for u c
      proof -
        have "(c, u) \<in> ?E\<^sup>*" "(u, c) \<in> ?E\<^sup>*" using that(2) comp by auto
        then show ?thesis using that(1) by (meson rtrancl_trancl_trancl trancl_rtrancl_trancl)
      qed
      then show ?thesis using component_self by blast
    qed
    finally show ?thesis unfolding of_kind superseding_paths [OF B(1,2,4)] by blast
  qed
  show ?thesis using truth contra cycle by blast
qed

text \<open>
  C21. Block order in a view. Every block behind an entity of the view is reported at its place in block
  order. Where order stops at an ambiguous succession, a conflict names the block of the ambiguity,
  and every such conflict is the ambiguity at the start of a lineage, with its candidates and their
  signers.
\<close>

theorem ambiguity_surfaced:
  assumes "in_digest_order cr g" and "build_view cr (Some g) (Some src) subs = Some (Inr v)"
  shows "(\<forall>d e t. view_lookup v d = Some e \<longrightarrow> t \<in> set (ge_authors e) \<longrightarrow>
      (\<exists>p q. placed cr src (snd t) p \<and> block_position v (snd t) = Some q \<and> cp_lineage q = pl_lineage p \<and> cp_height q = pl_index p \<and>
        cp_height q < cp_length q \<and>
        (\<forall>b j. src_block src (pl_lineage p) = Inr b \<longrightarrow> junction cr src b = Some j \<longrightarrow>
          (\<exists>k \<in> set (conflicts_of_kind v Ambiguous_order). fst j \<in> set (cf_blocks k))))) \<and>
    (\<forall>k \<in> set (conflicts_of_kind v Ambiguous_order). \<exists>s b j. placed cr src s \<lparr>pl_lineage = s, pl_index = 0\<rparr> \<and> src_block src s = Inr b \<and>
      junction cr src b = Some j \<and> k = ambiguity src j)"
proof -
  obtain B where B: "readings cr src B v" "view_ok cr v" "junctions_surfaced cr src v B" using built_view [OF assms] by blast
  note of_kind = conflicts_split(4) [OF B(1,3)]
  have tag: "t \<in> set (view_tags v)" if "view_lookup v d = Some e" "t \<in> set (ge_authors e)" for d e t
  proof -
    have "d \<in> set (vw_order v)" using that(1) B(2) by (simp add: view_lookup_def view_ok_def vw_has_def)
    then show ?thesis using that unfolding view_tags_def view_lookup_def by (force split: option.splits)
  qed
  have pub: "\<exists>u \<in> set (published v). snd u = snd t" if "t \<in> set (view_tags v)" for t
  proof -
    have "snd t \<in> snd ` set (published v)" unfolding published_props(1) using that by blast
    then show ?thesis by (elim imageE) (rule bexI, rule sym)
  qed
  have pos: "\<exists>p q. placed cr src (snd t) p \<and> block_position v (snd t) = Some q \<and> cp_lineage q = pl_lineage p \<and> cp_height q = pl_index p \<and> cp_height q < cp_length q"
    if t: "t \<in> set (view_tags v)" for t
  proof -
    obtain u where u: "u \<in> set (published v)" "snd u = snd t" using pub [OF t] by blast
    have "positions_ok cr src v (vw_positions v)" by (rule readings_fields(1) [OF B(1)])
    with u obtain p where p: "placed cr src (snd t) p" "vw_positions v (snd t) = Some \<lparr>cp_author = fst u, cp_lineage = pl_lineage p,
        cp_height = pl_index p, cp_length = seen_length cr src v (pl_lineage p)\<rparr>"
      unfolding positions_ok_def by metis
    let ?S = "{Suc (pl_index q) | q. pl_lineage q = pl_lineage p \<and> (\<exists>t \<in> set (published v). placed cr src (snd t) q)}"
    have "?S \<subseteq> (\<lambda>t. Suc (pl_index (THE q. placed cr src (snd t) q))) ` set (published v)"
    proof
      fix n assume "n \<in> ?S"
      then obtain q t where q: "n = Suc (pl_index q)" "t \<in> set (published v)" "placed cr src (snd t) q" by blast
      have "(THE q. placed cr src (snd t) q) = q" using q(3) placed_unique by blast
      then show "n \<in> (\<lambda>t. Suc (pl_index (THE q. placed cr src (snd t) q))) ` set (published v)" using q by force
    qed
    then have fin: "finite ?S" using finite_surj [OF finite_set] by blast
    have "\<exists>t \<in> set (published v). placed cr src (snd t) p" using p(1) u by (intro bexI [of _ u]) simp_all
    then have "Suc (pl_index p) \<in> ?S" by blast
    then have "Suc (pl_index p) \<le> seen_length cr src v (pl_lineage p)" unfolding seen_length_def using fin by (intro Max_ge) auto
    then show ?thesis using p by (intro exI [of _ p]) (simp add: block_position_def)
  qed
  show ?thesis
    unfolding of_kind
  proof (intro conjI allI impI)
    fix d e t assume e: "view_lookup v d = Some e" "t \<in> set (ge_authors e)"
    obtain p q where p: "placed cr src (snd t) p" "block_position v (snd t) = Some q" "cp_lineage q = pl_lineage p" "cp_height q = pl_index p"
      "cp_height q < cp_length q" using pos [OF tag [OF e]] by blast
    have "\<forall>b j. src_block src (pl_lineage p) = Inr b \<longrightarrow> junction cr src b = Some j \<longrightarrow> (\<exists>k \<in> set B. fst j \<in> set (cf_blocks k))"
      using B(3) tag [OF e] p(1) unfolding junctions_surfaced_def by blast
    then show "\<exists>p q. placed cr src (snd t) p \<and> block_position v (snd t) = Some q \<and> cp_lineage q = pl_lineage p \<and> cp_height q = pl_index p \<and>
        cp_height q < cp_length q \<and>
        (\<forall>b j. src_block src (pl_lineage p) = Inr b \<longrightarrow> junction cr src b = Some j \<longrightarrow> (\<exists>k \<in> set B. fst j \<in> set (cf_blocks k)))"
      using p by blast
  next
    show "\<forall>k \<in> set B. \<exists>s b j. placed cr src s \<lparr>pl_lineage = s, pl_index = 0\<rparr> \<and> src_block src s = Inr b \<and> junction cr src b = Some j \<and> k = ambiguity src j"
      using B(3) unfolding junctions_surfaced_def by blast
  qed
qed

section \<open>The order of the conflicts\<close>

text \<open>The classes that have members are told by the members.\<close>

lemma members_tell:
  assumes "well_classed P v" and "\<forall>c \<in> C. \<exists>d. vw_has v d \<and> class_at v d = c" and "\<forall>c \<in> D. \<exists>d. vw_has v d \<and> class_at v d = c"
    and "members_in v C = members_in v D"
  shows "C = D"
proof -
  have "C = class_at v ` set (members_in v C)" if "\<forall>c \<in> C. \<exists>d. vw_has v d \<and> class_at v d = c" for C
    unfolding members_in_set [OF assms(1)] using that by force
  from this [OF assms(2)] this [OF assms(3)] show ?thesis using assms(4) by simp
qed

lemma canonical_sorted: "e \<in> declared_edges canonical v cls \<Longrightarrow> fst e \<le> snd e"
  by (auto simp: declared_edges_def canonical_def)

lemma edge_of_set: "fst e \<le> snd e \<Longrightarrow> fst e' \<le> snd e' \<Longrightarrow> {fst e, snd e} = {fst e', snd e'} \<Longrightarrow> e = e'" for e e' :: edge
  by (cases e; cases e') (auto simp: doubleton_eq_iff)

lemma conflict_number: "kind_number k = kind_number k' \<longleftrightarrow> k = k'"
  by (cases k; cases k') (simp_all add: kind_number_def)

text \<open>
  The order of the conflicts. They are listed by kind, molecules, blocks and meta-molecules, and two
  conflicts that agree on these are the same: the list is determined by what is in it.
\<close>

theorem conflicts_determined:
  assumes "in_digest_order cr g" and "build_view cr (Some g) (Some src) subs = Some (Inr v)"
  shows "sorted (map conflict_key (conflicts v)) \<and> inj_on conflict_key (set (conflicts v))"
proof
  obtain B where B: "readings cr src B v" "well_classed (equated cr src v) v" "junctions_surfaced cr src v B"
    "inhabited v (supersession_edges cr src v)" "inhabited v (contradiction_edges cr src v)" using built_view [OF assms] by blast
  show "sorted (map conflict_key (conflicts v))" by (simp add: conflicts_def readings_fields(13) [OF B(1)])
  note split = conflicts_split(5) [OF B(1,3)]
  note kinds = conflict_kinds [of _ cr src v] junctions_kind [OF B(3)]
  let ?S = "spoken cr src v" and ?K = "contradiction_edges cr src v" and ?E = "supersession_edges cr src v"
  have single: "vw_members v c = members_in v {c}" for c
    using well_classedD(1,2) [OF B(2), of c] members_in_set [OF B(2), of "{c}"]
    by (intro strict_sorted_equal) (auto simp: members_in_def)
  have spoken_class: "\<exists>d. vw_has v d \<and> class_at v d = C" if "truth_of ?S C = Conflicted" for C
  proof -
    have "C \<in> tr_class ` ?S" using truth_of_unspoken [of C ?S] that by (cases "C \<in> tr_class ` ?S") simp_all
    then obtain r where r: "r \<in> ?S" "tr_class r = C" by blast
    from r(1) [unfolded spoken_def stated_def mem_Collect_eq] obtain cl :: claim where "vw_has v (cl_a cl)" "tr_class r = class_at v (cl_a cl)"
      by (elim bexE conjE)
    then show ?thesis using r(2) by (intro exI [of _ "cl_a cl"]) simp
  qed
  have truth: "k = k'" if k: "k \<in> set (truth_conflicts cr src v)" "k' \<in> set (truth_conflicts cr src v)" "cf_molecules k = cf_molecules k'" for k k'
  proof -
    have fin: "finite {C. truth_of ?S C = Conflicted}" by simp
    from k obtain C D where C: "k = disagreement ?S v C" "k' = disagreement ?S v D" "truth_of ?S C = Conflicted" "truth_of ?S D = Conflicted"
      unfolding truth_conflicts_def set_map set_sorted_list_of_set [OF fin] by blast
    have "members_in v {C} = members_in v {D}" using k(3) single by (simp add: C(1,2) disagreement_def)
    then have "{C} = {D}" using spoken_class C(3,4) by (intro members_tell [OF B(2)]) blast+
    then show ?thesis by (simp add: C(1,2))
  qed
  have contra: "k = k'" if k: "k \<in> set (contradiction_conflicts cr src v)" "k' \<in> set (contradiction_conflicts cr src v)" "cf_molecules k = cf_molecules k'" for k k'
  proof -
    let ?f = "contradiction_report v (standing_claims cr src v template_contradiction)"
    from k obtain e e' where e: "k = ?f e" "k' = ?f e'" "e \<in> ?K" "e' \<in> ?K"
      unfolding contradiction_conflicts_def set_map set_sorted_list_of_set [OF inhabited_finite [OF B(5)]] by blast
    have i: "\<forall>c \<in> {fst q, snd q}. \<exists>d. vw_has v d \<and> class_at v d = c" if "q \<in> ?K" for q
      using inhabitedD [OF B(5), of "fst q" "snd q"] that by auto
    have "members_in v {fst e, snd e} = members_in v {fst e', snd e'}" using k(3) by (simp add: e(1,2) contradiction_report_def Let_def)
    then have "{fst e, snd e} = {fst e', snd e'}" by (rule members_tell [OF B(2) i [OF e(3)] i [OF e(4)]])
    then have "e = e'" using e(3,4) by (intro edge_of_set) (auto simp: contradiction_edges_def dest: canonical_sorted)
    then show ?thesis by (simp add: e(1,2))
  qed
  have cycle: "k = k'" if k: "k \<in> set (cycle_conflicts cr src v)" "k' \<in> set (cycle_conflicts cr src v)" "cf_molecules k = cf_molecules k'" for k k'
  proof -
    let ?f = "\<lambda>u. cycle_report v (standing_claims cr src v template_supersession) (sorted_list_of_set (component (successors_in ?E) u))"
    have fin: "finite {sorted_list_of_set (component (successors_in ?E) u) | u. (u, u) \<in> ?E\<^sup>+}" by simp
    have fc: "finite (component (successors_in ?E) u)" for u by simp
    from k obtain u w where u: "k = ?f u" "k' = ?f w" "(u, u) \<in> ?E\<^sup>+" "(w, w) \<in> ?E\<^sup>+"
      unfolding cycle_conflicts_def set_map set_sorted_list_of_set [OF fin] by blast
    have i: "\<forall>c \<in> component (successors_in ?E) u. \<exists>d. vw_has v d \<and> class_at v d = c" if "(u, u) \<in> ?E\<^sup>+" for u
    proof
      fix c assume "c \<in> component (successors_in ?E) u"
      then have "(c, u) \<in> ?E\<^sup>*" "(u, c) \<in> ?E\<^sup>*" using successors_edges [OF inhabited_finite [OF B(4)]] by auto
      then have "(c, c) \<in> ?E\<^sup>+" using that by (meson rtrancl_trancl_trancl trancl_rtrancl_trancl)
      then obtain c' where "(c, c') \<in> ?E" by (meson tranclD)
      then show "\<exists>d. vw_has v d \<and> class_at v d = c" using inhabitedD [OF B(4)] by blast
    qed
    have "members_in v (component (successors_in ?E) u) = members_in v (component (successors_in ?E) w)"
      using k(3) by (simp add: u(1,2) cycle_report_def set_sorted_list_of_set [OF fc])
    then have "component (successors_in ?E) u = component (successors_in ?E) w" by (rule members_tell [OF B(2) i [OF u(3)] i [OF u(4)]])
    then show ?thesis by (simp add: u(1,2))
  qed
  have ambiguous: "k = k'" if k: "k \<in> set B" "k' \<in> set B" "cf_blocks k = cf_blocks k'" for k k'
  proof -
    have "k = \<lparr>cf_kind = Ambiguous_order, cf_molecules = [], cf_sides = [], cf_meta = [], cf_blocks = cf_blocks k, cf_declarers = signers_of src (cf_blocks k)\<rparr>"
      if "k \<in> set B" for k
    proof -
      from that B(3) obtain j where "k = ambiguity src j" unfolding junctions_surfaced_def by blast
      then show ?thesis by (simp add: ambiguity_def Let_def)
    qed
    from this [OF k(1)] this [OF k(2)] show ?thesis using k(3) by metis
  qed
  show "inj_on conflict_key (set (conflicts v))"
  proof (rule inj_onI)
    fix k k' assume k: "k \<in> set (conflicts v)" "k' \<in> set (conflicts v)" and key: "conflict_key k = conflict_key k'"
    have same: "cf_kind k = cf_kind k'" "cf_molecules k = cf_molecules k'" "cf_blocks k = cf_blocks k'"
      using key by (simp_all add: conflict_key_def conflict_number)
    have among: "k \<in> (case cf_kind k of Truth_disagreement \<Rightarrow> set (truth_conflicts cr src v) | Contradiction \<Rightarrow> set (contradiction_conflicts cr src v)
        | Supersession_cycle \<Rightarrow> set (cycle_conflicts cr src v) | Ambiguous_order \<Rightarrow> set B)" if "k \<in> set (conflicts v)" for k
      using that [unfolded split] by (elim UnE) (simp_all add: kinds)
    from among [OF k(1)] among [OF k(2)] same show "k = k'"
      by (cases "cf_kind k") (simp_all add: truth contra cycle ambiguous)
  qed
qed

section \<open>A view built\<close>

text \<open>
  One author published six molecules in one block: two plain ones, 1 and 2, and four meta-molecules,
  that 2 supersedes 1, that 1 contradicts 2, that 1 is true and that 1 is untrue.
\<close>

definition sample_molecule :: "nat \<Rightarrow> digest \<Rightarrow> digest list \<Rightarrow> molecule" where
  "sample_molecule n b ds = \<lparr>mol_bond = b, mol_fillers = map (\<lambda>d. zero_filler\<lparr>ftype := filler_molecule, fref := d\<rparr>) ds, mol_enc = replicate n 0\<rparr>"

definition sample_entry :: "nat \<Rightarrow> string option \<Rightarrow> digest list \<Rightarrow> digest \<times> entry" where
  "sample_entry n t ds = (of_nat n, \<lparr>ge_kind = Kind_molecule, ge_value = Molecule_entity (sample_molecule n
     (case t of None \<Rightarrow> 0 | Some t \<Rightarrow> bond_digest length_hash (must_bond t)) ds), ge_authors = [(7, 9)]\<rparr>)"

definition sample_entries :: "(digest \<times> entry) list" where
  "sample_entries = [sample_entry 1 None [], sample_entry 2 None [], sample_entry 3 (Some template_supersession) [2, 1],
    sample_entry 4 (Some template_contradiction) [1, 2], sample_entry 5 (Some template_truth_assertion) [1],
    sample_entry 6 (Some template_truth_retraction) [1]]"

definition sample_graph :: graph where
  "sample_graph = new_graph\<lparr>gr_entities := map_of sample_entries, gr_order := map fst sample_entries\<rparr>"

definition sample_block :: block where
  "sample_block = \<lparr>blk_content = \<lparr>c_version = protocol_version, c_type = type_public, c_pub = None, c_prev = None,
    c_refs = Some [], c_ts = 0, c_ops = Some [], c_enc = None, c_nonce = None\<rparr>, blk_sig = [], blk_enc = replicate 9 0\<rparr>"

definition sample_source :: source where
  "sample_source = accepting_source [9 \<mapsto> sample_block]"

definition sample_subs :: "subscriptions option" where
  "sample_subs = Some (new_subscriptions [digest_bytes 7])"

lemma sample_graph_entries: "graph_entries sample_graph = map snd sample_entries"
  by code_simp

lemma sample_digests: "map (entry_digest sample_crypto) (graph_entries sample_graph) = [1, 2, 3, 4, 5, 6]"
  by (simp add: sample_graph_entries sample_entries_def sample_entry_def entry_digest_def graph_entity_digest_def molecule_digest_def
      sum_digest_def sample_molecule_def sample_crypto_def length_hash_def)

lemma sample_ordered: "in_digest_order sample_crypto sample_graph"
  by (simp add: in_digest_order_def sample_digests)

lemma sample_subscriptions: "\<forall>s. sample_subs = Some s \<longrightarrow> subs_ok s" "subscribed sample_subs (digest_bytes k) \<longleftrightarrow> k = 7"
proof -
  have ok: "subs_ok no_subscriptions" by (simp add: subs_ok_def no_subscriptions_def)
  show "\<forall>s. sample_subs = Some s \<longrightarrow> subs_ok s"
    using subs_add_ok [OF ok] by (simp add: sample_subs_def new_subscriptions_def subscribe_def)
  show "subscribed sample_subs (digest_bytes k) \<longleftrightarrow> k = 7"
    by (auto simp: subscribed_def sample_subs_def new_subscriptions_def subscribe_def subs_add_own no_subscriptions_def split: option.splits)
qed

lemma sample_placed: "placed sample_crypto sample_source 9 p \<longleftrightarrow> p = \<lparr>pl_lineage = 9, pl_index = 0\<rparr>"
proof -
  have b: "src_block sample_source 9 = Inr sample_block" by (simp add: sample_source_def map_source_def)
  moreover have "block_digest sample_crypto sample_block = 9" by code_simp
  moreover have "step_back sample_crypto sample_source sample_block = Inr None"
    by (simp add: step_back_def rotation_before_def sample_block_def block_prev_def block_refs_def)
  ultimately have "placed sample_crypto sample_source 9 \<lparr>pl_lineage = 9, pl_index = 0\<rparr>" by (rule placed.start)
  then show ?thesis using placed_unique by blast
qed

lemma sample_lookups:
  "lookup_meta_bond length_hash 0 = None"
  "t \<in> {template_supersession, template_contradiction, template_truth_assertion, template_truth_retraction} \<Longrightarrow>
    lookup_meta_bond length_hash (bond_digest length_hash (must_bond t)) = Some (must_bond t) \<and> bond_template (must_bond t) = t"
proof -
  show "lookup_meta_bond length_hash 0 = None" by code_simp
  have "\<forall>t \<in> set [template_supersession, template_contradiction, template_truth_assertion, template_truth_retraction].
      lookup_meta_bond length_hash (bond_digest length_hash (must_bond t)) = Some (must_bond t) \<and> bond_template (must_bond t) = t"
    by code_simp
  from this [unfolded list.set] show "t \<in> {template_supersession, template_contradiction, template_truth_assertion, template_truth_retraction} \<Longrightarrow>
    lookup_meta_bond length_hash (bond_digest length_hash (must_bond t)) = Some (must_bond t) \<and> bond_template (must_bond t) = t" by (rule bspec)
qed

abbreviation (input) sample_claim :: "digest \<Rightarrow> string \<Rightarrow> digest \<Rightarrow> digest \<Rightarrow> truth_state \<Rightarrow> claim" where
  "sample_claim d t a b s \<equiv> \<lparr>cl_meta = d, cl_template = t, cl_a = a, cl_b = b, cl_typ = filler_molecule, cl_stance = s, cl_prov = [(7, 9)], cl_backing = []\<rparr>"

lemma sample_readings:
  defines "v \<equiv> filter_graph sample_crypto sample_graph sample_subs"
  shows "vw_by_kind v Kind_molecule = [1, 2, 3, 4, 5, 6]" and "vw_order v = [1, 2, 3, 4, 5, 6]"
    and "vw_entries v = map_of sample_entries"
    and "claims_of sample_crypto v {template_equivalence} = []"
    and "claims_of sample_crypto v {template_supersession} = [sample_claim 3 template_supersession 2 1 Unasserted]"
    and "claims_of sample_crypto v {template_contradiction} = [sample_claim 4 template_contradiction 1 2 Unasserted]"
    and "claims_of sample_crypto v truth_templates = [sample_claim 5 template_truth_assertion 1 0 Asserted, sample_claim 6 template_truth_retraction 1 0 Retracted]"
proof -
  have adm: "admitted (subs_snapshot sample_subs) e" if "e \<in> set (graph_entries sample_graph)" for e
    using that admitted_subscribed [OF sample_subscriptions(1)] sample_subscriptions(2)
    by (auto simp: sample_graph_entries sample_entries_def sample_entry_def)
  have subs: "vw_subs v = subs_snapshot sample_subs" by (simp add: v_def filter_graph_def filter_fold empty_view_def)
  have es: "filter (admitted (subs_snapshot sample_subs)) (graph_entries sample_graph) = graph_entries sample_graph"
    using adm by simp
  have ks: "filter (\<lambda>e. admitted (subs_snapshot sample_subs) e \<and> ge_kind e = Kind_molecule) (graph_entries sample_graph) = graph_entries sample_graph"
    using adm by (auto simp: filter_id_conv sample_graph_entries sample_entries_def sample_entry_def)
  show k: "vw_by_kind v Kind_molecule = [1, 2, 3, 4, 5, 6]"
    unfolding v_def filter_graph_def filter_fold by (simp add: empty_view_def ks sample_digests)
  show o: "vw_order v = [1, 2, 3, 4, 5, 6]"
    unfolding v_def filter_graph_def filter_fold by (simp add: empty_view_def es sample_digests)
  have d: "map snd sample_entries = map (\<lambda>d. the (map_of sample_entries d)) [1, 2, 3, 4, 5, 6]"
    by (simp add: sample_entries_def sample_entry_def)
  have "entry_digest sample_crypto (the (map_of sample_entries d)) = d" if "d \<in> {1, 2, 3, 4, 5, 6}" for d
    using that sample_digests unfolding sample_graph_entries d by auto
  then show e: "vw_entries v = map_of sample_entries"
    unfolding v_def filter_graph_def filter_fold using es
    by (simp add: empty_view_def sample_graph_entries d fun_eq_iff) (simp add: sample_entries_def sample_entry_def)
  have meta: "meta_of sample_crypto v d = (case t of None \<Rightarrow> None | Some t \<Rightarrow>
      Some (sample_molecule n (bond_digest length_hash (must_bond t)) ds, must_bond t, [(7, 9)]))"
    if "vw_entries v d = Some (snd (sample_entry n t ds))"
      "t \<in> {None, Some template_supersession, Some template_contradiction, Some template_truth_assertion, Some template_truth_retraction}" for d n t ds
  proof -
    have "subscribed_provenance (vw_subs v) (snd (sample_entry n t ds)) = [(7, 9)]"
      using snapshot_subscribed [OF sample_subscriptions(1)] sample_subscriptions(2) by (simp add: subs subscribed_provenance_def sample_entry_def)
    then show ?thesis using that sample_lookups
      by (cases t) (simp_all add: meta_of_def sample_entry_def sample_molecule_def sample_crypto_def)
  qed
  have claim: "claim_of sample_crypto v d = (case t of None \<Rightarrow> None | Some t \<Rightarrow> read_one d t (map (\<lambda>d. zero_filler\<lparr>ftype := filler_molecule, fref := d\<rparr>) ds) [(7, 9)])"
    if "vw_entries v d = Some (snd (sample_entry n t ds))"
      "t \<in> {None, Some template_supersession, Some template_contradiction, Some template_truth_assertion, Some template_truth_retraction}" for d n t ds
    using meta [OF that] sample_lookups(2) that(2) by (cases t) (auto simp: claim_of_def sample_molecule_def)
  have "vw_entries v 1 = Some (snd (sample_entry 1 None []))" "vw_entries v 2 = Some (snd (sample_entry 2 None []))"
    "vw_entries v 3 = Some (snd (sample_entry 3 (Some template_supersession) [2, 1]))"
    "vw_entries v 4 = Some (snd (sample_entry 4 (Some template_contradiction) [1, 2]))"
    "vw_entries v 5 = Some (snd (sample_entry 5 (Some template_truth_assertion) [1]))"
    "vw_entries v 6 = Some (snd (sample_entry 6 (Some template_truth_retraction) [1]))"
    unfolding e by (simp_all add: sample_entries_def sample_entry_def)
  note cl = this [THEN claim]
  have c: "claim_of sample_crypto v 1 = None" "claim_of sample_crypto v 2 = None"
    "claim_of sample_crypto v 3 = Some (sample_claim 3 template_supersession 2 1 Unasserted)"
    "claim_of sample_crypto v 4 = Some (sample_claim 4 template_contradiction 1 2 Unasserted)"
    "claim_of sample_crypto v 5 = Some (sample_claim 5 template_truth_assertion 1 0 Asserted)"
    "claim_of sample_crypto v 6 = Some (sample_claim 6 template_truth_retraction 1 0 Retracted)"
    using cl by (simp_all add: read_one_def Let_def template_names template_names [symmetric] filler_ref_def molecule_is_ref)
  show "claims_of sample_crypto v {template_equivalence} = []"
    "claims_of sample_crypto v {template_supersession} = [sample_claim 3 template_supersession 2 1 Unasserted]"
    "claims_of sample_crypto v {template_contradiction} = [sample_claim 4 template_contradiction 1 2 Unasserted]"
    "claims_of sample_crypto v truth_templates = [sample_claim 5 template_truth_assertion 1 0 Asserted, sample_claim 6 template_truth_retraction 1 0 Retracted]"
    unfolding claims_of_def k by (simp_all add: map_filter_simps c template_names template_names [symmetric])
qed

text \<open>Nobody retracts the meta-molecules, so they stand, and nothing is made equivalent.\<close>

lemma sample_stands:
  assumes "cl_prov cl = [(7, 9)]" and "cl_meta cl \<noteq> 1"
  shows "stands sample_crypto sample_source
    [sample_claim 5 template_truth_assertion 1 0 Asserted, sample_claim 6 template_truth_retraction 1 0 Retracted] cl"
proof -
  have s: "says sample_crypto sample_source [sample_claim 5 template_truth_assertion 1 0 Asserted, sample_claim 6 template_truth_retraction 1 0 Retracted] cl a p r \<longleftrightarrow>
      a = 7 \<and> p = \<lparr>pl_lineage = 9, pl_index = 0\<rparr> \<and> \<not> r" for a p r
    using assms sample_placed by (auto simp: says_def)
  then have "backs sample_crypto sample_source [sample_claim 5 template_truth_assertion 1 0 Asserted, sample_claim 6 template_truth_retraction 1 0 Retracted] cl 7"
    unfolding backs_def s by auto
  then show ?thesis unfolding stands_def by blast
qed

lemma sample_built:
  obtains v where "build_view sample_crypto (Some sample_graph) (Some sample_source) sample_subs = Some (Inr v)"
    and "\<And>d. vw_has v d \<longleftrightarrow> d \<in> {1, 2, 3, 4, 5, 6}" and "vw_order v = [1, 2, 3, 4, 5, 6]"
    and "\<And>a b. equivalent v a b \<longleftrightarrow> a = b \<and> a \<in> {1, 2, 3, 4, 5, 6}"
    and "\<exists>cl. standing_claims sample_crypto sample_source v template_supersession = [cl] \<and> cl_a cl = 2 \<and> cl_b cl = 1"
    and "\<exists>cl. standing_claims sample_crypto sample_source v template_contradiction = [cl] \<and> cl_a cl = 1 \<and> cl_b cl = 2"
    and "\<And>d. superseded_by v d = (if d = 1 then [2] else [])" and "\<And>d. is_superseded v d \<longleftrightarrow> d = 1"
    and "2 \<in> set (contradictions v 1)" and "\<exists>e. view_lookup v 3 = Some e \<and> ge_authors e = [(7, 9)]"
proof (cases rule: build_result [OF sample_ordered, of sample_source sample_subs])
  case (1 v B)
  note b = 1(8)
  have f: "vw_entries v = vw_entries (filter_graph sample_crypto sample_graph sample_subs)" "vw_subs v = vw_subs (filter_graph sample_crypto sample_graph sample_subs)"
    "vw_by_kind v = vw_by_kind (filter_graph sample_crypto sample_graph sample_subs)" "vw_order v = vw_order (filter_graph sample_crypto sample_graph sample_subs)"
    using b by (simp_all add: based_def)
  note c = sample_readings(4-7) [folded claims_of_cong(3) [OF f(1-3)]]
  have has: "vw_has v d \<longleftrightarrow> d \<in> {1, 2, 3, 4, 5, 6}" for d
    using 1(3) f(4) sample_readings(2) by (auto simp: view_ok_def)
  have e: "equated sample_crypto sample_source v = {}" by (simp add: equated_def standing_claims_def c)
  obtain B' where B: "readings sample_crypto sample_source B' v" "well_classed {} v" "inhabited v (supersession_edges sample_crypto sample_source v)"
    "inhabited v (contradiction_edges sample_crypto sample_source v)"
    using built_view [OF sample_ordered 1(1)] unfolding e by blast
  have eq: "equivalent v a b \<longleftrightarrow> a = b \<and> a \<in> {1, 2, 3, 4, 5, 6}" for a b
    unfolding equivalent_conn [OF B(2)] conn_empty has by blast
  have s: "standing_claims sample_crypto sample_source v template_supersession =
      [backed sample_crypto sample_source v (claims_of sample_crypto v truth_templates) (sample_claim 3 template_supersession 2 1 Unasserted)]"
    "standing_claims sample_crypto sample_source v template_contradiction =
      [backed sample_crypto sample_source v (claims_of sample_crypto v truth_templates) (sample_claim 4 template_contradiction 1 2 Unasserted)]"
    by (simp_all add: standing_claims_def c sample_stands)
  have "set (superseded_by v d) = (if d = 1 then {2} else {})" if "vw_has v d" for d
  proof -
    have "set (superseded_by v d) = {x. vw_has v x \<and> equivalent v x 2 \<and> equivalent v d 1}"
      unfolding superseded_members(1) [OF B(1-3) that] supersession_edges_def using that
      by (auto simp: edge_claims(1) s backed_def)
    then show ?thesis unfolding eq has by auto
  qed
  then have by1: "superseded_by v d = (if d = 1 then [2] else [])" for d
    using members_of_sorted has by (cases "vw_has v d") (auto simp: superseded_by_def intro: strict_sorted_equal)
  moreover have "is_superseded v d \<longleftrightarrow> d = 1" for d
    using superseded_members(3) [OF B(1-3)] has [of 1] by1 by (cases "vw_has v d") (auto simp: is_superseded_def)
  moreover have "2 \<in> set (contradictions v 1)"
    using contradiction_members [OF B(1,2,4), of 1] edge_claims(2) [of v 1 2] has by (simp add: contradiction_edges_def s backed_def eq)
  moreover have "\<exists>e. view_lookup v 3 = Some e \<and> ge_authors e = [(7, 9)]"
    unfolding view_lookup_def f(1) sample_readings(3) by (simp add: sample_entries_def sample_entry_def)
  ultimately show thesis using that [of v] 1(1) has eq s f(4) sample_readings(2) by (simp add: backed_def)
next
  case (2 b e)
  have "set (view_tags (filter_graph sample_crypto sample_graph sample_subs)) \<subseteq> {(7, 9)}"
    unfolding tags_of_view [OF sample_ordered sample_subscriptions(1)] by (auto simp: sample_graph_entries sample_entries_def sample_entry_def)
  then have "b = 9" using 2(2) by auto
  then show thesis using 2(3) sample_placed by blast
qed

text \<open>The view of the six molecules is built, and they are all in it.\<close>

theorem build_returns_witness:
  "\<exists>v. build_view sample_crypto (Some sample_graph) (Some sample_source) sample_subs = Some (Inr v)"
proof -
  have "\<forall>b \<in> {b. \<exists>e \<in> set (graph_entries sample_graph). (\<exists>t \<in> set (ge_authors e). subscribed sample_subs (digest_bytes (fst t))) \<and> b \<in> snd ` set (ge_authors e)}.
      \<exists>p. placed sample_crypto sample_source b p"
    using sample_placed by (auto simp: sample_graph_entries sample_entries_def sample_entry_def)
  then show ?thesis using build_returns [OF sample_ordered sample_subscriptions(1), where src = sample_source] by (simp only: Let_def if_True)
qed

theorem view_holds_witness:
  "\<exists>v. build_view sample_crypto (Some sample_graph) (Some sample_source) sample_subs = Some (Inr v) \<and>
    view_digests v = [1, 2, 3, 4, 5, 6] \<and> view_entries_of_kind v Kind_atom = []"
proof -
  obtain v where v: "build_view sample_crypto (Some sample_graph) (Some sample_source) sample_subs = Some (Inr v)" by (rule sample_built) (rule that)
  have "filter (\<lambda>e. \<exists>t \<in> set (ge_authors e). subscribed sample_subs (digest_bytes (fst t))) (graph_entries sample_graph) = graph_entries sample_graph"
    using sample_subscriptions(2) by (simp add: sample_graph_entries sample_entries_def sample_entry_def)
  then have "view_entries v = graph_entries sample_graph" "view_digests v = map (entry_digest sample_crypto) (view_entries v)"
    "view_entries_of_kind v Kind_atom = filter (\<lambda>e. ge_kind e = Kind_atom) (view_entries v)"
    using view_holds [OF sample_ordered sample_subscriptions(1) v, of 0 undefined Kind_atom] by simp_all
  then show ?thesis using v sample_digests by (simp add: sample_graph_entries sample_entries_def sample_entry_def)
qed


theorem equivalence_correct_witness:
  "\<exists>v. build_view sample_crypto (Some sample_graph) (Some sample_source) sample_subs = Some (Inr v) \<and>
    equivalent v 1 1 \<and> equivalence_class v 1 = [1]"
proof -
  obtain v where v: "build_view sample_crypto (Some sample_graph) (Some sample_source) sample_subs = Some (Inr v)"
    "vw_order v = [1, 2, 3, 4, 5, 6]" "\<And>a b. equivalent v a b \<longleftrightarrow> a = b \<and> a \<in> {1, 2, 3, 4, 5, 6}" by (rule sample_built) (rule that)
  have "equivalence_class v 1 = [1]"
    using equivalence_correct [OF sample_ordered v(1), of 1 1] by (simp add: view_digests_def v(2,3))
  then show ?thesis using v(1,3) by simp
qed

theorem relations_correct_witness:
  "\<exists>v. build_view sample_crypto (Some sample_graph) (Some sample_source) sample_subs = Some (Inr v) \<and>
    2 \<in> set (superseded_by v 1) \<and> 1 \<in> set (supersedes v 2) \<and> is_superseded v 1 \<and> 2 \<in> set (contradictions v 1)"
proof -
  obtain v where v: "build_view sample_crypto (Some sample_graph) (Some sample_source) sample_subs = Some (Inr v)"
    "\<And>a b. equivalent v a b \<longleftrightarrow> a = b \<and> a \<in> {1, 2, 3, 4, 5, 6}"
    "\<exists>cl. standing_claims sample_crypto sample_source v template_supersession = [cl] \<and> cl_a cl = 2 \<and> cl_b cl = 1"
    "\<exists>cl. standing_claims sample_crypto sample_source v template_contradiction = [cl] \<and> cl_a cl = 1 \<and> cl_b cl = 2" by (rule sample_built) (rule that)
  note r = relations_correct [OF sample_ordered v(1), of 2 1]
  have "2 \<in> set (superseded_by v 1)" using r [THEN conjunct1] v(2,3) by auto
  moreover have "2 \<in> set (contradictions v 1)" using r [THEN conjunct2, THEN conjunct2, THEN conjunct2, THEN conjunct1] v(2,4) by auto
  ultimately show ?thesis using v(1) r by auto
qed


theorem conflicts_surfaced_witness:
  "\<exists>v. build_view sample_crypto (Some sample_graph) (Some sample_source) sample_subs = Some (Inr v) \<and> (\<exists>k \<in> set (conflicts v). cf_kind k = Contradiction)"
proof -
  obtain v where v: "build_view sample_crypto (Some sample_graph) (Some sample_source) sample_subs = Some (Inr v)" "2 \<in> set (contradictions v 1)"
    by (rule sample_built) (rule that)
  with conflicts_surfaced [OF sample_ordered v(1), of 1 2] have "\<exists>k. k \<in> set (conflicts_of_kind v Contradiction)" by blast
  then show ?thesis using v(1) by (auto simp: conflicts_of_kind_def conflicts_def)
qed

theorem ambiguity_surfaced_witness:
  "\<exists>v q. build_view sample_crypto (Some sample_graph) (Some sample_source) sample_subs = Some (Inr v) \<and> block_position v 9 = Some q \<and>
    cp_lineage q = 9 \<and> cp_height q = 0"
proof -
  obtain v where v: "build_view sample_crypto (Some sample_graph) (Some sample_source) sample_subs = Some (Inr v)"
    "\<exists>e. view_lookup v 3 = Some e \<and> ge_authors e = [(7, 9)]" by (rule sample_built) (rule that)
  then obtain e where e: "view_lookup v 3 = Some e" "(7, 9) \<in> set (ge_authors e)" by auto
  from ambiguity_surfaced [OF sample_ordered v(1), THEN conjunct1, rule_format, OF e] obtain p q where
    "placed sample_crypto sample_source 9 p" "block_position v 9 = Some q" "cp_lineage q = pl_lineage p" "cp_height q = pl_index p" by auto
  then show ?thesis using v(1) sample_placed by auto
qed

theorem conflicts_determined_witness:
  "\<exists>v. build_view sample_crypto (Some sample_graph) (Some sample_source) sample_subs = Some (Inr v) \<and> sorted (map conflict_key (conflicts v))"
proof -
  obtain v where v: "build_view sample_crypto (Some sample_graph) (Some sample_source) sample_subs = Some (Inr v)" by (rule sample_built) (rule that)
  from conflicts_determined [OF sample_ordered v] v show ?thesis by blast
qed

end
