(* ===== verification/Http.thy ===== *)
theory Http
  imports Cid_Text
begin

text \<open>
  What the HTTP binding reads of a request and a response: the query, the media types of
  \<open>go/transport/mediatype.go\<close>, entity tags, and the problem details of \<open>go/transport/problem.go\<close>.
  The functions of \<open>strings\<close> and \<open>strconv\<close> are written out over the bytes of a string;
  \<open>mime.ParseMediaType\<close> is a parameter.
\<close>

section \<open>Strings\<close>

text \<open>\<open>strings.Cut\<close> at a separator of one byte: what is before it and what is after it.\<close>

definition cut :: "char \<Rightarrow> string \<Rightarrow> string \<times> string" where
  "cut sep s = (takeWhile (\<lambda>c. c \<noteq> sep) s, drop 1 (dropWhile (\<lambda>c. c \<noteq> sep) s))"

lemma cut_shorter: "(a, b) = cut sep s \<Longrightarrow> s \<noteq> [] \<Longrightarrow> length b < length s"
  using length_dropWhile_le [of "\<lambda>c. c \<noteq> sep" s] by (cases s) (auto simp: cut_def)

text \<open>\<open>strings.Split\<close> at a separator of one byte.\<close>

function split_at :: "char \<Rightarrow> string \<Rightarrow> string list" where
  "split_at sep s = (if sep \<in> set s then (case cut sep s of (a, b) \<Rightarrow> a # split_at sep b) else [s])"
  by pat_completeness auto
termination
  by (relation "measure (\<lambda>(sep, s). length s)") (auto dest!: cut_shorter)

declare split_at.simps [simp del]

text \<open>
  \<open>strings.TrimSpace\<close> removes the white space of Unicode at both ends; these are the encodings of
  its characters.
\<close>

definition spaces :: "string list" where
  "spaces = map (\<lambda>n. [char_of n]) [9, 10, 11, 12, 13, 32 :: nat] @
    [[CHR 0xC2, CHR 0x85], [CHR 0xC2, CHR 0xA0], [CHR 0xE1, CHR 0x9A, CHR 0x80]] @
    map (\<lambda>n. [CHR 0xE2, CHR 0x80, char_of n]) ([0x80 ..< 0x8B] @ [0xA8, 0xA9, 0xAF :: nat]) @
    [[CHR 0xE2, CHR 0x81, CHR 0x9F], [CHR 0xE3, CHR 0x80, CHR 0x80]]"

lemma spaces_nonempty: "sp \<in> set spaces \<Longrightarrow> sp \<noteq> []"
  by (auto simp: spaces_def)

function trim_with :: "string list \<Rightarrow> string \<Rightarrow> string" where
  "trim_with sps s =
    (case find (\<lambda>sp. sp \<noteq> [] \<and> take (length sp) s = sp) sps of
       None \<Rightarrow> s
     | Some sp \<Rightarrow> trim_with sps (drop (length sp) s))"
  by pat_completeness auto
termination
proof (relation "measure (\<lambda>(sps, s). length s)", simp)
  fix sps s sp assume "find (\<lambda>sp. sp \<noteq> [] \<and> take (length sp) s = sp) sps = Some (sp :: string)"
  then have "sp \<noteq> []" "take (length sp) s = sp" by (auto simp: find_Some_iff)
  then show "((sps, drop (length sp) s), sps, s) \<in> measure (\<lambda>(sps, s). length s)" by (cases s) auto
qed

declare trim_with.simps [simp del]

definition trim_space :: "string \<Rightarrow> string" where
  "trim_space s = rev (trim_with (map rev spaces) (rev (trim_with spaces s)))"

text \<open>
  \<open>strings.EqualFold\<close> against an ASCII string: the letters fold, and so do the Kelvin sign and the
  long s, whose folds are ASCII letters.
\<close>

definition fold_char :: "char \<Rightarrow> char" where
  "fold_char c = (if CHR ''A'' \<le> c \<and> c \<le> CHR ''Z'' then char_of (of_char c + 32 :: nat) else c)"

fun fold_case :: "string \<Rightarrow> string" where
  "fold_case (a # b # c # s) =
    (if [a, b, c] = [CHR 0xE2, CHR 0x84, CHR 0xAA] then CHR ''k'' # fold_case s
     else if [a, b] = [CHR 0xC5, CHR 0xBF] then CHR ''s'' # fold_case (c # s)
     else fold_char a # fold_case (b # c # s))"
| "fold_case [a, b] = (if [a, b] = [CHR 0xC5, CHR 0xBF] then ''s'' else [fold_char a, fold_char b])"
| "fold_case s = map fold_char s"

definition equal_fold :: "string \<Rightarrow> string \<Rightarrow> bool" where
  "equal_fold s t \<longleftrightarrow> fold_case s = fold_case t"

text \<open>\<open>strconv.Itoa\<close> and \<open>strconv.Atoi\<close> for the 64-bit \<open>int\<close>.\<close>

definition digit_char :: "nat \<Rightarrow> char" where
  "digit_char n = char_of (48 + n)"

fun decimal_digits :: "nat \<Rightarrow> string" where
  "decimal_digits n = (if n < 10 then [digit_char n] else decimal_digits (n div 10) @ [digit_char (n mod 10)])"

declare decimal_digits.simps [simp del]

definition itoa :: "int \<Rightarrow> string" where
  "itoa n = (if n < 0 then ''-'' @ decimal_digits (nat (- n)) else decimal_digits (nat n))"

definition digit_of :: "char \<Rightarrow> nat option" where
  "digit_of c = (if CHR ''0'' \<le> c \<and> c \<le> CHR ''9'' then Some (of_char c - 48) else None)"

fun digits_value :: "nat \<Rightarrow> string \<Rightarrow> nat option" where
  "digits_value acc [] = Some acc"
| "digits_value acc (c # s) =
    (case digit_of c of None \<Rightarrow> None | Some d \<Rightarrow> digits_value (10 * acc + d) s)"

definition atoi :: "string \<Rightarrow> int option" where
  "atoi s =
    (let neg = (s \<noteq> [] \<and> hd s = CHR ''-'');
         body = (if s \<noteq> [] \<and> (hd s = CHR ''-'' \<or> hd s = CHR ''+'') then tl s else s)
     in if body = [] then None
        else case digits_value 0 body of
            None \<Rightarrow> None
          | Some n \<Rightarrow> let i = (if neg then - int n else int n) in
              if - (2 ^ 63) \<le> i \<and> i < 2 ^ 63 then Some i else None)"

section \<open>Queries\<close>

text \<open>\<open>rawQuery\<close>: the values each name is given, in order, undecoded.\<close>

function raw_pairs :: "(string \<Rightarrow> string list) \<Rightarrow> string \<Rightarrow> (string \<Rightarrow> string list)" where
  "raw_pairs values q =
    (if q = '''' then values
     else case cut (CHR ''&'') q of (pair, q') \<Rightarrow>
       if pair = '''' then raw_pairs values q'
       else case cut (CHR ''='') pair of (name, value) \<Rightarrow>
         raw_pairs (values(name := values name @ [value])) q')"
  by pat_completeness auto
termination
  by (relation "measure (\<lambda>(values, q). length q)") (auto dest!: cut_shorter)

declare raw_pairs.simps [simp del]

definition raw_query :: "string \<Rightarrow> (string \<Rightarrow> string list)" where
  "raw_query q = raw_pairs (\<lambda>_. []) q"

section \<open>Media types\<close>

definition media_type_blocks :: string where "media_type_blocks = ''application/dialog-blocks+cbor-seq''"
definition media_type_cbor_seq :: string where "media_type_cbor_seq = ''application/cbor-seq''"
definition media_type_json :: string where "media_type_json = ''application/json''"
definition media_type_problem :: string where "media_type_problem = ''application/problem+json''"

text \<open>
  \<open>mime.ParseMediaType\<close> is a parameter: the media type of a header, or none where the header does
  not parse.
\<close>

type_synonym media_parser = "string \<Rightarrow> string option"

definition media_type_is :: "media_parser \<Rightarrow> string \<Rightarrow> string \<Rightarrow> bool" where
  "media_type_is parse header want \<longleftrightarrow>
    header \<noteq> '''' \<and> (case parse header of None \<Rightarrow> False | Some mt \<Rightarrow> equal_fold mt want)"

definition is_block_seq_type :: "media_parser \<Rightarrow> string \<Rightarrow> bool" where
  "is_block_seq_type parse header \<longleftrightarrow>
    media_type_is parse header media_type_blocks \<or> media_type_is parse header media_type_cbor_seq"

definition media_range :: "string \<Rightarrow> string" where
  "media_range entry =
    (let rang = trim_space entry
     in if CHR '';'' \<in> set rang then trim_space (fst (cut (CHR '';'') rang)) else rang)"

definition accepts_block_seq :: "string \<Rightarrow> bool" where
  "accepts_block_seq header \<longleftrightarrow>
    trim_space header = '''' \<or>
    list_ex (\<lambda>entry. let rang = media_range entry in
      rang = ''*/*'' \<or> rang = ''application/*'' \<or> equal_fold rang media_type_blocks \<or>
      equal_fold rang media_type_cbor_seq) (split_at (CHR '','') header)"

definition matches_etag :: "string \<Rightarrow> string \<Rightarrow> bool" where
  "matches_etag header etag =
    (let h = trim_space header
     in if h = '''' then False
        else if h = ''*'' then True
        else list_ex (\<lambda>candidate. trim_space candidate = etag) (split_at (CHR '','') h))"

section \<open>Problems\<close>

definition problem_type_blank :: string where "problem_type_blank = ''about:blank''"
definition problem_not_held :: string where "problem_not_held = ''urn:dialog:problem:not-held''"
definition problem_operation_not_offered :: string where
  "problem_operation_not_offered = ''urn:dialog:problem:operation-not-offered''"
definition problem_announce_refused :: string where
  "problem_announce_refused = ''urn:dialog:problem:announce-refused''"

text \<open>The titles of the profile's statuses; those of the others are \<open>http.StatusText\<close>, here none.\<close>

definition problem_title :: "nat \<Rightarrow> string option" where
  "problem_title status =
    (if status = 400 then Some ''malformed request''
     else if status = 404 then Some ''not held by this source''
     else if status = 403 then Some ''refused by this source''
     else if status = 405 then Some ''wrong method for this path''
     else if status = 406 then Some ''no acceptable representation''
     else if status = 413 then Some ''request too large''
     else if status = 415 then Some ''unsupported media type''
     else if status = 429 then Some ''rate limited''
     else if status = 503 then Some ''temporarily unable''
     else None)"

definition title_for :: "nat \<Rightarrow> string \<Rightarrow> string option" where
  "title_for status ty =
    (if ty = problem_not_held then problem_title 404
     else if ty = problem_operation_not_offered then Some ''operation not offered by this server''
     else if ty = problem_announce_refused then Some ''announce refused by this source''
     else problem_title status)"

record problem =
  pb_type :: string
  pb_title :: "string option"
  pb_status :: nat

section \<open>Identifiers in requests\<close>

lemma cid_text_self: "parse_cid_string (cid_string (digest_cid d)) = Inr (digest_cid d)"
proof -
  have "digest_cid d \<noteq> []" by (simp add: digest_cid_def cid_prefix_def)
  then have "respelt 2 (cid_string (digest_cid d)) (cid_string (digest_cid d))"
    using respelt_refl [of "digest_cid d" 2] by (simp add: cid_string_def multibase_base32_def)
  then show ?thesis by (auto simp: cid_text)
qed

lemma cid_text_inject: "cid_string (digest_cid d) = cid_string (digest_cid e) \<longleftrightarrow> d = e"
  using cid_text_self [of d] cid_text_self [of e] by (metis cid_digest_cid sum.inject(2))

lemma author_text_self: "author_key_text k = Inr t \<Longrightarrow> parse_author_key_text t = Inr k"
proof -
  assume t: "author_key_text k = Inr t"
  then have e: "t = multibase_base32 @ base32_encode (author_key_prefix @ k)" by (auto simp: author_key_text_def split: if_splits)
  have "respelt 3 t t" using respelt_refl [of "author_key_prefix @ k" 3] by (simp add: e author_key_prefix_def multibase_base32_def)
  then show ?thesis using t by (auto simp: author_key_text_iff)
qed

end
