(* ===== verification/Seq.thy ===== *)
theory Seq
  imports Samples Loop Ordered
begin

text \<open>
  Block sequences, \<open>go/transport/seq.go\<close>: writing them, reading them from bytes, streams and files,
  and the two checks a client makes of what it was sent, of a range and of a sibling set. A \<open>nil\<close>
  block is not modelled; a sort is stable where the code's need not be, which only blocks of one
  digest could tell apart.
\<close>

section \<open>Decoding moves forward\<close>

lemma next_byte_pos: "next_byte d = Inr (b, d') \<Longrightarrow> pos d' = Suc (pos d)"
  by (auto simp: next_byte_def advance_def split: list.splits)

lemma take_bytes_pos: "take_bytes s n d = Inr (b, d') \<Longrightarrow> pos d \<le> pos d'"
  by (auto simp: take_bytes_def advance_def split: if_splits)

lemma argument_pos: "argument s ai d = Inr (n, d') \<Longrightarrow> pos d \<le> pos d'"
  by (auto simp: argument_def bindE_eq_Inr Let_def dest: take_bytes_pos split: if_splits)

lemma dec_count_pos: "dec_count s ai d = Inr (n, d') \<Longrightarrow> pos d \<le> pos d'"
  by (auto simp: dec_count_def bindE_eq_Inr Let_def dest: argument_pos split: if_splits)

lemma string_payload_pos: 
  assumes "string_payload s ai d = Inr (b, d')" shows "pos d \<le> pos d'"
proof -
  from assms obtain n d1 where "dec_count s ai d = Inr (n, d1)" "d' = advance (unat n) d1"
    by (auto simp: string_payload_def bindE_eq_Inr)
  then show ?thesis using dec_count_pos [of s ai d n d1] by (simp add: advance_def)
qed

lemma decimal_int_pos:
  assumes "decimal_int d = Inr (i, d')" shows "pos d \<le> pos d'"
proof -
  from assms obtain b d1 n where "next_byte d = Inr (b, d1)" "argument (pos d) (info_of b) d1 = Inr (n, d')"
    by (auto simp: decimal_int_def bindE_eq_Inr Let_def split: if_splits)
  then show ?thesis using argument_pos [of "pos d" "info_of b" d1 n d'] next_byte_pos [of d b d1] by simp
qed

lemma tag_value_pos:
  assumes "tag_value s ai depth d = Inr (v, d')"
  shows "pos d \<le> pos d'"
proof -
  from assms obtain t d1 b d2 n d3 e d4 m
    where r: "argument s ai d = Inr (t, d1)" "next_byte d1 = Inr (b, d2)" "dec_count (pos d1) (info_of b) d2 = Inr (n, d3)"
      "decimal_int d3 = Inr (e, d4)" "decimal_int d4 = Inr (m, d')"
    by (auto simp: tag_value_def bindE_eq_Inr Let_def split: if_splits)
  show ?thesis using argument_pos [OF r(1)] next_byte_pos [OF r(2)] dec_count_pos [OF r(3)] decimal_int_pos [OF r(4)]
    decimal_int_pos [OF r(5)] by simp
qed

lemma simple_pos: "simple s ai d = Inr (v, d') \<Longrightarrow> d' = d"
  by (auto simp: simple_def split: if_splits)

lemma dec_text_key_pos:
  assumes "dec_text_key d = Inr (k, d')" shows "pos d \<le> pos d'"
proof -
  from assms obtain b d1 raw where "next_byte d = Inr (b, d1)" "string_payload (pos d) (info_of b) d1 = Inr (raw, d')"
    by (auto simp: dec_text_key_def bindE_eq_Inr Let_def split: if_splits)
  then show ?thesis using string_payload_pos [of "pos d" "info_of b" d1 raw d'] next_byte_pos [of d b d1] by simp
qed

definition forward :: "cbor_value \<Rightarrow> bool" where
  "forward v \<longleftrightarrow> (\<forall>depth d d'. dec_value depth d = Inr (v, d') \<longrightarrow> pos d < pos d')"

lemma forward_items:
  "dec_items level n d = Inr (vs, d') \<Longrightarrow> \<forall>v \<in> set vs. forward v \<Longrightarrow> pos d \<le> pos d'"
proof (induction n arbitrary: d vs)
  case (Suc n)
  from Suc.prems(1) obtain v d1 ws where r: "dec_value level d = Inr (v, d1)" "dec_items level n d1 = Inr (ws, d')"
    and vs: "vs = v # ws" by (auto simp: bindE_eq_Inr)
  from Suc.IH [OF r(2)] Suc.prems(2) vs have "pos d1 \<le> pos d'" by simp
  moreover have "pos d < pos d1" using Suc.prems(2) r(1) by (simp add: vs forward_def)
  ultimately show ?case by simp
qed simp

lemma forward_entries:
  "dec_entries level n prev d = Inr (m, d') \<Longrightarrow> \<forall>e \<in> set m. forward (snd e) \<Longrightarrow> pos d \<le> pos d'"
proof (induction n arbitrary: prev d m)
  case (Suc n)
  from Suc.prems(1) obtain key enc d1 v d2 m' where r: "dec_text_key d = Inr ((key, enc), d1)"
    "dec_value level d1 = Inr (v, d2)" "dec_entries level n (Some enc) d2 = Inr (m', d')"
    and m: "m = (key, v) # m'" by (auto simp: bindE_eq_Inr Let_def split: if_splits)
  from Suc.IH [OF r(3)] Suc.prems(2) m have "pos d2 \<le> pos d'" by simp
  moreover have "pos d1 < pos d2" using Suc.prems(2) r(2) by (simp add: m forward_def)
  ultimately show ?case using dec_text_key_pos [OF r(1)] by simp
qed simp

lemma forward_value:
  assumes "dec_value depth d = Inr (v, d')" and "\<And>vs. v = Array vs \<Longrightarrow> \<forall>w \<in> set vs. forward w"
    and "\<And>m. v = Map m \<Longrightarrow> \<forall>e \<in> set m. forward (snd e)"
  shows "pos d < pos d'"
proof -
  have step: "pos d1 = Suc (pos d)" if "reads d [ib] d1" for ib d1 using that by (auto simp: reads_def)
  from assms(1) show ?thesis
    unfolding dec_value_split
  proof (elim exE conjE disjE)
    fix ib d1 n d2 vs assume ib: "reads d [ib] d1" and r: "dec_count (pos d) (info_of ib) d1 = Inr (n, d2)"
      "dec_items (Suc depth) (unat n) d2 = Inr (vs, d')" "v = Array vs"
    show ?thesis using step [OF ib] forward_items [OF r(2) assms(2) [OF r(3)]] dec_count_pos [OF r(1)] by simp
  next
    fix ib d1 n d2 m assume ib: "reads d [ib] d1" and r: "dec_count (pos d) (info_of ib) d1 = Inr (n, d2)"
      "dec_entries (Suc depth) (unat n) None d2 = Inr (m, d')" "v = Map m"
    show ?thesis using step [OF ib] forward_entries [OF r(2) assms(3) [OF r(3)]] dec_count_pos [OF r(1)] by simp
  qed (auto dest!: step argument_pos string_payload_pos tag_value_pos simple_pos)
qed

lemma forward_all: "forward v"
proof (induction v)
  case (Array vs)
  then show ?case unfolding forward_def [of "Array vs"] using forward_value by blast
next
  case (Map m)
  then have "\<forall>e \<in> set m. forward (snd e)" by (auto elim: snds.cases)
  then show ?case unfolding forward_def [of "Map m"] using forward_value by blast
qed (auto simp: forward_def intro: forward_value)

lemma decode_prefix_pos: "decode_prefix b = Inr (v, n) \<Longrightarrow> 0 < n"
  using forward_all [of v] by (fastforce simp: decode_prefix_def bindE_eq_Inr forward_def)

section \<open>Writing and reading block sequences\<close>

datatype seq_error =
    Item_at nat nat syntax_error
  | Block_at nat nat form_error
  | Too_large int64
  | Reading string
  | Writing string
  | File string
  | In_file string seq_error
  | Range_prev nat digest
  | Range_genesis nat digest
  | Range_gap nat digest digest
  | Range_author nat
  | Sibling_author nat
  | Sibling_prev nat digest
  | Sibling_genesis nat digest
  | Sibling_gap nat digest digest
  | Sibling_order nat digest digest

fun append_seq :: "byte list \<Rightarrow> block list \<Rightarrow> byte list" where
  "append_seq dst [] = dst"
| "append_seq dst (b # bs) = append_seq (dst @ blk_enc b) bs"

definition encode_seq :: "block list \<Rightarrow> byte list" where
  "encode_seq bs = append_seq [] bs"

definition seq_len :: "block list \<Rightarrow> nat" where
  "seq_len bs = foldl (\<lambda>n b. n + length (blk_enc b)) 0 bs"

text \<open>
  A writer takes bytes and returns its new state, how many it took, and a fault. \<open>write_seq\<close>
  returns the state, the number of bytes written so far and the error.
\<close>

type_synonym 'w writer = "'w \<Rightarrow> byte list \<Rightarrow> 'w \<times> int \<times> string option"

fun write_from :: "'w writer \<Rightarrow> 'w \<Rightarrow> int \<Rightarrow> block list \<Rightarrow> 'w \<times> int \<times> seq_error option" where
  "write_from w s written [] = (s, written, None)"
| "write_from w s written (b # bs) =
    (case w s (blk_enc b) of
       (s', n, Some e) \<Rightarrow> (s', written + n, Some (Writing e))
     | (s', n, None) \<Rightarrow> write_from w s' (written + n) bs)"

definition write_seq :: "'w writer \<Rightarrow> 'w \<Rightarrow> block list \<Rightarrow> 'w \<times> int \<times> seq_error option" where
  "write_seq w s bs = write_from w s 0 bs"

text \<open>
  The loop of \<open>DecodeSeq\<close>: the blocks read so far, the offset and the whole input. Each round
  moves the offset forward, since an item is at least one byte long.
\<close>

function decode_from :: "crypto \<Rightarrow> block list \<Rightarrow> nat \<Rightarrow> byte list \<Rightarrow> seq_error + block list" where
  "decode_from cr bs off seq =
    (if off < length seq then
       bindE (mapErr (Item_at (length bs) off) (decode_prefix (drop off seq))) (\<lambda>(v, n).
       bindE (mapErr (Block_at (length bs) off) (decode_block cr (take n (drop off seq)))) (\<lambda>b.
       decode_from cr (bs @ [b]) (off + n) seq))
     else Inr bs)"
  by pat_completeness auto
termination
  by (relation "measure (\<lambda>(cr, bs, off, seq). length seq - off)") (auto dest: decode_prefix_pos)

declare decode_from.simps [simp del]

definition decode_seq :: "crypto \<Rightarrow> byte list \<Rightarrow> seq_error + block list" where
  "decode_seq cr seq = decode_from cr [] 0 seq"

section \<open>Reading bounded streams and files\<close>

text \<open>
  A reader holds bytes and ends in a fault or at the end of the stream. \<open>io.LimitReader\<close> over it
  ends the stream after a signed 64-bit number of bytes; a number that is not positive ends it at
  once.
\<close>

record reader =
  rd_bytes :: "byte list"
  rd_fault :: "string option"

definition read_all :: "reader \<Rightarrow> string + byte list" where
  "read_all r = (case rd_fault r of None \<Rightarrow> Inr (rd_bytes r) | Some e \<Rightarrow> Inl e)"

definition limit_reader :: "reader \<Rightarrow> int64 \<Rightarrow> reader" where
  "limit_reader r n =
    (if sint n \<le> int (length (rd_bytes r)) then \<lparr>rd_bytes = take (nat (sint n)) (rd_bytes r), rd_fault = None\<rparr>
     else r)"

definition default_max_seq_bytes :: int64 where
  "default_max_seq_bytes = push_bit 20 16"

definition read_seq :: "crypto \<Rightarrow> reader \<Rightarrow> int64 \<Rightarrow> seq_error + block list" where
  "read_seq cr r max0 =
    (let bound = (if max0 = 0 then default_max_seq_bytes else max0)
     in if sint bound < 0 then bindE (mapErr Reading (read_all r)) (decode_seq cr)
        else bindE (mapErr Reading (read_all (limit_reader r (bound + 1)))) (\<lambda>raw.
          if int (length raw) > sint bound then Inl (Too_large bound) else decode_seq cr raw))"

text \<open>A file system is a map from names to contents or faults.\<close>

type_synonym files = "string \<Rightarrow> string + byte list"

definition read_file :: "crypto \<Rightarrow> files \<Rightarrow> string \<Rightarrow> seq_error + block list" where
  "read_file cr fs name = bindE (mapErr File (fs name)) (\<lambda>raw. mapErr (In_file name) (decode_seq cr raw))"

definition write_file :: "files \<Rightarrow> string \<Rightarrow> block list \<Rightarrow> files" where
  "write_file fs name bs = fs(name := Inr (encode_seq bs))"

section \<open>Ranges and sibling sets\<close>

fun check_run :: "crypto \<Rightarrow> block \<Rightarrow> nat \<Rightarrow> digest option \<Rightarrow> block list \<Rightarrow> seq_error + unit" where
  "check_run cr first i want [] = Inr ()"
| "check_run cr first i want (b # bs) =
    bindE (case (want, block_prev b) of
        (None, Some p) \<Rightarrow> Inl (Range_prev i p)
      | (Some w, None) \<Rightarrow> Inl (Range_genesis i w)
      | (Some w, Some p) \<Rightarrow> if p \<noteq> w then Inl (Range_gap i p w) else Inr ()
      | (None, None) \<Rightarrow> Inr ()) (\<lambda>_.
    if 0 < i \<and> \<not> same_author b first then Inl (Range_author i)
    else check_run cr first (Suc i) (Some (block_digest cr b)) bs)"

definition check_range :: "crypto \<Rightarrow> block list \<Rightarrow> digest option \<Rightarrow> seq_error + unit" where
  "check_range cr bs after = check_run cr (hd bs) 0 after bs"

fun siblings_from :: "crypto \<Rightarrow> byte list \<Rightarrow> digest option \<Rightarrow> block list \<Rightarrow> nat \<Rightarrow> block list \<Rightarrow> seq_error + unit" where
  "siblings_from cr pub prev bs i [] = Inr ()"
| "siblings_from cr pub prev bs i (b # later) =
    (if block_pub b \<noteq> pub then Inl (Sibling_author i)
     else bindE (case (prev, block_prev b) of
        (None, Some p) \<Rightarrow> Inl (Sibling_prev i p)
      | (Some w, None) \<Rightarrow> Inl (Sibling_genesis i w)
      | (Some w, Some p) \<Rightarrow> if p \<noteq> w then Inl (Sibling_gap i p w) else Inr ()
      | (None, None) \<Rightarrow> Inr ()) (\<lambda>_.
     if 0 < i \<and> digest_bytes (block_digest cr b) \<le> digest_bytes (block_digest cr (bs ! (i - 1))) then
       Inl (Sibling_order i (block_digest cr b) (block_digest cr (bs ! (i - 1))))
     else siblings_from cr pub prev bs (Suc i) later))"

definition check_siblings :: "crypto \<Rightarrow> block list \<Rightarrow> byte list \<Rightarrow> digest option \<Rightarrow> seq_error + unit" where
  "check_siblings cr bs pub prev = siblings_from cr pub prev bs 0 bs"

definition sort_siblings :: "crypto \<Rightarrow> block list \<Rightarrow> block list" where
  "sort_siblings cr bs = sort_key (\<lambda>b. digest_bytes (block_digest cr b)) bs"

section \<open>Encoding\<close>

lemma append_seq_concat: "append_seq dst bs = dst @ concat (map blk_enc bs)"
  by (induction bs arbitrary: dst) simp_all

lemma encode_seq_concat: "encode_seq bs = concat (map blk_enc bs)"
  by (simp add: encode_seq_def append_seq_concat)

lemma encode_seq_simps [simp]:
  "encode_seq [] = []" "encode_seq (b # bs) = blk_enc b @ encode_seq bs" "encode_seq (as @ bs) = encode_seq as @ encode_seq bs"
  by (simp_all add: encode_seq_concat)

lemma seq_len_encode: "seq_len bs = length (encode_seq bs)"
proof -
  have "foldl (\<lambda>n b. n + length (blk_enc b)) n bs = n + length (encode_seq bs)" for n
    by (induction bs arbitrary: n) simp_all
  then show ?thesis by (simp add: seq_len_def)
qed

lemma write_from_taken:
  assumes "\<And>s b. w s b = (f s b, int (length b), None)"
  shows "write_from w s n bs = (foldl f s (map blk_enc bs), n + int (length (encode_seq bs)), None)"
  by (induction bs arbitrary: s n) (simp_all add: assms)

section \<open>Decoding\<close>

lemma small_take: "small s \<Longrightarrow> small (take n s)" and small_drop: "small s \<Longrightarrow> small (drop n s)"
  by (simp_all add: small_def)

lemma decode_block_enc: "decode_block cr s = Inr b \<Longrightarrow> blk_enc b = s"
  by (simp add: decode_block_Inr)

lemma decode_block_prefix:
  assumes "decode_block cr e = Inr b" and "small (e @ t)"
  shows "\<exists>v. decode_prefix (e @ t) = Inr (v, length e)" and "e \<noteq> []"
proof -
  obtain m where "decode e = Inr (Map m)" using assms(1) by (auto simp: decode_block_Inr)
  then have r: "canonical (Map m) \<and> encode (Map m) = Inr e" using assms(2) by (simp add: decode_iff small_def)
  then show p: "\<exists>v. decode_prefix (e @ t) = Inr (v, length e)"
    using assms(2) by (intro exI [of _ "Map m"]) (simp add: decode_prefix_iff small_def del: canonical.simps)
  show "e \<noteq> []" using p decode_prefix_pos by fastforce
qed

lemma decode_prefix_block:
  assumes "decode_prefix s = Inr (v, n)" and "small s"
  shows "n \<le> length s"
  using assms by (simp add: decode_prefix_iff small_def)

lemma decode_from_exact:
  assumes "small seq"
  shows "decode_from cr bs off seq = Inr cs \<longleftrightarrow>
    (\<exists>ds. cs = bs @ ds \<and> drop off seq = encode_seq ds \<and> (\<forall>d \<in> set ds. decode_block cr (blk_enc d) = Inr d))"
  using assms
proof (induction cr bs off seq rule: decode_from.induct)
  case (1 cr bs off seq)
  show ?case
  proof (cases "off < length seq")
    case False
    then have e: "drop off seq = []" by simp
    have n: "decode_block cr [] \<noteq> Inr d" for d using decode_block_prefix(2) [of cr "[]" d "[]"] by (auto simp: small_def)
    have "ds = []" if "[] = encode_seq ds" and "\<forall>d \<in> set ds. decode_block cr (blk_enc d) = Inr d" for ds
      using that n by (cases ds) auto
    then show ?thesis using False e by (subst decode_from.simps) fastforce
  next
    case True
    let ?s = "drop off seq"
    have s: "small ?s" by (rule small_drop) (rule "1.prems")
    have IH: "decode_from cr (bs @ [b]) (off + n) seq = Inr cs \<longleftrightarrow>
      (\<exists>ds. cs = bs @ b # ds \<and> drop n ?s = encode_seq ds \<and> (\<forall>d \<in> set ds. decode_block cr (blk_enc d) = Inr d))"
      if "decode_prefix ?s = Inr (v, n)" and "decode_block cr (take n ?s) = Inr b" for v n b
      using "1.IH" [OF True, of "(v, n)" v n b] that "1.prems" by (simp add: add.commute)
    show ?thesis
    proof
      assume "decode_from cr bs off seq = Inr cs"
      then obtain v n b where p: "decode_prefix ?s = Inr (v, n)" and b: "decode_block cr (take n ?s) = Inr b"
        and r: "decode_from cr (bs @ [b]) (off + n) seq = Inr cs"
        using True by (subst (asm) decode_from.simps) (auto simp: bindE_eq_Inr mapErr_eq_Inr)
      from r [unfolded IH [OF p b]] obtain ds where ds: "cs = bs @ b # ds" "drop n ?s = encode_seq ds"
        "\<forall>d \<in> set ds. decode_block cr (blk_enc d) = Inr d" by blast
      have e: "blk_enc b = take n ?s" by (rule decode_block_enc [OF b])
      have "?s = encode_seq (b # ds)" using ds(2) e append_take_drop_id [of n ?s] by simp
      then show "\<exists>ds. cs = bs @ ds \<and> ?s = encode_seq ds \<and> (\<forall>d \<in> set ds. decode_block cr (blk_enc d) = Inr d)"
        using ds b e by (intro exI [of _ "b # ds"]) simp
    next
      assume "\<exists>ds. cs = bs @ ds \<and> ?s = encode_seq ds \<and> (\<forall>d \<in> set ds. decode_block cr (blk_enc d) = Inr d)"
      then obtain ds where ds: "cs = bs @ ds" "?s = encode_seq ds" "\<forall>d \<in> set ds. decode_block cr (blk_enc d) = Inr d" by blast
      from True ds(2) obtain b ds' where d: "ds = b # ds'" by (cases ds) auto
      let ?n = "length (blk_enc b)"
      have b: "decode_block cr (blk_enc b) = Inr b" using ds(3) d by simp
      obtain v where p: "decode_prefix ?s = Inr (v, ?n)"
        using decode_block_prefix(1) [OF b, of "encode_seq ds'"] s ds(2) d by auto
      have t: "take ?n ?s = blk_enc b" "drop ?n ?s = encode_seq ds'" using ds(2) d by simp_all
      have "decode_from cr (bs @ [b]) (off + ?n) seq = Inr cs"
        using IH [OF p, of b] b t ds(1,3) d by simp
      then show "decode_from cr bs off seq = Inr cs"
        using True p b t by (subst decode_from.simps) simp
    qed
  qed
qed

section \<open>What a sequence can be read as\<close>

text \<open>A block that its own bytes decode to.\<close>

definition self_read :: "crypto \<Rightarrow> block \<Rightarrow> bool" where
  "self_read cr b \<longleftrightarrow> decode_block cr (blk_enc b) = Inr b"

lemma decode_seq_iff:
  assumes "small s"
  shows "decode_seq cr s = Inr bs \<longleftrightarrow> s = encode_seq bs \<and> list_all (self_read cr) bs"
  using decode_from_exact [OF assms, of cr "[]" 0 bs] by (auto simp: decode_seq_def self_read_def list_all_iff)

lemma encode_seq_prefix:
  assumes "small (encode_seq cs @ t)" and "encode_seq cs @ t = encode_seq bs"
    and "list_all (self_read cr) cs" and "list_all (self_read cr) bs"
  shows "cs = take (length cs) bs \<and> t = encode_seq (drop (length cs) bs)"
  using assms
proof (induction cs arbitrary: bs)
  case (Cons c cs)
  have c: "decode_block cr (blk_enc c) = Inr c" using Cons.prems(3) by (simp add: self_read_def)
  have sm: "small (blk_enc c @ encode_seq cs @ t)" using Cons.prems(1) by simp
  obtain v where v: "decode_prefix (blk_enc c @ encode_seq cs @ t) = Inr (v, length (blk_enc c))"
    using decode_block_prefix(1) [OF c sm] by blast
  have "encode_seq bs \<noteq> []" using Cons.prems(2) decode_block_prefix(2) [OF c sm] by auto
  then obtain b bs' where bs: "bs = b # bs'" by (cases bs) auto
  have b: "decode_block cr (blk_enc b) = Inr b" using Cons.prems(4) by (simp add: self_read_def bs)
  have eq: "blk_enc c @ encode_seq cs @ t = blk_enc b @ encode_seq bs'" using Cons.prems(2) by (simp add: bs)
  obtain w where w: "decode_prefix (blk_enc b @ encode_seq bs') = Inr (w, length (blk_enc b))"
    using decode_block_prefix(1) [OF b sm [unfolded eq]] by blast
  have l: "length (blk_enc c) = length (blk_enc b)" using v [unfolded eq w] by simp
  have e: "blk_enc c = blk_enc b" and r: "encode_seq cs @ t = encode_seq bs'"
    using eq [unfolded append_eq_append_conv [OF disjI1 [OF l]]] by (rule conjunct1, rule conjunct2)
  have cb: "c = b" using b c e by simp
  have s': "small (encode_seq cs @ t)" using sm by (simp add: small_def)
  have l': "list_all (self_read cr) cs" using Cons.prems(3) by simp
  have "cs = take (length cs) bs' \<and> t = encode_seq (drop (length cs) bs')"
    by (rule Cons.IH [OF s' r l']) (use Cons.prems(4) bs in simp)
  then show ?case by (simp add: bs cb)
qed simp

lemma decode_cut:
  assumes "small s" and "decode_seq cr s = Inr bs"
  shows "decode_seq cr (take n s) = Inr cs \<longleftrightarrow>
    cs = take (length cs) bs \<and> take n s = encode_seq (take (length cs) bs)"
proof -
  have b: "s = encode_seq bs" "list_all (self_read cr) bs" using assms by (simp_all add: decode_seq_iff)
  have t: "decode_seq cr (take n s) = Inr cs \<longleftrightarrow> take n s = encode_seq cs \<and> list_all (self_read cr) cs"
    using decode_seq_iff [OF small_take [OF assms(1)]] .
  have "cs = take (length cs) bs" if "take n s = encode_seq cs" "list_all (self_read cr) cs"
  proof -
    have e: "encode_seq cs @ drop n s = encode_seq bs" using append_take_drop_id [of n s] by (simp only: that(1) b(1) [symmetric])
    then show ?thesis using encode_seq_prefix [OF _ e that(2) b(2)] assms(1) b(1) by simp
  qed
  moreover have "list_all (self_read cr) (take k bs)" for k using b(2) by (auto simp: list_all_iff dest: in_set_takeD)
  ultimately show ?thesis unfolding t by metis
qed

section \<open>Bounded reading\<close>

lemma sint_succ: "0 < sint x \<Longrightarrow> sint x < 2 ^ 63 - 1 \<Longrightarrow> sint (x + 1) = sint x + 1" for x :: int64
  by (simp add: sint_word_ariths signed_take_bit_int_eq_self)

lemma read_seq_bounded:
  assumes "0 < sint bound" and "sint bound < 2 ^ 63 - 1"
  shows "read_seq cr r bound =
    (if sint bound < int (length (rd_bytes r)) then Inl (Too_large bound)
     else case rd_fault r of Some e \<Rightarrow> Inl (Reading e) | None \<Rightarrow> decode_seq cr (rd_bytes r))"
proof -
  have m: "bound \<noteq> 0" "\<not> sint bound < 0" using assms(1) by auto
  show ?thesis
  proof (cases "sint bound < int (length (rd_bytes r))")
    case True
    then have "read_all (limit_reader r (bound + 1)) = Inr (take (nat (sint bound + 1)) (rd_bytes r))"
      using sint_succ [OF assms] by (simp add: limit_reader_def read_all_def)
    moreover have "int (length (take (nat (sint bound + 1)) (rd_bytes r))) = sint bound + 1" using True assms(1) by simp
    ultimately show ?thesis using True m by (simp add: read_seq_def)
  next
    case False
    then have "limit_reader r (bound + 1) = r" using sint_succ [OF assms] by (simp add: limit_reader_def)
    then show ?thesis using False m by (simp add: read_seq_def read_all_def split: option.split)
  qed
qed

text \<open>At the largest bound the addition wraps around, and nothing of the stream is read.\<close>

lemma read_seq_largest: "read_seq cr r 0x7FFFFFFFFFFFFFFF = Inr []"
proof -
  have "sint (0x7FFFFFFFFFFFFFFF + 1 :: int64) = - 9223372036854775808" by simp
  moreover have "sint (0x7FFFFFFFFFFFFFFF :: int64) = 9223372036854775807" by simp
  moreover have "decode_seq cr [] = Inr []" by (simp add: decode_seq_iff small_def)
  ultimately show ?thesis by (simp add: read_seq_def limit_reader_def read_all_def)
qed

lemma read_written:
  assumes "list_all (self_read cr) bs" and "small (encode_seq bs)"
  shows "read_file cr (write_file fs name bs) name = Inr bs"
  using assms by (simp add: read_file_def write_file_def decode_seq_iff)

section \<open>Ranges\<close>

text \<open>A run of a chain: each block names the one before it, the first the position given.\<close>

fun run_after :: "crypto \<Rightarrow> digest option \<Rightarrow> block list \<Rightarrow> bool" where
  "run_after cr p [] = True"
| "run_after cr p (b # bs) = (block_prev b = p \<and> run_after cr (Some (block_digest cr b)) bs)"

lemma check_run_iff:
  "check_run cr first i want bs = Inr () \<longleftrightarrow>
    run_after cr want bs \<and> (\<forall>b \<in> set (if i = 0 then tl bs else bs). same_author b first)"
  by (induction bs arbitrary: i want) (auto split: option.splits)

lemma same_author_iff: "same_author a b \<longleftrightarrow> block_pub a = block_pub b"
  by (simp add: same_author_def block_pub_def)

lemma check_range_iff:
  "check_range cr bs after = Inr () \<longleftrightarrow> run_after cr after bs \<and> (\<exists>pub. \<forall>b \<in> set bs. block_pub b = pub)"
  unfolding check_range_def check_run_iff by (cases bs) (auto simp: same_author_iff)

lemma run_after_nth:
  "run_after cr p bs \<longleftrightarrow>
    (\<forall>i < length bs. block_prev (bs ! i) = (if i = 0 then p else Some (block_digest cr (bs ! (i - 1)))))"
proof (induction bs arbitrary: p)
  case (Cons b bs)
  show ?case unfolding run_after.simps Cons.IH by (auto simp: less_Suc_eq_0_disj nth_Cons' split: if_splits)
qed simp

section \<open>Sibling sets\<close>

lemma siblings_from_iff:
  "siblings_from cr pub prev (as @ bs) (length as) bs = Inr () \<longleftrightarrow>
    (\<forall>b \<in> set bs. block_pub b = pub \<and> block_prev b = prev) \<and>
    sorted_wrt (<) (map (block_digest cr) ((if as = [] then [] else [last as]) @ bs))"
proof (induction bs arbitrary: as)
  case Nil
  then show ?case by simp
next
  case (Cons b bs)
  have IH: "siblings_from cr pub prev (as @ b # bs) (Suc (length as)) bs = Inr () \<longleftrightarrow>
    (\<forall>b \<in> set bs. block_pub b = pub \<and> block_prev b = prev) \<and> sorted_wrt (<) (map (block_digest cr) (b # bs))"
    using Cons.IH [of "as @ [b]"] by simp
  have n: "as \<noteq> [] \<Longrightarrow> (as @ b # bs) ! (length as - 1) = last as"
    by (simp add: nth_append last_conv_nth)
  show ?case
  proof (cases "as = []")
    case True
    then show ?thesis using IH by (auto split: option.splits)
  next
    case False
    have s: "sorted_wrt (<) (map (block_digest cr) (last as # b # bs)) \<longleftrightarrow>
      block_digest cr (last as) < block_digest cr b \<and> sorted_wrt (<) (map (block_digest cr) (b # bs))"
      by (auto intro: less_trans)
    have d: "digest_bytes x \<le> digest_bytes y \<longleftrightarrow> \<not> y < x" for x y :: digest
      using digest_less_iff [of y x] by (simp add: linorder_not_less [symmetric])
    show ?thesis using False IH n s d by (auto split: option.splits)
  qed
qed

lemma check_siblings_iff:
  "check_siblings cr bs pub prev = Inr () \<longleftrightarrow>
    (\<forall>b \<in> set bs. block_pub b = pub \<and> block_prev b = prev) \<and> sorted_wrt (<) (map (block_digest cr) bs)"
  using siblings_from_iff [of cr pub prev "[]" bs] by (simp add: check_siblings_def)

section \<open>Block sequences\<close>

lemma genesis_self_read:
  obtains b where "self_read sample_crypto b" and "sound_block sample_crypto b" and "small (blk_enc b)"
    and "block_prev b = None" and "length (block_pub b) = 32"
proof -
  obtain b where b: "sign sample_crypto (genesis_content (Create_atom water)) sample_key = Inr b"
    using sign_genesis [OF sample_honest wf_op_encodable [OF wf_water]] by (auto simp: is_rotate_key_def)
  have s: "small (blk_enc b)" by (rule genesis_atom_size [OF b]) (simp add: water_def)
  have n: "normal_content (blk_content b)"
    using wf_water by (simp add: sign_genesis_content [OF b] normal_content_def) (simp add: genesis_content_def)
  have "self_read sample_crypto b"
    using sign_sound [OF b] n s by (simp add: self_read_def decode_block_iff sound_block_def)
  moreover have "block_prev b = None"
    by (simp add: block_prev_def sign_genesis_content [OF b]) (simp add: genesis_content_def)
  ultimately show thesis using that s sign_sound [OF b] sound_pub_length by blast
qed

text \<open>
  C26. A block sequence. \<open>DecodeSeq\<close> returns the blocks bs exactly when its input is \<open>EncodeSeq\<close> of bs
  and \<open>Decode\<close> reads each of them from its own bytes: the concatenation without framing loses
  nothing, and nothing else is accepted. The empty input is the sequence of no block.
\<close>

theorem sequences_exact:
  assumes "small s"
  shows "decode_seq cr s = Inr bs \<longleftrightarrow>
    s = encode_seq bs \<and> (\<forall>b \<in> set bs. decode_block cr (blk_enc b) = Inr b)"
  using decode_seq_iff [OF assms] by (simp add: self_read_def list_all_iff)

theorem sequences_exact_witness:
  "\<exists>b. decode_seq sample_crypto (encode_seq [b]) = Inr [b] \<and> encode_seq [b] = blk_enc b \<and>
    decode_seq sample_crypto [] = Inr []"
proof -
  obtain b where b: "self_read sample_crypto b" "small (blk_enc b)" by (rule genesis_self_read)
  have "small (encode_seq [b])" "small []" using b(2) by (simp_all add: small_def)
  from sequences_exact [OF this(1), of sample_crypto "[b]"] sequences_exact [OF this(2), of sample_crypto "[]"] b(1)
  show ?thesis by (intro exI [of _ b]) (simp add: self_read_def)
qed

text \<open>
  A cut connection. The first n bytes of a sequence are a sequence only at the boundaries of its
  blocks, and then of the blocks before the cut: a truncated final item is an error and never the
  end of a shorter sequence.
\<close>

theorem truncation_detected:
  assumes "small s" and "decode_seq cr s = Inr bs"
  shows "decode_seq cr (take n s) = Inr cs \<longleftrightarrow>
    cs = take (length cs) bs \<and> take n s = encode_seq (take (length cs) bs)"
  by (rule decode_cut [OF assms])

theorem truncation_detected_witness:
  "\<exists>b. decode_seq sample_crypto (encode_seq [b]) = Inr [b] \<and>
    decode_seq sample_crypto (take (length (blk_enc b) - 1) (encode_seq [b])) \<noteq> Inr [b]"
proof -
  obtain b where b: "self_read sample_crypto b" "small (blk_enc b)" by (rule genesis_self_read)
  have s: "small (encode_seq [b])" using b(2) by (simp add: small_def)
  have d: "decode_seq sample_crypto (encode_seq [b]) = Inr [b]" using b(1) s by (simp add: decode_seq_iff)
  have "blk_enc b \<noteq> []" using decode_block_prefix(2) [of sample_crypto "blk_enc b" b "[]"] b by (simp add: self_read_def)
  then have l: "take (length (blk_enc b) - 1) (encode_seq [b]) \<noteq> encode_seq [b]" by (cases "blk_enc b") simp_all
  have "decode_seq sample_crypto (take (length (blk_enc b) - 1) (encode_seq [b])) \<noteq> Inr [b]"
    unfolding truncation_detected [OF s d] using l by simp
  with d show ?thesis by blast
qed

text \<open>
  The bound of \<open>ReadSeq\<close>. Below the largest signed 64-bit number a positive bound refuses exactly
  the streams that are longer, whatever comes after the byte past the bound, and otherwise reads
  the whole stream.
\<close>

theorem reading_bounded:
  assumes "0 < sint bound" and "sint bound < 2 ^ 63 - 1"
  shows "read_seq cr r bound =
    (if sint bound < int (length (rd_bytes r)) then Inl (Too_large bound)
     else case rd_fault r of Some e \<Rightarrow> Inl (Reading e) | None \<Rightarrow> decode_seq cr (rd_bytes r))"
  by (rule read_seq_bounded [OF assms])

theorem reading_bounded_witness:
  "read_seq sample_crypto \<lparr>rd_bytes = [1, 2, 3], rd_fault = None\<rparr> 2 = Inl (Too_large 2) \<and>
   read_seq sample_crypto \<lparr>rd_bytes = [], rd_fault = Some ''reset''\<rparr> 2 = Inl (Reading ''reset'')"
  using reading_bounded [of 2 sample_crypto "\<lparr>rd_bytes = [1, 2, 3], rd_fault = None\<rparr>"]
    reading_bounded [of 2 sample_crypto "\<lparr>rd_bytes = [], rd_fault = Some ''reset''\<rparr>"] by simp

text \<open>
  The range property. \<open>CheckRange\<close> passes exactly the runs of one author's chain: the first block
  names the position that was asked about, every later one the block before it, and all are of one
  author.
\<close>

theorem range_check_exact:
  "check_range cr bs after = Inr () \<longleftrightarrow>
    (\<forall>i < length bs. block_prev (bs ! i) = (if i = 0 then after else Some (block_digest cr (bs ! (i - 1)))) \<and>
      block_pub (bs ! i) = block_pub (bs ! 0))"
proof -
  have "(\<exists>pub. \<forall>b \<in> set bs. block_pub b = pub) \<longleftrightarrow> (\<forall>i < length bs. block_pub (bs ! i) = block_pub (bs ! 0))"
    unfolding all_set_conv_all_nth by (cases bs) force+
  then show ?thesis unfolding check_range_iff run_after_nth by blast
qed

theorem range_check_exact_witness:
  "\<exists>b. check_range sample_crypto [b] None = Inr () \<and> check_range sample_crypto [b] (Some 7) \<noteq> Inr ()"
proof -
  obtain b where "block_prev b = None" by (rule genesis_self_read)
  then show ?thesis
    using range_check_exact [of sample_crypto "[b]" None] range_check_exact [of sample_crypto "[b]" "Some 7"]
    by (intro exI [of _ b]) simp
qed

text \<open>
  A sibling set. \<open>CheckSiblings\<close> passes exactly the sequences of blocks by the named author at the
  named position in strictly ascending order of digests.
\<close>

theorem sibling_check_exact:
  "check_siblings cr bs pub prev = Inr () \<longleftrightarrow>
    (\<forall>b \<in> set bs. block_pub b = pub \<and> block_prev b = prev) \<and> sorted_wrt (<) (map (block_digest cr) bs)"
  by (rule check_siblings_iff)

theorem sibling_check_exact_witness:
  "\<exists>b. check_siblings sample_crypto [b] (block_pub b) None = Inr () \<and>
    check_siblings sample_crypto [b, b] (block_pub b) None \<noteq> Inr ()"
proof -
  obtain b where "block_prev b = None" by (rule genesis_self_read)
  then show ?thesis
    using sibling_check_exact [of sample_crypto "[b]" "block_pub b" None]
      sibling_check_exact [of sample_crypto "[b, b]" "block_pub b" None]
    by (intro exI [of _ b]) simp
qed

end
