(* ===== verification/Serving.thy ===== *)
theory Serving
  imports Seq Verdict_Store
begin

text \<open>
  What a server reads from the store it serves, \<open>at\<close>, \<open>branch\<close>, \<open>walk\<close> and \<open>tipOf\<close> of
  \<open>go/transport/server.go\<close>. The store is its two read operations, a record; a locale states what
  they promise, and both stores of \<open>go/block\<close> provide it.
\<close>

section \<open>What a server serves from\<close>

record chain_store =
  cs_block :: "digest \<Rightarrow> block_error + block"
  cs_claiming :: "byte list \<Rightarrow> digest option \<Rightarrow> digest list"

definition mem_chains :: "mem_store \<Rightarrow> chain_store" where
  "mem_chains m = \<lparr>cs_block = get_block m, cs_claiming = blocks_with_prev m\<rparr>"

definition vs_chains :: "vstore \<Rightarrow> chain_store" where
  "vs_chains s = mem_chains (vs_blocks s)"

definition blocks_at :: "chain_store \<Rightarrow> byte list \<Rightarrow> digest option \<Rightarrow> block list" where
  "blocks_at st pub prev = List.map_filter (\<lambda>d. case cs_block st d of Inl e \<Rightarrow> None | Inr b \<Rightarrow> Some b) (cs_claiming st pub prev)"

definition branch :: "crypto \<Rightarrow> block list \<Rightarrow> block" where
  "branch cr bs = sort_siblings cr bs ! 0"

fun walk_from :: "crypto \<Rightarrow> chain_store \<Rightarrow> byte list \<Rightarrow> nat \<Rightarrow> digest option \<Rightarrow> block list" where
  "walk_from cr st pub 0 p = []"
| "walk_from cr st pub (Suc n) p =
    (let next = blocks_at st pub p
     in if next = [] then []
        else let b = branch cr next in b # walk_from cr st pub n (Some (block_digest cr b)))"

text \<open>The slice of negative capacity that a negative limit asks for is a panic, here none.\<close>

definition serve_walk :: "crypto \<Rightarrow> chain_store \<Rightarrow> byte list \<Rightarrow> digest option \<Rightarrow> int \<Rightarrow> block list option" where
  "serve_walk cr st pub after limit = (if limit < 0 then None else Some (walk_from cr st pub (nat limit) after))"

text \<open>The loop of \<open>tipOf\<close> keeps the tip so far and the position; where it does not return, it is none.\<close>

definition tip_step :: "crypto \<Rightarrow> chain_store \<Rightarrow> byte list \<Rightarrow> block option \<times> digest option \<Rightarrow> block option \<times> digest option" where
  "tip_step cr st pub = (\<lambda>(tip, p). let b = branch cr (blocks_at st pub p) in (Some b, Some (block_digest cr b)))"

definition tip_of :: "crypto \<Rightarrow> chain_store \<Rightarrow> byte list \<Rightarrow> block option option" where
  "tip_of cr st pub =
    map_option fst (while_option (\<lambda>(tip, p). blocks_at st pub p \<noteq> []) (tip_step cr st pub) (None, None))"

section \<open>The contract of a store\<close>

definition serves :: "crypto \<Rightarrow> chain_store \<Rightarrow> block \<Rightarrow> bool" where
  "serves cr st b \<longleftrightarrow> cs_block st (block_digest cr b) = Inr b"

lemma member_blocks_at: "b \<in> set (blocks_at st pub prev) \<longleftrightarrow> (\<exists>d \<in> set (cs_claiming st pub prev). cs_block st d = Inr b)"
proof -
  have "b \<in> set (List.map_filter (\<lambda>d. case cs_block st d of Inl e \<Rightarrow> None | Inr b \<Rightarrow> Some b) ds) \<longleftrightarrow>
    (\<exists>d \<in> set ds. cs_block st d = Inr b)" for ds
    by (induction ds) (auto simp: map_filter_simps split: sum.splits)
  then show ?thesis by (simp add: blocks_at_def)
qed

lemma digests_blocks_at:
  assumes "\<And>d b. cs_block st d = Inr b \<Longrightarrow> block_digest cr b = d" and "\<forall>d \<in> set (cs_claiming st pub prev). \<exists>b. cs_block st d = Inr b"
  shows "map (block_digest cr) (blocks_at st pub prev) = cs_claiming st pub prev"
proof -
  have "\<forall>d \<in> set ds. \<exists>b. cs_block st d = Inr b \<Longrightarrow>
    map (block_digest cr) (List.map_filter (\<lambda>d. case cs_block st d of Inl e \<Rightarrow> None | Inr b \<Rightarrow> Some b) ds) = ds" for ds
    by (induction ds) (auto simp: map_filter_simps assms(1))
  with assms(2) show ?thesis by (simp add: blocks_at_def)
qed

text \<open>
  What a store promises a server while its invariant holds: a block is found under its own digest,
  and the digests it lists at a position are those of the blocks it holds there, each once.
\<close>

locale served =
  fixes cr :: crypto and ok :: "'s \<Rightarrow> bool" and view :: "'s \<Rightarrow> chain_store"
  assumes block_named: "ok s \<Longrightarrow> cs_block (view s) d = Inr b \<Longrightarrow> block_digest cr b = d"
    and claiming_exact: "ok s \<Longrightarrow> length pub = 32 \<Longrightarrow> set (cs_claiming (view s) pub prev) =
      {d. \<exists>b. cs_block (view s) d = Inr b \<and> block_pub b = pub \<and> block_prev b = prev}"
    and claiming_distinct: "ok s \<Longrightarrow> length pub = 32 \<Longrightarrow> distinct (cs_claiming (view s) pub prev)"
begin

lemma blocks_at_set:
  assumes "ok s" and "length pub = 32"
  shows "set (blocks_at (view s) pub prev) = {b. serves cr (view s) b \<and> block_pub b = pub \<and> block_prev b = prev}"
proof (rule set_eqI)
  fix b
  have "d = block_digest cr b" if "cs_block (view s) d = Inr b" for d using block_named [OF assms(1) that] by simp
  then show "b \<in> set (blocks_at (view s) pub prev) \<longleftrightarrow> b \<in> {b. serves cr (view s) b \<and> block_pub b = pub \<and> block_prev b = prev}"
    unfolding member_blocks_at claiming_exact [OF assms] by (fastforce simp: serves_def)
qed

lemma blocks_at_distinct:
  assumes "ok s" and "length pub = 32"
  shows "distinct (map (block_digest cr) (blocks_at (view s) pub prev))"
proof -
  have "map (block_digest cr) (blocks_at (view s) pub prev) = cs_claiming (view s) pub prev"
    by (rule digests_blocks_at) (auto simp: block_named [OF assms(1)] claiming_exact [OF assms])
  then show ?thesis using claiming_distinct [OF assms] by simp
qed

lemma siblings_exact:
  assumes "ok s" and "length pub = 32"
  shows "check_siblings cr (sort_siblings cr (blocks_at (view s) pub prev)) pub prev = Inr ()"
    and "set (sort_siblings cr (blocks_at (view s) pub prev)) = {b. serves cr (view s) b \<and> block_pub b = pub \<and> block_prev b = prev}"
proof -
  let ?bs = "blocks_at (view s) pub prev"
  show st: "set (sort_siblings cr ?bs) = {b. serves cr (view s) b \<and> block_pub b = pub \<and> block_prev b = prev}"
    by (simp add: sort_siblings_def blocks_at_set [OF assms])
  have d: "distinct (map (\<lambda>b. digest_bytes (block_digest cr b)) (sort_siblings cr ?bs))"
    using blocks_at_distinct [OF assms, of prev] by (simp add: sort_siblings_def distinct_map inj_on_def)
  moreover have "sorted (map (\<lambda>b. digest_bytes (block_digest cr b)) (sort_siblings cr ?bs))" by (simp add: sort_siblings_def)
  ultimately have "sorted_wrt (<) (map (\<lambda>b. digest_bytes (block_digest cr b)) (sort_siblings cr ?bs))"
    by (simp add: strict_sorted_iff)
  then have "sorted_wrt (<) (map (block_digest cr) (sort_siblings cr ?bs))"
    by (simp add: sorted_wrt_map digest_less_iff)
  then show "check_siblings cr (sort_siblings cr ?bs) pub prev = Inr ()"
    using st by (simp add: check_siblings_iff)
qed

lemma branch_lowest:
  assumes "ok s" and "length pub = 32" and "blocks_at (view s) pub prev \<noteq> []"
  shows "serves cr (view s) (branch cr (blocks_at (view s) pub prev))" "block_pub (branch cr (blocks_at (view s) pub prev)) = pub"
    "block_prev (branch cr (blocks_at (view s) pub prev)) = prev"
    "serves cr (view s) c \<Longrightarrow> block_pub c = pub \<Longrightarrow> block_prev c = prev \<Longrightarrow>
      block_digest cr (branch cr (blocks_at (view s) pub prev)) \<le> block_digest cr c"
proof -
  let ?ss = "sort_siblings cr (blocks_at (view s) pub prev)"
  have n: "?ss \<noteq> []" using assms(3) by (simp add: sort_siblings_def flip: set_empty)
  then have "?ss ! 0 \<in> set ?ss" by simp
  then show "serves cr (view s) (branch cr (blocks_at (view s) pub prev))" "block_pub (branch cr (blocks_at (view s) pub prev)) = pub"
    "block_prev (branch cr (blocks_at (view s) pub prev)) = prev"
    using siblings_exact(2) [OF assms(1,2), of prev] by (auto simp: branch_def)
  assume "serves cr (view s) c" "block_pub c = pub" "block_prev c = prev"
  then have "c \<in> set ?ss" using siblings_exact(2) [OF assms(1,2), of prev] by blast
  moreover have "sorted_wrt (<) (map (block_digest cr) ?ss)"
    using siblings_exact(1) [OF assms(1,2), of prev] by (simp add: check_siblings_iff)
  ultimately show "block_digest cr (branch cr (blocks_at (view s) pub prev)) \<le> block_digest cr c"
    using n by (cases ?ss) (auto simp: branch_def)
qed

end

section \<open>Walks\<close>

lemma walk_length: "length (walk_from cr st pub n p) \<le> n"
  by (induction n arbitrary: p) (auto simp: Let_def)

lemma take_walk: "take m (walk_from cr st pub (m + k) p) = walk_from cr st pub m p"
  by (induction m arbitrary: p) (simp_all add: Let_def)

lemma walk_stops:
  assumes "length (walk_from cr st pub n p) < n"
  shows "walk_from cr st pub (n + k) p = walk_from cr st pub n p"
  using assms
proof (induction n arbitrary: p)
  case (Suc n)
  show ?case
  proof (cases "blocks_at st pub p = []")
    case False
    let ?d = "Some (block_digest cr (branch cr (blocks_at st pub p)))"
    have "length (walk_from cr st pub n ?d) < n" using Suc.prems False by (simp add: Let_def)
    from Suc.IH [OF this] show ?thesis by (simp add: Let_def)
  qed simp
qed simp

lemma walk_continues:
  "i < length (walk_from cr st pub n p) \<Longrightarrow>
    walk_from cr st pub m (Some (block_digest cr (walk_from cr st pub n p ! i))) =
    drop (Suc i) (walk_from cr st pub (Suc i + m) p)"
proof (induction i arbitrary: n p)
  case 0
  then show ?case by (cases n) (auto simp: Let_def split: if_splits)
next
  case (Suc i)
  then obtain n' where n: "n = Suc n'" by (cases n) auto
  let ?b = "branch cr (blocks_at st pub p)"
  have ne: "blocks_at st pub p \<noteq> []" using Suc.prems by (auto simp: n Let_def split: if_splits)
  then have "i < length (walk_from cr st pub n' (Some (block_digest cr ?b)))" using Suc.prems by (simp add: n Let_def)
  from Suc.IH [OF this] ne show ?case by (simp add: n Let_def)
qed

lemma walk_last:
  assumes "length (walk_from cr st pub n p) < n"
  shows "blocks_at st pub (if walk_from cr st pub n p = [] then p
    else Some (block_digest cr (last (walk_from cr st pub n p)))) = []"
  using assms
proof (induction n arbitrary: p)
  case (Suc n)
  show ?case
  proof (cases "blocks_at st pub p = []")
    case False
    let ?d = "Some (block_digest cr (branch cr (blocks_at st pub p)))"
    have "length (walk_from cr st pub n ?d) < n" using Suc.prems False by (simp add: Let_def)
    from Suc.IH [OF this] False show ?thesis by (cases "walk_from cr st pub n ?d = []") (simp_all add: Let_def)
  qed simp
qed simp

lemma tip_loop:
  assumes "length (walk_from cr st pub n p) < n"
  shows "map_option fst (while_option (\<lambda>(tip, p). blocks_at st pub p \<noteq> []) (tip_step cr st pub) (tip, p)) =
    Some (if walk_from cr st pub n p = [] then tip else Some (last (walk_from cr st pub n p)))"
  using assms
proof (induction n arbitrary: tip p)
  case (Suc n)
  show ?case
  proof (cases "blocks_at st pub p = []")
    case True
    then show ?thesis by (simp add: while_option_unfold)
  next
    case False
    let ?b = "branch cr (blocks_at st pub p)" and ?P = "\<lambda>(tip :: block option, p). blocks_at st pub p \<noteq> []"
    let ?d = "Some (block_digest cr ?b)"
    have l: "length (walk_from cr st pub n ?d) < n" using Suc.prems False by (simp add: Let_def)
    have "while_option ?P (tip_step cr st pub) (tip, p) = while_option ?P (tip_step cr st pub) (Some ?b, ?d)"
      using False by (subst while_option_unfold) (simp add: tip_step_def Let_def)
    then have "map_option fst (while_option ?P (tip_step cr st pub) (tip, p)) =
        Some (if walk_from cr st pub n ?d = [] then Some ?b else Some (last (walk_from cr st pub n ?d)))"
      using Suc.IH [OF l, of "Some ?b"] by (simp only:)
    moreover have "walk_from cr st pub (Suc n) p = ?b # walk_from cr st pub n ?d" using False by (simp add: Let_def)
    ultimately show ?thesis by (simp only: last.simps list.distinct if_False if_distrib [of Some] not_False_eq_True)
  qed
qed simp

text \<open>Blocks read under their own digests along a run from the genesis position never repeat.\<close>

lemma run_index:
  assumes "run_after cr None bs" and "\<And>b. b \<in> set bs \<Longrightarrow> serves cr st b" and "j < length bs"
    and "block_digest cr (bs ! i) = block_digest cr (bs ! j)" and "i \<le> j"
  shows "i = j"
  using assms(3-5)
proof (induction j arbitrary: i)
  case (Suc j)
  note r = assms(1) [unfolded run_after_nth]
  have "i < length bs" using Suc.prems(1,3) by simp
  then have "bs ! i = bs ! Suc j"
    using assms(2) [of "bs ! i"] assms(2) [of "bs ! Suc j"] Suc.prems(1,2) by (simp add: serves_def)
  then have e: "block_prev (bs ! i) = Some (block_digest cr (bs ! j))" using r Suc.prems(1) by auto
  show ?case
  proof (cases i)
    case 0
    then show ?thesis using e r Suc.prems(1) by (cases bs) force+
  next
    case (Suc i')
    then have "block_digest cr (bs ! i') = block_digest cr (bs ! j)" using e r \<open>i < length bs\<close> by auto
    with Suc.IH [of i'] Suc.prems Suc show ?thesis by simp
  qed
qed simp

lemma run_distinct:
  assumes "run_after cr None bs" and "\<And>b. b \<in> set bs \<Longrightarrow> serves cr st b"
  shows "distinct (map (block_digest cr) bs)"
  unfolding distinct_conv_nth length_map
proof (intro allI impI)
  fix i j assume l: "i < length bs" "j < length bs" "i \<noteq> j"
  then have "block_digest cr (bs ! i) \<noteq> block_digest cr (bs ! j)"
    using run_index [OF assms, of j i] run_index [OF assms, of i j] by (metis nat_le_linear)
  with l show "map (block_digest cr) bs ! i \<noteq> map (block_digest cr) bs ! j" by simp
qed

text \<open>The whole chain a store can serve of an author.\<close>

definition served_chain :: "crypto \<Rightarrow> chain_store \<Rightarrow> byte list \<Rightarrow> block list" where
  "served_chain cr st pub = walk_from cr st pub (Suc (card (UNIV :: digest set))) None"

context served begin

lemma walk_run:
  assumes "ok s" and "length pub = 32"
  shows "run_after cr p (walk_from cr (view s) pub n p)"
    and "b \<in> set (walk_from cr (view s) pub n p) \<Longrightarrow> serves cr (view s) b \<and> block_pub b = pub"
  by (induction n arbitrary: p b) (auto simp: Let_def branch_lowest [OF assms] split: if_splits)

lemma walk_lowest:
  assumes "ok s" and "length pub = 32" and "b \<in> set (walk_from cr (view s) pub n p)"
    and "serves cr (view s) c" and "block_pub c = pub" and "block_prev c = block_prev b"
  shows "block_digest cr b \<le> block_digest cr c"
  using assms(3,6)
proof (induction n arbitrary: p)
  case (Suc n)
  show ?case
  proof (cases "b = branch cr (blocks_at (view s) pub p)")
    case True
    with Suc.prems branch_lowest [OF assms(1,2), of p] assms(4,5) show ?thesis by (auto simp: Let_def split: if_splits)
  next
    case False
    with Suc.prems Suc.IH show ?thesis by (auto simp: Let_def split: if_splits)
  qed
qed simp

lemma chain_bounded:
  assumes "ok s" and "length pub = 32"
  shows "length (walk_from cr (view s) pub n None) \<le> card (UNIV :: digest set)"
proof -
  let ?w = "walk_from cr (view s) pub n None"
  have "distinct (map (block_digest cr) ?w)"
    by (rule run_distinct [OF walk_run(1) [OF assms]]) (use walk_run(2) [OF assms] in blast)
  then have "length ?w = card (set (map (block_digest cr) ?w))" using distinct_card by fastforce
  also have "\<dots> \<le> card (UNIV :: digest set)" by (rule card_mono) simp_all
  finally show ?thesis .
qed

lemma walk_chain:
  assumes "ok s" and "length pub = 32"
  shows "walk_from cr (view s) pub n None = take n (served_chain cr (view s) pub)"
proof -
  let ?N = "Suc (card (UNIV :: digest set))"
  have l: "length (served_chain cr (view s) pub) < ?N" using chain_bounded [OF assms, of ?N] by (simp add: served_chain_def)
  have "walk_from cr (view s) pub n None = take n (walk_from cr (view s) pub (n + ?N) None)" by (rule take_walk [symmetric])
  also have "walk_from cr (view s) pub (n + ?N) None = served_chain cr (view s) pub"
    using walk_stops [of cr "view s" pub ?N None n] l by (simp only: served_chain_def add.commute)
  finally show ?thesis .
qed

lemma walk_after:
  assumes "ok s" and "length pub = 32" and "i < length (served_chain cr (view s) pub)"
  shows "walk_from cr (view s) pub n (Some (block_digest cr (served_chain cr (view s) pub ! i))) =
    take n (drop (Suc i) (served_chain cr (view s) pub))"
  using walk_continues [OF assms(3) [unfolded served_chain_def], of n]
  by (simp only: served_chain_def [symmetric] walk_chain [OF assms(1,2)] drop_take) simp

lemma chain_ends:
  assumes "ok s" and "length pub = 32"
  shows "blocks_at (view s) pub (if served_chain cr (view s) pub = [] then None
    else Some (block_digest cr (last (served_chain cr (view s) pub)))) = []"
  unfolding served_chain_def by (rule walk_last) (simp only: less_Suc_eq_le chain_bounded [OF assms])

lemma tip_chain:
  assumes "ok s" and "length pub = 32"
  shows "tip_of cr (view s) pub =
    Some (if served_chain cr (view s) pub = [] then None else Some (last (served_chain cr (view s) pub)))"
  unfolding served_chain_def tip_of_def by (rule tip_loop) (simp only: less_Suc_eq_le chain_bounded [OF assms])

end

section \<open>The two stores of the library\<close>

lemma cs_mem [simp]: "cs_block (mem_chains m) = get_block m" "cs_claiming (mem_chains m) = blocks_with_prev m"
  by (simp_all add: mem_chains_def)

lemma get_block_held: "get_block m d = Inr b \<longleftrightarrow> held m d = Some b"
  by (simp add: get_block_def held_def split: option.splits)

interpretation mem_served: served cr "store_ok cr" mem_chains for cr
proof
  fix m d b assume ok: "store_ok cr m"
  show "cs_block (mem_chains m) d = Inr b \<Longrightarrow> block_digest cr b = d"
    using store_okD(1) [OF ok] by (simp add: get_block_held)
  fix pub :: "byte list" and prev assume l: "length pub = 32"
  have "block_key b = position_key pub prev \<longleftrightarrow> block_pub b = pub \<and> block_prev b = prev" if "held m d = Some b" for d b
    using position_key_inject [OF sound_pub_length [OF store_okD(2) [OF ok that]] l] by (simp add: block_key_def)
  then show "set (cs_claiming (mem_chains m) pub prev) =
      {d. \<exists>b. cs_block (mem_chains m) d = Inr b \<and> block_pub b = pub \<and> block_prev b = prev}"
    using store_okD(4) [OF ok, of "position_key pub prev"] by (auto simp: blocks_with_prev_def get_block_held)
  show "distinct (cs_claiming (mem_chains m) pub prev)" using store_okD(3) [OF ok] by (simp add: blocks_with_prev_def)
qed

interpretation vs_served: served cr "vs_ok cr B" vs_chains for cr B
  using mem_served.block_named mem_served.claiming_exact mem_served.claiming_distinct vs_okD(1)
  unfolding vs_chains_def by unfold_locales blast+

lemma serves_vs: "serves cr (vs_chains s) b \<longleftrightarrow> vs_held s (block_digest cr b) = Some b"
  by (simp add: serves_def vs_chains_def get_block_held)

lemma vs_tip_range:
  assumes "vs_ok cr B s" and "length pub = 32"
  defines "ws \<equiv> served_chain cr (vs_chains s) pub"
  shows "tip_of cr (vs_chains s) pub = Some (if ws = [] then None else Some (last ws))"
    and "0 \<le> limit \<Longrightarrow> serve_walk cr (vs_chains s) pub None limit = Some (take (nat limit) ws)"
    and "0 \<le> limit \<Longrightarrow> i < length ws \<Longrightarrow>
      serve_walk cr (vs_chains s) pub (Some (block_digest cr (ws ! i))) limit = Some (take (nat limit) (drop (Suc i) ws))"
    and "run_after cr None ws" and "b \<in> set ws \<Longrightarrow> block_pub b = pub \<and> vs_held s (block_digest cr b) = Some b"
    and "vs_held s d = Some c \<Longrightarrow> block_pub c = pub \<Longrightarrow>
      block_prev c \<noteq> (if ws = [] then None else Some (block_digest cr (last ws)))"
proof -
  note a = assms(1,2)
  show "tip_of cr (vs_chains s) pub = Some (if ws = [] then None else Some (last ws))"
    unfolding ws_def by (rule vs_served.tip_chain [OF a])
  show "0 \<le> limit \<Longrightarrow> serve_walk cr (vs_chains s) pub None limit = Some (take (nat limit) ws)"
    by (simp add: serve_walk_def ws_def vs_served.walk_chain [OF a])
  show "0 \<le> limit \<Longrightarrow> i < length ws \<Longrightarrow>
      serve_walk cr (vs_chains s) pub (Some (block_digest cr (ws ! i))) limit = Some (take (nat limit) (drop (Suc i) ws))"
    by (simp add: serve_walk_def ws_def vs_served.walk_after [OF a])
  show "run_after cr None ws" unfolding ws_def served_chain_def by (rule vs_served.walk_run(1) [OF a])
  show "b \<in> set ws \<Longrightarrow> block_pub b = pub \<and> vs_held s (block_digest cr b) = Some b"
    using vs_served.walk_run(2) [OF a] by (simp only: ws_def served_chain_def serves_vs)
  assume c: "vs_held s d = Some c" "block_pub c = pub"
  have "block_digest cr c = d" using get_block_member [OF a(1)] c(1) by (simp add: get_block_held)
  then have "block_prev c = p \<Longrightarrow> c \<in> set (blocks_at (vs_chains s) pub p)" for p
    using c vs_served.blocks_at_set [OF a, of p] by (simp add: serves_vs)
  then show "block_prev c \<noteq> (if ws = [] then None else Some (block_digest cr (last ws)))"
    using vs_served.chain_ends [OF a] unfolding ws_def by force
qed

section \<open>Serving\<close>



text \<open>
  The sibling set a server answers passes the client's check of it and holds every block of the
  author at the position, and no other.
\<close>

theorem siblings_served:
  assumes "vs_reach cr B opts s" and "offered cr B" and "length pub = 32"
  shows "check_siblings cr (sort_siblings cr (blocks_at (vs_chains s) pub prev)) pub prev = Inr () \<and>
    set (sort_siblings cr (blocks_at (vs_chains s) pub prev)) =
      {b. vs_held s (block_digest cr b) = Some b \<and> block_pub b = pub \<and> block_prev b = prev}"
  using vs_served.siblings_exact [OF conjunct1 [OF reach_ok [OF assms(1,2)]] assms(3), of prev]
  by (simp add: serves_vs)

theorem siblings_served_witness:
  "\<exists>cr s b. vs_held s 5 = Some b \<and> b \<in> set (sort_siblings cr (blocks_at (vs_chains s) (block_pub b) None)) \<and>
    check_siblings cr (sort_siblings cr (blocks_at (vs_chains s) (block_pub b) None)) (block_pub b) None = Inr ()"
proof -
  obtain cr b w t where t: "two_refs cr b w" "vs_reach cr {b, w} None t" "vs_held t 5 = Some b"
    by (rule two_adds) (rule that)
  have b: "sound_block cr b" "block_prev b = None" "block_digest cr b = 5" using t(1) by (simp_all add: two_refs_def)
  show ?thesis
    using siblings_served [OF t(2) two_refs_offered(1) [OF t(1)] sound_pub_length [OF b(1)], of None] t(3) b(2,3)
    by (intro exI [of _ cr] exI [of _ t] exI [of _ b]) simp
qed

end
