(* ===== verification/Announce.thy ===== *)
theory Announce
  imports Serving Http
begin

text \<open>
  Announcing blocks to a source, \<open>go/transport/announce.go\<close>: the receipt, and the announcer over a
  validating store, which offers every block and then reads the verdicts back. The text of a
  receipt's JSON object is not modelled, its shape is. A context is what each check of it returns, in order.
\<close>

section \<open>Receipts\<close>

datatype rejection_reason = Refused_by block_error | Not_retained

record receipt =
  rc_accepted :: "digest list"
  rc_held :: "digest list"
  rc_rejected :: "(digest \<times> rejection_reason) list"
  rc_deferred :: bool

definition empty_receipt :: receipt where
  "empty_receipt = \<lparr>rc_accepted = [], rc_held = [], rc_rejected = [], rc_deferred = False\<rparr>"

definition receipt_len :: "receipt \<Rightarrow> nat" where
  "receipt_len r = length (rc_accepted r) + length (rc_held r) + length (rc_rejected r)"

section \<open>Announcing\<close>

type_synonym checks = "nat \<Rightarrow> string option"

datatype announce_error =
    Cancelled string
  | Announce_refused
  | Announce_unable string

type_synonym 's announcer = "checks \<Rightarrow> block list \<Rightarrow> 's \<Rightarrow> ('s \<times> (announce_error + receipt)) option"

fun offer_all :: "crypto \<Rightarrow> checks \<Rightarrow> nat \<Rightarrow> block list \<Rightarrow> vstore \<Rightarrow> (digest \<Rightarrow> block_error option) \<Rightarrow>
    (vstore \<times> (announce_error + (digest \<Rightarrow> block_error option))) option" where
  "offer_all cr ctx i [] s rejected = Some (s, Inr rejected)"
| "offer_all cr ctx i (b # bs) s rejected =
    (case ctx i of
       Some e \<Rightarrow> Some (s, Inl (Cancelled e))
     | None \<Rightarrow>
        (case vs_add cr b s of
           None \<Rightarrow> None
         | Some (Inl e) \<Rightarrow> offer_all cr ctx (Suc i) bs s (rejected(block_digest cr b \<mapsto> e))
         | Some (Inr (s', adm)) \<Rightarrow> offer_all cr ctx (Suc i) bs s' rejected))"

definition receipt_block :: "crypto \<Rightarrow> vstore \<Rightarrow> (digest \<Rightarrow> block_error option) \<Rightarrow> receipt \<Rightarrow> block \<Rightarrow> receipt" where
  "receipt_block cr s rejected r b =
    (let d = block_digest cr b in
     case rejected d of
       Some e \<Rightarrow> r\<lparr>rc_rejected := rc_rejected r @ [(d, Refused_by e)]\<rparr>
     | None \<Rightarrow>
        (case fst (vs_verdict s d) of
           Verdict_valid \<Rightarrow> r\<lparr>rc_accepted := rc_accepted r @ [d]\<rparr>
         | Verdict_unvalidated \<Rightarrow> r\<lparr>rc_held := rc_held r @ [d]\<rparr>
         | Verdict_unknown \<Rightarrow> r\<lparr>rc_rejected := rc_rejected r @ [(d, Not_retained)]\<rparr>))"

definition store_announcer :: "crypto \<Rightarrow> vstore announcer" where
  "store_announcer cr ctx bs s =
    (case offer_all cr ctx 0 bs s (\<lambda>_. None) of
       None \<Rightarrow> None
     | Some (s', Inl e) \<Rightarrow> Some (s', Inl e)
     | Some (s', Inr rejected) \<Rightarrow> Some (s', Inr (foldl (receipt_block cr s' rejected) empty_receipt bs)))"

section \<open>What a receipt says\<close>

text \<open>A block the store refused at some moment between the two states.\<close>

definition refused_between :: "crypto \<Rightarrow> vstore \<Rightarrow> vstore \<Rightarrow> block \<Rightarrow> block_error \<Rightarrow> bool" where
  "refused_between cr s t b e \<longleftrightarrow>
    (\<exists>u. vs_grows s u \<and> vs_grows u t \<and> validate cr b (vs_source u) (vs_opts u) = Some (Inl e) \<and> \<not> is_unvalidated e)"

lemma refused_between_mono:
  "refused_between cr s t b e \<Longrightarrow> vs_grows r s \<Longrightarrow> refused_between cr r t b e"
  unfolding refused_between_def using vs_grows_trans by blast

lemma offer_all_ok:
  assumes "offered cr B"
  shows "offer_all cr ctx i bs s rej = Some (t, r) \<Longrightarrow> vs_reach cr B opts s \<Longrightarrow> set bs \<subseteq> B \<Longrightarrow>
    vs_reach cr B opts t \<and> vs_grows s t \<and> (\<forall>rej'. r = Inr rej' \<longrightarrow>
      (\<forall>d. rej d \<noteq> None \<longrightarrow> rej' d \<noteq> None) \<and>
      (\<forall>b \<in> set bs. rej' (block_digest cr b) = None \<longrightarrow> vs_held t (block_digest cr b) = Some b) \<and>
      (\<forall>d e. rej' d = Some e \<longrightarrow> rej d = Some e \<or> (\<exists>b \<in> set bs. block_digest cr b = d \<and> refused_between cr s t b e)))"
proof (induction bs arbitrary: i s rej)
  case Nil
  then show ?case by auto
next
  case (Cons b bs)
  show ?case
  proof (cases "ctx i")
    case (Some e)
    then have "t = s" "r = Inl (Cancelled e)" using Cons.prems(1) by simp_all
    then show ?thesis using Cons.prems(2) by simp
  next
    case None
    have ok: "vs_ok cr B s" "vs_opts s = opts" using reach_ok [OF Cons.prems(2) assms] by blast+
    have B: "b \<in> B" "set bs \<subseteq> B" using Cons.prems(3) by simp_all
    let ?d = "block_digest cr b"
    from Cons.prems(1) None obtain res where res: "vs_add cr b s = Some res" by (auto split: option.splits)
    show ?thesis
    proof (cases res)
      case (Inl e)
      then have st: "offer_all cr ctx (Suc i) bs s (rej(?d \<mapsto> e)) = Some (t, r)" using Cons.prems(1) None res by simp
      note IH = Cons.IH [OF st Cons.prems(2) B(2)]
      have g: "vs_grows s t" using IH by blast
      have "validate cr b (vs_source s) (vs_opts s) = Some (Inl e) \<and> \<not> is_unvalidated e"
        using res Inl admit_Inl [of cr b s e] by (simp add: vs_add_Inl)
      then have "refused_between cr s t b e" unfolding refused_between_def using g by (intro exI [of _ s]) simp
      then show ?thesis using IH by (auto split: if_splits) (metis fun_upd_apply option.distinct(1))+
    next
      case (Inr y)
      obtain s' adm where y: "y = (s', adm)" by (cases y)
      then have a: "vs_add cr b s = Some (Inr (s', adm))" using res Inr by simp
      have st: "offer_all cr ctx (Suc i) bs s' rej = Some (t, r)" using Cons.prems(1) None a by simp
      have "vs_reach cr B opts s'" by (rule vs_reach.offer [OF Cons.prems(2) B(1) a])
      note IH = Cons.IH [OF st this B(2)]
      have g: "vs_grows s s'" "vs_held s' ?d = Some b" using vs_add_ok [OF ok(1) assms B(1) a] by blast+
      have "vs_grows s' t" using IH by blast
      then have h: "vs_held t ?d = Some b" "vs_grows s t" using g vs_grows_held vs_grows_trans by blast+
      have m: "refused_between cr s t x e" if "refused_between cr s' t x e" for x e
        by (rule refused_between_mono [OF that g(1)])
      show ?thesis
      proof (intro conjI allI impI ballI)
        show "vs_reach cr B opts t" "vs_grows s t" using IH h by blast+
        fix rej' assume r: "r = Inr rej'"
        show "rej' d \<noteq> None" if "rej d \<noteq> None" for d using IH r that by blast
        show "vs_held t (block_digest cr x) = Some x" if "x \<in> set (b # bs)" "rej' (block_digest cr x) = None" for x
          using IH r h(1) that by (cases "x = b") simp_all
        show "rej d = Some e \<or> (\<exists>x \<in> set (b # bs). block_digest cr x = d \<and> refused_between cr s t x e)"
          if "rej' d = Some e" for d e
        proof -
          have "rej d = Some e \<or> (\<exists>x \<in> set bs. block_digest cr x = d \<and> refused_between cr s' t x e)" using IH r that by blast
          then show ?thesis using m by (auto simp del: split_paired_Ex)
        qed
      qed
    qed
  qed
qed


lemma offer_all_returns:
  assumes "offered cr B" and "wf (offered_links cr B)" and "0 \<le> scan_limit opts"
  shows "vs_reach cr B opts s \<Longrightarrow> set bs \<subseteq> B \<Longrightarrow> \<exists>t r. offer_all cr ctx i bs s rej = Some (t, r) \<and>
    ((\<forall>j. ctx j = None) \<longrightarrow> (\<exists>rej'. r = Inr rej'))"
proof (induction bs arbitrary: i s rej)
  case (Cons b bs)
  have B: "b \<in> B" "set bs \<subseteq> B" using Cons.prems(2) by simp_all
  consider e where "vs_add cr b s = Some (Inl e)" | s' adm where "vs_add cr b s = Some (Inr (s', adm))"
    using add_returns [OF Cons.prems(1) assms(1) B(1) assms(2,3)] by blast
  then show ?case
  proof cases
    case 1
    from Cons.IH [OF Cons.prems(1) B(2), of "Suc i" "rej(block_digest cr b \<mapsto> e)"] 1 show ?thesis
      by (cases "ctx i") (auto simp del: fun_upd_apply)
  next
    case 2
    from Cons.IH [OF vs_reach.offer [OF Cons.prems(1) B(1) 2] B(2), of "Suc i" rej] 2 show ?thesis
      by (cases "ctx i") auto
  qed
qed simp

text \<open>The dispositions of a receipt, as filters of the digests submitted.\<close>

lemma receipt_fold:
  "rc_accepted (foldl (receipt_block cr s rej) r bs) =
     rc_accepted r @ filter (\<lambda>d. rej d = None \<and> fst (vs_verdict s d) = Verdict_valid) (map (block_digest cr) bs)"
  "rc_held (foldl (receipt_block cr s rej) r bs) =
     rc_held r @ filter (\<lambda>d. rej d = None \<and> fst (vs_verdict s d) = Verdict_unvalidated) (map (block_digest cr) bs)"
  "rc_rejected (foldl (receipt_block cr s rej) r bs) =
     rc_rejected r @ map (\<lambda>d. (d, case rej d of Some e \<Rightarrow> Refused_by e | None \<Rightarrow> Not_retained))
       (filter (\<lambda>d. rej d \<noteq> None \<or> fst (vs_verdict s d) = Verdict_unknown) (map (block_digest cr) bs))"
  "rc_deferred (foldl (receipt_block cr s rej) r bs) = rc_deferred r"
  "receipt_len (foldl (receipt_block cr s rej) r bs) = receipt_len r + length bs"
  by (induction bs arbitrary: r)
    (auto simp: receipt_block_def receipt_len_def Let_def split: option.splits verdict.splits)

lemma reach_unknown:
  assumes "vs_reach cr B opts t" and "offered cr B"
  shows "fst (vs_verdict t d) = Verdict_unknown \<longleftrightarrow> vs_held t d = None"
proof -
  have ok: "vs_ok cr B t" using reach_ok [OF assms] by blast
  show ?thesis using vs_okD(3) [OF ok, of d] vs_okD(4) [OF ok, of d]
    by (cases "vs_verdicts t d") (auto simp: vs_verdict_def entry_ok_def)
qed

lemma announce_receipt:
  assumes "vs_reach cr B opts s" and "offered cr B" and "set bs \<subseteq> B" and "store_announcer cr ctx bs s = Some (t, Inr rc)"
  shows "vs_reach cr B opts t \<and> vs_grows s t \<and> receipt_len rc = length bs \<and>
    rc_accepted rc = filter (\<lambda>d. d \<notin> fst ` set (rc_rejected rc) \<and> vs_accepted t d) (map (block_digest cr) bs) \<and>
    rc_held rc = filter (\<lambda>d. d \<notin> fst ` set (rc_rejected rc) \<and> fst (vs_verdict t d) = Verdict_unvalidated) (map (block_digest cr) bs) \<and>
    map fst (rc_rejected rc) = filter (\<lambda>d. d \<in> fst ` set (rc_rejected rc)) (map (block_digest cr) bs) \<and>
    (\<forall>(d, why) \<in> set (rc_rejected rc). \<exists>b \<in> set bs. \<exists>e. block_digest cr b = d \<and> why = Refused_by e \<and> refused_between cr s t b e)"
proof -
  obtain rej where o: "offer_all cr ctx 0 bs s (\<lambda>_. None) = Some (t, Inr rej)"
    and rc: "rc = foldl (receipt_block cr t rej) empty_receipt bs"
    using assms(4) by (auto simp: store_announcer_def split: option.splits sum.splits)
  have r: "vs_reach cr B opts t" "vs_grows s t"
    "\<forall>b \<in> set bs. rej (block_digest cr b) = None \<longrightarrow> vs_held t (block_digest cr b) = Some b"
    "\<And>d e. rej d = Some e \<Longrightarrow> \<exists>b \<in> set bs. block_digest cr b = d \<and> refused_between cr s t b e"
    using offer_all_ok [OF assms(2) o assms(1,3)] by auto
  let ?ds = "map (block_digest cr) bs"
  have known: "fst (vs_verdict t d) \<noteq> Verdict_unknown" if "d \<in> set ?ds" and "rej d = None" for d
    using reach_unknown [OF r(1) assms(2), of d] r(3) that by auto
  have rf: "filter (\<lambda>d. rej d \<noteq> None \<or> fst (vs_verdict t d) = Verdict_unknown) ?ds = filter (\<lambda>d. rej d \<noteq> None) ?ds"
    using known by (intro filter_cong) auto
  have rj: "rc_rejected rc = map (\<lambda>d. (d, case rej d of Some e \<Rightarrow> Refused_by e | None \<Rightarrow> Not_retained)) (filter (\<lambda>d. rej d \<noteq> None) ?ds)"
    by (simp only: rc receipt_fold rf) (simp add: empty_receipt_def)
  have mem: "d \<in> fst ` set (rc_rejected rc) \<longleftrightarrow> rej d \<noteq> None" if "d \<in> set ?ds" for d
    using that unfolding rj by (auto simp: image_image)
  have "rc_accepted rc = filter (\<lambda>d. rej d = None \<and> fst (vs_verdict t d) = Verdict_valid) ?ds"
    by (simp add: rc receipt_fold empty_receipt_def)
  also have "\<dots> = filter (\<lambda>d. d \<notin> fst ` set (rc_rejected rc) \<and> vs_accepted t d) ?ds"
    using mem by (intro filter_cong) (auto simp: vs_accepted_def)
  finally have a: "rc_accepted rc = filter (\<lambda>d. d \<notin> fst ` set (rc_rejected rc) \<and> vs_accepted t d) ?ds" .
  have "rc_held rc = filter (\<lambda>d. rej d = None \<and> fst (vs_verdict t d) = Verdict_unvalidated) ?ds"
    by (simp add: rc receipt_fold empty_receipt_def)
  also have "\<dots> = filter (\<lambda>d. d \<notin> fst ` set (rc_rejected rc) \<and> fst (vs_verdict t d) = Verdict_unvalidated) ?ds"
    using mem by (intro filter_cong) auto
  finally have h: "rc_held rc = filter (\<lambda>d. d \<notin> fst ` set (rc_rejected rc) \<and> fst (vs_verdict t d) = Verdict_unvalidated) ?ds" .
  have "map fst (rc_rejected rc) = filter (\<lambda>d. rej d \<noteq> None) ?ds" unfolding rj by (simp add: comp_def)
  also have "\<dots> = filter (\<lambda>d. d \<in> fst ` set (rc_rejected rc)) ?ds" using mem by (intro filter_cong) auto
  finally have j: "map fst (rc_rejected rc) = filter (\<lambda>d. d \<in> fst ` set (rc_rejected rc)) ?ds" .
  have "\<exists>b \<in> set bs. \<exists>e. block_digest cr b = d \<and> why = Refused_by e \<and> refused_between cr s t b e"
    if "(d, why) \<in> set (rc_rejected rc)" for d why
    using that r(4) unfolding rj by auto
  moreover have "receipt_len rc = length bs" by (simp add: rc receipt_fold empty_receipt_def) (simp add: receipt_len_def)
  ultimately show ?thesis using r(1,2) a h j by blast
qed

section \<open>Properties of announcing\<close>

text \<open>
  C25. A receipt accounts for every submitted block, in exactly one of its three members and in the order
  submitted, by the store as the whole announce left it: accepted as valid, held as undecided, or
  rejected, and rejected only if validation rejected it for good at some moment of the announce.
  The store drops nothing it held.
\<close>

theorem announce_disposes:
  assumes "vs_reach cr B opts s" and "offered cr B" and "set bs \<subseteq> B" and "store_announcer cr ctx bs s = Some (t, Inr rc)"
  shows "vs_reach cr B opts t \<and> vs_grows s t \<and> receipt_len rc = length bs \<and>
    rc_accepted rc = filter (\<lambda>d. d \<notin> fst ` set (rc_rejected rc) \<and> vs_accepted t d) (map (block_digest cr) bs) \<and>
    rc_held rc = filter (\<lambda>d. d \<notin> fst ` set (rc_rejected rc) \<and> fst (vs_verdict t d) = Verdict_unvalidated) (map (block_digest cr) bs) \<and>
    map fst (rc_rejected rc) = filter (\<lambda>d. d \<in> fst ` set (rc_rejected rc)) (map (block_digest cr) bs) \<and>
    (\<forall>(d, why) \<in> set (rc_rejected rc). \<exists>b \<in> set bs. \<exists>e. block_digest cr b = d \<and> why = Refused_by e \<and> refused_between cr s t b e)"
  by (rule announce_receipt [OF assms])

text \<open>
  An announce that is not cancelled ends with a receipt, when no chain of the blocks is endless.
\<close>

lemma announce_ends:
  assumes "vs_reach cr B opts s" and "offered cr B" and "set bs \<subseteq> B" and "wf (offered_links cr B)" and "0 \<le> scan_limit opts"
    and "\<forall>i. ctx i = None"
  shows "\<exists>t rc. store_announcer cr ctx bs s = Some (t, Inr rc)"
  using offer_all_returns [OF assms(2,4,5,1,3), of ctx 0 "\<lambda>_. None"] assms(6) by (auto simp: store_announcer_def)

theorem announce_disposes_witness:
  "\<exists>cr b w t rc. two_refs cr b w \<and> store_announcer cr (\<lambda>_. None) [w] (new_vstore None) = Some (t, Inr rc) \<and>
    receipt_len rc = 1 \<and> vs_reach cr {b, w} None t"
proof -
  obtain cr b w where w: "two_refs cr b w" using two_refs_exist by blast
  note o = two_refs_offered [OF w]
  have B: "set [w] \<subseteq> {b, w}" by simp
  obtain t rc where r: "store_announcer cr (\<lambda>_. None) [w] (new_vstore None) = Some (t, Inr rc)"
    using announce_ends [OF vs_reach.empty o(1) B o(2,3), of "\<lambda>_. None"] by auto
  then show ?thesis using w announce_disposes [OF vs_reach.empty o(1) B r]
    by (intro exI [of _ cr] exI [of _ b] exI [of _ w] exI [of _ t] exI [of _ rc]) simp
qed

section \<open>The wire shape of a receipt\<close>

text \<open>The JSON object of a receipt, with the order in which its map gets its keys; its text is not modelled.\<close>

record receipt_json =
  rj_accepted :: "string list"
  rj_held :: "string list"
  rj_rejected :: "(string \<times> rejection_reason) list"

datatype receipt_error = Member_not_cid string string cid_error | Key_not_cid string cid_error

definition cid_strings :: "digest list \<Rightarrow> string list" where
  "cid_strings ds = map (\<lambda>d. cid_string (digest_cid d)) ds"

definition parse_cids :: "string list \<Rightarrow> string \<Rightarrow> receipt_error + digest list" where
  "parse_cids texts member =
    mapE (\<lambda>s. bindE (mapErr (Member_not_cid member s) (parse_cid_string s)) (\<lambda>c. Inr (cid_digest c))) texts"

definition receipt_to_json :: "receipt \<Rightarrow> receipt_json" where
  "receipt_to_json r = \<lparr>rj_accepted = cid_strings (rc_accepted r), rj_held = cid_strings (rc_held r),
    rj_rejected = foldl (\<lambda>m (d, why). AList.update (cid_string (digest_cid d)) why m) [] (rc_rejected r)\<rparr>"

definition receipt_of_json :: "bool \<Rightarrow> receipt_json \<Rightarrow> receipt_error + receipt" where
  "receipt_of_json deferred w =
    bindE (parse_cids (rj_accepted w) ''accepted'') (\<lambda>accepted.
    bindE (parse_cids (rj_held w) ''held'') (\<lambda>held'.
    bindE (mapE (\<lambda>key. bindE (mapErr (Key_not_cid key) (parse_cid_string key)) (\<lambda>c.
        Inr (cid_digest c, the (map_of (rj_rejected w) key)))) (sort (map fst (rj_rejected w)))) (\<lambda>rejected.
    Inr \<lparr>rc_accepted = accepted, rc_held = held', rc_rejected = rejected, rc_deferred = deferred\<rparr>)))"

text \<open>
  A receipt crosses the wire unchanged but for what a map of reasons loses: the rejected digests come
  back once each, in the order of their texts, with the last reason given.
\<close>

lemma parse_cid_strings: "parse_cids (cid_strings ds) member = Inr ds"
  unfolding parse_cids_def cid_strings_def by (induction ds) (simp_all add: cid_text_self)

lemma update_texts:
  "foldl (\<lambda>m (d, why). AList.update (cid_string (digest_cid d)) why m) (map (\<lambda>(d, w). (cid_string (digest_cid d), w)) m) xs =
    map (\<lambda>(d, w). (cid_string (digest_cid d), w)) (foldl (\<lambda>m (d, why). AList.update d why m) m xs)"
proof (induction xs arbitrary: m)
  case (Cons x xs)
  have "AList.update (cid_string (digest_cid d)) why (map (\<lambda>(d, w). (cid_string (digest_cid d), w)) m) =
      map (\<lambda>(d, w). (cid_string (digest_cid d), w)) (AList.update d why m)" for d why
    by (induction m) (auto simp: cid_text_inject)
  then show ?case using Cons.IH by (cases x) simp
qed simp

lemma map_of_texts: "map_of (map (\<lambda>(d, w). (cid_string (digest_cid d), w)) m) (cid_string (digest_cid d)) = map_of m d"
  by (induction m) (auto simp: cid_text_inject)

definition last_reasons :: "(digest \<times> rejection_reason) list \<Rightarrow> (digest \<times> rejection_reason) list" where
  "last_reasons xs = foldl (\<lambda>m (d, why). AList.update d why m) [] xs"

lemma last_reasons: "distinct (map fst (last_reasons xs))" "map_of (last_reasons xs) = map_of (rev xs)"
proof -
  have "distinct (map fst m) \<Longrightarrow> distinct (map fst (foldl (\<lambda>m (d, why). AList.update d why m) m xs))" for m
    by (induction xs arbitrary: m) (auto simp: distinct_update)
  then show "distinct (map fst (last_reasons xs))" by (simp add: last_reasons_def)
  have "map_of (foldl (\<lambda>m (d, why). AList.update d why m) m xs) = map_of (rev xs @ m)" for m
    by (induction xs arbitrary: m) (auto simp: update_conv' fun_eq_iff map_add_def split: option.splits)
  from this [of "[]"] show "map_of (last_reasons xs) = map_of (rev xs)" by (simp add: last_reasons_def)
qed

lemma receipt_wire:
  "\<exists>rejected. receipt_of_json deferred (receipt_to_json r) =
      Inr \<lparr>rc_accepted = rc_accepted r, rc_held = rc_held r, rc_rejected = rejected, rc_deferred = deferred\<rparr> \<and>
    distinct (map fst rejected) \<and> set rejected = {(d, why). map_of (rev (rc_rejected r)) d = Some why}"
proof -
  let ?m = "last_reasons (rc_rejected r)" and ?text = "\<lambda>d. cid_string (digest_cid d)"
  let ?keys = "sort (map fst (rj_rejected (receipt_to_json r)))"
  have m: "rj_rejected (receipt_to_json r) = map (\<lambda>(d, w). (?text d, w)) ?m"
    using update_texts [of "[]" "rc_rejected r"] by (simp add: receipt_to_json_def last_reasons_def)
  have k: "set ?keys = ?text ` fst ` set ?m" by (force simp: m)
  let ?f = "\<lambda>key. let d = cid_digest (projr (parse_cid_string key)) in (d, the (map_of ?m d))"
  have f: "?f (?text d) = (d, the (map_of ?m d))" for d by (simp add: cid_text_self)
  have e: "mapE (\<lambda>key. bindE (mapErr (Key_not_cid key) (parse_cid_string key)) (\<lambda>c.
      Inr (cid_digest c, the (map_of (rj_rejected (receipt_to_json r)) key)))) ?keys = Inr (map ?f ?keys)"
  proof (rule mapE_Inr_map)
    fix key assume "key \<in> set ?keys"
    then obtain d where "key = ?text d" unfolding k by blast
    then show "bindE (mapErr (Key_not_cid key) (parse_cid_string key)) (\<lambda>c.
      Inr (cid_digest c, the (map_of (rj_rejected (receipt_to_json r)) key))) = Inr (?f key)"
      by (simp add: m map_of_texts cid_text_self)
  qed
  have "distinct ?keys"
  proof -
    have "distinct (map (\<lambda>x. ?text (fst x)) ?m)"
      using last_reasons(1) [of "rc_rejected r"] by (simp add: distinct_map inj_on_def cid_text_inject)
    then show ?thesis by (simp add: m comp_def case_prod_unfold)
  qed
  moreover have "inj_on (\<lambda>key. fst (?f key)) (set ?keys)"
    unfolding k by (auto simp: inj_on_def cid_text_self)
  ultimately have d: "distinct (map fst (map ?f ?keys))" by (simp add: distinct_map comp_def)
  have "set (map ?f ?keys) = (\<lambda>d. (d, the (map_of ?m d))) ` fst ` set ?m"
    unfolding set_map k image_image f ..
  also have "\<dots> = set ?m" using last_reasons(1) [of "rc_rejected r"] by (force simp: map_of_eq_Some_iff)
  also have "\<dots> = {(d, why). map_of (rev (rc_rejected r)) d = Some why}"
    using last_reasons [of "rc_rejected r"] by (auto simp: map_of_eq_Some_iff [symmetric])
  finally show ?thesis
    using d e by (intro exI [of _ "map ?f ?keys"])
      (simp add: receipt_of_json_def, simp add: receipt_to_json_def parse_cid_strings)
qed

end
