(* ===== verification/Server.thy ===== *)
theory Server
  imports Http Announce
begin

text \<open>
  The server of the HTTP binding, \<open>go/transport/server.go\<close>, as a function from a request and the
  state of the store to the response and the new state. A handler is \<open>None\<close> where it panics or does
  not return. The \<open>detail\<close> of a problem and the bytes and length of a JSON body are left out, and
  the two JSON decoders and \<open>mime.ParseMediaType\<close> are parameters.
\<close>

section \<open>Configuration\<close>

record 's server_config =
  cfg_store :: "('s \<Rightarrow> chain_store) option"
  cfg_announce :: "'s announcer option"
  cfg_prefix :: string
  cfg_default_range_limit :: int
  cfg_max_range_limit :: int
  cfg_max_digests :: int
  cfg_max_body_bytes :: int64

record 's server =
  sv_store :: "'s \<Rightarrow> chain_store"
  sv_announce :: "'s announcer option"
  sv_prefix :: string
  sv_default_limit :: int
  sv_max_limit :: int
  sv_max_digests :: int
  sv_max_body :: int64

definition default_prefix :: string where "default_prefix = ''/dialog/v1''"
definition min_batch_digests :: int where "min_batch_digests = 256"
definition default_range_limit :: int where "default_range_limit = 128"
definition max_range_limit :: int where "max_range_limit = 1024"
definition max_batch_digests :: int where "max_batch_digests = 4 * min_batch_digests"
definition max_body_bytes :: int64 where "max_body_bytes = push_bit 20 16"

datatype server_error = No_store | Too_few_digests int

definition pick :: "int \<Rightarrow> int \<Rightarrow> int" where
  "pick v dflt = (if v = 0 then dflt else v)"

definition pick64 :: "int64 \<Rightarrow> int64 \<Rightarrow> int64" where
  "pick64 v dflt = (if v = 0 then dflt else v)"

definition trim_slashes :: "string \<Rightarrow> string" where
  "trim_slashes s = rev (dropWhile (\<lambda>c. c = CHR ''/'') (rev (dropWhile (\<lambda>c. c = CHR ''/'') s)))"

definition server_prefix :: "string \<Rightarrow> string" where
  "server_prefix p =
    (let prefix = ''/'' @ trim_slashes (if p = '''' then default_prefix else p)
     in if prefix = ''/'' then '''' else prefix)"

definition new_server :: "'s server_config \<Rightarrow> server_error + 's server" where
  "new_server cfg =
    (case cfg_store cfg of
       None \<Rightarrow> Inl No_store
     | Some store \<Rightarrow>
        let sv = \<lparr>sv_store = store, sv_announce = cfg_announce cfg, sv_prefix = server_prefix (cfg_prefix cfg),
              sv_default_limit = pick (cfg_default_range_limit cfg) default_range_limit,
              sv_max_limit = pick (cfg_max_range_limit cfg) max_range_limit,
              sv_max_digests = pick (cfg_max_digests cfg) max_batch_digests,
              sv_max_body = pick64 (cfg_max_body_bytes cfg) max_body_bytes\<rparr>
        in if sv_max_digests sv < min_batch_digests then Inl (Too_few_digests (sv_max_digests sv))
           else Inr (sv\<lparr>sv_default_limit := min (sv_default_limit sv) (sv_max_limit sv)\<rparr>))"

section \<open>Requests and responses\<close>

record request =
  rq_method :: string
  rq_path :: string
  rq_query :: string
  rq_accept :: string
  rq_content_type :: string
  rq_if_none_match :: string
  rq_body :: reader

datatype body =
    No_body
  | Seq_body "byte list"
  | Problem_body problem
  | Receipt_body receipt_json

record response =
  rs_status :: nat
  rs_type :: string
  rs_length :: "nat option"
  rs_allow :: string
  rs_tip :: string
  rs_etag :: string
  rs_cache :: string
  rs_body :: body

definition is_head :: "request \<Rightarrow> bool" where
  "is_head rq \<longleftrightarrow> rq_method rq = ''HEAD''"

definition bare :: "nat \<Rightarrow> response" where
  "bare status = \<lparr>rs_status = status, rs_type = '''', rs_length = None, rs_allow = '''', rs_tip = '''', rs_etag = '''',
    rs_cache = '''', rs_body = No_body\<rparr>"

definition typed_problem :: "request \<Rightarrow> nat \<Rightarrow> string \<Rightarrow> response" where
  "typed_problem rq status ty =
    (bare status)\<lparr>rs_type := media_type_problem, rs_cache := ''no-store'',
      rs_body := (if is_head rq then No_body
        else Problem_body \<lparr>pb_type = ty, pb_title = title_for status ty, pb_status = status\<rparr>)\<rparr>"

definition plain_problem :: "request \<Rightarrow> nat \<Rightarrow> response" where
  "plain_problem rq status = typed_problem rq status problem_type_blank"

definition write_blocks :: "request \<Rightarrow> response \<Rightarrow> block list \<Rightarrow> response" where
  "write_blocks rq headers bs =
    headers\<lparr>rs_status := 200, rs_type := media_type_blocks, rs_length := Some (seq_len bs),
      rs_body := (if is_head rq then No_body else Seq_body (encode_seq bs))\<rparr>"

section \<open>Reading a request\<close>

definition read_method :: "request \<Rightarrow> response + unit" where
  "read_method rq =
    (if rq_method rq = ''GET'' \<or> rq_method rq = ''HEAD'' then Inr ()
     else Inl ((plain_problem rq 405)\<lparr>rs_allow := ''GET, HEAD''\<rparr>))"

definition post_method :: "request \<Rightarrow> response + unit" where
  "post_method rq =
    (if rq_method rq = ''POST'' then Inr () else Inl ((plain_problem rq 405)\<lparr>rs_allow := ''POST''\<rparr>))"

definition author_of :: "request \<Rightarrow> string \<Rightarrow> response + byte list" where
  "author_of rq text = mapErr (\<lambda>_. plain_problem rq 400) (parse_author_key_text text)"

definition position_of :: "request \<Rightarrow> string \<Rightarrow> response + digest option" where
  "position_of rq param =
    (let values = raw_query (rq_query rq) param
     in if values = [] then Inr None
        else if length values > 1 then Inl (plain_problem rq 400)
        else if values ! 0 = '''' \<or> values ! 0 = ''null'' then Inl (plain_problem rq 400)
        else bindE (mapErr (\<lambda>_. plain_problem rq 400) (parse_cid_string (values ! 0))) (\<lambda>c.
          Inr (Some (cid_digest c))))"

definition limit_of :: "'s server \<Rightarrow> request \<Rightarrow> response + int" where
  "limit_of sv rq =
    (let values = raw_query (rq_query rq) ''limit''
     in if values = [] then Inr (sv_default_limit sv)
        else if length values > 1 then Inl (plain_problem rq 400)
        else case atoi (values ! 0) of
            None \<Rightarrow> Inl (plain_problem rq 400)
          | Some n \<Rightarrow> if n \<le> 0 \<or> values ! 0 \<noteq> itoa n then Inl (plain_problem rq 400)
              else Inr (min n (sv_max_limit sv)))"

definition accept_of :: "request \<Rightarrow> response + unit" where
  "accept_of rq = (if accepts_block_seq (rq_accept rq) then Inr () else Inl (plain_problem rq 406))"

definition body_of :: "'s server \<Rightarrow> request \<Rightarrow> response + byte list" where
  "body_of sv rq =
    bindE (mapErr (\<lambda>_. plain_problem rq 400) (read_all (limit_reader (rq_body rq) (sv_max_body sv + 1)))) (\<lambda>raw.
    if int (length raw) > sint (sv_max_body sv) then Inl (plain_problem rq 413) else Inr raw)"

text \<open>A handler that answers early, or goes on to one that may not answer at all.\<close>

definition early :: "response + 'a \<Rightarrow> ('a \<Rightarrow> response option) \<Rightarrow> response option" where
  "early r f = (case r of Inl rs \<Rightarrow> Some rs | Inr x \<Rightarrow> f x)"

section \<open>The read operations\<close>

definition quoted :: "string \<Rightarrow> string" where
  "quoted s = [CHR 0x22] @ s @ [CHR 0x22]"

definition block_cid :: "crypto \<Rightarrow> block \<Rightarrow> string" where
  "block_cid cr b = cid_string (digest_cid (block_digest cr b))"

definition answer_tip :: "crypto \<Rightarrow> request \<Rightarrow> block option \<Rightarrow> response" where
  "answer_tip cr rq found =
    (case found of
       None \<Rightarrow> typed_problem rq 404 problem_not_held
     | Some tip \<Rightarrow>
        let etag = quoted (block_cid cr tip);
            headers = (bare 200)\<lparr>rs_etag := etag, rs_tip := block_cid cr tip, rs_cache := ''no-cache''\<rparr>
        in if matches_etag (rq_if_none_match rq) etag then headers\<lparr>rs_status := 304\<rparr>
           else write_blocks rq headers [tip])"

definition handle_tip :: "crypto \<Rightarrow> chain_store \<Rightarrow> request \<Rightarrow> string \<Rightarrow> response option" where
  "handle_tip cr st rq author =
    early (bindE (read_method rq) (\<lambda>_. bindE (author_of rq author) (\<lambda>pub. bindE (accept_of rq) (\<lambda>_. Inr pub)))) (\<lambda>pub.
    map_option (answer_tip cr rq) (tip_of cr st pub))"

definition handle_range :: "crypto \<Rightarrow> 's server \<Rightarrow> chain_store \<Rightarrow> request \<Rightarrow> string \<Rightarrow> response option" where
  "handle_range cr sv st rq author =
    early (bindE (read_method rq) (\<lambda>_. bindE (author_of rq author) (\<lambda>pub. bindE (position_of rq ''after'') (\<lambda>after.
      bindE (limit_of sv rq) (\<lambda>limit. bindE (accept_of rq) (\<lambda>_. Inr (pub, after, limit))))))) (\<lambda>(pub, after, limit).
    case serve_walk cr st pub after limit of
      None \<Rightarrow> None
    | Some blocks \<Rightarrow>
        (case tip_of cr st pub of
           None \<Rightarrow> None
         | Some tip \<Rightarrow>
             Some (write_blocks rq ((bare 200)\<lparr>rs_tip := (case tip of None \<Rightarrow> '''' | Some b \<Rightarrow> block_cid cr b),
               rs_cache := ''no-cache''\<rparr>) blocks)))"

definition handle_siblings :: "crypto \<Rightarrow> chain_store \<Rightarrow> request \<Rightarrow> string \<Rightarrow> response option" where
  "handle_siblings cr st rq author =
    early (bindE (read_method rq) (\<lambda>_. bindE (author_of rq author) (\<lambda>pub. bindE (position_of rq ''prev'') (\<lambda>prev.
      bindE (accept_of rq) (\<lambda>_. Inr (pub, prev)))))) (\<lambda>(pub, prev).
    Some (write_blocks rq ((bare 200)\<lparr>rs_cache := ''no-cache''\<rparr>) (sort_siblings cr (blocks_at st pub prev))))"

definition handle_block :: "chain_store \<Rightarrow> request \<Rightarrow> string \<Rightarrow> response option" where
  "handle_block st rq text =
    early (bindE (read_method rq) (\<lambda>_. bindE (mapErr (\<lambda>_. plain_problem rq 400) (parse_cid_string text)) (\<lambda>c.
      bindE (accept_of rq) (\<lambda>_. Inr c)))) (\<lambda>c.
    Some (case cs_block st (cid_digest c) of
       Inl e \<Rightarrow> if is_not_found e then typed_problem rq 404 problem_not_held else plain_problem rq 503
     | Inr b \<Rightarrow> write_blocks rq ((bare 200)\<lparr>rs_cache := ''public, max-age=31536000, immutable'',
         rs_etag := quoted (cid_string c)\<rparr>) [b]))"

record http_env =
  he_media :: media_parser
  he_fetch :: "byte list \<Rightarrow> string list option"

fun fetch_each :: "chain_store \<Rightarrow> request \<Rightarrow> (digest \<Rightarrow> bool) \<Rightarrow> string list \<Rightarrow> response + block list" where
  "fetch_each st rq seen [] = Inr []"
| "fetch_each st rq seen (text # texts) =
    bindE (mapErr (\<lambda>_. plain_problem rq 400) (parse_cid_string text)) (\<lambda>c.
    let d = cid_digest c
    in if seen d then Inl (plain_problem rq 400)
       else bindE (fetch_each st rq (seen(d := True)) texts) (\<lambda>bs.
         Inr (case cs_block st d of Inl e \<Rightarrow> bs | Inr b \<Rightarrow> b # bs)))"

definition handle_fetch :: "http_env \<Rightarrow> 's server \<Rightarrow> chain_store \<Rightarrow> request \<Rightarrow> response option" where
  "handle_fetch env sv st rq =
    early (bindE (post_method rq) (\<lambda>_.
      if \<not> media_type_is (he_media env) (rq_content_type rq) media_type_json then Inl (plain_problem rq 415)
      else bindE (accept_of rq) (\<lambda>_. bindE (body_of sv rq) (\<lambda>raw.
        case he_fetch env raw of
          None \<Rightarrow> Inl (plain_problem rq 400)
        | Some texts \<Rightarrow>
            if int (length texts) > sv_max_digests sv then Inl (plain_problem rq 413)
            else fetch_each st rq (\<lambda>_. False) texts)))) (\<lambda>blocks.
    Some (write_blocks rq ((bare 200)\<lparr>rs_cache := ''no-cache''\<rparr>) blocks))"

section \<open>Announcing\<close>

definition handle_announce :: "crypto \<Rightarrow> http_env \<Rightarrow> 's server \<Rightarrow> 's announcer \<Rightarrow> checks \<Rightarrow> request \<Rightarrow> 's \<Rightarrow> ('s \<times> response) option" where
  "handle_announce cr env sv announce ctx rq s =
    (case bindE (post_method rq) (\<lambda>_.
        if \<not> is_block_seq_type (he_media env) (rq_content_type rq) then Inl (plain_problem rq 415)
        else bindE (body_of sv rq) (\<lambda>raw. mapErr (\<lambda>_. plain_problem rq 400) (decode_seq cr raw))) of
       Inl rs \<Rightarrow> Some (s, rs)
     | Inr blocks \<Rightarrow>
        (case announce ctx blocks s of
           None \<Rightarrow> None
         | Some (s', Inl e) \<Rightarrow>
            Some (s', if e = Announce_refused then typed_problem rq 403 problem_announce_refused else plain_problem rq 503)
         | Some (s', Inr receipt) \<Rightarrow>
            Some (s', (bare 200)\<lparr>rs_type := media_type_json, rs_cache := ''no-store'',
              rs_body := (if is_head rq then No_body else Receipt_body (receipt_to_json receipt))\<rparr>)))"

section \<open>Dispatch\<close>

datatype endpoint =
    To_tip string
  | To_range string
  | To_siblings string
  | To_fetch
  | To_block string
  | To_announce
  | To_events
  | To_unknown

text \<open>
  The patterns \<open>NewServer\<close> registers, matched against a path without percent signs or empty and dot
  segments; the mux answers a redirect to any other.
\<close>

definition route :: "string \<Rightarrow> string \<Rightarrow> endpoint" where
  "route prefix path =
    (if take (length prefix) path \<noteq> prefix then To_unknown
     else case split_at (CHR ''/'') (drop (length prefix) path) of
         [e, a, b, c] \<Rightarrow>
           if e = '''' \<and> a = ''chains'' \<and> b \<noteq> '''' then
             (if c = ''tip'' then To_tip b else if c = ''blocks'' then To_range b
              else if c = ''siblings'' then To_siblings b else To_unknown)
           else To_unknown
       | [e, a, b] \<Rightarrow>
           if e = '''' \<and> a = ''blocks'' \<and> b \<noteq> '''' then (if b = ''fetch'' then To_fetch else To_block b) else To_unknown
       | [e, a] \<Rightarrow>
           if e = '''' \<and> a = ''announce'' then To_announce else if e = '''' \<and> a = ''events'' then To_events else To_unknown
       | _ \<Rightarrow> To_unknown)"

definition canonical_target :: "'s server \<Rightarrow> request \<Rightarrow> bool" where
  "canonical_target sv rq \<longleftrightarrow>
    \<not> (take (length (sv_prefix sv)) (rq_path rq) = sv_prefix sv \<and> CHR ''%'' \<in> set (drop (length (sv_prefix sv)) (rq_path rq)))"

definition not_offered :: "request \<Rightarrow> response" where
  "not_offered rq = typed_problem rq 404 problem_operation_not_offered"

definition serve_http :: "crypto \<Rightarrow> http_env \<Rightarrow> 's server \<Rightarrow> checks \<Rightarrow> request \<Rightarrow> 's \<Rightarrow> ('s \<times> response) option" where
  "serve_http cr env sv ctx rq s =
    (let st = sv_store sv s; reading = map_option (Pair s) in
     if \<not> canonical_target sv rq then Some (s, plain_problem rq 400)
     else case route (sv_prefix sv) (rq_path rq) of
         To_tip author \<Rightarrow> reading (handle_tip cr st rq author)
       | To_range author \<Rightarrow> reading (handle_range cr sv st rq author)
       | To_siblings author \<Rightarrow> reading (handle_siblings cr st rq author)
       | To_fetch \<Rightarrow> reading (handle_fetch env sv st rq)
       | To_block text \<Rightarrow> reading (handle_block st rq text)
       | To_announce \<Rightarrow>
          (case sv_announce sv of
             None \<Rightarrow> Some (s, not_offered rq)
           | Some announce \<Rightarrow> handle_announce cr env sv announce ctx rq s)
       | To_events \<Rightarrow> Some (s, not_offered rq)
       | To_unknown \<Rightarrow> Some (s, plain_problem rq 404))"

section \<open>Numbers\<close>

lemma digits: "n < 10 \<Longrightarrow> digit_of (digit_char n) = Some n \<and> CHR ''0'' \<le> digit_char n \<and> digit_char n \<le> CHR ''9''"
proof -
  have "list_all (\<lambda>n. digit_of (digit_char n) = Some n \<and> CHR ''0'' \<le> digit_char n \<and> digit_char n \<le> CHR ''9'') [0 ..< 10]"
    by code_simp
  then show "n < 10 \<Longrightarrow> ?thesis" by (simp add: list_all_iff)
qed

lemma digits_value_append:
  "digits_value acc (s @ t) = (case digits_value acc s of None \<Rightarrow> None | Some n \<Rightarrow> digits_value n t)"
  by (induction s arbitrary: acc) (auto split: option.splits)

lemma digits_value_decimal: "digits_value 0 (decimal_digits n) = Some n"
proof (induction n rule: decimal_digits.induct)
  case (1 n)
  show ?case
  proof (cases "n < 10")
    case True
    then show ?thesis by (simp add: decimal_digits.simps [of n] digits)
  next
    case False
    then show ?thesis using 1 by (simp add: decimal_digits.simps [of n] digits_value_append digits)
  qed
qed

lemma decimal_digits_chars: "c \<in> set (decimal_digits n) \<Longrightarrow> CHR ''0'' \<le> c \<and> c \<le> CHR ''9''"
proof (induction n rule: decimal_digits.induct)
  case (1 n)
  show ?case using 1 digits by (cases "n < 10") (auto simp: decimal_digits.simps [of n])
qed

lemma decimal_digits_nonempty [simp]: "decimal_digits n \<noteq> []"
  by (simp add: decimal_digits.simps [of n])

lemma atoi_itoa:
  assumes "0 < n" and "n < 2 ^ 63"
  shows "atoi (itoa n) = Some n"
proof -
  let ?s = "decimal_digits (nat n)"
  have "hd ?s \<in> set ?s" by simp
  from decimal_digits_chars [OF this] have h: "hd ?s \<noteq> CHR ''-''" "hd ?s \<noteq> CHR ''+''" by auto
  have "itoa n = ?s" using assms(1) by (simp add: itoa_def)
  then show ?thesis using h assms digits_value_decimal [of "nat n"] by (simp add: atoi_def Let_def)
qed

text \<open>A limit has one spelling.\<close>

lemma limit_of_Inr:
  "limit_of sv rq = Inr n \<longleftrightarrow>
    (let values = raw_query (rq_query rq) ''limit'' in
      values = [] \<and> n = sv_default_limit sv \<or>
      (\<exists>k. 0 < k \<and> k < 2 ^ 63 \<and> values = [itoa k] \<and> n = min k (sv_max_limit sv)))"
proof -
  let ?vs = "raw_query (rq_query rq) ''limit''"
  have "?vs = [] \<or> (\<exists>v. ?vs = [v]) \<or> 1 < length ?vs" by (cases ?vs; cases "tl ?vs") auto
  then consider "?vs = []" | v where "?vs = [v]" | "1 < length ?vs" by blast
  then show ?thesis
  proof cases
    case 2
    have "atoi v = Some k \<and> 0 < k \<and> v = itoa k \<longleftrightarrow> 0 < k \<and> k < 2 ^ 63 \<and> v = itoa k" for k
    proof -
      have "k < 2 ^ 63" if "atoi v = Some k" using that by (auto simp: atoi_def Let_def split: option.splits if_splits)
      then show ?thesis using atoi_itoa [of k] by blast
    qed
    then have "(\<exists>k. atoi v = Some k \<and> 0 < k \<and> v = itoa k \<and> n = min k (sv_max_limit sv)) \<longleftrightarrow>
        (\<exists>k. 0 < k \<and> k < 2 ^ 63 \<and> v = itoa k \<and> n = min k (sv_max_limit sv))" by metis
    then show ?thesis using 2 by (auto simp: limit_of_def Let_def not_le split: option.splits)
  qed (auto simp: limit_of_def Let_def)
qed

lemma early_eq_Some: "early r f = Some rs \<longleftrightarrow> r = Inl rs \<or> (\<exists>x. r = Inr x \<and> f x = Some rs)"
  by (auto simp: early_def split: sum.splits)

lemma early_None: "early r f = None \<longleftrightarrow> (\<exists>x. r = Inr x \<and> f x = None)"
  by (auto simp: early_def split: sum.splits)

lemma author_length: "author_of rq text = Inr pub \<Longrightarrow> length pub = 32"
  by (auto simp: author_of_def mapErr_eq_Inr parse_author_key_text_def bindE_eq_Inr parse_author_key_bytes_def
      author_key_prefixed_size_def author_key_prefix_def author_key_size_def split: if_splits)

section \<open>Answers over a validating store\<close>

text \<open>A server over a validating store, with its announcer or none, and limits that are not negative.\<close>

definition over_store :: "crypto \<Rightarrow> vstore server \<Rightarrow> bool" where
  "over_store cr sv \<longleftrightarrow> sv_store sv = vs_chains \<and> (sv_announce sv = None \<or> sv_announce sv = Some (store_announcer cr)) \<and>
    0 \<le> sv_default_limit sv \<and> 0 \<le> sv_max_limit sv"

lemma limit_nonneg: "over_store cr sv \<Longrightarrow> limit_of sv rq = Inr n \<Longrightarrow> 0 \<le> n"
  unfolding limit_of_Inr over_store_def Let_def by auto

lemma tip_returns:
  assumes "vs_ok cr B s" and "length pub = 32"
  shows "tip_of cr (vs_chains s) pub \<noteq> None"
  using vs_tip_range(1) [OF assms] by simp

lemma reads_answer:
  assumes "vs_ok cr B s" and "over_store cr sv"
  shows "handle_tip cr (vs_chains s) rq a \<noteq> None" and "handle_range cr sv (vs_chains s) rq a \<noteq> None"
    and "handle_siblings cr (vs_chains s) rq a \<noteq> None" and "handle_block (vs_chains s) rq a \<noteq> None"
    and "handle_fetch env sv (vs_chains s) rq \<noteq> None"
proof -
  show "handle_tip cr (vs_chains s) rq a \<noteq> None"
  proof
    assume "handle_tip cr (vs_chains s) rq a = None"
    then obtain pub where a: "author_of rq a = Inr pub" and n: "tip_of cr (vs_chains s) pub = None"
      by (auto simp: handle_tip_def early_None bindE_eq_Inr)
    then show False using tip_returns [OF assms(1) author_length [OF a]] by simp
  qed
  show "handle_range cr sv (vs_chains s) rq a \<noteq> None"
  proof
    assume "handle_range cr sv (vs_chains s) rq a = None"
    then obtain pub after limit where a: "author_of rq a = Inr pub" "limit_of sv rq = Inr limit"
      and n: "serve_walk cr (vs_chains s) pub after limit = None \<or> tip_of cr (vs_chains s) pub = None"
      by (auto simp: handle_range_def early_None bindE_eq_Inr split: option.splits) blast
    then show False using tip_returns [OF assms(1) author_length [OF a(1)]] limit_nonneg [OF assms(2) a(2)] by (simp add: serve_walk_def)
  qed
  show "handle_siblings cr (vs_chains s) rq a \<noteq> None" "handle_block (vs_chains s) rq a \<noteq> None"
    "handle_fetch env sv (vs_chains s) rq \<noteq> None"
    by (auto simp: handle_siblings_def handle_block_def handle_fetch_def early_None)
qed

lemma body_of_Inr: "body_of sv rq = Inr raw \<Longrightarrow> \<exists>n. raw = take n (rd_bytes (rq_body rq))"
  by (auto simp: body_of_def bindE_eq_Inr mapErr_eq_Inr read_all_def limit_reader_def split: option.splits if_splits
      intro: exI [of _ "length (rd_bytes (rq_body rq))"])

lemma announce_answers:
  assumes "vs_reach cr B opts s" and "offered cr B" and "wf (offered_links cr B)" and "0 \<le> scan_limit opts"
    and "\<And>n bs. decode_seq cr (take n (rd_bytes (rq_body rq))) = Inr bs \<Longrightarrow> set bs \<subseteq> B"
  shows "\<exists>t rs. handle_announce cr env sv (store_announcer cr) ctx rq s = Some (t, rs) \<and> vs_reach cr B opts t \<and> vs_grows s t \<and>
    (rq_method rq \<noteq> ''POST'' \<longrightarrow> t = s)"
proof (cases "bindE (post_method rq) (\<lambda>_.
        if \<not> is_block_seq_type (he_media env) (rq_content_type rq) then Inl (plain_problem rq 415)
        else bindE (body_of sv rq) (\<lambda>raw. mapErr (\<lambda>_. plain_problem rq 400) (decode_seq cr raw)))")
  case (Inl rs)
  then show ?thesis using assms(1) by (simp add: handle_announce_def)
next
  case (Inr bs)
  then obtain raw where raw: "body_of sv rq = Inr raw" "decode_seq cr raw = Inr bs" and p: "rq_method rq = ''POST''"
    by (auto simp: bindE_eq_Inr mapErr_eq_Inr post_method_def split: if_splits)
  have B: "set bs \<subseteq> B" using body_of_Inr [OF raw(1)] assms(5) raw(2) by blast
  obtain t r where o: "offer_all cr ctx 0 bs s (\<lambda>_. None) = Some (t, r)"
    using offer_all_returns [OF assms(2-4,1) B] by blast
  have t: "vs_reach cr B opts t" "vs_grows s t" using offer_all_ok [OF assms(2) o assms(1) B] by blast+
  have "\<exists>x. store_announcer cr ctx bs s = Some (t, x)" using o by (cases r) (simp_all add: store_announcer_def)
  then obtain x where x: "store_announcer cr ctx bs s = Some (t, x)" ..
  show ?thesis using Inr t p x by (cases x) (simp_all add: handle_announce_def)
qed

lemma serve_keeps:
  assumes "vs_reach cr B opts s" and "offered cr B" and "wf (offered_links cr B)" and "0 \<le> scan_limit opts"
    and "over_store cr sv" and "\<And>n bs. decode_seq cr (take n (rd_bytes (rq_body rq))) = Inr bs \<Longrightarrow> set bs \<subseteq> B"
  shows "\<exists>t rs. serve_http cr env sv ctx rq s = Some (t, rs) \<and> vs_reach cr B opts t \<and> vs_grows s t \<and>
    (rq_method rq \<noteq> ''POST'' \<longrightarrow> t = s)"
proof -
  have ok: "vs_ok cr B s" using reach_ok [OF assms(1,2)] by blast
  have st: "sv_store sv s = vs_chains s" using assms(5) by (simp add: over_store_def)
  note r = reads_answer [OF ok assms(5)]
  have stay: "\<exists>t rs. map_option (Pair s) x = Some (t, rs) \<and> vs_reach cr B opts t \<and> vs_grows s t \<and> (rq_method rq \<noteq> ''POST'' \<longrightarrow> t = s)"
    if "x \<noteq> None" for x :: "response option"
    using that assms(1) by auto
  note read = stay [OF r(1)] stay [OF r(2)] stay [OF r(3)] stay [OF r(4)] stay [OF r(5)]
  show ?thesis
  proof (cases "canonical_target sv rq")
    case False
    then show ?thesis using assms(1) by (simp add: serve_http_def)
  next
    case c: True
    show ?thesis
    proof (cases "route (sv_prefix sv) (rq_path rq)")
      case To_announce
      show ?thesis
      proof (cases "sv_announce sv")
        case None
        then show ?thesis using c To_announce assms(1) by (simp add: serve_http_def)
      next
        case (Some x)
        then have "x = store_announcer cr" using assms(5) by (auto simp: over_store_def)
        then show ?thesis using c To_announce Some announce_answers [OF assms(1-4), of rq env sv ctx] assms(6)
          by (simp add: serve_http_def)
      qed
    next
      case To_events
      then show ?thesis using c assms(1) by (simp add: serve_http_def)
    next
      case To_unknown
      then show ?thesis using c assms(1) by (simp add: serve_http_def)
    qed (simp_all only: serve_http_def st Let_def c read not_True_eq_False if_False endpoint.case)
  qed
qed

section \<open>Properties of the server\<close>

lemma new_server_Inr:
  "new_server cfg = Inr sv \<longleftrightarrow> (\<exists>store. cfg_store cfg = Some store \<and>
    min_batch_digests \<le> pick (cfg_max_digests cfg) max_batch_digests \<and>
    sv = \<lparr>sv_store = store, sv_announce = cfg_announce cfg, sv_prefix = server_prefix (cfg_prefix cfg),
      sv_default_limit = min (pick (cfg_default_range_limit cfg) default_range_limit) (pick (cfg_max_range_limit cfg) max_range_limit),
      sv_max_limit = pick (cfg_max_range_limit cfg) max_range_limit,
      sv_max_digests = pick (cfg_max_digests cfg) max_batch_digests,
      sv_max_body = pick64 (cfg_max_body_bytes cfg) max_body_bytes\<rparr>)"
  by (auto simp: new_server_def Let_def split: option.splits)

text \<open>The configuration of a server over a validating store that leaves every bound at its default.\<close>

definition default_config :: "crypto \<Rightarrow> vstore server_config" where
  "default_config cr = \<lparr>cfg_store = Some vs_chains, cfg_announce = Some (store_announcer cr), cfg_prefix = '''',
    cfg_default_range_limit = 0, cfg_max_range_limit = 0, cfg_max_digests = 0, cfg_max_body_bytes = 0\<rparr>"

lemma default_server:
  obtains sv where "new_server (default_config cr) = Inr sv" and "over_store cr sv" and "sv_default_limit sv = 128"
    and "sv_max_limit sv = 1024"
proof -
  have "\<exists>sv. new_server (default_config cr) = Inr sv \<and> over_store cr sv \<and> sv_default_limit sv = 128 \<and> sv_max_limit sv = 1024"
    unfolding new_server_Inr
    by (simp add: default_config_def over_store_def pick_def default_range_limit_def max_range_limit_def
        max_batch_digests_def min_batch_digests_def)
  then show thesis using that by blast
qed

lemma method_get: "rq_method rq = ''GET'' \<Longrightarrow> read_method rq = Inr () \<and> \<not> is_head rq"
  by (simp add: read_method_def is_head_def)

lemma author_canonical: "author_key_text pub = Inr a \<Longrightarrow> author_of rq a = Inr pub \<and> length pub = 32"
  by (simp add: author_of_def author_text_self) (auto simp: author_key_text_def author_key_size_def split: if_splits)

lemma range_answer:
  assumes "vs_ok cr B s" and "over_store cr sv" and "rq_method rq = ''GET''" and "author_key_text pub = Inr a"
    and "position_of rq ''after'' = Inr p" and "limit_of sv rq = Inr n" and "accepts_block_seq (rq_accept rq)"
  defines "bs \<equiv> walk_from cr (vs_chains s) pub (nat n) p" and "ws \<equiv> served_chain cr (vs_chains s) pub"
  shows "handle_range cr sv (vs_chains s) rq a = Some (write_blocks rq ((bare 200)\<lparr>
    rs_tip := (if ws = [] then '''' else block_cid cr (last ws)), rs_cache := ''no-cache''\<rparr>) bs)"
proof -
  have a: "author_of rq a = Inr pub" "length pub = 32" using author_canonical [OF assms(4)] by blast+
  have n: "0 \<le> n" by (rule limit_nonneg [OF assms(2,6)])
  show ?thesis
    using a assms(5-7) method_get [OF assms(3)] n vs_tip_range(1) [OF assms(1) a(2)]
    by (simp add: handle_range_def early_def accept_of_def serve_walk_def bs_def ws_def)
qed

text \<open>
  C24. The range operation. A well-formed request is answered with a run of the author's blocks after the
  position asked about that passes the client's check, no longer than the limit, and shorter only
  where no block the store holds continues it; the header names the tip the tip operation answers.
\<close>

theorem ranges_answered:
  assumes "vs_reach cr B opts s" and "offered cr B" and "over_store cr sv" and "rq_method rq = ''GET''"
    and "author_key_text pub = Inr a" and "position_of rq ''after'' = Inr p" and "limit_of sv rq = Inr n"
    and "accepts_block_seq (rq_accept rq)"
  shows "\<exists>rs bs. handle_range cr sv (vs_chains s) rq a = Some rs \<and> rs_status rs = 200 \<and> rs_type rs = media_type_blocks \<and>
    rs_body rs = Seq_body (encode_seq bs) \<and> check_range cr bs p = Inr () \<and> int (length bs) \<le> n \<and>
    (\<forall>b \<in> set bs. block_pub b = pub \<and> vs_held s (block_digest cr b) = Some b) \<and>
    (int (length bs) < n \<longrightarrow> (\<forall>d b. vs_held s d = Some b \<longrightarrow> block_pub b = pub \<longrightarrow>
      block_prev b \<noteq> (if bs = [] then p else Some (block_digest cr (last bs))))) \<and>
    tip_of cr (vs_chains s) pub \<noteq> None \<and>
    rs_tip rs = (case the (tip_of cr (vs_chains s) pub) of None \<Rightarrow> '''' | Some b \<Rightarrow> block_cid cr b)"
proof -
  have ok: "vs_ok cr B s" using reach_ok [OF assms(1,2)] by blast
  have len: "length pub = 32" using author_canonical [OF assms(5), of rq] by blast
  let ?bs = "walk_from cr (vs_chains s) pub (nat n) p" and ?ws = "served_chain cr (vs_chains s) pub"
  let ?rs = "write_blocks rq ((bare 200)\<lparr>rs_tip := (if ?ws = [] then '''' else block_cid cr (last ?ws)), rs_cache := ''no-cache''\<rparr>) ?bs"
  have w: "run_after cr p ?bs" "b \<in> set ?bs \<Longrightarrow> vs_held s (block_digest cr b) = Some b \<and> block_pub b = pub" for b
    using vs_served.walk_run [OF ok len] by (simp_all only: serves_vs)
  have n: "0 \<le> n" by (rule limit_nonneg [OF assms(3,7)])
  have tip: "tip_of cr (vs_chains s) pub = Some (if ?ws = [] then None else Some (last ?ws))" by (rule vs_tip_range(1) [OF ok len])
  have "block_prev b \<noteq> (if ?bs = [] then p else Some (block_digest cr (last ?bs)))"
    if "int (length ?bs) < n" and "vs_held s d = Some b" and "block_pub b = pub" for d b
  proof -
    have "block_digest cr b = d" using get_block_member [OF ok] that(2) by (simp add: get_block_held)
    then have "block_prev b = q \<Longrightarrow> b \<in> set (blocks_at (vs_chains s) pub q)" for q
      using that(2,3) vs_served.blocks_at_set [OF ok len, of q] by (simp add: serves_vs)
    moreover have "length ?bs < nat n" using that(1) n by simp
    ultimately show ?thesis using walk_last [of cr "vs_chains s" pub "nat n" p] by force
  qed
  moreover have "check_range cr ?bs p = Inr ()" unfolding check_range_iff using w by blast
  moreover have "int (length ?bs) \<le> n" using walk_length [of cr "vs_chains s" pub "nat n" p] n by simp
  moreover have "handle_range cr sv (vs_chains s) rq a = Some ?rs" by (rule range_answer [OF ok assms(3-8)])
  moreover have "rs_status ?rs = 200 \<and> rs_type ?rs = media_type_blocks \<and> rs_body ?rs = Seq_body (encode_seq ?bs)"
    using method_get [OF assms(4)] by (simp add: write_blocks_def)
  moreover have "rs_tip ?rs = (case the (tip_of cr (vs_chains s) pub) of None \<Rightarrow> '''' | Some b \<Rightarrow> block_cid cr b)"
    unfolding tip by (simp add: write_blocks_def)
  ultimately show ?thesis using w(2) tip by (intro exI [of _ ?rs] exI [of _ ?bs]) blast
qed


text \<open>
  A limit is spelled in one way: the request has none, or one value that is the decimal form of a
  positive number below the largest the code counts with, and the server caps it.
\<close>

theorem limits_spelled:
  "limit_of sv rq = Inr n \<longleftrightarrow>
    (let values = raw_query (rq_query rq) ''limit'' in
      values = [] \<and> n = sv_default_limit sv \<or>
      (\<exists>k. 0 < k \<and> k < 2 ^ 63 \<and> values = [itoa k] \<and> n = min k (sv_max_limit sv)))"
  by (rule limit_of_Inr)

text \<open>A request of the tip, for the witnesses.\<close>

definition get_request :: "string \<Rightarrow> string \<Rightarrow> request" where
  "get_request path query = \<lparr>rq_method = ''GET'', rq_path = path, rq_query = query, rq_accept = '''',
    rq_content_type = '''', rq_if_none_match = '''', rq_body = \<lparr>rd_bytes = [], rd_fault = None\<rparr>\<rparr>"

lemma get_request_empty: "decode_seq cr (take n (rd_bytes (rq_body (get_request path query)))) = Inr bs \<Longrightarrow> bs = []"
  using decode_block_prefix(2) [of cr "[]" "hd bs" "[]"]
  by (cases bs) (auto simp: get_request_def decode_seq_iff small_def self_read_def)

lemma trim_empty: "trim_with sps [] = []"
  by (subst trim_with.simps) (auto simp: find_None_iff find_Some_iff split: option.split)

lemma accept_empty: "accepts_block_seq ''''"
  by (simp add: accepts_block_seq_def trim_space_def trim_empty)

lemma sample_queries: "raw_query ''limit=1'' ''limit'' = [''1'']" "raw_query ''limit=1'' ''after'' = []"
  "raw_query ''limit=7'' ''limit'' = [''7'']" "raw_query '''' ''limit'' = []" "itoa 7 = ''7''" "itoa 1 = ''1''"
  by code_simp+

theorem ranges_answered_witness:
  "\<exists>cr s sv a rs b. new_server (default_config cr) = Inr sv \<and> vs_held s 5 = Some b \<and> author_key_text (block_pub b) = Inr a \<and>
    handle_range cr sv (vs_chains s) (get_request '''' ''limit=1'') a = Some rs \<and> rs_status rs = 200"
proof -
  obtain cr b w t where t: "two_refs cr b w" "vs_reach cr {b, w} None t" "vs_held t 5 = Some b"
    by (rule two_adds) (rule that)
  have len: "length (block_pub b) = 32" using t(1) sound_pub_length by (auto simp: two_refs_def)
  obtain sv where sv: "new_server (default_config cr) = Inr sv" "over_store cr sv" "sv_max_limit sv = 1024" by (rule default_server)
  obtain a where a: "author_key_text (block_pub b) = Inr a" using len by (simp add: author_key_text_def author_key_size_def)
  let ?rq = "get_request '''' ''limit=1''"
  have rq: "rq_method ?rq = ''GET''" "rq_accept ?rq = ''''" "rq_query ?rq = ''limit=1''" by (simp_all add: get_request_def)
  have p: "position_of ?rq ''after'' = Inr None" by (simp add: position_of_def rq sample_queries)
  have n: "limit_of sv ?rq = Inr 1"
    unfolding limit_of_Inr by (simp add: rq sample_queries sv(3)) (rule exI [of _ 1], simp add: sample_queries)
  have "accepts_block_seq (rq_accept ?rq)" by (simp add: rq accept_empty)
  from ranges_answered [OF t(2) two_refs_offered(1) [OF t(1)] sv(2) rq(1) a p n this]
  obtain rs where "handle_range cr sv (vs_chains t) ?rq a = Some rs" "rs_status rs = 200" by (elim exE conjE) (rule that)
  then show ?thesis using sv(1) t(3) a by blast
qed


theorem limits_spelled_witness:
  "\<exists>cr sv. new_server (default_config cr) = Inr sv \<and> limit_of sv (get_request '''' ''limit=7'') = Inr 7 \<and>
    limit_of sv (get_request '''' '''') = Inr 128"
proof -
  obtain sv where sv: "new_server (default_config sample_crypto) = Inr sv" "sv_default_limit sv = 128" "sv_max_limit sv = 1024"
    by (rule default_server)
  have "limit_of sv (get_request '''' ''limit=7'') = Inr 7"
    unfolding limits_spelled by (simp add: get_request_def sample_queries sv(3)) (rule exI [of _ 7], simp add: sample_queries)
  moreover have "limit_of sv (get_request '''' '''') = Inr 128"
    unfolding limits_spelled by (simp add: get_request_def sample_queries sv(2))
  ultimately show ?thesis using sv(1) by blast
qed

section \<open>Limits that are not checked\<close>

text \<open>A negative default limit is accepted by the constructor, and a range request without a limit then panics.\<close>

lemma negative_limit_panics:
  assumes "sv_default_limit sv < 0" and "rq_method rq = ''GET''" and "author_key_text pub = Inr a"
    and "position_of rq ''after'' = Inr p" and "raw_query (rq_query rq) ''limit'' = []" and "accepts_block_seq (rq_accept rq)"
  shows "handle_range cr sv st rq a = None"
  using author_canonical [OF assms(3), of rq] assms method_get [OF assms(2)]
  by (simp add: handle_range_def early_def accept_of_def serve_walk_def limit_of_def)

end
