(* ===== verification/Spec2Isabelle.thy ===== *)
theory Spec2Isabelle
  imports Dcbor_Canon Cid_Text Timestamp Verdict_Store Builder Accept_Laws Server
begin

text \<open>
  A verification library for the Go implementation of Dialog (\<open>go/\<close>).

  \<^bold>\<open>The program.\<close> Dialog publishes signed, append-only chains of blocks. The operations of a block
  create atoms, bonds and molecules, which are content-addressed entities, and a rotation hands a
  chain over to a new key. The packages, lowest first: deterministic CBOR (\<open>go/dcbor\<close>), content
  identifiers (\<open>go/cid\<close>), entities (\<open>go/entity\<close>), blocks, their validation, chains, stores and
  the author's builder (\<open>go/block\<close>), the graph of ingested content (\<open>go/graph\<close>), the view a
  subscriber accepts (\<open>go/accept\<close>) and the HTTP binding (\<open>go/transport\<close>). A block is decoded,
  validated against what a source returns, filed by a validating store with its verdict, ingested
  into the graph, and read through a view of the graph for a set of subscribed authors. The server
  answers from a store and offers it what is announced; the builder writes the chains.

  \<^bold>\<open>Conventions.\<close> A definition has the name of the Go function in lower case with underscores.
  A struct is a record or a datatype, an interface with a closed set of implementations a
  datatype. A function that returns an error gives a sum, \<open>Inl\<close> the error; where it may fail to
  return, or panic, an option of it, \<open>None\<close> being that outcome. A method that changes its receiver
  takes and returns it, also on its error paths. \<open>[]byte\<close> is a list of 8-bit words, \<open>int64\<close> and
  \<open>uint64\<close> are 64-bit words with the wrap-around of Go, a \<open>Digest\<close> is the 256-bit word whose
  big-endian bytes it holds (so its order is the bytewise one), a key a list of 32 bytes, a
  string a list of characters. A map read and written by key only is a function; one that the
  code ranges over is an association list. The text of error messages is left out.

  \<^bold>\<open>Parameters.\<close> Code that is not in the repository is an argument: SHA-256 and Ed25519 are the
  fields of the record \<open>crypto\<close>, and what is relied on is stated where it is used (a digest
  names one block among those held, the samples use a concrete scheme). A block source, with its
  optional interfaces, is a record of functions; so is a decrypter. \<open>mime.ParseMediaType\<close>, the
  JSON decoder and the checks of a context are arguments of the transport theories.

  \<^bold>\<open>Shared theories.\<close>
  \<^item> \<open>Prelude\<close>: the error monad, bytes, strings, big-endian integers, UTF-8, signed 64-bit
    arithmetic, and the locale \<open>codec\<close>, the contract of a strict encoder and decoder.
  \<^item> \<open>Loop\<close>: loops with errors that may not end. \<open>Ordered\<close>: ascending lists without
    repetition, the form of every index. \<open>Runs\<close>: grouping a sorted list.
  \<^item> \<open>Samples\<close>: signed blocks of two keys for the concrete inputs.

  \<^bold>\<open>Encodings and entities.\<close>
  \<^item> \<open>Dcbor_Value\<close>, \<open>Dcbor_Encode\<close>, \<open>Dcbor_Decode\<close> (\<open>value.go\<close>, \<open>encode.go\<close>, \<open>decode.go\<close> of
    \<open>go/dcbor\<close>); \<open>Dcbor_Roundtrip\<close> proves encoder and decoder inverse, \<open>Dcbor_Canon\<close> gives the
    canonical order, \<open>Equal\<close>, the nesting bound and the interpretation \<open>dcbor\<close> of \<open>codec\<close>.
  \<^item> \<open>Cid\<close>, \<open>Cid_Text\<close> (\<open>go/cid\<close>): bytes, hex and base32 forms, and which texts are accepted.
  \<^item> \<open>Entity\<close>, \<open>Filler\<close>, \<open>Timestamp\<close>, \<open>Atom_Bond\<close>, \<open>Molecule\<close> (\<open>go/entity\<close>): constructors,
    decoders and templates; each decoder accepts exactly the canonical encodings of what the
    constructor makes. \<open>Atom_Bond\<close> interprets \<open>codec\<close> as \<open>atoms\<close> and \<open>bonds\<close>.

  \<^bold>\<open>Blocks\<close> (\<open>go/block\<close>).
  \<^item> \<open>Block_Op\<close> (\<open>op.go\<close>), \<open>Block\<close> (\<open>block.go\<close>, \<open>payload.go\<close>, \<open>decode.go\<close>): signing,
    assembling and decoding, the structural rules, payloads.
  \<^item> \<open>Store\<close> (\<open>store.go\<close>): the three indexes of the in-memory store, forks and rotations; the
    locale \<open>block_store\<close> (a store as a map) with its interpretation \<open>mem\<close>.
  \<^item> \<open>Validate\<close> (\<open>validate.go\<close>): the ten rules and the demand-driven search for the entities a
    block names. \<open>Resolution\<close>: the search as steps with invariants. \<open>Validation\<close>: what each
    outcome is evidence of, when validation returns, and a source on which it does not.
  \<^item> \<open>Chain\<close> (\<open>chain.go\<close>): walks, chains, successions, histories.
  \<^item> \<open>Verdict_Store\<close> (\<open>verdict.go\<close>): the store that validates on arrival and again when what a
    block waits for arrives, as a state with reachability and invariants.
  \<^item> \<open>Builder\<close> (\<open>builder.go\<close>): the author's state machine.

  \<^bold>\<open>Graph and acceptance.\<close>
  \<^item> \<open>Graph\<close> (\<open>go/graph\<close>): ingestion refines a set of facts "this block creates this entity".
  \<^item> \<open>Subscriptions\<close>, \<open>Union_Find\<close>, \<open>Accept_View\<close> (\<open>subscriptions.go\<close>, \<open>meta.go\<close> and the types of
    \<open>accept.go\<close>, \<open>conflict.go\<close>, \<open>declaration.go\<close>): subscribed authors, the equivalence closure,
    filtering and reading of meta-molecules.
  \<^item> \<open>Block_Order\<close>, \<open>Ambiguity\<close> (\<open>order.go\<close>): positions in an author's lineage across rotations,
    and where it is ambiguous. \<open>Standing\<close> (\<open>standing.go\<close>): which meta-molecules are backed.
    \<open>Truth\<close> (\<open>truth.go\<close>): last words and truth states.
  \<^item> \<open>Cycles\<close>, \<open>Relations\<close> (\<open>supersede.go\<close>): Tarjan's algorithm with its correctness proof,
    supersession, contradiction, declarations.
  \<^item> \<open>Accept\<close> (\<open>accept.go\<close>): \<open>Build\<close> and the queries. \<open>Accept_Laws\<close>: what the queries answer, in
    terms of what the subscribed authors published, and that the order of ingestion is immaterial.

  \<^bold>\<open>Transport\<close> (\<open>go/transport\<close>).
  \<^item> \<open>Seq\<close> (\<open>seq.go\<close>): block sequences, bounded reading, the client's checks of a range and of a
    sibling set.
  \<^item> \<open>Http\<close> (\<open>mediatype.go\<close>, \<open>problem.go\<close>, and the strings of a request): queries, media types,
    entity tags, problems.
  \<^item> \<open>Serving\<close> (the walks of \<open>server.go\<close>): the locale \<open>served\<close>, what a store promises a server,
    with \<open>mem_served\<close> and \<open>vs_served\<close> for the two stores; the tip and the ranges.
  \<^item> \<open>Announce\<close> (\<open>announce.go\<close>): receipts. \<open>Server\<close> (\<open>server.go\<close>): routing and the handlers, a
    function from a request and the store to a response and the store.

  \<^bold>\<open>Bounds.\<close> The decoder and the encoder recurse to the depth of 64 levels that the code allows.
  Tarjan's recursion is bounded by the number of nodes, which is proved enough. The walk to the
  tip ends because the digests are finitely many; a range is bounded by its limit. The searches of
  validation and of the chain walk are loops that may not end, and that they end is a theorem:
  when the scan limit is on and the predecessor links are well-founded. Inputs are shorter than
  \<open>2 ^ 64\<close> bytes, as every Go slice is.

  \<^bold>\<open>Not modelled.\<close> Mutexes and concurrent calls (one operation runs at a time); nil blocks and nil
  operations inside slices; aliasing of slices, which the queries copy; texts of errors, of
  \<open>String\<close> methods and of JSON bodies; the redirects of \<open>http.ServeMux\<close>; the HTTP client, the
  synchroniser and the resolver over remote sources (\<open>client.go\<close>, \<open>sync.go\<close>, \<open>resolver.go\<close>),
  which drive network calls; the encryption of private blocks (\<open>go/privacy\<close>), whose ciphers are
  outside the repository; the commands, test support, linter rules, the demonstration (\<open>demo/\<close>)
  and the TypeScript implementation (\<open>ts/\<close>).

  \<^bold>\<open>What modelling showed.\<close> The base32 parsers accept further spellings of every identifier; the
  search of validation has no guard against a source whose predecessor links run in a circle; a
  block that waits for two missing blocks is filed under the first alone and stays undecided when
  the second decides it; a withheld reference can turn an acceptable block into a rejected one; a
  bound of \<open>math.MaxInt64\<close> bytes makes every stream read as empty; a server with a negative range
  limit panics. Each is a lemma of the theory concerned.
\<close>

end
